(* ===== verification/Prelude.thy ===== *)
theory Prelude
  imports "HOL-Library.Word" "HOL-Library.Sublist"
begin

unbundle bit_operations_syntax

text \<open>
  Shared vocabulary of the development: the machine types of the C++ code as words,
  byte strings, the development's theorem collections, and generic lemmas on lists,
  bits and words that several components use.
\<close>

section \<open>Types\<close>

type_synonym byte = "8 word"
type_synonym u32 = "32 word"
type_synonym u64 = "64 word"

text \<open>A \<open>std::string\<close> or the bytes a \<open>Slice\<close> points to.\<close>

type_synonym bytes = "byte list"

text \<open>C++ string literals: the bytes of the characters.\<close>

definition str :: "string \<Rightarrow> bytes" where
  "str s = map (\<lambda>c. of_nat (of_char c)) s"

section \<open>Theorem collections\<close>

named_theorems roundtrip_simps \<open>decoders applied to the encoder's output\<close>
named_theorems length_simps \<open>sizes of encodings\<close>
named_theorems inv_intros \<open>operations preserve their component's invariant\<close>

section \<open>Lists\<close>

lemma take_length_append [simp]: "length xs = n \<Longrightarrow> take n (xs @ ys) = xs"
  by simp

lemma drop_length_append [simp]: "length xs = n \<Longrightarrow> drop n (xs @ ys) = ys"
  by simp

lemma length_Suc4: "length xs = 4 \<longleftrightarrow> (\<exists>a b c d. xs = [a, b, c, d])"
  by (auto simp: numeral_eq_Suc length_Suc_conv)

text \<open>Where the parts of a concatenation start.\<close>

definition part_start :: "'a list list \<Rightarrow> nat \<Rightarrow> nat" where
  "part_start xss k = length (concat (take k xss))"

lemma start_0 [simp]: "part_start xss 0 = 0"
  by (simp add: part_start_def)

lemma start_Suc: "k < length xss \<Longrightarrow> part_start xss (Suc k) = part_start xss k + length (xss ! k)"
  by (simp add: part_start_def take_Suc_conv_app_nth)

lemma start_all: "length xss \<le> k \<Longrightarrow> part_start xss k = length (concat xss)"
  by (simp add: part_start_def)

lemma start_mono: "k \<le> l \<Longrightarrow> part_start xss k \<le> part_start xss l"
  using take_add [of k "l - k" xss] by (simp add: part_start_def)

lemma nth_start: "k < length xss \<Longrightarrow> p < length (xss ! k) \<Longrightarrow> concat xss ! (part_start xss k + p) = xss ! k ! p"
proof -
  assume k: "k < length xss" and p: "p < length (xss ! k)"
  have "concat xss = concat (take k xss) @ xss ! k @ concat (drop (Suc k) xss)"
    using k by (metis concat.simps(2) concat_append id_take_nth_drop)
  then show ?thesis using p by (simp add: part_start_def nth_append)
qed

lemma start_less: "k < length xss \<Longrightarrow> p < length (xss ! k) \<Longrightarrow> part_start xss k + p < length (concat xss)"
  using start_mono [of "Suc k" "length xss" xss] start_all [of xss "length xss"] by (simp add: start_Suc)

lemma start_split: "i < length (concat xss) \<Longrightarrow> \<exists>k p. k < length xss \<and> p < length (xss ! k) \<and> i = part_start xss k + p"
proof (induction xss arbitrary: i rule: rev_induct)
  case (snoc xs xss)
  show ?case
  proof (cases "i < length (concat xss)")
    case True
    with snoc.IH obtain k p where "k < length xss" "p < length (xss ! k)" "i = part_start xss k + p" by blast
    then show ?thesis by (intro exI [of _ k] exI [of _ p]) (simp add: nth_append part_start_def)
  next
    case False
    then show ?thesis using snoc.prems
      by (intro exI [of _ "length xss"] exI [of _ "i - length (concat xss)"]) (simp add: part_start_def)
  qed
qed simp

lemma start_part: "k < length xss \<Longrightarrow> take (part_start xss (Suc k) - part_start xss k) (drop (part_start xss k) (concat xss)) = xss ! k"
proof -
  assume k: "k < length xss"
  then have "concat xss = concat (take k xss) @ xss ! k @ concat (drop (Suc k) xss)"
    by (metis concat.simps(2) concat_append id_take_nth_drop)
  then show ?thesis using k by (simp add: start_Suc) (simp add: part_start_def)
qed

lemma start_append: "k \<le> length xss \<Longrightarrow> part_start (xss @ yss) k = part_start xss k"
  by (simp add: part_start_def)

section \<open>Bits and words\<close>

lemma bit_byte_high: "8 \<le> n \<Longrightarrow> \<not> bit (b :: byte) n"
  by (auto dest: bit_imp_le_length)

lemma bit_u32_high: "32 \<le> n \<Longrightarrow> \<not> bit (b :: u32) n"
  by (auto dest: bit_imp_le_length)

lemma bit_u64_high: "64 \<le> n \<Longrightarrow> \<not> bit (b :: u64) n"
  by (auto dest: bit_imp_le_length)

text \<open>Bits of the masks the varint code uses; the library's rule would turn them into \<open>nat\<close> numerals.\<close>

declare bit_numeral_word_iff [simp del]

lemmas word_bits = bit_and_iff bit_or_iff bit_xor_iff bit_unsigned_iff bit_push_bit_iff
  bit_drop_bit_eq bit_take_bit_iff possible_bit_def

lemma bit_128_iff: "bit (128 :: 'a::len word) n \<longleftrightarrow> n = 7 \<and> 7 < LENGTH('a)"
proof -
  have "bit (push_bit 7 1 :: 'a word) n \<longleftrightarrow> n = 7 \<and> 7 < LENGTH('a)"
    by (auto simp: bit_push_bit_iff bit_1_iff simp del: push_bit_of_1)
  then show ?thesis by (simp add: push_bit_eq_mult)
qed

lemma bit_127_iff: "bit (127 :: 'a::len word) n \<longleftrightarrow> n < 7 \<and> n < LENGTH('a)"
proof -
  have "bit (mask 7 :: 'a word) n \<longleftrightarrow> n < 7 \<and> n < LENGTH('a)"
    by (auto simp: bit_mask_iff)
  then show ?thesis by (simp add: mask_eq_exp_minus_1)
qed

lemma unat_lt_exp_bit:
  assumes "unat v < 2 ^ k" and "k \<le> n"
  shows "\<not> bit (v :: 'a::len word) n"
proof
  assume "bit v n"
  then have "bit (unat v) n" by (simp add: bit_unsigned_iff possible_bit_def)
  moreover have "take_bit k (unat v) = unat v" using assms(1) by (simp add: take_bit_nat_eq_self_iff)
  ultimately have "bit (take_bit k (unat v)) n" by simp
  then show False using assms(2) by (simp add: bit_take_bit_iff)
qed

lemma unat_drop_bit: "unat (drop_bit k (v :: 'a::len word)) = unat v div 2 ^ k"
  by (metis drop_bit_eq_div unat_drop_bit_eq)

lemma unat_two_power: "k < LENGTH('a) \<Longrightarrow> unat (2 ^ k :: 'a::len word) = 2 ^ k"
proof -
  assume k: "k < LENGTH('a)"
  have "unat (of_nat (2 ^ k) :: 'a word) = 2 ^ k mod 2 ^ LENGTH('a)" by (rule unat_of_nat)
  also have "\<dots> = 2 ^ k" using k by simp
  finally show ?thesis by simp
qed

lemma unat_ucast_u64 [simp]: "unat (ucast (v :: u32) :: u64) = unat v"
  using unsigned_less [of v, where 'a = nat]
  by (simp add: unsigned_ucast_eq take_bit_nat_eq_self_iff)

lemma ucast_ucast_u32 [simp]: "ucast (ucast (v :: u32) :: u64) = v"
  by (rule bit_word_eqI) (auto simp: word_bits)

section \<open>Little-endian byte strings\<close>

fun le_encode :: "nat \<Rightarrow> 'a::len word \<Rightarrow> bytes" where
  "le_encode 0 v = []"
| "le_encode (Suc n) v = ucast v # le_encode n (drop_bit 8 v)"

fun le_decode :: "bytes \<Rightarrow> 'a::len word" where
  "le_decode [] = 0"
| "le_decode (b # bs) = ucast b OR push_bit 8 (le_decode bs)"

lemma take_bit_byte_step:
  "ucast (ucast v :: byte) OR push_bit 8 (take_bit m (drop_bit 8 v)) = take_bit (8 + m) (v :: 'a::len word)"
  by (rule bit_word_eqI) (auto simp: bit_simps)

lemma le_decode_encode: "le_decode (le_encode n v) = take_bit (8 * n) v"
  by (induction n arbitrary: v) (simp_all add: take_bit_byte_step)

lemma le_decode_encode_full [simp]:
  "8 * n = LENGTH('a) \<Longrightarrow> le_decode (le_encode n (v :: 'a::len word)) = v"
  by (simp add: le_decode_encode take_bit_length_eq)

lemma ucast_byte_or_push_bit:
  "8 \<le> LENGTH('a) \<Longrightarrow> ucast (ucast b OR push_bit 8 (w :: 'a::len word)) = (b :: byte)"
  by (rule bit_word_eqI) (auto simp: bit_simps)

lemma bit_le_decode: "bit (le_decode bs :: 'a::len word) n \<Longrightarrow> n < 8 * length bs"
proof (induction bs arbitrary: n)
  case (Cons b bs)
  show ?case
  proof (cases "n < 8")
    case False
    then have "bit (le_decode bs :: 'a word) (n - 8)"
      using Cons.prems bit_byte_high [of n b] by (auto simp: bit_simps)
    then have "n - 8 < 8 * length bs" by (rule Cons.IH)
    then show ?thesis by simp
  qed simp
qed simp

lemma drop_push_byte:
  assumes "8 + m \<le> LENGTH('a)" and "\<And>n. bit w n \<Longrightarrow> n < m"
  shows "drop_bit 8 (ucast (b :: byte) OR push_bit 8 w) = (w :: 'a::len word)"
  by (rule bit_word_eqI) (use assms in \<open>auto simp: bit_simps bit_byte_high dest: assms(2)\<close>)

lemma le_encode_decode:
  "8 * length bs \<le> LENGTH('a) \<Longrightarrow> le_encode (length bs) (le_decode bs :: 'a::len word) = bs"
proof (induction bs)
  case (Cons b bs)
  have "drop_bit 8 (ucast b OR push_bit 8 (le_decode bs)) = (le_decode bs :: 'a word)"
    by (rule drop_push_byte [where m = "8 * length bs"]) (use Cons.prems bit_le_decode in auto)
  with Cons show ?case by (simp add: ucast_byte_or_push_bit)
qed simp

lemma length_le_encode [simp, length_simps]: "length (le_encode n v) = n"
  by (induction n arbitrary: v) simp_all


section \<open>Prefix codecs\<close>

text \<open>
  The contract every \<open>Put...\<close>/\<open>Get...\<close> pair of the code satisfies: the decoder reads an
  encoded value off the front of its input and leaves exactly what followed it. What clients
  need (encodings are injective, prefix-free, and sequences of encodings are uniquely
  decodable) is proved once here.
\<close>

locale prefix_codec =
  fixes enc :: "'a \<Rightarrow> bytes"
    and dec :: "bytes \<Rightarrow> ('a \<times> bytes) option"
    and wf_val :: "'a \<Rightarrow> bool"
  assumes dec_enc: "wf_val x \<Longrightarrow> dec (enc x @ rest) = Some (x, rest)"
begin

lemma enc_append_cancel:
  assumes "wf_val x" "wf_val y" "enc x @ r = enc y @ s"
  shows "x = y \<and> r = s"
proof -
  have "Some (x, r) = dec (enc y @ s)"
    unfolding assms(3) [symmetric] by (rule dec_enc [OF assms(1), symmetric])
  also have "\<dots> = Some (y, s)" by (rule dec_enc [OF assms(2)])
  finally have "Some (x, r) = Some (y, s)" .
  then show ?thesis by simp
qed

lemma enc_prefix_free: "wf_val x \<Longrightarrow> wf_val y \<Longrightarrow> prefix (enc x) (enc y) \<Longrightarrow> x = y"
  using enc_append_cancel [of x y _ "[]"] by (auto elim!: prefixE)

end

text \<open>A codec whose decoder consumes at least one byte, so that decoding loops end.\<close>

locale consuming_codec = prefix_codec +
  assumes dec_shorter: "dec bs = Some (x, rest) \<Longrightarrow> length rest < length bs"
begin

lemma enc_nonempty: "wf_val x \<Longrightarrow> enc x \<noteq> []"
  using dec_enc [of x "[]"] dec_shorter [of "[]"] by force

lemma concat_enc_cancel:
  assumes "\<forall>x\<in>set xs. wf_val x" "\<forall>y\<in>set ys. wf_val y"
    and "concat (map enc xs) = concat (map enc ys)"
  shows "xs = ys"
  using assms
proof (induction xs arbitrary: ys)
  case Nil
  then show ?case by (cases ys) (auto dest: enc_nonempty)
next
  case (Cons x xs)
  then obtain y ys' where ys: "ys = y # ys'" by (cases ys) (auto dest: enc_nonempty)
  have wf: "wf_val x" "wf_val y" using Cons.prems ys by simp_all
  have eq: "enc x @ concat (map enc xs) = enc y @ concat (map enc ys')"
    using Cons.prems(3) ys by simp
  have "x = y" and rest: "concat (map enc xs) = concat (map enc ys')"
    using enc_append_cancel [OF wf eq] by blast+
  moreover have "xs = ys'" using Cons.prems ys by (intro Cons.IH rest) simp_all
  ultimately show ?case using ys by simp
qed

end

text \<open>A decoder that reads from the front only: more input behind does not change what it read.\<close>

locale extensible_codec = consuming_codec +
  assumes dec_extend: "dec bs = Some (x, rest) \<Longrightarrow> dec (bs @ more) = Some (x, rest @ more)"
begin

lemma dec_truncated:
  assumes "wf_val x" "n < length (enc x)"
  shows "dec (take n (enc x)) = None"
proof (rule ccontr)
  assume "dec (take n (enc x)) \<noteq> None"
  then obtain y r where "dec (take n (enc x)) = Some (y, r)" by auto
  from dec_extend [OF this, of "drop n (enc x)"] dec_enc [OF assms(1), of "[]"] assms(2)
  show False by simp
qed

lemma dec_cut:
  assumes "wf_val x" "dec (take n (enc x @ rest)) = Some (y, r)"
  shows "length (enc x) \<le> n \<and> y = x \<and> r = take (n - length (enc x)) rest"
proof -
  have "length (enc x) \<le> n" using assms dec_truncated [of x n] by (cases "n < length (enc x)") auto
  moreover from this have "take n (enc x @ rest) = enc x @ take (n - length (enc x)) rest" by simp
  ultimately show ?thesis using assms dec_enc [of x] by auto
qed

end

end
