(* ===== verification/Coding.thy ===== *)
theory Coding
  imports Prelude
begin

text \<open>
  The encodings of \<open>util/coding.cc\<close> and \<open>util/coding.h\<close>: fixed-width little-endian integers,
  varints and length-prefixed slices. A destination string is a byte list the \<open>Put\<close> routines
  append to. A pair of pointers \<open>p, limit\<close> is the byte list between them, so a decoder that
  returns a pointer returns the bytes from it to \<open>limit\<close>, and \<open>nullptr\<close> is \<open>None\<close>.
\<close>

section \<open>Definitions\<close>

subsection \<open>Fixed-width integers\<close>

text \<open>
  The low-level routines write into and read from a buffer without a bounds check; the callers
  pass at least four (eight) bytes.
\<close>

fun EncodeFixed32 :: "u32 \<Rightarrow> bytes" where
  "EncodeFixed32 value =
     [ucast value, ucast (drop_bit 8 value), ucast (drop_bit 16 value), ucast (drop_bit 24 value)]"

fun EncodeFixed64 :: "u64 \<Rightarrow> bytes" where
  "EncodeFixed64 value =
     [ucast value, ucast (drop_bit 8 value), ucast (drop_bit 16 value), ucast (drop_bit 24 value),
      ucast (drop_bit 32 value), ucast (drop_bit 40 value), ucast (drop_bit 48 value),
      ucast (drop_bit 56 value)]"

fun DecodeFixed32 :: "bytes \<Rightarrow> u32" where
  "DecodeFixed32 ptr =
     ucast (ptr ! 0) OR push_bit 8 (ucast (ptr ! 1)) OR
     push_bit 16 (ucast (ptr ! 2)) OR push_bit 24 (ucast (ptr ! 3))"

fun DecodeFixed64 :: "bytes \<Rightarrow> u64" where
  "DecodeFixed64 ptr =
     ucast (ptr ! 0) OR push_bit 8 (ucast (ptr ! 1)) OR
     push_bit 16 (ucast (ptr ! 2)) OR push_bit 24 (ucast (ptr ! 3)) OR
     push_bit 32 (ucast (ptr ! 4)) OR push_bit 40 (ucast (ptr ! 5)) OR
     push_bit 48 (ucast (ptr ! 6)) OR push_bit 56 (ucast (ptr ! 7))"

definition PutFixed32 :: "bytes \<Rightarrow> u32 \<Rightarrow> bytes" where
  "PutFixed32 dst value = dst @ EncodeFixed32 value"

definition PutFixed64 :: "bytes \<Rightarrow> u64 \<Rightarrow> bytes" where
  "PutFixed64 dst value = dst @ EncodeFixed64 value"

subsection \<open>Varints\<close>

definition EncodeVarint32 :: "u32 \<Rightarrow> bytes" where
  "EncodeVarint32 v =
     (let B = 128 in
      if v < push_bit 7 1 then [ucast v]
      else if v < push_bit 14 1 then [ucast (v OR B), ucast (drop_bit 7 v)]
      else if v < push_bit 21 1 then
        [ucast (v OR B), ucast (drop_bit 7 v OR B), ucast (drop_bit 14 v)]
      else if v < push_bit 28 1 then
        [ucast (v OR B), ucast (drop_bit 7 v OR B), ucast (drop_bit 14 v OR B),
         ucast (drop_bit 21 v)]
      else
        [ucast (v OR B), ucast (drop_bit 7 v OR B), ucast (drop_bit 14 v OR B),
         ucast (drop_bit 21 v OR B), ucast (drop_bit 28 v)])"

definition PutVarint32 :: "bytes \<Rightarrow> u32 \<Rightarrow> bytes" where
  "PutVarint32 dst v = dst @ EncodeVarint32 v"

lemma drop_bit7_less: "128 \<le> (v :: u64) \<Longrightarrow> unat (drop_bit 7 v) < unat v"
  by (auto simp: unat_drop_bit word_le_nat_alt)

function EncodeVarint64 :: "u64 \<Rightarrow> bytes" where
  "EncodeVarint64 v =
     (if v \<ge> 128 then ucast (v OR 128) # EncodeVarint64 (drop_bit 7 v) else [ucast v])"
  by pat_completeness auto
termination
  by (relation "measure unat") (auto simp: drop_bit7_less)

declare EncodeVarint64.simps [simp del]

definition PutVarint64 :: "bytes \<Rightarrow> u64 \<Rightarrow> bytes" where
  "PutVarint64 dst v = dst @ EncodeVarint64 v"

text \<open>\<open>value.size()\<close> is a \<open>size_t\<close> and is narrowed to 32 bits by the call.\<close>

definition PutLengthPrefixedSlice :: "bytes \<Rightarrow> bytes \<Rightarrow> bytes" where
  "PutLengthPrefixedSlice dst value = PutVarint32 dst (of_nat (length value)) @ value"

function VarintLength_loop :: "u64 \<Rightarrow> nat \<Rightarrow> nat" where
  "VarintLength_loop v len =
     (if v \<ge> 128 then VarintLength_loop (drop_bit 7 v) (len + 1) else len)"
  by pat_completeness auto
termination
  by (relation "measure (unat \<circ> fst)") (auto simp: drop_bit7_less)

declare VarintLength_loop.simps [simp del]

definition VarintLength :: "u64 \<Rightarrow> nat" where
  "VarintLength v = VarintLength_loop v 1"

text \<open>
  The decoding loops: \<open>shift\<close> and \<open>result\<close> are the loop's variables, the byte list is what is
  left before \<open>limit\<close>.
\<close>

fun GetVarint32PtrFallback_loop :: "nat \<Rightarrow> u32 \<Rightarrow> bytes \<Rightarrow> (u32 \<times> bytes) option" where
  "GetVarint32PtrFallback_loop shift result [] = None"
| "GetVarint32PtrFallback_loop shift result (c # p) =
     (if shift \<le> 28 then
        (let byte = ucast c :: u32 in
         if byte AND 128 \<noteq> 0
         then GetVarint32PtrFallback_loop (shift + 7) (result OR push_bit shift (byte AND 127)) p
         else Some (result OR push_bit shift byte, p))
      else None)"

definition GetVarint32PtrFallback :: "bytes \<Rightarrow> (u32 \<times> bytes) option" where
  "GetVarint32PtrFallback p = GetVarint32PtrFallback_loop 0 0 p"

definition GetVarint32Ptr :: "bytes \<Rightarrow> (u32 \<times> bytes) option" where
  "GetVarint32Ptr p =
     (case p of
        c # q \<Rightarrow> (let result = ucast c :: u32 in
                 if result AND 128 = 0 then Some (result, q) else GetVarint32PtrFallback p)
      | [] \<Rightarrow> GetVarint32PtrFallback p)"

definition GetVarint32 :: "bytes \<Rightarrow> (u32 \<times> bytes) option" where
  "GetVarint32 input =
     (case GetVarint32Ptr input of None \<Rightarrow> None | Some (v, q) \<Rightarrow> Some (v, q))"

fun GetVarint64Ptr_loop :: "nat \<Rightarrow> u64 \<Rightarrow> bytes \<Rightarrow> (u64 \<times> bytes) option" where
  "GetVarint64Ptr_loop shift result [] = None"
| "GetVarint64Ptr_loop shift result (c # p) =
     (if shift \<le> 63 then
        (let byte = ucast c :: u64 in
         if byte AND 128 \<noteq> 0
         then GetVarint64Ptr_loop (shift + 7) (result OR push_bit shift (byte AND 127)) p
         else Some (result OR push_bit shift byte, p))
      else None)"

definition GetVarint64Ptr :: "bytes \<Rightarrow> (u64 \<times> bytes) option" where
  "GetVarint64Ptr p = GetVarint64Ptr_loop 0 0 p"

definition GetVarint64 :: "bytes \<Rightarrow> (u64 \<times> bytes) option" where
  "GetVarint64 input =
     (case GetVarint64Ptr input of None \<Rightarrow> None | Some (v, q) \<Rightarrow> Some (v, q))"

subsection \<open>Length-prefixed slices\<close>

text \<open>
  The pointer version and the \<open>Slice\<close> version (an overload of the same name in the code).
\<close>

definition GetLengthPrefixedSlicePtr :: "bytes \<Rightarrow> (bytes \<times> bytes) option" where
  "GetLengthPrefixedSlicePtr p =
     (case GetVarint32Ptr p of
        None \<Rightarrow> None
      | Some (len, q) \<Rightarrow>
          if unat len > length q then None else Some (take (unat len) q, drop (unat len) q))"

definition GetLengthPrefixedSlice :: "bytes \<Rightarrow> (bytes \<times> bytes) option" where
  "GetLengthPrefixedSlice input =
     (case GetVarint32 input of
        None \<Rightarrow> None
      | Some (len, input') \<Rightarrow>
          if length input' \<ge> unat len
          then Some (take (unat len) input', drop (unat len) input') else None)"

section \<open>Lemmas\<close>

subsection \<open>Fixed-width integers\<close>

lemma EncodeFixed32_le: "EncodeFixed32 v = le_encode 4 v"
  by (simp add: numeral_eq_Suc)

lemma EncodeFixed64_le: "EncodeFixed64 v = le_encode 8 v"
  by (simp add: numeral_eq_Suc)

lemma DecodeFixed32_le: "4 \<le> length bs \<Longrightarrow> DecodeFixed32 bs = le_decode (take 4 bs)"
  by (auto simp: numeral_eq_Suc Suc_le_length_iff push_bit_or)

lemma DecodeFixed64_le: "8 \<le> length bs \<Longrightarrow> DecodeFixed64 bs = le_decode (take 8 bs)"
  by (auto simp: numeral_eq_Suc Suc_le_length_iff push_bit_or or.assoc)


lemma length_EncodeFixed32 [simp, length_simps]: "length (EncodeFixed32 v) = 4"
  by simp

lemma length_EncodeFixed64 [simp, length_simps]: "length (EncodeFixed64 v) = 8"
  by simp

declare EncodeFixed32.simps [simp del] EncodeFixed64.simps [simp del]
declare DecodeFixed32.simps [simp del] DecodeFixed64.simps [simp del]

lemma DecodeFixed32_EncodeFixed32 [simp, roundtrip_simps]:
  "DecodeFixed32 (EncodeFixed32 v @ rest) = v"
  by (simp add: DecodeFixed32_le EncodeFixed32_le)

lemma DecodeFixed64_EncodeFixed64 [simp, roundtrip_simps]:
  "DecodeFixed64 (EncodeFixed64 v @ rest) = v"
  by (simp add: DecodeFixed64_le EncodeFixed64_le)

lemma EncodeFixed32_DecodeFixed32:
  "4 \<le> length bs \<Longrightarrow> EncodeFixed32 (DecodeFixed32 bs) = take 4 bs"
  using le_encode_decode [of "take 4 bs", where 'a = 32]
  by (simp add: DecodeFixed32_le EncodeFixed32_le min_absorb2)

lemma EncodeFixed64_DecodeFixed64:
  "8 \<le> length bs \<Longrightarrow> EncodeFixed64 (DecodeFixed64 bs) = take 8 bs"
  using le_encode_decode [of "take 8 bs", where 'a = 64]
  by (simp add: DecodeFixed64_le EncodeFixed64_le min_absorb2)

subsection \<open>Varints\<close>

text \<open>The low seven bits of a byte written with the continuation flag, and the flag.\<close>

lemma varint_more:
  assumes "8 \<le> LENGTH('a)"
  shows "(ucast (ucast (v OR 128) :: byte) :: 'a::len word) AND 128 \<noteq> 0"
    and "(ucast (ucast (v OR 128) :: byte) :: 'a word) AND 127 = v AND 127"
proof -
  have "bit ((ucast (ucast (v OR 128) :: byte) :: 'a word) AND 128) 7"
    using assms by (auto simp: word_bits bit_128_iff)
  then show "(ucast (ucast (v OR 128) :: byte) :: 'a word) AND 128 \<noteq> 0" by auto
  show "(ucast (ucast (v OR 128) :: byte) :: 'a word) AND 127 = v AND 127"
    by (rule bit_word_eqI) (use assms in \<open>auto simp: word_bits bit_128_iff bit_127_iff\<close>)
qed

lemma varint_last:
  assumes "unat v < 128"
  shows "(ucast (ucast v :: byte) :: 'a::len word) = v" and "v AND 128 = (0 :: 'a word)"
proof -
  have hi: "\<not> bit v n" if "7 \<le> n" for n
    using unat_lt_exp_bit [of v 7 n] assms that by simp
  show "(ucast (ucast v :: byte) :: 'a word) = v"
    by (rule bit_word_eqI) (use hi in \<open>auto simp: word_bits intro: ccontr\<close>)
  show "v AND 128 = 0"
    by (rule bit_word_eqI) (use hi in \<open>auto simp: word_bits bit_128_iff\<close>)
qed

lemma varint_combine:
  "(r OR push_bit s (v AND 127)) OR push_bit (s + 7) (drop_bit 7 v) = r OR push_bit s (v :: 'a::len word)"
proof (rule bit_word_eqI)
  fix n assume "n < LENGTH('a)"
  moreover have "7 + (n - (s + 7)) = n - s" if "\<not> n - s < 7" using that by arith
  ultimately show "bit ((r OR push_bit s (v AND 127)) OR push_bit (s + 7) (drop_bit 7 v)) n =
      bit (r OR push_bit s v) n"
    by (cases "n - s < 7") (auto simp: word_bits bit_127_iff)
qed

lemma varint_bound_step:
  assumes "128 \<le> (v::u64)" and "unat v < 2 ^ (w - s)"
  shows "s + 7 < w" and "unat (drop_bit 7 v) < 2 ^ (w - (s + 7))"
proof -
  have "(2::nat) ^ 7 < 2 ^ (w - s)" using assms by (simp add: word_le_nat_alt)
  then show s: "s + 7 < w" by (subst (asm) power_strict_increasing_iff) auto
  then have "(2::nat) ^ (w - s) = 2 ^ 7 * 2 ^ (w - (s + 7))"
    by (subst power_add [symmetric]) simp
  then show "unat (drop_bit 7 v) < 2 ^ (w - (s + 7))"
    using assms(2) by (simp add: unat_drop_bit less_mult_imp_div_less mult.commute)
qed

lemma varint64_loop:
  "s \<le> 63 \<Longrightarrow> unat v < 2 ^ (64 - s) \<Longrightarrow>
   GetVarint64Ptr_loop s r (EncodeVarint64 v @ rest) = Some (r OR push_bit s v, rest)"
proof (induction v arbitrary: s r rule: EncodeVarint64.induct)
  case (1 v)
  show ?case
  proof (cases "128 \<le> v")
    case True
    note b = varint_bound_step [OF True 1(3)]
    have "GetVarint64Ptr_loop (s + 7) (r OR push_bit s (v AND 127)) (EncodeVarint64 (drop_bit 7 v) @ rest)
        = Some ((r OR push_bit s (v AND 127)) OR push_bit (s + 7) (drop_bit 7 v), rest)"
      using 1(1) True b by (simp del: push_bit_and)
    then show ?thesis
      using True 1(2) by (simp add: EncodeVarint64.simps [of v] varint_more varint_combine del: push_bit_and)
  next
    case False
    then have "unat v < 128" by (simp add: word_le_nat_alt)
    then show ?thesis
      using False 1(2) by (simp add: EncodeVarint64.simps [of v] varint_last)
  qed
qed

lemma GetVarint64_EncodeVarint64 [simp, roundtrip_simps]:
  "GetVarint64 (EncodeVarint64 v @ rest) = Some (v, rest)"
  using varint64_loop [of 0 v 0 rest] unsigned_less [of v, where 'a = nat]
  by (simp add: GetVarint64_def GetVarint64Ptr_def)

subsection \<open>The 32-bit varint is the 64-bit one\<close>

text \<open>
  The unrolled 32-bit encoder agrees with the 64-bit loop, so the 32-bit decoder is checked
  against the loop's output too.
\<close>

lemma varint_last_cross:
  assumes "unat v < 128"
  shows "(ucast (ucast (v :: u64) :: byte) :: u32) = ucast v" and "(ucast v :: u32) AND 128 = 0"
proof -
  have hi: "\<not> bit v n" if "7 \<le> n" for n
    using unat_lt_exp_bit [of v 7 n] assms that by simp
  show "(ucast (ucast v :: byte) :: u32) = ucast v"
    by (rule bit_word_eqI) (use hi in \<open>auto simp: word_bits intro: ccontr\<close>)
  show "(ucast v :: u32) AND 128 = 0"
    by (rule bit_word_eqI) (use hi in \<open>auto simp: word_bits bit_128_iff\<close>)
qed

lemma varint_more_cross:
  "(ucast (ucast ((v :: u64) OR 128) :: byte) :: u32) AND 128 \<noteq> 0"
  "(ucast (ucast (v OR 128) :: byte) :: u32) AND 127 = ucast v AND 127"
proof -
  have "bit ((ucast (ucast ((v :: u64) OR 128) :: byte) :: u32) AND 128) 7"
    by (auto simp: word_bits bit_128_iff)
  then show "(ucast (ucast ((v :: u64) OR 128) :: byte) :: u32) AND 128 \<noteq> 0" by auto
  show "(ucast (ucast (v OR 128) :: byte) :: u32) AND 127 = ucast v AND 127"
    by (rule bit_word_eqI) (auto simp: word_bits bit_128_iff bit_127_iff)
qed

lemma ucast_drop_bit32: "unat (w::u64) < 2 ^ 32 \<Longrightarrow> (ucast (drop_bit 7 w) :: u32) = drop_bit 7 (ucast w)"
proof (rule bit_word_eqI)
  fix n assume w: "unat w < 2 ^ 32" and "n < LENGTH(32)"
  then show "bit (ucast (drop_bit 7 w) :: u32) n = bit (drop_bit 7 (ucast w :: u32)) n"
    using unat_lt_exp_bit [OF w, of "7 + n"] by (cases "n < 25") (auto simp: word_bits)
qed

lemma varint32_loop:
  "s \<le> 28 \<Longrightarrow> s mod 7 = 0 \<Longrightarrow> unat v < 2 ^ (32 - s) \<Longrightarrow>
   GetVarint32PtrFallback_loop s r (EncodeVarint64 v @ rest) = Some (r OR push_bit s (ucast v), rest)"
proof (induction v arbitrary: s r rule: EncodeVarint64.induct)
  case (1 v)
  have 32: "unat v < 2 ^ 32"
    using 1(4) by (rule less_le_trans) (rule power_increasing, simp_all)
  show ?case
  proof (cases "128 \<le> v")
    case True
    note b = varint_bound_step [OF True 1(4)]
    have "s + 7 \<le> 28" using b(1) 1(2,3) by presburger
    then have "GetVarint32PtrFallback_loop (s + 7) (r OR push_bit s (ucast v AND 127)) (EncodeVarint64 (drop_bit 7 v) @ rest)
        = Some ((r OR push_bit s (ucast v AND 127)) OR push_bit (s + 7) (drop_bit 7 (ucast v)), rest)"
      using 1(1,3) True b by (simp add: ucast_drop_bit32 [OF 32] del: push_bit_and)
    then show ?thesis
      using True 1(2) by (simp add: EncodeVarint64.simps [of v] varint_more_cross varint_combine del: push_bit_and)
  next
    case False
    then have "unat v < 128" by (simp add: word_le_nat_alt)
    then show ?thesis
      using False 1(2) by (simp add: EncodeVarint64.simps [of v] varint_last_cross)
  qed
qed

lemma varint32_step:
  "EncodeVarint64 (ucast (v :: u32)) =
     (if 128 \<le> v then ucast (v OR 128) # EncodeVarint64 (ucast (drop_bit 7 v)) else [ucast v])"
proof -
  have "128 \<le> (ucast v :: u64) \<longleftrightarrow> 128 \<le> v"
    by (simp add: word_le_nat_alt)
  moreover have "(ucast ((ucast v :: u64) OR 128) :: byte) = ucast (v OR 128)"
    by (rule bit_word_eqI) (auto simp: word_bits bit_128_iff)
  moreover have "drop_bit 7 (ucast v :: u64) = ucast (drop_bit 7 v)"
    by (rule bit_word_eqI) (auto simp: word_bits dest: bit_imp_le_length)
  moreover have "(ucast (ucast v :: u64) :: byte) = ucast v"
    by (rule bit_word_eqI) (auto simp: word_bits)
  ultimately show ?thesis by (subst EncodeVarint64.simps) simp
qed

lemma le_drop_bit_iff: "128 \<le> drop_bit k (v :: u32) \<longleftrightarrow> 128 * 2 ^ k \<le> unat v"
  by (simp add: word_le_nat_alt unat_drop_bit less_eq_div_iff_mult_less_eq)

lemma EncodeVarint32_eq_EncodeVarint64: "EncodeVarint32 v = EncodeVarint64 (ucast v)"
proof -
  have "unat v < 2 ^ 32" using unsigned_less [of v, where 'a = nat] by simp
  then have "\<not> 128 \<le> drop_bit 28 v" by (simp add: le_drop_bit_iff)
  then show ?thesis
    by (simp add: EncodeVarint32_def varint32_step [of v] varint32_step [of "drop_bit 7 v"]
        varint32_step [of "drop_bit 14 v"] varint32_step [of "drop_bit 21 v"]
        varint32_step [of "drop_bit 28 v"] le_drop_bit_iff word_le_nat_alt [of 128 v] not_le Let_def
        word_less_nat_alt push_bit_eq_mult)
qed

lemma GetVarint32Ptr_fallback: "GetVarint32Ptr p = GetVarint32PtrFallback p"
  by (auto simp: GetVarint32Ptr_def GetVarint32PtrFallback_def Let_def split: list.split)


lemma GetVarint32_eq [simp]: "GetVarint32 p = GetVarint32PtrFallback p"
  by (auto simp: GetVarint32_def GetVarint32Ptr_fallback split: option.split)

lemma GetVarint32_EncodeVarint32 [simp, roundtrip_simps]:
  "GetVarint32PtrFallback (EncodeVarint32 v @ rest) = Some (v, rest)"
  using varint32_loop [of 0 "ucast v" 0 rest] unsigned_less [of v, where 'a = nat]
  by (simp add: GetVarint32PtrFallback_def EncodeVarint32_eq_EncodeVarint64)

lemma VarintLength_loop: "VarintLength_loop v n + 1 = n + length (EncodeVarint64 v)"
proof (induction v n rule: VarintLength_loop.induct)
  case (1 v len)
  then show ?case
    by (cases "128 \<le> v") (simp_all add: VarintLength_loop.simps [of v] EncodeVarint64.simps [of v])
qed

lemma VarintLength_eq: "VarintLength v = length (EncodeVarint64 v)"
  using VarintLength_loop [of v 1] by (simp add: VarintLength_def)

lemma length_EncodeVarint64_le:
  "unat v < 2 ^ (7 * n) \<Longrightarrow> 0 < n \<Longrightarrow> length (EncodeVarint64 v) \<le> n"
proof (induction v arbitrary: n rule: EncodeVarint64.induct)
  case (1 v)
  show ?case
  proof (cases "128 \<le> v")
    case True
    note b = varint_bound_step [OF True, of "7 * n" 0]
    from b(1) 1(2) obtain m where n: "n = Suc m" "0 < m" by (cases n) auto
    have "unat (drop_bit 7 v) < 2 ^ (7 * m)" using b(2) 1(2) n by simp
    then show ?thesis using 1(1) [OF True] n True by (simp add: EncodeVarint64.simps [of v])
  qed (use 1 in \<open>simp add: EncodeVarint64.simps [of v]\<close>)
qed

lemma GetVarint32PtrFallback_loop_shorter:
  "GetVarint32PtrFallback_loop s r p = Some (v, q) \<Longrightarrow> length q < length p"
  by (induction s r p rule: GetVarint32PtrFallback_loop.induct)
    (auto simp: Let_def less_Suc_eq split: if_splits)

lemma GetVarint64Ptr_loop_shorter:
  "GetVarint64Ptr_loop s r p = Some (v, q) \<Longrightarrow> length q < length p"
  by (induction s r p rule: GetVarint64Ptr_loop.induct)
    (auto simp: Let_def less_Suc_eq split: if_splits)

lemma GetVarint32_shorter: "GetVarint32PtrFallback p = Some (v, q) \<Longrightarrow> length q < length p"
  unfolding GetVarint32PtrFallback_def by (rule GetVarint32PtrFallback_loop_shorter)

lemma GetVarint64_shorter: "GetVarint64 p = Some (v, q) \<Longrightarrow> length q < length p"
  by (auto simp: GetVarint64_def GetVarint64Ptr_def split: option.splits
      dest: GetVarint64Ptr_loop_shorter)

subsection \<open>Length-prefixed slices\<close>

abbreviation lps :: "bytes \<Rightarrow> bytes" where
  "lps v \<equiv> PutLengthPrefixedSlice [] v"

lemma PutLengthPrefixedSlice_append: "PutLengthPrefixedSlice dst v = dst @ lps v"
  by (simp add: PutLengthPrefixedSlice_def PutVarint32_def)

lemma GetLengthPrefixedSlicePtr_eq: "GetLengthPrefixedSlicePtr p = GetLengthPrefixedSlice p"
  by (auto simp: GetLengthPrefixedSlicePtr_def GetLengthPrefixedSlice_def GetVarint32Ptr_fallback
      split: option.split)

lemma unat_of_nat_length: "length v < 2 ^ 32 \<Longrightarrow> unat (of_nat (length v) :: u32) = length v"
  by (simp add: unat_of_nat)

lemma GetLengthPrefixedSlice_lps [simp, roundtrip_simps]:
  "length v < 2 ^ 32 \<Longrightarrow> GetLengthPrefixedSlice (lps v @ rest) = Some (v, rest)"
  using unat_of_nat_length [of v]
  by (simp add: GetLengthPrefixedSlice_def PutLengthPrefixedSlice_def PutVarint32_def)

lemma GetLengthPrefixedSlice_shorter:
  "GetLengthPrefixedSlice p = Some (v, q) \<Longrightarrow> length q < length p"
  by (auto simp: GetLengthPrefixedSlice_def split: option.splits if_splits
      dest!: GetVarint32_shorter)

lemma GetVarint32PtrFallback_loop_extend:
  "GetVarint32PtrFallback_loop s r p = Some (v, q) \<Longrightarrow> GetVarint32PtrFallback_loop s r (p @ z) = Some (v, q @ z)"
  by (induction s r p rule: GetVarint32PtrFallback_loop.induct) (auto simp: Let_def split: if_splits)

lemma GetVarint64Ptr_loop_extend:
  "GetVarint64Ptr_loop s r p = Some (v, q) \<Longrightarrow> GetVarint64Ptr_loop s r (p @ z) = Some (v, q @ z)"
  by (induction s r p rule: GetVarint64Ptr_loop.induct) (auto simp: Let_def split: if_splits)

lemma GetVarint32_extend: "GetVarint32 p = Some (v, q) \<Longrightarrow> GetVarint32 (p @ z) = Some (v, q @ z)"
  by (simp add: GetVarint32PtrFallback_def GetVarint32PtrFallback_loop_extend)

lemma GetVarint64_extend: "GetVarint64 p = Some (v, q) \<Longrightarrow> GetVarint64 (p @ z) = Some (v, q @ z)"
  by (auto simp: GetVarint64_def GetVarint64Ptr_def GetVarint64Ptr_loop_extend split: option.splits)

lemma GetLengthPrefixedSlice_extend:
  "GetLengthPrefixedSlice p = Some (v, q) \<Longrightarrow> GetLengthPrefixedSlice (p @ z) = Some (v, q @ z)"
  by (auto simp: GetLengthPrefixedSlice_def GetVarint32PtrFallback_def GetVarint32PtrFallback_loop_extend
      split: option.splits if_splits)

subsection \<open>The codecs\<close>

interpretation varint32: extensible_codec EncodeVarint32 GetVarint32 "\<lambda>_. True"
  by unfold_locales
    (auto dest: GetVarint32_shorter intro: GetVarint32_extend [simplified])

interpretation varint64: extensible_codec EncodeVarint64 GetVarint64 "\<lambda>_. True"
  by unfold_locales (auto dest: GetVarint64_shorter intro: GetVarint64_extend)

interpretation lps: extensible_codec "\<lambda>v. PutLengthPrefixedSlice [] v" GetLengthPrefixedSlice
    "\<lambda>v. length v < 2 ^ 32"
  by unfold_locales (auto dest: GetLengthPrefixedSlice_shorter intro: GetLengthPrefixedSlice_extend)

section \<open>Properties\<close>

text \<open>
  Fixed-width integers round-trip in both directions: decoding what \<open>PutFixed32\<close>/
  \<open>PutFixed64\<close> appended gives the value back whatever follows, and re-encoding a decoded
  four-byte (eight-byte) buffer gives the buffer back.
\<close>

theorem fixed_roundtrip:
  "DecodeFixed32 (drop (length dst) (PutFixed32 dst v @ rest)) = v \<and>
   DecodeFixed64 (drop (length dst) (PutFixed64 dst w @ rest)) = w \<and>
   (length bs = 4 \<longrightarrow> PutFixed32 dst (DecodeFixed32 bs) = dst @ bs) \<and>
   (length cs = 8 \<longrightarrow> PutFixed64 dst (DecodeFixed64 cs) = dst @ cs)"
  by (simp add: PutFixed32_def PutFixed64_def EncodeFixed32_DecodeFixed32
      EncodeFixed64_DecodeFixed64)

theorem fixed_roundtrip_witness:
  "length [1, 2, 3, 4 :: byte] = 4 \<and> length [1, 2, 3, 4, 5, 6, 7, 8 :: byte] = 8 \<and>
   PutFixed32 [9] (DecodeFixed32 [1, 2, 3, 4]) = [9, 1, 2, 3, 4]"
  using fixed_roundtrip [where bs = "[1, 2, 3, 4]" and cs = "[1, 2, 3, 4, 5, 6, 7, 8]"
      and dst = "[9]"] by simp

text \<open>
  Varints round-trip: \<open>GetVarint32\<close> (\<open>GetVarint64\<close>) reads back what \<open>PutVarint32\<close>
  (\<open>PutVarint64\<close>) appended and leaves the input right after it; the unrolled 32-bit encoder
  writes the same bytes as the 64-bit loop; encodings have at most five (ten) bytes, and
  \<open>VarintLength\<close> is the number of bytes written.
\<close>

theorem varint_roundtrip:
  "GetVarint32 (drop (length dst) (PutVarint32 dst v @ rest)) = Some (v, rest) \<and>
   GetVarint64 (drop (length dst) (PutVarint64 dst w @ rest)) = Some (w, rest) \<and>
   EncodeVarint32 v = EncodeVarint64 (ucast v) \<and>
   length (EncodeVarint32 v) \<le> 5 \<and> length (EncodeVarint64 w) \<le> 10 \<and>
   VarintLength w = length (EncodeVarint64 w)"
proof -
  have "unat v < 2 ^ (7 * 5)" using unsigned_less [of v, where 'a = nat] by simp
  then have "length (EncodeVarint64 (ucast v)) \<le> 5" by (intro length_EncodeVarint64_le) simp_all
  moreover have "unat w < 2 ^ (7 * 10)" using unsigned_less [of w, where 'a = nat] by simp
  then have "length (EncodeVarint64 w) \<le> 10" by (intro length_EncodeVarint64_le) simp_all
  ultimately show ?thesis
    by (simp add: EncodeVarint32_eq_EncodeVarint64 [symmetric] PutVarint32_def PutVarint64_def
        VarintLength_eq)
qed

text \<open>
  Length-prefixed slices round-trip below the 32-bit length the prefix can hold, both
  through the \<open>Slice\<close> and through the pointer overload, and a sequence of them is uniquely
  decodable: equal concatenations come from equal sequences.
\<close>

theorem length_prefixed_roundtrip:
  assumes "length v < 2 ^ 32" "\<forall>x\<in>set xs. length x < 2 ^ 32" "\<forall>y\<in>set ys. length y < 2 ^ 32"
  shows "GetLengthPrefixedSlice (drop (length dst) (PutLengthPrefixedSlice dst v @ rest)) = Some (v, rest) \<and>
    GetLengthPrefixedSlicePtr (drop (length dst) (PutLengthPrefixedSlice dst v @ rest)) = Some (v, rest) \<and>
    (concat (map (PutLengthPrefixedSlice []) xs) = concat (map (PutLengthPrefixedSlice []) ys)
      \<longleftrightarrow> xs = ys)"
  using assms lps.concat_enc_cancel [of xs ys]
  by (auto simp: PutLengthPrefixedSlice_append [of dst] GetLengthPrefixedSlicePtr_eq)

theorem length_prefixed_roundtrip_witness:
  "GetLengthPrefixedSlice (drop (length [1]) (PutLengthPrefixedSlice [1] [7, 8] @ [9])) = Some ([7, 8], [9]) \<and>
   concat (map (PutLengthPrefixedSlice []) [[1], [2, 3]]) \<noteq> concat (map (PutLengthPrefixedSlice []) [[1, 2], [3]])"
  using length_prefixed_roundtrip [of "[7, 8]" "[[1], [2, 3]]" "[[1, 2], [3]]" "[1]" "[9]"] by simp

end
