(* ===== verification/LoggingUtil.thy ===== *)
theory LoggingUtil
  imports Prelude
begin

text \<open>
  \<open>util/logging.cc\<close>: printing and parsing of decimal numbers and the escaping of byte strings.
  \<open>snprintf\<close> with \<open>%llu\<close>, \<open>%06llu\<close> and \<open>%02x\<close> is modelled by the digit functions below; the
  buffers the code passes are longer than any such output, so nothing is cut off.
\<close>

section \<open>Definitions\<close>

fun decimal :: "nat \<Rightarrow> bytes" where
  "decimal n =
     (if n < 10 then [48 + of_nat n] else decimal (n div 10) @ [48 + of_nat (n mod 10)])"

declare decimal.simps [simp del]

definition zero_padded :: "nat \<Rightarrow> nat \<Rightarrow> bytes" where
  "zero_padded width n = replicate (width - length (decimal n)) 48 @ decimal n"

definition AppendNumberTo :: "bytes \<Rightarrow> u64 \<Rightarrow> bytes" where
  "AppendNumberTo s num = s @ decimal (unat num)"

definition hex_digit :: "nat \<Rightarrow> byte" where
  "hex_digit n = (if n < 10 then 48 + of_nat n else 87 + of_nat n)"

fun AppendEscapedStringTo :: "bytes \<Rightarrow> bytes \<Rightarrow> bytes" where
  "AppendEscapedStringTo s [] = s"
| "AppendEscapedStringTo s (c # value) =
     (if 32 \<le> c \<and> c \<le> 126 then AppendEscapedStringTo (s @ [c]) value
      else AppendEscapedStringTo
             (s @ [92, 120, hex_digit (unat c div 16), hex_digit (unat c mod 16)]) value)"

definition NumberToString :: "u64 \<Rightarrow> bytes" where
  "NumberToString num = AppendNumberTo [] num"

definition EscapeString :: "bytes \<Rightarrow> bytes" where
  "EscapeString value = AppendEscapedStringTo [] value"

text \<open>
  The loop of \<open>ConsumeDecimalNumber\<close>: \<open>None\<close> is the early \<open>return false\<close> of the overflow check;
  otherwise the value and the bytes from \<open>current\<close> on.
\<close>

definition kMaxUint64 :: u64 where
  "kMaxUint64 = - 1"

definition kLastDigitOfMaxUint64 :: byte where
  "kLastDigitOfMaxUint64 = 48 + ucast (kMaxUint64 mod 10)"

fun ConsumeDecimalNumber_loop :: "u64 \<Rightarrow> bytes \<Rightarrow> (u64 \<times> bytes) option" where
  "ConsumeDecimalNumber_loop val [] = Some (val, [])"
| "ConsumeDecimalNumber_loop val (ch # rest) =
     (if ch < 48 \<or> ch > 57 then Some (val, ch # rest)
      else if val > kMaxUint64 div 10 \<or> (val = kMaxUint64 div 10 \<and> ch > kLastDigitOfMaxUint64)
      then None
      else ConsumeDecimalNumber_loop (val * 10 + (ucast ch - 48)) rest)"

text \<open>
  The result: what is returned, what is stored in \<open>*val\<close> (\<open>None\<close> when the function returns
  before storing) and the slice \<open>*in\<close> afterwards.
\<close>

definition ConsumeDecimalNumber :: "bytes \<Rightarrow> bool \<times> u64 option \<times> bytes" where
  "ConsumeDecimalNumber input =
     (case ConsumeDecimalNumber_loop 0 input of
        None \<Rightarrow> (False, None, input)
      | Some (val, rest) \<Rightarrow>
          (let digits_consumed = length input - length rest in
           (digits_consumed \<noteq> 0, Some val, drop digits_consumed input)))"

section \<open>Lemmas\<close>

definition is_digit :: "byte \<Rightarrow> bool" where
  "is_digit c \<longleftrightarrow> 48 \<le> c \<and> c \<le> 57"

definition digits_from :: "nat \<Rightarrow> bytes \<Rightarrow> nat" where
  "digits_from n ds = fold (\<lambda>d m. m * 10 + (unat d - 48)) ds n"

lemma digits_from_simps [simp]:
  "digits_from n [] = n"
  "digits_from n (d # ds) = digits_from (n * 10 + (unat d - 48)) ds"
  by (simp_all add: digits_from_def)

lemma digits_from_append [simp]: "digits_from n (ds @ es) = digits_from (digits_from n ds) es"
  by (simp add: digits_from_def)

lemma digits_from_mono: "n \<le> digits_from n ds"
proof (induction ds arbitrary: n)
  case (Cons d ds)
  have "n \<le> n * 10 + (unat d - 48)" by simp
  also have "\<dots> \<le> digits_from (n * 10 + (unat d - 48)) ds" by (rule Cons.IH)
  finally show ?case by simp
qed simp

lemma kMaxUint64_div: "unat (kMaxUint64 div 10) = 1844674407370955161"
  by (simp add: kMaxUint64_def unat_div_distrib unsigned_minus_1_eq_mask mask_eq_exp_minus_1)

lemma kLastDigit: "unat kLastDigitOfMaxUint64 = 53"
  by (simp add: kLastDigitOfMaxUint64_def kMaxUint64_def)

lemma overflow_check:
  assumes "is_digit ch"
  shows "val > kMaxUint64 div 10 \<or> (val = kMaxUint64 div 10 \<and> ch > kLastDigitOfMaxUint64)
    \<longleftrightarrow> 2 ^ 64 \<le> unat val * 10 + (unat ch - 48)"
proof -
  have "48 \<le> unat ch" "unat ch \<le> 57"
    using assms by (simp_all add: is_digit_def word_le_nat_alt)
  moreover have "val = kMaxUint64 div 10 \<longleftrightarrow> unat val = 1844674407370955161"
    using kMaxUint64_div by (metis unsigned_word_eqI)
  ultimately show ?thesis
    by (simp add: word_less_nat_alt kMaxUint64_div kLastDigit) arith
qed

lemma unat_digit_step:
  assumes "is_digit ch" and "unat val * 10 + (unat ch - 48) < 2 ^ 64"
  shows "unat (val * 10 + (ucast ch - 48) :: u64) = unat val * 10 + (unat ch - 48)"
proof -
  have ch: "48 \<le> unat ch" using assms by (simp add: is_digit_def word_le_nat_alt)
  have uc: "unat (ucast ch :: u64) = unat ch"
    by (simp add: unsigned_ucast_eq take_bit_nat_eq_self_iff) (use unsigned_less [of ch, where 'a = nat] in simp)
  have d: "unat (ucast ch - 48 :: u64) = unat ch - 48"
    using ch uc by (simp add: unat_sub_if_size word_size)
  have m: "unat (val * 10) = unat val * 10"
    using assms(2) by (subst unat_mult_lem [THEN iffD1]) simp_all
  show ?thesis
    using assms(2) d m by (subst unat_add_lem [THEN iffD1]) simp_all
qed

lemma ConsumeDecimalNumber_loop_eq:
  "ConsumeDecimalNumber_loop val bs =
     (let t = digits_from (unat val) (takeWhile is_digit bs) in
      if t < 2 ^ 64 then Some (of_nat t, dropWhile is_digit bs) else None)"
proof (induction val bs rule: ConsumeDecimalNumber_loop.induct)
  case (1 val)
  then show ?case using unsigned_less [of val, where 'a = nat] by simp
next
  case (2 val ch rest)
  have dig: "is_digit ch \<longleftrightarrow> \<not> (ch < 48 \<or> ch > 57)" by (auto simp: is_digit_def)
  show ?case
  proof (cases "is_digit ch")
    case False
    then show ?thesis using dig unsigned_less [of val, where 'a = nat] by simp
  next
    case True
    let ?n = "unat val * 10 + (unat ch - 48)"
    show ?thesis
    proof (cases "2 ^ 64 \<le> ?n")
      case True
      then have "2 ^ 64 \<le> digits_from ?n (takeWhile is_digit rest)"
        using digits_from_mono le_trans by blast
      then show ?thesis
        using True \<open>is_digit ch\<close> dig overflow_check [of ch val] by (simp add: not_less)
    next
      case False
      then have g: "\<not> (val > kMaxUint64 div 10 \<or> (val = kMaxUint64 div 10 \<and> ch > kLastDigitOfMaxUint64))"
        using overflow_check [OF \<open>is_digit ch\<close>, of val] by blast
      have d: "\<not> (ch < 48 \<or> ch > 57)" using dig \<open>is_digit ch\<close> by blast
      have "ConsumeDecimalNumber_loop val (ch # rest) =
          ConsumeDecimalNumber_loop (val * 10 + (ucast ch - 48)) rest"
        by (subst ConsumeDecimalNumber_loop.simps(2)) (simp only: d g if_False)
      then show ?thesis
        using 2 [OF d g] unat_digit_step [OF \<open>is_digit ch\<close>, of val] False \<open>is_digit ch\<close>
        by (simp add: Let_def del: ConsumeDecimalNumber_loop.simps(2))
    qed
  qed
qed

lemma unat_48_plus: "d < 10 \<Longrightarrow> unat (48 + of_nat d :: byte) = 48 + d"
  by (simp add: unat_word_ariths unat_of_nat)

lemma is_digit_48_plus: "d < 10 \<Longrightarrow> is_digit (48 + of_nat d)"
  by (simp add: is_digit_def word_le_nat_alt unat_48_plus)

lemma decimal_digits: "\<forall>c \<in> set (decimal n). is_digit c"
proof (induction n rule: decimal.induct)
  case (1 n)
  then show ?case by (subst decimal.simps) (auto simp: is_digit_48_plus)
qed

lemma digits_from_decimal: "digits_from 0 (decimal n) = n"
proof (induction n rule: decimal.induct)
  case (1 n)
  then show ?case by (subst decimal.simps) (auto simp: unat_48_plus)
qed

lemma digits_from_zeros [simp]: "digits_from 0 (replicate k 48 @ ds) = digits_from 0 ds"
  by (induction k) simp_all

lemma decimal_nonempty: "decimal n \<noteq> []"
  by (subst decimal.simps) simp

lemma zero_padded_digits: "\<forall>c \<in> set (zero_padded w n). is_digit c"
  using decimal_digits [of n] by (auto simp: zero_padded_def is_digit_def)

lemma zero_padded_value: "digits_from 0 (zero_padded w n) = n"
  by (simp add: zero_padded_def digits_from_decimal del: digits_from_append)

lemma zero_padded_nonempty: "zero_padded w n \<noteq> []"
  by (simp add: zero_padded_def decimal_nonempty)

lemma ConsumeDecimalNumber_eq:
  "ConsumeDecimalNumber input =
     (let ds = takeWhile is_digit input in
      if digits_from 0 ds < 2 ^ 64
      then (ds \<noteq> [], Some (of_nat (digits_from 0 ds)), dropWhile is_digit input)
      else (False, None, input))"
proof -
  have "length input - length (dropWhile is_digit input) = length (takeWhile is_digit input)"
    by (metis add_diff_cancel_right' length_append takeWhile_dropWhile_id)
  then show ?thesis
    by (auto simp: ConsumeDecimalNumber_def ConsumeDecimalNumber_loop_eq Let_def
        dropWhile_eq_drop [symmetric] simp del: diff_is_0_eq zero_less_diff)
qed

lemma ConsumeDecimalNumber_digits:
  assumes "\<forall>c \<in> set ds. is_digit c" "ds \<noteq> []" "rest = [] \<or> \<not> is_digit (hd rest)"
    "digits_from 0 ds = unat n"
  shows "ConsumeDecimalNumber (ds @ rest) = (True, Some n, rest)"
proof -
  have "takeWhile is_digit (ds @ rest) = ds" "dropWhile is_digit (ds @ rest) = rest"
    using assms(1,3) by (cases rest; simp add: takeWhile_append2 dropWhile_append2)+
  moreover have "digits_from 0 ds < 2 ^ 64"
    using assms(4) unsigned_less [of n, where 'a = nat] by simp
  ultimately show ?thesis
    using assms(2,4) by (simp add: ConsumeDecimalNumber_eq)
qed

definition escape_byte :: "byte \<Rightarrow> bytes" where
  "escape_byte c =
     (if 32 \<le> c \<and> c \<le> 126 then [c]
      else [92, 120, hex_digit (unat c div 16), hex_digit (unat c mod 16)])"

lemma AppendEscapedStringTo_eq:
  "AppendEscapedStringTo s v = s @ concat (map escape_byte v)"
  by (induction s v rule: AppendEscapedStringTo.induct) (simp_all add: escape_byte_def)

lemma hex_digit_printable: "n < 16 \<Longrightarrow> 32 \<le> hex_digit n \<and> hex_digit n \<le> 126"
  by (cases "n < 10") (simp_all add: hex_digit_def word_le_nat_alt unat_word_ariths unat_of_nat)

lemma escape_byte_printable: "d \<in> set (escape_byte c) \<Longrightarrow> 32 \<le> d \<and> d \<le> 126"
proof -
  have "unat c div 16 < 16" using unsigned_less [of c, where 'a = nat] by simp
  then have "32 \<le> hex_digit (unat c div 16) \<and> hex_digit (unat c div 16) \<le> 126"
    by (rule hex_digit_printable)
  moreover have "32 \<le> hex_digit (unat c mod 16) \<and> hex_digit (unat c mod 16) \<le> 126"
    by (rule hex_digit_printable) simp
  moreover assume "d \<in> set (escape_byte c)"
  ultimately show ?thesis by (auto simp: escape_byte_def split: if_splits)
qed

lemma EscapeString_printable: "d \<in> set (EscapeString v) \<Longrightarrow> 32 \<le> d \<and> d \<le> 126"
  by (auto simp: EscapeString_def AppendEscapedStringTo_eq dest: escape_byte_printable)

section \<open>Properties\<close>

text \<open>
  \<open>ConsumeDecimalNumber\<close> is exact on every input: with \<open>ds\<close> the leading digits, it
  succeeds iff there is a digit and the number fits in 64 bits; it then stores that number and
  drops exactly the digits. A number of \<open>2^64\<close> or more is refused with input and value
  untouched: the overflow check never lets a wrapped value through.
\<close>

theorem consume_decimal_exact:
  "ConsumeDecimalNumber input =
     (let ds = takeWhile is_digit input; rest = dropWhile is_digit input in
      if digits_from 0 ds < 2 ^ 64 then (ds \<noteq> [], Some (of_nat (digits_from 0 ds)), rest)
      else (False, None, input))"
  by (simp add: ConsumeDecimalNumber_eq)

text \<open>
  Number printing and parsing round-trip: \<open>ConsumeDecimalNumber\<close> reads back what
  \<open>NumberToString\<close> printed when no digit follows.
\<close>

theorem number_roundtrip:
  assumes "rest = [] \<or> \<not> is_digit (hd rest)"
  shows "ConsumeDecimalNumber (NumberToString n @ rest) = (True, Some n, rest)"
  using assms decimal_digits decimal_nonempty digits_from_decimal
  by (auto simp: NumberToString_def AppendNumberTo_def intro!: ConsumeDecimalNumber_digits)

theorem number_roundtrip_witness:
  "ConsumeDecimalNumber (NumberToString 1234567 @ str ''.log'') = (True, Some 1234567, str ''.log'')"
  by (rule number_roundtrip) (simp add: str_def is_digit_def)

end
