(* ===== verification/Comparators.thy ===== *)
theory Comparators
  imports Prelude
begin

text \<open>
  \<open>Slice\<close> comparison (\<open>include/leveldb/slice.h\<close>), the \<open>Comparator\<close> interface
  (\<open>include/leveldb/comparator.h\<close>) and the built-in bytewise comparator
  (\<open>util/comparator.cc\<close>). A comparator object is a record of its virtual methods, so that user
  comparators and the internal-key comparator are values of one type. The interface's
  documented promises are the locale \<open>comparator_contract\<close>.
\<close>

section \<open>Definitions\<close>

subsection \<open>Slices\<close>

text \<open>
  \<open>memcmp\<close> over the first \<open>n\<close> bytes: the difference of the first two bytes that differ, as
  unsigned values, or 0. (The C standard fixes only its sign, and the code uses only its sign.)
\<close>

fun memcmp :: "bytes \<Rightarrow> bytes \<Rightarrow> nat \<Rightarrow> int" where
  "memcmp (x # xs) (y # ys) (Suc n) = (if x = y then memcmp xs ys n else uint x - uint y)"
| "memcmp _ _ _ = 0"

definition Slice_compare :: "bytes \<Rightarrow> bytes \<Rightarrow> int" where
  "Slice_compare a b =
     (let min_len = (if length a < length b then length a else length b);
          r = memcmp a b min_len
      in if r = 0 then (if length a < length b then -1 else if length a > length b then 1 else r)
         else r)"

definition starts_with :: "bytes \<Rightarrow> bytes \<Rightarrow> bool" where
  "starts_with s x \<longleftrightarrow> length s \<ge> length x \<and> memcmp s x (length x) = 0"

definition Slice_eq :: "bytes \<Rightarrow> bytes \<Rightarrow> bool" where
  "Slice_eq x y \<longleftrightarrow> length x = length y \<and> memcmp x y (length x) = 0"

subsection \<open>The comparator interface\<close>

record comparator =
  Name :: bytes
  Compare :: "bytes \<Rightarrow> bytes \<Rightarrow> int"
  FindShortestSeparator :: "bytes \<Rightarrow> bytes \<Rightarrow> bytes"
  FindShortSuccessor :: "bytes \<Rightarrow> bytes"

subsection \<open>The bytewise comparator\<close>

text \<open>
  The loop both \<open>FindShortestSeparator\<close> and the block builder run: the first index below both
  lengths at which the strings differ, or the shorter length.
\<close>

fun shared_prefix :: "bytes \<Rightarrow> bytes \<Rightarrow> nat" where
  "shared_prefix (x # xs) (y # ys) = (if x = y then Suc (shared_prefix xs ys) else 0)"
| "shared_prefix _ _ = 0"

definition Bytewise_FindShortestSeparator :: "bytes \<Rightarrow> bytes \<Rightarrow> bytes" where
  "Bytewise_FindShortestSeparator start limit =
     (let min_length = min (length start) (length limit);
          diff_index = shared_prefix start limit
      in if diff_index \<ge> min_length then start
         else let diff_byte = start ! diff_index
              in if diff_byte < 255 \<and> uint diff_byte + 1 < uint (limit ! diff_index)
                 then take (diff_index + 1) (start[diff_index := diff_byte + 1])
                 else start)"

text \<open>The recursion walks the key as the loop's index does; \<open>resize(i + 1)\<close> drops the rest.\<close>

fun Bytewise_FindShortSuccessor :: "bytes \<Rightarrow> bytes" where
  "Bytewise_FindShortSuccessor [] = []"
| "Bytewise_FindShortSuccessor (byte # key) =
     (if byte \<noteq> 255 then [byte + 1] else byte # Bytewise_FindShortSuccessor key)"

definition BytewiseComparator :: comparator where
  "BytewiseComparator =
     \<lparr>Name = str ''leveldb.BytewiseComparator'', Compare = Slice_compare,
      FindShortestSeparator = Bytewise_FindShortestSeparator,
      FindShortSuccessor = Bytewise_FindShortSuccessor\<rparr>"

section \<open>The contract of a comparator\<close>

text \<open>
  What \<open>comparator.h\<close> promises on the keys \<open>ok\<close> accepts: \<open>Compare\<close> is a three-way comparison
  for a total order in which only equal keys compare equal, a separator of \<open>start < limit\<close> lies
  in \<open>[start, limit)\<close>, a short successor is not below its key. One law goes beyond the header's
  text, because the internal-key comparator relies on it: a separator of keys that are not in
  order is \<open>start\<close> itself.
\<close>

locale comparator_contract =
  fixes c :: comparator and ok :: "bytes \<Rightarrow> bool"
  assumes Compare_swap: "ok a \<Longrightarrow> ok b \<Longrightarrow> Compare c a b < 0 \<longleftrightarrow> Compare c b a > 0"
    and Compare_zero: "ok a \<Longrightarrow> ok b \<Longrightarrow> Compare c a b = 0 \<longleftrightarrow> a = b"
    and Compare_trans: "ok a \<Longrightarrow> ok b \<Longrightarrow> ok d \<Longrightarrow> Compare c a b < 0 \<Longrightarrow> Compare c b d < 0 \<Longrightarrow>
      Compare c a d < 0"
    and Separator_ok: "ok a \<Longrightarrow> ok b \<Longrightarrow> ok (FindShortestSeparator c a b)"
    and Separator_lower: "ok a \<Longrightarrow> ok b \<Longrightarrow> Compare c a b < 0 \<Longrightarrow>
      Compare c a (FindShortestSeparator c a b) \<le> 0"
    and Separator_upper: "ok a \<Longrightarrow> ok b \<Longrightarrow> Compare c a b < 0 \<Longrightarrow>
      Compare c (FindShortestSeparator c a b) b < 0"
    and Separator_unordered: "ok a \<Longrightarrow> ok b \<Longrightarrow> \<not> Compare c a b < 0 \<Longrightarrow>
      FindShortestSeparator c a b = a"
    and Successor_ok: "ok a \<Longrightarrow> ok (FindShortSuccessor c a)"
    and Successor_lower: "ok a \<Longrightarrow> Compare c a (FindShortSuccessor c a) \<le> 0"
begin

lemma Compare_refl [simp]: "ok a \<Longrightarrow> Compare c a a = 0"
  by (simp add: Compare_zero)

lemma Compare_le_trans: "ok a \<Longrightarrow> ok b \<Longrightarrow> ok d \<Longrightarrow> Compare c a b \<le> 0 \<Longrightarrow> Compare c b d \<le> 0 \<Longrightarrow>
    Compare c a d \<le> 0"
  using Compare_trans [of a b d] Compare_zero [of a b] Compare_zero [of b d] by fastforce

lemma Compare_le_less_trans: "ok a \<Longrightarrow> ok b \<Longrightarrow> ok d \<Longrightarrow> Compare c a b \<le> 0 \<Longrightarrow> Compare c b d < 0 \<Longrightarrow>
    Compare c a d < 0"
  using Compare_trans [of a b d] Compare_zero [of a b] by fastforce

lemma Compare_less_le_trans: "ok a \<Longrightarrow> ok b \<Longrightarrow> ok d \<Longrightarrow> Compare c a b < 0 \<Longrightarrow> Compare c b d \<le> 0 \<Longrightarrow>
    Compare c a d < 0"
  using Compare_trans [of a b d] Compare_zero [of b d] by fastforce

lemma Compare_not_less: "ok a \<Longrightarrow> ok b \<Longrightarrow> \<not> Compare c a b < 0 \<longleftrightarrow> Compare c b a \<le> 0"
  using Compare_swap [of b a] Compare_zero [of a b] Compare_zero [of b a] by auto

end

text \<open>A comparator an application may pass: its contract holds on all keys.\<close>

locale total_comparator = comparator_contract c "\<lambda>_. True" for c

section \<open>Lemmas\<close>

lemma memcmp_Nil [simp]: "memcmp xs ys 0 = 0"
  by (cases xs; cases ys) simp_all

lemma uint_eq_byte [simp]: "uint x = uint y \<longleftrightarrow> x = (y :: byte)"
  by (simp add: word_uint_eq_iff)

lemma Slice_compare_Nil [simp]:
  "Slice_compare [] [] = 0" "Slice_compare [] (y # ys) = -1" "Slice_compare (x # xs) [] = 1"
  by (simp_all add: Slice_compare_def)

lemma Slice_compare_Cons [simp]:
  "Slice_compare (x # xs) (y # ys) = (if x = y then Slice_compare xs ys else uint x - uint y)"
  by (simp add: Slice_compare_def Let_def)

lemma Slice_compare_less: "Slice_compare a b < 0 \<longleftrightarrow> ord_class.lexordp a b"
proof (induction a b rule: list_induct2')
  case (4 x xs y ys)
  have "\<not> x < y \<and> \<not> y < x \<longleftrightarrow> x = y" by auto
  with 4 show ?case by (auto simp: word_less_def)
qed simp_all

lemma Slice_compare_zero: "Slice_compare a b = 0 \<longleftrightarrow> a = b"
  by (induction a b rule: list_induct2') auto

lemma Slice_compare_refl [simp]: "Slice_compare a a = 0"
  by (simp add: Slice_compare_zero)

lemma Slice_compare_swap: "Slice_compare a b < 0 \<longleftrightarrow> Slice_compare b a > 0"
  by (induction a b rule: list_induct2') auto

lemma Slice_compare_trans:
  "Slice_compare a b < 0 \<Longrightarrow> Slice_compare b d < 0 \<Longrightarrow> Slice_compare a d < 0"
  unfolding Slice_compare_less by (rule lexordp_trans)

lemma memcmp_zero: "memcmp a b n = 0 \<longleftrightarrow> take (min n (length b)) a = take (min n (length a)) b"
  by (induction a b n rule: memcmp.induct) auto

lemma starts_with_prefix: "starts_with s x \<longleftrightarrow> prefix x s"
proof -
  have "prefix x s \<longleftrightarrow> length x \<le> length s \<and> take (length x) s = x"
    by (metis append_eq_conv_conj append_take_drop_id prefixE prefixI prefix_length_le)
  then show ?thesis by (auto simp: starts_with_def memcmp_zero min_def)
qed

lemma Slice_eq_iff [simp]: "Slice_eq x y \<longleftrightarrow> x = y"
  by (auto simp: Slice_eq_def memcmp_zero)

subsection \<open>The bytewise separator\<close>

lemma Bytewise_Separator_simps [simp]:
  "Bytewise_FindShortestSeparator [] l = []"
  "Bytewise_FindShortestSeparator s [] = s"
  "Bytewise_FindShortestSeparator (x # xs) (y # ys) =
     (if x = y then x # Bytewise_FindShortestSeparator xs ys
      else if x < 255 \<and> uint x + 1 < uint y then [x + 1] else x # xs)"
  by (simp_all add: Bytewise_FindShortestSeparator_def Let_def)

lemma uint_Suc_byte: "x < 255 \<Longrightarrow> uint (x + 1 :: byte) = uint x + 1"
  by (simp add: word_less_def uint_word_ariths)

lemma byte_not_255: "(b :: byte) \<noteq> 255 \<Longrightarrow> b < 255"
proof -
  assume "b \<noteq> 255"
  moreover have "b \<le> - 1" by (rule word_n1_ge)
  moreover have "(- 1 :: byte) = 255" by simp
  ultimately show ?thesis by (metis order.not_eq_order_implies_strict)
qed

lemma Bytewise_Separator_bounds:
  "Slice_compare a b < 0 \<Longrightarrow>
   Slice_compare a (Bytewise_FindShortestSeparator a b) \<le> 0 \<and>
   Slice_compare (Bytewise_FindShortestSeparator a b) b < 0"
  by (induction a b rule: list_induct2') (auto simp: uint_Suc_byte Slice_compare_refl)

lemma Bytewise_Separator_unordered:
  "\<not> Slice_compare a b < 0 \<Longrightarrow> Bytewise_FindShortestSeparator a b = a"
  by (induction a b rule: list_induct2') (auto split: if_splits)

lemma Bytewise_Successor_lower: "Slice_compare a (Bytewise_FindShortSuccessor a) \<le> 0"
  by (induction a) (auto simp: uint_Suc_byte dest: byte_not_255)

lemma BytewiseComparator_simps [simp]:
  "Compare BytewiseComparator = Slice_compare"
  "FindShortestSeparator BytewiseComparator = Bytewise_FindShortestSeparator"
  "FindShortSuccessor BytewiseComparator = Bytewise_FindShortSuccessor"
  by (simp_all add: BytewiseComparator_def)

interpretation bytewise: total_comparator BytewiseComparator
proof unfold_locales
  fix a b d
  show "Compare BytewiseComparator a b < 0 \<longleftrightarrow> Compare BytewiseComparator b a > 0"
    by (simp add: Slice_compare_swap)
  show "Compare BytewiseComparator a b < 0 \<Longrightarrow> Compare BytewiseComparator b d < 0 \<Longrightarrow>
      Compare BytewiseComparator a d < 0"
    unfolding BytewiseComparator_simps by (rule Slice_compare_trans)
qed (simp_all add: Slice_compare_zero Bytewise_Separator_bounds Bytewise_Separator_unordered
      Bytewise_Successor_lower)

section \<open>Properties\<close>

text \<open>
  C36. The bytewise comparator is lexicographic comparison of unsigned bytes and keeps the
  promises of \<open>comparator.h\<close>: \<open>Compare\<close> is negative, zero, positive exactly when its first
  argument is lexicographically below, equal to, above the second; for \<open>start < limit\<close>,
  \<open>FindShortestSeparator\<close> yields a key in \<open>[start, limit)\<close> no longer than \<open>start\<close> (so its
  internal assertion never fails); \<open>FindShortSuccessor\<close> yields a key not below its argument.
\<close>

lemma Bytewise_Separator_length: "length (Bytewise_FindShortestSeparator a b) \<le> length a"
  by (induction a b rule: list_induct2') auto

theorem bytewise_contract:
  "(Slice_compare a b < 0 \<longleftrightarrow> ord_class.lexordp a b) \<and>
   (Slice_compare a b = 0 \<longleftrightarrow> a = b) \<and>
   (Slice_compare a b > 0 \<longleftrightarrow> ord_class.lexordp b a) \<and>
   (ord_class.lexordp a b \<longrightarrow>
      (let s = Bytewise_FindShortestSeparator a b in
       Slice_compare a s \<le> 0 \<and> Slice_compare s b < 0 \<and> length s \<le> length a)) \<and>
   Slice_compare a (Bytewise_FindShortSuccessor a) \<le> 0"
  using Bytewise_Separator_bounds [of a b] Bytewise_Separator_length [of a b]
    Bytewise_Successor_lower [of a] Slice_compare_swap [of b a]
  by (simp add: Slice_compare_less [symmetric] Slice_compare_zero Let_def)

theorem bytewise_contract_witness:
  "ord_class.lexordp (str ''abc1xyz'') (str ''abc9'') \<and>
   Bytewise_FindShortestSeparator (str ''abc1xyz'') (str ''abc9'') = str ''abc2'' \<and>
   Slice_compare (str ''abc1xyz'') (str ''abc2'') \<le> 0 \<and> Slice_compare (str ''abc2'') (str ''abc9'') < 0"
proof -
  have l: "ord_class.lexordp (str ''abc1xyz'') (str ''abc9'')" by (simp add: str_def)
  have s: "Bytewise_FindShortestSeparator (str ''abc1xyz'') (str ''abc9'') = str ''abc2''"
    by (simp add: str_def)
  show ?thesis
    using bytewise_contract [of "str ''abc1xyz''" "str ''abc9''"] l unfolding s Let_def by blast
qed

end
