(* ===== verification/Filters.thy ===== *)
theory Filters
  imports Coding
begin

text \<open>
  \<open>util/hash.cc\<close>, the \<open>FilterPolicy\<close> interface (\<open>include/leveldb/filter_policy.h\<close>) and the Bloom
  filter policy (\<open>util/bloom.cc\<close>). The interface's promise, that a filter never rejects a key
  it was built from, is the locale \<open>filter_policy_contract\<close>.
\<close>

section \<open>Definitions\<close>

subsection \<open>The hash function\<close>

text \<open>
  The loop that picks up four bytes at a time, and the switch on what is left with its
  fall-through cases.
\<close>

definition hash_m :: u32 where
  "hash_m = 0xc6a4a793"

definition hash_r :: nat where
  "hash_r = 24"

function Hash_loop :: "bytes \<Rightarrow> u32 \<Rightarrow> bytes \<times> u32" where
  "Hash_loop data h =
     (if 4 \<le> length data then
        (let w = DecodeFixed32 data; h1 = h + w; h2 = h1 * hash_m; h3 = h2 XOR drop_bit 16 h2
         in Hash_loop (drop 4 data) h3)
      else (data, h))"
  by pat_completeness auto
termination
  by (relation "measure (length \<circ> fst)") auto

definition Hash_tail :: "bytes \<Rightarrow> u32 \<Rightarrow> u32" where
  "Hash_tail data h =
     (let h = (if length data = 3 then h + push_bit 16 (ucast (data ! 2)) else h);
          h = (if length data = 3 \<or> length data = 2 then h + push_bit 8 (ucast (data ! 1)) else h)
      in if length data = 3 \<or> length data = 2 \<or> length data = 1
         then (let h = h + ucast (data ! 0); h = h * hash_m in h XOR drop_bit hash_r h)
         else h)"

definition Hash :: "bytes \<Rightarrow> u32 \<Rightarrow> u32" where
  "Hash data seed =
     (let h = seed XOR (of_nat (length data) * hash_m);
          (rest, h) = Hash_loop data h
      in Hash_tail rest h)"

subsection \<open>The filter policy interface\<close>

record filter_policy =
  fName :: bytes
  CreateFilter :: "bytes list \<Rightarrow> bytes \<Rightarrow> bytes"
  KeyMayMatch :: "bytes \<Rightarrow> bytes \<Rightarrow> bool"

subsection \<open>The Bloom filter\<close>

definition BloomHash :: "bytes \<Rightarrow> u32" where
  "BloomHash key = Hash key 0xbc9f1d34"

text \<open>
  The number of probes. \<open>bits_per_key * 0.69\<close>, computed in doubles and cut off to an integer, is
  \<open>bits_per_key * 69 div 100\<close> wherever the bound of 30 does not apply. (A negative argument
  has no defined conversion to \<open>size_t\<close> and is left out.)
\<close>

definition bloom_k :: "nat \<Rightarrow> nat" where
  "bloom_k bits_per_key =
     (let k = bits_per_key * 69 div 100;
          k = (if k < 1 then 1 else k)
      in if k > 30 then 30 else k)"

definition bloom_delta :: "u32 \<Rightarrow> u32" where
  "bloom_delta h = drop_bit 17 h OR push_bit 15 h"

text \<open>The inner loops over \<open>j\<close>, counted down from \<open>k\<close>.\<close>

fun bloom_set_loop :: "nat \<Rightarrow> u32 \<Rightarrow> u32 \<Rightarrow> nat \<Rightarrow> bytes \<Rightarrow> bytes" where
  "bloom_set_loop 0 h delta bits arr = arr"
| "bloom_set_loop (Suc j) h delta bits arr =
     (let bitpos = unat h mod bits in
      bloom_set_loop j (h + delta) delta bits
        (arr[bitpos div 8 := (arr ! (bitpos div 8)) OR push_bit (bitpos mod 8) 1]))"

fun bloom_keys_loop :: "nat \<Rightarrow> nat \<Rightarrow> bytes list \<Rightarrow> bytes \<Rightarrow> bytes" where
  "bloom_keys_loop k bits [] arr = arr"
| "bloom_keys_loop k bits (key # keys) arr =
     (let h = BloomHash key in
      bloom_keys_loop k bits keys (bloom_set_loop k h (bloom_delta h) bits arr))"

definition Bloom_CreateFilter :: "nat \<Rightarrow> bytes list \<Rightarrow> bytes \<Rightarrow> bytes" where
  "Bloom_CreateFilter bits_per_key keys dst =
     (let bits = length keys * bits_per_key;
          bits = (if bits < 64 then 64 else bits);
          bytes = (bits + 7) div 8;
          bits = bytes * 8;
          k = bloom_k bits_per_key
      in dst @ bloom_keys_loop k bits keys (replicate bytes 0) @ [of_nat k])"

fun bloom_match_loop :: "nat \<Rightarrow> u32 \<Rightarrow> u32 \<Rightarrow> nat \<Rightarrow> bytes \<Rightarrow> bool" where
  "bloom_match_loop 0 h delta bits arr = True"
| "bloom_match_loop (Suc j) h delta bits arr =
     (let bitpos = unat h mod bits in
      if (arr ! (bitpos div 8)) AND push_bit (bitpos mod 8) 1 = 0 then False
      else bloom_match_loop j (h + delta) delta bits arr)"

definition Bloom_KeyMayMatch :: "bytes \<Rightarrow> bytes \<Rightarrow> bool" where
  "Bloom_KeyMayMatch key bloom_filter =
     (let len = length bloom_filter in
      if len < 2 then False
      else
        (let bits = (len - 1) * 8; k = unat (bloom_filter ! (len - 1)) in
         if k > 30 then True
         else (let h = BloomHash key in bloom_match_loop k h (bloom_delta h) bits bloom_filter)))"

definition NewBloomFilterPolicy :: "nat \<Rightarrow> filter_policy" where
  "NewBloomFilterPolicy bits_per_key =
     \<lparr>fName = str ''leveldb.BuiltinBloomFilter2'',
      CreateFilter = Bloom_CreateFilter bits_per_key, KeyMayMatch = Bloom_KeyMayMatch\<rparr>"

section \<open>The contract of a filter policy\<close>

text \<open>
  What \<open>filter_policy.h\<close> promises: \<open>CreateFilter\<close> appends to \<open>*dst\<close> and leaves what was there, and
  \<open>KeyMayMatch\<close> returns true for every key the filter was built from.
\<close>

locale filter_policy_contract =
  fixes p :: filter_policy and key_ok :: "bytes \<Rightarrow> bool"
  assumes CreateFilter_appends: "CreateFilter p keys dst = dst @ CreateFilter p keys []"
    and no_false_negative: "\<forall>k\<in>set keys. key_ok k \<Longrightarrow> k \<in> set keys \<Longrightarrow>
      KeyMayMatch p k (CreateFilter p keys [])"
begin

lemma no_false_negative_appended:
  "\<forall>k\<in>set keys. key_ok k \<Longrightarrow> k \<in> set keys \<Longrightarrow>
   KeyMayMatch p k (drop (length dst) (CreateFilter p keys dst))"
  by (subst CreateFilter_appends) (simp add: no_false_negative)

end

text \<open>A policy an application may pass: its contract holds on all keys.\<close>

locale total_filter_policy = filter_policy_contract p "\<lambda>_. True" for p

section \<open>Lemmas\<close>

text \<open>Bit \<open>pos\<close> of a bit array.\<close>

definition bit_at :: "bytes \<Rightarrow> nat \<Rightarrow> bool" where
  "bit_at arr pos \<longleftrightarrow> bit (arr ! (pos div 8)) (pos mod 8)"

definition set_bit_at :: "nat \<Rightarrow> bytes \<Rightarrow> bytes" where
  "set_bit_at pos arr = arr[pos div 8 := (arr ! (pos div 8)) OR push_bit (pos mod 8) 1]"

lemma length_set_bit_at [simp]: "length (set_bit_at pos arr) = length arr"
  by (simp add: set_bit_at_def)

lemma bit_at_set_same: "pos < 8 * length arr \<Longrightarrow> bit_at (set_bit_at pos arr) pos"
  by (auto simp: bit_at_def set_bit_at_def word_bits bit_1_iff simp del: push_bit_of_1)

lemma bit_at_set_mono: "bit_at arr q \<Longrightarrow> bit_at (set_bit_at pos arr) q"
  by (cases "pos div 8 < length arr")
    (auto simp: bit_at_def set_bit_at_def word_bits nth_list_update list_update_beyond)

lemma bit_at_test: "(arr ! (pos div 8)) AND push_bit (pos mod 8) 1 = 0 \<longleftrightarrow> \<not> bit_at arr pos"
  by (simp add: bit_at_def bit_iff_and_push_bit_not_eq_0 del: push_bit_of_1)

text \<open>The loops, in terms of the bit positions they touch.\<close>

fun probes :: "nat \<Rightarrow> u32 \<Rightarrow> u32 \<Rightarrow> nat \<Rightarrow> nat list" where
  "probes 0 h delta bits = []"
| "probes (Suc j) h delta bits = unat h mod bits # probes j (h + delta) delta bits"

definition set_all :: "nat list \<Rightarrow> bytes \<Rightarrow> bytes" where
  "set_all ps arr = fold set_bit_at ps arr"

lemma bloom_set_loop_eq: "bloom_set_loop k h d bits arr = set_all (probes k h d bits) arr"
  by (induction k h d bits arr rule: bloom_set_loop.induct)
    (simp_all add: set_all_def set_bit_at_def Let_def)

lemma bloom_match_loop_eq: "bloom_match_loop k h d bits arr \<longleftrightarrow> (\<forall>q\<in>set (probes k h d bits). bit_at arr q)"
  by (induction k h d bits arr rule: bloom_match_loop.induct)
    (simp_all add: Let_def bit_at_test del: push_bit_of_1)

lemma bloom_keys_loop_eq:
  "bloom_keys_loop k bits keys arr =
   set_all (concat (map (\<lambda>key. probes k (BloomHash key) (bloom_delta (BloomHash key)) bits) keys)) arr"
  by (induction keys arbitrary: arr) (simp_all add: Let_def bloom_set_loop_eq set_all_def)

lemma length_set_all [simp]: "length (set_all ps arr) = length arr"
  by (induction ps arbitrary: arr) (simp_all add: set_all_def)

lemma set_all_mono: "bit_at arr q \<Longrightarrow> bit_at (set_all ps arr) q"
  by (induction ps arbitrary: arr) (simp_all add: set_all_def bit_at_set_mono)

lemma set_all_sets: "q \<in> set ps \<Longrightarrow> \<forall>p\<in>set ps. p < 8 * length arr \<Longrightarrow> bit_at (set_all ps arr) q"
proof (induction ps arbitrary: arr)
  case (Cons p ps)
  have "set_all (p # ps) arr = set_all ps (set_bit_at p arr)" by (simp add: set_all_def)
  with Cons show ?case
    using set_all_mono [OF bit_at_set_same [of p arr]] by auto
qed simp

lemma probes_bound: "0 < bits \<Longrightarrow> q \<in> set (probes k h d bits) \<Longrightarrow> q < bits"
  by (induction k arbitrary: h) auto

lemma bit_at_append: "q < 8 * length arr \<Longrightarrow> bit_at (arr @ xs) q = bit_at arr q"
  by (simp add: bit_at_def nth_append less_mult_imp_div_less mult.commute)

lemma bloom_k_bounds: "1 \<le> bloom_k b \<and> bloom_k b \<le> 30"
  by (simp add: bloom_k_def Let_def)

lemma Bloom_CreateFilter_form:
  obtains arr bits where
    "Bloom_CreateFilter b keys dst = dst @ arr @ [of_nat (bloom_k b)]"
    "bits = length arr * 8" "8 \<le> length arr"
    "arr = set_all (concat (map (\<lambda>key. probes (bloom_k b) (BloomHash key)
       (bloom_delta (BloomHash key)) bits) keys)) (replicate (length arr) 0)"
proof -
  define bits where "bits = (if length keys * b < 64 then 64 else length keys * b)"
  define n where "n = (bits + 7) div 8"
  let ?arr = "bloom_keys_loop (bloom_k b) (n * 8) keys (replicate n 0)"
  have len: "length ?arr = n" by (simp add: bloom_keys_loop_eq)
  show thesis
  proof (rule that)
    show "Bloom_CreateFilter b keys dst = dst @ ?arr @ [of_nat (bloom_k b)]"
      by (simp add: Bloom_CreateFilter_def Let_def bits_def n_def)
    have "64 \<le> bits" by (simp add: bits_def)
    then show "n * 8 = length ?arr * 8" "8 \<le> length ?arr" using len by (simp_all add: n_def)
    show "?arr = set_all (concat (map (\<lambda>key. probes (bloom_k b) (BloomHash key)
       (bloom_delta (BloomHash key)) (n * 8)) keys)) (replicate (length ?arr) 0)"
      unfolding len by (rule bloom_keys_loop_eq)
  qed
qed

lemma Bloom_no_false_negative:
  assumes "key \<in> set keys"
  shows "Bloom_KeyMayMatch key (Bloom_CreateFilter b keys [])"
proof -
  obtain arr bits where f: "Bloom_CreateFilter b keys [] = [] @ arr @ [of_nat (bloom_k b)]"
    and bits: "bits = length arr * 8" and len: "8 \<le> length arr"
    and arr: "arr = set_all (concat (map (\<lambda>key. probes (bloom_k b) (BloomHash key)
       (bloom_delta (BloomHash key)) bits) keys)) (replicate (length arr) 0)"
    by (rule Bloom_CreateFilter_form)
  let ?ps = "probes (bloom_k b) (BloomHash key) (bloom_delta (BloomHash key)) bits"
  have k: "unat (of_nat (bloom_k b) :: byte) = bloom_k b"
    using bloom_k_bounds [of b] by (simp add: unat_of_nat)
  have bound: "q < 8 * length arr" if "q \<in> set (probes (bloom_k b) h d bits)" for q h d
    using probes_bound [OF _ that] bits len by (cases arr) simp_all
  have "bit_at arr q" if q: "q \<in> set ?ps" for q
  proof -
    let ?all = "concat (map (\<lambda>key. probes (bloom_k b) (BloomHash key)
       (bloom_delta (BloomHash key)) bits) keys)"
    have "q \<in> set ?all" using q assms by auto
    moreover have "\<forall>p\<in>set ?all. p < 8 * length (replicate (length arr) (0 :: byte))"
      using bound by auto
    ultimately have "bit_at (set_all ?all (replicate (length arr) 0)) q" by (rule set_all_sets)
    then show ?thesis using arr by simp
  qed
  moreover note bound
  ultimately have "bloom_match_loop (bloom_k b) (BloomHash key) (bloom_delta (BloomHash key)) bits
      (arr @ [of_nat (bloom_k b)])"
    by (simp add: bloom_match_loop_eq bit_at_append)
  then show ?thesis
    using len bits k bloom_k_bounds [of b] by (cases arr) (simp_all add: Bloom_KeyMayMatch_def f Let_def nth_append)
qed

interpretation bloom: total_filter_policy "NewBloomFilterPolicy b" for b
proof unfold_locales
  fix keys dst k
  show "CreateFilter (NewBloomFilterPolicy b) keys dst =
      dst @ CreateFilter (NewBloomFilterPolicy b) keys []"
    by (simp add: NewBloomFilterPolicy_def Bloom_CreateFilter_def Let_def)
  assume "k \<in> set keys"
  then show "KeyMayMatch (NewBloomFilterPolicy b) k (CreateFilter (NewBloomFilterPolicy b) keys [])"
    by (simp add: NewBloomFilterPolicy_def Bloom_no_false_negative)
qed

section \<open>Properties\<close>

text \<open>
  The Bloom filter has no false negatives: for every number of bits per key and every
  list of keys, the filter \<open>CreateFilter\<close> appends to any destination matches each of its keys.
\<close>

theorem bloom_no_false_negatives:
  assumes "key \<in> set keys"
  shows "KeyMayMatch (NewBloomFilterPolicy b) key
    (drop (length dst) (CreateFilter (NewBloomFilterPolicy b) keys dst))"
  by (rule bloom.no_false_negative_appended) (use assms in simp_all)

theorem bloom_no_false_negatives_witness:
  "KeyMayMatch (NewBloomFilterPolicy 10) (str ''hello'')
    (drop (length [1, 2 :: byte]) (CreateFilter (NewBloomFilterPolicy 10) [str ''hello'', str ''world''] [1, 2]))"
  by (rule bloom_no_false_negatives) simp

end
