(* ===== verification/DbFormat.thy ===== *)
theory DbFormat
  imports Coding LoggingUtil Comparators Filters
begin

text \<open>
  \<open>db/dbformat.h\<close> and \<open>db/dbformat.cc\<close>: internal keys (a user key followed by a 64-bit tag that
  packs the sequence number and the value type), their comparator, the filter policy wrapper
  and lookup keys. The wrappers take any user comparator or filter policy that keeps its
  contract.
\<close>

section \<open>Definitions\<close>

datatype ValueType = kTypeDeletion | kTypeValue

fun ValueType_num :: "ValueType \<Rightarrow> byte" where
  "ValueType_num kTypeDeletion = 0"
| "ValueType_num kTypeValue = 1"

definition kValueTypeForSeek :: ValueType where
  "kValueTypeForSeek = kTypeValue"

definition kMaxSequenceNumber :: u64 where
  "kMaxSequenceNumber = push_bit 56 1 - 1"

definition kNumLevels :: nat where "kNumLevels = 7"
definition kL0_CompactionTrigger :: nat where "kL0_CompactionTrigger = 4"
definition kL0_SlowdownWritesTrigger :: nat where "kL0_SlowdownWritesTrigger = 8"
definition kL0_StopWritesTrigger :: nat where "kL0_StopWritesTrigger = 12"
definition kMaxMemCompactLevel :: nat where "kMaxMemCompactLevel = 2"

record ParsedInternalKey =
  user_key :: bytes
  sequence :: u64
  vtype :: ValueType

definition InternalKeyEncodingLength :: "ParsedInternalKey \<Rightarrow> nat" where
  "InternalKeyEncodingLength key = length (user_key key) + 8"

definition PackSequenceAndType :: "u64 \<Rightarrow> ValueType \<Rightarrow> u64" where
  "PackSequenceAndType seq t = push_bit 8 seq OR ucast (ValueType_num t)"

definition AppendInternalKey :: "bytes \<Rightarrow> ParsedInternalKey \<Rightarrow> bytes" where
  "AppendInternalKey result key =
     PutFixed64 (result @ user_key key) (PackSequenceAndType (sequence key) (vtype key))"

text \<open>
  \<open>InternalKey(user_key, s, t)\<close>: its \<open>rep_\<close>. The last eight bytes of an internal key, and the user
  key before them; the code asserts that there are eight.
\<close>

definition InternalKey :: "bytes \<Rightarrow> u64 \<Rightarrow> ValueType \<Rightarrow> bytes" where
  "InternalKey ukey s t = AppendInternalKey [] \<lparr>user_key = ukey, sequence = s, vtype = t\<rparr>"

definition ExtractUserKey :: "bytes \<Rightarrow> bytes" where
  "ExtractUserKey internal_key = take (length internal_key - 8) internal_key"

definition key_tag :: "bytes \<Rightarrow> u64" where
  "key_tag internal_key = DecodeFixed64 (drop (length internal_key - 8) internal_key)"

definition ParseInternalKey :: "bytes \<Rightarrow> ParsedInternalKey option" where
  "ParseInternalKey internal_key =
     (let n = length internal_key in
      if n < 8 then None
      else
        (let num = key_tag internal_key; c = ucast (num AND 255) :: byte in
         if c \<le> ValueType_num kTypeValue
         then Some \<lparr>user_key = take (n - 8) internal_key, sequence = drop_bit 8 num,
                    vtype = (if c = 0 then kTypeDeletion else kTypeValue)\<rparr>
         else None))"

text \<open>\<open>InternalKey::DecodeFrom\<close>: the new \<open>rep_\<close> and what is returned.\<close>

definition InternalKey_DecodeFrom :: "bytes \<Rightarrow> bool \<times> bytes" where
  "InternalKey_DecodeFrom s = (s \<noteq> [], s)"

definition ParsedInternalKey_DebugString :: "ParsedInternalKey \<Rightarrow> bytes" where
  "ParsedInternalKey_DebugString k =
     str [CHR 39] @ EscapeString (user_key k) @ str [CHR 39] @ str '' @ '' @
     decimal (unat (sequence k)) @ str '' : '' @ decimal (unat (ValueType_num (vtype k)))"

definition InternalKey_DebugString :: "bytes \<Rightarrow> bytes" where
  "InternalKey_DebugString rep =
     (case ParseInternalKey rep of
        Some parsed \<Rightarrow> ParsedInternalKey_DebugString parsed
      | None \<Rightarrow> str ''(bad)'' @ EscapeString rep)"

subsection \<open>The internal-key comparator\<close>

definition InternalKey_Compare :: "comparator \<Rightarrow> bytes \<Rightarrow> bytes \<Rightarrow> int" where
  "InternalKey_Compare user_comparator akey bkey =
     (let r = Compare user_comparator (ExtractUserKey akey) (ExtractUserKey bkey) in
      if r = 0 then
        (let anum = key_tag akey; bnum = key_tag bkey in
         if anum > bnum then -1 else if anum < bnum then 1 else r)
      else r)"

definition InternalKey_FindShortestSeparator :: "comparator \<Rightarrow> bytes \<Rightarrow> bytes \<Rightarrow> bytes" where
  "InternalKey_FindShortestSeparator user_comparator start limit =
     (let user_start = ExtractUserKey start; user_limit = ExtractUserKey limit;
          tmp = FindShortestSeparator user_comparator user_start user_limit
      in if length tmp < length user_start \<and> Compare user_comparator user_start tmp < 0
         then PutFixed64 tmp (PackSequenceAndType kMaxSequenceNumber kValueTypeForSeek)
         else start)"

definition InternalKey_FindShortSuccessor :: "comparator \<Rightarrow> bytes \<Rightarrow> bytes" where
  "InternalKey_FindShortSuccessor user_comparator key =
     (let ukey = ExtractUserKey key;
          tmp = FindShortSuccessor user_comparator ukey
      in if length tmp < length ukey \<and> Compare user_comparator ukey tmp < 0
         then PutFixed64 tmp (PackSequenceAndType kMaxSequenceNumber kValueTypeForSeek)
         else key)"

definition InternalKeyComparator :: "comparator \<Rightarrow> comparator" where
  "InternalKeyComparator user_comparator =
     \<lparr>Name = str ''leveldb.InternalKeyComparator'',
      Compare = InternalKey_Compare user_comparator,
      FindShortestSeparator = InternalKey_FindShortestSeparator user_comparator,
      FindShortSuccessor = InternalKey_FindShortSuccessor user_comparator\<rparr>"

subsection \<open>The filter policy wrapper\<close>

definition InternalFilterPolicy :: "filter_policy \<Rightarrow> filter_policy" where
  "InternalFilterPolicy user_policy =
     \<lparr>fName = fName user_policy,
      CreateFilter = (\<lambda>keys dst. CreateFilter user_policy (map ExtractUserKey keys) dst),
      KeyMayMatch = (\<lambda>key f. KeyMayMatch user_policy (ExtractUserKey key) f)\<rparr>"

subsection \<open>Lookup keys\<close>

text \<open>
  The array from \<open>start_\<close> to \<open>end_\<close> and the offset of \<open>kstart_\<close> in it. (Whether the array is the
  inline \<open>space_\<close> or a new one does not show.)
\<close>

record LookupKey =
  lk_data :: bytes
  lk_kstart :: nat

definition make_LookupKey :: "bytes \<Rightarrow> u64 \<Rightarrow> LookupKey" where
  "make_LookupKey ukey s =
     (let usize = length ukey;
          klen = EncodeVarint32 (of_nat (usize + 8))
      in \<lparr>lk_data = klen @ ukey @ EncodeFixed64 (PackSequenceAndType s kValueTypeForSeek),
          lk_kstart = length klen\<rparr>)"

definition lk_memtable_key :: "LookupKey \<Rightarrow> bytes" where
  "lk_memtable_key k = lk_data k"

definition lk_internal_key :: "LookupKey \<Rightarrow> bytes" where
  "lk_internal_key k = drop (lk_kstart k) (lk_data k)"

definition lk_user_key :: "LookupKey \<Rightarrow> bytes" where
  "lk_user_key k = take (length (lk_data k) - lk_kstart k - 8) (drop (lk_kstart k) (lk_data k))"

section \<open>Lemmas\<close>

subsection \<open>Packing\<close>

lemma bit_255_iff: "bit (255 :: 'a::len word) n \<longleftrightarrow> n < 8 \<and> n < LENGTH('a)"
proof -
  have "bit (mask 8 :: 'a word) n \<longleftrightarrow> n < 8 \<and> n < LENGTH('a)"
    by (auto simp: bit_mask_iff)
  then show ?thesis by (simp add: mask_eq_exp_minus_1)
qed

lemma Pack_low: "ucast (PackSequenceAndType s t AND 255) = ValueType_num t"
  by (rule bit_word_eqI) (auto simp: PackSequenceAndType_def word_bits bit_255_iff)

lemma unat_kMaxSequenceNumber: "unat kMaxSequenceNumber = 2 ^ 56 - 1"
  by (simp add: kMaxSequenceNumber_def push_bit_eq_mult)

lemma Pack_high:
  assumes "s \<le> kMaxSequenceNumber"
  shows "drop_bit 8 (PackSequenceAndType s t) = s"
proof (rule bit_word_eqI)
  fix n assume "n < LENGTH(64)"
  have "unat s < 2 ^ 56" using assms by (simp add: word_le_nat_alt unat_kMaxSequenceNumber)
  then have "\<not> bit s n" if "56 \<le> n" using that by (rule unat_lt_exp_bit)
  then show "bit (drop_bit 8 (PackSequenceAndType s t)) n = bit s n"
    by (cases "n < 56") (auto simp: PackSequenceAndType_def word_bits bit_byte_high)
qed

lemma unat_Pack:
  assumes "s \<le> kMaxSequenceNumber"
  shows "unat (PackSequenceAndType s t) = 256 * unat s + unat (ValueType_num t)"
proof -
  have "unat (PackSequenceAndType s t) = 2 ^ 8 * unat (drop_bit 8 (PackSequenceAndType s t)) +
      unat (take_bit 8 (PackSequenceAndType s t))"
    by (simp add: unat_drop_bit take_bit_eq_mod unat_mod_distrib)
  moreover have "take_bit 8 (PackSequenceAndType s t) = ucast (ValueType_num t)"
    by (rule bit_word_eqI) (auto simp: PackSequenceAndType_def word_bits bit_byte_high)
  moreover have "unat (ucast (ValueType_num t) :: u64) = unat (ValueType_num t)"
    by (cases t) simp_all
  ultimately show ?thesis by (simp add: Pack_high [OF assms])
qed

subsection \<open>Internal keys\<close>

lemma InternalKey_eq: "InternalKey u s t = u @ EncodeFixed64 (PackSequenceAndType s t)"
  by (simp add: InternalKey_def AppendInternalKey_def PutFixed64_def)

lemma ExtractUserKey_append [simp]: "ExtractUserKey (u @ EncodeFixed64 x) = u"
  by (simp add: ExtractUserKey_def)

lemma key_tag_append [simp]: "key_tag (u @ EncodeFixed64 x) = x"
  using DecodeFixed64_EncodeFixed64 [of x "[]"] by (simp add: key_tag_def)

lemma internal_key_split: "8 \<le> length k \<Longrightarrow> k = ExtractUserKey k @ EncodeFixed64 (key_tag k)"
  by (simp add: ExtractUserKey_def key_tag_def EncodeFixed64_DecodeFixed64)

lemma internal_key_eq_iff:
  "8 \<le> length a \<Longrightarrow> 8 \<le> length b \<Longrightarrow>
   a = b \<longleftrightarrow> ExtractUserKey a = ExtractUserKey b \<and> key_tag a = key_tag b"
  by (metis internal_key_split)

lemma ParseInternalKey_InternalKey [simp, roundtrip_simps]:
  "s \<le> kMaxSequenceNumber \<Longrightarrow>
   ParseInternalKey (InternalKey u s t) = Some \<lparr>user_key = u, sequence = s, vtype = t\<rparr>"
  by (cases t) (simp_all add: ParseInternalKey_def InternalKey_eq Pack_low Pack_high Let_def)

lemma ValueType_num_le: "c \<le> (1 :: byte) \<longleftrightarrow> c = 0 \<or> c = 1"
proof
  assume "c \<le> 1"
  then have "unat c = 0 \<or> unat c = 1" by (auto simp: word_le_nat_alt)
  then show "c = 0 \<or> c = 1" by (metis unat_eq_zero unat_1 unsigned_word_eqI)
qed auto

lemma Pack_parts:
  "ucast (num AND 255) = ValueType_num t \<Longrightarrow> PackSequenceAndType (drop_bit 8 num) t = num"
proof (rule bit_word_eqI)
  fix n assume c: "ucast (num AND 255) = ValueType_num t" and "n < LENGTH(64)"
  have "bit (ValueType_num t) n \<longleftrightarrow> n < 8 \<and> bit num n"
    using c [symmetric] \<open>n < LENGTH(64)\<close> by (auto simp: word_bits bit_255_iff)
  then show "bit (PackSequenceAndType (drop_bit 8 num) t) n = bit num n"
    using \<open>n < LENGTH(64)\<close> by (auto simp: PackSequenceAndType_def word_bits)
qed

lemma InternalKey_ParseInternalKey:
  "ParseInternalKey k = Some p \<Longrightarrow> AppendInternalKey [] p = k"
  using internal_key_split [of k]
  by (auto simp: ParseInternalKey_def Let_def AppendInternalKey_def PutFixed64_def Pack_parts
      ValueType_num_le ExtractUserKey_def split: if_splits)

subsection \<open>The internal-key comparator keeps the contract\<close>

lemma InternalKeyComparator_simps [simp]:
  "Compare (InternalKeyComparator c) = InternalKey_Compare c"
  "FindShortestSeparator (InternalKeyComparator c) = InternalKey_FindShortestSeparator c"
  "FindShortSuccessor (InternalKeyComparator c) = InternalKey_FindShortSuccessor c"
  by (simp_all add: InternalKeyComparator_def)

context total_comparator
begin

lemma InternalKey_Compare_less:
  "InternalKey_Compare c a b < 0 \<longleftrightarrow>
   Compare c (ExtractUserKey a) (ExtractUserKey b) < 0 \<or>
   (ExtractUserKey a = ExtractUserKey b \<and> key_tag a > key_tag b)"
  by (auto simp: InternalKey_Compare_def Let_def Compare_zero)

lemma InternalKey_Compare_zero:
  "8 \<le> length a \<Longrightarrow> 8 \<le> length b \<Longrightarrow> InternalKey_Compare c a b = 0 \<longleftrightarrow> a = b"
  using Compare_zero [of "ExtractUserKey a" "ExtractUserKey b"] internal_key_eq_iff [of a b]
  by (cases "ExtractUserKey a = ExtractUserKey b") (auto simp: InternalKey_Compare_def Let_def)

lemma InternalKey_Compare_swap: "InternalKey_Compare c a b < 0 \<longleftrightarrow> InternalKey_Compare c b a > 0"
proof (cases "ExtractUserKey a = ExtractUserKey b")
  case True
  then show ?thesis by (auto simp: InternalKey_Compare_def Let_def)
next
  case False
  then have "Compare c (ExtractUserKey a) (ExtractUserKey b) \<noteq> 0"
    "Compare c (ExtractUserKey b) (ExtractUserKey a) \<noteq> 0"
    by (auto simp: Compare_zero)
  then show ?thesis
    using Compare_swap [of "ExtractUserKey a" "ExtractUserKey b"]
    by (simp add: InternalKey_Compare_def Let_def)
qed

lemma InternalKey_Compare_append_le:
  "8 \<le> length a \<Longrightarrow> Compare c (ExtractUserKey a) u < 0 \<Longrightarrow> InternalKey_Compare c a (PutFixed64 u x) \<le> 0"
  using InternalKey_Compare_less [of a "PutFixed64 u x"] by (simp add: PutFixed64_def)

lemma InternalKey_Separator_shortened:
  fixes start limit
  defines "us \<equiv> ExtractUserKey start" and "ul \<equiv> ExtractUserKey limit"
  defines "tmp \<equiv> FindShortestSeparator c us ul"
  assumes short: "length tmp < length us \<and> Compare c us tmp < 0"
  shows "Compare c us ul < 0" and "Compare c tmp ul < 0"
proof -
  show "Compare c us ul < 0"
  proof (rule ccontr)
    assume "\<not> Compare c us ul < 0"
    then have "tmp = us" using Separator_unordered [of us ul] by (simp add: tmp_def)
    then show False using short by simp
  qed
  then show "Compare c tmp ul < 0" using Separator_upper [of us ul] by (simp add: tmp_def)
qed

end

sublocale total_comparator \<subseteq> internal: comparator_contract "InternalKeyComparator c" "\<lambda>k. 8 \<le> length k"
proof unfold_locales
  fix a b d
  show "Compare (InternalKeyComparator c) a b < 0 \<longleftrightarrow> Compare (InternalKeyComparator c) b a > 0"
    by (simp add: InternalKey_Compare_swap)
  show "Compare (InternalKeyComparator c) a b < 0 \<Longrightarrow> Compare (InternalKeyComparator c) b d < 0 \<Longrightarrow>
      Compare (InternalKeyComparator c) a d < 0"
    by (auto simp: InternalKey_Compare_less intro: Compare_trans)
  show "8 \<le> length a \<Longrightarrow> 8 \<le> length (FindShortestSeparator (InternalKeyComparator c) a b)"
    by (simp add: InternalKey_FindShortestSeparator_def Let_def PutFixed64_def)
  show "8 \<le> length a \<Longrightarrow> 8 \<le> length (FindShortSuccessor (InternalKeyComparator c) a)"
    by (simp add: InternalKey_FindShortSuccessor_def Let_def PutFixed64_def)
  show "8 \<le> length a \<Longrightarrow>
      Compare (InternalKeyComparator c) a (FindShortestSeparator (InternalKeyComparator c) a b) \<le> 0"
    using InternalKey_Compare_zero [of a a]
    by (simp add: InternalKey_FindShortestSeparator_def Let_def InternalKey_Compare_append_le)
  show "8 \<le> length a \<Longrightarrow>
      Compare (InternalKeyComparator c) a (FindShortSuccessor (InternalKeyComparator c) a) \<le> 0"
    using InternalKey_Compare_zero [of a a]
    by (simp add: InternalKey_FindShortSuccessor_def Let_def InternalKey_Compare_append_le)
  show "Compare (InternalKeyComparator c) a b < 0 \<Longrightarrow>
      Compare (InternalKeyComparator c) (FindShortestSeparator (InternalKeyComparator c) a b) b < 0"
    using InternalKey_Separator_shortened [of a b]
    by (auto simp: InternalKey_FindShortestSeparator_def Let_def PutFixed64_def InternalKey_Compare_less)
  show "\<not> Compare (InternalKeyComparator c) a b < 0 \<Longrightarrow>
      FindShortestSeparator (InternalKeyComparator c) a b = a"
    using InternalKey_Separator_shortened [of a b]
    by (auto simp: InternalKey_FindShortestSeparator_def Let_def InternalKey_Compare_less)
qed (simp_all add: InternalKey_Compare_zero)

subsection \<open>The order of internal keys\<close>

lemma Pack_less:
  assumes "s \<le> kMaxSequenceNumber" "s' \<le> kMaxSequenceNumber"
  shows "PackSequenceAndType s t < PackSequenceAndType s' t' \<longleftrightarrow>
    s < s' \<or> (s = s' \<and> ValueType_num t < ValueType_num t')"
proof -
  have t: "unat (ValueType_num t) < 256" "unat (ValueType_num t') < 256"
    using unsigned_less [of "ValueType_num t", where 'a = nat]
      unsigned_less [of "ValueType_num t'", where 'a = nat] by simp_all
  have eq: "s = s' \<longleftrightarrow> unat s = unat s'" by (metis unsigned_word_eqI)
  show ?thesis
    using t by (simp add: word_less_nat_alt unat_Pack assms eq) linarith
qed

lemma InternalKey_Compare_keys:
  assumes "total_comparator c" "s \<le> kMaxSequenceNumber" "s' \<le> kMaxSequenceNumber"
  shows "InternalKey_Compare c (InternalKey u s t) (InternalKey u' s' t') < 0 \<longleftrightarrow>
    Compare c u u' < 0 \<or>
    (u = u' \<and> (s > s' \<or> (s = s' \<and> ValueType_num t > ValueType_num t')))"
  by (subst total_comparator.InternalKey_Compare_less [OF assms(1)])
    (auto simp: InternalKey_eq Pack_less assms)

context total_comparator
begin

lemma internal_contract: "comparator_contract (InternalKeyComparator c) (\<lambda>k. 8 \<le> length k)"
  by (rule internal.comparator_contract_axioms)

lemma InternalKey_Compare_lookup:
  assumes "s \<le> kMaxSequenceNumber" "s' \<le> kMaxSequenceNumber"
  shows "InternalKey_Compare c (InternalKey u s kTypeValue) (InternalKey u s' t) \<le> 0 \<longleftrightarrow> s' \<le> s"
proof -
  have "InternalKey_Compare c (InternalKey u s kTypeValue) (InternalKey u s' t) \<le> 0 \<longleftrightarrow>
      \<not> InternalKey_Compare c (InternalKey u s' t) (InternalKey u s kTypeValue) < 0"
    using InternalKey_Compare_swap [of "InternalKey u s' t" "InternalKey u s kTypeValue"] by auto
  then show ?thesis
    using InternalKey_Compare_keys [OF total_comparator_axioms assms(2,1), of u t u kTypeValue]
    by (cases t) auto
qed

end

subsection \<open>Lookup keys\<close>

lemma lk_internal_key_eq [simp]: "lk_internal_key (make_LookupKey u s) = InternalKey u s kTypeValue"
  by (simp add: lk_internal_key_def make_LookupKey_def Let_def InternalKey_eq kValueTypeForSeek_def)

lemma lk_user_key_eq [simp]: "lk_user_key (make_LookupKey u s) = u"
  by (simp add: lk_user_key_def make_LookupKey_def Let_def)

lemma lk_memtable_key_eq: "lk_memtable_key (make_LookupKey u s) = lps (InternalKey u s kTypeValue)"
  by (simp add: lk_memtable_key_def make_LookupKey_def Let_def PutLengthPrefixedSlice_def
      PutVarint32_def InternalKey_eq kValueTypeForSeek_def)

subsection \<open>The filter policy wrapper\<close>

sublocale total_filter_policy \<subseteq> internal: filter_policy_contract "InternalFilterPolicy p"
    "\<lambda>k. 8 \<le> length k"
proof unfold_locales
  fix keys dst k
  show "CreateFilter (InternalFilterPolicy p) keys dst =
      dst @ CreateFilter (InternalFilterPolicy p) keys []"
    by (simp add: InternalFilterPolicy_def CreateFilter_appends [of "map ExtractUserKey keys" dst])
  assume "k \<in> set keys"
  then show "KeyMayMatch (InternalFilterPolicy p) k (CreateFilter (InternalFilterPolicy p) keys [])"
    using no_false_negative [of "map ExtractUserKey keys" "ExtractUserKey k"]
    by (simp add: InternalFilterPolicy_def)
qed

context total_filter_policy
begin

lemma internal_no_false_negatives:
  "\<forall>k\<in>set keys. 8 \<le> length k \<Longrightarrow> k \<in> set keys \<Longrightarrow>
   KeyMayMatch (InternalFilterPolicy p) k (drop (length dst) (CreateFilter (InternalFilterPolicy p) keys dst))"
  by (rule internal.no_false_negative_appended)

end

section \<open>Properties\<close>

text \<open>
  Internal keys round-trip: parsing the serialization of a key whose sequence number is at
  most \<open>kMaxSequenceNumber\<close> gives the key back, and every byte string that parses is the
  serialization of its parse.
\<close>

theorem internal_key_roundtrip:
  assumes "s \<le> kMaxSequenceNumber"
  shows "ParseInternalKey (AppendInternalKey [] \<lparr>user_key = u, sequence = s, vtype = t\<rparr>) =
      Some \<lparr>user_key = u, sequence = s, vtype = t\<rparr> \<and>
    (ParseInternalKey k = Some p \<longrightarrow> AppendInternalKey [] p = k)"
  using ParseInternalKey_InternalKey [OF assms, of u t] InternalKey_ParseInternalKey [of k p]
  by (simp add: InternalKey_def)

theorem internal_key_roundtrip_witness:
  "ParseInternalKey (AppendInternalKey [] \<lparr>user_key = str ''k'', sequence = 7, vtype = kTypeDeletion\<rparr>) =
     Some \<lparr>user_key = str ''k'', sequence = 7, vtype = kTypeDeletion\<rparr>"
proof -
  have "(7::u64) \<le> kMaxSequenceNumber" by (simp add: kMaxSequenceNumber_def push_bit_eq_mult)
  from internal_key_roundtrip [OF this] show ?thesis by blast
qed

text \<open>
  C35. For every user comparator that keeps its contract, the internal-key comparator orders
  keys by increasing user key, then decreasing sequence number, then decreasing type, and it
  keeps the comparator contract itself on internal keys: it is a total order, and the
  shortened separators and successors of index blocks lie where \<open>comparator.h\<close> says (so the
  assertions in \<open>FindShortestSeparator\<close> and \<open>FindShortSuccessor\<close> hold).
\<close>

theorem internal_comparator_order:
  assumes "total_comparator c" "s \<le> kMaxSequenceNumber" "s' \<le> kMaxSequenceNumber"
  shows "(Compare (InternalKeyComparator c) (InternalKey u s t) (InternalKey u' s' t') < 0 \<longleftrightarrow>
      Compare c u u' < 0 \<or>
      (u = u' \<and> (s > s' \<or> (s = s' \<and> ValueType_num t > ValueType_num t')))) \<and>
    comparator_contract (InternalKeyComparator c) (\<lambda>k. 8 \<le> length k)"
  using InternalKey_Compare_keys [OF assms, of u t u' t']
    total_comparator.internal_contract [OF assms(1)] by simp

theorem internal_comparator_order_witness:
  "Compare (InternalKeyComparator BytewiseComparator)
     (InternalKey (str ''a'') 9 kTypeValue) (InternalKey (str ''a'') 5 kTypeValue) < 0 \<and>
   comparator_contract (InternalKeyComparator BytewiseComparator) (\<lambda>k. 8 \<le> length k)"
  using internal_comparator_order [OF bytewise.total_comparator_axioms, of 9 5 "str ''a''" kTypeValue
      "str ''a''" kTypeValue]
  by (simp add: kMaxSequenceNumber_def push_bit_eq_mult)

text \<open>
  A lookup key for a user key at a snapshot sits exactly where a lookup must seek: it
  sorts at or before the entry of that user key with sequence number \<open>s'\<close> iff \<open>s'\<close> is visible at
  the snapshot, so the first entry at or after it is the newest visible one.
\<close>

theorem lookup_key_position:
  assumes "total_comparator c" "s \<le> kMaxSequenceNumber" "s' \<le> kMaxSequenceNumber"
  shows "lk_user_key (make_LookupKey u s) = u \<and>
    (Compare (InternalKeyComparator c) (lk_internal_key (make_LookupKey u s)) (InternalKey u s' t) \<le> 0
      \<longleftrightarrow> s' \<le> s)"
  using total_comparator.InternalKey_Compare_lookup [OF assms] by simp

theorem lookup_key_position_witness:
  "Compare (InternalKeyComparator BytewiseComparator)
      (lk_internal_key (make_LookupKey (str ''a'') 5)) (InternalKey (str ''a'') 5 kTypeDeletion) \<le> 0"
  using lookup_key_position [OF bytewise.total_comparator_axioms, of 5 5 "str ''a''" kTypeDeletion]
  by (simp add: kMaxSequenceNumber_def push_bit_eq_mult)

text \<open>
  The internal filter policy keeps the promise of the policy it wraps: a filter built over
  internal keys matches every internal key with one of their user keys, whatever its tag.
\<close>

theorem internal_filter_no_false_negatives:
  assumes "total_filter_policy p" "\<forall>k\<in>set keys. 8 \<le> length k" "k \<in> set keys"
    "ExtractUserKey k' = ExtractUserKey k"
  shows "KeyMayMatch (InternalFilterPolicy p) k'
    (drop (length dst) (CreateFilter (InternalFilterPolicy p) keys dst))"
proof -
  have "KeyMayMatch (InternalFilterPolicy p) k
    (drop (length dst) (CreateFilter (InternalFilterPolicy p) keys dst))"
    using assms(2,3) by (rule total_filter_policy.internal_no_false_negatives [OF assms(1)])
  then show ?thesis using assms(4) by (simp add: InternalFilterPolicy_def)
qed

theorem internal_filter_no_false_negatives_witness:
  "KeyMayMatch (InternalFilterPolicy (NewBloomFilterPolicy 10)) (InternalKey (str ''a'') 9 kTypeValue)
    (drop (length [1 :: byte]) (CreateFilter (InternalFilterPolicy (NewBloomFilterPolicy 10))
      [InternalKey (str ''a'') 5 kTypeValue] [1]))"
  by (rule internal_filter_no_false_negatives [where k = "InternalKey (str ''a'') 5 kTypeValue"])
    (simp_all add: bloom.total_filter_policy_axioms InternalKey_eq)

end
