(* ===== verification/FileNames.thy ===== *)
theory FileNames
  imports LoggingUtil Comparators
begin

text \<open>
  \<open>db/filename.cc\<close>: the names of the files of a database and their parser.
\<close>

section \<open>Definitions\<close>

datatype FileType =
  kLogFile | kDBLockFile | kTableFile | kDescriptorFile | kCurrentFile | kTempFile | kInfoLogFile

definition MakeFileName :: "bytes \<Rightarrow> u64 \<Rightarrow> bytes \<Rightarrow> bytes" where
  "MakeFileName dbname number sfx =
     dbname @ str ''/'' @ zero_padded 6 (unat number) @ str ''.'' @ sfx"

definition LogFileName :: "bytes \<Rightarrow> u64 \<Rightarrow> bytes" where
  "LogFileName dbname number = MakeFileName dbname number (str ''log'')"

definition TableFileName :: "bytes \<Rightarrow> u64 \<Rightarrow> bytes" where
  "TableFileName dbname number = MakeFileName dbname number (str ''ldb'')"

definition SSTTableFileName :: "bytes \<Rightarrow> u64 \<Rightarrow> bytes" where
  "SSTTableFileName dbname number = MakeFileName dbname number (str ''sst'')"

definition DescriptorFileName :: "bytes \<Rightarrow> u64 \<Rightarrow> bytes" where
  "DescriptorFileName dbname number =
     dbname @ str ''/MANIFEST-'' @ zero_padded 6 (unat number)"

definition CurrentFileName :: "bytes \<Rightarrow> bytes" where
  "CurrentFileName dbname = dbname @ str ''/CURRENT''"

definition LockFileName :: "bytes \<Rightarrow> bytes" where
  "LockFileName dbname = dbname @ str ''/LOCK''"

definition TempFileName :: "bytes \<Rightarrow> u64 \<Rightarrow> bytes" where
  "TempFileName dbname number = MakeFileName dbname number (str ''dbtmp'')"

definition InfoLogFileName :: "bytes \<Rightarrow> bytes" where
  "InfoLogFileName dbname = dbname @ str ''/LOG''"

definition OldInfoLogFileName :: "bytes \<Rightarrow> bytes" where
  "OldInfoLogFileName dbname = dbname @ str ''/LOG.old''"

text \<open>\<open>None\<close> is \<open>return false\<close>; otherwise what is stored in \<open>*number\<close> and \<open>*type\<close>.\<close>

definition ParseFileName :: "bytes \<Rightarrow> (u64 \<times> FileType) option" where
  "ParseFileName filename =
     (let rest = filename in
      if Slice_eq rest (str ''CURRENT'') then Some (0, kCurrentFile)
      else if Slice_eq rest (str ''LOCK'') then Some (0, kDBLockFile)
      else if Slice_eq rest (str ''LOG'') \<or> Slice_eq rest (str ''LOG.old'') then Some (0, kInfoLogFile)
      else if starts_with rest (str ''MANIFEST-'') then
        (case ConsumeDecimalNumber (drop (length (str ''MANIFEST-'')) rest) of
           (True, Some num, rest) \<Rightarrow> if rest \<noteq> [] then None else Some (num, kDescriptorFile)
         | _ \<Rightarrow> None)
      else
        (case ConsumeDecimalNumber rest of
           (True, Some num, sfx) \<Rightarrow>
             if Slice_eq sfx (str ''.log'') then Some (num, kLogFile)
             else if Slice_eq sfx (str ''.sst'') \<or> Slice_eq sfx (str ''.ldb'')
             then Some (num, kTableFile)
             else if Slice_eq sfx (str ''.dbtmp'') then Some (num, kTempFile)
             else None
         | _ \<Rightarrow> None))"

section \<open>Lemmas\<close>

text \<open>The last component of a path under the database directory.\<close>

definition file_part :: "bytes \<Rightarrow> bytes \<Rightarrow> bytes" where
  "file_part dbname path = drop (length dbname + 1) path"

lemma str_Nil [simp]: "str [] = []"
  by (simp add: str_def)

lemma str_Cons [simp]: "str (c # cs) = of_nat (of_char c) # str cs"
  by (simp add: str_def)

lemma digits_not_prefix:
  assumes "\<forall>c\<in>set ds. is_digit c" "ds \<noteq> []" "\<not> is_digit x"
  shows "\<not> prefix (x # xs) (ds @ rest)" and "ds @ rest \<noteq> x # xs"
  using assms by (cases ds; auto)+

lemma ParseFileName_numbered:
  assumes "rest = 46 # sfx"
  shows "ParseFileName (zero_padded 6 (unat n) @ rest) =
    (if rest = str ''.log'' then Some (n, kLogFile)
     else if rest = str ''.sst'' \<or> rest = str ''.ldb'' then Some (n, kTableFile)
     else if rest = str ''.dbtmp'' then Some (n, kTempFile) else None)"
proof -
  let ?ds = "zero_padded 6 (unat n)"
  have c: "ConsumeDecimalNumber (?ds @ rest) = (True, Some n, rest)"
    using assms zero_padded_digits [of 6 "unat n"]
    by (intro ConsumeDecimalNumber_digits)
      (simp_all add: zero_padded_value zero_padded_nonempty is_digit_def)
  note d = digits_not_prefix [OF zero_padded_digits [of 6 "unat n"] zero_padded_nonempty]
  have "\<not> prefix (str ''MANIFEST-'') (?ds @ rest)" "?ds @ rest \<noteq> str ''CURRENT''"
    "?ds @ rest \<noteq> str ''LOCK''" "?ds @ rest \<noteq> str ''LOG''" "?ds @ rest \<noteq> str ''LOG.old''"
    unfolding str_Cons by (rule d; simp add: is_digit_def)+
  then show ?thesis
    by (simp add: ParseFileName_def starts_with_prefix c del: str_Cons)
qed

lemma ParseFileName_manifest:
  "ParseFileName (str ''MANIFEST-'' @ zero_padded 6 (unat n)) = Some (n, kDescriptorFile)"
proof -
  have "ConsumeDecimalNumber (zero_padded 6 (unat n) @ []) = (True, Some n, [])"
    by (intro ConsumeDecimalNumber_digits)
      (auto simp: zero_padded_digits zero_padded_value zero_padded_nonempty)
  then show ?thesis by (simp add: ParseFileName_def starts_with_prefix)
qed

section \<open>Properties\<close>

text \<open>
  C38. File names round-trip: parsing the name of any file the database creates under its
  directory gives back the number it was made from (0 for the fixed names) and its type, for
  every 64-bit number.
\<close>

theorem filename_roundtrip:
  "ParseFileName (file_part d (LogFileName d n)) = Some (n, kLogFile) \<and>
   ParseFileName (file_part d (TableFileName d n)) = Some (n, kTableFile) \<and>
   ParseFileName (file_part d (SSTTableFileName d n)) = Some (n, kTableFile) \<and>
   ParseFileName (file_part d (TempFileName d n)) = Some (n, kTempFile) \<and>
   ParseFileName (file_part d (DescriptorFileName d n)) = Some (n, kDescriptorFile) \<and>
   ParseFileName (file_part d (CurrentFileName d)) = Some (0, kCurrentFile) \<and>
   ParseFileName (file_part d (LockFileName d)) = Some (0, kDBLockFile) \<and>
   ParseFileName (file_part d (InfoLogFileName d)) = Some (0, kInfoLogFile) \<and>
   ParseFileName (file_part d (OldInfoLogFileName d)) = Some (0, kInfoLogFile)"
proof -
  have m: "ParseFileName (file_part d (MakeFileName d n sfx)) =
      ParseFileName (zero_padded 6 (unat n) @ str ''.'' @ sfx)" for sfx
    by (simp add: file_part_def MakeFileName_def)
  have "ParseFileName (file_part d (DescriptorFileName d n)) = Some (n, kDescriptorFile)"
    using ParseFileName_manifest [of n] by (simp add: file_part_def DescriptorFileName_def)
  moreover have "ParseFileName (file_part d (CurrentFileName d)) = Some (0, kCurrentFile) \<and>
   ParseFileName (file_part d (LockFileName d)) = Some (0, kDBLockFile) \<and>
   ParseFileName (file_part d (InfoLogFileName d)) = Some (0, kInfoLogFile) \<and>
   ParseFileName (file_part d (OldInfoLogFileName d)) = Some (0, kInfoLogFile)"
    by (simp add: file_part_def CurrentFileName_def LockFileName_def InfoLogFileName_def
        OldInfoLogFileName_def ParseFileName_def)
  ultimately show ?thesis
    by (simp add: LogFileName_def TableFileName_def SSTTableFileName_def TempFileName_def m
        ParseFileName_numbered)
qed

end
