(* ===== verification/Statuses.thy ===== *)
theory Statuses
  imports Coding LoggingUtil
begin

text \<open>
  \<open>include/leveldb/status.h\<close> and \<open>util/status.cc\<close>. A status is the contents of \<open>state_\<close>: a null
  pointer (\<open>None\<close>) for success, otherwise the byte array of the message's length, the code and the
  message. Integers are copied in memory order, little-endian as on every target of the package.
\<close>

section \<open>Definitions\<close>

datatype Code = kOk | kNotFound | kCorruption | kNotSupported | kInvalidArgument | kIOError

fun Code_num :: "Code \<Rightarrow> byte" where
  "Code_num kOk = 0"
| "Code_num kNotFound = 1"
| "Code_num kCorruption = 2"
| "Code_num kNotSupported = 3"
| "Code_num kInvalidArgument = 4"
| "Code_num kIOError = 5"

type_synonym Status = "bytes option"

definition Status_OK :: Status where
  "Status_OK = None"

definition CopyState :: "bytes \<Rightarrow> bytes" where
  "CopyState state = (let size = DecodeFixed32 state in take (unat (size + 5)) state)"

definition Status_make :: "Code \<Rightarrow> bytes \<Rightarrow> bytes \<Rightarrow> Status" where
  "Status_make c msg msg2 =
     (let len1 = of_nat (length msg) :: u32;
          len2 = of_nat (length msg2) :: u32;
          size = len1 + (if len2 \<noteq> 0 then 2 + len2 else 0)
      in Some (EncodeFixed32 size @ [Code_num c] @ take (unat len1) msg @
           (if len2 \<noteq> 0 then str '': '' @ take (unat len2) msg2 else [])))"

definition NotFound :: "bytes \<Rightarrow> bytes \<Rightarrow> Status" where
  "NotFound = Status_make kNotFound"

definition Corruption :: "bytes \<Rightarrow> bytes \<Rightarrow> Status" where
  "Corruption = Status_make kCorruption"

definition NotSupported :: "bytes \<Rightarrow> bytes \<Rightarrow> Status" where
  "NotSupported = Status_make kNotSupported"

definition InvalidArgument :: "bytes \<Rightarrow> bytes \<Rightarrow> Status" where
  "InvalidArgument = Status_make kInvalidArgument"

definition IOError :: "bytes \<Rightarrow> bytes \<Rightarrow> Status" where
  "IOError = Status_make kIOError"

definition ok :: "Status \<Rightarrow> bool" where
  "ok s \<longleftrightarrow> s = None"

definition Status_code :: "Status \<Rightarrow> byte" where
  "Status_code s = (case s of None \<Rightarrow> Code_num kOk | Some state \<Rightarrow> state ! 4)"

definition IsNotFound :: "Status \<Rightarrow> bool" where
  "IsNotFound s \<longleftrightarrow> Status_code s = Code_num kNotFound"

definition IsCorruption :: "Status \<Rightarrow> bool" where
  "IsCorruption s \<longleftrightarrow> Status_code s = Code_num kCorruption"

definition IsIOError :: "Status \<Rightarrow> bool" where
  "IsIOError s \<longleftrightarrow> Status_code s = Code_num kIOError"

definition IsNotSupportedError :: "Status \<Rightarrow> bool" where
  "IsNotSupportedError s \<longleftrightarrow> Status_code s = Code_num kNotSupported"

definition IsInvalidArgument :: "Status \<Rightarrow> bool" where
  "IsInvalidArgument s \<longleftrightarrow> Status_code s = Code_num kInvalidArgument"

definition Status_type :: "byte \<Rightarrow> bytes" where
  "Status_type c =
     (if c = Code_num kOk then str ''OK''
      else if c = Code_num kNotFound then str ''NotFound: ''
      else if c = Code_num kCorruption then str ''Corruption: ''
      else if c = Code_num kNotSupported then str ''Not implemented: ''
      else if c = Code_num kInvalidArgument then str ''Invalid argument: ''
      else if c = Code_num kIOError then str ''IO error: ''
      else str ''Unknown code('' @ decimal (unat c) @ str ''): '')"

definition Status_ToString :: "Status \<Rightarrow> bytes" where
  "Status_ToString s =
     (case s of None \<Rightarrow> str ''OK''
      | Some state \<Rightarrow> Status_type (state ! 4) @ take (unat (DecodeFixed32 state)) (drop 5 state))"

section \<open>Lemmas\<close>

lemma unat_of_nat_eq: "n < 2 ^ LENGTH('a) \<Longrightarrow> unat (of_nat n :: 'a::len word) = n"
  by (simp add: unat_of_nat take_bit_nat_eq_self)

lemma unat_u32: "i < 2 ^ 32 \<Longrightarrow> unat (of_nat i :: u32) = i"
  using unat_of_nat_eq [of i, where 'a = 32] by simp

declare EncodeFixed32.simps [simp del] EncodeFixed64.simps [simp del]

lemma ok_simps [simp]: "ok None" "ok Status_OK" "\<not> ok (Some st)" "\<not> ok (Status_make c m m2)"
  by (simp_all add: ok_def Status_OK_def Status_make_def Let_def)

lemma ok_iff: "ok s \<longleftrightarrow> s = Status_OK"
  by (simp add: ok_def Status_OK_def)

lemmas Status_constructors = NotFound_def Corruption_def NotSupported_def InvalidArgument_def IOError_def

lemma ok_constructors [simp]:
  "\<not> ok (NotFound m n)" "\<not> ok (Corruption m n)" "\<not> ok (NotSupported m n)"
  "\<not> ok (InvalidArgument m n)" "\<not> ok (IOError m n)"
  by (simp_all add: Status_constructors)

lemma Status_code_OK [simp]: "Status_code Status_OK = 0" "Status_code None = 0"
  by (simp_all add: Status_code_def Status_OK_def)

lemma Status_code_make [simp]: "Status_code (Status_make c m m2) = Code_num c"
  by (simp add: Status_make_def Status_code_def Let_def nth_append)

text \<open>The message a constructor stores, when the lengths fit.\<close>

definition message :: "bytes \<Rightarrow> bytes \<Rightarrow> bytes" where
  "message m m2 = (if m2 = [] then m else m @ str '': '' @ m2)"

lemma length_str [simp]: "length (str s) = length s"
  by (simp add: str_def)

lemma Status_make_layout:
  assumes "length m + length m2 + 7 < 2 ^ 32"
  shows "Status_make c m m2 =
    Some (EncodeFixed32 (of_nat (length (message m m2))) @ [Code_num c] @ message m m2)"
proof -
  have u: "unat (of_nat (length m) :: u32) = length m" "unat (of_nat (length m2) :: u32) = length m2"
    using assms by (simp_all add: unat_of_nat_eq)
  show ?thesis
  proof (cases "m2 = []")
    case False
    then have "(of_nat (length m2) :: u32) \<noteq> 0" using u(2) by auto
    with False show ?thesis by (simp add: Status_make_def Let_def message_def u ac_simps)
  qed (simp add: Status_make_def message_def u ac_simps)
qed

lemma CopyState_make:
  assumes "length m + length m2 + 7 < 2 ^ 32" "Status_make c m m2 = Some st"
  shows "CopyState st = st"
proof -
  let ?n = "length (message m m2)"
  have n: "?n + 5 < 2 ^ 32" using assms(1) by (simp add: message_def)
  have "unat (of_nat ?n + 5 :: u32) = ?n + 5"
    using n unat_of_nat_eq [of "?n + 5", where 'a = 32] by simp
  moreover have "st = EncodeFixed32 (of_nat ?n) @ [Code_num c] @ message m m2"
    using Status_make_layout [OF assms(1)] assms(2) by simp
  ultimately show ?thesis by (simp add: CopyState_def)
qed

lemma ToString_make:
  assumes "length m + length m2 + 7 < 2 ^ 32"
  shows "Status_ToString (Status_make c m m2) = Status_type (Code_num c) @ message m m2"
proof -
  have "length (message m m2) < 2 ^ 32" using assms by (simp add: message_def)
  then have "unat (of_nat (length (message m m2)) :: u32) = length (message m m2)"
    by (simp add: unat_of_nat_eq)
  then show ?thesis
    by (simp add: Status_make_layout [OF assms] Status_ToString_def nth_append)
qed

section \<open>Properties\<close>

text \<open>
  A status carries its code and message: for messages that fit a 32-bit length, exactly the
  predicate of the constructor used holds, copying duplicates the whole state, and the text shows
  the error's kind followed by the message, the second part behind a colon when there is one.
\<close>

theorem status_carries_error:
  assumes "length m + length m2 + 7 < 2 ^ 32"
  shows "\<not> ok (Status_make c m m2) \<and>
    IsNotFound (NotFound m m2) \<and> \<not> IsNotFound (Corruption m m2) \<and> \<not> IsNotFound (IOError m m2) \<and>
    IsCorruption (Corruption m m2) \<and> \<not> IsCorruption (NotFound m m2) \<and> \<not> IsNotFound Status_OK \<and>
    map_option CopyState (Status_make c m m2) = Status_make c m m2 \<and>
    Status_ToString (Status_make c m m2) =
      Status_type (Code_num c) @ m @ (if m2 = [] then [] else str '': '' @ m2)"
proof -
  obtain st where st: "Status_make c m m2 = Some st" by (simp add: Status_make_def Let_def)
  have "map_option CopyState (Status_make c m m2) = Status_make c m m2"
    using CopyState_make [OF assms st] st by simp
  moreover have "message m m2 = m @ (if m2 = [] then [] else str '': '' @ m2)"
    by (simp add: message_def)
  ultimately show ?thesis
    by (simp add: Status_constructors IsNotFound_def IsCorruption_def ToString_make [OF assms])
qed

theorem status_carries_error_witness:
  "Status_ToString (NotFound (str ''ab'') (str ''c'')) = str ''NotFound: ab: c''"
  using status_carries_error [of "str ''ab''" "str ''c''" kNotFound]
  by (simp add: NotFound_def Status_type_def str_def)

end
