(* ===== verification/Envs.thy ===== *)
theory Envs
  imports Statuses
begin

text \<open>
  The file interfaces of \<open>include/leveldb/env.h\<close> that the log and table code is written against. A
  file holds its bytes and a script of the statuses its next calls return (an exhausted script
  means success), so that every error path of the callers can be driven: a failing read delivers
  no data, a failing append leaves a chosen part of its data behind.
\<close>

section \<open>Definitions\<close>

record SequentialFile =
  sf_rest :: bytes
  sf_script :: "Status list"

fun sf_next :: "SequentialFile \<Rightarrow> Status \<times> SequentialFile" where
  "sf_next f = (case sf_script f of [] \<Rightarrow> (Status_OK, f) | s # ss \<Rightarrow> (s, f\<lparr>sf_script := ss\<rparr>))"

definition sf_Read :: "SequentialFile \<Rightarrow> nat \<Rightarrow> Status \<times> bytes \<times> SequentialFile" where
  "sf_Read f n =
     (let (s, f) = sf_next f
      in if ok s then (s, take n (sf_rest f), f\<lparr>sf_rest := drop n (sf_rest f)\<rparr>) else (s, [], f))"

definition sf_Skip :: "SequentialFile \<Rightarrow> nat \<Rightarrow> Status \<times> SequentialFile" where
  "sf_Skip f n =
     (let (s, f) = sf_next f
      in if ok s then (s, f\<lparr>sf_rest := drop n (sf_rest f)\<rparr>) else (s, f))"

record WritableFile =
  wf_data :: bytes
  wf_script :: "(Status \<times> nat) list"

fun wf_next :: "WritableFile \<Rightarrow> (Status \<times> nat) \<times> WritableFile" where
  "wf_next f = (case wf_script f of [] \<Rightarrow> ((Status_OK, 0), f) | s # ss \<Rightarrow> (s, f\<lparr>wf_script := ss\<rparr>))"

definition wf_Append :: "WritableFile \<Rightarrow> bytes \<Rightarrow> Status \<times> WritableFile" where
  "wf_Append f data =
     (let ((s, k), f) = wf_next f
      in (s, f\<lparr>wf_data := wf_data f @ (if ok s then data else take k data)\<rparr>))"

definition wf_Flush :: "WritableFile \<Rightarrow> Status \<times> WritableFile" where
  "wf_Flush f = (let ((s, k), f) = wf_next f in (s, f))"

section \<open>Lemmas\<close>

lemma sf_Read_no_faults [simp]:
  "sf_script f = [] \<Longrightarrow> sf_Read f n = (Status_OK, take n (sf_rest f), f\<lparr>sf_rest := drop n (sf_rest f)\<rparr>)"
  by (simp add: sf_Read_def)

lemma sf_Read_measure:
  "sf_Read f n = (s, b, f') \<Longrightarrow>
     length b + length (sf_rest f') \<le> length (sf_rest f) \<and> length (sf_rest f') \<le> length (sf_rest f)"
  by (auto simp: sf_Read_def Let_def split: prod.splits if_splits list.splits)

lemma wf_Append_no_faults [simp]:
  "wf_script f = [] \<Longrightarrow> wf_Append f data = (Status_OK, f\<lparr>wf_data := wf_data f @ data\<rparr>)"
  by (simp add: wf_Append_def)

lemma wf_Flush_no_faults [simp]: "wf_script f = [] \<Longrightarrow> wf_Flush f = (Status_OK, f)"
  by (simp add: wf_Flush_def)

lemma wf_Append_prefix: "prefix (wf_data f) (wf_data (snd (wf_Append f data)))"
  by (auto simp: wf_Append_def Let_def split: prod.splits list.splits)

lemma wf_Flush_data [simp]: "wf_data (snd (wf_Flush f)) = wf_data f"
  by (auto simp: wf_Flush_def split: prod.splits list.splits)

end
