(* ===== verification/LogFormat.thy ===== *)
theory LogFormat
  imports Crc32c Envs
begin

text \<open>
  \<open>db/log_format.h\<close>, \<open>db/log_writer.cc\<close> and \<open>db/log_reader.cc\<close>: the write-ahead log. Records are
  cut into physical records (checksum, length, type, payload) that never cross the boundary of a
  32 KiB block. The writer is modelled with the file it appends to, the reader with its block
  buffer, its offsets and the list of corruptions it reported.
\<close>

section \<open>Definitions\<close>

subsection \<open>The format\<close>

datatype RecordType = kZeroType | kFullType | kFirstType | kMiddleType | kLastType

fun RecordType_num :: "RecordType \<Rightarrow> nat" where
  "RecordType_num kZeroType = 0"
| "RecordType_num kFullType = 1"
| "RecordType_num kFirstType = 2"
| "RecordType_num kMiddleType = 3"
| "RecordType_num kLastType = 4"

definition kMaxRecordType :: nat where
  "kMaxRecordType = RecordType_num kLastType"

definition kBlockSize :: nat where
  "kBlockSize = 32768"

definition kHeaderSize :: nat where
  "kHeaderSize = 4 + 2 + 1"

subsection \<open>The writer\<close>

record Writer =
  dest :: WritableFile
  block_offset :: int
  type_crc :: "u32 list"

definition InitTypeCrc :: "u32 list" where
  "InitTypeCrc = map (\<lambda>i. crc_Value [of_nat i]) [0..<kMaxRecordType + 1]"

definition new_Writer :: "WritableFile \<Rightarrow> Writer" where
  "new_Writer f = \<lparr>dest = f, block_offset = 0, type_crc = InitTypeCrc\<rparr>"

definition new_Writer_at :: "WritableFile \<Rightarrow> u64 \<Rightarrow> Writer" where
  "new_Writer_at f dest_length =
     \<lparr>dest = f, block_offset = uint (dest_length mod of_nat kBlockSize), type_crc = InitTypeCrc\<rparr>"

definition EmitPhysicalRecord :: "Writer \<Rightarrow> RecordType \<Rightarrow> bytes \<Rightarrow> Status \<times> Writer" where
  "EmitPhysicalRecord w t payload =
     (let len = length payload;
          tail = [of_nat (len AND 0xff), of_nat (drop_bit 8 len), of_nat (RecordType_num t)];
          crc = crc_Mask (crc_Extend (type_crc w ! RecordType_num t) payload);
          buf = EncodeFixed32 crc @ tail;
          (s, f) = wf_Append (dest w) buf;
          (s, f) = (if ok s then
                      (let (s, f) = wf_Append f payload in if ok s then wf_Flush f else (s, f))
                    else (s, f))
      in (s, w\<lparr>dest := f, block_offset := block_offset w + int (kHeaderSize + len)\<rparr>))"

definition start_block :: "Writer \<Rightarrow> Writer" where
  "start_block w =
     (let leftover = int kBlockSize - block_offset w in
      if leftover < int kHeaderSize then
        (let w = (if leftover > 0 then w\<lparr>dest := snd (wf_Append (dest w) (replicate (nat leftover) 0))\<rparr> else w)
         in w\<lparr>block_offset := 0\<rparr>)
      else w)"

definition fragment_type :: "bool \<Rightarrow> bool \<Rightarrow> RecordType" where
  "fragment_type begin end =
     (if begin \<and> end then kFullType
      else if begin then kFirstType
      else if end then kLastType
      else kMiddleType)"

lemma block_offset_Emit [simp]:
  "block_offset (snd (EmitPhysicalRecord w t p)) = block_offset w + 7 + int (length p)"
  by (simp add: EmitPhysicalRecord_def Let_def kHeaderSize_def split: prod.splits)

lemma block_offset_start [simp]:
  "block_offset (start_block w) =
     (if int kBlockSize - block_offset w < int kHeaderSize then 0 else block_offset w)"
  by (simp add: start_block_def Let_def)

function AddRecord_loop :: "Writer \<Rightarrow> bytes \<Rightarrow> bool \<Rightarrow> Status \<times> Writer" where
  "AddRecord_loop w ptr begin =
     (let w = start_block w;
          avail = nat (int kBlockSize - block_offset w - int kHeaderSize);
          fragment_length = (if length ptr < avail then length ptr else avail);
          end = (length ptr = fragment_length);
          (s, w) = EmitPhysicalRecord w (fragment_type begin end) (take fragment_length ptr);
          ptr = drop fragment_length ptr
      in if ok s \<and> ptr \<noteq> [] then AddRecord_loop w ptr False else (s, w))"
  by pat_completeness auto
termination
proof (relation "measure (\<lambda>(w, ptr, b). 2 * length ptr + (if block_offset w = 32761 then 1 else 0))",
    goal_cases)
  case (2 w ptr b w1 avail fl e p s w2 ptr')
  have "w2 = snd (EmitPhysicalRecord w1 (fragment_type b e) (take fl ptr))"
    using 2(5,6) by (metis snd_conv)
  then have "block_offset w2 = block_offset w1 + 7 + int (min (length ptr) fl)" by simp
  with 2(1,2,3,7,8) show ?case
    by (auto simp: kBlockSize_def kHeaderSize_def split: if_splits)
qed simp

declare AddRecord_loop.simps [simp del] block_offset_start [simp del]

definition AddRecord :: "Writer \<Rightarrow> bytes \<Rightarrow> Status \<times> Writer" where
  "AddRecord w data = AddRecord_loop w data True"

subsection \<open>The reader\<close>

record Reader =
  rd_file :: SequentialFile
  reporter :: "(u64 \<times> Status) list option"
  checksum :: bool
  rd_buffer :: bytes
  rd_eof :: bool
  last_record_offset :: u64
  end_of_buffer_offset :: u64
  initial_offset :: u64
  resyncing :: bool

definition new_Reader :: "SequentialFile \<Rightarrow> (u64 \<times> Status) list option \<Rightarrow> bool \<Rightarrow> u64 \<Rightarrow> Reader" where
  "new_Reader f rep chk initial =
     \<lparr>rd_file = f, reporter = rep, checksum = chk, rd_buffer = [], rd_eof = False,
      last_record_offset = 0, end_of_buffer_offset = 0, initial_offset = initial,
      resyncing = initial > 0\<rparr>"

definition kEof :: u32 where
  "kEof = of_nat (kMaxRecordType + 1)"

definition kBadRecord :: u32 where
  "kBadRecord = of_nat (kMaxRecordType + 2)"

definition ReportDrop :: "Reader \<Rightarrow> u64 \<Rightarrow> Status \<Rightarrow> Reader" where
  "ReportDrop r bytes reason =
     (case reporter r of None \<Rightarrow> r
      | Some rep \<Rightarrow>
          if end_of_buffer_offset r - of_nat (length (rd_buffer r)) - bytes \<ge> initial_offset r
          then r\<lparr>reporter := Some (rep @ [(bytes, reason)])\<rparr>
          else r)"

definition ReportCorruption :: "Reader \<Rightarrow> u64 \<Rightarrow> bytes \<Rightarrow> Reader" where
  "ReportCorruption r bytes reason = ReportDrop r bytes (Corruption reason [])"

definition SkipToInitialBlock :: "Reader \<Rightarrow> bool \<times> Reader" where
  "SkipToInitialBlock r =
     (let offset_in_block = initial_offset r mod of_nat kBlockSize;
          block_start_location = initial_offset r - offset_in_block;
          block_start_location =
            (if offset_in_block > of_nat (kBlockSize - 6) then block_start_location + of_nat kBlockSize
             else block_start_location);
          r = r\<lparr>end_of_buffer_offset := block_start_location\<rparr>
      in if block_start_location > 0 then
           (let (skip_status, f) = sf_Skip (rd_file r) (unat block_start_location);
                r = r\<lparr>rd_file := f\<rparr>
            in if \<not> ok skip_status then (False, ReportDrop r block_start_location skip_status)
               else (True, r))
         else (True, r))"

text \<open>
  The type byte is read as a \<open>char\<close> and widened to \<open>unsigned int\<close>; \<open>char\<close> is signed as on the iOS
  and x86 targets. Only the text of the report on an unknown type depends on that.
\<close>

definition char_to_uint :: "byte \<Rightarrow> u32" where
  "char_to_uint b = scast b"

text \<open>The part of the loop body that parses a buffer holding at least a header.\<close>

definition parse_physical :: "Reader \<Rightarrow> u32 \<times> bytes \<times> Reader" where
  "parse_physical r =
     (let header = rd_buffer r;
          a = ucast (header ! 4) :: u32;
          b = ucast (header ! 5) :: u32;
          type = char_to_uint (header ! 6);
          len = unat (a OR push_bit 8 b)
      in if kHeaderSize + len > length (rd_buffer r) then
           (let drop_size = of_nat (length (rd_buffer r)); r = r\<lparr>rd_buffer := []\<rparr>
            in if \<not> rd_eof r then (kBadRecord, [], ReportCorruption r drop_size (str ''bad record length''))
               else (kEof, [], r))
         else if type = of_nat (RecordType_num kZeroType) \<and> len = 0 then (kBadRecord, [], r\<lparr>rd_buffer := []\<rparr>)
         else if checksum r \<and>
           crc_Value (take (1 + len) (drop 6 header)) \<noteq> crc_Unmask (DecodeFixed32 header) then
           (let drop_size = of_nat (length (rd_buffer r)); r = r\<lparr>rd_buffer := []\<rparr>
            in (kBadRecord, [], ReportCorruption r drop_size (str ''checksum mismatch'')))
         else
           (let r = r\<lparr>rd_buffer := drop (kHeaderSize + len) header\<rparr> in
            if end_of_buffer_offset r - of_nat (length (rd_buffer r)) - of_nat kHeaderSize - of_nat len
                 < initial_offset r
            then (kBadRecord, [], r)
            else (type, take len (drop kHeaderSize header), r)))"

function ReadPhysicalRecord :: "Reader \<Rightarrow> u32 \<times> bytes \<times> Reader" where
  "ReadPhysicalRecord r =
     (if length (rd_buffer r) < kHeaderSize then
        (if \<not> rd_eof r then
           (let (status, buffer, f) = sf_Read (rd_file r) kBlockSize;
                r = r\<lparr>rd_file := f, rd_buffer := buffer,
                  end_of_buffer_offset := end_of_buffer_offset r + of_nat (length buffer)\<rparr>
            in if \<not> ok status then
                 (let r = r\<lparr>rd_buffer := []\<rparr>;
                      r = ReportDrop r (of_nat kBlockSize) status
                  in (kEof, [], r\<lparr>rd_eof := True\<rparr>))
               else if length buffer < kBlockSize then ReadPhysicalRecord (r\<lparr>rd_eof := True\<rparr>)
               else ReadPhysicalRecord r)
         else (kEof, [], r\<lparr>rd_buffer := []\<rparr>))
      else parse_physical r)"
  by pat_completeness auto
termination
  by (relation "measure (\<lambda>r. (if rd_eof r then 0 else 1) + (if length (rd_buffer r) < 7 then 1 else 0))")
    (auto simp: kHeaderSize_def kBlockSize_def)

declare ReadPhysicalRecord.simps [simp del]

text \<open>Each call that does not report the end of the file consumes input.\<close>

definition input_left :: "Reader \<Rightarrow> nat" where
  "input_left r = length (rd_buffer r) + length (sf_rest (rd_file r))"

lemma ReportDrop_fields [simp]:
  "rd_file (ReportDrop r n s) = rd_file r" "rd_buffer (ReportDrop r n s) = rd_buffer r"
  "rd_eof (ReportDrop r n s) = rd_eof r"
  by (simp_all add: ReportDrop_def split: option.splits)

lemma ReportCorruption_fields [simp]:
  "rd_file (ReportCorruption r n s) = rd_file r" "rd_buffer (ReportCorruption r n s) = rd_buffer r"
  "rd_eof (ReportCorruption r n s) = rd_eof r"
  by (simp_all add: ReportCorruption_def)

lemma input_left_simps [simp]:
  "input_left (ReportCorruption r n s) = input_left r"
  "input_left (r\<lparr>resyncing := b\<rparr>) = input_left r"
  "input_left (r\<lparr>rd_eof := b\<rparr>) = input_left r"
  by (simp_all add: input_left_def)

lemma parse_physical_decreases:
  assumes "kHeaderSize \<le> length (rd_buffer r)" "parse_physical r = (t, fragment, r')"
  shows "input_left r' < input_left r"
proof -
  have b: "0 < length (rd_buffer r)" using assms(1) by (auto simp: kHeaderSize_def)
  then have "length (drop (kHeaderSize + n) (rd_buffer r)) < length (rd_buffer r)" for n
    by (simp add: kHeaderSize_def)
  then show ?thesis
    using assms(2) b unfolding parse_physical_def Let_def input_left_def
    by (auto simp del: length_drop split: if_splits)
qed

lemma ReadPhysicalRecord_decreases:
  "ReadPhysicalRecord r = (t, fragment, r') \<Longrightarrow> t = kEof \<or> input_left r' < input_left r"
proof (induction r rule: ReadPhysicalRecord.induct)
  case (1 r)
  show ?case
  proof (cases "length (rd_buffer r) < kHeaderSize \<and> \<not> rd_eof r")
    case True
    obtain s b f where rd: "sf_Read (rd_file r) kBlockSize = (s, b, f)" by (metis prod_cases3)
    let ?r = "r\<lparr>rd_file := f, rd_buffer := b,
        end_of_buffer_offset := end_of_buffer_offset r + of_nat (length b)\<rparr>"
    have le: "input_left ?r \<le> input_left r" "input_left (?r\<lparr>rd_eof := True\<rparr>) \<le> input_left r"
      using sf_Read_measure [OF rd] by (simp_all add: input_left_def)
    show ?thesis
    proof (cases "ok s")
      case ok: True
      show ?thesis
      proof (cases "length b < kBlockSize")
        case b: True
        have "ReadPhysicalRecord (?r\<lparr>rd_eof := True\<rparr>) = (t, fragment, r')"
          using "1.prems" True ok b by (simp add: ReadPhysicalRecord.simps [of r] rd)
        then show ?thesis
          using "1.IH"(1) [OF _ _ rd [symmetric] refl refl] True ok b le(2) by fastforce
      next
        case b: False
        have "ReadPhysicalRecord ?r = (t, fragment, r')"
          using "1.prems" True ok b by (simp add: ReadPhysicalRecord.simps [of r] rd)
        then show ?thesis
          using "1.IH"(2) [OF _ _ rd [symmetric] refl refl] True ok b le(1) by fastforce
      qed
    qed (use "1.prems" True in \<open>simp add: ReadPhysicalRecord.simps [of r] rd Let_def\<close>)
  next
    case False
    then show ?thesis
      using "1.prems" parse_physical_decreases [of r t fragment r']
      by (auto simp: ReadPhysicalRecord.simps [of r] split: if_splits)
  qed
qed

function ReadRecord_loop :: "Reader \<Rightarrow> bool \<Rightarrow> bytes \<Rightarrow> u64 \<Rightarrow> bytes option \<times> Reader" where
  "ReadRecord_loop r in_fragmented_record scratch prospective_record_offset =
     (let (record_type, fragment, r) = ReadPhysicalRecord r;
          physical_record_offset = end_of_buffer_offset r - of_nat (length (rd_buffer r)) -
            of_nat kHeaderSize - of_nat (length fragment)
      in if resyncing r \<and> record_type = of_nat (RecordType_num kMiddleType) then
           ReadRecord_loop r in_fragmented_record scratch prospective_record_offset
         else if resyncing r \<and> record_type = of_nat (RecordType_num kLastType) then
           ReadRecord_loop (r\<lparr>resyncing := False\<rparr>) in_fragmented_record scratch prospective_record_offset
         else
           (let r = r\<lparr>resyncing := False\<rparr> in
            if record_type = of_nat (RecordType_num kFullType) then
              (let r = (if in_fragmented_record \<and> scratch \<noteq> []
                        then ReportCorruption r (of_nat (length scratch)) (str ''partial record without end(1)'')
                        else r)
               in (Some fragment, r\<lparr>last_record_offset := physical_record_offset\<rparr>))
            else if record_type = of_nat (RecordType_num kFirstType) then
              (let r = (if in_fragmented_record \<and> scratch \<noteq> []
                        then ReportCorruption r (of_nat (length scratch)) (str ''partial record without end(2)'')
                        else r)
               in ReadRecord_loop r True fragment physical_record_offset)
            else if record_type = of_nat (RecordType_num kMiddleType) then
              (if \<not> in_fragmented_record then
                 ReadRecord_loop
                   (ReportCorruption r (of_nat (length fragment)) (str ''missing start of fragmented record(1)''))
                   in_fragmented_record scratch prospective_record_offset
               else ReadRecord_loop r in_fragmented_record (scratch @ fragment) prospective_record_offset)
            else if record_type = of_nat (RecordType_num kLastType) then
              (if \<not> in_fragmented_record then
                 ReadRecord_loop
                   (ReportCorruption r (of_nat (length fragment)) (str ''missing start of fragmented record(2)''))
                   in_fragmented_record scratch prospective_record_offset
               else (Some (scratch @ fragment), r\<lparr>last_record_offset := prospective_record_offset\<rparr>))
            else if record_type = kEof then (None, r)
            else if record_type = kBadRecord then
              (if in_fragmented_record then
                 ReadRecord_loop
                   (ReportCorruption r (of_nat (length scratch)) (str ''error in middle of record''))
                   False [] prospective_record_offset
               else ReadRecord_loop r in_fragmented_record scratch prospective_record_offset)
            else
              ReadRecord_loop
                (ReportCorruption r
                  (of_nat (length fragment + (if in_fragmented_record then length scratch else 0)))
                  (str ''unknown record type '' @ decimal (unat record_type)))
                False [] prospective_record_offset))"
  by pat_completeness auto
termination
  by (relation "measure (\<lambda>(r, _). input_left r)")
    (auto simp: kEof_def kMaxRecordType_def dest!: ReadPhysicalRecord_decreases [OF sym])

declare ReadRecord_loop.simps [simp del]

definition ReadRecord :: "Reader \<Rightarrow> bytes option \<times> Reader" where
  "ReadRecord r =
     (let (go, r) = (if last_record_offset r < initial_offset r then SkipToInitialBlock r else (True, r))
      in if \<not> go then (None, r) else ReadRecord_loop r False [] 0)"

section \<open>Lemmas\<close>

subsection \<open>Positions in blocks\<close>

lemma kBlockSize_bounds [simp]: "0 < kBlockSize" "kHeaderSize < kBlockSize" "kBlockSize \<le> 2 ^ 16" "0 < kHeaderSize"
    "kHeaderSize \<le> kBlockSize" "\<not> kBlockSize < kHeaderSize" "kHeaderSize \<noteq> 0"
  by (simp_all add: kBlockSize_def kHeaderSize_def)

lemma mod_block_less [simp]: "p mod kBlockSize < kBlockSize"
  by simp

lemma mod_add_less: "(p :: nat) mod B + k < B \<Longrightarrow> (p + k) mod B = p mod B + k"
  by (metis mod_add_left_eq mod_less)

lemma mod_add_full: "(p :: nat) mod B + k = B \<Longrightarrow> (p + k) mod B = 0"
  by (metis mod_add_left_eq mod_self)

definition left_in_block :: "nat \<Rightarrow> nat" where
  "left_in_block p = kBlockSize - p mod kBlockSize"

lemma left_in_block_add [simp]: "p mod kBlockSize + left_in_block p = kBlockSize"
  by (simp add: left_in_block_def less_imp_le)

lemma left_in_block_pos [simp]: "0 < left_in_block p" "left_in_block p \<le> kBlockSize"
  by (simp_all add: left_in_block_def)

lemma next_block_mod [simp]: "(p + left_in_block p) mod kBlockSize = 0"
  by (rule mod_add_full) simp

lemma left_in_block_start: "p mod kBlockSize = 0 \<Longrightarrow> left_in_block p = kBlockSize"
  by (simp add: left_in_block_def)

lemma left_in_block_step: "k < left_in_block p \<Longrightarrow> left_in_block (p + k) = left_in_block p - k"
  using mod_add_less [of p kBlockSize k] by (simp add: left_in_block_def)

lemma left_in_block_end: "k = left_in_block p \<Longrightarrow> left_in_block (p + k) = kBlockSize"
  by (simp add: left_in_block_start)

text \<open>Where the next physical record starts: right here, or in the next block if no header fits.\<close>

definition next_start :: "nat \<Rightarrow> nat" where
  "next_start p = (if left_in_block p < kHeaderSize then p + left_in_block p else p)"

lemma next_start_room: "kHeaderSize \<le> left_in_block (next_start p)"
  by (simp add: next_start_def left_in_block_end less_imp_le)

lemma next_start_ge: "p \<le> next_start p"
  by (simp add: next_start_def)

subsection \<open>What the writer appends\<close>

definition emit_bytes :: "RecordType \<Rightarrow> bytes \<Rightarrow> bytes" where
  "emit_bytes t payload =
     EncodeFixed32 (crc_Mask (crc_Extend (crc_Value [of_nat (RecordType_num t)]) payload)) @
     [of_nat (length payload AND 0xff), of_nat (drop_bit 8 (length payload)), of_nat (RecordType_num t)] @
     payload"

lemma length_emit_bytes [simp]: "length (emit_bytes t payload) = kHeaderSize + length payload"
  by (simp add: emit_bytes_def kHeaderSize_def)

definition padding :: "nat \<Rightarrow> bytes" where
  "padding p = replicate (next_start p - p) 0"

lemma length_padding [simp]: "length (padding p) = next_start p - p"
  by (simp add: padding_def)

text \<open>\<open>encoded p b data out\<close>: \<open>out\<close> is the encoding of (the rest of) a record at file position \<open>p\<close>.\<close>

inductive encoded :: "nat \<Rightarrow> bool \<Rightarrow> bytes \<Rightarrow> bytes \<Rightarrow> bool" where
  last: "kHeaderSize + length data \<le> left_in_block (next_start p) \<Longrightarrow>
    encoded p b data (padding p @ emit_bytes (fragment_type b True) data)"
| more: "\<lbrakk>avail = left_in_block (next_start p) - kHeaderSize; avail < length data;
    encoded (next_start p + kHeaderSize + avail) False (drop avail data) out\<rbrakk> \<Longrightarrow>
    encoded p b data (padding p @ emit_bytes (fragment_type b False) (take avail data) @ out)"

definition writer_at :: "Writer \<Rightarrow> nat \<Rightarrow> bool" where
  "writer_at w p \<longleftrightarrow> wf_script (dest w) = [] \<and> type_crc w = InitTypeCrc \<and>
     (block_offset w = int kBlockSize - int (left_in_block p) \<or>
      block_offset w = int kBlockSize \<and> left_in_block p = kBlockSize)"

lemma type_crc_nth: "InitTypeCrc ! RecordType_num t = crc_Value [of_nat (RecordType_num t)]"
  by (cases t) (simp_all add: InitTypeCrc_def kMaxRecordType_def upt_rec nth_Cons')

lemma Emit_no_faults:
  assumes "wf_script (dest w) = []" "type_crc w = InitTypeCrc"
  shows "EmitPhysicalRecord w t payload = (Status_OK, w\<lparr>dest := dest w\<lparr>wf_data := wf_data (dest w) @ emit_bytes t payload\<rparr>,
    block_offset := block_offset w + int (kHeaderSize + length payload)\<rparr>)"
  using assms by (simp add: EmitPhysicalRecord_def emit_bytes_def type_crc_nth Let_def)

lemma start_block_at:
  assumes "writer_at w p"
  shows "dest (start_block w) = dest w\<lparr>wf_data := wf_data (dest w) @ padding p\<rparr>"
    and "block_offset (start_block w) = int kBlockSize - int (left_in_block (next_start p))"
    and "type_crc (start_block w) = InitTypeCrc"
  using assms left_in_block_pos [of p]
  by (auto simp: writer_at_def start_block_def next_start_def padding_def Let_def left_in_block_end
      split: if_splits)

lemma AddRecord_loop_encoded:
  assumes "writer_at w p"
  shows "\<exists>out w'. AddRecord_loop w data b = (Status_OK, w') \<and> encoded p b data out \<and>
    writer_at w' (p + length out) \<and> wf_data (dest w') = wf_data (dest w) @ out"
  using assms
proof (induction w data b arbitrary: p rule: AddRecord_loop.induct)
  case (1 w ptr b)
  let ?q = "next_start p" and ?w = "start_block w"
  define avail where "avail = left_in_block ?q - kHeaderSize"
  define fl where "fl = min (length ptr) avail"
  note st = start_block_at [OF "1.prems"]
  have sc: "wf_script (dest w) = []" using "1.prems" by (simp add: writer_at_def)
  have room: "kHeaderSize \<le> left_in_block ?q" by (rule next_start_room)
  have av: "nat (int kBlockSize - block_offset ?w - int kHeaderSize) = avail"
    by (simp add: st avail_def)
  have fl': "(if length ptr < avail then length ptr else avail) = fl" by (simp add: fl_def)
  let ?t = "fragment_type b (length ptr = fl)"
  let ?w2 = "?w\<lparr>dest := dest w\<lparr>wf_data := wf_data (dest w) @ padding p @ emit_bytes ?t (take fl ptr)\<rparr>,
      block_offset := block_offset ?w + int (kHeaderSize + fl)\<rparr>"
  have em: "EmitPhysicalRecord ?w ?t (take fl ptr) = (Status_OK, ?w2)"
    by (subst Emit_no_faults) (simp_all add: st sc fl_def)
  have unf: "AddRecord_loop w ptr b = (if drop fl ptr \<noteq> [] then AddRecord_loop ?w2 (drop fl ptr) False else (Status_OK, ?w2))"
    by (subst AddRecord_loop.simps, unfold Let_def av fl' em) simp
  have at2: "writer_at ?w2 (?q + kHeaderSize + fl)"
  proof (cases "kHeaderSize + fl = left_in_block ?q")
    case True
    then show ?thesis using left_in_block_end [OF True] by (simp add: writer_at_def st sc add.assoc)
  next
    case False
    then have "kHeaderSize + fl < left_in_block ?q" using room by (simp add: fl_def avail_def)
    then show ?thesis using left_in_block_step [of "kHeaderSize + fl" ?q]
      by (simp add: writer_at_def st sc add.assoc)
  qed
  have len: "p + length (padding p) = ?q" by (simp add: next_start_ge)
  show ?case
  proof (cases "length ptr \<le> avail")
    case True
    then have "fl = length ptr" by (simp add: fl_def)
    then have "encoded p b ptr (padding p @ emit_bytes (fragment_type b True) ptr)"
      using True room by (intro encoded.last) (simp add: avail_def)
    with \<open>fl = length ptr\<close> show ?thesis using unf at2 len
      by (intro exI [of _ "padding p @ emit_bytes (fragment_type b True) ptr"] exI [of _ ?w2]) (simp add: add.assoc)
  next
    case False
    then have fla: "fl = avail" "drop fl ptr \<noteq> []" "length ptr \<noteq> fl" by (simp_all add: fl_def)
    obtain out w' where IH: "AddRecord_loop ?w2 (drop fl ptr) False = (Status_OK, w')"
      "encoded (?q + kHeaderSize + fl) False (drop fl ptr) out" "writer_at w' (?q + kHeaderSize + fl + length out)"
      "wf_data (dest w') = wf_data (dest ?w2) @ out"
      using "1.IH" [OF refl av [symmetric] fl' [symmetric] refl em [symmetric] refl refl _ at2] fla(2)
      by fastforce
    let ?out = "padding p @ emit_bytes (fragment_type b False) (take avail ptr) @ out"
    have "encoded p b ptr ?out"
      using False IH(2) fla by (intro encoded.more [OF avail_def]) simp_all
    moreover have "p + length ?out = ?q + kHeaderSize + fl + length out"
      using len fla(1) False by simp
    ultimately show ?thesis using unf IH fla
      by (intro exI [of _ ?out] exI [of _ w']) (simp add: add.assoc)
  qed
qed

subsection \<open>What the reader makes of it\<close>

definition reader_at :: "Reader \<Rightarrow> bytes \<Rightarrow> nat \<Rightarrow> bool" where
  "reader_at r F p \<longleftrightarrow> sf_script (rd_file r) = [] \<and> initial_offset r = 0 \<and> \<not> resyncing r \<and> p \<le> length F \<and>
     rd_buffer r @ sf_rest (rd_file r) = drop p F \<and>
     (if rd_eof r then sf_rest (rd_file r) = [] \<and> length (rd_buffer r) < left_in_block p
      else rd_buffer r = [] \<and> left_in_block p = kBlockSize \<or> length (rd_buffer r) = left_in_block p)"

text \<open>The state once a header has been found in the buffer.\<close>

definition header_at :: "Reader \<Rightarrow> bytes \<Rightarrow> nat \<Rightarrow> bool" where
  "header_at r F q \<longleftrightarrow> sf_script (rd_file r) = [] \<and> initial_offset r = 0 \<and> \<not> resyncing r \<and> q \<le> length F \<and>
     kHeaderSize \<le> length (rd_buffer r) \<and> rd_buffer r @ sf_rest (rd_file r) = drop q F \<and>
     (if rd_eof r then sf_rest (rd_file r) = [] \<and> length (rd_buffer r) < left_in_block q
      else length (rd_buffer r) = left_in_block q)"

definition same_reports :: "Reader \<Rightarrow> Reader \<Rightarrow> bool" where
  "same_reports r r' \<longleftrightarrow> reporter r' = reporter r"

lemma same_reports_trans: "same_reports r r' \<Longrightarrow> same_reports r' r'' \<Longrightarrow> same_reports r r''"
  by (simp add: same_reports_def)

lemma ReadPhysicalRecord_buffered:
  "kHeaderSize \<le> length (rd_buffer r) \<Longrightarrow> ReadPhysicalRecord r = parse_physical r"
  by (simp add: ReadPhysicalRecord.simps [of r])

lemma ReadPhysicalRecord_short:
  "length (rd_buffer r) < kHeaderSize \<Longrightarrow> rd_eof r \<Longrightarrow> ReadPhysicalRecord r = (kEof, [], r\<lparr>rd_buffer := []\<rparr>)"
  by (simp add: ReadPhysicalRecord.simps [of r])

definition refill :: "Reader \<Rightarrow> Reader" where
  "refill r = (let rest = sf_rest (rd_file r) in
     r\<lparr>rd_file := (rd_file r)\<lparr>sf_rest := drop kBlockSize rest\<rparr>, rd_buffer := take kBlockSize rest,
       end_of_buffer_offset := end_of_buffer_offset r + of_nat (length (take kBlockSize rest)),
       rd_eof := length rest < kBlockSize\<rparr>)"

lemma ReadPhysicalRecord_refill:
  "length (rd_buffer r) < kHeaderSize \<Longrightarrow> \<not> rd_eof r \<Longrightarrow> sf_script (rd_file r) = [] \<Longrightarrow>
     ReadPhysicalRecord r = ReadPhysicalRecord (refill r)"
  by (cases r, subst ReadPhysicalRecord.simps) (simp add: refill_def Let_def min_def)

lemma refill_at:
  assumes "reader_at r F p" "length (rd_buffer r) < kHeaderSize" "\<not> rd_eof r"
  shows "if next_start p + kHeaderSize \<le> length F then header_at (refill r) F (next_start p)
     else length (rd_buffer (refill r)) < kHeaderSize \<and> rd_eof (refill r)"
proof -
  have b: "rd_buffer r @ sf_rest (rd_file r) = drop p F"
    and "rd_buffer r = [] \<and> left_in_block p = kBlockSize \<or> length (rd_buffer r) = left_in_block p"
    using assms by (simp_all add: reader_at_def)
  moreover from b have "drop (length (rd_buffer r)) (drop p F) = sf_rest (rd_file r)"
    "length (rd_buffer r) \<le> length F - p"
    by (metis append_eq_conv_conj, metis length_append length_drop le_add1)
  ultimately have "sf_rest (rd_file r) = drop (next_start p) F" "left_in_block (next_start p) = kBlockSize"
    "next_start p \<le> length F"
    using assms by (auto simp: next_start_def left_in_block_end reader_at_def add.commute)
  moreover have "sf_script (rd_file r) = []" "initial_offset r = 0" "\<not> resyncing r"
    using assms(1) by (simp_all add: reader_at_def)
  moreover have "\<not> length F - next_start p < kBlockSize \<Longrightarrow> next_start p + kHeaderSize \<le> length F"
    by (simp add: kBlockSize_def kHeaderSize_def)
  ultimately show ?thesis
    by (auto simp: header_at_def refill_def Let_def simp del: drop_drop)
qed

lemma same_reports_refill [simp]: "same_reports r (refill r)"
  by (simp add: same_reports_def refill_def Let_def)

lemma reader_at_buffered:
  assumes "reader_at r F p" "kHeaderSize \<le> length (rd_buffer r)"
  shows "header_at r F (next_start p)" "next_start p + kHeaderSize \<le> length F"
proof -
  have "next_start p = p" "length (rd_buffer r) \<le> length F - p"
    using assms by (auto simp: reader_at_def next_start_def split: if_splits dest: arg_cong [where f = length])
  then show "header_at r F (next_start p)" "next_start p + kHeaderSize \<le> length F"
    using assms by (auto simp: reader_at_def header_at_def split: if_splits)
qed

lemma reader_at_eof:
  assumes "reader_at r F p" "length (rd_buffer r) < kHeaderSize" "rd_eof r"
  shows "length F < next_start p + kHeaderSize"
  using assms by (auto simp: reader_at_def next_start_def dest!: arg_cong [where f = length])

lemma ReadPhysicalRecord_header:
  assumes "reader_at r F p" "next_start p + kHeaderSize \<le> length F"
  shows "\<exists>r1. ReadPhysicalRecord r = parse_physical r1 \<and> header_at r1 F (next_start p) \<and> same_reports r r1"
proof (cases "length (rd_buffer r) < kHeaderSize")
  case True
  then have ne: "\<not> rd_eof r" using reader_at_eof [OF assms(1) True] assms(2) by auto
  have h: "header_at (refill r) F (next_start p)" using refill_at [OF assms(1) True ne] assms(2) by simp
  have "ReadPhysicalRecord r = ReadPhysicalRecord (refill r)"
    using assms(1) True ne by (intro ReadPhysicalRecord_refill) (simp_all add: reader_at_def)
  also have "\<dots> = parse_physical (refill r)"
    using h by (intro ReadPhysicalRecord_buffered) (simp add: header_at_def)
  finally show ?thesis using h by auto
next
  case False
  then show ?thesis
    using reader_at_buffered [OF assms(1)] ReadPhysicalRecord_buffered [of r]
    by (intro exI [of _ r]) (simp add: same_reports_def)
qed

lemma ReadPhysicalRecord_end:
  assumes "reader_at r F p" "length F < next_start p + kHeaderSize"
  shows "\<exists>r1. ReadPhysicalRecord r = (kEof, [], r1) \<and> same_reports r r1"
proof -
  have short: "length (rd_buffer r) < kHeaderSize"
    using reader_at_buffered(2) [OF assms(1)] assms(2) by (rule_tac ccontr) auto
  show ?thesis
  proof (cases "rd_eof r")
    case True
    then show ?thesis using ReadPhysicalRecord_short [OF short] by (auto simp: same_reports_def)
  next
    case False
    have "ReadPhysicalRecord r = ReadPhysicalRecord (refill r)"
      using assms(1) short False by (intro ReadPhysicalRecord_refill) (simp_all add: reader_at_def)
    then show ?thesis
      using refill_at [OF assms(1) short False] assms(2) ReadPhysicalRecord_short [of "refill r"]
      by (auto simp: same_reports_def refill_def Let_def)
  qed
qed

lemma length_bytes:
  assumes "n < 2 ^ 16"
  shows "unat (ucast (of_nat (n AND 0xff) :: byte) OR push_bit 8 (ucast (of_nat (drop_bit 8 n) :: byte)) :: u32) = n"
proof -
  have m: "(0xff :: nat) = mask 8" by (simp add: mask_eq_exp_minus_1)
  have "ucast (of_nat (n AND 0xff) :: byte) OR push_bit 8 (ucast (of_nat (drop_bit 8 n) :: byte)) = (of_nat n :: u32)"
  proof (rule bit_word_eqI)
    fix i assume "i < LENGTH(32)"
    have hi: "bit n i \<Longrightarrow> i < 16"
      using assms by (metis bit_take_bit_iff take_bit_nat_eq_self)
    then show "bit (ucast (of_nat (n AND 0xff) :: byte) OR push_bit 8 (ucast (of_nat (drop_bit 8 n) :: byte)) :: u32) i =
        bit (of_nat n :: u32) i"
      unfolding m by (auto simp: word_bits bit_of_nat_iff bit_mask_iff not_less)
  qed
  then show ?thesis using assms by (simp add: unat_of_nat_eq)
qed

lemma char_to_uint_type: "char_to_uint (of_nat (RecordType_num t)) = of_nat (RecordType_num t)"
  by (cases t) (simp_all add: char_to_uint_def)

lemma emit_bytes_nth:
  "(emit_bytes t payload @ C) ! 4 = of_nat (length payload AND 0xff)"
  "(emit_bytes t payload @ C) ! 5 = of_nat (drop_bit 8 (length payload))"
  "(emit_bytes t payload @ C) ! 6 = of_nat (RecordType_num t)"
  by (simp_all add: emit_bytes_def nth_append)

lemma emit_bytes_crc:
  "crc_Value (take (1 + length payload) (drop 6 (emit_bytes t payload @ C))) =
     crc_Unmask (DecodeFixed32 (emit_bytes t payload @ C))"
  by (simp add: emit_bytes_def Unmask_Mask crc_Value_def crc_Extend_append)

lemma length_fits:
  "kHeaderSize + length payload \<le> left_in_block q \<Longrightarrow> length payload < 2 ^ 16"
  using left_in_block_pos(2) [of q] by (simp add: kBlockSize_def kHeaderSize_def)

lemma parse_physical_record:
  assumes "header_at r F q" "drop q F = emit_bytes t payload @ C"
    "kHeaderSize + length payload \<le> left_in_block q" "t \<noteq> kZeroType"
  shows "\<exists>r1. parse_physical r = (of_nat (RecordType_num t), payload, r1) \<and>
    reader_at r1 F (q + kHeaderSize + length payload) \<and> same_reports r r1"
proof -
  let ?n = "kHeaderSize + length payload"
  have q: "q \<le> length F" "rd_buffer r @ sf_rest (rd_file r) = emit_bytes t payload @ C"
    using assms(1,2) by (simp_all add: header_at_def)
  have "?n \<le> length (rd_buffer r)"
    using assms(1,3) q(2) by (auto simp: header_at_def split: if_splits dest: arg_cong [where f = length])
  then obtain C1 where C1: "rd_buffer r = emit_bytes t payload @ C1"
    using q(2) by (metis append_eq_append_conv_if append_eq_conv_conj length_emit_bytes)
  then have C: "C = C1 @ sf_rest (rd_file r)" using q(2) by simp
  have z: "(of_nat (RecordType_num t) :: u32) \<noteq> 0" using assms(4) by (cases t) simp_all
  note len = length_bytes [OF length_fits [OF assms(3)]]
  define r1 where "r1 = r\<lparr>rd_buffer := C1\<rparr>"
  have "parse_physical r = (of_nat (RecordType_num t), payload, r1)"
    using assms(1) z
    by (simp add: parse_physical_def Let_def C1 emit_bytes_nth len char_to_uint_type emit_bytes_crc [simplified]
        header_at_def r1_def) (simp add: emit_bytes_def kHeaderSize_def)
  moreover have "reader_at r1 F (q + kHeaderSize + length payload)"
  proof -
    have F: "length F = q + ?n + length C"
      using assms(2) q(1) by (metis add.assoc le_add_diff_inverse length_append length_drop length_emit_bytes)
    have d: "drop (q + ?n) F = C"
      using assms(2) by (metis add.commute append_eq_conv_conj drop_drop length_emit_bytes)
    show ?thesis
    proof (cases "?n = left_in_block q")
      case True
      then show ?thesis using assms(1) F d left_in_block_end [OF True]
        by (auto simp: reader_at_def header_at_def r1_def C1 C add.assoc split: if_splits)
    next
      case False
      then have "?n < left_in_block q" using assms(3) by simp
      then show ?thesis using assms(1) F d left_in_block_step [of ?n q]
        by (auto simp: reader_at_def header_at_def r1_def C1 C add.assoc split: if_splits)
    qed
  qed
  ultimately show ?thesis by (auto simp: same_reports_def r1_def)
qed

lemma parse_physical_truncated:
  assumes "header_at r F q" "drop q F = take k (emit_bytes t payload)" "k < kHeaderSize + length payload"
    "kHeaderSize + length payload \<le> left_in_block q"
  shows "\<exists>r1. parse_physical r = (kEof, [], r1) \<and> same_reports r r1"
proof -
  have "length (rd_buffer r) \<le> k"
    using assms(1,2) by (auto simp: header_at_def dest: arg_cong [where f = length])
  then have eof: "rd_eof r" "sf_rest (rd_file r) = []" and k: "kHeaderSize \<le> k"
    using assms(1,3,4) by (auto simp: header_at_def split: if_splits)
  have b: "rd_buffer r = take k (emit_bytes t payload @ [])"
    using assms(1,2) eof by (simp add: header_at_def)
  have "6 < k" using k by (simp add: kHeaderSize_def)
  then have "rd_buffer r ! 4 = of_nat (length payload AND 0xff)"
    "rd_buffer r ! 5 = of_nat (drop_bit 8 (length payload))"
    unfolding b by (simp_all only: nth_take emit_bytes_nth)
  then show ?thesis
    using assms(3) eof(1) length_bytes [OF length_fits [OF assms(4)]] \<open>length (rd_buffer r) \<le> k\<close>
    by (auto simp: parse_physical_def Let_def same_reports_def)
qed

lemma read_fragment:
  assumes "reader_at r F p" "drop p F = padding p @ emit_bytes t payload @ C"
    "kHeaderSize + length payload \<le> left_in_block (next_start p)" "t \<noteq> kZeroType"
  shows "\<exists>r1. ReadPhysicalRecord r = (of_nat (RecordType_num t), payload, r1) \<and>
    reader_at r1 F (next_start p + kHeaderSize + length payload) \<and> same_reports r r1"
proof -
  have "drop (length (padding p)) (drop p F) = emit_bytes t payload @ C" using assms(2) by simp
  then have d: "drop (next_start p) F = emit_bytes t payload @ C"
    using next_start_ge [of p] by (simp add: add.commute)
  then have "next_start p + kHeaderSize \<le> length F"
    by (auto simp: kHeaderSize_def dest!: arg_cong [where f = length])
  then obtain r1 where "ReadPhysicalRecord r = parse_physical r1" "header_at r1 F (next_start p)" "same_reports r r1"
    using ReadPhysicalRecord_header [OF assms(1)] by blast
  then show ?thesis using parse_physical_record [OF _ d assms(3,4)] same_reports_trans by metis
qed

lemma read_truncated:
  assumes "reader_at r F p" "drop p F = take k (padding p @ emit_bytes t payload)"
    "k < length (padding p @ emit_bytes t payload)"
    "kHeaderSize + length payload \<le> left_in_block (next_start p)"
  shows "\<exists>r1. ReadPhysicalRecord r = (kEof, [], r1) \<and> same_reports r r1"
proof (cases "next_start p + kHeaderSize \<le> length F")
  case True
  define k' where "k' = k - length (padding p)"
  have "length (padding p) \<le> k"
    using assms(2) True next_start_ge [of p] by (auto simp: kHeaderSize_def dest!: arg_cong [where f = length])
  then have "drop (length (padding p)) (drop p F) = take k' (emit_bytes t payload)"
    unfolding assms(2) by (simp add: k'_def)
  then have d: "drop (next_start p) F = take k' (emit_bytes t payload)"
    using next_start_ge [of p] by (simp add: add.commute)
  obtain r1 where r1: "ReadPhysicalRecord r = parse_physical r1" "header_at r1 F (next_start p)" "same_reports r r1"
    using ReadPhysicalRecord_header [OF assms(1) True] by blast
  have "k' < kHeaderSize + length payload" using assms(3) by (simp add: k'_def kHeaderSize_def)
  then show ?thesis using parse_physical_truncated [OF r1(2) d _ assms(4)] r1(1,3) same_reports_trans by metis
qed (use ReadPhysicalRecord_end [OF assms(1)] in simp)

lemma reader_at_simps [simp]:
  "reader_at (r\<lparr>last_record_offset := n\<rparr>) F p = reader_at r F p"
  "same_reports r (r'\<lparr>last_record_offset := n\<rparr>) = same_reports r r'"
  "same_reports r (r'\<lparr>resyncing := b\<rparr>) = same_reports r r'"
  by (simp_all add: reader_at_def same_reports_def)

lemma reader_at_resyncing: "reader_at r F p \<Longrightarrow> r\<lparr>resyncing := False\<rparr> = r \<and> \<not> resyncing r"
  by (cases r) (simp add: reader_at_def)

lemma fragment_type_nonzero [simp]: "fragment_type b e \<noteq> kZeroType"
  by (simp add: fragment_type_def)

lemma ReadRecord_continues:
  assumes "ReadPhysicalRecord r = (of_nat (RecordType_num (fragment_type b False)), fragment, r1)" "reader_at r1 F p"
  shows "\<exists>pro'. ReadRecord_loop r (\<not> b) scratch pro =
    ReadRecord_loop r1 True ((if b then [] else scratch) @ fragment) pro'"
  using assms(1) reader_at_resyncing [OF assms(2)]
  by (auto simp: ReadRecord_loop.simps [of r] fragment_type_def Let_def kEof_def kBadRecord_def kMaxRecordType_def)

lemma ReadRecord_encoded:
  "encoded p b data out \<Longrightarrow> reader_at r F p \<Longrightarrow> drop p F = out @ C \<Longrightarrow>
   \<exists>r1. ReadRecord_loop r (\<not> b) scratch pro = (Some ((if b then [] else scratch) @ data), r1) \<and>
     reader_at r1 F (p + length out) \<and> same_reports r r1"
proof (induction arbitrary: r scratch pro rule: encoded.induct)
  case (last data p b)
  obtain r1 where r1: "ReadPhysicalRecord r = (of_nat (RecordType_num (fragment_type b True)), data, r1)"
    "reader_at r1 F (next_start p + kHeaderSize + length data)" "same_reports r r1"
    using read_fragment [OF last.prems(1) _ last.hyps] last.prems(2) by fastforce
  then show ?case using next_start_ge [of p] reader_at_resyncing [OF r1(2)]
    by (simp add: ReadRecord_loop.simps [of r] fragment_type_def Let_def add.assoc kEof_def kBadRecord_def kMaxRecordType_def)
next
  case (more avail p data out b)
  have "kHeaderSize + length (take avail data) \<le> left_in_block (next_start p)"
    using more.hyps(1) next_start_room [of p] by simp
  then obtain r1 where r1: "ReadPhysicalRecord r = (of_nat (RecordType_num (fragment_type b False)), take avail data, r1)"
    "reader_at r1 F (next_start p + kHeaderSize + avail)" "same_reports r r1"
    using read_fragment [OF more.prems(1), of _ "take avail data" "out @ C"] more.prems(2) more.hyps(2) by fastforce
  have d: "drop (next_start p + kHeaderSize + avail) F = out @ C"
  proof -
    have "drop (length (padding p @ emit_bytes (fragment_type b False) (take avail data))) (drop p F) = out @ C"
      using more.prems(2) by simp
    then show ?thesis using next_start_ge [of p] more.hyps(2) by (simp add: ac_simps)
  qed
  obtain pro' where r2: "ReadRecord_loop r (\<not> b) scratch pro =
      ReadRecord_loop r1 True ((if b then [] else scratch) @ take avail data) pro'"
    using ReadRecord_continues [OF r1(1) r1(2)] by blast
  show ?case
    using more.IH [OF r1(2) d, of "(if b then [] else scratch) @ take avail data" pro'] r1(3) next_start_ge [of p]
      more.hyps(2) same_reports_trans [of r r1]
    by (auto simp: r2 add.assoc)
qed

lemma ReadRecord_truncated:
  "encoded p b data out \<Longrightarrow> reader_at r F p \<Longrightarrow> drop p F = take k out \<Longrightarrow> k < length out \<Longrightarrow>
   \<exists>r1. ReadRecord_loop r (\<not> b) scratch pro = (None, r1) \<and> same_reports r r1"
proof (induction arbitrary: r scratch pro k rule: encoded.induct)
  case (last data p b)
  then show ?case
    using read_truncated [OF last.prems(1,2) _ last.hyps]
    by (auto simp: ReadRecord_loop.simps [of r] Let_def kEof_def kBadRecord_def kMaxRecordType_def)
next
  case (more avail p data out b)
  let ?e = "padding p @ emit_bytes (fragment_type b False) (take avail data)"
  have fits: "kHeaderSize + length (take avail data) \<le> left_in_block (next_start p)"
    using more.hyps(1) next_start_room [of p] by simp
  show ?case
  proof (cases "k < length ?e")
    case True
    then have "drop p F = take k ?e" using more.prems(2) by simp
    then show ?thesis
      using read_truncated [OF more.prems(1) _ True fits]
      by (auto simp: ReadRecord_loop.simps [of r] Let_def kEof_def kBadRecord_def kMaxRecordType_def)
  next
    case False
    define k' where "k' = k - length ?e"
    have p: "drop p F = padding p @ emit_bytes (fragment_type b False) (take avail data) @ take k' out"
      using more.prems(2) False by (simp add: k'_def)
    then obtain r1 where r1: "ReadPhysicalRecord r = (of_nat (RecordType_num (fragment_type b False)), take avail data, r1)"
      "reader_at r1 F (next_start p + kHeaderSize + avail)" "same_reports r r1"
      using read_fragment [OF more.prems(1) _ fits] more.hyps(2) by fastforce
    have "drop (length ?e) (drop p F) = take k' out" using p by simp
    then have d: "drop (next_start p + kHeaderSize + avail) F = take k' out"
      using next_start_ge [of p] more.hyps(2) by (simp add: ac_simps)
    obtain pro' where r2: "ReadRecord_loop r (\<not> b) scratch pro =
        ReadRecord_loop r1 True ((if b then [] else scratch) @ take avail data) pro'"
      using ReadRecord_continues [OF r1(1) r1(2)] by blast
    have "k' < length out" using more.prems(3) False by (simp add: k'_def)
    then show ?thesis
      using more.IH [OF r1(2) d, of "(if b then [] else scratch) @ take avail data" pro'] r1(3)
        same_reports_trans [of r r1] by (auto simp: r2)
  qed
qed

subsection \<open>Whole logs\<close>

definition write_records :: "Writer \<Rightarrow> bytes list \<Rightarrow> Writer" where
  "write_records w recs = foldl (\<lambda>w rec. snd (AddRecord w rec)) w recs"

text \<open>The reading loop of recovery: records until the reader returns false, at most \<open>n\<close> of them.\<close>

fun read_records :: "nat \<Rightarrow> Reader \<Rightarrow> bytes list \<times> Reader" where
  "read_records 0 r = ([], r)"
| "read_records (Suc n) r =
     (case ReadRecord r of (None, r) \<Rightarrow> ([], r)
      | (Some x, r) \<Rightarrow> (let (xs, r) = read_records n r in (x # xs, r)))"

text \<open>The records whose last byte is among the first \<open>n\<close> bytes of the log.\<close>

fun complete_records :: "nat \<Rightarrow> Writer \<Rightarrow> bytes list \<Rightarrow> bytes list" where
  "complete_records n w [] = []"
| "complete_records n w (x # xs) =
     (let w' = snd (AddRecord w x) in
      if length (wf_data (dest w')) \<le> n then x # complete_records n w' xs else [])"

lemma write_records_Cons: "write_records w (x # xs) = write_records (snd (AddRecord w x)) xs"
  by (simp add: write_records_def)

lemma AddRecord_encoded:
  assumes "writer_at w p"
  obtains out where "AddRecord w data = (Status_OK, snd (AddRecord w data))" "encoded p True data out"
    "writer_at (snd (AddRecord w data)) (p + length out)"
    "wf_data (dest (snd (AddRecord w data))) = wf_data (dest w) @ out"
  using AddRecord_loop_encoded [OF assms, of data True] by (auto simp: AddRecord_def)

lemma AddRecord_writer_at: "writer_at w p \<Longrightarrow> \<exists>q. writer_at (snd (AddRecord w data)) q"
  by (erule AddRecord_encoded [where data = data]) blast

lemma write_records_extends:
  "writer_at w p \<Longrightarrow> \<exists>rest. wf_data (dest (write_records w recs)) = wf_data (dest w) @ rest"
proof (induction recs arbitrary: w p)
  case (Cons x xs)
  then show ?case by (metis AddRecord_encoded append_assoc write_records_Cons)
qed (simp add: write_records_def)

lemma ReadRecord_at: "reader_at r F p \<Longrightarrow> ReadRecord r = ReadRecord_loop r False [] 0"
  by (simp add: ReadRecord_def reader_at_def)

lemma ReadRecord_at_end:
  assumes "reader_at r F p" "p = length F"
  shows "\<exists>r1. ReadRecord r = (None, r1) \<and> same_reports r r1"
  using ReadPhysicalRecord_end [OF assms(1)] next_start_ge [of p] assms
  by (auto simp: ReadRecord_at ReadRecord_loop.simps [of r] Let_def kEof_def kBadRecord_def kMaxRecordType_def
      kHeaderSize_def)

text \<open>The reader yields these records one after the other and then no more, without a report.\<close>

inductive reads :: "Reader \<Rightarrow> bytes list \<Rightarrow> bool" where
  no_more: "ReadRecord r = (None, r1) \<Longrightarrow> same_reports r r1 \<Longrightarrow> reads r []"
| one_more: "ReadRecord r = (Some x, r1) \<Longrightarrow> same_reports r r1 \<Longrightarrow> reads r1 xs \<Longrightarrow> reads r (x # xs)"

lemma reads_complete:
  assumes "writer_at w p" "length (wf_data (dest w)) = p" "reader_at r F p"
    "F = take n (wf_data (dest (write_records w recs)))"
  shows "reads r (complete_records n w recs)"
  using assms
proof (induction recs arbitrary: w p r)
  case Nil
  have "p = length F" using Nil by (simp add: write_records_def reader_at_def)
  then show ?case using ReadRecord_at_end [OF Nil.prems(3)] by (auto intro: reads.no_more)
next
  case (Cons x xs)
  let ?w = "snd (AddRecord w x)"
  obtain out where out: "encoded p True x out" "writer_at ?w (p + length out)"
    "wf_data (dest ?w) = wf_data (dest w) @ out"
    using AddRecord_encoded [OF Cons.prems(1), of x] by metis
  obtain rest where rest: "wf_data (dest (write_records w (x # xs))) = wf_data (dest w) @ out @ rest"
    using write_records_extends [OF out(2), of xs] out(3) by (auto simp: write_records_Cons)
  have len: "length (wf_data (dest ?w)) = p + length out" using out(3) Cons.prems(2) by simp
  have pn: "p \<le> n" using Cons.prems(3,4) by (simp add: reader_at_def)
  then have F: "drop p F = take (n - p) (out @ rest)" using Cons.prems(2,4) rest by (simp add: drop_take)
  show ?case
  proof (cases "p + length out \<le> n")
    case True
    then have "drop p F = out @ take (n - p - length out) rest" using F by simp
    then obtain r1 where r1: "ReadRecord r = (Some x, r1)" "reader_at r1 F (p + length out)" "same_reports r r1"
      using ReadRecord_encoded [OF out(1) Cons.prems(3)] ReadRecord_at [OF Cons.prems(3)] by fastforce
    have "F = take n (wf_data (dest (write_records ?w xs)))"
      using Cons.prems(4) by (simp add: write_records_Cons)
    from reads.one_more [OF r1(1,3) Cons.IH [OF out(2) len r1(2) this]] show ?thesis using True len by simp
  next
    case False
    then have "drop p F = take (n - p) out" "n - p < length out" using F pn by simp_all
    then obtain r1 where "ReadRecord r = (None, r1)" "same_reports r r1"
      using ReadRecord_truncated [OF out(1) Cons.prems(3)] ReadRecord_at [OF Cons.prems(3)] by fastforce
    then show ?thesis using False len by (auto intro: reads.no_more)
  qed
qed

lemma reads_read_records: "reads r xs \<Longrightarrow> length xs \<le> n \<Longrightarrow> \<exists>r1. read_records (Suc n) r = (xs, r1) \<and> same_reports r r1"
proof (induction arbitrary: n rule: reads.induct)
  case (one_more r x r1 xs)
  then obtain m where n: "n = Suc m" by (cases n) auto
  obtain r2 where "read_records (Suc m) r1 = (xs, r2)" "same_reports r1 r2" using one_more.IH [of m] one_more.prems n by auto
  then show ?case using one_more.hyps(1,2) n same_reports_trans by (auto simp del: read_records.simps simp add: read_records.simps(2) [of _ r])
qed simp

lemma length_complete_records: "length (complete_records n w recs) \<le> length recs"
  by (induction recs arbitrary: w) (simp_all add: Let_def)

lemma read_records_complete:
  assumes "writer_at w p" "length (wf_data (dest w)) = p" "reader_at r F p"
    "F = take n (wf_data (dest (write_records w recs)))"
  shows "\<exists>r1. read_records (Suc (length recs)) r = (complete_records n w recs, r1) \<and> same_reports r r1"
  by (rule reads_read_records [OF reads_complete [OF assms] length_complete_records])

lemma complete_records_all:
  "writer_at w p \<Longrightarrow> length (wf_data (dest (write_records w recs))) \<le> n \<Longrightarrow> complete_records n w recs = recs"
proof (induction recs arbitrary: w p)
  case (Cons x xs)
  obtain q where out: "writer_at (snd (AddRecord w x)) q"
    using AddRecord_writer_at [OF Cons.prems(1)] by blast
  show ?case
    using Cons.IH [OF out] Cons.prems(2) write_records_extends [OF out, of xs]
    by (auto simp: write_records_Cons Let_def)
qed simp

abbreviation empty_log :: Writer where
  "empty_log \<equiv> new_Writer \<lparr>wf_data = [], wf_script = []\<rparr>"

abbreviation log_reader :: "bytes \<Rightarrow> (u64 \<times> Status) list option \<Rightarrow> bool \<Rightarrow> Reader" where
  "log_reader F rep chk \<equiv> new_Reader \<lparr>sf_rest = F, sf_script = []\<rparr> rep chk 0"

lemma writer_at_empty: "writer_at empty_log 0"
  by (simp add: writer_at_def new_Writer_def left_in_block_start)

lemma reader_at_start: "reader_at (log_reader F rep chk) F 0"
  by (simp add: reader_at_def new_Reader_def left_in_block_start)

lemma reporter_log_reader [simp]: "reporter (log_reader F rep chk) = rep"
  by (simp add: new_Reader_def)

lemma empty_log_length: "length (wf_data (dest empty_log)) = 0"
  by (simp add: new_Writer_def)

lemma read_truncated_log:
  "\<exists>r. read_records (Suc (length recs))
       (log_reader (take n (wf_data (dest (write_records empty_log recs)))) rep chk) =
     (complete_records n empty_log recs, r) \<and> reporter r = rep"
  using read_records_complete [OF writer_at_empty empty_log_length reader_at_start refl, of recs n rep chk]
  by (simp only: same_reports_def reporter_log_reader)

section \<open>Properties\<close>

text \<open>
  C1. The log keeps what was written, also across a crash: when the log of any sequence of records
  is cut at any byte (the writer died there), a reader returns exactly the records that were
  written completely, in order, and then the end of the file, without reporting a corruption.
\<close>

theorem log_survives_truncation:
  "\<exists>r. read_records (Suc (length recs))
       (log_reader (take n (wf_data (dest (write_records empty_log recs)))) rep chk) =
     (complete_records n empty_log recs, r) \<and> reporter r = rep"
  by (rule read_truncated_log)

text \<open>
  Every log reads back in full: all records, whatever their number and sizes, in order, with
  nothing reported.
\<close>

theorem log_roundtrip:
  "\<exists>r. read_records (Suc (length recs)) (log_reader (wf_data (dest (write_records empty_log recs))) rep chk) =
     (recs, r) \<and> reporter r = rep"
  using read_truncated_log [of recs "length (wf_data (dest (write_records empty_log recs)))" rep chk]
    complete_records_all [OF writer_at_empty order_refl, of recs]
  by (simp only: take_all_iff [THEN iffD2, OF order_refl])

end
