(* ===== verification/Randoms.thy ===== *)
theory Randoms
  imports Prelude
begin

text \<open>\<open>util/random.h\<close>: the multiplicative congruential generator that picks skip-list heights.\<close>

section \<open>Definitions\<close>

definition new_Random :: "u32 \<Rightarrow> u32" where
  "new_Random s = (let seed = s AND 0x7fffffff in if seed = 0 \<or> seed = 2147483647 then 1 else seed)"

definition Random_Next :: "u32 \<Rightarrow> u32" where
  "Random_Next seed =
     (let M = 2147483647 :: u32;
          A = 16807 :: u64;
          product = ucast seed * A;
          seed = ucast (drop_bit 31 product + (product AND ucast M)) :: u32
      in if seed > M then seed - M else seed)"

definition Random_Uniform :: "u32 \<Rightarrow> u32 \<Rightarrow> u32 \<times> u32" where
  "Random_Uniform seed n = (let seed = Random_Next seed in (seed mod n, seed))"

definition Random_OneIn :: "u32 \<Rightarrow> u32 \<Rightarrow> bool \<times> u32" where
  "Random_OneIn seed n = (let seed = Random_Next seed in (seed mod n = 0, seed))"

definition Random_Skewed :: "u32 \<Rightarrow> u32 \<Rightarrow> u32 \<times> u32" where
  "Random_Skewed seed max_log =
     (let (base, seed) = Random_Uniform seed (max_log + 1)
      in Random_Uniform seed (push_bit (unat base) 1))"

section \<open>Lemmas\<close>

definition good_seed :: "u32 \<Rightarrow> bool" where
  "good_seed s \<longleftrightarrow> 0 < s \<and> s < 2147483647"

lemma good_seed_unat: "good_seed s \<longleftrightarrow> 0 < unat s \<and> unat s < 2147483647"
  by (simp add: good_seed_def word_less_nat_alt unat_gt_0 word_greater_zero_iff)

lemma good_seed_new: "good_seed (new_Random s)"
proof -
  have "s AND 0x7fffffff \<le> 0x7fffffff" by (rule word_and_le1)
  then show ?thesis
    by (auto simp: new_Random_def good_seed_def Let_def order_less_le word_greater_zero_iff)
qed

lemma coprime_AM: "coprime (16807 :: nat) 2147483647"
  by (simp add: coprime_iff_gcd_eq_1 gcd_non_0_nat)

lemma product_mod_nonzero:
  assumes "0 < n" "n < 2147483647" shows "(n * 16807) mod (2147483647 :: nat) \<noteq> 0"
proof
  assume "(n * 16807) mod 2147483647 = 0"
  then have "2147483647 dvd n * 16807" by (simp add: dvd_eq_mod_eq_0)
  then have "2147483647 dvd n" using coprime_AM by (simp add: coprime_dvd_mult_left_iff coprime_commute)
  with assms show False by (auto dest: dvd_imp_le)
qed

lemma mersenne_split:
  fixes p :: nat
  shows "(p div 2 ^ 31 + p mod 2 ^ 31) mod 2147483647 = p mod 2147483647"
proof -
  have "p = p div 2 ^ 31 * 2147483647 + (p div 2 ^ 31 + p mod 2 ^ 31)"
    using div_mult_mod_eq [of p "2 ^ 31"] by simp
  then show ?thesis by (metis mod_mult_self3)
qed

lemma Random_Next_mod:
  assumes "good_seed s"
  shows "unat (Random_Next s) = (unat s * 16807) mod 2147483647"
proof -
  define p where "p = unat s * 16807"
  define q where "q = p div 2 ^ 31 + p mod 2 ^ 31"
  have s: "0 < unat s" "unat s < 2147483647" using assms by (simp_all add: good_seed_unat)
  have p: "p < 2 ^ 46" using s by (simp add: p_def)
  have up: "unat (ucast s * 16807 :: u64) = p"
    using s by (simp add: unat_word_ariths p_def)
  have m: "(0x7fffffff :: u64) = mask 31" by (simp add: mask_eq_exp_minus_1)
  have "p div 2 ^ 31 < 2 ^ 15" using p by (simp add: less_mult_imp_div_less)
  then have q: "q < 2 * 2147483647" using mod_less_divisor [of "2 ^ 31" p] by (simp add: q_def)
  have "unat (drop_bit 31 (ucast s * 16807 :: u64)) = p div 2 ^ 31"
    "unat ((ucast s * 16807 :: u64) AND 0x7fffffff) = p mod 2 ^ 31"
    unfolding m
    by (simp_all only: unat_drop_bit up unsigned_take_bit_eq take_bit_eq_mod [of _ p] flip: take_bit_eq_mask)
  then have u: "unat (drop_bit 31 (ucast s * 16807 :: u64) + ((ucast s * 16807) AND 0x7fffffff)) = q"
    using q by (simp add: unat_word_ariths q_def)
  define w where "w = (ucast (drop_bit 31 (ucast s * 16807 :: u64) + ((ucast s * 16807) AND 0x7fffffff)) :: u32)"
  have w: "unat w = q" unfolding w_def unsigned_ucast_eq u using q by (simp add: take_bit_eq_mod)
  have nz: "q mod 2147483647 \<noteq> 0" using product_mod_nonzero [OF s] mersenne_split [of p] by (simp add: p_def q_def)
  have "unat (Random_Next s) = (if 2147483647 < q then q - 2147483647 else q)"
    using w by (simp add: Random_Next_def Let_def w_def [symmetric] word_less_nat_alt unat_sub word_le_nat_alt)
  also have "\<dots> = q mod 2147483647"
    using q nz by (auto simp: mod_if le_mod_geq not_less)
  finally show ?thesis using mersenne_split [of p] by (simp add: p_def q_def)
qed

lemma good_seed_Next: "good_seed s \<Longrightarrow> good_seed (Random_Next s)"
  using product_mod_nonzero [of "unat s"] by (simp add: good_seed_unat Random_Next_mod)

section \<open>Properties\<close>

text \<open>
  The generator computes \<open>seed * 16807 mod (2^31 - 1)\<close> without a division: from every seed the
  constructor can leave, each step returns exactly that product modulo the Mersenne prime, and it
  never reaches 0 or \<open>2^31 - 1\<close>, where it would be stuck.
\<close>

theorem random_next_exact:
  assumes "seed = (Random_Next ^^ n) (new_Random s)"
  shows "unat (Random_Next seed) = (unat seed * 16807) mod (2 ^ 31 - 1) \<and>
    0 < unat (Random_Next seed) \<and> unat (Random_Next seed) < 2 ^ 31 - 1"
proof -
  have "good_seed seed"
    unfolding assms by (induction n) (simp_all add: good_seed_new good_seed_Next)
  then show ?thesis
    using good_seed_Next [of seed] by (simp add: Random_Next_mod good_seed_unat)
qed

theorem random_next_exact_witness:
  "unat (Random_Next (new_Random 301)) = (301 * 16807) mod (2 ^ 31 - 1)"
  using random_next_exact [of "new_Random 301" 0 301] by (simp add: new_Random_def)

end
