(* ===== verification/WriteBatches.thy ===== *)
theory WriteBatches
  imports DbFormat Statuses
begin

text \<open>
  \<open>db/write_batch.cc\<close> and \<open>db/write_batch_internal.h\<close>: a batch is its byte string \<open>rep_\<close>, a header of
  sequence number and count followed by tagged records. A handler is a pair of state
  transformers; \<open>Iterate\<close> threads the handler's state and returns it with the status.
\<close>

section \<open>Definitions\<close>

type_synonym WriteBatch = bytes

definition kHeader :: nat where
  "kHeader = 12"

definition WriteBatch_Clear :: WriteBatch where
  "WriteBatch_Clear = replicate kHeader 0"

definition new_WriteBatch :: WriteBatch where
  "new_WriteBatch = WriteBatch_Clear"

definition ApproximateSize :: "WriteBatch \<Rightarrow> nat" where
  "ApproximateSize b = length b"

definition WB_Count :: "WriteBatch \<Rightarrow> u32" where
  "WB_Count b = DecodeFixed32 (drop 8 b)"

definition WB_SetCount :: "WriteBatch \<Rightarrow> u32 \<Rightarrow> WriteBatch" where
  "WB_SetCount b n = take 8 b @ EncodeFixed32 n @ drop 12 b"

definition WB_Sequence :: "WriteBatch \<Rightarrow> u64" where
  "WB_Sequence b = DecodeFixed64 b"

definition WB_SetSequence :: "WriteBatch \<Rightarrow> u64 \<Rightarrow> WriteBatch" where
  "WB_SetSequence b seq = EncodeFixed64 seq @ drop 8 b"

definition WB_Contents :: "WriteBatch \<Rightarrow> bytes" where
  "WB_Contents b = b"

definition WB_ByteSize :: "WriteBatch \<Rightarrow> nat" where
  "WB_ByteSize b = length b"

definition WB_SetContents :: "WriteBatch \<Rightarrow> bytes \<Rightarrow> WriteBatch" where
  "WB_SetContents b contents = contents"

definition WriteBatch_Put :: "WriteBatch \<Rightarrow> bytes \<Rightarrow> bytes \<Rightarrow> WriteBatch" where
  "WriteBatch_Put b key value =
     (let rep = WB_SetCount b (WB_Count b + 1);
          rep = rep @ [ValueType_num kTypeValue];
          rep = PutLengthPrefixedSlice rep key
      in PutLengthPrefixedSlice rep value)"

definition WriteBatch_Delete :: "WriteBatch \<Rightarrow> bytes \<Rightarrow> WriteBatch" where
  "WriteBatch_Delete b key =
     (let rep = WB_SetCount b (WB_Count b + 1);
          rep = rep @ [ValueType_num kTypeDeletion]
      in PutLengthPrefixedSlice rep key)"

definition WB_Append :: "WriteBatch \<Rightarrow> WriteBatch \<Rightarrow> WriteBatch" where
  "WB_Append dst src = WB_SetCount dst (WB_Count dst + WB_Count src) @ drop kHeader src"

definition WriteBatch_Append :: "WriteBatch \<Rightarrow> WriteBatch \<Rightarrow> WriteBatch" where
  "WriteBatch_Append b source = WB_Append b source"

record 'a Handler =
  h_Put :: "bytes \<Rightarrow> bytes \<Rightarrow> 'a \<Rightarrow> 'a"
  h_Delete :: "bytes \<Rightarrow> 'a \<Rightarrow> 'a"

text \<open>The loop of \<open>Iterate\<close> over the bytes left; \<open>Inl\<close> is the early return of an error.\<close>

function Iterate_loop :: "'a Handler \<Rightarrow> bytes \<Rightarrow> u32 \<Rightarrow> 'a \<Rightarrow> (Status + u32) \<times> 'a" where
  "Iterate_loop handler input found st =
     (case input of
        [] \<Rightarrow> (Inr found, st)
      | tag # input \<Rightarrow>
          let found = found + 1 in
          if tag = ValueType_num kTypeValue then
            (case GetLengthPrefixedSlice input of
               None \<Rightarrow> (Inl (Corruption (str ''bad WriteBatch Put'') []), st)
             | Some (key, input) \<Rightarrow>
                 (case GetLengthPrefixedSlice input of
                    None \<Rightarrow> (Inl (Corruption (str ''bad WriteBatch Put'') []), st)
                  | Some (value, input) \<Rightarrow> Iterate_loop handler input found (h_Put handler key value st)))
          else if tag = ValueType_num kTypeDeletion then
            (case GetLengthPrefixedSlice input of
               None \<Rightarrow> (Inl (Corruption (str ''bad WriteBatch Delete'') []), st)
             | Some (key, input) \<Rightarrow> Iterate_loop handler input found (h_Delete handler key st))
          else (Inl (Corruption (str ''unknown WriteBatch tag'') []), st))"
  by pat_completeness auto
termination
  by (relation "measure (\<lambda>(h, input, f, s). length input)")
    (auto dest!: GetLengthPrefixedSlice_shorter)

declare Iterate_loop.simps [simp del]

definition WriteBatch_Iterate :: "'a Handler \<Rightarrow> WriteBatch \<Rightarrow> 'a \<Rightarrow> Status \<times> 'a" where
  "WriteBatch_Iterate handler rep st =
     (if length rep < kHeader then (Corruption (str ''malformed WriteBatch (too small)'') [], st)
      else case Iterate_loop handler (drop kHeader rep) 0 st of
        (Inl s, st) \<Rightarrow> (s, st)
      | (Inr found, st) \<Rightarrow>
          if found \<noteq> WB_Count rep then (Corruption (str ''WriteBatch has wrong count'') [], st)
          else (Status_OK, st))"

section \<open>Specification\<close>

text \<open>What a batch stands for: a sequence number and a list of updates.\<close>

datatype batch_op = Put_op bytes bytes | Delete_op bytes

fun encode_op :: "batch_op \<Rightarrow> bytes" where
  "encode_op (Put_op k v) = 1 # lps k @ lps v"
| "encode_op (Delete_op k) = 0 # lps k"

fun wf_op :: "batch_op \<Rightarrow> bool" where
  "wf_op (Put_op k v) \<longleftrightarrow> length k < 2 ^ 32 \<and> length v < 2 ^ 32"
| "wf_op (Delete_op k) \<longleftrightarrow> length k < 2 ^ 32"

fun apply_op :: "'a Handler \<Rightarrow> batch_op \<Rightarrow> 'a \<Rightarrow> 'a" where
  "apply_op h (Put_op k v) st = h_Put h k v st"
| "apply_op h (Delete_op k) st = h_Delete h k st"

definition represents :: "WriteBatch \<Rightarrow> u64 \<Rightarrow> batch_op list \<Rightarrow> bool" where
  "represents b seq ops \<longleftrightarrow>
     b = EncodeFixed64 seq @ EncodeFixed32 (of_nat (length ops)) @ concat (map encode_op ops) \<and>
     (\<forall>op\<in>set ops. wf_op op)"

definition apply_all :: "batch_op list \<Rightarrow> WriteBatch \<Rightarrow> WriteBatch" where
  "apply_all ops b = fold (\<lambda>op b. case op of Put_op k v \<Rightarrow> WriteBatch_Put b k v | Delete_op k \<Rightarrow> WriteBatch_Delete b k) ops b"

section \<open>Lemmas\<close>

lemma represents_simps:
  assumes "represents b seq ops"
  shows "WB_Sequence b = seq" "WB_Count b = of_nat (length ops)" "drop kHeader b = concat (map encode_op ops)"
    "kHeader \<le> length b" "drop 12 b = concat (map encode_op ops)" "take 8 b = EncodeFixed64 seq"
    "drop 8 b = EncodeFixed32 (of_nat (length ops)) @ concat (map encode_op ops)"
  using assms by (simp_all add: represents_def WB_Sequence_def WB_Count_def kHeader_def)

lemma SetCount_represents:
  "represents b seq ops \<Longrightarrow> WB_SetCount b n = EncodeFixed64 seq @ EncodeFixed32 n @ concat (map encode_op ops)"
  by (simp add: WB_SetCount_def represents_simps)

lemma represents_new: "represents new_WriteBatch 0 []"
  by (simp add: represents_def new_WriteBatch_def WriteBatch_Clear_def kHeader_def EncodeFixed32.simps
      EncodeFixed64.simps numeral_eq_Suc)

lemma Put_append: "PutLengthPrefixedSlice (x # xs) v = x # xs @ lps v"
  using PutLengthPrefixedSlice_append [of "x # xs" v] by simp

lemma Put_append2: "PutLengthPrefixedSlice (rep @ x # xs) v = rep @ x # xs @ lps v"
  using PutLengthPrefixedSlice_append [of "rep @ x # xs" v] by simp

lemma WriteBatch_Put_eq: "WriteBatch_Put b k v = WB_SetCount b (WB_Count b + 1) @ encode_op (Put_op k v)"
  by (simp add: WriteBatch_Put_def Let_def Put_append2)

lemma WriteBatch_Delete_eq: "WriteBatch_Delete b k = WB_SetCount b (WB_Count b + 1) @ encode_op (Delete_op k)"
  by (simp add: WriteBatch_Delete_def Let_def Put_append2)

lemma represents_snoc:
  assumes "represents b seq ops" "wf_op op"
  shows "represents (WB_SetCount b (WB_Count b + 1) @ encode_op op) seq (ops @ [op])"
  using assms represents_simps(2) [OF assms(1)] SetCount_represents [OF assms(1)]
  by (simp add: represents_def add.commute)

lemma represents_Append:
  assumes "represents b seq ops" "represents b' seq' ops'"
  shows "represents (WriteBatch_Append b b') seq (ops @ ops')"
proof -
  have "WriteBatch_Append b b' = EncodeFixed64 seq @ EncodeFixed32 (of_nat (length (ops @ ops'))) @
      concat (map encode_op (ops @ ops'))"
    by (simp add: WriteBatch_Append_def WB_Append_def represents_simps [OF assms(1)]
        represents_simps [OF assms(2)] SetCount_represents [OF assms(1)])
  then show ?thesis using assms by (auto simp: represents_def)
qed

lemma represents_SetSequence: "represents b seq ops \<Longrightarrow> represents (WB_SetSequence b seq') seq' ops"
  by (simp add: WB_SetSequence_def represents_simps) (simp add: represents_def)

lemma Iterate_loop_Nil: "Iterate_loop h [] n st = (Inr n, st)"
  by (simp add: Iterate_loop.simps)

lemma Iterate_loop_op:
  "wf_op op \<Longrightarrow> Iterate_loop h (encode_op op @ rest) n st = Iterate_loop h rest (n + 1) (apply_op h op st)"
  by (cases op) (simp_all add: Iterate_loop.simps [of h "_ # _"] Let_def)

lemma Iterate_loop_ops:
  "\<forall>op\<in>set ops. wf_op op \<Longrightarrow>
     Iterate_loop h (concat (map encode_op ops)) n st = (Inr (n + of_nat (length ops)), fold (apply_op h) ops st)"
  by (induction ops arbitrary: n st) (simp_all add: Iterate_loop_Nil Iterate_loop_op add.commute add.left_commute)

lemma Iterate_represents:
  assumes "represents b seq ops"
  shows "WriteBatch_Iterate h b st = (Status_OK, fold (apply_op h) ops st)"
  using assms represents_simps [OF assms]
  by (simp add: WriteBatch_Iterate_def represents_def [of b] Iterate_loop_ops not_less)

subsection \<open>Truncated batches\<close>

lemma encode_op_nonempty [simp]: "encode_op op \<noteq> []"
  by (cases op) simp_all

text \<open>A truncated record is refused; whole records before the cut are counted.\<close>

lemma Iterate_loop_cut_op:
  assumes "wf_op op" "0 < n" "n < length (encode_op op)"
  shows "\<exists>s st'. Iterate_loop h (take n (encode_op op)) m st = (Inl s, st') \<and> \<not> ok s"
proof -
  obtain n' where n: "n = Suc n'" using assms(2) by (cases n) auto
  show ?thesis
  proof (cases op)
    case (Put_op k v)
    show ?thesis
    proof (cases "GetLengthPrefixedSlice (take n' (lps k @ lps v))")
      case (Some p)
      then obtain r where p: "p = (k, r)" "r = take (n' - length (lps k)) (lps v)" "length (lps k) \<le> n'"
        using lps.dec_cut [of k n' "lps v"] assms(1) Put_op by (cases p) auto
      moreover have "GetLengthPrefixedSlice r = None"
        using p assms Put_op n lps.dec_truncated [of v "n' - length (lps k)"] by auto
      ultimately show ?thesis using Put_op Some by (simp add: n Iterate_loop.simps [of h "_ # _"])
    qed (use Put_op in \<open>simp add: n Iterate_loop.simps [of h "_ # _"]\<close>)
  next
    case (Delete_op k)
    then have "GetLengthPrefixedSlice (take n' (lps k)) = None"
      using assms n lps.dec_truncated [of k n'] by simp
    then show ?thesis using Delete_op by (simp add: n Iterate_loop.simps [of h "_ # _"])
  qed
qed

lemma Iterate_loop_cut:
  assumes "\<forall>op\<in>set ops. wf_op op" "n < length (concat (map encode_op ops))"
  shows "case Iterate_loop h (take n (concat (map encode_op ops))) m st of
      (Inl s, _) \<Rightarrow> \<not> ok s | (Inr found, _) \<Rightarrow> \<exists>j<length ops. found = m + of_nat j"
  using assms
proof (induction ops arbitrary: n m st)
  case (Cons op ops)
  show ?case
  proof (cases "n < length (encode_op op)")
    case True
    show ?thesis
    proof (cases "n = 0")
      case False
      then show ?thesis using Iterate_loop_cut_op [of op n h m st] True Cons.prems(1) by auto
    qed (auto simp: Iterate_loop_Nil)
  next
    case False
    then have "take n (concat (map encode_op (op # ops))) =
        encode_op op @ take (n - length (encode_op op)) (concat (map encode_op ops))" by simp
    moreover have "\<exists>j<length (op # ops). m + 1 + of_nat i = m + of_nat j" if "i < length ops" for i
      using that by (intro exI [of _ "Suc i"]) simp
    moreover have "n - length (encode_op op) < length (concat (map encode_op ops))"
      using Cons.prems(2) False by (simp add: less_diff_conv2 not_less add.commute)
    ultimately show ?thesis
      using Cons.IH [of "n - length (encode_op op)" "m + 1" "apply_op h op st"] Cons.prems(1)
      by (auto simp: Iterate_loop_op split: prod.splits sum.splits)
  qed
qed simp

lemma of_nat_u32_inj: "i < 2 ^ 32 \<Longrightarrow> j < 2 ^ 32 \<Longrightarrow> (of_nat i :: u32) = of_nat j \<Longrightarrow> i = j"
  using unat_u32 [of i] unat_u32 [of j] by argo

lemma Iterate_cut:
  assumes "represents b seq ops" "length ops < 2 ^ 32" "n < length b"
  shows "\<not> ok (fst (WriteBatch_Iterate h (take n b) st))"
proof (cases "n < kHeader")
  case True
  then show ?thesis by (simp add: WriteBatch_Iterate_def min_less_iff_disj)
next
  case False
  have b: "drop kHeader (take n b) = take (n - kHeader) (concat (map encode_op ops))"
    "WB_Count (take n b) = of_nat (length ops)"
    using assms(1) False represents_simps(3) [OF assms(1)]
    by (simp_all add: drop_take) (simp add: represents_def WB_Count_def kHeader_def)
  have "n - kHeader < length (concat (map encode_op ops))"
    using assms(3) False represents_simps(3,4) [OF assms(1)] by (metis diff_less_mono length_drop not_less)
  moreover have "\<forall>op\<in>set ops. wf_op op" using assms(1) by (simp add: represents_def)
  moreover have "(of_nat j :: u32) \<noteq> of_nat (length ops)" if "j < length ops" for j
    using of_nat_u32_inj [of j "length ops"] that assms(2) by auto
  ultimately show ?thesis
    using Iterate_loop_cut [where n = "n - kHeader" and m = 0 and h = h and st = st and ops = ops] False assms(3)
    by (auto simp: WriteBatch_Iterate_def b split: prod.splits sum.splits)
qed

lemma represents_apply_all:
  "represents b seq ops \<Longrightarrow> \<forall>op\<in>set ops'. wf_op op \<Longrightarrow> represents (apply_all ops' b) seq (ops @ ops')"
proof (induction ops' arbitrary: b ops)
  case (Cons op ops')
  then have "represents (case op of Put_op k v \<Rightarrow> WriteBatch_Put b k v | Delete_op k \<Rightarrow> WriteBatch_Delete b k)
      seq (ops @ [op])"
    using represents_snoc [of b seq ops op]
    by (auto simp: WriteBatch_Put_eq WriteBatch_Delete_eq simp del: encode_op.simps wf_op.simps split: batch_op.splits)
  from Cons.IH [OF this] Cons.prems(2) show ?case by (simp add: apply_all_def)
qed (simp add: apply_all_def)

section \<open>Properties\<close>

text \<open>
  C39. A write batch is the list of its updates: after any sequence of puts and deletes (of slices
  below 4 GiB) on a fresh batch, and after a second batch has been appended and the sequence number
  set, iterating calls the handler once per update in order and returns OK, and the sequence number
  is the one set.
\<close>

theorem write_batch_refines_list:
  assumes "\<forall>op\<in>set ops. wf_op op" "\<forall>op\<in>set ops'. wf_op op"
  shows "let b = WB_SetSequence (WriteBatch_Append (apply_all ops new_WriteBatch) (apply_all ops' new_WriteBatch)) seq
    in WriteBatch_Iterate h b st = (Status_OK, fold (apply_op h) (ops @ ops') st) \<and> WB_Sequence b = seq"
proof -
  have "represents (apply_all ops new_WriteBatch) 0 ops" "represents (apply_all ops' new_WriteBatch) 0 ops'"
    using represents_apply_all [OF represents_new] assms by fastforce+
  from represents_SetSequence [OF represents_Append [OF this], of seq]
  show ?thesis unfolding Let_def by (intro conjI Iterate_represents represents_simps(1))
qed

theorem write_batch_refines_list_witness:
  "fst (WriteBatch_Iterate \<lparr>h_Put = \<lambda>k v xs. (k, v) # xs, h_Delete = \<lambda>k xs. xs\<rparr>
     (WB_SetSequence (WriteBatch_Append (apply_all [Put_op [1] [2]] new_WriteBatch)
       (apply_all [Delete_op [1]] new_WriteBatch)) 7) []) = Status_OK"
  using write_batch_refines_list [of "[Put_op [1] [2]]" "[Delete_op [1]]" 7
      "\<lparr>h_Put = \<lambda>k v xs. (k, v) # xs, h_Delete = \<lambda>k xs. xs\<rparr>" "[]"]
  by (simp add: Let_def)

text \<open>
  A batch that lost its tail is never taken for a smaller one: iterating over any proper prefix
  of a batch's contents ends in an error, whether the cut is in the header, inside an update or
  between two of them.
\<close>

theorem truncated_batch_rejected:
  assumes "\<forall>op\<in>set ops. wf_op op" "length ops < 2 ^ 32" "n < length (apply_all ops new_WriteBatch)"
  shows "\<not> ok (fst (WriteBatch_Iterate h (take n (apply_all ops new_WriteBatch)) st))"
  using Iterate_cut [OF _ assms(2,3)] represents_apply_all [OF represents_new assms(1)] by simp

theorem truncated_batch_rejected_witness:
  "\<not> ok (fst (WriteBatch_Iterate \<lparr>h_Put = \<lambda>k v xs. (k, v) # xs, h_Delete = \<lambda>k xs. xs\<rparr>
     (take 13 (apply_all [Put_op [1] [2]] new_WriteBatch)) []))"
proof -
  have "13 < length (apply_all [Put_op [1] [2]] new_WriteBatch)"
    by (simp add: apply_all_def WriteBatch_Put_eq WB_SetCount_def new_WriteBatch_def WriteBatch_Clear_def
        kHeader_def PutLengthPrefixedSlice_def PutVarint32_def EncodeVarint32_def)
  then show ?thesis by (intro truncated_batch_rejected) simp_all
qed

end
