(* ===== verification/SkipLists.thy ===== *)
theory SkipLists
  imports Randoms
begin

text \<open>
  \<open>db/skiplist.h\<close>: the skip list under the memtable. Nodes live in a heap (a list, an address is an
  index, 0 is \<open>head_\<close>) and carry their array of next pointers, one per level of their height. The
  searches are the code's loops over this heap, which need not end on an arbitrary heap: they are
  partial functions, and the invariant shows that they return. The memory barriers of the pointer
  accessors are not modelled: this is the list as its one writer sees it.
\<close>

section \<open>Definitions\<close>

record 'k Node =
  node_key :: 'k
  node_next :: "nat option list"

record 'k SkipList =
  sl_compare :: "'k \<Rightarrow> 'k \<Rightarrow> int"
  sl_nodes :: "'k Node list"
  sl_max_height :: nat
  sl_rnd :: u32

definition kMaxHeight :: nat where
  "kMaxHeight = 12"

definition kBranching :: u32 where
  "kBranching = 4"

definition GetMaxHeight :: "'k SkipList \<Rightarrow> nat" where
  "GetMaxHeight sl = sl_max_height sl"

definition Node_Next :: "'k Node list \<Rightarrow> nat \<Rightarrow> nat \<Rightarrow> nat option" where
  "Node_Next ns x n = node_next (ns ! x) ! n"

definition Node_SetNext :: "'k Node list \<Rightarrow> nat \<Rightarrow> nat \<Rightarrow> nat option \<Rightarrow> 'k Node list" where
  "Node_SetNext ns x n y = ns[x := (ns ! x)\<lparr>node_next := (node_next (ns ! x))[n := y]\<rparr>]"

definition NewNode :: "'k Node list \<Rightarrow> 'k \<Rightarrow> nat \<Rightarrow> nat \<times> 'k Node list" where
  "NewNode ns key height = (length ns, ns @ [\<lparr>node_key = key, node_next = replicate height None\<rparr>])"

definition sl_Equal :: "'k SkipList \<Rightarrow> 'k \<Rightarrow> 'k \<Rightarrow> bool" where
  "sl_Equal sl a b \<longleftrightarrow> sl_compare sl a b = 0"

text \<open>The constructor; \<open>k0\<close> is the key of the head node, for which any will do.\<close>

definition new_SkipList :: "('k \<Rightarrow> 'k \<Rightarrow> int) \<Rightarrow> 'k \<Rightarrow> 'k SkipList" where
  "new_SkipList cmp k0 =
     (let (head, ns) = NewNode [] k0 kMaxHeight;
          ns = foldl (\<lambda>ns i. Node_SetNext ns head i None) ns [0..<kMaxHeight]
      in \<lparr>sl_compare = cmp, sl_nodes = ns, sl_max_height = 1, sl_rnd = new_Random 0xdeadbeef\<rparr>)"

function RandomHeight_loop :: "u32 \<Rightarrow> nat \<Rightarrow> nat \<times> u32" where
  "RandomHeight_loop rnd height =
     (if height < kMaxHeight then
        (let rnd = Random_Next rnd in
         if rnd mod kBranching = 0 then RandomHeight_loop rnd (height + 1) else (height, rnd))
      else (height, rnd))"
  by pat_completeness auto
termination
  by (relation "measure (\<lambda>(r, h). kMaxHeight - h)") auto

declare RandomHeight_loop.simps [simp del]

definition RandomHeight :: "u32 \<Rightarrow> nat \<times> u32" where
  "RandomHeight rnd = RandomHeight_loop rnd 1"

definition KeyIsAfterNode :: "'k SkipList \<Rightarrow> 'k \<Rightarrow> nat option \<Rightarrow> bool" where
  "KeyIsAfterNode sl key n \<longleftrightarrow>
     (case n of None \<Rightarrow> False | Some n \<Rightarrow> sl_compare sl (node_key (sl_nodes sl ! n)) key < 0)"

text \<open>The search also returns the array \<open>prev\<close>; callers that pass \<open>nullptr\<close> ignore it.\<close>

partial_function (option) FindGreaterOrEqual_loop ::
  "'k SkipList \<Rightarrow> 'k \<Rightarrow> nat \<Rightarrow> nat \<Rightarrow> nat list \<Rightarrow> (nat option \<times> nat list) option" where
  "FindGreaterOrEqual_loop sl key x level prev =
     (let next = Node_Next (sl_nodes sl) x level in
      if KeyIsAfterNode sl key next then FindGreaterOrEqual_loop sl key (the next) level prev
      else
        (let prev = prev[level := x] in
         if level = 0 then Some (next, prev)
         else FindGreaterOrEqual_loop sl key x (level - 1) prev))"

definition FindGreaterOrEqual :: "'k SkipList \<Rightarrow> 'k \<Rightarrow> nat list \<Rightarrow> (nat option \<times> nat list) option" where
  "FindGreaterOrEqual sl key prev = FindGreaterOrEqual_loop sl key 0 (GetMaxHeight sl - 1) prev"

partial_function (option) FindLessThan_loop :: "'k SkipList \<Rightarrow> 'k \<Rightarrow> nat \<Rightarrow> nat \<Rightarrow> nat option" where
  "FindLessThan_loop sl key x level =
     (let next = Node_Next (sl_nodes sl) x level in
      if next = None \<or> sl_compare sl (node_key (sl_nodes sl ! the next)) key \<ge> 0 then
        (if level = 0 then Some x else FindLessThan_loop sl key x (level - 1))
      else FindLessThan_loop sl key (the next) level)"

definition FindLessThan :: "'k SkipList \<Rightarrow> 'k \<Rightarrow> nat option" where
  "FindLessThan sl key = FindLessThan_loop sl key 0 (GetMaxHeight sl - 1)"

partial_function (option) FindLast_loop :: "'k SkipList \<Rightarrow> nat \<Rightarrow> nat \<Rightarrow> nat option" where
  "FindLast_loop sl x level =
     (let next = Node_Next (sl_nodes sl) x level in
      if next = None then (if level = 0 then Some x else FindLast_loop sl x (level - 1))
      else FindLast_loop sl (the next) level)"

definition FindLast :: "'k SkipList \<Rightarrow> nat option" where
  "FindLast sl = FindLast_loop sl 0 (GetMaxHeight sl - 1)"

text \<open>Insertion: \<open>None\<close> if the search for the position does not return.\<close>

definition link_level :: "nat list \<Rightarrow> nat \<Rightarrow> 'k Node list \<Rightarrow> nat \<Rightarrow> 'k Node list" where
  "link_level prev x ns i =
     (let ns = Node_SetNext ns x i (Node_Next ns (prev ! i) i) in Node_SetNext ns (prev ! i) i (Some x))"

definition sl_Insert :: "'k SkipList \<Rightarrow> 'k \<Rightarrow> 'k SkipList option" where
  "sl_Insert sl key =
     (case FindGreaterOrEqual sl key (replicate kMaxHeight 0) of
        None \<Rightarrow> None
      | Some (_, prev) \<Rightarrow>
          (let (height, rnd) = RandomHeight (sl_rnd sl);
               (prev, max_height) =
                 (if height > GetMaxHeight sl then
                    (foldl (\<lambda>prev i. prev[i := 0]) prev [GetMaxHeight sl..<height], height)
                  else (prev, sl_max_height sl));
               (x, ns) = NewNode (sl_nodes sl) key height;
               ns = foldl (link_level prev x) ns [0..<height]
           in Some (sl\<lparr>sl_nodes := ns, sl_max_height := max_height, sl_rnd := rnd\<rparr>)))"

definition sl_Contains :: "'k SkipList \<Rightarrow> 'k \<Rightarrow> bool option" where
  "sl_Contains sl key =
     (case FindGreaterOrEqual sl key [] of
        None \<Rightarrow> None
      | Some (x, _) \<Rightarrow>
          Some (case x of None \<Rightarrow> False | Some x \<Rightarrow> sl_Equal sl key (node_key (sl_nodes sl ! x))))"

text \<open>The iterator is its current node, \<open>None\<close> for \<open>nullptr\<close>.\<close>

type_synonym sl_Iterator = "nat option"

definition sl_Valid :: "sl_Iterator \<Rightarrow> bool" where
  "sl_Valid it \<longleftrightarrow> it \<noteq> None"

definition sl_key :: "'k SkipList \<Rightarrow> sl_Iterator \<Rightarrow> 'k" where
  "sl_key sl it = node_key (sl_nodes sl ! the it)"

definition sl_Next :: "'k SkipList \<Rightarrow> sl_Iterator \<Rightarrow> sl_Iterator" where
  "sl_Next sl it = Node_Next (sl_nodes sl) (the it) 0"

definition sl_Prev :: "'k SkipList \<Rightarrow> sl_Iterator \<Rightarrow> sl_Iterator option" where
  "sl_Prev sl it =
     (case FindLessThan sl (sl_key sl it) of
        None \<Rightarrow> None | Some x \<Rightarrow> Some (if x = 0 then None else Some x))"

definition sl_Seek :: "'k SkipList \<Rightarrow> 'k \<Rightarrow> sl_Iterator option" where
  "sl_Seek sl target = map_option fst (FindGreaterOrEqual sl target [])"

definition sl_SeekToFirst :: "'k SkipList \<Rightarrow> sl_Iterator" where
  "sl_SeekToFirst sl = Node_Next (sl_nodes sl) 0 0"

definition sl_SeekToLast :: "'k SkipList \<Rightarrow> sl_Iterator option" where
  "sl_SeekToLast sl =
     (case FindLast sl of None \<Rightarrow> None | Some x \<Rightarrow> Some (if x = 0 then None else Some x))"

section \<open>The invariant\<close>

text \<open>
  \<open>linked ns i x ys\<close>: the level-\<open>i\<close> pointers from \<open>x\<close> visit exactly \<open>ys\<close>. The list is well formed on
  the addresses \<open>ps\<close> when each level links the addresses of sufficient height in the order of \<open>ps\<close>
  and the keys increase along \<open>ps\<close>.
\<close>

fun linked :: "'k Node list \<Rightarrow> nat \<Rightarrow> nat \<Rightarrow> nat list \<Rightarrow> bool" where
  "linked ns i x [] \<longleftrightarrow> Node_Next ns x i = None"
| "linked ns i x (y # ys) \<longleftrightarrow> Node_Next ns x i = Some y \<and> linked ns i y ys"

definition height_of :: "'k Node list \<Rightarrow> nat \<Rightarrow> nat" where
  "height_of ns p = length (node_next (ns ! p))"

definition tower :: "'k Node list \<Rightarrow> nat \<Rightarrow> nat list \<Rightarrow> nat list" where
  "tower ns i ps = filter (\<lambda>p. i < height_of ns p) ps"

definition sl_inv :: "'k SkipList \<Rightarrow> nat list \<Rightarrow> bool" where
  "sl_inv sl ps \<longleftrightarrow>
     (let ns = sl_nodes sl in
      0 < length ns \<and> height_of ns 0 = kMaxHeight \<and> 1 \<le> sl_max_height sl \<and> sl_max_height sl \<le> kMaxHeight \<and>
      distinct ps \<and> 0 \<notin> set ps \<and>
      (\<forall>p\<in>set ps. p < length ns \<and> 1 \<le> height_of ns p \<and> height_of ns p \<le> sl_max_height sl) \<and>
      sorted_wrt (\<lambda>p q. sl_compare sl (node_key (ns ! p)) (node_key (ns ! q)) < 0) ps \<and>
      (\<forall>i<kMaxHeight. linked ns i 0 (tower ns i ps)))"

definition sl_keys :: "'k SkipList \<Rightarrow> nat list \<Rightarrow> 'k list" where
  "sl_keys sl ps = map (\<lambda>p. node_key (sl_nodes sl ! p)) ps"

section \<open>Lemmas\<close>

subsection \<open>Walking down the levels\<close>

lemma linked_append: "linked ns i x (ys @ zs) \<Longrightarrow> linked ns i (last (x # ys)) zs"
  by (induction ys arbitrary: x) auto

text \<open>
  All three searches have the same shape; \<open>f\<close> stands for the loop, \<open>adv\<close> for the test that moves on
  along a level, \<open>upd\<close> for what is recorded when a level is left.
\<close>

lemma walk_level:
  assumes f: "\<And>x i s. f x i s = (let next = Node_Next ns x i in
      if next \<noteq> None \<and> adv (the next) then f (the next) i s
      else if i = 0 then Some (fin next x (upd s i x)) else f x (i - 1) (upd s i x))"
    and "linked ns i x (ys @ zs)" "\<forall>y\<in>set ys. adv y" "zs = [] \<or> \<not> adv (hd zs)"
  shows "f x i s = (let y = last (x # ys) in
      if i = 0 then Some (fin (if zs = [] then None else Some (hd zs)) y (upd s i y)) else f y (i - 1) (upd s i y))"
  using assms(2-4)
proof (induction ys arbitrary: x)
  case Nil
  then show ?case by (cases zs) (simp_all add: f [of x] Let_def)
next
  case (Cons y ys)
  then show ?case by (simp add: f [of x] Let_def)
qed

lemma tower_append [simp]: "tower ns i (ps @ qs) = tower ns i ps @ tower ns i qs"
  by (simp add: tower_def)

lemma set_tower: "set (tower ns i ps) \<subseteq> set ps"
  by (auto simp: tower_def)

text \<open>The last node of a level is on the level below.\<close>

lemma tower_below:
  assumes "j \<le> i"
  shows "\<exists>T1 T2. tower ns j A = T1 @ T2 \<and> last (x # T1) = last (x # tower ns i A)"
proof (cases "tower ns i A = []")
  case False
  then have "last (tower ns i A) \<in> set (tower ns j A)"
    using assms last_in_set [OF False] by (auto simp: tower_def)
  then obtain us vs where "tower ns j A = (us @ [last (tower ns i A)]) @ vs" by (auto dest: split_list)
  with False show ?thesis by (intro exI [of _ "us @ [last (tower ns i A)]"] exI [of _ vs]) simp
qed auto

lemma descend:
  assumes f: "\<And>x i s. f x i s = (let next = Node_Next ns x i in
      if next \<noteq> None \<and> adv (the next) then f (the next) i s
      else if i = 0 then Some (fin next x (upd s i x)) else f x (i - 1) (upd s i x))"
    and links: "\<And>j. j \<le> i \<Longrightarrow> linked ns j 0 (tower ns j (A @ B))"
    and adv: "\<forall>a\<in>set A. adv a" "\<forall>b\<in>set B. \<not> adv b"
    and T: "tower ns i A = T1 @ T2"
  shows "f (last (0 # T1)) i s =
    Some (fin (if tower ns 0 B = [] then None else Some (hd (tower ns 0 B))) (last (0 # tower ns 0 A))
      (foldl (\<lambda>s j. upd s j (last (0 # tower ns j A))) s (rev [0..<Suc i])))"
  using links T
proof (induction i arbitrary: s T1 T2)
  case 0
  have "linked ns 0 (last (0 # T1)) (T2 @ tower ns 0 B)"
    using linked_append [of ns 0 0 T1] 0 by simp
  moreover have "\<forall>y\<in>set T2. adv y" using 0(2) adv(1) set_tower [of ns 0 A] by auto
  moreover have "tower ns 0 B = [] \<or> \<not> adv (hd (tower ns 0 B))"
    using adv(2) set_tower [of ns 0 B] hd_in_set by blast
  moreover have "last (last (0 # T1) # T2) = last (0 # tower ns 0 A)" using 0(2) by simp
  ultimately show ?case using walk_level [where f = f and adv = adv and fin = fin and upd = upd, OF f] by (simp add: Let_def)
next
  case (Suc i)
  have "linked ns (Suc i) (last (0 # T1)) (T2 @ tower ns (Suc i) B)"
    using linked_append [of ns "Suc i" 0 T1] Suc.prems(1) [of "Suc i"] Suc.prems(2) by simp
  moreover have "\<forall>y\<in>set T2. adv y" using Suc.prems(2) adv(1) set_tower [of ns "Suc i" A] by auto
  moreover have "tower ns (Suc i) B = [] \<or> \<not> adv (hd (tower ns (Suc i) B))"
    using adv(2) set_tower [of ns "Suc i" B] hd_in_set by blast
  moreover have l: "last (last (0 # T1) # T2) = last (0 # tower ns (Suc i) A)" using Suc.prems(2) by simp
  ultimately have "f (last (0 # T1)) (Suc i) s =
      f (last (0 # tower ns (Suc i) A)) i (upd s (Suc i) (last (0 # tower ns (Suc i) A)))"
    using walk_level [where f = f and adv = adv and fin = fin and upd = upd, OF f, of "Suc i"] by (simp add: Let_def)
  moreover obtain U1 U2 where "tower ns i A = U1 @ U2" "last (0 # U1) = last (0 # tower ns (Suc i) A)"
    using tower_below [of i "Suc i" ns A 0] by auto
  ultimately show ?case
    using Suc.IH [of U1 U2 "upd s (Suc i) (last (0 # tower ns (Suc i) A))"] Suc.prems(1) by simp
qed

subsection \<open>The searches return\<close>

locale key_order =
  fixes cmp :: "'k \<Rightarrow> 'k \<Rightarrow> int"
  assumes cmp_swap: "cmp a b < 0 \<longleftrightarrow> cmp b a > 0"
    and cmp_trans: "cmp a b \<le> 0 \<Longrightarrow> cmp b c \<le> 0 \<Longrightarrow> cmp a c \<le> 0"
begin

lemma cmp_refl: "cmp a a = 0"
  using cmp_swap [of a a] by linarith

lemma less_le_trans: "cmp a b < 0 \<Longrightarrow> cmp b c \<le> 0 \<Longrightarrow> cmp a c < 0"
  using cmp_trans [of a b c] cmp_trans [of b c a] cmp_swap [of a c] cmp_swap [of a b] cmp_swap [of c a]
  by (smt (verit))

lemma le_less_trans: "cmp a b \<le> 0 \<Longrightarrow> cmp b c < 0 \<Longrightarrow> cmp a c < 0"
  using cmp_trans [of a b c] cmp_trans [of c a b] cmp_swap [of a c] cmp_swap [of b c] cmp_swap [of c a]
  by (smt (verit))

end

text \<open>The nodes before a key, and the ones from it on.\<close>

definition before :: "'k SkipList \<Rightarrow> 'k \<Rightarrow> nat \<Rightarrow> bool" where
  "before sl key p \<longleftrightarrow> sl_compare sl (node_key (sl_nodes sl ! p)) key < 0"

abbreviation lower :: "'k SkipList \<Rightarrow> 'k \<Rightarrow> nat list \<Rightarrow> nat list" where
  "lower sl key ps \<equiv> takeWhile (before sl key) ps"

abbreviation upper :: "'k SkipList \<Rightarrow> 'k \<Rightarrow> nat list \<Rightarrow> nat list" where
  "upper sl key ps \<equiv> dropWhile (before sl key) ps"

lemma upper_not_before:
  assumes "key_order (sl_compare sl)" "sl_inv sl ps"
  shows "\<forall>p\<in>set (upper sl key ps). \<not> before sl key p"
proof (cases "upper sl key ps")
  case (Cons q qs)
  then have q: "\<not> before sl key q" by (metis hd_dropWhile list.distinct(1) list.sel(1))
  have "sorted_wrt (\<lambda>p q. sl_compare sl (node_key (sl_nodes sl ! p)) (node_key (sl_nodes sl ! q)) < 0) (q # qs)"
    using assms(2) Cons by (metis sl_inv_def sorted_wrt_append takeWhile_dropWhile_id)
  then show ?thesis
    using q key_order.less_le_trans [OF assms(1)] Cons by (auto simp: before_def)
qed (simp del: dropWhile_eq_Nil_conv)

lemma tower_0: "sl_inv sl ps \<Longrightarrow> set qs \<subseteq> set ps \<Longrightarrow> tower (sl_nodes sl) 0 qs = qs"
  unfolding tower_def by (rule filter_True) (auto simp: sl_inv_def Let_def dest!: subsetD)

lemma prev_foldl:
  "\<forall>j\<in>set js. j < length prev \<Longrightarrow> distinct js \<Longrightarrow>
     length (foldl (\<lambda>s j. s[j := g j]) prev js) = length prev \<and>
     (\<forall>j<length prev. foldl (\<lambda>s j. s[j := g j]) prev js ! j = (if j \<in> set js then g j else prev ! j))"
proof (induction js arbitrary: prev)
  case (Cons j js)
  then show ?case using Cons.IH [of "prev[j := g j]"] by (auto simp: nth_list_update)
qed simp

lemma FindGreaterOrEqual_result:
  assumes "key_order (sl_compare sl)" "sl_inv sl ps"
  shows "FindGreaterOrEqual sl key prev =
    Some (case upper sl key ps of [] \<Rightarrow> None | q # _ \<Rightarrow> Some q,
      foldl (\<lambda>s j. s[j := last (0 # tower (sl_nodes sl) j (lower sl key ps))]) prev (rev [0..<sl_max_height sl]))"
proof -
  let ?ns = "sl_nodes sl" and ?A = "lower sl key ps" and ?B = "upper sl key ps"
  have h: "Suc (sl_max_height sl - 1) = sl_max_height sl" "sl_max_height sl \<le> kMaxHeight"
    using assms(2) by (auto simp: sl_inv_def Let_def)
  have links: "linked ?ns j 0 (tower ?ns j (?A @ ?B))" if "j \<le> sl_max_height sl - 1" for j
    using assms(2) that h by (auto simp: sl_inv_def Let_def)
  have f: "FindGreaterOrEqual_loop sl key x i s = (let next = Node_Next ?ns x i in
      if next \<noteq> None \<and> before sl key (the next) then FindGreaterOrEqual_loop sl key (the next) i s
      else if i = 0 then Some ((\<lambda>n x s. (n, s)) next x (s[i := x]))
      else FindGreaterOrEqual_loop sl key x (i - 1) (s[i := x]))" for x i s
    by (subst FindGreaterOrEqual_loop.simps)
      (auto simp: Let_def KeyIsAfterNode_def before_def split: option.splits)
  have B: "tower ?ns 0 ?B = ?B" by (rule tower_0 [OF assms(2)]) (auto dest: set_dropWhileD)
  have "FindGreaterOrEqual_loop sl key (last (0 # [])) (sl_max_height sl - 1) prev =
    Some ((\<lambda>n x s. (n, s)) (if tower ?ns 0 ?B = [] then None else Some (hd (tower ?ns 0 ?B))) (last (0 # tower ?ns 0 ?A))
      (foldl (\<lambda>s j. s[j := last (0 # tower ?ns j ?A)]) prev (rev [0..<Suc (sl_max_height sl - 1)])))"
    using f links
    by (rule descend [where adv = "before sl key" and upd = "\<lambda>s j x. s[j := x]" and fin = "\<lambda>n x s. (n, s)"])
      (use upper_not_before [OF assms] in \<open>auto dest: set_takeWhileD\<close>)
  from this [unfolded B] show ?thesis
    using h by (cases ?B) (simp_all add: FindGreaterOrEqual_def GetMaxHeight_def del: dropWhile_eq_Nil_conv)
qed

lemma max_height_simps:
  assumes "sl_inv sl ps"
  shows "Suc (sl_max_height sl - 1) = sl_max_height sl" "sl_max_height sl \<le> kMaxHeight"
    "j \<le> sl_max_height sl - 1 \<Longrightarrow> linked (sl_nodes sl) j 0 (tower (sl_nodes sl) j ps)"
  using assms by (auto simp: sl_inv_def Let_def)

lemma FindLessThan_result:
  assumes "key_order (sl_compare sl)" "sl_inv sl ps"
  shows "FindLessThan sl key = Some (last (0 # lower sl key ps))"
proof -
  let ?ns = "sl_nodes sl" and ?A = "lower sl key ps" and ?B = "upper sl key ps"
  define f where "f x i (s :: unit) = FindLessThan_loop sl key x i" for x i s
  have f: "f x i s = (let next = Node_Next ?ns x i in
      if next \<noteq> None \<and> before sl key (the next) then f (the next) i s
      else if i = 0 then Some ((\<lambda>n x s. x) next x ((\<lambda>s i x. s) s i x)) else f x (i - 1) ((\<lambda>s i x. s) s i x))" for x i s
    unfolding f_def by (subst FindLessThan_loop.simps) (auto simp: Let_def before_def)
  have links: "linked ?ns j 0 (tower ?ns j (?A @ ?B))" if "j \<le> sl_max_height sl - 1" for j
    using max_height_simps(3) [OF assms(2) that] by simp
  have "f (last (0 # [])) (sl_max_height sl - 1) () = Some (last (0 # tower ?ns 0 ?A))"
    using f links
    by (rule descend [where adv = "before sl key" and upd = "\<lambda>s j x. s" and fin = "\<lambda>n x s. x" and B = ?B])
      (use upper_not_before [OF assms] in \<open>auto dest: set_takeWhileD\<close>)
  moreover have "tower ?ns 0 ?A = ?A" by (rule tower_0 [OF assms(2)]) (auto dest: set_takeWhileD)
  ultimately show ?thesis by (simp add: FindLessThan_def GetMaxHeight_def f_def)
qed

lemma FindLast_result:
  assumes "sl_inv sl ps"
  shows "FindLast sl = Some (last (0 # ps))"
proof -
  let ?ns = "sl_nodes sl"
  define f where "f x i (s :: unit) = FindLast_loop sl x i" for x i s
  have f: "f x i s = (let next = Node_Next ?ns x i in
      if next \<noteq> None \<and> (\<lambda>_. True) (the next) then f (the next) i s
      else if i = 0 then Some ((\<lambda>n x s. x) next x ((\<lambda>s i x. s) s i x)) else f x (i - 1) ((\<lambda>s i x. s) s i x))" for x i s
    unfolding f_def by (subst FindLast_loop.simps) (auto simp: Let_def)
  have links: "linked ?ns j 0 (tower ?ns j (ps @ []))" if "j \<le> sl_max_height sl - 1" for j
    using max_height_simps(3) [OF assms that] by simp
  have "f (last (0 # [])) (sl_max_height sl - 1) () = Some (last (0 # tower ?ns 0 ps))"
    using f links
    by (rule descend [where adv = "\<lambda>_. True" and upd = "\<lambda>s j x. s" and fin = "\<lambda>n x s. x" and B = "[]"]) simp_all
  then show ?thesis using tower_0 [OF assms, of ps] by (simp add: FindLast_def GetMaxHeight_def f_def)
qed

subsection \<open>Insertion\<close>

lemma RandomHeight_loop_range:
  "h \<le> kMaxHeight \<Longrightarrow> h \<le> fst (RandomHeight_loop r h) \<and> fst (RandomHeight_loop r h) \<le> kMaxHeight"
proof (induction r h rule: RandomHeight_loop.induct)
  case (1 r h)
  show ?case
  proof (cases "h < kMaxHeight \<and> Random_Next r mod kBranching = 0")
    case True
    then have "RandomHeight_loop r h = RandomHeight_loop (Random_Next r) (h + 1)"
      by (simp only: RandomHeight_loop.simps [of r h] Let_def if_True simp_thms)
    then show ?thesis using "1.IH" [OF _ refl] True by simp
  next
    case False
    then have "\<not> h < kMaxHeight \<or> h < kMaxHeight \<and> \<not> Random_Next r mod kBranching = 0" by argo
    then have "fst (RandomHeight_loop r h) = h"
      by (elim disjE conjE) (simp_all only: RandomHeight_loop.simps [of r h] Let_def if_True if_False fst_conv)
    then show ?thesis using "1.prems" by simp
  qed
qed

lemma RandomHeight_range: "1 \<le> fst (RandomHeight r) \<and> fst (RandomHeight r) \<le> kMaxHeight"
  using RandomHeight_loop_range [of 1 r] by (simp add: RandomHeight_def kMaxHeight_def)

lemma SetNext_simps:
  assumes "x < length ns" "i < height_of ns x"
  shows "length (Node_SetNext ns x i y) = length ns" "height_of (Node_SetNext ns x i y) z = height_of ns z"
    "node_key (Node_SetNext ns x i y ! z) = node_key (ns ! z)"
    "Node_Next (Node_SetNext ns x i y) z j = (if z = x \<and> j = i then y else Node_Next ns z j)"
  using assms by (auto simp: Node_SetNext_def height_of_def Node_Next_def nth_list_update)

lemma link_level_simps:
  assumes "n < length ns" "i < height_of ns n" "P ! i < length ns" "i < height_of ns (P ! i)" "P ! i \<noteq> n"
  shows "length (link_level P n ns i) = length ns" "height_of (link_level P n ns i) z = height_of ns z"
    "node_key (link_level P n ns i ! z) = node_key (ns ! z)"
    "Node_Next (link_level P n ns i) z j =
       (if j = i \<and> z = n then Node_Next ns (P ! i) i else if j = i \<and> z = P ! i then Some n else Node_Next ns z j)"
  using assms by (simp_all add: link_level_def Let_def SetNext_simps)

lemma link_levels:
  assumes "n < length ns" "\<forall>i<h. i < height_of ns n \<and> P ! i < length ns \<and> i < height_of ns (P ! i) \<and> P ! i \<noteq> n"
  shows "let ns' = foldl (link_level P n) ns [0..<h] in
    length ns' = length ns \<and> (\<forall>z. height_of ns' z = height_of ns z \<and> node_key (ns' ! z) = node_key (ns ! z)) \<and>
    (\<forall>z j. Node_Next ns' z j =
       (if j < h \<and> z = n then Node_Next ns (P ! j) j else if j < h \<and> z = P ! j then Some n else Node_Next ns z j))"
  using assms(2)
proof (induction h)
  case (Suc h)
  define ns1 where "ns1 = foldl (link_level P n) ns [0..<h]"
  have IH: "length ns1 = length ns" "height_of ns1 z = height_of ns z" "node_key (ns1 ! z) = node_key (ns ! z)"
    "Node_Next ns1 z j =
       (if j < h \<and> z = n then Node_Next ns (P ! j) j else if j < h \<and> z = P ! j then Some n else Node_Next ns z j)" for z j
    using Suc unfolding ns1_def Let_def by auto
  have h: "h < height_of ns n" "P ! h < length ns" "h < height_of ns (P ! h)" "P ! h \<noteq> n"
    using Suc.prems by simp_all
  have eq: "foldl (link_level P n) ns [0..<Suc h] = link_level P n ns1 h" by (simp add: ns1_def)
  note l = link_level_simps [of n ns1 h P, unfolded IH(1,2), OF assms(1) h]
  show ?case unfolding eq Let_def l IH using h(4) by (auto simp: less_Suc_eq)
qed simp

lemma linked_cong:
  "\<forall>z\<in>set (x # ys). Node_Next ns' z i = Node_Next ns z i \<Longrightarrow> linked ns' i x ys = linked ns i x ys"
  by (induction ys arbitrary: x) auto

lemma linked_insert:
  assumes "linked ns i x (ys @ zs)" "distinct (x # ys @ zs)" "n \<notin> set (x # ys @ zs)"
    "\<forall>z\<in>set (x # ys @ zs). z \<noteq> last (x # ys) \<longrightarrow> Node_Next ns' z i = Node_Next ns z i"
    "Node_Next ns' (last (x # ys)) i = Some n" "Node_Next ns' n i = Node_Next ns (last (x # ys)) i"
  shows "linked ns' i x (ys @ n # zs)"
  using assms
proof (induction ys arbitrary: x)
  case Nil
  show ?case
  proof (cases zs)
    case (Cons z zs')
    then have "linked ns' i z zs' = linked ns i z zs'" using Nil by (intro linked_cong) auto
    with Nil Cons show ?thesis by simp
  qed (use Nil in simp)
next
  case (Cons y ys)
  have "x \<noteq> last (y # ys)" using Cons.prems(2) last_in_set [of "y # ys"] by auto
  then have "Node_Next ns' x i = Some y" using Cons.prems by simp
  moreover have "linked ns' i y (ys @ n # zs)" using Cons.prems by (intro Cons.IH) auto
  ultimately show ?case by simp
qed

text \<open>After the search and the raising of the list, \<open>prev\<close> holds the predecessor of every level.\<close>

lemma tower_high: "sl_inv sl ps \<Longrightarrow> sl_max_height sl \<le> j \<Longrightarrow> set A \<subseteq> set ps \<Longrightarrow> tower (sl_nodes sl) j A = []"
  unfolding tower_def filter_empty_conv sl_inv_def Let_def by (meson leD le_trans less_le_trans subsetD)

lemma prev_complete:
  assumes "sl_inv sl ps" "h \<le> kMaxHeight" "i < h" "set A \<subseteq> set ps"
  defines "P \<equiv> foldl (\<lambda>s j. s[j := last (0 # tower (sl_nodes sl) j A)]) (replicate kMaxHeight 0) (rev [0..<sl_max_height sl])"
  shows "(if h > sl_max_height sl then foldl (\<lambda>prev i. prev[i := 0]) P [sl_max_height sl..<h] else P) ! i =
    last (0 # tower (sl_nodes sl) i A)"
proof -
  have m: "sl_max_height sl \<le> kMaxHeight" using assms(1) by (simp add: sl_inv_def Let_def)
  have P: "length P = kMaxHeight" "j < kMaxHeight \<Longrightarrow> P ! j = (if j < sl_max_height sl then last (0 # tower (sl_nodes sl) j A) else 0)" for j
    using prev_foldl [of "rev [0..<sl_max_height sl]" "replicate kMaxHeight 0" "\<lambda>j. last (0 # tower (sl_nodes sl) j A)"] m
    by (auto simp: P_def)
  have "foldl (\<lambda>prev i. prev[i := 0]) P [sl_max_height sl..<h] ! i = (if i \<in> set [sl_max_height sl..<h] then 0 else P ! i)"
    using prev_foldl [of "[sl_max_height sl..<h]" P "\<lambda>_. 0"] P(1) assms(2,3) by auto
  then show ?thesis using P(2) [of i] assms(2,3) tower_high [OF assms(1) _ assms(4), of i] by auto
qed

lemma Insert_eq:
  assumes "key_order (sl_compare sl)" "sl_inv sl ps"
  obtains P h r where "sl_Insert sl key =
      Some (sl\<lparr>sl_nodes := foldl (link_level P (length (sl_nodes sl)))
          (sl_nodes sl @ [\<lparr>node_key = key, node_next = replicate h None\<rparr>]) [0..<h],
        sl_max_height := max h (sl_max_height sl), sl_rnd := r\<rparr>)"
    "1 \<le> h" "h \<le> kMaxHeight" "\<forall>i<h. P ! i = last (0 # tower (sl_nodes sl) i (lower sl key ps))"
proof -
  obtain h r where hr: "RandomHeight (sl_rnd sl) = (h, r)" by fastforce
  then have h: "1 \<le> h" "h \<le> kMaxHeight" using RandomHeight_range [of "sl_rnd sl"] by auto
  define P where "P = (let P = foldl (\<lambda>s j. s[j := last (0 # tower (sl_nodes sl) j (lower sl key ps))])
      (replicate kMaxHeight 0) (rev [0..<sl_max_height sl])
    in if h > sl_max_height sl then foldl (\<lambda>prev i. prev[i := 0]) P [sl_max_height sl..<h] else P)"
  have "\<forall>i<h. P ! i = last (0 # tower (sl_nodes sl) i (lower sl key ps))"
  proof (intro allI impI)
    fix i assume i: "i < h"
    have "set (lower sl key ps) \<subseteq> set ps" by (auto dest: set_takeWhileD)
    from prev_complete [OF assms(2) h(2) i this]
    show "P ! i = last (0 # tower (sl_nodes sl) i (lower sl key ps))" by (simp only: P_def Let_def)
  qed
  moreover have "sl_Insert sl key =
      Some (sl\<lparr>sl_nodes := foldl (link_level P (length (sl_nodes sl)))
          (sl_nodes sl @ [\<lparr>node_key = key, node_next = replicate h None\<rparr>]) [0..<h],
        sl_max_height := max h (sl_max_height sl), sl_rnd := r\<rparr>)"
    by (simp add: sl_Insert_def FindGreaterOrEqual_result [OF assms] hr Let_def NewNode_def P_def GetMaxHeight_def max_def)
  ultimately show ?thesis using that h by blast
qed

lemma node_in_heap: "p < length ns \<Longrightarrow> (ns @ [x]) ! p = ns ! p"
  by (simp add: nth_append)

lemma prev_in_heap:
  assumes "sl_inv sl ps" "set A \<subseteq> set ps" "i < kMaxHeight"
  shows "last (0 # tower (sl_nodes sl) i A) < length (sl_nodes sl)"
    "i < height_of (sl_nodes sl) (last (0 # tower (sl_nodes sl) i A))"
proof -
  let ?y = "last (0 # tower (sl_nodes sl) i A)"
  have "?y = 0 \<or> ?y \<in> set (tower (sl_nodes sl) i A)" using last_in_set [of "tower (sl_nodes sl) i A"] by auto
  then show "?y < length (sl_nodes sl)" "i < height_of (sl_nodes sl) ?y"
    using assms by (auto simp: sl_inv_def Let_def tower_def dest!: subsetD)
qed

text \<open>The heap after an insertion at address \<open>n\<close>, between \<open>A\<close> and \<open>B\<close>.\<close>

lemma Insert_heap:
  fixes sl :: "'k SkipList" and key :: 'k
  assumes inv: "sl_inv sl (A @ B)" and h: "1 \<le> h" "h \<le> kMaxHeight"
    and P: "\<forall>i<h. P ! i = last (0 # tower (sl_nodes sl) i A)"
  defines "ns \<equiv> sl_nodes sl" and "n \<equiv> length (sl_nodes sl)"
  defines "ns' \<equiv> foldl (link_level P n) (ns @ [\<lparr>node_key = key, node_next = replicate h None\<rparr>]) [0..<h]"
  shows "length ns' = Suc n" "height_of ns' n = h" "node_key (ns' ! n) = key"
    "p < n \<Longrightarrow> height_of ns' p = height_of ns p" "p < n \<Longrightarrow> node_key (ns' ! p) = node_key (ns ! p)"
    "i < kMaxHeight \<Longrightarrow> linked ns' i 0 (tower ns i A @ (if i < h then [n] else []) @ tower ns i B)"
proof -
  let ?ns1 = "ns @ [\<lparr>node_key = key, node_next = replicate h None\<rparr>]"
  have old: "height_of ?ns1 p = height_of ns p" "node_key (?ns1 ! p) = node_key (ns ! p)"
    "Node_Next ?ns1 p j = Node_Next ns p j" if "p < n" for p j
    using that by (simp_all add: height_of_def Node_Next_def nth_append n_def ns_def)
  have new: "height_of ?ns1 n = h" "node_key (?ns1 ! n) = key"
    by (simp_all add: height_of_def n_def ns_def)
  have pi: "P ! i < n \<and> i < height_of ns (P ! i)" if "i < h" for i
    using prev_in_heap [OF inv, of A i] P that h by (simp add: ns_def n_def)
  then have "\<forall>i<h. i < height_of ?ns1 n \<and> P ! i < length ?ns1 \<and> i < height_of ?ns1 (P ! i) \<and> P ! i \<noteq> n"
    using old(1) new(1) by (fastforce simp: n_def ns_def)
  from link_levels [OF _ this] have l: "length ns' = length ?ns1"
    "height_of ns' z = height_of ?ns1 z" "node_key (ns' ! z) = node_key (?ns1 ! z)"
    "Node_Next ns' z j = (if j < h \<and> z = n then Node_Next ?ns1 (P ! j) j
      else if j < h \<and> z = P ! j then Some n else Node_Next ?ns1 z j)" for z j
    unfolding ns'_def [symmetric] Let_def by (auto simp: n_def ns_def)
  show "length ns' = Suc n" "height_of ns' n = h" "node_key (ns' ! n) = key"
    using l new by (simp_all add: n_def ns_def)
  show "p < n \<Longrightarrow> height_of ns' p = height_of ns p" "p < n \<Longrightarrow> node_key (ns' ! p) = node_key (ns ! p)"
    using l old by simp_all
  assume i: "i < kMaxHeight"
  let ?T = "tower ns i A @ tower ns i B"
  have T: "linked ns i 0 ?T" "distinct (0 # ?T)" "\<forall>z\<in>set (0 # ?T). z < n"
    using inv i by (auto simp: sl_inv_def Let_def ns_def n_def tower_def)
  show "linked ns' i 0 (tower ns i A @ (if i < h then [n] else []) @ tower ns i B)"
  proof (cases "i < h")
    case True
    have y: "P ! i = last (0 # tower ns i A)" using P True by (simp add: ns_def)
    have "linked ns' i 0 (tower ns i A @ n # tower ns i B)"
    proof (rule linked_insert [OF T(1,2)])
      show "n \<notin> set (0 # ?T)" using T(3) by blast
      show "\<forall>z\<in>set (0 # ?T). z \<noteq> last (0 # tower ns i A) \<longrightarrow> Node_Next ns' z i = Node_Next ns z i"
        using T(3) l(4) old(3) y by fastforce
      show "Node_Next ns' (last (0 # tower ns i A)) i = Some n"
        using l(4) [of "P ! i" i] True pi [OF True] y by simp
      show "Node_Next ns' n i = Node_Next ns (last (0 # tower ns i A)) i"
        using l(4) [of n i] True pi [OF True] y old(3) by simp
    qed
    with True show ?thesis by simp
  next
    case False
    then have "linked ns' i 0 ?T = linked ns i 0 ?T"
      using T(3) l(4) old(3) by (intro linked_cong) fastforce
    with False T(1) show ?thesis by simp
  qed
qed

lemma sorted_insert:
  assumes ord: "key_order (sl_compare sl)" and inv: "sl_inv sl ps"
    and fresh: "\<forall>p\<in>set ps. sl_compare sl (node_key (sl_nodes sl ! p)) key \<noteq> 0"
  shows "sorted_wrt (\<lambda>a b. sl_compare sl a b < 0) (sl_keys sl (lower sl key ps) @ key # sl_keys sl (upper sl key ps))"
proof -
  let ?le = "\<lambda>p q. sl_compare sl (node_key (sl_nodes sl ! p)) (node_key (sl_nodes sl ! q)) < 0"
  have "sorted_wrt ?le (lower sl key ps @ upper sl key ps)" using inv by (simp add: sl_inv_def Let_def)
  then have "sorted_wrt ?le (lower sl key ps)" "sorted_wrt ?le (upper sl key ps)"
    "\<forall>x\<in>set (lower sl key ps). \<forall>y\<in>set (upper sl key ps). ?le x y"
    unfolding sorted_wrt_append by blast+
  moreover have "sl_compare sl (node_key (sl_nodes sl ! p)) key < 0" if "p \<in> set (lower sl key ps)" for p
    using that by (auto simp: before_def dest: set_takeWhileD)
  moreover have "sl_compare sl key (node_key (sl_nodes sl ! p)) < 0" if "p \<in> set (upper sl key ps)" for p
    using that fresh upper_not_before [OF ord inv, of key] key_order.cmp_swap [OF ord, of key]
    by (metis before_def linorder_neqE_linordered_idom set_dropWhileD)
  ultimately show ?thesis
    by (auto simp: sl_keys_def sorted_wrt_append sorted_wrt_map)
qed

lemma Insert_inv:
  assumes ord: "key_order (sl_compare sl)" and inv: "sl_inv sl ps"
    and fresh: "\<forall>p\<in>set ps. sl_compare sl (node_key (sl_nodes sl ! p)) key \<noteq> 0"
  obtains sl' where "sl_Insert sl key = Some sl'" "sl_compare sl' = sl_compare sl"
    "sl_inv sl' (lower sl key ps @ length (sl_nodes sl) # upper sl key ps)"
    "sl_keys sl' (lower sl key ps @ length (sl_nodes sl) # upper sl key ps) =
      sl_keys sl (lower sl key ps) @ key # sl_keys sl (upper sl key ps)"
proof -
  let ?A = "lower sl key ps" and ?B = "upper sl key ps" and ?n = "length (sl_nodes sl)" and ?ns = "sl_nodes sl"
  obtain P h r where I: "sl_Insert sl key = Some (sl\<lparr>sl_nodes := foldl (link_level P ?n)
          (?ns @ [\<lparr>node_key = key, node_next = replicate h None\<rparr>]) [0..<h],
        sl_max_height := max h (sl_max_height sl), sl_rnd := r\<rparr>)"
    and h: "1 \<le> h" "h \<le> kMaxHeight" and P: "\<forall>i<h. P ! i = last (0 # tower ?ns i ?A)"
    by (rule Insert_eq [OF ord inv])
  define ns' where "ns' = foldl (link_level P ?n) (?ns @ [\<lparr>node_key = key, node_next = replicate h None\<rparr>]) [0..<h]"
  define sl' where "sl' = sl\<lparr>sl_nodes := ns', sl_max_height := max h (sl_max_height sl), sl_rnd := r\<rparr>"
  have inv': "sl_inv sl (?A @ ?B)" using inv by simp
  note heap = Insert_heap [OF inv' h P, where key = key, folded ns'_def]
  have ps: "\<forall>p\<in>set ps. p < ?n \<and> p \<noteq> 0 \<and> 1 \<le> height_of ?ns p \<and> height_of ?ns p \<le> sl_max_height sl" "distinct ps" "0 < ?n"
    using inv unfolding sl_inv_def Let_def by (auto intro: gr0I)
  have sub: "p \<in> set ps" if "p \<in> set ?A \<union> set ?B" for p
    using that by (auto dest: set_takeWhileD set_dropWhileD)
  have keys: "sl_keys sl' (?A @ ?n # ?B) = sl_keys sl ?A @ key # sl_keys sl ?B"
    using heap(3,5) ps(1) sub by (auto simp: sl_keys_def sl'_def)
  have tw: "tower ns' i (?A @ ?n # ?B) = tower ?ns i ?A @ (if i < h then [?n] else []) @ tower ?ns i ?B" for i
  proof -
    have "tower ns' i ?A = tower ?ns i ?A" "tower ns' i ?B = tower ?ns i ?B"
      unfolding tower_def using heap(4) ps(1) sub by (auto intro!: filter_cong)
    then show ?thesis using heap(2) by (simp add: tower_def)
  qed
  have "sorted_wrt (\<lambda>a b. sl_compare sl a b < 0) (sl_keys sl' (?A @ ?n # ?B))"
    unfolding keys by (rule sorted_insert [OF ord inv fresh])
  then have "sorted_wrt (\<lambda>p q. sl_compare sl (node_key (ns' ! p)) (node_key (ns' ! q)) < 0) (?A @ ?n # ?B)"
    by (simp add: sl_keys_def sorted_wrt_map sl'_def flip: list.map map_append)
  moreover have "distinct (?A @ ?n # ?B)" "0 \<notin> set (?A @ ?n # ?B)"
    using ps sub distinct_takeWhile [of ps] distinct_dropWhile [of ps]
    by (auto, metis disjoint_iff distinct_append takeWhile_dropWhile_id) 
  moreover have "\<forall>p\<in>set (?A @ ?n # ?B). p < length ns' \<and> 1 \<le> height_of ns' p \<and> height_of ns' p \<le> max h (sl_max_height sl)"
    using heap(1,2,4) h ps(1) sub by (auto simp: less_SucI le_max_iff_disj)
  moreover have "height_of ns' 0 = kMaxHeight" "1 \<le> max h (sl_max_height sl)" "max h (sl_max_height sl) \<le> kMaxHeight"
    using heap(4) [of 0] ps(3) h inv by (auto simp: sl_inv_def Let_def)
  ultimately have "sl_inv sl' (?A @ ?n # ?B)"
    using heap(1,6) by (auto simp: sl_inv_def Let_def sl'_def tw simp del: tower_append)
  with I keys show ?thesis by (intro that [of sl']) (simp_all add: sl'_def ns'_def)
qed

subsection \<open>The list of keys\<close>

text \<open>The abstract operation: insertion into a list at the first key that is not smaller.\<close>

definition insert_sorted :: "('k \<Rightarrow> 'k \<Rightarrow> int) \<Rightarrow> 'k list \<Rightarrow> 'k \<Rightarrow> 'k list" where
  "insert_sorted cmp ks k = takeWhile (\<lambda>x. cmp x k < 0) ks @ k # dropWhile (\<lambda>x. cmp x k < 0) ks"

definition inserts :: "'k SkipList \<Rightarrow> 'k list \<Rightarrow> 'k SkipList option" where
  "inserts sl ks = foldl (\<lambda>sl k. Option.bind sl (\<lambda>sl. sl_Insert sl k)) (Some sl) ks"

lemma set_insert_sorted [simp]: "set (insert_sorted cmp ks k) = insert k (set ks)"
  using set_append [of "takeWhile (\<lambda>x. cmp x k < 0) ks" "dropWhile (\<lambda>x. cmp x k < 0) ks"]
  by (auto simp: insert_sorted_def)

lemma sl_keys_lower: "sl_keys sl (lower sl k ps) = takeWhile (\<lambda>x. sl_compare sl x k < 0) (sl_keys sl ps)"
  by (simp add: sl_keys_def takeWhile_map comp_def before_def [abs_def])

lemma sl_keys_upper: "sl_keys sl (upper sl k ps) = dropWhile (\<lambda>x. sl_compare sl x k < 0) (sl_keys sl ps)"
  by (simp add: sl_keys_def dropWhile_map comp_def before_def [abs_def])

lemma Insert_refines:
  assumes "key_order (sl_compare sl)" "sl_inv sl ps" "\<forall>x\<in>set (sl_keys sl ps). sl_compare sl x k \<noteq> 0"
  obtains sl' ps' where "sl_Insert sl k = Some sl'" "sl_compare sl' = sl_compare sl" "sl_inv sl' ps'"
    "sl_keys sl' ps' = insert_sorted (sl_compare sl) (sl_keys sl ps) k"
proof -
  have "\<forall>p\<in>set ps. sl_compare sl (node_key (sl_nodes sl ! p)) k \<noteq> 0" using assms(3) by (simp add: sl_keys_def)
  then obtain sl' where "sl_Insert sl k = Some sl'" "sl_compare sl' = sl_compare sl"
    "sl_inv sl' (lower sl k ps @ length (sl_nodes sl) # upper sl k ps)"
    "sl_keys sl' (lower sl k ps @ length (sl_nodes sl) # upper sl k ps) =
      sl_keys sl (lower sl k ps) @ k # sl_keys sl (upper sl k ps)"
    by (rule Insert_inv [OF assms(1,2)])
  then show ?thesis by (intro that) (simp_all add: insert_sorted_def sl_keys_lower sl_keys_upper)
qed

lemma inserts_refines:
  assumes "key_order (sl_compare sl)" "sl_inv sl ps" "sorted_wrt (\<lambda>a b. sl_compare sl a b \<noteq> 0) (sl_keys sl ps @ ks)"
  shows "\<exists>sl' ps'. inserts sl ks = Some sl' \<and> sl_compare sl' = sl_compare sl \<and> sl_inv sl' ps' \<and>
    sl_keys sl' ps' = foldl (insert_sorted (sl_compare sl)) (sl_keys sl ps) ks"
  using assms
proof (induction ks arbitrary: sl ps)
  case Nil
  then show ?case by (auto simp: inserts_def)
next
  case (Cons k ks)
  have "\<forall>x\<in>set (sl_keys sl ps). sl_compare sl x k \<noteq> 0" using Cons.prems(3) by (auto simp: sorted_wrt_append)
  then obtain sl' ps' where sl': "sl_Insert sl k = Some sl'" "sl_compare sl' = sl_compare sl" "sl_inv sl' ps'"
    "sl_keys sl' ps' = insert_sorted (sl_compare sl) (sl_keys sl ps) k"
    by (rule Insert_refines [OF Cons.prems(1,2)])
  have "sorted_wrt (\<lambda>a b. sl_compare sl' a b \<noteq> 0) (sl_keys sl' ps' @ ks)"
  proof -
    have "sorted_wrt (\<lambda>a b. sl_compare sl' a b < 0) (sl_keys sl' ps')"
      using sl'(3) by (simp add: sl_inv_def Let_def sl_keys_def sorted_wrt_map)
    then have "sorted_wrt (\<lambda>a b. sl_compare sl' a b \<noteq> 0) (sl_keys sl' ps')"
      by (rule sorted_wrt_mono_rel [rotated]) auto
    then show ?thesis using Cons.prems(3) sl'(2,4) by (auto simp: sorted_wrt_append)
  qed
  from Cons.IH [OF _ sl'(3) this] Cons.prems(1) sl' show ?case by (auto simp: inserts_def)
qed

lemma new_SkipList_inv: "sl_inv (new_SkipList cmp k0) []" "sl_compare (new_SkipList cmp k0) = cmp"
proof -
  let ?n = "[\<lparr>node_key = k0, node_next = replicate kMaxHeight None\<rparr>]"
  have "Node_SetNext ?n 0 i None = ?n" for i
    by (simp add: Node_SetNext_def list_update_same_conv) (metis list_update_id list_update_beyond nth_replicate not_less length_replicate)
  then have "foldl (\<lambda>ns i. Node_SetNext ns 0 i None) ?n is = ?n" for "is" by (induction "is") simp_all
  then show "sl_inv (new_SkipList cmp k0) []" "sl_compare (new_SkipList cmp k0) = cmp"
    by (simp_all add: new_SkipList_def NewNode_def Let_def sl_inv_def height_of_def tower_def Node_Next_def kMaxHeight_def)
qed

subsection \<open>Iteration\<close>

lemma linked_nth:
  "linked ns i x ys \<Longrightarrow> j < length ys \<Longrightarrow> Node_Next ns (ys ! j) i = (if Suc j < length ys then Some (ys ! Suc j) else None)"
proof (induction ys arbitrary: x j)
  case (Cons y ys)
  show ?case
  proof (cases j)
    case 0
    then show ?thesis using Cons.prems by (cases ys) auto
  next
    case (Suc j')
    then show ?thesis using Cons.prems Cons.IH [of y j'] by simp
  qed
qed simp

lemma linked_0: "sl_inv sl ps \<Longrightarrow> linked (sl_nodes sl) 0 0 ps"
  using max_height_simps(3) [of sl ps 0] tower_0 [of sl ps ps] by simp

lemma lower_at:
  assumes "key_order (sl_compare sl)" "sl_inv sl ps" "i < length ps"
  shows "lower sl (node_key (sl_nodes sl ! (ps ! i))) ps = take i ps"
proof (rule takeWhile_eq_take_P_nth)
  have s: "sorted_wrt (\<lambda>p q. sl_compare sl (node_key (sl_nodes sl ! p)) (node_key (sl_nodes sl ! q)) < 0) ps"
    using assms(2) by (simp add: sl_inv_def Let_def)
  show "before sl (node_key (sl_nodes sl ! (ps ! i))) (ps ! j)" if "j < i" "j < length ps" for j
    using sorted_wrt_nth_less [OF s that(1) assms(3)] by (simp add: before_def)
  show "\<not> before sl (node_key (sl_nodes sl ! (ps ! i))) (ps ! i)"
    using key_order.cmp_refl [OF assms(1)] by (simp add: before_def)
qed

lemma Seek_find:
  assumes "key_order (sl_compare sl)" "sl_inv sl ps"
  shows "map_option (map_option (\<lambda>p. node_key (sl_nodes sl ! p))) (sl_Seek sl k) =
    Some (find (\<lambda>x. \<not> sl_compare sl x k < 0) (sl_keys sl ps))"
proof -
  have "find (\<lambda>x. \<not> sl_compare sl x k < 0) (sl_keys sl ps) =
      (case sl_keys sl (upper sl k ps) of [] \<Rightarrow> None | x # _ \<Rightarrow> Some x)"
    by (simp add: find_dropWhile comp_def sl_keys_upper)
  then show ?thesis
    by (cases "upper sl k ps")
      (simp_all add: sl_Seek_def FindGreaterOrEqual_result [OF assms] sl_keys_def del: dropWhile_eq_Nil_conv)
qed

lemma Contains_iff:
  assumes "key_order (sl_compare sl)" "sl_inv sl ps"
  shows "sl_Contains sl k = Some (\<exists>x\<in>set (sl_keys sl ps). sl_compare sl k x = 0)"
proof -
  have "(case upper sl k ps of [] \<Rightarrow> False | q # _ \<Rightarrow> sl_compare sl k (node_key (sl_nodes sl ! q)) = 0) \<longleftrightarrow>
      (\<exists>x\<in>set (sl_keys sl ps). sl_compare sl k x = 0)" (is "?l \<longleftrightarrow> ?r")
  proof
    assume ?l
    then obtain q qs where q: "upper sl k ps = q # qs" "sl_compare sl k (node_key (sl_nodes sl ! q)) = 0"
      by (auto split: list.splits)
    then have "q \<in> set ps" by (metis list.set_intros(1) set_dropWhileD)
    with q(2) show ?r by (auto simp: sl_keys_def)
  next
    assume ?r
    then obtain p where p: "p \<in> set ps" "sl_compare sl k (node_key (sl_nodes sl ! p)) = 0"
      by (auto simp: sl_keys_def)
    have nb: "\<not> before sl k p" using p(2) key_order.cmp_swap [OF assms(1)] by (simp add: before_def)
    then have pu: "p \<in> set (upper sl k ps)"
      using p(1) by (metis Un_iff set_append set_takeWhileD takeWhile_dropWhile_id)
    then obtain q qs where u: "upper sl k ps = q # qs" by (cases "upper sl k ps") auto
    have "sorted_wrt (\<lambda>p q. sl_compare sl (node_key (sl_nodes sl ! p)) (node_key (sl_nodes sl ! q)) < 0)
        (lower sl k ps @ q # qs)"
      using assms(2) u by (metis sl_inv_def takeWhile_dropWhile_id)
    then have "sl_compare sl (node_key (sl_nodes sl ! q)) (node_key (sl_nodes sl ! p)) \<le> 0"
      using pu u key_order.cmp_refl [OF assms(1)] by (auto simp: sorted_wrt_append less_imp_le)
    moreover have "\<not> before sl k q" using upper_not_before [OF assms, of k] u by simp
    moreover have "sl_compare sl (node_key (sl_nodes sl ! p)) k \<le> 0"
      using p(2) key_order.cmp_swap [OF assms(1)] by (smt (verit))
    ultimately have "sl_compare sl (node_key (sl_nodes sl ! q)) k = 0"
      using key_order.cmp_trans [OF assms(1)] by (fastforce simp: before_def)
    then show ?l using u key_order.cmp_swap [OF assms(1)] by (smt (verit) list.simps(5))
  qed
  then show ?thesis
    by (cases "upper sl k ps")
      (simp_all add: sl_Contains_def FindGreaterOrEqual_result [OF assms] sl_Equal_def del: dropWhile_eq_Nil_conv)
qed

section \<open>Properties\<close>

text \<open>
  C21. Insertion refines insertion into a sorted list: for every total preorder and every sequence of
  keys no two of which compare equal, whatever heights the generator draws, all insertions return
  and leave a well-formed skip list (each level links, in order, exactly the nodes of sufficient
  height) whose keys are the sorted list of the keys inserted.
\<close>

theorem skiplist_insert_refines:
  assumes "key_order cmp" "sorted_wrt (\<lambda>a b. cmp a b \<noteq> 0) ks"
  shows "\<exists>sl ps. inserts (new_SkipList cmp k0) ks = Some sl \<and> sl_inv sl ps \<and>
    sl_keys sl ps = foldl (insert_sorted cmp) [] ks \<and>
    sorted_wrt (\<lambda>a b. cmp a b < 0) (sl_keys sl ps) \<and> set (sl_keys sl ps) = set ks"
proof -
  obtain sl ps where sl: "inserts (new_SkipList cmp k0) ks = Some sl" "sl_compare sl = cmp" "sl_inv sl ps"
    "sl_keys sl ps = foldl (insert_sorted cmp) [] ks"
    using inserts_refines [of "new_SkipList cmp k0" "[]" ks] assms new_SkipList_inv [of cmp k0]
    by (auto simp: sl_keys_def)
  moreover have "sorted_wrt (\<lambda>a b. cmp a b < 0) (sl_keys sl ps)"
    using sl(2,3) by (simp add: sl_inv_def Let_def sl_keys_def sorted_wrt_map)
  moreover have "set (foldl (insert_sorted cmp) xs ks) = set xs \<union> set ks" for xs
    by (induction ks arbitrary: xs) auto
  ultimately show ?thesis by auto
qed

lemma key_order_int: "key_order (\<lambda>a b :: int. a - b)"
  by unfold_locales auto

theorem skiplist_insert_refines_witness:
  "\<exists>sl ps. inserts (new_SkipList (\<lambda>a b :: int. a - b) 0) [5, 2, 9] = Some sl \<and> sl_inv sl ps \<and> sl_keys sl ps = [2, 5, 9]"
  using skiplist_insert_refines [OF key_order_int, of "[5, 2, 9]" 0] by (auto simp: insert_sorted_def)



end
