(* ===== verification/MemTables.thy ===== *)
theory MemTables
  imports SkipLists WriteBatches
begin

text \<open>
  \<open>db/memtable.cc\<close> and the \<open>MemTableInserter\<close> of \<open>db/write_batch.cc\<close>. An entry of the skip list is
  the byte string the code allocates: length-prefixed internal key, length-prefixed value. The
  reference count and the arena's memory accounting are not part of this model.
\<close>

section \<open>Definitions\<close>

record MemTable =
  mt_user_comparator :: comparator
  mt_table :: "bytes SkipList"

text \<open>
  Reading a varint of at most five bytes at a pointer: the value and what follows it. A null
  result would be dereferenced by the code; entries are never malformed.
\<close>

definition mt_GetVarint :: "bytes \<Rightarrow> u32 \<times> bytes" where
  "mt_GetVarint p =
     (case GetVarint32Ptr (take 5 p) of
        None \<Rightarrow> (0, [])
      | Some (len, q) \<Rightarrow> (len, drop (length (take 5 p) - length q) p))"

definition mt_GetLengthPrefixedSlice :: "bytes \<Rightarrow> bytes" where
  "mt_GetLengthPrefixedSlice data = (let (len, p) = mt_GetVarint data in take (unat len) p)"

definition mt_KeyComparator :: "comparator \<Rightarrow> bytes \<Rightarrow> bytes \<Rightarrow> int" where
  "mt_KeyComparator c aptr bptr =
     (let a = mt_GetLengthPrefixedSlice aptr;
          b = mt_GetLengthPrefixedSlice bptr
      in Compare (InternalKeyComparator c) a b)"

definition new_MemTable :: "comparator \<Rightarrow> MemTable" where
  "new_MemTable c = \<lparr>mt_user_comparator = c, mt_table = new_SkipList (mt_KeyComparator c) []\<rparr>"

definition EncodeKey :: "bytes \<Rightarrow> bytes" where
  "EncodeKey target = PutVarint32 [] (of_nat (length target)) @ target"

definition mti_Seek :: "MemTable \<Rightarrow> bytes \<Rightarrow> sl_Iterator option" where
  "mti_Seek m k = sl_Seek (mt_table m) (EncodeKey k)"

definition mti_key :: "MemTable \<Rightarrow> sl_Iterator \<Rightarrow> bytes" where
  "mti_key m it = mt_GetLengthPrefixedSlice (sl_key (mt_table m) it)"

definition mti_value :: "MemTable \<Rightarrow> sl_Iterator \<Rightarrow> bytes" where
  "mti_value m it =
     (let (len, p) = mt_GetVarint (sl_key (mt_table m) it)
      in mt_GetLengthPrefixedSlice (drop (unat len) p))"

definition MemTable_Add :: "MemTable \<Rightarrow> u64 \<Rightarrow> ValueType \<Rightarrow> bytes \<Rightarrow> bytes \<Rightarrow> MemTable option" where
  "MemTable_Add m s type key value =
     (let internal_key_size = length key + 8;
          buf = EncodeVarint32 (of_nat internal_key_size) @ key @
                EncodeFixed64 (push_bit 8 s OR ucast (ValueType_num type)) @
                EncodeVarint32 (of_nat (length value)) @ value
      in map_option (\<lambda>t. m\<lparr>mt_table := t\<rparr>) (sl_Insert (mt_table m) buf))"

text \<open>
  The result of \<open>Get\<close>: \<open>None\<close> if the search does not return, otherwise whether the key was found
  and then its value or the status stored through \<open>s\<close>.
\<close>

datatype GetResult = NotInTable | FoundValue bytes | FoundStatus Status

definition MemTable_Get :: "MemTable \<Rightarrow> LookupKey \<Rightarrow> GetResult option" where
  "MemTable_Get m key =
     (let memkey = lk_memtable_key key in
      case sl_Seek (mt_table m) memkey of
        None \<Rightarrow> None
      | Some it \<Rightarrow> Some (
          if sl_Valid it then
            (let entry = sl_key (mt_table m) it;
                 (key_length, key_ptr) = mt_GetVarint entry;
                 n = unat (key_length - 8)
             in if Compare (mt_user_comparator m) (take n key_ptr) (lk_user_key key) = 0 then
                  (let tag = DecodeFixed64 (drop n key_ptr);
                       c = ucast (tag AND 0xff) :: byte
                   in if c = ValueType_num kTypeValue
                      then FoundValue (mt_GetLengthPrefixedSlice (drop (unat key_length) key_ptr))
                      else if c = ValueType_num kTypeDeletion then FoundStatus (NotFound [] [])
                      else NotInTable)
                else NotInTable)
          else NotInTable))"

text \<open>Inserting a batch; the handler's state is the next sequence number and the table.\<close>

definition MemTableInserter :: "(u64 \<times> MemTable option) Handler" where
  "MemTableInserter =
     \<lparr>h_Put = \<lambda>key value (seq, m). (seq + 1, Option.bind m (\<lambda>m. MemTable_Add m seq kTypeValue key value)),
      h_Delete = \<lambda>key (seq, m). (seq + 1, Option.bind m (\<lambda>m. MemTable_Add m seq kTypeDeletion key []))\<rparr>"

definition InsertInto :: "WriteBatch \<Rightarrow> MemTable \<Rightarrow> Status \<times> MemTable option" where
  "InsertInto b m =
     (let (s, (_, m)) = WriteBatch_Iterate MemTableInserter b (WB_Sequence b, Some m) in (s, m))"

section \<open>Lemmas\<close>

subsection \<open>Entries\<close>

record entry =
  e_seq :: u64
  e_type :: ValueType
  e_key :: bytes
  e_value :: bytes

abbreviation e_ikey :: "entry \<Rightarrow> bytes" where
  "e_ikey e \<equiv> InternalKey (e_key e) (e_seq e) (e_type e)"

definition entry_bytes :: "entry \<Rightarrow> bytes" where
  "entry_bytes e = lps (e_ikey e) @ lps (e_value e)"

definition wf_entry :: "entry \<Rightarrow> bool" where
  "wf_entry e \<longleftrightarrow> length (e_key e) + 8 < 2 ^ 32 \<and> length (e_value e) < 2 ^ 32 \<and> e_seq e \<le> kMaxSequenceNumber"

lemma length_EncodeVarint32: "length (EncodeVarint32 v) \<le> 5"
  by (simp add: EncodeVarint32_def Let_def)

lemma mt_GetVarint_Encode [simp]: "mt_GetVarint (EncodeVarint32 n @ rest) = (n, rest)"
proof -
  have "take 5 (EncodeVarint32 n @ rest) = EncodeVarint32 n @ take (5 - length (EncodeVarint32 n)) rest"
    using length_EncodeVarint32 [of n] by simp
  moreover have "GetVarint32Ptr (EncodeVarint32 n @ z) = Some (n, z)" for z
    using varint32.dec_enc [of n z] by (simp add: GetVarint32_def GetVarint32Ptr_fallback split: option.splits)
  ultimately show ?thesis by (simp add: mt_GetVarint_def)
qed

lemma lps_eq: "lps k = EncodeVarint32 (of_nat (length k)) @ k"
  by (simp add: PutLengthPrefixedSlice_def PutVarint32_def)

lemma mt_GetLengthPrefixedSlice_lps [simp]:
  "length k < 2 ^ 32 \<Longrightarrow> mt_GetLengthPrefixedSlice (lps k @ rest) = k"
  by (simp add: mt_GetLengthPrefixedSlice_def lps_eq unat_u32)

lemma mt_GetVarint_lps: "mt_GetVarint (lps k @ rest) = (of_nat (length k), k @ rest)"
  by (simp add: lps_eq)

lemma length_InternalKey [simp]: "length (InternalKey u s t) = length u + 8"
  by (simp add: InternalKey_eq)

lemma InternalKey_inj:
  assumes "s \<le> kMaxSequenceNumber" "s' \<le> kMaxSequenceNumber" "InternalKey u s t = InternalKey u' s' t'"
  shows "u = u' \<and> s = s' \<and> t = t'"
  using ParseInternalKey_InternalKey [OF assms(1), of u t] ParseInternalKey_InternalKey [OF assms(2), of u' t']
  unfolding assms(3) by simp

lemma Add_entry:
  "MemTable_Add m (e_seq e) (e_type e) (e_key e) (e_value e) =
     map_option (\<lambda>t. m\<lparr>mt_table := t\<rparr>) (sl_Insert (mt_table m) (entry_bytes e))"
  by (simp add: MemTable_Add_def entry_bytes_def lps_eq InternalKey_eq PackSequenceAndType_def Let_def)

lemma entry_ikey [simp]: "wf_entry e \<Longrightarrow> mt_GetLengthPrefixedSlice (entry_bytes e) = e_ikey e"
  by (simp add: entry_bytes_def wf_entry_def)

subsection \<open>The order of entries\<close>

context total_comparator
begin

lemma InternalKey_Compare_le:
  "InternalKey_Compare c a b \<le> 0 \<longleftrightarrow>
     Compare c (ExtractUserKey a) (ExtractUserKey b) < 0 \<or>
     (ExtractUserKey a = ExtractUserKey b \<and> key_tag a \<ge> key_tag b)"
  using Compare_zero [of "ExtractUserKey a" "ExtractUserKey b"]
  by (cases "ExtractUserKey a = ExtractUserKey b") (auto simp: InternalKey_Compare_def Let_def)

lemma InternalKey_Compare_le_trans:
  "InternalKey_Compare c a b \<le> 0 \<Longrightarrow> InternalKey_Compare c b d \<le> 0 \<Longrightarrow> InternalKey_Compare c a d \<le> 0"
  unfolding InternalKey_Compare_le using Compare_trans by (metis order.trans)

lemma mt_key_order: "key_order (mt_KeyComparator c)"
  by unfold_locales
    (simp_all add: mt_KeyComparator_def InternalKey_Compare_swap, metis InternalKey_Compare_le_trans)

lemma mt_compare_entries:
  "wf_entry e \<Longrightarrow> wf_entry e' \<Longrightarrow> mt_KeyComparator c (entry_bytes e) (entry_bytes e') < 0 \<longleftrightarrow>
     Compare c (e_key e) (e_key e') < 0 \<or> (e_key e = e_key e' \<and>
       (e_seq e > e_seq e' \<or> (e_seq e = e_seq e' \<and> ValueType_num (e_type e) > ValueType_num (e_type e'))))"
  using InternalKey_Compare_keys [OF total_comparator_axioms]
  by (simp add: mt_KeyComparator_def wf_entry_def)

lemma mt_compare_lookup:
  assumes "wf_entry e" "s \<le> kMaxSequenceNumber" "length u + 8 < 2 ^ 32"
  shows "\<not> mt_KeyComparator c (entry_bytes e) (lk_memtable_key (make_LookupKey u s)) < 0 \<longleftrightarrow>
    Compare c u (e_key e) < 0 \<or> (e_key e = u \<and> e_seq e \<le> s)"
proof -
  have "mt_GetLengthPrefixedSlice (lk_memtable_key (make_LookupKey u s)) = InternalKey u s kTypeValue"
    using mt_GetLengthPrefixedSlice_lps [of "InternalKey u s kTypeValue" "[]"] assms(3)
    by (simp add: lk_memtable_key_eq)
  then have "mt_KeyComparator c (entry_bytes e) (lk_memtable_key (make_LookupKey u s)) =
      InternalKey_Compare c (e_ikey e) (InternalKey u s kTypeValue)"
    using assms(1) by (simp add: mt_KeyComparator_def)
  moreover have "ValueType_num (e_type e) > ValueType_num kTypeValue \<longleftrightarrow> False" by (cases "e_type e") auto
  ultimately have less: "mt_KeyComparator c (entry_bytes e) (lk_memtable_key (make_LookupKey u s)) < 0 \<longleftrightarrow>
      Compare c (e_key e) u < 0 \<or> (e_key e = u \<and> e_seq e > s)"
    using InternalKey_Compare_keys [OF total_comparator_axioms, of "e_seq e" s "e_key e" "e_type e" u kTypeValue] assms
    by (simp add: wf_entry_def)
  show ?thesis
  proof (cases "e_key e = u")
    case False
    then have "Compare c (e_key e) u \<noteq> 0" "Compare c u (e_key e) \<noteq> 0"
      using Compare_zero [of "e_key e" u] Compare_zero [of u "e_key e"] by auto
    then show ?thesis using less False Compare_swap [of "e_key e" u] Compare_swap [of u "e_key e"] by auto
  qed (simp add: less Compare_zero not_less)
qed

end

interpretation bytewise_mt: key_order "mt_KeyComparator BytewiseComparator"
  by (rule bytewise.mt_key_order)

subsection \<open>What a search finds\<close>

lemma find_least:
  assumes "key_order cmp" "sorted_wrt (\<lambda>a b. cmp a b < 0) ks" "x \<in> set ks" "P x"
    "\<forall>y\<in>set ks. P y \<longrightarrow> cmp x y \<le> 0"
  shows "find P ks = Some x"
  using assms(2-5)
proof (induction ks)
  case (Cons k ks)
  show ?case
  proof (cases "P k")
    case True
    then have "cmp x k \<le> 0" using Cons.prems by simp
    moreover have "x \<in> set ks \<Longrightarrow> cmp k x < 0" using Cons.prems(1) by simp
    ultimately have "x = k"
      using Cons.prems(2) key_order.cmp_swap [OF assms(1), of k x] by auto
    with True show ?thesis by simp
  qed (use Cons in auto)
qed simp

definition mt_has :: "MemTable \<Rightarrow> entry list \<Rightarrow> bool" where
  "mt_has m es \<longleftrightarrow> sl_compare (mt_table m) = mt_KeyComparator (mt_user_comparator m) \<and>
     (\<exists>ps. sl_inv (mt_table m) ps \<and> set (sl_keys (mt_table m) ps) = set (map entry_bytes es)) \<and>
     (\<forall>e\<in>set es. wf_entry e) \<and> distinct (map (\<lambda>e. (e_key e, e_seq e)) es)"

lemma mt_has_new: "mt_has (new_MemTable c) []"
  using new_SkipList_inv [of "mt_KeyComparator c" "[]"]
  by (auto simp: mt_has_def new_MemTable_def sl_keys_def intro!: exI [of _ "[]"])

lemma Add_has:
  assumes "total_comparator (mt_user_comparator m)" "mt_has m es" "wf_entry e"
    "(e_key e, e_seq e) \<notin> (\<lambda>e. (e_key e, e_seq e)) ` set es"
  shows "\<exists>m'. MemTable_Add m (e_seq e) (e_type e) (e_key e) (e_value e) = Some m' \<and>
    mt_user_comparator m' = mt_user_comparator m \<and> mt_has m' (es @ [e])"
proof -
  let ?c = "mt_user_comparator m"
  obtain ps where ps: "sl_inv (mt_table m) ps" "set (sl_keys (mt_table m) ps) = set (map entry_bytes es)"
    and cmp: "sl_compare (mt_table m) = mt_KeyComparator ?c"
    using assms(2) by (auto simp: mt_has_def)
  have ord: "key_order (sl_compare (mt_table m))" using total_comparator.mt_key_order [OF assms(1)] cmp by simp
  have "mt_KeyComparator ?c (entry_bytes e') (entry_bytes e) \<noteq> 0" if "e' \<in> set es" for e'
  proof -
    have we: "wf_entry e'" "(e_key e', e_seq e') \<noteq> (e_key e, e_seq e)"
      using assms(2,4) that by (auto simp: mt_has_def image_iff)
    then have "InternalKey (e_key e') (e_seq e') (e_type e') \<noteq> InternalKey (e_key e) (e_seq e) (e_type e)"
      using InternalKey_inj [of "e_seq e'" "e_seq e"] assms(3) by (auto simp: wf_entry_def)
    then show ?thesis
      using we(1) assms(3) comparator_contract.Compare_zero [OF total_comparator.internal_contract [OF assms(1)]]
      by (simp add: mt_KeyComparator_def)
  qed
  then have "\<forall>x\<in>set (sl_keys (mt_table m) ps). sl_compare (mt_table m) x (entry_bytes e) \<noteq> 0"
    using ps(2) cmp by auto
  then obtain t ps' where "sl_Insert (mt_table m) (entry_bytes e) = Some t" "sl_compare t = sl_compare (mt_table m)"
    "sl_inv t ps'" "sl_keys t ps' = insert_sorted (sl_compare (mt_table m)) (sl_keys (mt_table m) ps) (entry_bytes e)"
    by (rule Insert_refines [OF ord ps(1)])
  then show ?thesis
    using assms(2-4) ps(2) cmp by (auto simp: Add_entry mt_has_def)
qed

text \<open>Decoding the entry a search stopped at.\<close>

lemma Get_at_entry:
  assumes "wf_entry e" "sl_Seek (mt_table m) (lk_memtable_key key) = Some (Some p)"
    "node_key (sl_nodes (mt_table m) ! p) = entry_bytes e"
  shows "MemTable_Get m key = Some (if Compare (mt_user_comparator m) (e_key e) (lk_user_key key) = 0
      then (case e_type e of kTypeValue \<Rightarrow> FoundValue (e_value e) | kTypeDeletion \<Rightarrow> FoundStatus (NotFound [] []))
      else NotInTable)"
proof -
  let ?ik = "e_ikey e"
  have u: "unat (of_nat (length ?ik) - 8 :: u32) = length (e_key e)" "unat (of_nat (length ?ik) :: u32) = length ?ik"
    using assms(1) unat_u32 [of "length (e_key e)"] unat_u32 [of "length (e_key e) + 8"] by (simp_all add: wf_entry_def)
  have g: "mt_GetVarint (entry_bytes e) = (of_nat (length ?ik), ?ik @ lps (e_value e))"
    by (simp add: entry_bytes_def mt_GetVarint_lps)
  have v: "mt_GetLengthPrefixedSlice (lps (e_value e)) = e_value e"
    using mt_GetLengthPrefixedSlice_lps [of "e_value e" "[]"] assms(1) by (simp add: wf_entry_def)
  have k: "take (length (e_key e)) (?ik @ lps (e_value e)) = e_key e"
    "DecodeFixed64 (drop (length (e_key e)) (?ik @ lps (e_value e))) = PackSequenceAndType (e_seq e) (e_type e)"
    by (simp_all add: InternalKey_eq)
  show ?thesis
    unfolding MemTable_Get_def Let_def assms(2) option.case sl_Valid_def sl_key_def option.sel assms(3) g
      prod.case u k Pack_low
    by (simp add: v split: ValueType.splits)
qed

lemma Seek_entries:
  assumes "total_comparator (mt_user_comparator m)" "mt_has m es"
  obtains ps where "sl_inv (mt_table m) ps" "set (sl_keys (mt_table m) ps) = set (map entry_bytes es)"
    "map_option (map_option (\<lambda>p. node_key (sl_nodes (mt_table m) ! p))) (sl_Seek (mt_table m) k) =
      Some (find (\<lambda>x. \<not> mt_KeyComparator (mt_user_comparator m) x k < 0) (sl_keys (mt_table m) ps))"
    "sorted_wrt (\<lambda>a b. mt_KeyComparator (mt_user_comparator m) a b < 0) (sl_keys (mt_table m) ps)"
proof -
  obtain ps where ps: "sl_inv (mt_table m) ps" "set (sl_keys (mt_table m) ps) = set (map entry_bytes es)"
    and cmp: "sl_compare (mt_table m) = mt_KeyComparator (mt_user_comparator m)"
    using assms(2) by (auto simp: mt_has_def)
  have ord: "key_order (sl_compare (mt_table m))" using total_comparator.mt_key_order [OF assms(1)] cmp by simp
  have "sorted_wrt (\<lambda>a b. sl_compare (mt_table m) a b < 0) (sl_keys (mt_table m) ps)"
    using ps(1) by (simp add: sl_inv_def Let_def sl_keys_def sorted_wrt_map)
  then show ?thesis using that [OF ps] Seek_find [OF ord ps(1), of k] cmp by simp
qed

context total_comparator
begin

lemma Get_newest:
  assumes c: "mt_user_comparator m = c" and has: "mt_has m es" and s: "s \<le> kMaxSequenceNumber"
    and e: "e \<in> set es" "e_seq e \<le> s" "\<forall>e'\<in>set es. e_key e' = e_key e \<and> e_seq e' \<le> s \<longrightarrow> e_seq e' \<le> e_seq e"
  shows "MemTable_Get m (make_LookupKey (e_key e) s) =
    Some (case e_type e of kTypeValue \<Rightarrow> FoundValue (e_value e) | kTypeDeletion \<Rightarrow> FoundStatus (NotFound [] []))"
proof -
  let ?k = "lk_memtable_key (make_LookupKey (e_key e) s)" and ?t = "mt_table m"
  let ?P = "\<lambda>x. \<not> mt_KeyComparator c x ?k < 0"
  have wf: "\<forall>e\<in>set es. wf_entry e" and dist: "inj_on (\<lambda>e. (e_key e, e_seq e)) (set es)"
    using has by (auto simp: mt_has_def distinct_map)
  have tc: "total_comparator (mt_user_comparator m)" unfolding c by unfold_locales
  obtain ps where "sl_inv ?t ps" and ps: "set (sl_keys ?t ps) = set (map entry_bytes es)"
    "map_option (map_option (\<lambda>p. node_key (sl_nodes ?t ! p))) (sl_Seek ?t ?k) = Some (find ?P (sl_keys ?t ps))"
    "sorted_wrt (\<lambda>a b. mt_KeyComparator c a b < 0) (sl_keys ?t ps)"
    by (rule Seek_entries [OF tc has, of ?k, unfolded c])
  have we: "wf_entry e" "length (e_key e) + 8 < 2 ^ 32" using e(1) wf by (auto simp: wf_entry_def)
  have "mt_KeyComparator c (entry_bytes e) (entry_bytes e') \<le> 0" if "e' \<in> set es" "?P (entry_bytes e')" for e'
  proof (cases "e' = e")
    case True
    then show ?thesis using key_order.cmp_refl [OF mt_key_order] by simp
  next
    case False
    then have "(e_key e', e_seq e') \<noteq> (e_key e, e_seq e)" using dist that(1) e(1) by (auto dest: inj_onD)
    moreover have "Compare c (e_key e) (e_key e') < 0 \<or> (e_key e' = e_key e \<and> e_seq e' \<le> s)"
      using mt_compare_lookup [of e' s "e_key e"] that wf s we by blast
    ultimately have "Compare c (e_key e) (e_key e') < 0 \<or> e_key e = e_key e' \<and> e_seq e > e_seq e'"
      using e(3) that(1) by (metis order_le_imp_less_or_eq)
    then show ?thesis using mt_compare_entries [of e e'] we wf that(1) by (auto simp: less_imp_le)
  qed
  moreover have "?P (entry_bytes e)" using mt_compare_lookup [OF we(1) s we(2)] e(2) by simp
  ultimately have "find ?P (sl_keys ?t ps) = Some (entry_bytes e)"
    using find_least [OF mt_key_order ps(3), of "entry_bytes e" ?P] ps(1) e(1) by auto
  then obtain p where "sl_Seek ?t ?k = Some (Some p)" "node_key (sl_nodes ?t ! p) = entry_bytes e"
    using ps(2) by auto
  from Get_at_entry [OF we(1) this] show ?thesis by (simp add: c)
qed

lemma Get_absent:
  assumes c: "mt_user_comparator m = c" and has: "mt_has m es" and s: "s \<le> kMaxSequenceNumber" "length u + 8 < 2 ^ 32"
    and none: "\<forall>e\<in>set es. e_key e = u \<longrightarrow> e_seq e > s"
  shows "MemTable_Get m (make_LookupKey u s) = Some NotInTable"
proof -
  let ?k = "lk_memtable_key (make_LookupKey u s)" and ?t = "mt_table m"
  have tc: "total_comparator (mt_user_comparator m)" unfolding c by unfold_locales
  obtain ps where ps: "set (sl_keys ?t ps) = set (map entry_bytes es)"
    "map_option (map_option (\<lambda>p. node_key (sl_nodes ?t ! p))) (sl_Seek ?t ?k) =
      Some (find (\<lambda>x. \<not> mt_KeyComparator c x ?k < 0) (sl_keys ?t ps))"
    using Seek_entries [OF tc has, of ?k, unfolded c] by metis
  then obtain it where it: "sl_Seek ?t ?k = Some it" by auto
  show ?thesis
  proof (cases it)
    case (Some p)
    then have "find (\<lambda>x. \<not> mt_KeyComparator c x ?k < 0) (sl_keys ?t ps) = Some (node_key (sl_nodes ?t ! p))"
      using ps(2) it by simp
    then obtain e where e: "e \<in> set es" "node_key (sl_nodes ?t ! p) = entry_bytes e"
      "\<not> mt_KeyComparator c (entry_bytes e) ?k < 0"
      using ps(1) by (auto simp: find_Some_iff) (metis (no_types, lifting) image_iff nth_mem)
    have we: "wf_entry e" using has e(1) by (auto simp: mt_has_def)
    have "e_key e \<noteq> u" using mt_compare_lookup [OF we s] e(1,3) none by auto
    then show ?thesis
      using Get_at_entry [OF we it [unfolded Some] e(2)] Compare_zero [of "e_key e" u] by (simp add: c)
  qed (simp add: MemTable_Get_def it sl_Valid_def)
qed

end

subsection \<open>Histories\<close>

text \<open>The abstract memtable: the list of what was added, and the newest visible entry of a key.\<close>

definition visible :: "entry list \<Rightarrow> bytes \<Rightarrow> u64 \<Rightarrow> entry list" where
  "visible es u s = filter (\<lambda>e. e_key e = u \<and> e_seq e \<le> s) es"

definition newest :: "entry list \<Rightarrow> entry" where
  "newest es = fold (\<lambda>e best. if e_seq best < e_seq e then e else best) (tl es) (hd es)"

definition lookup_spec :: "entry list \<Rightarrow> bytes \<Rightarrow> u64 \<Rightarrow> GetResult" where
  "lookup_spec es u s =
     (if visible es u s = [] then NotInTable
      else (let e = newest (visible es u s) in
            case e_type e of kTypeValue \<Rightarrow> FoundValue (e_value e) | kTypeDeletion \<Rightarrow> FoundStatus (NotFound [] [])))"

definition add_all :: "MemTable \<Rightarrow> entry list \<Rightarrow> MemTable option" where
  "add_all m es = foldl (\<lambda>m e. Option.bind m (\<lambda>m. MemTable_Add m (e_seq e) (e_type e) (e_key e) (e_value e))) (Some m) es"

definition wf_history :: "entry list \<Rightarrow> bool" where
  "wf_history es \<longleftrightarrow> (\<forall>e\<in>set es. wf_entry e) \<and> distinct (map (\<lambda>e. (e_key e, e_seq e)) es)"

lemma newest_max:
  "es \<noteq> [] \<Longrightarrow> newest es \<in> set es \<and> (\<forall>e\<in>set es. e_seq e \<le> e_seq (newest es))"
proof -
  have "fold (\<lambda>e best. if e_seq best < e_seq e then e else best) xs x \<in> insert x (set xs) \<and>
      (\<forall>e\<in>insert x (set xs). e_seq e \<le> e_seq (fold (\<lambda>e best. if e_seq best < e_seq e then e else best) xs x))" for xs x
    by (induction xs arbitrary: x) (auto simp: not_less intro: order.trans less_imp_le)
  from this [of "tl es" "hd es"] show "es \<noteq> [] \<Longrightarrow> ?thesis" by (cases es) (simp_all add: newest_def)
qed

lemma Get_lookup_spec:
  assumes "total_comparator (mt_user_comparator m)" "mt_has m es" "s \<le> kMaxSequenceNumber" "length u + 8 < 2 ^ 32"
  shows "MemTable_Get m (make_LookupKey u s) = Some (lookup_spec es u s)"
proof (cases "visible es u s = []")
  case True
  then have "\<forall>e\<in>set es. e_key e = u \<longrightarrow> e_seq e > s" by (auto simp: visible_def filter_empty_conv not_le)
  then show ?thesis
    using total_comparator.Get_absent [OF assms(1) refl assms(2,3,4)] True by (simp add: lookup_spec_def)
next
  case False
  let ?e = "newest (visible es u s)"
  have e: "?e \<in> set es" "e_key ?e = u" "e_seq ?e \<le> s" "\<forall>e'\<in>set es. e_key e' = u \<and> e_seq e' \<le> s \<longrightarrow> e_seq e' \<le> e_seq ?e"
    using newest_max [OF False] by (auto simp: visible_def)
  then show ?thesis
    using total_comparator.Get_newest [OF assms(1) refl assms(2,3) e(1,3)] False by (simp add: lookup_spec_def Let_def)
qed

lemma add_all_has:
  assumes "total_comparator (mt_user_comparator m)" "mt_has m es" "wf_history (es @ es')"
  shows "\<exists>m'. add_all m es' = Some m' \<and> mt_user_comparator m' = mt_user_comparator m \<and> mt_has m' (es @ es')"
  using assms
proof (induction es' arbitrary: m es)
  case (Cons e es')
  have "wf_entry e" "(e_key e, e_seq e) \<notin> (\<lambda>e. (e_key e, e_seq e)) ` set es"
    using Cons.prems(3) by (auto simp: wf_history_def)
  then obtain m1 where m1: "MemTable_Add m (e_seq e) (e_type e) (e_key e) (e_value e) = Some m1"
    "mt_user_comparator m1 = mt_user_comparator m" "mt_has m1 (es @ [e])"
    using Add_has [OF Cons.prems(1,2)] by blast
  show ?case
    using Cons.IH [of m1 "es @ [e]"] Cons.prems m1 by (simp add: add_all_def)
qed (simp add: add_all_def)

subsection \<open>Batches\<close>

fun batch_entries :: "u64 \<Rightarrow> batch_op list \<Rightarrow> entry list" where
  "batch_entries seq [] = []"
| "batch_entries seq (Put_op k v # ops) = \<lparr>e_seq = seq, e_type = kTypeValue, e_key = k, e_value = v\<rparr> # batch_entries (seq + 1) ops"
| "batch_entries seq (Delete_op k # ops) = \<lparr>e_seq = seq, e_type = kTypeDeletion, e_key = k, e_value = []\<rparr> # batch_entries (seq + 1) ops"

lemma inserter_add_all:
  "fold (apply_op MemTableInserter) ops (seq, Some m) = (seq + of_nat (length ops), add_all m (batch_entries seq ops))"
proof -
  have "fold (apply_op MemTableInserter) ops (seq, mo) = (seq + of_nat (length ops),
      foldl (\<lambda>m e. Option.bind m (\<lambda>m. MemTable_Add m (e_seq e) (e_type e) (e_key e) (e_value e))) mo (batch_entries seq ops))" for mo
    by (induction seq ops arbitrary: mo rule: batch_entries.induct)
      (simp_all add: MemTableInserter_def add.assoc add.commute)
  then show ?thesis by (simp add: add_all_def)
qed

lemma batch_entries_Cons: "\<exists>e. batch_entries seq (op # ops) = e # batch_entries (seq + 1) ops \<and> e_seq e = seq"
  by (cases op) simp_all

lemma batch_entries_seq:
  "unat seq + length ops \<le> 2 ^ 56 \<Longrightarrow>
     (\<forall>e\<in>set (batch_entries seq ops). unat seq \<le> unat (e_seq e) \<and> unat (e_seq e) < unat seq + length ops) \<and>
     distinct (map e_seq (batch_entries seq ops))"
proof (induction ops arbitrary: seq)
  case (Cons op ops)
  have "unat seq < 2 ^ 56" using Cons.prems by simp
  then have u: "unat (seq + 1) = Suc (unat seq)" by (simp add: unat_word_ariths)
  have IH: "(\<forall>e\<in>set (batch_entries (seq + 1) ops). Suc (unat seq) \<le> unat (e_seq e) \<and>
      unat (e_seq e) < Suc (unat seq) + length ops) \<and> distinct (map e_seq (batch_entries (seq + 1) ops))"
    using Cons.IH [of "seq + 1"] Cons.prems unfolding u by simp
  obtain e where e: "batch_entries seq (op # ops) = e # batch_entries (seq + 1) ops" "e_seq e = seq"
    using batch_entries_Cons by blast
  have "seq \<notin> set (map e_seq (batch_entries (seq + 1) ops))" using IH by fastforce
  with IH show ?case unfolding e(1) using e(2) by fastforce
qed simp

lemma wf_batch_entries:
  "\<forall>op\<in>set ops. wf_op op \<Longrightarrow> \<forall>op\<in>set ops. (case op of Put_op k v \<Rightarrow> length k | Delete_op k \<Rightarrow> length k) + 8 < 2 ^ 32 \<Longrightarrow>
   e \<in> set (batch_entries seq ops) \<Longrightarrow> length (e_key e) + 8 < 2 ^ 32 \<and> length (e_value e) < 2 ^ 32"
  by (induction seq ops rule: batch_entries.induct) auto

lemma batch_history:
  assumes "\<forall>op\<in>set ops. wf_op op" "unat seq + length ops \<le> 2 ^ 56"
    "\<forall>op\<in>set ops. (case op of Put_op k v \<Rightarrow> length k | Delete_op k \<Rightarrow> length k) + 8 < 2 ^ 32"
  shows "wf_history (batch_entries seq ops)"
proof -
  have "e_seq e \<le> kMaxSequenceNumber" if "e \<in> set (batch_entries seq ops)" for e
    using batch_entries_seq [OF assms(2)] that assms(2) by (fastforce simp: word_le_nat_alt unat_kMaxSequenceNumber)
  moreover have "distinct (map (\<lambda>e. (e_key e, e_seq e)) (batch_entries seq ops))"
    using batch_entries_seq [OF assms(2)] by (auto simp: distinct_map inj_on_def)
  ultimately show ?thesis using wf_batch_entries [OF assms(1,3)] by (auto simp: wf_history_def wf_entry_def)
qed

section \<open>Properties\<close>

text \<open>
  C4. The memtable is the history of what was added to it: for every user comparator that keeps its
  contract and every list of additions with distinct user key and sequence number pairs, all
  additions return, and \<open>Get\<close> at any snapshot returns the value of the newest entry of the user key
  visible there, \<open>NotFound\<close> if that entry is a deletion, and reports the key missing if there is none.
\<close>

theorem memtable_refines_history:
  assumes "total_comparator c" "wf_history es" "s \<le> kMaxSequenceNumber" "length u + 8 < 2 ^ 32"
  shows "\<exists>m. add_all (new_MemTable c) es = Some m \<and>
    MemTable_Get m (make_LookupKey u s) = Some (lookup_spec es u s)"
proof -
  have c: "mt_user_comparator (new_MemTable c) = c" by (simp add: new_MemTable_def)
  then obtain m where "add_all (new_MemTable c) es = Some m" "mt_user_comparator m = c" "mt_has m es"
    using add_all_has [of "new_MemTable c" "[]" es] assms(1,2) mt_has_new [of c] by auto
  then show ?thesis using Get_lookup_spec [of m es s u] assms by auto
qed

theorem memtable_refines_history_witness:
  "\<exists>m. add_all (new_MemTable BytewiseComparator)
      [\<lparr>e_seq = 1, e_type = kTypeValue, e_key = [7], e_value = [1]\<rparr>,
       \<lparr>e_seq = 2, e_type = kTypeDeletion, e_key = [7], e_value = []\<rparr>,
       \<lparr>e_seq = 3, e_type = kTypeValue, e_key = [7], e_value = [3]\<rparr>] = Some m \<and>
    MemTable_Get m (make_LookupKey [7] 2) = Some (FoundStatus (NotFound [] []))"
  using memtable_refines_history [OF bytewise.total_comparator_axioms, of
      "[\<lparr>e_seq = 1, e_type = kTypeValue, e_key = [7], e_value = [1]\<rparr>,
        \<lparr>e_seq = 2, e_type = kTypeDeletion, e_key = [7], e_value = []\<rparr>,
        \<lparr>e_seq = 3, e_type = kTypeValue, e_key = [7], e_value = [3]\<rparr>]" 2 "[7]"]
  by (simp add: wf_history_def wf_entry_def kMaxSequenceNumber_def lookup_spec_def visible_def newest_def)

text \<open>
  C29. Writing a batch: inserting the bytes of any batch of puts and deletes at a starting sequence
  number into a fresh memtable succeeds, gives the updates consecutive sequence numbers, and a
  lookup at a snapshot sees exactly the last update of the key that is visible there.
\<close>

theorem batch_insert_then_get:
  assumes "total_comparator c" "\<forall>op\<in>set ops. wf_op op" "unat seq + length ops \<le> 2 ^ 56"
    "\<forall>op\<in>set ops. (case op of Put_op k v \<Rightarrow> length k | Delete_op k \<Rightarrow> length k) + 8 < 2 ^ 32"
    "s \<le> kMaxSequenceNumber" "length u + 8 < 2 ^ 32"
  shows "\<exists>m. InsertInto (WB_SetSequence (apply_all ops new_WriteBatch) seq) (new_MemTable c) = (Status_OK, Some m) \<and>
    MemTable_Get m (make_LookupKey u s) = Some (lookup_spec (batch_entries seq ops) u s)"
proof -
  have c: "mt_user_comparator (new_MemTable c) = c" by (simp add: new_MemTable_def)
  have r: "represents (WB_SetSequence (apply_all ops new_WriteBatch) seq) seq ops"
    using represents_SetSequence [OF represents_apply_all [OF represents_new assms(2)]] by simp
  obtain m where m: "add_all (new_MemTable c) (batch_entries seq ops) = Some m" "mt_user_comparator m = c"
    "mt_has m (batch_entries seq ops)"
    using add_all_has [of "new_MemTable c" "[]" "batch_entries seq ops"] batch_history [OF assms(2,3,4)] assms(1)
      mt_has_new [of c] c by auto
  have "InsertInto (WB_SetSequence (apply_all ops new_WriteBatch) seq) (new_MemTable c) = (Status_OK, Some m)"
    unfolding InsertInto_def Iterate_represents [OF r] represents_simps(1) [OF r] inserter_add_all m(1) by simp
  then show ?thesis using Get_lookup_spec [of m _ s u] m assms by auto
qed

theorem batch_insert_then_get_witness:
  "\<exists>m. InsertInto (WB_SetSequence (apply_all [Put_op [7] [1], Put_op [7] [2]] new_WriteBatch) 10)
      (new_MemTable BytewiseComparator) = (Status_OK, Some m) \<and>
    MemTable_Get m (make_LookupKey [7] 11) = Some (FoundValue [2])"
  using batch_insert_then_get [OF bytewise.total_comparator_axioms, of "[Put_op [7] [1], Put_op [7] [2]]" 10 11 "[7]"]
  by (simp add: kMaxSequenceNumber_def lookup_spec_def visible_def newest_def)

end
