(* ===== verification/VersionEdits.thy ===== *)
theory VersionEdits
  imports DbFormat Statuses "HOL-Library.Product_Lexorder"
begin

text \<open>
  \<open>db/version_edit.h\<close> and \<open>db/version_edit.cc\<close>: the change records of the manifest and their
  serialization. The ordered set of deleted files is the sorted list of its elements.
\<close>

section \<open>Definitions\<close>

record FileMetaData =
  refs :: nat
  allowed_seeks :: int
  number :: u64
  file_size :: u64
  smallest :: bytes
  largest :: bytes

definition new_FileMetaData :: FileMetaData where
  "new_FileMetaData =
     \<lparr>refs = 0, allowed_seeks = 2 ^ 30, number = 0, file_size = 0, smallest = [], largest = []\<rparr>"

record VersionEdit =
  ve_comparator :: bytes
  ve_log_number :: u64
  ve_prev_log_number :: u64
  ve_next_file_number :: u64
  ve_last_sequence :: u64
  has_comparator :: bool
  has_log_number :: bool
  has_prev_log_number :: bool
  has_next_file_number :: bool
  has_last_sequence :: bool
  compact_pointers :: "(nat \<times> bytes) list"
  deleted_files :: "(nat \<times> u64) list"
  new_files :: "(nat \<times> FileMetaData) list"

definition kComparator :: u32 where "kComparator = 1"
definition kLogNumber :: u32 where "kLogNumber = 2"
definition kNextFileNumber :: u32 where "kNextFileNumber = 3"
definition kLastSequence :: u32 where "kLastSequence = 4"
definition kCompactPointer :: u32 where "kCompactPointer = 5"
definition kDeletedFile :: u32 where "kDeletedFile = 6"
definition kNewFile :: u32 where "kNewFile = 7"
definition kPrevLogNumber :: u32 where "kPrevLogNumber = 9"

lemmas tag_defs = kComparator_def kLogNumber_def kNextFileNumber_def kLastSequence_def
  kCompactPointer_def kDeletedFile_def kNewFile_def kPrevLogNumber_def

text \<open>\<open>Clear\<close> leaves the compaction pointers as they are.\<close>

definition ve_Clear :: "VersionEdit \<Rightarrow> VersionEdit" where
  "ve_Clear e = e\<lparr>ve_comparator := [], ve_log_number := 0, ve_prev_log_number := 0, ve_last_sequence := 0,
     ve_next_file_number := 0, has_comparator := False, has_log_number := False,
     has_prev_log_number := False, has_next_file_number := False, has_last_sequence := False,
     deleted_files := [], new_files := []\<rparr>"

definition new_VersionEdit :: VersionEdit where
  "new_VersionEdit = ve_Clear
     \<lparr>ve_comparator = [], ve_log_number = 0, ve_prev_log_number = 0, ve_next_file_number = 0,
      ve_last_sequence = 0, has_comparator = False, has_log_number = False, has_prev_log_number = False,
      has_next_file_number = False, has_last_sequence = False, compact_pointers = [],
      deleted_files = [], new_files = []\<rparr>"

definition SetComparatorName :: "VersionEdit \<Rightarrow> bytes \<Rightarrow> VersionEdit" where
  "SetComparatorName e name = e\<lparr>has_comparator := True, ve_comparator := name\<rparr>"

definition SetLogNumber :: "VersionEdit \<Rightarrow> u64 \<Rightarrow> VersionEdit" where
  "SetLogNumber e num = e\<lparr>has_log_number := True, ve_log_number := num\<rparr>"

definition SetPrevLogNumber :: "VersionEdit \<Rightarrow> u64 \<Rightarrow> VersionEdit" where
  "SetPrevLogNumber e num = e\<lparr>has_prev_log_number := True, ve_prev_log_number := num\<rparr>"

definition SetNextFile :: "VersionEdit \<Rightarrow> u64 \<Rightarrow> VersionEdit" where
  "SetNextFile e num = e\<lparr>has_next_file_number := True, ve_next_file_number := num\<rparr>"

definition SetLastSequence :: "VersionEdit \<Rightarrow> u64 \<Rightarrow> VersionEdit" where
  "SetLastSequence e seq = e\<lparr>has_last_sequence := True, ve_last_sequence := seq\<rparr>"

definition SetCompactPointer :: "VersionEdit \<Rightarrow> nat \<Rightarrow> bytes \<Rightarrow> VersionEdit" where
  "SetCompactPointer e level key = e\<lparr>compact_pointers := compact_pointers e @ [(level, key)]\<rparr>"

definition AddFile :: "VersionEdit \<Rightarrow> nat \<Rightarrow> u64 \<Rightarrow> u64 \<Rightarrow> bytes \<Rightarrow> bytes \<Rightarrow> VersionEdit" where
  "AddFile e level file fsize small large =
     (let f = new_FileMetaData\<lparr>number := file, file_size := fsize, smallest := small, largest := large\<rparr>
      in e\<lparr>new_files := new_files e @ [(level, f)]\<rparr>)"

definition RemoveFile :: "VersionEdit \<Rightarrow> nat \<Rightarrow> u64 \<Rightarrow> VersionEdit" where
  "RemoveFile e level file = e\<lparr>deleted_files := insort_insert (level, file) (deleted_files e)\<rparr>"

definition ve_EncodeTo :: "VersionEdit \<Rightarrow> bytes \<Rightarrow> bytes" where
  "ve_EncodeTo e dst =
     (let dst = (if has_comparator e
                 then PutLengthPrefixedSlice (PutVarint32 dst kComparator) (ve_comparator e) else dst);
          dst = (if has_log_number e then PutVarint64 (PutVarint32 dst kLogNumber) (ve_log_number e) else dst);
          dst = (if has_prev_log_number e
                 then PutVarint64 (PutVarint32 dst kPrevLogNumber) (ve_prev_log_number e) else dst);
          dst = (if has_next_file_number e
                 then PutVarint64 (PutVarint32 dst kNextFileNumber) (ve_next_file_number e) else dst);
          dst = (if has_last_sequence e
                 then PutVarint64 (PutVarint32 dst kLastSequence) (ve_last_sequence e) else dst);
          dst = foldl (\<lambda>dst (level, key).
                  PutLengthPrefixedSlice (PutVarint32 (PutVarint32 dst kCompactPointer) (of_nat level)) key)
                dst (compact_pointers e);
          dst = foldl (\<lambda>dst (level, num).
                  PutVarint64 (PutVarint32 (PutVarint32 dst kDeletedFile) (of_nat level)) num)
                dst (deleted_files e)
      in foldl (\<lambda>dst (level, f).
           let dst = PutVarint32 (PutVarint32 dst kNewFile) (of_nat level);
               dst = PutVarint64 (PutVarint64 dst (number f)) (file_size f)
           in PutLengthPrefixedSlice (PutLengthPrefixedSlice dst (smallest f)) (largest f))
         dst (new_files e))"

definition GetInternalKey :: "bytes \<Rightarrow> (bytes \<times> bytes) option" where
  "GetInternalKey input =
     (case GetLengthPrefixedSlice input of
        None \<Rightarrow> None
      | Some (s, input) \<Rightarrow> (let (r, key) = InternalKey_DecodeFrom s in if r then Some (key, input) else None))"

definition GetLevel :: "bytes \<Rightarrow> (nat \<times> bytes) option" where
  "GetLevel input =
     (case GetVarint32 input of
        None \<Rightarrow> None
      | Some (v, input) \<Rightarrow> if v < of_nat kNumLevels then Some (unat v, input) else None)"

text \<open>
  One case of the switch: the message, or the updated edit and the rest of the input.
\<close>

definition decode_field :: "u32 \<Rightarrow> bytes \<Rightarrow> VersionEdit \<Rightarrow> bytes + VersionEdit \<times> bytes" where
  "decode_field tag input e =
     (if tag = kComparator then
        (case GetLengthPrefixedSlice input of
           None \<Rightarrow> Inl (str ''comparator name'')
         | Some (s, input) \<Rightarrow> Inr (e\<lparr>ve_comparator := s, has_comparator := True\<rparr>, input))
      else if tag = kLogNumber then
        (case GetVarint64 input of
           None \<Rightarrow> Inl (str ''log number'')
         | Some (n, input) \<Rightarrow> Inr (e\<lparr>ve_log_number := n, has_log_number := True\<rparr>, input))
      else if tag = kPrevLogNumber then
        (case GetVarint64 input of
           None \<Rightarrow> Inl (str ''previous log number'')
         | Some (n, input) \<Rightarrow> Inr (e\<lparr>ve_prev_log_number := n, has_prev_log_number := True\<rparr>, input))
      else if tag = kNextFileNumber then
        (case GetVarint64 input of
           None \<Rightarrow> Inl (str ''next file number'')
         | Some (n, input) \<Rightarrow> Inr (e\<lparr>ve_next_file_number := n, has_next_file_number := True\<rparr>, input))
      else if tag = kLastSequence then
        (case GetVarint64 input of
           None \<Rightarrow> Inl (str ''last sequence number'')
         | Some (n, input) \<Rightarrow> Inr (e\<lparr>ve_last_sequence := n, has_last_sequence := True\<rparr>, input))
      else if tag = kCompactPointer then
        (case GetLevel input of
           None \<Rightarrow> Inl (str ''compaction pointer'')
         | Some (level, input) \<Rightarrow>
             (case GetInternalKey input of
                None \<Rightarrow> Inl (str ''compaction pointer'')
              | Some (key, input) \<Rightarrow> Inr (e\<lparr>compact_pointers := compact_pointers e @ [(level, key)]\<rparr>, input)))
      else if tag = kDeletedFile then
        (case GetLevel input of
           None \<Rightarrow> Inl (str ''deleted file'')
         | Some (level, input) \<Rightarrow>
             (case GetVarint64 input of
                None \<Rightarrow> Inl (str ''deleted file'')
              | Some (num, input) \<Rightarrow>
                  Inr (e\<lparr>deleted_files := insort_insert (level, num) (deleted_files e)\<rparr>, input)))
      else if tag = kNewFile then
        (case Option.bind (GetLevel input) (\<lambda>(level, input).
              Option.bind (GetVarint64 input) (\<lambda>(num, input).
              Option.bind (GetVarint64 input) (\<lambda>(fsize, input).
              Option.bind (GetInternalKey input) (\<lambda>(small, input).
              Option.bind (GetInternalKey input) (\<lambda>(large, input).
                Some (level, new_FileMetaData\<lparr>number := num, file_size := fsize, smallest := small,
                        largest := large\<rparr>, input)))))) of
           None \<Rightarrow> Inl (str ''new-file entry'')
         | Some (level, f, input) \<Rightarrow> Inr (e\<lparr>new_files := new_files e @ [(level, f)]\<rparr>, input))
      else Inl (str ''unknown tag''))"

lemma GetLevel_shorter: "GetLevel p = Some (x, q) \<Longrightarrow> length q < length p"
  by (auto simp: GetLevel_def split: option.splits if_splits dest: GetVarint32_shorter)

lemma GetInternalKey_shorter: "GetInternalKey p = Some (x, q) \<Longrightarrow> length q < length p"
  by (auto simp: GetInternalKey_def InternalKey_DecodeFrom_def split: option.splits if_splits
      dest: GetLengthPrefixedSlice_shorter)

lemmas get_shorter = GetLevel_shorter GetInternalKey_shorter GetLengthPrefixedSlice_shorter GetVarint64_shorter

lemma decode_field_shorter: "decode_field tag p e = Inr (e', q) \<Longrightarrow> length q < length p"
  unfolding decode_field_def
  by (auto split: if_splits option.splits bind_splits dest!: get_shorter)

function DecodeFrom_loop :: "bytes \<Rightarrow> VersionEdit \<Rightarrow> bytes option \<times> VersionEdit \<times> bytes" where
  "DecodeFrom_loop input e =
     (case GetVarint32 input of
        None \<Rightarrow> (None, e, input)
      | Some (tag, input) \<Rightarrow>
          (case decode_field tag input e of
             Inl msg \<Rightarrow> (Some msg, e, input)
           | Inr (e, input) \<Rightarrow> DecodeFrom_loop input e))"
  by pat_completeness auto
termination
  by (relation "measure (\<lambda>(input, e). length input)")
    (auto dest!: decode_field_shorter GetVarint32_shorter)

declare DecodeFrom_loop.simps [simp del]

definition ve_DecodeFrom :: "VersionEdit \<Rightarrow> bytes \<Rightarrow> Status \<times> VersionEdit" where
  "ve_DecodeFrom e src =
     (let e = ve_Clear e;
          (msg, e, input) = DecodeFrom_loop src e;
          msg = (if msg = None \<and> input \<noteq> [] then Some (str ''invalid tag'') else msg)
      in case msg of None \<Rightarrow> (Status_OK, e) | Some m \<Rightarrow> (Corruption (str ''VersionEdit'') m, e))"

definition ve_DebugString :: "VersionEdit \<Rightarrow> bytes" where
  "ve_DebugString e =
     (let nl = 10 # str ''  '';
          num = (\<lambda>r n. AppendNumberTo r (of_nat n));
          r = str ''VersionEdit {'';
          r = (if has_comparator e then r @ nl @ str ''Comparator: '' @ ve_comparator e else r);
          r = (if has_log_number e then AppendNumberTo (r @ nl @ str ''LogNumber: '') (ve_log_number e) else r);
          r = (if has_prev_log_number e
               then AppendNumberTo (r @ nl @ str ''PrevLogNumber: '') (ve_prev_log_number e) else r);
          r = (if has_next_file_number e
               then AppendNumberTo (r @ nl @ str ''NextFile: '') (ve_next_file_number e) else r);
          r = (if has_last_sequence e
               then AppendNumberTo (r @ nl @ str ''LastSeq: '') (ve_last_sequence e) else r);
          r = foldl (\<lambda>r (level, key). num (r @ nl @ str ''CompactPointer: '') level @ str '' '' @
                InternalKey_DebugString key) r (compact_pointers e);
          r = foldl (\<lambda>r (level, file). AppendNumberTo (num (r @ nl @ str ''RemoveFile: '') level @ str '' '') file)
                r (deleted_files e);
          r = foldl (\<lambda>r (level, f).
                let r = num (r @ nl @ str ''AddFile: '') level @ str '' '';
                    r = AppendNumberTo r (number f) @ str '' '';
                    r = AppendNumberTo r (file_size f) @ str '' ''
                in r @ InternalKey_DebugString (smallest f) @ str '' .. '' @ InternalKey_DebugString (largest f))
              r (new_files e)
      in r @ 10 # str [CHR 125] @ [10])"

section \<open>Lemmas\<close>

text \<open>The serialization as a list of fields.\<close>

datatype field =
  F_Comparator bytes | F_LogNumber u64 | F_PrevLogNumber u64 | F_NextFile u64 | F_LastSequence u64
| F_CompactPointer nat bytes | F_DeletedFile nat u64 | F_NewFile nat FileMetaData

abbreviation v32 :: "u32 \<Rightarrow> bytes" where "v32 \<equiv> EncodeVarint32"
abbreviation v64 :: "u64 \<Rightarrow> bytes" where "v64 \<equiv> EncodeVarint64"

fun field_tag :: "field \<Rightarrow> u32" where
  "field_tag (F_Comparator s) = kComparator"
| "field_tag (F_LogNumber n) = kLogNumber"
| "field_tag (F_PrevLogNumber n) = kPrevLogNumber"
| "field_tag (F_NextFile n) = kNextFileNumber"
| "field_tag (F_LastSequence n) = kLastSequence"
| "field_tag (F_CompactPointer l k) = kCompactPointer"
| "field_tag (F_DeletedFile l n) = kDeletedFile"
| "field_tag (F_NewFile l f) = kNewFile"

fun field_payload :: "field \<Rightarrow> bytes" where
  "field_payload (F_Comparator s) = lps s"
| "field_payload (F_LogNumber n) = v64 n"
| "field_payload (F_PrevLogNumber n) = v64 n"
| "field_payload (F_NextFile n) = v64 n"
| "field_payload (F_LastSequence n) = v64 n"
| "field_payload (F_CompactPointer l k) = v32 (of_nat l) @ lps k"
| "field_payload (F_DeletedFile l n) = v32 (of_nat l) @ v64 n"
| "field_payload (F_NewFile l f) = v32 (of_nat l) @ v64 (number f) @ v64 (file_size f) @
     lps (smallest f) @ lps (largest f)"

definition field_bytes :: "field \<Rightarrow> bytes" where
  "field_bytes fd = v32 (field_tag fd) @ field_payload fd"

fun wf_field :: "field \<Rightarrow> bool" where
  "wf_field (F_Comparator s) \<longleftrightarrow> length s < 2 ^ 32"
| "wf_field (F_CompactPointer l k) \<longleftrightarrow> l < kNumLevels \<and> k \<noteq> [] \<and> length k < 2 ^ 32"
| "wf_field (F_DeletedFile l n) \<longleftrightarrow> l < kNumLevels"
| "wf_field (F_NewFile l f) \<longleftrightarrow> l < kNumLevels \<and> smallest f \<noteq> [] \<and> length (smallest f) < 2 ^ 32 \<and>
     largest f \<noteq> [] \<and> length (largest f) < 2 ^ 32 \<and> refs f = 0 \<and> allowed_seeks f = 2 ^ 30"
| "wf_field _ \<longleftrightarrow> True"

fun apply_field :: "field \<Rightarrow> VersionEdit \<Rightarrow> VersionEdit" where
  "apply_field (F_Comparator s) e = SetComparatorName e s"
| "apply_field (F_LogNumber n) e = SetLogNumber e n"
| "apply_field (F_PrevLogNumber n) e = SetPrevLogNumber e n"
| "apply_field (F_NextFile n) e = SetNextFile e n"
| "apply_field (F_LastSequence n) e = SetLastSequence e n"
| "apply_field (F_CompactPointer l k) e = SetCompactPointer e l k"
| "apply_field (F_DeletedFile l n) e = RemoveFile e l n"
| "apply_field (F_NewFile l f) e = AddFile e l (number f) (file_size f) (smallest f) (largest f)"

definition ve_fields :: "VersionEdit \<Rightarrow> field list" where
  "ve_fields e =
     (if has_comparator e then [F_Comparator (ve_comparator e)] else []) @
     (if has_log_number e then [F_LogNumber (ve_log_number e)] else []) @
     (if has_prev_log_number e then [F_PrevLogNumber (ve_prev_log_number e)] else []) @
     (if has_next_file_number e then [F_NextFile (ve_next_file_number e)] else []) @
     (if has_last_sequence e then [F_LastSequence (ve_last_sequence e)] else []) @
     map (\<lambda>(l, k). F_CompactPointer l k) (compact_pointers e) @
     map (\<lambda>(l, n). F_DeletedFile l n) (deleted_files e) @
     map (\<lambda>(l, f). F_NewFile l f) (new_files e)"

lemma Put_eqs: "PutVarint32 dst v = dst @ v32 v" "PutVarint64 dst n = dst @ v64 n"
  by (simp_all add: PutVarint32_def PutVarint64_def)

lemma Put_lps: "PutLengthPrefixedSlice (dst @ xs) s = dst @ xs @ lps s"
  using PutLengthPrefixedSlice_append [of "dst @ xs" s] by simp

lemma foldl_append: "(\<And>dst x. f dst x = dst @ g x) \<Longrightarrow> foldl f dst xs = dst @ concat (map g xs)"
  by (induction xs arbitrary: dst) simp_all

lemma EncodeTo_fields: "ve_EncodeTo e dst = dst @ concat (map field_bytes (ve_fields e))"
proof -
  have p: "foldl (\<lambda>dst (level, key). PutLengthPrefixedSlice (PutVarint32 (PutVarint32 dst kCompactPointer) (of_nat level)) key)
      d (compact_pointers e) = d @ concat (map (\<lambda>(l, k). field_bytes (F_CompactPointer l k)) (compact_pointers e))" for d
    by (rule foldl_append) (auto simp: Put_eqs Put_lps field_bytes_def)
  have q: "foldl (\<lambda>dst (level, num). PutVarint64 (PutVarint32 (PutVarint32 dst kDeletedFile) (of_nat level)) num)
      d (deleted_files e) = d @ concat (map (\<lambda>(l, n). field_bytes (F_DeletedFile l n)) (deleted_files e))" for d
    by (rule foldl_append) (auto simp: Put_eqs field_bytes_def)
  have r: "foldl (\<lambda>dst (level, f).
           let dst = PutVarint32 (PutVarint32 dst kNewFile) (of_nat level);
               dst = PutVarint64 (PutVarint64 dst (number f)) (file_size f)
           in PutLengthPrefixedSlice (PutLengthPrefixedSlice dst (smallest f)) (largest f))
      d (new_files e) = d @ concat (map (\<lambda>(l, f). field_bytes (F_NewFile l f)) (new_files e))" for d
    by (rule foldl_append) (auto simp: Put_eqs Put_lps Let_def field_bytes_def)
  show ?thesis
    unfolding ve_EncodeTo_def Let_def p q r [unfolded Let_def]
    by (simp add: ve_fields_def Put_eqs Put_lps field_bytes_def case_prod_unfold comp_def)
qed

lemma GetLevel_enc [simp]: "l < kNumLevels \<Longrightarrow> GetLevel (v32 (of_nat l) @ rest) = Some (l, rest)"
  by (auto simp: GetLevel_def kNumLevels_def word_less_nat_alt unat_of_nat_eq)

lemma GetInternalKey_enc [simp]: "k \<noteq> [] \<Longrightarrow> length k < 2 ^ 32 \<Longrightarrow> GetInternalKey (lps k @ rest) = Some (k, rest)"
  by (simp add: GetInternalKey_def InternalKey_DecodeFrom_def)

lemma FileMetaData_eq: "refs f = 0 \<Longrightarrow> allowed_seeks f = 2 ^ 30 \<Longrightarrow>
  new_FileMetaData\<lparr>number := number f, file_size := file_size f, smallest := smallest f, largest := largest f\<rparr> = f"
  by (cases f) (simp add: new_FileMetaData_def)

lemma decode_field_enc:
  "wf_field fd \<Longrightarrow> decode_field (field_tag fd) (field_payload fd @ rest) e = Inr (apply_field fd e, rest)"
  by (cases fd) (simp_all add: decode_field_def tag_defs SetComparatorName_def SetLogNumber_def SetPrevLogNumber_def
      SetNextFile_def SetLastSequence_def SetCompactPointer_def RemoveFile_def AddFile_def)

lemma DecodeFrom_loop_field:
  "wf_field fd \<Longrightarrow> DecodeFrom_loop (field_bytes fd @ rest) e = DecodeFrom_loop rest (apply_field fd e)"
  by (subst DecodeFrom_loop.simps) (simp add: field_bytes_def decode_field_enc)

lemma DecodeFrom_loop_fields:
  "\<forall>fd\<in>set fds. wf_field fd \<Longrightarrow>
     DecodeFrom_loop (concat (map field_bytes fds)) e = (None, fold apply_field fds e, [])"
proof (induction fds arbitrary: e)
  case Nil
  then show ?case by (simp add: DecodeFrom_loop.simps GetVarint32PtrFallback_def)
qed (simp add: DecodeFrom_loop_field)

lemma insort_insert_last:
  "sorted_wrt (<) (xs @ [x]) \<Longrightarrow> insort_insert x xs = xs @ [x :: 'a::linorder]"
proof -
  assume s: "sorted_wrt (<) (xs @ [x])"
  then have "x \<notin> set xs" by (auto simp: sorted_wrt_append)
  moreover have "insort x xs = xs @ [x]"
    using s by (induction xs) (auto simp: sorted_wrt_append dest: leD)
  ultimately show ?thesis by (simp add: insort_insert_key_def)
qed

lemma fold_deleted:
  "sorted_wrt (<) (deleted_files e @ ds) \<Longrightarrow>
     fold apply_field (map (\<lambda>(l, n). F_DeletedFile l n) ds) e = e\<lparr>deleted_files := deleted_files e @ ds\<rparr>"
proof (induction ds arbitrary: e)
  case (Cons d ds)
  obtain l n where d: "d = (l, n)" by (cases d)
  have "insort_insert (l, n) (deleted_files e) = deleted_files e @ [(l, n)]"
    using Cons.prems d by (intro insort_insert_last) (auto simp: sorted_wrt_append)
  then show ?case using Cons.IH [of "e\<lparr>deleted_files := deleted_files e @ [d]\<rparr>"] Cons.prems d
    by (simp add: RemoveFile_def)
qed simp

lemma fold_compact:
  "fold apply_field (map (\<lambda>(l, k). F_CompactPointer l k) cs) e = e\<lparr>compact_pointers := compact_pointers e @ cs\<rparr>"
  by (induction cs arbitrary: e) (auto simp: SetCompactPointer_def)

lemma fold_new:
  "\<forall>(l, f)\<in>set fs. refs f = 0 \<and> allowed_seeks f = 2 ^ 30 \<Longrightarrow>
     fold apply_field (map (\<lambda>(l, f). F_NewFile l f) fs) e = e\<lparr>new_files := new_files e @ fs\<rparr>"
  by (induction fs arbitrary: e) (auto simp: AddFile_def FileMetaData_eq Let_def)

text \<open>
  What an edit built by the setters satisfies: absent fields have their default values, the set
  of deleted files is a set, and its files, levels and keys fit the format.
\<close>

definition wf_edit :: "VersionEdit \<Rightarrow> bool" where
  "wf_edit e \<longleftrightarrow>
     (\<not> has_comparator e \<longrightarrow> ve_comparator e = []) \<and> (\<not> has_log_number e \<longrightarrow> ve_log_number e = 0) \<and>
     (\<not> has_prev_log_number e \<longrightarrow> ve_prev_log_number e = 0) \<and>
     (\<not> has_next_file_number e \<longrightarrow> ve_next_file_number e = 0) \<and>
     (\<not> has_last_sequence e \<longrightarrow> ve_last_sequence e = 0) \<and>
     sorted_wrt (<) (deleted_files e) \<and> list_all wf_field (ve_fields e)"

lemma fold_opt: "fold f (if b then [x] else []) e = (if b then f x e else e)"
  by simp

text \<open>On an edit with the field absent, an optional setter is one record update.\<close>

lemma opt_setters:
  "\<not> has_comparator e \<Longrightarrow> ve_comparator e = [] \<Longrightarrow> (\<not> b \<longrightarrow> xve_comparator = []) \<Longrightarrow>
     (if b then SetComparatorName e xve_comparator else e) = e\<lparr>has_comparator := b, ve_comparator := xve_comparator\<rparr>"
  "\<not> has_log_number e \<Longrightarrow> ve_log_number e = 0 \<Longrightarrow> (\<not> b \<longrightarrow> xve_log_number = 0) \<Longrightarrow>
     (if b then SetLogNumber e xve_log_number else e) = e\<lparr>has_log_number := b, ve_log_number := xve_log_number\<rparr>"
  "\<not> has_prev_log_number e \<Longrightarrow> ve_prev_log_number e = 0 \<Longrightarrow> (\<not> b \<longrightarrow> xve_prev_log_number = 0) \<Longrightarrow>
     (if b then SetPrevLogNumber e xve_prev_log_number else e) = e\<lparr>has_prev_log_number := b, ve_prev_log_number := xve_prev_log_number\<rparr>"
  "\<not> has_next_file_number e \<Longrightarrow> ve_next_file_number e = 0 \<Longrightarrow> (\<not> b \<longrightarrow> xve_next_file_number = 0) \<Longrightarrow>
     (if b then SetNextFile e xve_next_file_number else e) = e\<lparr>has_next_file_number := b, ve_next_file_number := xve_next_file_number\<rparr>"
  "\<not> has_last_sequence e \<Longrightarrow> ve_last_sequence e = 0 \<Longrightarrow> (\<not> b \<longrightarrow> xve_last_sequence = 0) \<Longrightarrow>
     (if b then SetLastSequence e xve_last_sequence else e) = e\<lparr>has_last_sequence := b, ve_last_sequence := xve_last_sequence\<rparr>"
  by (simp_all add: SetComparatorName_def SetLogNumber_def SetPrevLogNumber_def SetNextFile_def SetLastSequence_def)

lemma fold_ve_fields:
  assumes "wf_edit e"
  shows "fold apply_field (ve_fields e) (ve_Clear e0) = e\<lparr>compact_pointers := compact_pointers e0 @ compact_pointers e\<rparr>"
proof -
  have "refs f = 0 \<and> allowed_seeks f = 2 ^ 30" if "(l, f) \<in> set (new_files e)" for l f
  proof -
    have "F_NewFile l f \<in> set (ve_fields e)" using that unfolding ve_fields_def by force
    with assms have "wf_field (F_NewFile l f)" unfolding wf_edit_def list_all_iff by blast
    then show ?thesis by simp
  qed
  then have nf: "\<forall>(l, f)\<in>set (new_files e). refs f = 0 \<and> allowed_seeks f = 2 ^ 30" by blast
  have df: "fold apply_field (map (\<lambda>(l, n). F_DeletedFile l n) (deleted_files e)) e1 =
      e1\<lparr>deleted_files := deleted_files e\<rparr>" if "deleted_files e1 = []" for e1
    using fold_deleted [of e1 "deleted_files e"] assms that by (simp add: wf_edit_def)
  show ?thesis
    using assms unfolding wf_edit_def ve_fields_def fold_append o_def fold_opt fold_compact fold_new [OF nf] apply_field.simps
    by (simp add: opt_setters ve_Clear_def df split del: if_split)
qed

lemma Decode_Encode:
  assumes "wf_edit e"
  shows "ve_DecodeFrom e0 (ve_EncodeTo e []) = (Status_OK, e\<lparr>compact_pointers := compact_pointers e0 @ compact_pointers e\<rparr>)"
  using assms DecodeFrom_loop_fields [of "ve_fields e"]
  by (simp add: ve_DecodeFrom_def EncodeTo_fields fold_ve_fields wf_edit_def list_all_iff)

section \<open>Properties\<close>

text \<open>
  C40. Version edits round-trip: decoding the serialization of a well-formed edit into a fresh edit
  returns OK and exactly that edit. Decoding into an edit that was used before does not: \<open>Clear\<close>
  forgets everything but the compaction pointers, so the old ones stay in front of the decoded ones.
\<close>

theorem version_edit_roundtrip:
  assumes "wf_edit e"
  shows "ve_DecodeFrom new_VersionEdit (ve_EncodeTo e []) = (Status_OK, e) \<and>
    ve_DecodeFrom e0 (ve_EncodeTo e []) = (Status_OK, e\<lparr>compact_pointers := compact_pointers e0 @ compact_pointers e\<rparr>)"
proof -
  have "compact_pointers new_VersionEdit = []" by (simp add: new_VersionEdit_def ve_Clear_def)
  then show ?thesis using Decode_Encode [OF assms, of new_VersionEdit] Decode_Encode [OF assms, of e0] by simp
qed

theorem version_edit_roundtrip_witness:
  "ve_DecodeFrom new_VersionEdit (ve_EncodeTo
      (AddFile (RemoveFile (SetLogNumber new_VersionEdit 5) 2 7) 1 9 100 [1,1,0,0,0,0,0,0,0] [2,1,0,0,0,0,0,0,0]) []) =
    (Status_OK, AddFile (RemoveFile (SetLogNumber new_VersionEdit 5) 2 7) 1 9 100 [1,1,0,0,0,0,0,0,0] [2,1,0,0,0,0,0,0,0])"
  by (rule version_edit_roundtrip [THEN conjunct1])
    (simp add: wf_edit_def ve_fields_def AddFile_def RemoveFile_def SetLogNumber_def new_VersionEdit_def ve_Clear_def
      insort_insert_key_def kNumLevels_def new_FileMetaData_def)

end
