(* ===== verification/Iterators.thy ===== *)
theory Iterators
  imports Comparators Statuses "HOL-Library.Multiset"
begin

text \<open>
  The \<open>Iterator\<close> interface (\<open>include/leveldb/iterator.h\<close>), the empty iterator and the cleanup list
  (\<open>table/iterator.cc\<close>) and the caching wrapper (\<open>table/iterator_wrapper.h\<close>). An iterator class is a
  record of its virtual methods over the type of its states, so that iterators over iterators
  are functions from such records to such records. What the interface documents is the locale
  \<open>list_iterator\<close>: a state stands at a position of a list of entries.
\<close>

section \<open>Definitions\<close>

subsection \<open>The interface\<close>

record 's Iterator =
  Valid :: "'s \<Rightarrow> bool"
  SeekToFirst :: "'s \<Rightarrow> 's"
  SeekToLast :: "'s \<Rightarrow> 's"
  Seek :: "'s \<Rightarrow> bytes \<Rightarrow> 's"
  Next :: "'s \<Rightarrow> 's"
  Prev :: "'s \<Rightarrow> 's"
  ikey :: "'s \<Rightarrow> bytes"
  ivalue :: "'s \<Rightarrow> bytes"
  istatus :: "'s \<Rightarrow> Status"

subsection \<open>The empty iterator\<close>

text \<open>Its state is the status it was made with; the methods that assert are never called.\<close>

definition EmptyIterator :: "Status Iterator" where
  "EmptyIterator =
     \<lparr>Valid = (\<lambda>s. False), SeekToFirst = (\<lambda>s. s), SeekToLast = (\<lambda>s. s), Seek = (\<lambda>s target. s),
      Next = (\<lambda>s. s), Prev = (\<lambda>s. s), ikey = (\<lambda>s. []), ivalue = (\<lambda>s. []), istatus = (\<lambda>s. s)\<rparr>"

definition NewEmptyIterator :: Status where
  "NewEmptyIterator = Status_OK"

definition NewErrorIterator :: "Status \<Rightarrow> Status" where
  "NewErrorIterator s = s"

subsection \<open>Cleanup functions\<close>

text \<open>
  The head node inlined in the iterator, unused or used, and the nodes after it. A cleanup function
  with its arguments is a value of a type of the client's.
\<close>

record 'f CleanupList =
  cleanup_head :: "'f option"
  cleanup_next :: "'f list"

definition new_CleanupList :: "'f CleanupList" where
  "new_CleanupList = \<lparr>cleanup_head = None, cleanup_next = []\<rparr>"

definition RegisterCleanup :: "'f CleanupList \<Rightarrow> 'f \<Rightarrow> 'f CleanupList" where
  "RegisterCleanup cl f =
     (case cleanup_head cl of
        None \<Rightarrow> cl\<lparr>cleanup_head := Some f\<rparr>
      | Some h \<Rightarrow> cl\<lparr>cleanup_next := f # cleanup_next cl\<rparr>)"

text \<open>What the destructor runs, in order.\<close>

definition destroy_Iterator :: "'f CleanupList \<Rightarrow> 'f list" where
  "destroy_Iterator cl =
     (case cleanup_head cl of None \<Rightarrow> [] | Some h \<Rightarrow> h # cleanup_next cl)"

subsection \<open>The caching wrapper\<close>

record 's IteratorWrapper =
  w_iter :: "'s option"
  w_valid :: bool
  w_key :: bytes

definition null_Wrapper :: "'s IteratorWrapper" where
  "null_Wrapper = \<lparr>w_iter = None, w_valid = False, w_key = []\<rparr>"

definition w_Update :: "'s Iterator \<Rightarrow> 's IteratorWrapper \<Rightarrow> 's IteratorWrapper" where
  "w_Update it w =
     (case w_iter w of
        None \<Rightarrow> w
      | Some s \<Rightarrow> if Valid it s then w\<lparr>w_valid := True, w_key := ikey it s\<rparr> else w\<lparr>w_valid := False\<rparr>)"

definition w_Set :: "'s Iterator \<Rightarrow> 's IteratorWrapper \<Rightarrow> 's option \<Rightarrow> 's IteratorWrapper" where
  "w_Set it w iter =
     (let w = w\<lparr>w_iter := iter\<rparr>
      in case iter of None \<Rightarrow> w\<lparr>w_valid := False\<rparr> | Some s \<Rightarrow> w_Update it w)"

definition w_apply :: "'s Iterator \<Rightarrow> ('s \<Rightarrow> 's) \<Rightarrow> 's IteratorWrapper \<Rightarrow> 's IteratorWrapper" where
  "w_apply it f w = w_Update it (w\<lparr>w_iter := map_option f (w_iter w)\<rparr>)"

text \<open>
  The wrapper as an iterator; its methods require an iterator inside.
\<close>

definition Wrapped :: "'s Iterator \<Rightarrow> 's IteratorWrapper Iterator" where
  "Wrapped it =
     \<lparr>Valid = w_valid,
      SeekToFirst = w_apply it (SeekToFirst it),
      SeekToLast = w_apply it (SeekToLast it),
      Seek = (\<lambda>w k. w_apply it (\<lambda>s. Seek it s k) w),
      Next = w_apply it (Next it),
      Prev = w_apply it (Prev it),
      ikey = w_key,
      ivalue = (\<lambda>w. ivalue it (the (w_iter w))),
      istatus = (\<lambda>w. istatus it (the (w_iter w)))\<rparr>"

section \<open>The contract\<close>

text \<open>The position of the first entry at or past a target.\<close>

definition lower_bound :: "comparator \<Rightarrow> (bytes \<times> bytes) list \<Rightarrow> bytes \<Rightarrow> nat" where
  "lower_bound c es target = length (takeWhile (\<lambda>e. Compare c (fst e) target < 0) es)"

text \<open>
  In the contract, \<open>rep s es i\<close>: the state \<open>s\<close> stands at entry \<open>i\<close> of the list \<open>es\<close>, or is not valid when \<open>i\<close> is the length
  of the list.
\<close>

text \<open>Scans: at most \<open>n\<close> entries read from a position, forward or backward.\<close>

fun read_forward :: "'s Iterator \<Rightarrow> nat \<Rightarrow> 's \<Rightarrow> (bytes \<times> bytes) list" where
  "read_forward it 0 s = []"
| "read_forward it (Suc n) s =
     (if Valid it s then (ikey it s, ivalue it s) # read_forward it n (Next it s) else [])"

fun read_backward :: "'s Iterator \<Rightarrow> nat \<Rightarrow> 's \<Rightarrow> (bytes \<times> bytes) list" where
  "read_backward it 0 s = []"
| "read_backward it (Suc n) s =
     (if Valid it s then (ikey it s, ivalue it s) # read_backward it n (Prev it s) else [])"

locale list_iterator =
  fixes it :: "'s Iterator" and c :: comparator and ok :: "bytes \<Rightarrow> bool"
    and rep :: "'s \<Rightarrow> (bytes \<times> bytes) list \<Rightarrow> nat \<Rightarrow> bool"
  assumes rep_le: "rep s es i \<Longrightarrow> i \<le> length es"
    and rep_Valid: "rep s es i \<Longrightarrow> Valid it s \<longleftrightarrow> i < length es"
    and rep_key: "rep s es i \<Longrightarrow> i < length es \<Longrightarrow> ikey it s = fst (es ! i)"
    and rep_value: "rep s es i \<Longrightarrow> i < length es \<Longrightarrow> ivalue it s = snd (es ! i)"
    and rep_status: "rep s es i \<Longrightarrow> istatus it s = Status_OK"
    and rep_SeekToFirst: "rep s es i \<Longrightarrow> rep (SeekToFirst it s) es 0"
    and rep_SeekToLast: "rep s es i \<Longrightarrow> rep (SeekToLast it s) es (length es - 1)"
    and rep_Seek: "rep s es i \<Longrightarrow> ok target \<Longrightarrow> rep (Seek it s target) es (lower_bound c es target)"
    and rep_Next: "rep s es i \<Longrightarrow> i < length es \<Longrightarrow> rep (Next it s) es (Suc i)"
    and rep_Prev: "rep s es i \<Longrightarrow> i < length es \<Longrightarrow>
      rep (Prev it s) es (if i = 0 then length es else i - 1)"
begin

lemmas rep_simps = rep_Valid rep_key rep_value rep_status

lemma read_forward_eq: "rep s es i \<Longrightarrow> read_forward it n s = take n (drop i es)"
proof (induction n arbitrary: s i)
  case (Suc n)
  show ?case
  proof (cases "i < length es")
    case True
    then have "take (Suc n) (drop i es) = es ! i # take n (drop (Suc i) es)"
      by (simp add: Cons_nth_drop_Suc [symmetric])
    then show ?thesis using Suc True by (simp add: rep_simps rep_Next)
  qed (use Suc rep_simps in simp)
qed simp

lemma read_from_first: "rep s es i \<Longrightarrow> read_forward it n (SeekToFirst it s) = take n es"
  by (simp add: read_forward_eq [OF rep_SeekToFirst])

lemma read_from_seek:
  assumes "rep s es i" "ok target"
  shows "read_forward it n (Seek it s target) = take n (dropWhile (\<lambda>e. Compare c (fst e) target < 0) es)"
  using read_forward_eq [OF rep_Seek [OF assms], of n] by (simp add: lower_bound_def dropWhile_eq_drop)

lemma read_backward_eq: "rep s es i \<Longrightarrow> i < length es \<Longrightarrow> read_backward it n s = take n (rev (take (Suc i) es))"
proof (induction n arbitrary: s i)
  case (Suc n)
  have t: "rev (take (Suc i) es) = es ! i # rev (take i es)" using Suc.prems by (simp add: take_Suc_conv_app_nth)
  note p = rep_Prev [OF Suc.prems]
  show ?case
  proof (cases i)
    case 0
    then have "rep (Prev it s) es (length es)" using p by simp
    then have "read_backward it n (Prev it s) = []" by (cases n) (simp_all add: rep_Valid)
    then show ?thesis using Suc.prems t 0 by (simp add: rep_simps)
  next
    case (Suc j)
    then show ?thesis using Suc.IH [of "Prev it s" j] p Suc.prems t by (simp add: rep_simps)
  qed
qed simp

lemma read_from_last:
  assumes "rep s es i" shows "read_backward it n (SeekToLast it s) = take n (rev es)"
proof (cases es)
  case Nil
  then show ?thesis using rep_Valid [OF rep_SeekToLast [OF assms]] by (cases n) simp_all
next
  case Cons
  then show ?thesis using read_backward_eq [OF rep_SeekToLast [OF assms]] by simp
qed

end

text \<open>The wrapper keeps the contract of what it wraps.\<close>

definition wrapped_rep ::
  "'s Iterator \<Rightarrow> ('s \<Rightarrow> (bytes \<times> bytes) list \<Rightarrow> nat \<Rightarrow> bool) \<Rightarrow> 's IteratorWrapper \<Rightarrow> (bytes \<times> bytes) list \<Rightarrow> nat \<Rightarrow> bool" where
  "wrapped_rep it rep w es i \<longleftrightarrow>
     (\<exists>s. w_iter w = Some s \<and> rep s es i \<and> w_valid w = Valid it s \<and> (w_valid w \<longrightarrow> w_key w = ikey it s))"

lemma wrapped_apply:
  "wrapped_rep it rep w es i \<Longrightarrow> (\<And>s. rep s es i \<Longrightarrow> rep (f s) es j) \<Longrightarrow> wrapped_rep it rep (w_apply it f w) es j"
  by (auto simp: wrapped_rep_def w_apply_def w_Update_def)

lemma wrapped_Set: "rep s es i \<Longrightarrow> wrapped_rep it rep (w_Set it w (Some s)) es i"
  by (auto simp: wrapped_rep_def w_Set_def w_Update_def Let_def)

context list_iterator
begin

lemma wrapped_list_iterator: "list_iterator (Wrapped it) c ok (wrapped_rep it rep)"
proof
  fix w es i target
  assume w: "wrapped_rep it rep w es i"
  then obtain s where s: "w_iter w = Some s" "rep s es i" "w_valid w = Valid it s" "w_valid w \<longrightarrow> w_key w = ikey it s"
    by (auto simp: wrapped_rep_def)
  show "i \<le> length es" using s by (simp add: rep_le)
  show "Valid (Wrapped it) w \<longleftrightarrow> i < length es" using s by (simp add: Wrapped_def rep_Valid)
  show "istatus (Wrapped it) w = Status_OK" using s by (simp add: Wrapped_def rep_status)
  show "wrapped_rep it rep (SeekToFirst (Wrapped it) w) es 0"
    using wrapped_apply [OF w rep_SeekToFirst] by (simp add: Wrapped_def)
  show "wrapped_rep it rep (SeekToLast (Wrapped it) w) es (length es - 1)"
    using wrapped_apply [OF w rep_SeekToLast] by (simp add: Wrapped_def)
  show "wrapped_rep it rep (Seek (Wrapped it) w target) es (lower_bound c es target)" if "ok target"
    using wrapped_apply [OF w rep_Seek, OF _ that] by (simp add: Wrapped_def)
  assume i: "i < length es"
  show "ikey (Wrapped it) w = fst (es ! i)" "ivalue (Wrapped it) w = snd (es ! i)"
    using s i by (simp_all add: Wrapped_def rep_simps)
  show "wrapped_rep it rep (Next (Wrapped it) w) es (Suc i)"
    using wrapped_apply [OF w rep_Next, OF _ i] by (simp add: Wrapped_def)
  show "wrapped_rep it rep (Prev (Wrapped it) w) es (if i = 0 then length es else i - 1)"
    using wrapped_apply [OF w rep_Prev, OF _ i] by (simp add: Wrapped_def)
qed

end

interpretation empty_iterator: list_iterator EmptyIterator c "\<lambda>_. True" "\<lambda>s es i. s = Status_OK \<and> es = [] \<and> i = 0" for c
  by unfold_locales (auto simp: EmptyIterator_def lower_bound_def)

section \<open>Lemmas\<close>

lemma lower_bound_le: "lower_bound c es target \<le> length es"
  by (simp add: lower_bound_def length_takeWhile_le)

lemma lower_bound_less: "i < lower_bound c es target \<Longrightarrow> Compare c (fst (es ! i)) target < 0"
  by (metis (mono_tags, lifting) lower_bound_def nth_mem set_takeWhileD takeWhile_nth)

lemma lower_bound_ge: "lower_bound c es target < length es \<Longrightarrow> \<not> Compare c (fst (es ! lower_bound c es target)) target < 0"
  using nth_length_takeWhile [of "\<lambda>e. Compare c (fst e) target < 0" es] by (simp add: lower_bound_def)

lemma lower_bound_unique:
  assumes "m \<le> length es" "\<And>j. j < m \<Longrightarrow> Compare c (fst (es ! j)) target < 0"
    "m < length es \<Longrightarrow> \<not> Compare c (fst (es ! m)) target < 0"
  shows "lower_bound c es target = m"
proof (rule ccontr)
  assume "lower_bound c es target \<noteq> m"
  then consider "lower_bound c es target < m" | "m < lower_bound c es target" by linarith
  then show False
  proof cases
    case 1
    with assms show False using lower_bound_ge [of c es target] by fastforce
  next
    case 2
    with assms show False using lower_bound_less [of m c es target] lower_bound_le [of c es target] by force
  qed
qed

text \<open>Keys sorted strictly by a comparator that is a total order on the keys in use.\<close>

definition sorted_entries :: "comparator \<Rightarrow> (bytes \<Rightarrow> bool) \<Rightarrow> (bytes \<times> bytes) list \<Rightarrow> bool" where
  "sorted_entries c okk es \<longleftrightarrow>
     comparator_contract c okk \<and> (\<forall>e\<in>set es. okk (fst e)) \<and> sorted_wrt (\<lambda>a b. Compare c (fst a) (fst b) < 0) es"

lemma sorted_less_target:
  assumes "sorted_entries c okk es" "okk target" "i \<le> j" "j < length es" "Compare c (fst (es ! j)) target < 0"
  shows "Compare c (fst (es ! i)) target < 0"
proof (cases "i = j")
  case False
  then have "Compare c (fst (es ! i)) (fst (es ! j)) < 0"
    using assms by (simp add: sorted_entries_def sorted_wrt_iff_nth_less)
  moreover have "okk (fst (es ! i))" "okk (fst (es ! j))" using assms False by (simp_all add: sorted_entries_def)
  ultimately show ?thesis
    using comparator_contract.Compare_trans [of c okk] assms unfolding sorted_entries_def by blast
qed (use assms in simp)

lemma cleanup_mset:
  assumes "cleanup_head cl = None \<Longrightarrow> cleanup_next cl = []"
  shows "mset (destroy_Iterator (foldl RegisterCleanup cl fs)) = mset (destroy_Iterator cl) + mset fs"
  using assms
proof (induction fs arbitrary: cl)
  case (Cons f fs)
  have "mset (destroy_Iterator (RegisterCleanup cl f)) = mset (destroy_Iterator cl) + {#f#}"
    using Cons.prems by (cases "cleanup_head cl") (simp_all add: destroy_Iterator_def RegisterCleanup_def)
  moreover have "cleanup_head (RegisterCleanup cl f) = None \<Longrightarrow> cleanup_next (RegisterCleanup cl f) = []"
    by (simp add: RegisterCleanup_def split: option.splits)
  ultimately show ?case using Cons.IH [of "RegisterCleanup cl f"] by simp
qed simp

end
