(* ===== verification/Blocks.thy ===== *)
theory Blocks
  imports Iterators
begin

text \<open>
  \<open>table/block_builder.cc\<close> and \<open>table/block.cc\<close>: the prefix-compressed blocks of a table file.
  Offsets into a block are natural numbers where the code holds pointers and 32-bit words where
  it holds \<open>uint32_t\<close> (\<open>restarts_\<close>, \<open>current_\<close>, the lengths of an entry); indices into the
  restart array are natural numbers, as they stay below \<open>num_restarts_\<close>. A corrupted entry can make
  the code read past the block: the iterator state has a flag for it.
\<close>

section \<open>Definitions\<close>

subsection \<open>The block builder\<close>

record BlockBuilder =
  bb_interval :: nat
  bb_buffer :: bytes
  bb_restarts :: "u32 list"
  bb_counter :: nat
  bb_finished :: bool
  bb_last_key :: bytes

definition new_BlockBuilder :: "nat \<Rightarrow> BlockBuilder" where
  "new_BlockBuilder block_restart_interval =
     \<lparr>bb_interval = block_restart_interval, bb_buffer = [], bb_restarts = [0], bb_counter = 0,
      bb_finished = False, bb_last_key = []\<rparr>"

definition bb_Reset :: "BlockBuilder \<Rightarrow> BlockBuilder" where
  "bb_Reset b = b\<lparr>bb_buffer := [], bb_restarts := [0], bb_counter := 0, bb_finished := False, bb_last_key := []\<rparr>"

definition bb_CurrentSizeEstimate :: "BlockBuilder \<Rightarrow> nat" where
  "bb_CurrentSizeEstimate b = length (bb_buffer b) + length (bb_restarts b) * 4 + 4"

definition bb_Finish :: "BlockBuilder \<Rightarrow> bytes \<times> BlockBuilder" where
  "bb_Finish b =
     (let buffer = foldl PutFixed32 (bb_buffer b) (bb_restarts b);
          buffer = PutFixed32 buffer (of_nat (length (bb_restarts b)))
      in (buffer, b\<lparr>bb_buffer := buffer, bb_finished := True\<rparr>))"

definition bb_empty :: "BlockBuilder \<Rightarrow> bool" where
  "bb_empty b \<longleftrightarrow> bb_buffer b = []"

text \<open>The asserted preconditions of \<open>Add\<close> (not finished, increasing keys) are hypotheses of the theorems.\<close>

definition bb_Add :: "BlockBuilder \<Rightarrow> bytes \<Rightarrow> bytes \<Rightarrow> BlockBuilder" where
  "bb_Add b key value =
     (let (shared, b) =
            (if bb_counter b < bb_interval b then (shared_prefix (bb_last_key b) key, b)
             else (0, b\<lparr>bb_restarts := bb_restarts b @ [of_nat (length (bb_buffer b))], bb_counter := 0\<rparr>));
          non_shared = length key - shared;
          buffer = PutVarint32 (bb_buffer b) (of_nat shared);
          buffer = PutVarint32 buffer (of_nat non_shared);
          buffer = PutVarint32 buffer (of_nat (length value));
          buffer = buffer @ take non_shared (drop shared key);
          buffer = buffer @ value
      in b\<lparr>bb_buffer := buffer,
           bb_last_key := take shared (bb_last_key b) @ take non_shared (drop shared key),
           bb_counter := bb_counter b + 1\<rparr>)"

subsection \<open>Blocks\<close>

record Block =
  bk_data :: bytes
  bk_size :: nat
  bk_restart_offset :: u32

definition NumRestarts :: "Block \<Rightarrow> u32" where
  "NumRestarts b = DecodeFixed32 (drop (bk_size b - 4) (bk_data b))"

definition new_Block :: "bytes \<Rightarrow> Block" where
  "new_Block contents =
     (let b = \<lparr>bk_data = contents, bk_size = length contents, bk_restart_offset = 0\<rparr>
      in if bk_size b < 4 then b\<lparr>bk_size := 0\<rparr>
         else let max_restarts_allowed = (bk_size b - 4) div 4
              in if unat (NumRestarts b) > max_restarts_allowed then b\<lparr>bk_size := 0\<rparr>
                 else b\<lparr>bk_restart_offset := of_nat (bk_size b) - (1 + NumRestarts b) * 4\<rparr>)"

text \<open>
  \<open>DecodeEntry\<close> on the bytes from \<open>p\<close> to \<open>limit\<close>: the three lengths and what follows them. The sum of
  the last two wraps at 32 bits.
\<close>

definition DecodeEntry :: "bytes \<Rightarrow> (u32 \<times> u32 \<times> u32 \<times> bytes) option" where
  "DecodeEntry p =
     (if length p < 3 then None
      else let shared = ucast (p ! 0) :: u32; non_shared = ucast (p ! 1) :: u32; value_length = ucast (p ! 2) :: u32;
               r = (if (shared OR non_shared OR value_length) < 128
                    then Some (shared, non_shared, value_length, drop 3 p)
                    else Option.bind (GetVarint32Ptr p) (\<lambda>(shared, p).
                         Option.bind (GetVarint32Ptr p) (\<lambda>(non_shared, p).
                         Option.bind (GetVarint32Ptr p) (\<lambda>(value_length, p).
                           Some (shared, non_shared, value_length, p)))))
           in case r of
                None \<Rightarrow> None
              | Some (shared, non_shared, value_length, p) \<Rightarrow>
                  if (of_nat (length p) :: u32) < non_shared + value_length then None
                  else Some (shared, non_shared, value_length, p))"

subsection \<open>The block iterator\<close>

text \<open>
  The value slice is its offset in the block and its size. \<open>bi_oob\<close> is set when the code reads
  bytes past the end of the block.
\<close>

record BlockIter =
  bi_comparator :: comparator
  bi_data :: bytes
  bi_restarts :: u32
  bi_num_restarts :: nat
  bi_current :: u32
  bi_restart_index :: nat
  bi_key :: bytes
  bi_value_slice :: "nat \<times> nat"
  bi_status :: Status
  bi_oob :: bool

definition NextEntryOffset :: "BlockIter \<Rightarrow> u32" where
  "NextEntryOffset it = of_nat (fst (bi_value_slice it) + snd (bi_value_slice it))"

definition GetRestartPoint :: "BlockIter \<Rightarrow> nat \<Rightarrow> u32" where
  "GetRestartPoint it index = DecodeFixed32 (drop (unat (bi_restarts it) + index * 4) (bi_data it))"

definition SeekToRestartPoint :: "BlockIter \<Rightarrow> nat \<Rightarrow> BlockIter" where
  "SeekToRestartPoint it index =
     it\<lparr>bi_key := [], bi_restart_index := index, bi_value_slice := (unat (GetRestartPoint it index), 0)\<rparr>"

definition new_BlockIter :: "comparator \<Rightarrow> bytes \<Rightarrow> u32 \<Rightarrow> nat \<Rightarrow> BlockIter" where
  "new_BlockIter c data restarts num_restarts =
     \<lparr>bi_comparator = c, bi_data = data, bi_restarts = restarts, bi_num_restarts = num_restarts,
      bi_current = restarts, bi_restart_index = num_restarts, bi_key = [], bi_value_slice = (0, 0),
      bi_status = Status_OK, bi_oob = False\<rparr>"

definition bi_Valid :: "BlockIter \<Rightarrow> bool" where
  "bi_Valid it \<longleftrightarrow> bi_current it < bi_restarts it"

definition bi_value :: "BlockIter \<Rightarrow> bytes" where
  "bi_value it = take (snd (bi_value_slice it)) (drop (fst (bi_value_slice it)) (bi_data it))"

definition CorruptionError :: "BlockIter \<Rightarrow> BlockIter" where
  "CorruptionError it =
     it\<lparr>bi_current := bi_restarts it, bi_restart_index := bi_num_restarts it,
        bi_status := Corruption (str ''bad entry in block'') [], bi_key := [], bi_value_slice := (0, 0)\<rparr>"

definition bi_region :: "BlockIter \<Rightarrow> nat \<Rightarrow> bytes" where
  "bi_region it p = take (unat (bi_restarts it) - p) (drop p (bi_data it))"

function advance_restart :: "BlockIter \<Rightarrow> nat \<Rightarrow> nat" where
  "advance_restart it index =
     (if index + 1 < bi_num_restarts it \<and> GetRestartPoint it (index + 1) < bi_current it
      then advance_restart it (index + 1) else index)"
  by pat_completeness auto
termination by (relation "measure (\<lambda>(it, index). bi_num_restarts it - index)") auto

declare advance_restart.simps [simp del]

definition ParseNextKey :: "BlockIter \<Rightarrow> bool \<times> BlockIter" where
  "ParseNextKey it =
     (let it = it\<lparr>bi_current := NextEntryOffset it\<rparr>
      in if bi_current it \<ge> bi_restarts it
         then (False, it\<lparr>bi_current := bi_restarts it, bi_restart_index := bi_num_restarts it\<rparr>)
         else case DecodeEntry (bi_region it (unat (bi_current it))) of
                None \<Rightarrow> (False, CorruptionError it)
              | Some (shared, non_shared, value_length, q) \<Rightarrow>
                  if length (bi_key it) < unat shared then (False, CorruptionError it)
                  else let p = unat (bi_restarts it) - length q;
                           it = it\<lparr>bi_key := take (unat shared) (bi_key it) @ take (unat non_shared) (drop p (bi_data it)),
                                   bi_oob := bi_oob it \<or> length (bi_data it) < p + unat non_shared,
                                   bi_value_slice := (p + unat non_shared, unat value_length)\<rparr>
                       in (True, it\<lparr>bi_restart_index := advance_restart it (bi_restart_index it)\<rparr>))"

definition bi_Next :: "BlockIter \<Rightarrow> BlockIter" where
  "bi_Next it = snd (ParseNextKey it)"

definition bi_SeekToFirst :: "BlockIter \<Rightarrow> BlockIter" where
  "bi_SeekToFirst it = snd (ParseNextKey (SeekToRestartPoint it 0))"

section \<open>Termination of the scans\<close>

lemma GetVarint32Ptr_shorter: "GetVarint32Ptr p = Some (v, q) \<Longrightarrow> length q < length p"
  by (simp add: GetVarint32Ptr_fallback GetVarint32_shorter)

lemma DecodeEntry_bounds:
  assumes "DecodeEntry p = Some (s, n, v, q)" "length p < 2 ^ 32"
  shows "length q + 3 \<le> length p" "unat (n + v) \<le> length q"
proof -
  show *: "length q + 3 \<le> length p"
    using assms(1) unfolding DecodeEntry_def Let_def
    by (auto split: if_splits option.splits bind_splits dest!: GetVarint32Ptr_shorter)
  have "n + v \<le> of_nat (length q)"
    using assms(1) unfolding DecodeEntry_def Let_def
    by (auto split: if_splits option.splits bind_splits simp: not_less)
  then show "unat (n + v) \<le> length q"
    using * assms(2) by (simp add: word_le_nat_alt unat_of_nat_eq)
qed

lemma ParseNextKey_consts:
  "bi_restarts (snd (ParseNextKey it)) = bi_restarts it" "bi_data (snd (ParseNextKey it)) = bi_data it"
  "bi_num_restarts (snd (ParseNextKey it)) = bi_num_restarts it"
  "bi_comparator (snd (ParseNextKey it)) = bi_comparator it"
  by (simp_all add: ParseNextKey_def Let_def CorruptionError_def split: option.splits)

lemma ParseNextKey_progress:
  assumes "ParseNextKey it = (True, it')"
  shows "NextEntryOffset it < NextEntryOffset it'" "NextEntryOffset it' \<le> bi_restarts it" "bi_restarts it' = bi_restarts it"
proof -
  let ?c = "NextEntryOffset it" and ?r = "bi_restarts it"
  from assms obtain s n v q where d: "DecodeEntry (bi_region it (unat ?c)) = Some (s, n, v, q)" and lt: "?c < ?r"
    and it': "bi_value_slice it' = (unat ?r - length q + unat n, unat v)" and r: "bi_restarts it' = ?r"
    by (auto simp: ParseNextKey_def Let_def CorruptionError_def bi_region_def not_le split: if_splits option.splits)
  have rb: "unat ?r < 2 ^ 32" using unsigned_less [of ?r] by simp
  have lr: "length (bi_region it (unat ?c)) \<le> unat ?r - unat ?c" by (simp add: bi_region_def)
  note b = DecodeEntry_bounds [OF d, OF order.strict_trans1 [OF lr]]
  have q: "length q + 3 + unat ?c \<le> unat ?r" and nv: "unat (n + v) \<le> length q" using b lr rb by linarith+
  have "NextEntryOffset it' = of_nat (unat ?r - length q + unat (n + v))"
    by (simp add: NextEntryOffset_def it')
  moreover have "unat ?r - length q + unat (n + v) < 2 ^ 32" using q nv rb by linarith
  ultimately have "unat (NextEntryOffset it') = unat ?r - length q + unat (n + v)"
    by (simp only: unat_u32)
  then show "?c < NextEntryOffset it'" "NextEntryOffset it' \<le> ?r"
    using q nv lt by (simp_all add: word_less_nat_alt word_le_nat_alt)
qed (use assms ParseNextKey_consts [of it] in simp)

lemma ParseNextKey_measure:
  assumes "(found, it') = ParseNextKey it" "found"
  shows "unat (bi_restarts it') - unat (NextEntryOffset it') < unat (bi_restarts it) - unat (NextEntryOffset it)"
  using ParseNextKey_progress [of it it'] assms by (simp add: word_less_nat_alt word_le_nat_alt)

section \<open>The scanning operations\<close>

text \<open>
  \<open>do { } while (ParseNextKey() && NextEntryOffset() < original)\<close>, and the same loop of
  \<open>SeekToLast\<close>, with \<open>original = restarts_\<close>.
\<close>

function skip_until :: "BlockIter \<Rightarrow> u32 \<Rightarrow> BlockIter" where
  "skip_until it original =
     (let (found, it') = ParseNextKey it
      in if found \<and> NextEntryOffset it' < original then skip_until it' original else it')"
  by pat_completeness auto
termination
  by (relation "measure (\<lambda>(it, original). unat (bi_restarts it) - unat (NextEntryOffset it))")
    (auto dest: ParseNextKey_measure)

fun Prev_back :: "BlockIter \<Rightarrow> u32 \<Rightarrow> nat \<Rightarrow> nat option" where
  "Prev_back it original index =
     (if GetRestartPoint it index \<ge> original
      then (case index of 0 \<Rightarrow> None | Suc i \<Rightarrow> Prev_back it original i) else Some index)"

definition bi_Prev :: "BlockIter \<Rightarrow> BlockIter" where
  "bi_Prev it =
     (let original = bi_current it
      in case Prev_back it original (bi_restart_index it) of
           None \<Rightarrow> it\<lparr>bi_current := bi_restarts it, bi_restart_index := bi_num_restarts it\<rparr>
         | Some index \<Rightarrow> skip_until (SeekToRestartPoint it index) original)"

definition bi_SeekToLast :: "BlockIter \<Rightarrow> BlockIter" where
  "bi_SeekToLast it = skip_until (SeekToRestartPoint it (bi_num_restarts it - 1)) (bi_restarts it)"

text \<open>The binary search over the restart points; no index is the corruption exit.\<close>

function Seek_search :: "BlockIter \<Rightarrow> bytes \<Rightarrow> nat \<Rightarrow> nat \<Rightarrow> BlockIter \<times> nat option" where
  "Seek_search it target left right =
     (if left < right then
        (let mid = (left + right + 1) div 2;
             region_offset = GetRestartPoint it mid
         in case DecodeEntry (bi_region it (unat region_offset)) of
              None \<Rightarrow> (CorruptionError it, None)
            | Some (shared, non_shared, value_length, q) \<Rightarrow>
                if shared \<noteq> 0 then (CorruptionError it, None)
                else let key_ptr = unat (bi_restarts it) - length q;
                         mid_key = take (unat non_shared) (drop key_ptr (bi_data it));
                         it = it\<lparr>bi_oob := bi_oob it \<or> length (bi_data it) < key_ptr + unat non_shared\<rparr>
                     in if Compare (bi_comparator it) mid_key target < 0
                        then Seek_search it target mid right
                        else Seek_search it target left (mid - 1))
      else (it, Some left))"
  by pat_completeness auto
termination by (relation "measure (\<lambda>(it, target, left, right). right - left)") auto

function Seek_scan :: "BlockIter \<Rightarrow> bytes \<Rightarrow> BlockIter" where
  "Seek_scan it target =
     (let (found, it') = ParseNextKey it
      in if \<not> found then it'
         else if Compare (bi_comparator it') (bi_key it') target \<ge> 0 then it'
         else Seek_scan it' target)"
  by pat_completeness auto
termination
  by (relation "measure (\<lambda>(it, target). unat (bi_restarts it) - unat (NextEntryOffset it))")
    (auto dest: ParseNextKey_measure)

declare skip_until.simps [simp del] Prev_back.simps [simp del] Seek_search.simps [simp del] Seek_scan.simps [simp del]

definition bi_Seek :: "BlockIter \<Rightarrow> bytes \<Rightarrow> BlockIter" where
  "bi_Seek it target =
     (case Seek_search it target 0 (bi_num_restarts it - 1) of
        (it, None) \<Rightarrow> it
      | (it, Some left) \<Rightarrow> Seek_scan (SeekToRestartPoint it left) target)"

text \<open>
  \<open>NewIterator\<close>: an empty iterator with its status on the left, or the block's iterator.
\<close>

definition Block_NewIterator :: "Block \<Rightarrow> comparator \<Rightarrow> Status + BlockIter" where
  "Block_NewIterator b c =
     (if bk_size b < 4 then Inl (Corruption (str ''bad block contents'') [])
      else let num_restarts = NumRestarts b
           in if num_restarts = 0 then Inl Status_OK
              else Inr (new_BlockIter c (bk_data b) (bk_restart_offset b) (unat num_restarts)))"

text \<open>The iterator a block gives, as an implementation of the interface.\<close>

definition Block_Iterator :: "(Status + BlockIter) Iterator" where
  "Block_Iterator =
     \<lparr>Valid = case_sum (Valid EmptyIterator) bi_Valid,
      SeekToFirst = map_sum (SeekToFirst EmptyIterator) bi_SeekToFirst,
      SeekToLast = map_sum (SeekToLast EmptyIterator) bi_SeekToLast,
      Seek = (\<lambda>s target. map_sum (\<lambda>e. Seek EmptyIterator e target) (\<lambda>it. bi_Seek it target) s),
      Next = map_sum (Next EmptyIterator) bi_Next,
      Prev = map_sum (Prev EmptyIterator) bi_Prev,
      ikey = case_sum (ikey EmptyIterator) bi_key,
      ivalue = case_sum (ivalue EmptyIterator) bi_value,
      istatus = case_sum (istatus EmptyIterator) bi_status\<rparr>"

section \<open>The layout of a block\<close>

text \<open>
  At offset \<open>off\<close> of the block stands the entry \<open>e\<close>, sharing \<open>sh\<close> bytes with the key \<open>prev\<close>, and ends at \<open>off'\<close>.
\<close>

definition entry_at :: "BlockIter \<Rightarrow> nat \<Rightarrow> nat \<Rightarrow> bytes \<Rightarrow> bytes \<times> bytes \<Rightarrow> nat \<Rightarrow> bool" where
  "entry_at it off sh prev e off' \<longleftrightarrow>
     (\<exists>q. let ns = length (fst e) - sh; p = unat (bi_restarts it) - length q in
        DecodeEntry (bi_region it off) = Some (of_nat sh, of_nat ns, of_nat (length (snd e)), q) \<and>
        sh \<le> length prev \<and> take sh prev @ drop sh (fst e) = fst e \<and> sh \<le> length (fst e) \<and>
        take ns (drop p (bi_data it)) = drop sh (fst e) \<and>
        take (length (snd e)) (drop (p + ns) (bi_data it)) = snd e \<and>
        p + ns + length (snd e) = off' \<and> off' \<le> length (bi_data it) \<and>
        length (fst e) < 2 ^ 32 \<and> length (snd e) < 2 ^ 32)"

definition prev_key :: "(bytes \<times> bytes) list \<Rightarrow> nat \<Rightarrow> bytes" where
  "prev_key es i = (if i = 0 then [] else fst (es ! (i - 1)))"

text \<open>
  The entries \<open>es\<close> lie at the offsets \<open>offs\<close>; the entries with the indices \<open>rs\<close> are the restart points.
\<close>

definition layout :: "BlockIter \<Rightarrow> (bytes \<times> bytes) list \<Rightarrow> nat list \<Rightarrow> nat list \<Rightarrow> bool" where
  "layout it es offs rs \<longleftrightarrow>
     length offs = Suc (length es) \<and> sorted_wrt (<) offs \<and> offs ! length es = unat (bi_restarts it) \<and>
     (\<forall>i < length es. \<exists>sh. entry_at it (offs ! i) sh (prev_key es i) (es ! i) (offs ! Suc i) \<and>
        (i \<in> set rs \<longrightarrow> sh = 0)) \<and>
     rs \<noteq> [] \<and> rs ! 0 = 0 \<and> sorted_wrt (<) rs \<and>
     (\<forall>r\<in>set rs. r < length es \<or> r = 0) \<and>
     bi_num_restarts it = length rs \<and> (\<forall>k < length rs. unat (GetRestartPoint it k) = offs ! (rs ! k))"

lemma layout_cong:
  "layout it es offs rs \<Longrightarrow> bi_data it' = bi_data it \<Longrightarrow> bi_restarts it' = bi_restarts it \<Longrightarrow>
     bi_num_restarts it' = bi_num_restarts it \<Longrightarrow> layout it' es offs rs"
  unfolding layout_def entry_at_def bi_region_def GetRestartPoint_def by simp

lemma layout_offs: "layout it es offs rs \<Longrightarrow> i < j \<Longrightarrow> j \<le> length es \<Longrightarrow> offs ! i < offs ! j"
  by (simp add: layout_def sorted_wrt_iff_nth_less)

lemma layout_offs_le: "layout it es offs rs \<Longrightarrow> i \<le> length es \<Longrightarrow> offs ! i \<le> unat (bi_restarts it)"
  using layout_offs [of it es offs rs i "length es"] by (cases "i = length es") (auto simp: layout_def)

lemma layout_offs_iff:
  "layout it es offs rs \<Longrightarrow> i \<le> length es \<Longrightarrow> j \<le> length es \<Longrightarrow> offs ! i < offs ! j \<longleftrightarrow> i < j"
  using layout_offs [of it es offs rs i j] layout_offs [of it es offs rs j i] by (metis linorder_neqE_nat nat_neq_iff not_less_iff_gr_or_eq)

lemma layout_rs_mono: "layout it es offs rs \<Longrightarrow> k < l \<Longrightarrow> l < length rs \<Longrightarrow> rs ! k < rs ! l"
  by (simp add: layout_def sorted_wrt_iff_nth_less)

lemma layout_rs_le: "layout it es offs rs \<Longrightarrow> k < length rs \<Longrightarrow> rs ! k \<le> length es"
  unfolding layout_def by (metis le0 less_imp_le_nat nth_mem)

lemma layout_restart: "layout it es offs rs \<Longrightarrow> k < length rs \<Longrightarrow> unat (GetRestartPoint it k) = offs ! (rs ! k)"
  by (simp add: layout_def)

lemma unat_restarts_bound: "unat (bi_restarts it) < 2 ^ 32"
  using unsigned_less [of "bi_restarts it"] by simp

text \<open>The iterator stands at entry \<open>i\<close>; it is about to parse entry \<open>i\<close>; it has run off the end.\<close>

definition bi_good :: "BlockIter \<Rightarrow> (bytes \<times> bytes) list \<Rightarrow> nat list \<Rightarrow> nat list \<Rightarrow> bool" where
  "bi_good it es offs rs \<longleftrightarrow> layout it es offs rs \<and> \<not> bi_oob it \<and> bi_status it = Status_OK"

definition bi_at :: "BlockIter \<Rightarrow> (bytes \<times> bytes) list \<Rightarrow> nat list \<Rightarrow> nat list \<Rightarrow> nat \<Rightarrow> bool" where
  "bi_at it es offs rs i \<longleftrightarrow>
     bi_good it es offs rs \<and> i < length es \<and> unat (bi_current it) = offs ! i \<and> bi_key it = fst (es ! i) \<and>
     fst (bi_value_slice it) + snd (bi_value_slice it) = offs ! Suc i \<and> bi_value it = snd (es ! i) \<and>
     bi_restart_index it < length rs \<and> rs ! bi_restart_index it \<le> i"

definition bi_before :: "BlockIter \<Rightarrow> (bytes \<times> bytes) list \<Rightarrow> nat list \<Rightarrow> nat list \<Rightarrow> nat \<Rightarrow> bool" where
  "bi_before it es offs rs i \<longleftrightarrow>
     bi_good it es offs rs \<and> i \<le> length es \<and> unat (NextEntryOffset it) = offs ! i \<and>
     (i < length es \<longrightarrow> i \<in> set rs \<or> 0 < i \<and> bi_key it = fst (es ! (i - 1))) \<and>
     bi_restart_index it < length rs \<and> rs ! bi_restart_index it \<le> i"

definition bi_end :: "BlockIter \<Rightarrow> (bytes \<times> bytes) list \<Rightarrow> nat list \<Rightarrow> nat list \<Rightarrow> bool" where
  "bi_end it es offs rs \<longleftrightarrow> bi_good it es offs rs \<and> bi_current it = bi_restarts it"

lemma at_before: "bi_at it es offs rs i \<Longrightarrow> bi_before it es offs rs (Suc i)"
  using layout_offs_le [of it es offs rs "Suc i"] unat_restarts_bound [of it]
  by (auto simp: bi_at_def bi_before_def NextEntryOffset_def unat_u32 bi_good_def simp flip: of_nat_add)

lemma advance_restart_bounds:
  assumes "layout it es offs rs" "unat (bi_current it) = offs ! i" "i \<le> length es"
    "k < length rs" "rs ! k \<le> i"
  shows "advance_restart it k < length rs \<and> rs ! advance_restart it k \<le> i"
  using assms(4,5)
proof (induction "length rs - k" arbitrary: k)
  case (Suc n)
  show ?case
  proof (cases "k + 1 < bi_num_restarts it \<and> GetRestartPoint it (k + 1) < bi_current it")
    case True
    then have k1: "k + 1 < length rs" using assms(1) by (simp add: layout_def)
    then have "offs ! (rs ! (k + 1)) < offs ! i"
      using True assms(2) layout_restart [OF assms(1) k1] by (simp add: word_less_nat_alt)
    then have "rs ! (k + 1) \<le> i" using layout_offs_iff [OF assms(1) layout_rs_le [OF assms(1) k1] assms(3)] by simp
    then show ?thesis using Suc.hyps(1) [of "k + 1"] Suc.hyps(2) k1 True by (simp add: advance_restart.simps [of it k])
  next
    case False
    then have "advance_restart it k = k" by (subst advance_restart.simps) auto
    then show ?thesis using Suc.prems by simp
  qed
qed simp

lemma Parse_step:
  assumes b: "bi_before it es offs rs i" and i: "i < length es"
  obtains it' where "ParseNextKey it = (True, it')" "bi_at it' es offs rs i" "bi_comparator it' = bi_comparator it"
proof -
  have L: "layout it es offs rs" using b by (simp add: bi_before_def bi_good_def)
  let ?c = "NextEntryOffset it" and ?e = "es ! i"
  have c: "unat ?c = offs ! i" using b by (simp add: bi_before_def)
  have lt: "?c < bi_restarts it"
    using layout_offs [OF L i] L c by (simp add: word_less_nat_alt layout_def)
  from L i obtain sh where sh: "entry_at it (offs ! i) sh (prev_key es i) ?e (offs ! Suc i)" "i \<in> set rs \<longrightarrow> sh = 0"
    by (auto simp: layout_def)
  then obtain q where q: "DecodeEntry (bi_region it (offs ! i)) =
        Some (of_nat sh, of_nat (length (fst ?e) - sh), of_nat (length (snd ?e)), q)"
    and e: "sh \<le> length (prev_key es i)" "take sh (prev_key es i) @ drop sh (fst ?e) = fst ?e" "sh \<le> length (fst ?e)"
      "length (fst ?e) < 2 ^ 32" "length (snd ?e) < 2 ^ 32"
    and d: "take (length (fst ?e) - sh) (drop (unat (bi_restarts it) - length q) (bi_data it)) = drop sh (fst ?e)"
      "take (length (snd ?e)) (drop (unat (bi_restarts it) - length q + (length (fst ?e) - sh)) (bi_data it)) = snd ?e"
      "unat (bi_restarts it) - length q + (length (fst ?e) - sh) + length (snd ?e) = offs ! Suc i"
      "offs ! Suc i \<le> length (bi_data it)"
    unfolding entry_at_def Let_def by blast
  have u: "unat (of_nat sh :: u32) = sh" "unat (of_nat (length (fst ?e) - sh) :: u32) = length (fst ?e) - sh"
    "unat (of_nat (length (snd ?e)) :: u32) = length (snd ?e)"
    using e(3,4,5) by (simp_all add: unat_u32 del: of_nat_diff)
  have k: "sh \<le> length (bi_key it)" "take sh (bi_key it) @ drop sh (fst ?e) = fst ?e"
    using b i sh(2) e by (auto simp: bi_before_def prev_key_def)
  define p where "p = unat (bi_restarts it) - length q"
  define it1 where "it1 = it\<lparr>bi_current := ?c, bi_key := fst ?e, bi_oob := False,
      bi_value_slice := (p + (length (fst ?e) - sh), length (snd ?e))\<rparr>"
  have L1: "layout it1 es offs rs" by (rule layout_cong [OF L]) (simp_all add: it1_def)
  define it' where "it' = it1\<lparr>bi_restart_index := advance_restart it1 (bi_restart_index it)\<rparr>"
  have oob: "\<not> length (bi_data it) < p + (length (fst ?e) - sh)" using d(3,4) by (simp add: p_def)
  have "ParseNextKey it = (True, it')"
    using lt q c u k d(1) oob b
    by (simp add: ParseNextKey_def Let_def not_le bi_region_def bi_before_def bi_good_def it'_def it1_def p_def del: of_nat_diff)
  moreover have "bi_at it' es offs rs i"
    using L1 advance_restart_bounds [OF L1, of i "bi_restart_index it"] b d i c layout_cong [OF L, of it']
    by (simp add: bi_at_def bi_good_def bi_before_def it'_def it1_def p_def bi_value_def)
  ultimately show ?thesis by (rule that) (simp add: it'_def it1_def)
qed

lemma Parse_end:
  assumes "bi_before it es offs rs (length es)"
  obtains it' where "ParseNextKey it = (False, it')" "bi_end it' es offs rs" "bi_comparator it' = bi_comparator it"
proof -
  let ?it' = "it\<lparr>bi_current := bi_restarts it, bi_restart_index := bi_num_restarts it\<rparr>"
  have L: "layout it es offs rs" using assms by (simp add: bi_before_def bi_good_def)
  have "NextEntryOffset it = bi_restarts it"
    using assms L by (simp add: bi_before_def layout_def word_unat_eq_iff)
  then have "ParseNextKey it = (False, ?it')" by (simp add: ParseNextKey_def Let_def)
  moreover have "bi_end ?it' es offs rs"
    using assms layout_cong [OF L, of ?it'] by (simp add: bi_end_def bi_good_def bi_before_def)
  ultimately show ?thesis by (rule that) simp
qed

lemma before_restart:
  assumes "bi_good it es offs rs" "k < length rs"
  shows "bi_before (SeekToRestartPoint it k) es offs rs (rs ! k)"
proof -
  have L: "layout it es offs rs" using assms by (simp add: bi_good_def)
  have "layout (SeekToRestartPoint it k) es offs rs" by (rule layout_cong [OF L]) (simp_all add: SeekToRestartPoint_def)
  then show ?thesis
    using assms layout_restart [OF L assms(2)] layout_rs_le [OF L assms(2)]
      unat_u32 [of "unat (GetRestartPoint it k)"] unsigned_less [of "GetRestartPoint it k", where 'a = nat]
    by (simp add: bi_before_def bi_good_def SeekToRestartPoint_def NextEntryOffset_def)
qed

text \<open>Skipping stops at the entry that ends at the given offset.\<close>

lemma skip_until_at:
  assumes "bi_before it es offs rs i" "i < j" "j \<le> length es" "unat original = offs ! j"
  shows "bi_at (skip_until it original) es offs rs (j - 1) \<and> bi_comparator (skip_until it original) = bi_comparator it"
  using assms
proof (induction "j - i" arbitrary: it i)
  case (Suc n)
  then have i: "i < length es" by simp
  from Suc.prems(1) i obtain it' where p: "ParseNextKey it = (True, it')" "bi_at it' es offs rs i"
      "bi_comparator it' = bi_comparator it"
    by (rule Parse_step)
  have b: "bi_before it' es offs rs (Suc i)" using p(2) by (rule at_before)
  then have L: "layout it' es offs rs" by (simp add: bi_before_def bi_good_def)
  have n: "NextEntryOffset it' < original \<longleftrightarrow> Suc i < j"
    using b Suc.prems layout_offs_iff [OF L, of "Suc i" j] by (simp add: bi_before_def word_less_nat_alt)
  show ?case
  proof (cases "Suc i < j")
    case True
    then show ?thesis
      using Suc.hyps(1) [OF _ b] Suc.hyps(2) Suc.prems p n by (simp add: skip_until.simps [of it])
  next
    case False
    then have "j - 1 = i" using Suc.prems by simp
    then show ?thesis using False n p by (simp add: skip_until.simps [of it])
  qed
qed simp

lemma Prev_back_eq:
  assumes "layout it es offs rs" "unat original = offs ! i" "i \<le> length es" "k < length rs"
  shows "(i = 0 \<longrightarrow> Prev_back it original k = None) \<and>
    (0 < i \<longrightarrow> (\<exists>l \<le> k. Prev_back it original k = Some l \<and> rs ! l < i))"
  using assms(4)
proof (induction k)
  case 0
  then have "GetRestartPoint it 0 < original \<longleftrightarrow> 0 < i"
    using assms layout_restart [OF assms(1) 0] layout_offs_iff [OF assms(1), of 0 i]
    by (simp add: word_less_nat_alt layout_def)
  then show ?case using assms(1) by (auto simp: Prev_back.simps [of it _ 0] not_le layout_def)
next
  case (Suc k)
  then have "GetRestartPoint it (Suc k) < original \<longleftrightarrow> rs ! Suc k < i"
    using assms layout_restart [OF assms(1) Suc.prems] layout_offs_iff [OF assms(1) layout_rs_le [OF assms(1) Suc.prems]]
    by (simp add: word_less_nat_alt)
  then show ?case using Suc
    by (cases "rs ! Suc k < i") (auto simp: Prev_back.simps [of it _ "Suc k"] not_le le_SucI)
qed

text \<open>The position of an iterator.\<close>

definition bi_pos :: "BlockIter \<Rightarrow> (bytes \<times> bytes) list \<Rightarrow> nat list \<Rightarrow> nat list \<Rightarrow> nat \<Rightarrow> bool" where
  "bi_pos it es offs rs i \<longleftrightarrow> bi_at it es offs rs i \<or> i = length es \<and> bi_end it es offs rs"

lemma pos_good: "bi_pos it es offs rs i \<Longrightarrow> bi_good it es offs rs"
  by (auto simp: bi_pos_def bi_at_def bi_end_def)

lemma before_Parse:
  assumes "bi_before it es offs rs i"
  shows "bi_pos (snd (ParseNextKey it)) es offs rs i \<and> bi_comparator (snd (ParseNextKey it)) = bi_comparator it \<and>
    (fst (ParseNextKey it) \<longleftrightarrow> i < length es)"
proof (cases "i < length es")
  case True
  with assms obtain it' where "ParseNextKey it = (True, it')" "bi_at it' es offs rs i" "bi_comparator it' = bi_comparator it"
    by (rule Parse_step)
  then show ?thesis using True by (simp add: bi_pos_def)
next
  case False
  then have i: "i = length es" using assms by (simp add: bi_before_def)
  from assms [unfolded i] obtain it' where "ParseNextKey it = (False, it')" "bi_end it' es offs rs"
    "bi_comparator it' = bi_comparator it" by (rule Parse_end)
  then show ?thesis using i by (simp add: bi_pos_def)
qed

lemma Next_pos:
  "bi_pos it es offs rs i \<Longrightarrow> i < length es \<Longrightarrow> bi_pos (bi_Next it) es offs rs (Suc i) \<and> bi_comparator (bi_Next it) = bi_comparator it"
  using before_Parse [OF at_before, of it es offs rs i] by (auto simp: bi_pos_def bi_Next_def)

lemma layout_rs0: "layout it es offs rs \<Longrightarrow> 0 < length rs \<and> rs ! 0 = 0"
  by (simp add: layout_def)

lemma good_layout: "bi_good it es offs rs \<Longrightarrow> layout it es offs rs"
  by (simp add: bi_good_def)

lemma Seek_comparator [simp]: "bi_comparator (SeekToRestartPoint it k) = bi_comparator it"
  by (simp add: SeekToRestartPoint_def)

lemma SeekToFirst_pos:
  assumes "bi_good it es offs rs"
  shows "bi_pos (bi_SeekToFirst it) es offs rs 0 \<and> bi_comparator (bi_SeekToFirst it) = bi_comparator it"
  using before_Parse [OF before_restart [OF assms, of 0]] layout_rs0 [OF good_layout [OF assms]]
  by (simp add: bi_SeekToFirst_def)

lemma SeekToLast_pos:
  assumes g: "bi_good it es offs rs"
  shows "bi_pos (bi_SeekToLast it) es offs rs (length es - 1) \<and> bi_comparator (bi_SeekToLast it) = bi_comparator it"
proof -
  let ?k = "length rs - 1"
  have L: "layout it es offs rs" using g by (rule good_layout)
  have k: "?k < length rs" "bi_num_restarts it = length rs" using layout_rs0 [OF L] L by (simp_all add: layout_def)
  note b = before_restart [OF g k(1)]
  show ?thesis
  proof (cases "es = []")
    case True
    then have "rs ! ?k = length es" using layout_rs_le [OF L k(1)] by simp
    then have "bi_pos (snd (ParseNextKey (SeekToRestartPoint it ?k))) es offs rs (length es)"
      and "\<not> fst (ParseNextKey (SeekToRestartPoint it ?k))"
      and "bi_comparator (snd (ParseNextKey (SeekToRestartPoint it ?k))) = bi_comparator it"
      using before_Parse [OF b] by simp_all
    then show ?thesis using True by (simp add: bi_SeekToLast_def skip_until.simps case_prod_unfold Let_def k)
  next
    case False
    then have "rs ! ?k < length es" using L k(1) nth_mem [OF k(1)] unfolding layout_def by (metis length_greater_0_conv)
    then show ?thesis
      using skip_until_at [OF b, of "length es" "bi_restarts it"] L False
      by (simp add: bi_SeekToLast_def bi_pos_def k layout_def)
  qed
qed

lemma Prev_pos:
  assumes "bi_pos it es offs rs i" "i < length es"
  shows "bi_pos (bi_Prev it) es offs rs (if i = 0 then length es else i - 1) \<and> bi_comparator (bi_Prev it) = bi_comparator it"
proof -
  have a: "bi_at it es offs rs i" and g: "bi_good it es offs rs" using assms by (auto simp: bi_pos_def bi_at_def)
  have L: "layout it es offs rs" using g by (rule good_layout)
  have c: "unat (bi_current it) = offs ! i" "bi_restart_index it < length rs" using a by (simp_all add: bi_at_def)
  note pb = Prev_back_eq [OF L c(1) _ c(2)]
  show ?thesis
  proof (cases "i = 0")
    case True
    have "layout (it\<lparr>bi_current := bi_restarts it, bi_restart_index := bi_num_restarts it\<rparr>) es offs rs"
      by (rule layout_cong [OF L]) simp_all
    then show ?thesis using True pb g by (simp add: bi_Prev_def bi_pos_def bi_end_def bi_good_def)
  next
    case False
    with pb assms(2) obtain l where l: "l \<le> bi_restart_index it" "Prev_back it (bi_current it) (bi_restart_index it) = Some l" "rs ! l < i"
      by auto
    then have "bi_before (SeekToRestartPoint it l) es offs rs (rs ! l)" using before_restart [OF g] c(2) by simp
    from skip_until_at [OF this l(3) _ c(1)] assms(2) l(2) False
    show ?thesis by (simp add: bi_Prev_def bi_pos_def)
  qed
qed

subsection \<open>Seeking\<close>

lemma Seek_scan_pos:
  assumes "bi_before it es offs rs i" "i \<le> m" "m = lower_bound (bi_comparator it) es target"
  shows "bi_pos (Seek_scan it target) es offs rs m \<and> bi_comparator (Seek_scan it target) = bi_comparator it"
  using assms
proof (induction "m - i" arbitrary: it i)
  case 0
  then have "i = m" by simp
  note b = before_Parse [OF 0(2) [unfolded this]]
  obtain found it' where p: "ParseNextKey it = (found, it')" by (cases "ParseNextKey it")
  have "found \<Longrightarrow> bi_key it' = fst (es ! m) \<and> \<not> Compare (bi_comparator it) (fst (es ! m)) target < 0"
    using b p lower_bound_ge [of "bi_comparator it" es target] 0 by (auto simp: bi_pos_def bi_at_def)
  then show ?case using b p by (auto simp: Seek_scan.simps [of it])
next
  case (Suc n)
  let ?c = "bi_comparator it"
  have i: "i < length es" using Suc lower_bound_le [of ?c es target] by linarith
  from Suc.prems(1) i obtain it' where p: "ParseNextKey it = (True, it')" "bi_at it' es offs rs i" "bi_comparator it' = ?c"
    by (rule Parse_step)
  have "Compare ?c (bi_key it') target < 0"
    using lower_bound_less [of i ?c es target] Suc p(2) by (simp add: bi_at_def)
  then show ?case
    using Suc.hyps(1) [OF _ at_before [OF p(2)]] Suc.hyps(2) Suc.prems p by (simp add: Seek_scan.simps [of it])
qed

lemma restart_entry:
  assumes "bi_good it es offs rs" "0 < k" "k < length rs"
  obtains ns vl q where "DecodeEntry (bi_region it (unat (GetRestartPoint it k))) = Some (0, ns, vl, q)"
    "take (unat ns) (drop (unat (bi_restarts it) - length q) (bi_data it)) = fst (es ! (rs ! k))"
    "unat (bi_restarts it) - length q + unat ns \<le> length (bi_data it)" "rs ! k < length es"
proof -
  have L: "layout it es offs rs" using assms(1) by (rule good_layout)
  have "rs ! k \<noteq> 0" using layout_rs_mono [OF L assms(2,3)] by simp
  then have r: "rs ! k < length es" using L assms(3) unfolding layout_def by (metis nth_mem)
  moreover have "rs ! k \<in> set rs" using assms(3) by simp
  ultimately have e: "entry_at it (offs ! (rs ! k)) 0 (prev_key es (rs ! k)) (es ! (rs ! k)) (offs ! Suc (rs ! k))"
    using L unfolding layout_def by blast
  then have u: "unat (of_nat (length (fst (es ! (rs ! k)))) :: u32) = length (fst (es ! (rs ! k)))"
    by (auto simp: entry_at_def Let_def unat_u32)
  from e obtain q where "DecodeEntry (bi_region it (offs ! (rs ! k))) =
      Some (0, of_nat (length (fst (es ! (rs ! k)))), of_nat (length (snd (es ! (rs ! k)))), q)"
    "take (length (fst (es ! (rs ! k)))) (drop (unat (bi_restarts it) - length q) (bi_data it)) = fst (es ! (rs ! k))"
    "unat (bi_restarts it) - length q + length (fst (es ! (rs ! k))) \<le> length (bi_data it)"
    by (auto simp: entry_at_def Let_def)
  then show ?thesis
    using that [of "of_nat (length (fst (es ! (rs ! k))))", OF _ _ _ r] u layout_restart [OF L assms(3)] by metis
qed

lemma Seek_search_eq:
  assumes "bi_good it es offs rs" "right < length rs" "left \<le> right"
    "left = 0 \<or> Compare (bi_comparator it) (fst (es ! (rs ! left))) target < 0"
  shows "\<exists>l < length rs. Seek_search it target left right = (it, Some l) \<and>
    (l = 0 \<or> Compare (bi_comparator it) (fst (es ! (rs ! l))) target < 0)"
  using assms
proof (induction "right - left" arbitrary: left right rule: less_induct)
  case less
  show ?case
  proof (cases "left < right")
    case True
    define mid where "mid = (left + right + 1) div 2"
    have m: "left < mid" "mid \<le> right" using True by (simp_all add: mid_def)
    then obtain ns vl q where e: "DecodeEntry (bi_region it (unat (GetRestartPoint it mid))) = Some (0, ns, vl, q)"
      "take (unat ns) (drop (unat (bi_restarts it) - length q) (bi_data it)) = fst (es ! (rs ! mid))"
      "unat (bi_restarts it) - length q + unat ns \<le> length (bi_data it)" "rs ! mid < length es"
      using less.prems restart_entry [OF less.prems(1), of mid] by auto
    have [simp]: "it\<lparr>bi_oob := False\<rparr> = it" using less.prems(1) by (cases it) (simp add: bi_good_def)
    have s: "Seek_search it target left right =
        (if Compare (bi_comparator it) (fst (es ! (rs ! mid))) target < 0
         then Seek_search it target mid right else Seek_search it target left (mid - 1))"
      using True e less.prems(1)
      by (subst Seek_search.simps) (simp add: mid_def Let_def bi_good_def not_less)
    show ?thesis
    proof (cases "Compare (bi_comparator it) (fst (es ! (rs ! mid))) target < 0")
      case True
      then show ?thesis using less.hyps [of right mid] less.prems m s by simp
    next
      case False
      then show ?thesis using less.hyps [of "mid - 1" left] less.prems m s by simp
    qed
  next
    case False
    then have "Seek_search it target left right = (it, Some left)" by (subst Seek_search.simps) simp
    then show ?thesis using less.prems False by auto
  qed
qed

lemma Seek_pos:
  assumes "bi_good it es offs rs" "sorted_entries (bi_comparator it) kok es" "kok target"
  shows "bi_pos (bi_Seek it target) es offs rs (lower_bound (bi_comparator it) es target) \<and>
    bi_comparator (bi_Seek it target) = bi_comparator it"
proof -
  let ?c = "bi_comparator it"
  have L: "layout it es offs rs" using assms(1) by (rule good_layout)
  then have n: "bi_num_restarts it = length rs" "0 < length rs" by (simp_all add: layout_def)
  have "\<exists>l < length rs. Seek_search it target 0 (length rs - 1) = (it, Some l) \<and>
    (l = 0 \<or> Compare ?c (fst (es ! (rs ! l))) target < 0)"
    by (rule Seek_search_eq [OF assms(1)]) (use n(2) in simp_all)
  then obtain l where l: "l < length rs" "Seek_search it target 0 (length rs - 1) = (it, Some l)"
    "l = 0 \<or> Compare ?c (fst (es ! (rs ! l))) target < 0" by blast
  have "rs ! l \<le> lower_bound ?c es target"
  proof (cases "l = 0")
    case False
    have r: "rs ! l < length es" by (rule restart_entry [OF assms(1)]) (use False l(1) in simp_all)
    show ?thesis
    proof (rule ccontr)
      assume "\<not> ?thesis"
      then have "lower_bound ?c es target \<le> rs ! l" "lower_bound ?c es target < length es" using r by linarith+
      moreover have "Compare ?c (fst (es ! (rs ! l))) target < 0" using l(3) False by simp
      ultimately show False
        using sorted_less_target [OF assms(2,3) _ r] lower_bound_ge [of ?c es target] by simp
    qed
  qed (use layout_rs0 [OF L] in simp)
  from Seek_scan_pos [OF before_restart [OF assms(1) l(1)] this]
  have "bi_pos (Seek_scan (SeekToRestartPoint it l) target) es offs rs (lower_bound ?c es target) \<and>
      bi_comparator (Seek_scan (SeekToRestartPoint it l) target) = ?c" by simp
  then show ?thesis unfolding bi_Seek_def n l(2) by simp
qed

subsection \<open>The block iterator keeps the iterator contract\<close>

definition block_rep :: "comparator \<Rightarrow> (bytes \<Rightarrow> bool) \<Rightarrow> Status + BlockIter \<Rightarrow> (bytes \<times> bytes) list \<Rightarrow> nat \<Rightarrow> bool" where
  "block_rep c kok s es i \<longleftrightarrow>
     (case s of
        Inl st \<Rightarrow> st = Status_OK \<and> es = [] \<and> i = 0
      | Inr it \<Rightarrow> bi_comparator it = c \<and> sorted_entries c kok es \<and> (\<exists>offs rs. bi_pos it es offs rs i))"

lemma bi_pos_le: "bi_pos it es offs rs i \<Longrightarrow> i \<le> length es"
  by (auto simp: bi_pos_def bi_at_def)

lemma bi_pos_Valid: "bi_pos it es offs rs i \<Longrightarrow> bi_Valid it \<longleftrightarrow> i < length es"
  using layout_offs [of it es offs rs i "length es"]
  by (auto simp: bi_pos_def bi_at_def bi_end_def bi_Valid_def bi_good_def word_less_nat_alt layout_def)

lemma bi_pos_entry:
  "bi_pos it es offs rs i \<Longrightarrow> i < length es \<Longrightarrow> bi_key it = fst (es ! i) \<and> bi_value it = snd (es ! i)"
  by (auto simp: bi_pos_def bi_at_def)

lemma bi_pos_status: "bi_pos it es offs rs i \<Longrightarrow> bi_status it = Status_OK"
  by (auto dest!: pos_good simp: bi_good_def)

interpretation block_iter: list_iterator Block_Iterator c kok "block_rep c kok" for c kok
proof
  fix s es i target
  assume r: "block_rep c kok s es i"
  note empty_simps = Block_Iterator_def EmptyIterator_def block_rep_def
  show "i \<le> length es" "Valid Block_Iterator s \<longleftrightarrow> i < length es" "istatus Block_Iterator s = Status_OK"
    using r by (auto simp: empty_simps bi_pos_le bi_pos_Valid bi_pos_status split: sum.splits)
  show "block_rep c kok (SeekToFirst Block_Iterator s) es 0"
    using r by (auto simp: empty_simps split: sum.splits dest!: pos_good dest: SeekToFirst_pos)
  show "block_rep c kok (SeekToLast Block_Iterator s) es (length es - 1)"
    using r by (auto simp: empty_simps split: sum.splits dest!: pos_good dest: SeekToLast_pos simp del: One_nat_def)
  show "block_rep c kok (Seek Block_Iterator s target) es (lower_bound c es target)" if "kok target"
    using r that
    by (auto simp: empty_simps lower_bound_def [of _ "[]"] split: sum.splits dest!: pos_good dest: Seek_pos)
  assume i: "i < length es"
  show "ikey Block_Iterator s = fst (es ! i)" "ivalue Block_Iterator s = snd (es ! i)"
    using r i by (auto simp: empty_simps bi_pos_entry split: sum.splits)
  show "block_rep c kok (Next Block_Iterator s) es (Suc i)"
    using r i by (auto simp: empty_simps split: sum.splits dest: Next_pos)
  show "block_rep c kok (Prev Block_Iterator s) es (if i = 0 then length es else i - 1)"
    using r i Prev_pos [where i = i and es = es] by (auto simp: empty_simps split: sum.splits) blast+
qed

section \<open>What the builder writes\<close>

subsection \<open>Entries\<close>

definition entry_head :: "nat \<Rightarrow> bytes \<times> bytes \<Rightarrow> bytes" where
  "entry_head sh e = EncodeVarint32 (of_nat sh) @ EncodeVarint32 (of_nat (length (fst e) - sh)) @
     EncodeVarint32 (of_nat (length (snd e)))"

definition entry_bytes :: "nat \<Rightarrow> bytes \<times> bytes \<Rightarrow> bytes" where
  "entry_bytes sh e = entry_head sh e @ drop sh (fst e) @ snd e"

lemma less_128_take_bit: "w < 128 \<longleftrightarrow> take_bit 7 w = (w :: u32)"
  by (simp add: word_unat_eq_iff unsigned_take_bit_eq word_less_nat_alt take_bit_nat_eq_self_iff)

lemma or_less_128: "(a :: u32) < 128 \<Longrightarrow> b < 128 \<Longrightarrow> a OR b < 128"
  unfolding less_128_take_bit by simp

lemma bit7_ge: "bit (w :: u32) 7 \<Longrightarrow> \<not> w < 128"
  unfolding less_128_take_bit by (metis bit_take_bit_iff less_irrefl)

lemma ucast_byte_less_128: "(v :: u32) < 128 \<Longrightarrow> ucast (ucast v :: byte) = v"
  unfolding less_128_take_bit 
proof (rule bit_word_eqI)
  fix n assume "take_bit 7 v = v"
  then have "bit v n \<longrightarrow> n < 7" by (metis bit_take_bit_iff)
  then show "bit (ucast (ucast v :: byte) :: u32) n = bit v n" by (auto simp: bit_simps)
qed

lemma EncodeVarint32_small: "v < 128 \<Longrightarrow> EncodeVarint32 v = [ucast v]"
  by (simp add: EncodeVarint32_def)

lemma EncodeVarint32_big: "\<not> v < 128 \<Longrightarrow> EncodeVarint32 v = ucast (v OR 128) # tl (EncodeVarint32 v)"
  by (simp add: EncodeVarint32_def)

lemma bit7_ucast: "bit (ucast (ucast (v OR 128 :: u32) :: byte) :: u32) 7"
  by (simp add: bit_simps bit_128_iff)

lemma EncodeVarint32_nonempty: "EncodeVarint32 v \<noteq> []"
  by (simp add: EncodeVarint32_def)

lemma length_EncodeVarint32_pos: "1 \<le> length (EncodeVarint32 v)"
  using EncodeVarint32_nonempty [of v] by (cases "EncodeVarint32 v") simp_all

text \<open>The fast path is taken exactly when all three lengths fit one byte each.\<close>

lemma DecodeEntry_fast_cond:
  fixes s n v :: u32 and rest :: bytes
  defines "p \<equiv> EncodeVarint32 s @ EncodeVarint32 n @ EncodeVarint32 v @ rest"
  shows "(ucast (p ! 0) OR ucast (p ! 1) OR ucast (p ! 2) :: u32) < 128 \<longleftrightarrow> s < 128 \<and> n < 128 \<and> v < 128"
proof -
  have "\<not> (ucast (p ! 0) OR ucast (p ! 1) OR ucast (p ! 2) :: u32) < 128" if "\<not> s < 128"
    by (rule bit7_ge, subst p_def, subst EncodeVarint32_big [OF that]) (simp add: bit_or_iff bit7_ucast)
  moreover have "\<not> (ucast (p ! 0) OR ucast (p ! 1) OR ucast (p ! 2) :: u32) < 128" if "s < 128" "\<not> n < 128"
    by (rule bit7_ge, unfold p_def, subst (2) EncodeVarint32_big [OF that(2)])
      (simp add: bit_or_iff bit7_ucast EncodeVarint32_small [OF that(1)])
  moreover have "\<not> (ucast (p ! 0) OR ucast (p ! 1) OR ucast (p ! 2) :: u32) < 128" if "s < 128" "n < 128" "\<not> v < 128"
    by (rule bit7_ge, unfold p_def, subst (3) EncodeVarint32_big [OF that(3)])
      (simp add: bit_or_iff bit7_ucast EncodeVarint32_small [OF that(1)] EncodeVarint32_small [OF that(2)])
  moreover have "(ucast (p ! 0) OR ucast (p ! 1) OR ucast (p ! 2) :: u32) < 128" if "s < 128" "n < 128" "v < 128"
    using that by (simp add: p_def EncodeVarint32_small ucast_byte_less_128 or_less_128)
  ultimately show ?thesis by blast
qed

lemma DecodeEntry_enc:
  assumes "unat n + unat v \<le> length rest" "length rest < 2 ^ 32"
  shows "DecodeEntry (EncodeVarint32 s @ EncodeVarint32 n @ EncodeVarint32 v @ rest) = Some (s, n, v, rest)"
proof -
  let ?p = "EncodeVarint32 s @ EncodeVarint32 n @ EncodeVarint32 v @ rest"
  have len: "\<not> length ?p < 3"
    using length_EncodeVarint32_pos [of s] length_EncodeVarint32_pos [of n] length_EncodeVarint32_pos [of v] by simp
  have fits: "\<not> (of_nat (length rest) :: u32) < n + v"
    using assms by (simp add: word_less_nat_alt unat_u32 unat_word_ariths not_less)
  show ?thesis
  proof (cases "s < 128 \<and> n < 128 \<and> v < 128")
    case True
    then show ?thesis
      using fits by (simp add: DecodeEntry_def EncodeVarint32_small ucast_byte_less_128 or_less_128)
  next
    case False
    then show ?thesis
      unfolding DecodeEntry_def Let_def DecodeEntry_fast_cond if_not_P [OF False]
      using len fits by (simp add: GetVarint32Ptr_fallback del: length_append append_assoc)
  qed
qed

lemma length_entry_head: "3 \<le> length (entry_head sh e)"
  using length_EncodeVarint32_pos [of "of_nat sh"] length_EncodeVarint32_pos [of "of_nat (length (fst e) - sh)"]
    length_EncodeVarint32_pos [of "of_nat (length (snd e))"]
  by (simp add: entry_head_def)

subsection \<open>The invariant of the builder\<close>

definition chunks :: "nat list \<Rightarrow> (bytes \<times> bytes) list \<Rightarrow> bytes list" where
  "chunks shs es = map2 entry_bytes shs es"

definition eoff :: "nat list \<Rightarrow> (bytes \<times> bytes) list \<Rightarrow> nat \<Rightarrow> nat" where
  "eoff shs es i = length (concat (take i (chunks shs es)))"

definition bb_inv :: "BlockBuilder \<Rightarrow> (bytes \<times> bytes) list \<Rightarrow> nat list \<Rightarrow> nat list \<Rightarrow> bool" where
  "bb_inv b es shs rs \<longleftrightarrow>
     length shs = length es \<and> bb_buffer b = concat (chunks shs es) \<and>
     (\<forall>i < length es. shs ! i \<le> length (prev_key es i) \<and> take (shs ! i) (prev_key es i) = take (shs ! i) (fst (es ! i)) \<and>
        shs ! i \<le> length (fst (es ! i)) \<and> (i \<in> set rs \<longrightarrow> shs ! i = 0)) \<and>
     rs \<noteq> [] \<and> rs ! 0 = 0 \<and> sorted_wrt (<) rs \<and> (\<forall>r\<in>set rs. r < length es \<or> r = 0) \<and>
     bb_restarts b = map (\<lambda>r. of_nat (eoff shs es r)) rs \<and>
     bb_last_key b = prev_key es (length es) \<and> (es = [] \<longrightarrow> bb_counter b < bb_interval b) \<and> 0 < bb_interval b"

lemma bb_inv_new: "0 < interval \<Longrightarrow> bb_inv (new_BlockBuilder interval) [] [] [0]"
  by (simp add: bb_inv_def new_BlockBuilder_def chunks_def eoff_def prev_key_def)

lemma bb_Reset_new: "bb_Reset b = new_BlockBuilder (bb_interval b)"
  by (simp add: bb_Reset_def new_BlockBuilder_def)

lemma shared_prefix_take: "take (shared_prefix a b) a = take (shared_prefix a b) b"
  by (induction a b rule: shared_prefix.induct) simp_all

lemma shared_prefix_le: "shared_prefix a b \<le> length a" "shared_prefix a b \<le> length b"
  by (induction a b rule: shared_prefix.induct) simp_all

lemma prev_key_snoc: "i \<le> length es \<Longrightarrow> prev_key (es @ [x]) i = prev_key es i"
  by (auto simp: prev_key_def nth_append)

lemma eoff_snoc: "length shs = length es \<Longrightarrow> i \<le> length es \<Longrightarrow> eoff (shs @ [sh]) (es @ [x]) i = eoff shs es i"
  by (simp add: eoff_def chunks_def)

lemma eoff_all: "length shs = length es \<Longrightarrow> eoff shs es (length es) = length (concat (chunks shs es))"
  by (simp add: eoff_def chunks_def)

lemma bb_inv_Add_gen:
  assumes inv: "bb_inv b es shs rs"
    and sh: "sh \<le> length (bb_last_key b)" "sh \<le> length key" "take sh (bb_last_key b) = take sh key"
    and rs': "rs' = rs \<and> (es = [] \<longrightarrow> sh = 0) \<or> rs' = rs @ [length es] \<and> sh = 0 \<and> es \<noteq> []"
    and b': "bb_buffer b' = bb_buffer b @ entry_bytes sh (key, value)" "bb_last_key b' = key"
      "bb_restarts b' = map (\<lambda>r. of_nat (eoff shs es r)) rs'" "bb_interval b' = bb_interval b"
  shows "bb_inv b' (es @ [(key, value)]) (shs @ [sh]) rs'"
proof -
  let ?es = "es @ [(key, value)]" and ?shs = "shs @ [sh]"
  have len: "length shs = length es" using inv by (simp add: bb_inv_def)
  have "\<forall>r\<in>set rs. r < length es \<or> r = 0" using inv by (simp add: bb_inv_def)
  then have le: "r \<le> length es" if "r \<in> set rs'" for r using that rs' by fastforce
  have 1: "bb_buffer b' = concat (chunks ?shs ?es)" using inv len b'(1) by (simp add: bb_inv_def chunks_def)
  have 2: "?shs ! i \<le> length (prev_key ?es i) \<and> take (?shs ! i) (prev_key ?es i) = take (?shs ! i) (fst (?es ! i)) \<and>
        ?shs ! i \<le> length (fst (?es ! i)) \<and> (i \<in> set rs' \<longrightarrow> ?shs ! i = 0)" if "i < length ?es" for i
  proof (cases "i < length es")
    case True
    then have "i \<in> set rs' \<Longrightarrow> i \<in> set rs" using rs' by auto
    then show ?thesis using True inv len by (auto simp: bb_inv_def prev_key_snoc nth_append)
  next
    case False
    then have i: "i = length es" using that by simp
    have "i \<in> set rs' \<Longrightarrow> sh = 0" using rs' inv i by (auto simp: bb_inv_def)
    then show ?thesis using i sh inv len by (auto simp: bb_inv_def prev_key_snoc nth_append)
  qed
  have 3: "rs' \<noteq> []" "rs' ! 0 = 0" "\<forall>r\<in>set rs'. r < length ?es \<or> r = 0"
    using rs' inv le by (auto simp: bb_inv_def nth_append less_Suc_eq_le)
  have "sorted_wrt (<) rs" "\<forall>r\<in>set rs. r < length es \<or> r = 0" using inv by (simp_all add: bb_inv_def)
  then have 4: "sorted_wrt (<) rs'" using rs' by (auto simp: sorted_wrt_append)
  have 5: "bb_restarts b' = map (\<lambda>r. of_nat (eoff ?shs ?es r)) rs'"
    using b'(3) le eoff_snoc [OF len] by simp
  have 6: "bb_last_key b' = prev_key ?es (length ?es)" "0 < bb_interval b'"
    using b' inv by (simp_all add: prev_key_def bb_inv_def)
  show ?thesis unfolding bb_inv_def using len 1 2 3 4 5 6 by simp
qed

lemma bb_inv_Add:
  assumes inv: "bb_inv b es shs rs"
  shows "\<exists>sh rs'. bb_inv (bb_Add b key value) (es @ [(key, value)]) (shs @ [sh]) rs'"
proof (cases "bb_counter b < bb_interval b")
  case True
  let ?sh = "shared_prefix (bb_last_key b) key"
  have "es = [] \<longrightarrow> ?sh = 0" using inv by (simp add: bb_inv_def prev_key_def)
  then have "bb_inv (bb_Add b key value) (es @ [(key, value)]) (shs @ [?sh]) rs"
    using True inv
    by (intro bb_inv_Add_gen [OF inv])
      (simp_all add: bb_Add_def Let_def PutVarint32_def entry_bytes_def entry_head_def bb_inv_def shared_prefix_take shared_prefix_le
        flip: append_assoc)
  then show ?thesis by blast
next
  case False
  then have "es \<noteq> []" using inv by (auto simp: bb_inv_def)
  moreover have "bb_restarts b @ [of_nat (length (bb_buffer b))] = map (\<lambda>r. of_nat (eoff shs es r)) (rs @ [length es])"
    using inv eoff_all [of shs es] by (simp add: bb_inv_def)
  ultimately have "bb_inv (bb_Add b key value) (es @ [(key, value)]) (shs @ [0]) (rs @ [length es])"
    using False
    by (intro bb_inv_Add_gen [OF inv])
      (simp_all add: bb_Add_def Let_def PutVarint32_def entry_bytes_def entry_head_def flip: append_assoc)
  then show ?thesis by blast
qed

definition build :: "nat \<Rightarrow> (bytes \<times> bytes) list \<Rightarrow> BlockBuilder" where
  "build interval es = foldl (\<lambda>b (k, v). bb_Add b k v) (new_BlockBuilder interval) es"

lemma bb_inv_build: "0 < interval \<Longrightarrow> \<exists>shs rs. bb_inv (build interval es) es shs rs"
proof (induction es rule: rev_induct)
  case Nil
  then show ?case using bb_inv_new by (auto simp: build_def)
next
  case (snoc x es)
  then obtain shs rs where "bb_inv (build interval es) es shs rs" by blast
  from bb_inv_Add [OF this, of "fst x" "snd x"] show ?case by (auto simp: build_def case_prod_unfold)
qed

subsection \<open>Opening a finished block\<close>

lemma foldl_PutFixed32: "foldl PutFixed32 dst xs = dst @ concat (map EncodeFixed32 xs)"
  by (induction xs arbitrary: dst) (simp_all add: PutFixed32_def)

lemma length_concat_fixed32 [simp]: "length (concat (map EncodeFixed32 xs)) = 4 * length xs"
  by (induction xs) simp_all

lemma DecodeFixed32_concat: "k < length xs \<Longrightarrow> DecodeFixed32 (drop (k * 4) (concat (map EncodeFixed32 xs) @ rest)) = xs ! k"
proof (induction xs arbitrary: k)
  case (Cons x xs)
  then show ?case by (cases k) simp_all
qed simp

lemma Finish_data:
  "fst (bb_Finish b) = bb_buffer b @ concat (map EncodeFixed32 (bb_restarts b)) @ EncodeFixed32 (of_nat (length (bb_restarts b)))"
  by (simp add: bb_Finish_def Let_def foldl_PutFixed32 PutFixed32_def)

text \<open>Any buffer followed by a restart array and its length opens as that buffer and those restarts.\<close>

lemma open_block:
  assumes data: "data = buf @ concat (map EncodeFixed32 rps) @ EncodeFixed32 (of_nat (length rps))"
    and len: "length data < 2 ^ 32" and ne: "rps \<noteq> []"
  shows "Block_NewIterator (new_Block data) c = Inr (new_BlockIter c data (of_nat (length buf)) (length rps))"
proof -
  let ?b = "\<lparr>bk_data = data, bk_size = length data, bk_restart_offset = r\<rparr>"
  have n: "length rps < 2 ^ 32" and ld: "length data = length buf + 4 * length rps + 4" using data len by simp_all
  have num: "NumRestarts \<lparr>bk_data = data, bk_size = length data, bk_restart_offset = r\<rparr> = of_nat (length rps)" for r
    using DecodeFixed32_EncodeFixed32 [of "of_nat (length rps)" "[]"] by (simp add: NumRestarts_def data)
  have u: "unat (of_nat (length rps) :: u32) = length rps" using n by (rule unat_u32)
  have off: "(of_nat (length data) :: u32) - (1 + of_nat (length rps)) * 4 = of_nat (length buf)"
    by (simp add: ld algebra_simps)
  have "new_Block data = \<lparr>bk_data = data, bk_size = length data, bk_restart_offset = of_nat (length buf)\<rparr>"
    using num [of 0] u ld off by (simp add: new_Block_def Let_def)
  moreover have "(of_nat (length rps) :: u32) \<noteq> 0" using u ne by (metis length_0_conv unat_0)
  ultimately show ?thesis using num u ld by (simp add: Block_NewIterator_def)
qed

lemma chunk_split:
  assumes "length shs = length es" "i < length es"
  shows "concat (chunks shs es) = concat (take i (chunks shs es)) @ entry_bytes (shs ! i) (es ! i) @ concat (drop (Suc i) (chunks shs es))"
proof -
  have "chunks shs es = take i (chunks shs es) @ chunks shs es ! i # drop (Suc i) (chunks shs es)"
    by (rule id_take_nth_drop) (use assms in \<open>simp add: chunks_def\<close>)
  then have "concat (chunks shs es) = concat (take i (chunks shs es)) @ chunks shs es ! i @ concat (drop (Suc i) (chunks shs es))"
    by (metis concat.simps(2) concat_append)
  then show ?thesis using assms by (simp add: chunks_def)
qed

lemma eoff_Suc:
  assumes "length shs = length es" "i < length es"
  shows "eoff shs es (Suc i) = eoff shs es i + length (entry_bytes (shs ! i) (es ! i))"
  using assms by (simp add: eoff_def chunks_def take_Suc_conv_app_nth)

text \<open>A key is no longer than the block up to its end: every byte of it was written in some entry.\<close>

lemma key_length_bound:
  assumes "length shs = length es" "\<forall>i < length es. shs ! i \<le> length (prev_key es i)"
  shows "i \<le> length es \<Longrightarrow> length (prev_key es i) \<le> eoff shs es i"
proof (induction i)
  case (Suc i)
  then have i: "i < length es" "length (prev_key es i) \<le> eoff shs es i" by simp_all
  have "length (fst (es ! i)) \<le> shs ! i + length (entry_bytes (shs ! i) (es ! i))" by (simp add: entry_bytes_def)
  moreover have "shs ! i \<le> length (prev_key es i)" using assms(2) i(1) by blast
  ultimately have "length (fst (es ! i)) \<le> eoff shs es (Suc i)" unfolding eoff_Suc [OF assms(1) i(1)] using i(2) by linarith
  then show ?case by (simp add: prev_key_def)
qed (simp add: prev_key_def)

lemma entry_at_chunk:
  assumes kl: "length (fst (es ! i)) < 2 ^ 32" and len: "length shs = length es" and i: "i < length es" and it: "bi_data it = concat (chunks shs es) @ tail"
    "unat (bi_restarts it) = length (concat (chunks shs es))"
    and sh: "shs ! i \<le> length (prev_key es i)" "take (shs ! i) (prev_key es i) = take (shs ! i) (fst (es ! i))"
      "shs ! i \<le> length (fst (es ! i))"
  shows "entry_at it (eoff shs es i) (shs ! i) (prev_key es i) (es ! i) (eoff shs es (Suc i))"
proof -
  let ?sh = "shs ! i" and ?e = "es ! i" and ?r = "unat (bi_restarts it)"
  define pre rest where "pre = concat (take i (chunks shs es))" and "rest = concat (drop (Suc i) (chunks shs es))"
  define q where "q = drop ?sh (fst ?e) @ snd ?e @ rest"
  have split: "concat (chunks shs es) = pre @ entry_head ?sh ?e @ q"
    using chunk_split [OF len i] by (simp add: pre_def rest_def q_def entry_bytes_def)
  have r: "?r = length pre + length (entry_head ?sh ?e) + length q" and r32: "?r < 2 ^ 32"
    using it(2) split unat_restarts_bound [of it] by simp_all
  have off: "eoff shs es i = length pre" by (simp add: eoff_def pre_def)
  have k32: "length (fst ?e) - ?sh < 2 ^ 32" "length (snd ?e) < 2 ^ 32" "length q < 2 ^ 32"
    using r r32 by (simp_all add: q_def)
  have u: "unat (of_nat (length (fst ?e) - ?sh) :: u32) = length (fst ?e) - ?sh"
    "unat (of_nat (length (snd ?e)) :: u32) = length (snd ?e)" using k32 by (simp_all add: unat_u32 del: of_nat_diff)
  have "bi_region it (eoff shs es i) = entry_head ?sh ?e @ q"
    using r by (simp add: bi_region_def off it(1) split)
  also have "DecodeEntry (entry_head ?sh ?e @ q) = Some (of_nat ?sh, of_nat (length (fst ?e) - ?sh), of_nat (length (snd ?e)), q)"
    using DecodeEntry_enc [of "of_nat (length (fst ?e) - ?sh)" "of_nat (length (snd ?e))" q "of_nat ?sh"] k32(3) u
    by (simp add: entry_head_def q_def del: of_nat_diff)
  finally have d: "DecodeEntry (bi_region it (eoff shs es i)) = Some (of_nat ?sh, of_nat (length (fst ?e) - ?sh), of_nat (length (snd ?e)), q)" .
  have p: "?r - length q = length (pre @ entry_head ?sh ?e)" using r by simp
  have dp: "drop (?r - length q) (bi_data it) = q @ tail" unfolding p it(1) split by simp
  have nx: "?r - length q + (length (fst ?e) - ?sh) + length (snd ?e) = eoff shs es (Suc i)"
    by (simp add: p eoff_Suc [OF len i] off entry_bytes_def)
  have le: "eoff shs es (Suc i) \<le> length (bi_data it)"
    unfolding nx [symmetric] p it(1) split by (simp add: q_def)
  have "drop (?r - length q + (length (fst ?e) - ?sh)) (bi_data it) = snd ?e @ rest @ tail"
    using arg_cong [OF dp, of "drop (length (fst ?e) - ?sh)"] by (simp add: q_def add.commute)
  then show ?thesis
    unfolding entry_at_def Let_def
    using d sh nx le k32 dp kl by (intro exI [of _ q]) (simp add: q_def)
qed

lemma built_layout:
  assumes inv: "bb_inv b es shs rs" and len: "length (fst (bb_Finish b)) < 2 ^ 32"
    and it_def: "it = new_BlockIter c (fst (bb_Finish b)) (of_nat (length (bb_buffer b))) (length rs)"
  shows "layout it es (map (eoff shs es) [0..<Suc (length es)]) rs"
proof -
  let ?offs = "map (eoff shs es) [0..<Suc (length es)]"
  have ls: "length shs = length es" and buf: "bb_buffer b = concat (chunks shs es)"
    and rp: "bb_restarts b = map (\<lambda>r. of_nat (eoff shs es r)) rs"
    and rs: "rs \<noteq> []" "rs ! 0 = 0" "sorted_wrt (<) rs" "\<forall>r\<in>set rs. r < length es \<or> r = 0"
    and sh: "\<And>i. i < length es \<Longrightarrow> shs ! i \<le> length (prev_key es i) \<and> take (shs ! i) (prev_key es i) = take (shs ! i) (fst (es ! i)) \<and>
        shs ! i \<le> length (fst (es ! i)) \<and> (i \<in> set rs \<longrightarrow> shs ! i = 0)"
    using inv by (simp_all add: bb_inv_def)
  have b32: "length (bb_buffer b) < 2 ^ 32" using len by (simp add: Finish_data)
  have all: "eoff shs es (length es) = length (bb_buffer b)" using eoff_all [OF ls] buf by simp
  have rst: "unat (bi_restarts it) = length (concat (chunks shs es))" "bi_num_restarts it = length rs"
    using b32 buf by (simp_all add: it_def new_BlockIter_def unat_u32)
  have dat: "bi_data it = concat (chunks shs es) @ concat (map EncodeFixed32 (bb_restarts b)) @ EncodeFixed32 (of_nat (length (bb_restarts b)))"
    by (simp add: it_def new_BlockIter_def Finish_data buf)
  have step: "eoff shs es i < eoff shs es (Suc i)" if "i < length es" for i
    using length_entry_head [of "shs ! i" "es ! i"] by (auto simp add: eoff_Suc [OF ls that] entry_bytes_def)
  have sorted: "sorted_wrt (<) ?offs"
    by (simp add: sorted_wrt_iff_nth_Suc_transp step del: upt_Suc)
  have le: "eoff shs es i \<le> length (bb_buffer b)" for i
    unfolding buf eoff_def by (metis append_take_drop_id concat_append le_add1 length_append)
  have key: "length (fst (es ! i)) < 2 ^ 32" if "i < length es" for i
    using key_length_bound [OF ls, of "Suc i"] sh that le [of "Suc i"] b32 by (fastforce simp: prev_key_def)
  have ent: "entry_at it (?offs ! i) (shs ! i) (prev_key es i) (es ! i) (?offs ! Suc i)" if "i < length es" for i
    using entry_at_chunk [OF key [OF that] ls that dat rst(1)] sh [OF that] that by (simp del: upt_Suc)
  have rpt: "unat (GetRestartPoint it k) = ?offs ! (rs ! k)" if k: "k < length rs" for k
  proof -
    have "GetRestartPoint it k = bb_restarts b ! k"
      using DecodeFixed32_concat [of k "bb_restarts b" "EncodeFixed32 (of_nat (length (bb_restarts b)))"] k
      by (simp add: GetRestartPoint_def dat rst rp)
    moreover have "rs ! k \<le> length es" using rs(4) nth_mem [OF k] by fastforce
    ultimately show ?thesis using k le [of "rs ! k"] b32 by (simp add: rp unat_u32 del: upt_Suc)
  qed
  have "\<exists>sh. entry_at it (?offs ! i) sh (prev_key es i) (es ! i) (?offs ! Suc i) \<and> (i \<in> set rs \<longrightarrow> sh = 0)"
    if "i < length es" for i
    using ent [OF that] sh [OF that] by blast
  then show ?thesis
    unfolding layout_def using sorted rpt rs rst all buf by (simp del: upt_Suc)
qed

lemma built_rep:
  assumes "0 < interval" "sorted_entries c kok es" "length (fst (bb_Finish (build interval es))) < 2 ^ 32"
  shows "block_rep c kok (Block_NewIterator (new_Block (fst (bb_Finish (build interval es)))) c) es (length es)"
proof -
  from bb_inv_build [OF assms(1)] obtain shs rs where inv: "bb_inv (build interval es) es shs rs" by blast
  then have rs: "bb_restarts (build interval es) \<noteq> []" "length (bb_restarts (build interval es)) = length rs"
    by (auto simp: bb_inv_def)
  let ?it = "new_BlockIter c (fst (bb_Finish (build interval es))) (of_nat (length (bb_buffer (build interval es)))) (length rs)"
  have "Block_NewIterator (new_Block (fst (bb_Finish (build interval es)))) c = Inr ?it"
    using open_block [OF Finish_data assms(3) rs(1)] rs(2) by simp
  moreover have "bi_pos ?it es (map (eoff shs es) [0..<Suc (length es)]) rs (length es)"
    using built_layout [OF inv assms(3) refl, of c]
    by (simp add: bi_pos_def bi_end_def bi_good_def new_BlockIter_def del: upt_Suc)
  ultimately show ?thesis using assms(2) by (auto simp: block_rep_def new_BlockIter_def)
qed

section \<open>Properties\<close>

text \<open>
  A block read back: opening what the builder wrote for strictly increasing keys and scanning it
  forward from the first entry or backward from the last one gives exactly the entries, in order
  and in reverse, for every restart interval and every comparator that is a total order on the keys.
\<close>

theorem block_scan:
  assumes "0 < interval" "sorted_entries c kok es" "length (fst (bb_Finish (build interval es))) < 2 ^ 32"
  shows "let s = Block_NewIterator (new_Block (fst (bb_Finish (build interval es)))) c in
    read_forward Block_Iterator n (SeekToFirst Block_Iterator s) = take n es \<and>
    read_backward Block_Iterator n (SeekToLast Block_Iterator s) = take n (rev es) \<and>
    istatus Block_Iterator s = Status_OK"
  using built_rep [OF assms] unfolding Let_def
  by (blast intro: block_iter.read_from_first block_iter.read_from_last block_iter.rep_status)

text \<open>
  C12. \<open>Seek\<close> in a block: the binary search over the restart points and the linear scan after it land on
  the first entry at or past the target, or past the end when there is none; the scan from
  there gives the rest of the block, and the step back the entry before.
\<close>

theorem block_seek:
  assumes "0 < interval" "sorted_entries c kok es" "length (fst (bb_Finish (build interval es))) < 2 ^ 32" "kok target"
  shows "let s = Seek Block_Iterator (Block_NewIterator (new_Block (fst (bb_Finish (build interval es)))) c) target;
             i = lower_bound c es target in
    read_forward Block_Iterator n s = take n (dropWhile (\<lambda>e. Compare c (fst e) target < 0) es) \<and>
    (Valid Block_Iterator s \<longleftrightarrow> i < length es) \<and>
    (i < length es \<longrightarrow> read_backward Block_Iterator n s = take n (rev (take (Suc i) es)))"
proof -
  note rep = built_rep [OF assms(1-3)]
  note seek = block_iter.rep_Seek [OF rep assms(4)]
  show ?thesis
    unfolding Let_def
    using block_iter.read_from_seek [OF rep assms(4)] block_iter.rep_Valid [OF seek] block_iter.read_backward_eq [OF seek]
    by simp
qed

text \<open>
  C30. Corrupted entries: the bounds test of \<open>DecodeEntry\<close> adds the two lengths at 32 bits, so an entry that
  claims a key of \<open>2^32 - 1\<close> bytes and a value of one byte passes it, and the iterator copies bytes
  past the end of the block instead of reporting corruption. Entries whose two lengths do not
  overflow are bounded by the block.
\<close>

theorem decode_entry_overflow:
  "(\<forall>p s n v q. DecodeEntry p = Some (s, n, v, q) \<and> length p < 2 ^ 32 \<and> unat n + unat v < 2 ^ 32 \<longrightarrow>
      unat n + unat v \<le> length q) \<and>
   (case Block_NewIterator (new_Block ([0, 255, 255, 255, 255, 15, 1] @ EncodeFixed32 0 @ EncodeFixed32 1)) c of
      Inl s \<Rightarrow> False | Inr it \<Rightarrow> bi_Valid (bi_SeekToFirst it) \<and> bi_oob (bi_SeekToFirst it))"
proof (intro conjI allI impI)
  fix p s n v q
  assume "DecodeEntry p = Some (s, n, v, q) \<and> length p < 2 ^ 32 \<and> unat n + unat v < 2 ^ 32"
  then show "unat n + unat v \<le> length q"
    using DecodeEntry_bounds(2) [of p s n v q] by (simp add: unat_word_ariths)
next
  let ?buf = "[0, 255, 255, 255, 255, 15, 1] :: bytes"
  let ?data = "?buf @ EncodeFixed32 0 @ EncodeFixed32 1"
  let ?it = "new_BlockIter c ?data 7 1"
  have new: "Block_NewIterator (new_Block ?data) c = Inr ?it"
    using open_block [of ?data ?buf "[0]" c] by simp
  have dec: "DecodeEntry ?buf = Some (0, 4294967295, 1, [])" by code_simp
  have "GetRestartPoint ?it 0 = 0" by (simp add: GetRestartPoint_def new_BlockIter_def)
  then have "bi_Valid (bi_SeekToFirst ?it) \<and> bi_oob (bi_SeekToFirst ?it)"
    by (simp add: bi_SeekToFirst_def SeekToRestartPoint_def ParseNextKey_def NextEntryOffset_def new_BlockIter_def
        bi_region_def Let_def dec bi_Valid_def)
  then show "case Block_NewIterator (new_Block ?data) c of
      Inl s \<Rightarrow> False | Inr it \<Rightarrow> bi_Valid (bi_SeekToFirst it) \<and> bi_oob (bi_SeekToFirst it)"
    unfolding new by simp
qed

lemma bytewise_sorted_entries:
  "sorted_wrt (\<lambda>a b. Slice_compare (fst a) (fst b) < 0) es \<Longrightarrow> sorted_entries BytewiseComparator (\<lambda>_. True) es"
  using bytewise.comparator_contract_axioms by (simp add: sorted_entries_def)

text \<open>The entries the witnesses use: shared prefixes, and a restart point after every second entry.\<close>

definition sample_entries :: "(bytes \<times> bytes) list" where
  "sample_entries = [([1, 2, 3], [9]), ([1, 2, 4], []), ([1, 3], [7, 7]), ([2], [5])]"

lemma sample_sorted: "sorted_entries BytewiseComparator (\<lambda>_. True) sample_entries"
  by (rule bytewise_sorted_entries) (simp add: sample_entries_def)

lemma sample_length: "length (fst (bb_Finish (build 2 sample_entries))) = 35"
  by code_simp

theorem decode_entry_overflow_witness:
  "DecodeEntry [0, 1, 1, 5, 6] = Some (0, 1, 1, [5, 6]) \<and> unat (1 :: u32) + unat (1 :: u32) \<le> length ([5, 6] :: bytes)"
proof -
  have "DecodeEntry [0, 1, 1, 5, 6] = Some (0, 1, 1, [5, 6])" by code_simp
  then show ?thesis using decode_entry_overflow [THEN conjunct1] by fastforce
qed

theorem block_scan_witness:
  "let s = Block_NewIterator (new_Block (fst (bb_Finish (build 2 sample_entries)))) BytewiseComparator in
    read_forward Block_Iterator 4 (SeekToFirst Block_Iterator s) = sample_entries"
  using block_scan [of 2 BytewiseComparator "\<lambda>_. True" sample_entries 4] sample_sorted sample_length
  by (simp add: Let_def sample_entries_def)

theorem block_seek_witness:
  "let s = Seek Block_Iterator (Block_NewIterator (new_Block (fst (bb_Finish (build 2 sample_entries)))) BytewiseComparator) [1, 2, 5] in
    read_forward Block_Iterator 4 s = [([1, 3], [7, 7]), ([2], [5])]"
  using block_seek [of 2 BytewiseComparator "\<lambda>_. True" sample_entries "[1, 2, 5]" 4] sample_sorted sample_length
  by (simp add: Let_def sample_entries_def)

end
