(* ===== verification/Bindings.thy ===== *)
theory Bindings
  imports Blocks WriteBatches Complex_Main
begin

text \<open>
  \<open>cpp/react-native-leveldb.cpp\<close>: the host functions JavaScript calls, over the three global handle
  tables. What the functions call of LevelDB (\<open>include/leveldb/db.h\<close>) is a record of operations over a
  world that holds the databases and the file system, so every statement here is about any
  implementation of that interface.

  A call returns a value, throws a JavaScript error, has the engine throw (an array buffer of a
  negative length) or has undefined behaviour: an argument that is not there, a conversion of a double
  outside the range of \<open>int\<close>, a null iterator dereferenced, an iterator used after its database was deleted
  (\<open>db.h\<close>: the iterator should be deleted before the db is). For the last, an iterator
  slot remembers the slot of its database.
\<close>

section \<open>Definitions\<close>

subsection \<open>JavaScript values and outcomes\<close>

text \<open>A number is a finite double, as a rational, or none (NaN and the infinities). Strings are UTF-8 bytes.\<close>

datatype jsval = JUndefined | JNull | JBool bool | JNumber "rat option" | JString bytes | JArrayBuffer bytes | JObject

datatype 'a outcome = Returns 'a | Throws bytes | EngineThrows | Undefined

text \<open>\<open>(int)d\<close>: truncation towards zero, undefined when the result does not fit.\<close>

definition int_of_double :: "rat option \<Rightarrow> int option" where
  "int_of_double d =
     (case d of
        None \<Rightarrow> None
      | Some r \<Rightarrow> (let i = (if r < 0 then \<lceil>r\<rceil> else \<lfloor>r\<rfloor>)
                  in if - (2 ^ 31) \<le> i \<and> i < 2 ^ 31 then Some i else None))"

definition JInt :: "int \<Rightarrow> jsval" where
  "JInt i = JNumber (Some (of_int i))"

subsection \<open>The interface to LevelDB\<close>

record ('w, 'd, 'i) LevelDB =
  DB_Open :: "bool \<Rightarrow> bool \<Rightarrow> bytes \<Rightarrow> 'w \<Rightarrow> (Status \<times> 'd option) \<times> 'w"
  DB_Destroy :: "bytes \<Rightarrow> 'w \<Rightarrow> Status \<times> 'w"
  DB_free :: "'d \<Rightarrow> 'w \<Rightarrow> 'w"
  DB_Put :: "'d \<Rightarrow> bytes \<Rightarrow> bytes \<Rightarrow> 'w \<Rightarrow> Status \<times> 'w"
  DB_Delete :: "'d \<Rightarrow> bytes \<Rightarrow> 'w \<Rightarrow> Status \<times> 'w"
  DB_Write :: "'d \<Rightarrow> bytes \<Rightarrow> 'w \<Rightarrow> (Status \<times> bytes) \<times> 'w"
  DB_Get :: "'d \<Rightarrow> bytes \<Rightarrow> 'w \<Rightarrow> (Status \<times> bytes) \<times> 'w"
  DB_NewIterator :: "'d \<Rightarrow> 'w \<Rightarrow> 'i \<times> 'w"
  Iter_ops :: "'i Iterator"
  Iter_free :: "'i \<Rightarrow> 'w \<Rightarrow> 'w"

record ('w, 'd, 'i) Globals =
  world :: 'w
  dbs :: "'d option list"
  iterators :: "('i \<times> nat) option list"
  batches :: "bytes option list"

type_synonym ('w, 'd, 'i, 'a) host = "('w, 'd, 'i) Globals \<Rightarrow> 'a outcome \<times> ('w, 'd, 'i) Globals"

subsection \<open>Sequencing\<close>

definition hreturn :: "'a \<Rightarrow> ('w, 'd, 'i, 'a) host" where
  "hreturn x g = (Returns x, g)"

definition hthrow :: "bytes \<Rightarrow> ('w, 'd, 'i, 'a) host" where
  "hthrow msg g = (Throws msg, g)"

definition hundefined :: "('w, 'd, 'i, 'a) host" where
  "hundefined g = (Undefined, g)"

definition hbind :: "('w, 'd, 'i, 'a) host \<Rightarrow> ('a \<Rightarrow> ('w, 'd, 'i, 'b) host) \<Rightarrow> ('w, 'd, 'i, 'b) host" where
  "hbind m f g =
     (case m g of
        (Returns x, g') \<Rightarrow> f x g'
      | (Throws msg, g') \<Rightarrow> (Throws msg, g')
      | (EngineThrows, g') \<Rightarrow> (EngineThrows, g')
      | (Undefined, g') \<Rightarrow> (Undefined, g'))"

text \<open>A call into LevelDB, which changes the world only.\<close>

definition hworld :: "('w \<Rightarrow> 'a \<times> 'w) \<Rightarrow> ('w, 'd, 'i, 'a) host" where
  "hworld f g = (let (x, w) = f (world g) in (Returns x, g\<lparr>world := w\<rparr>))"

definition hread :: "(('w, 'd, 'i) Globals \<Rightarrow> 'a) \<Rightarrow> ('w, 'd, 'i, 'a) host" where
  "hread f g = (Returns (f g), g)"

definition hmodify :: "(('w, 'd, 'i) Globals \<Rightarrow> ('w, 'd, 'i) Globals) \<Rightarrow> ('w, 'd, 'i, unit) host" where
  "hmodify f g = (Returns (), f g)"

definition harg :: "jsval list \<Rightarrow> nat \<Rightarrow> ('w, 'd, 'i, jsval) host" where
  "harg args i = (if i < length args then hreturn (args ! i) else hundefined)"

definition hint :: "rat option \<Rightarrow> ('w, 'd, 'i, int) host" where
  "hint d = (case int_of_double d of None \<Rightarrow> hundefined | Some i \<Rightarrow> hreturn i)"

subsection \<open>Arguments\<close>

definition valueToString :: "jsval \<Rightarrow> bytes option" where
  "valueToString value =
     (case value of JString s \<Rightarrow> Some s | JArrayBuffer buf \<Rightarrow> Some buf | _ \<Rightarrow> None)"

definition valueToDb :: "jsval \<Rightarrow> ('w, 'd, 'i, bytes + 'd) host" where
  "valueToDb value =
     (case value of
        JNumber d \<Rightarrow> hbind (hint d) (\<lambda>idx. hread (\<lambda>g.
          if idx < 0 \<or> idx \<ge> int (length (dbs g)) then Inl (str ''valueToDb/idx-out-of-range'')
          else case dbs g ! nat idx of
                 None \<Rightarrow> Inl (str ''valueToDb/db-closed'')
               | Some db \<Rightarrow> Inr db))
      | _ \<Rightarrow> hreturn (Inl (str ''valueToDb/param-not-a-number'')))"

text \<open>The pointer to an iterator: its slot, or null.\<close>

definition valueToIterator :: "jsval \<Rightarrow> ('w, 'd, 'i, nat option) host" where
  "valueToIterator value =
     (case value of
        JNumber d \<Rightarrow> hbind (hint d) (\<lambda>idx. hread (\<lambda>g.
          if idx < 0 \<or> idx \<ge> int (length (iterators g)) then None
          else if iterators g ! nat idx = None then None else Some (nat idx)))
      | _ \<Rightarrow> hreturn None)"

definition valueToWriteBatch :: "jsval \<Rightarrow> ('w, 'd, 'i, bytes + nat) host" where
  "valueToWriteBatch value =
     (case value of
        JNumber d \<Rightarrow> hbind (hint d) (\<lambda>idx. hread (\<lambda>g.
          if idx < 0 \<or> idx \<ge> int (length (batches g)) then Inl (str ''valueToWriteBatch/idx-out-of-range'')
          else if batches g ! nat idx = None then Inl (str ''valueToWriteBatch/null'')
          else Inr (nat idx)))
      | _ \<Rightarrow> hreturn (Inl (str ''valueToWriteBatch/param-not-a-number'')))"

text \<open>The tests each function makes of its arguments, throwing under its own name.\<close>

definition requireDb :: "bytes \<Rightarrow> jsval \<Rightarrow> ('w, 'd, 'i, 'd) host" where
  "requireDb pre value =
     hbind (valueToDb value) (\<lambda>r. case r of Inl err \<Rightarrow> hthrow (pre @ err) | Inr db \<Rightarrow> hreturn db)"

definition requireIterator :: "bytes \<Rightarrow> jsval \<Rightarrow> ('w, 'd, 'i, nat) host" where
  "requireIterator name value =
     hbind (valueToIterator value) (\<lambda>r. case r of
       None \<Rightarrow> hthrow (name @ str ''/invalid-params'') | Some i \<Rightarrow> hreturn i)"

definition requireBatch :: "bytes \<Rightarrow> jsval \<Rightarrow> ('w, 'd, 'i, nat) host" where
  "requireBatch name value =
     hbind (valueToWriteBatch value) (\<lambda>r. case r of
       Inl err \<Rightarrow> hthrow (name @ str ''/'' @ err) | Inr i \<Rightarrow> hreturn i)"

definition requireString :: "bytes \<Rightarrow> jsval \<Rightarrow> ('w, 'd, 'i, bytes) host" where
  "requireString name value =
     (case valueToString value of None \<Rightarrow> hthrow (name @ str ''/invalid-params'') | Some s \<Rightarrow> hreturn s)"

definition requireOk :: "bytes \<Rightarrow> Status \<Rightarrow> ('w, 'd, 'i, unit) host" where
  "requireOk name s = (if ok s then hreturn () else hthrow (name @ str ''/'' @ Status_ToString s))"

text \<open>The iterator behind a pointer: gone with its database.\<close>

definition derefIterator :: "nat option \<Rightarrow> ('w, 'd, 'i, 'i) host" where
  "derefIterator p g =
     (case p of
        None \<Rightarrow> (Undefined, g)
      | Some i \<Rightarrow>
          (case iterators g ! i of
             None \<Rightarrow> (Undefined, g)
           | Some (s, j) \<Rightarrow> if dbs g ! j = None then (Undefined, g) else (Returns s, g)))"

definition setIterator :: "nat \<Rightarrow> 'i \<Rightarrow> ('w, 'd, 'i, unit) host" where
  "setIterator i s = hmodify (\<lambda>g. g\<lparr>iterators := (iterators g)[i := map_option (\<lambda>(_, j). (s, j)) (iterators g ! i)]\<rparr>)"

subsection \<open>Databases\<close>

definition leveldbOpen :: "('w, 'd, 'i) LevelDB \<Rightarrow> bytes \<Rightarrow> jsval list \<Rightarrow> ('w, 'd, 'i, jsval) host" where
  "leveldbOpen L documentDir args =
     hbind (harg args 0) (\<lambda>a0. case a0 of
       JString name \<Rightarrow> hbind (harg args 1) (\<lambda>a1. case a1 of
         JBool create_if_missing \<Rightarrow> hbind (harg args 2) (\<lambda>a2. case a2 of
           JBool error_if_exists \<Rightarrow>
             hbind (hworld (DB_Open L create_if_missing error_if_exists (documentDir @ name))) (\<lambda>(status, db).
             hbind (hmodify (\<lambda>g. g\<lparr>dbs := dbs g @ [db]\<rparr>)) (\<lambda>_.
             hbind (hread (\<lambda>g. length (dbs g) - 1)) (\<lambda>idx.
             if \<not> ok status then
               hbind (hread (\<lambda>g. dbs g ! idx)) (\<lambda>db.
               hbind (case db of None \<Rightarrow> hreturn () | Some d \<Rightarrow> hworld (\<lambda>w. ((), DB_free L d w))) (\<lambda>_.
               hbind (hmodify (\<lambda>g. g\<lparr>dbs := (dbs g)[idx := None]\<rparr>)) (\<lambda>_.
               hthrow (str ''leveldbOpen/'' @ Status_ToString status))))
             else hreturn (JInt (int idx)))))
         | _ \<Rightarrow> hthrow (str ''leveldbOpen/invalid-params''))
       | _ \<Rightarrow> hthrow (str ''leveldbOpen/invalid-params''))
     | _ \<Rightarrow> hthrow (str ''leveldbOpen/invalid-params''))"

definition leveldbDestroy :: "('w, 'd, 'i) LevelDB \<Rightarrow> bytes \<Rightarrow> jsval list \<Rightarrow> ('w, 'd, 'i, jsval) host" where
  "leveldbDestroy L documentDir args =
     hbind (harg args 0) (\<lambda>a0. case a0 of
       JString name \<Rightarrow>
         hbind (hworld (DB_Destroy L (documentDir @ name))) (\<lambda>status.
         hbind (requireOk (str ''leveldbDestroy'') status) (\<lambda>_. hreturn JNull))
     | _ \<Rightarrow> hthrow (str ''leveldbDestroy/invalid-params''))"

definition leveldbClose :: "('w, 'd, 'i) LevelDB \<Rightarrow> jsval list \<Rightarrow> ('w, 'd, 'i, jsval) host" where
  "leveldbClose L args =
     hbind (harg args 0) (\<lambda>a0. case a0 of
       JNumber d \<Rightarrow> hbind (hint d) (\<lambda>idx.
         hbind (hread (\<lambda>g. if idx < 0 \<or> idx \<ge> int (length (dbs g)) then None else dbs g ! nat idx)) (\<lambda>db. case db of
           None \<Rightarrow> hthrow (str ''leveldbClose/db-idx-out-of-bounds'')
         | Some d \<Rightarrow>
             hbind (hworld (\<lambda>w. ((), DB_free L d w))) (\<lambda>_.
             hbind (hmodify (\<lambda>g. g\<lparr>dbs := (dbs g)[nat idx := None]\<rparr>)) (\<lambda>_. hreturn JNull))))
     | _ \<Rightarrow> hthrow (str ''leveldbClose/invalid-params''))"

definition leveldbPut :: "('w, 'd, 'i) LevelDB \<Rightarrow> jsval list \<Rightarrow> ('w, 'd, 'i, jsval) host" where
  "leveldbPut L args =
     hbind (harg args 0) (\<lambda>a0. hbind (requireDb (str ''leveldbPut/'') a0) (\<lambda>db.
     hbind (harg args 1) (\<lambda>a1. hbind (requireString (str ''leveldbPut'') a1) (\<lambda>key.
     hbind (harg args 2) (\<lambda>a2. hbind (requireString (str ''leveldbPut'') a2) (\<lambda>value.
     hbind (hworld (DB_Put L db key value)) (\<lambda>status.
     hbind (requireOk (str ''leveldbPut'') status) (\<lambda>_. hreturn JNull))))))))"

definition leveldbDelete :: "('w, 'd, 'i) LevelDB \<Rightarrow> jsval list \<Rightarrow> ('w, 'd, 'i, jsval) host" where
  "leveldbDelete L args =
     hbind (harg args 0) (\<lambda>a0. hbind (requireDb (str ''leveldbDelete/'') a0) (\<lambda>db.
     hbind (harg args 1) (\<lambda>a1. hbind (requireString (str ''leveldbDelete'') a1) (\<lambda>key.
     hbind (hworld (DB_Delete L db key)) (\<lambda>status.
     if ok status \<or> IsNotFound status then hreturn JNull
     else hthrow (str ''leveldbDelete/'' @ Status_ToString status))))))"

definition getValue :: "bytes \<Rightarrow> ('w, 'd, 'i) LevelDB \<Rightarrow> (bytes \<Rightarrow> jsval) \<Rightarrow> jsval list \<Rightarrow> ('w, 'd, 'i, jsval) host" where
  "getValue name L wrap args =
     hbind (harg args 0) (\<lambda>a0. hbind (requireDb (name @ str ''/'') a0) (\<lambda>db.
     hbind (harg args 1) (\<lambda>a1. hbind (requireString name a1) (\<lambda>key.
     hbind (hworld (DB_Get L db key)) (\<lambda>(status, value).
     if IsNotFound status then hreturn JNull
     else hbind (requireOk name status) (\<lambda>_. hreturn (wrap value)))))))"

definition leveldbGetStr :: "('w, 'd, 'i) LevelDB \<Rightarrow> jsval list \<Rightarrow> ('w, 'd, 'i, jsval) host" where
  "leveldbGetStr L = getValue (str ''leveldbGetStr'') L JString"

definition leveldbGetBuf :: "('w, 'd, 'i) LevelDB \<Rightarrow> jsval list \<Rightarrow> ('w, 'd, 'i, jsval) host" where
  "leveldbGetBuf L = getValue (str ''leveldbGetBuf'') L JArrayBuffer"

subsection \<open>Iterators\<close>

definition leveldbNewIterator :: "('w, 'd, 'i) LevelDB \<Rightarrow> jsval list \<Rightarrow> ('w, 'd, 'i, jsval) host" where
  "leveldbNewIterator L args =
     hbind (harg args 0) (\<lambda>a0. hbind (requireDb (str ''leveldbNewIterator/'') a0) (\<lambda>db.
     hbind (case a0 of JNumber d \<Rightarrow> hint d | _ \<Rightarrow> hundefined) (\<lambda>j.
     hbind (hworld (DB_NewIterator L db)) (\<lambda>s.
     hbind (hmodify (\<lambda>g. g\<lparr>iterators := iterators g @ [Some (s, nat j)]\<rparr>)) (\<lambda>_.
     hread (\<lambda>g. JInt (int (length (iterators g)) - 1)))))))"

text \<open>The functions that move an iterator, and those that read it.\<close>

definition moveIterator :: "bytes \<Rightarrow> ('i \<Rightarrow> 'i) \<Rightarrow> jsval list \<Rightarrow> ('w, 'd, 'i, jsval) host" where
  "moveIterator name move args =
     hbind (harg args 0) (\<lambda>a0. hbind (requireIterator name a0) (\<lambda>i.
     hbind (derefIterator (Some i)) (\<lambda>s. hbind (setIterator i (move s)) (\<lambda>_. hreturn JNull))))"

definition readIterator :: "bytes \<Rightarrow> ('i \<Rightarrow> jsval) \<Rightarrow> jsval list \<Rightarrow> ('w, 'd, 'i, jsval) host" where
  "readIterator name f args =
     hbind (harg args 0) (\<lambda>a0. hbind (requireIterator name a0) (\<lambda>i.
     hbind (derefIterator (Some i)) (\<lambda>s. hreturn (f s))))"

definition leveldbIteratorSeekToFirst :: "('w, 'd, 'i) LevelDB \<Rightarrow> jsval list \<Rightarrow> ('w, 'd, 'i, jsval) host" where
  "leveldbIteratorSeekToFirst L = moveIterator (str ''leveldbIteratorSeekToFirst'') (SeekToFirst (Iter_ops L))"

definition leveldbIteratorSeekToLast :: "('w, 'd, 'i) LevelDB \<Rightarrow> jsval list \<Rightarrow> ('w, 'd, 'i, jsval) host" where
  "leveldbIteratorSeekToLast L = moveIterator (str ''leveldbIteratorSeekToLast'') (SeekToLast (Iter_ops L))"

definition leveldbIteratorSeek :: "('w, 'd, 'i) LevelDB \<Rightarrow> jsval list \<Rightarrow> ('w, 'd, 'i, jsval) host" where
  "leveldbIteratorSeek L args =
     hbind (harg args 0) (\<lambda>a0. hbind (requireIterator (str ''leveldbIteratorSeek'') a0) (\<lambda>i.
     hbind (harg args 1) (\<lambda>a1. hbind (requireString (str ''leveldbIteratorSeek'') a1) (\<lambda>target.
     hbind (derefIterator (Some i)) (\<lambda>s.
     hbind (setIterator i (Seek (Iter_ops L) s target)) (\<lambda>_. hreturn JNull))))))"

definition leveldbIteratorValid :: "('w, 'd, 'i) LevelDB \<Rightarrow> jsval list \<Rightarrow> ('w, 'd, 'i, jsval) host" where
  "leveldbIteratorValid L = readIterator (str ''leveldbIteratorValid'') (\<lambda>s. JBool (Valid (Iter_ops L) s))"

definition leveldbIteratorPrev :: "('w, 'd, 'i) LevelDB \<Rightarrow> jsval list \<Rightarrow> ('w, 'd, 'i, jsval) host" where
  "leveldbIteratorPrev L = moveIterator (str ''leveldbIteratorPrev'') (Prev (Iter_ops L))"

definition leveldbIteratorNext :: "('w, 'd, 'i) LevelDB \<Rightarrow> jsval list \<Rightarrow> ('w, 'd, 'i, jsval) host" where
  "leveldbIteratorNext L = moveIterator (str ''leveldbIteratorNext'') (Next (Iter_ops L))"

definition leveldbIteratorDelete :: "('w, 'd, 'i) LevelDB \<Rightarrow> jsval list \<Rightarrow> ('w, 'd, 'i, jsval) host" where
  "leveldbIteratorDelete L args =
     hbind (harg args 0) (\<lambda>a0. hbind (requireIterator (str ''leveldbIteratorDelete'') a0) (\<lambda>i.
     hbind (derefIterator (Some i)) (\<lambda>s.
     hbind (hworld (\<lambda>w. ((), Iter_free L s w))) (\<lambda>_.
     hbind (hmodify (\<lambda>g. g\<lparr>iterators := (iterators g)[i := None]\<rparr>)) (\<lambda>_. hreturn JNull)))))"

definition leveldbIteratorKeyStr :: "('w, 'd, 'i) LevelDB \<Rightarrow> jsval list \<Rightarrow> ('w, 'd, 'i, jsval) host" where
  "leveldbIteratorKeyStr L = readIterator (str ''leveldbIteratorKeyStr'') (\<lambda>s. JString (ikey (Iter_ops L) s))"

text \<open>The key is read before the iterator is tested.\<close>

definition leveldbIteratorKeyCompare :: "('w, 'd, 'i) LevelDB \<Rightarrow> jsval list \<Rightarrow> ('w, 'd, 'i, jsval) host" where
  "leveldbIteratorKeyCompare L args =
     hbind (harg args 0) (\<lambda>a0. hbind (valueToIterator a0) (\<lambda>p.
     hbind (harg args 1) (\<lambda>a1. hbind (requireString (str ''leveldbIteratorKeyCompare'') a1) (\<lambda>target.
     hbind (derefIterator p) (\<lambda>s.
     let comparisonResult = Slice_compare (ikey (Iter_ops L) s) target
     in if p = None then hthrow (str ''leveldbIteratorKeyCompare/invalid-params'')
        else hreturn (JInt comparisonResult))))))"

definition leveldbIteratorValueStr :: "('w, 'd, 'i) LevelDB \<Rightarrow> jsval list \<Rightarrow> ('w, 'd, 'i, jsval) host" where
  "leveldbIteratorValueStr L = readIterator (str ''leveldbIteratorValueStr'') (\<lambda>s. JString (ivalue (Iter_ops L) s))"

definition leveldbIteratorKeyBuf :: "('w, 'd, 'i) LevelDB \<Rightarrow> jsval list \<Rightarrow> ('w, 'd, 'i, jsval) host" where
  "leveldbIteratorKeyBuf L = readIterator (str ''leveldbIteratorKeyBuf'') (\<lambda>s. JArrayBuffer (ikey (Iter_ops L) s))"

definition leveldbIteratorValueBuf :: "('w, 'd, 'i) LevelDB \<Rightarrow> jsval list \<Rightarrow> ('w, 'd, 'i, jsval) host" where
  "leveldbIteratorValueBuf L = readIterator (str ''leveldbIteratorValueBuf'') (\<lambda>s. JArrayBuffer (ivalue (Iter_ops L) s))"

subsection \<open>Write batches\<close>

fun first_null :: "'a option list \<Rightarrow> nat \<Rightarrow> nat option" where
  "first_null [] i = None"
| "first_null (None # xs) i = Some i"
| "first_null (Some x # xs) i = first_null xs (i + 1)"

definition leveldbNewWriteBatch :: "jsval list \<Rightarrow> ('w, 'd, 'i, jsval) host" where
  "leveldbNewWriteBatch args =
     hbind (hread (\<lambda>g. first_null (batches g) 0)) (\<lambda>slot. case slot of
       Some i \<Rightarrow> hbind (hmodify (\<lambda>g. g\<lparr>batches := (batches g)[i := Some new_WriteBatch]\<rparr>)) (\<lambda>_. hreturn (JInt (int i)))
     | None \<Rightarrow> hbind (hmodify (\<lambda>g. g\<lparr>batches := batches g @ [Some new_WriteBatch]\<rparr>)) (\<lambda>_.
         hread (\<lambda>g. JInt (int (length (batches g)) - 1))))"

definition leveldbWriteWriteBatch :: "('w, 'd, 'i) LevelDB \<Rightarrow> jsval list \<Rightarrow> ('w, 'd, 'i, jsval) host" where
  "leveldbWriteWriteBatch L args =
     hbind (harg args 0) (\<lambda>a0. hbind (requireDb (str ''leveldbWriteWriteBatch/'') a0) (\<lambda>db.
     hbind (harg args 1) (\<lambda>a1. hbind (requireBatch (str ''leveldbWriteWriteBatch'') a1) (\<lambda>i.
     hbind (hread (\<lambda>g. the (batches g ! i))) (\<lambda>batch.
     hbind (hworld (DB_Write L db batch)) (\<lambda>(status, batch').
     hbind (hmodify (\<lambda>g. g\<lparr>batches := (batches g)[i := Some batch']\<rparr>)) (\<lambda>_.
     hbind (requireOk (str ''leveldbWriteWriteBatch'') status) (\<lambda>_. hreturn JNull))))))))"

definition updateBatch :: "nat \<Rightarrow> (bytes \<Rightarrow> bytes) \<Rightarrow> ('w, 'd, 'i, unit) host" where
  "updateBatch i f = hmodify (\<lambda>g. g\<lparr>batches := (batches g)[i := map_option f (batches g ! i)]\<rparr>)"

definition leveldbWriteBatchPut :: "jsval list \<Rightarrow> ('w, 'd, 'i, jsval) host" where
  "leveldbWriteBatchPut args =
     hbind (harg args 0) (\<lambda>a0. hbind (requireBatch (str ''leveldbWriteBatchPut'') a0) (\<lambda>i.
     hbind (harg args 1) (\<lambda>a1. hbind (requireString (str ''leveldbWriteBatchPut'') a1) (\<lambda>key.
     hbind (harg args 2) (\<lambda>a2. hbind (requireString (str ''leveldbWriteBatchPut'') a2) (\<lambda>value.
     hbind (updateBatch i (\<lambda>b. WriteBatch_Put b key value)) (\<lambda>_. hreturn JNull)))))))"

definition leveldbWriteBatchDelete :: "jsval list \<Rightarrow> ('w, 'd, 'i, jsval) host" where
  "leveldbWriteBatchDelete args =
     hbind (harg args 0) (\<lambda>a0. hbind (requireBatch (str ''leveldbWriteBatchDelete'') a0) (\<lambda>i.
     hbind (harg args 1) (\<lambda>a1. hbind (requireString (str ''leveldbWriteBatchDelete'') a1) (\<lambda>key.
     hbind (updateBatch i (\<lambda>b. WriteBatch_Delete b key)) (\<lambda>_. hreturn JNull)))))"

definition leveldbWriteBatchClose :: "jsval list \<Rightarrow> ('w, 'd, 'i, jsval) host" where
  "leveldbWriteBatchClose args =
     hbind (harg args 0) (\<lambda>a0. hbind (requireBatch (str ''leveldbWriteBatchClose'') a0) (\<lambda>i.
     hbind (case a0 of JNumber d \<Rightarrow> hint d | _ \<Rightarrow> hundefined) (\<lambda>idx.
     hbind (hread (\<lambda>g. idx < 0 \<or> idx \<ge> int (length (batches g)) \<or> batches g ! nat idx = None)) (\<lambda>bad.
     if bad then hthrow (str ''leveldbWriteBatchClose/idx-out-of-bounds'')
     else hbind (hmodify (\<lambda>g. g\<lparr>batches := (batches g)[nat idx := None]\<rparr>)) (\<lambda>_. hreturn JNull)))))"

subsection \<open>Merging two databases\<close>

text \<open>
  The loop over the source, with the destination's writes as they happen. It runs as long as the
  iterator is valid; not returning is no value. The statuses of the writes are dropped.
\<close>

partial_function (option) merge_loop ::
  "('w, 'd, 'i) LevelDB \<Rightarrow> bool \<Rightarrow> 'd \<Rightarrow> 'i \<Rightarrow> bytes \<Rightarrow> 'w \<Rightarrow> ('i \<times> bytes \<times> 'w) option" where
  "merge_loop L batchMerge dbDst itSrc batch w =
     (if Valid (Iter_ops L) itSrc then
        (let key = ikey (Iter_ops L) itSrc; value = ivalue (Iter_ops L) itSrc
         in if batchMerge
            then merge_loop L batchMerge dbDst (Next (Iter_ops L) itSrc) (WriteBatch_Put batch key value) w
            else merge_loop L batchMerge dbDst (Next (Iter_ops L) itSrc) batch (snd (DB_Put L dbDst key value w)))
      else Some (itSrc, batch, w))"

text \<open>The merge, the source's iterator deleted at the end on either way out; no value when the loop does not end.\<close>

definition merge_run :: "('w, 'd, 'i) LevelDB \<Rightarrow> bool \<Rightarrow> 'd \<Rightarrow> 'd \<Rightarrow> 'w \<Rightarrow> (Status \<times> 'w) option" where
  "merge_run L batchMerge dbDst dbSrc w =
     (let (itSrc, w) = DB_NewIterator L dbSrc w
      in case merge_loop L batchMerge dbDst (SeekToFirst (Iter_ops L) itSrc) new_WriteBatch w of
           None \<Rightarrow> None
         | Some (itSrc, batch, w) \<Rightarrow>
             (let s = istatus (Iter_ops L) itSrc;
                  w = (if ok s \<and> batchMerge then snd (DB_Write L dbDst batch w) else w)
              in Some (s, Iter_free L itSrc w)))"

definition leveldbMerge :: "('w, 'd, 'i) LevelDB \<Rightarrow> jsval list \<Rightarrow>
    ('w, 'd, 'i) Globals \<Rightarrow> (jsval outcome \<times> ('w, 'd, 'i) Globals) option" where
  "leveldbMerge L args g =
     (case hbind (harg args 0) (\<lambda>a0. hbind (requireDb (str ''leveldbMerge/dst/'') a0) (\<lambda>dbDst.
           hbind (harg args 1) (\<lambda>a1. hbind (requireDb (str ''leveldbMerge/src/'') a1) (\<lambda>dbSrc.
           hbind (harg args 2) (\<lambda>a2. case a2 of
             JBool batchMerge \<Rightarrow> hreturn (dbDst, dbSrc, batchMerge)
           | _ \<Rightarrow> hthrow (str ''leveldbMerge/batchMerge-param-not-a-boolean'')))))) g of
        (Returns (dbDst, dbSrc, batchMerge), g) \<Rightarrow>
          (case merge_run L batchMerge dbDst dbSrc (world g) of
             None \<Rightarrow> None
           | Some (s, w) \<Rightarrow>
               Some (hbind (requireOk (str ''leveldbMerge'') s) (\<lambda>_. hreturn JNull) (g\<lparr>world := w\<rparr>)))
      | (Throws msg, g) \<Rightarrow> Some (Throws msg, g)
      | (EngineThrows, g) \<Rightarrow> Some (EngineThrows, g)
      | (Undefined, g) \<Rightarrow> Some (Undefined, g))"

subsection \<open>Files, and the rest\<close>

definition leveldbTestException :: "jsval list \<Rightarrow> ('w, 'd, 'i, jsval) host" where
  "leveldbTestException args = hthrow (str ''leveldbTestException'')"

text \<open>
  A file is its contents, or cannot be opened, with the system's message. The sum is an \<open>int\<close>, undefined when
  it overflows, and compared as an unsigned 64-bit size. A negative position makes the stream fail.
\<close>

definition leveldbReadFileBuf :: "(bytes \<Rightarrow> bytes + bytes) \<Rightarrow> bytes \<Rightarrow> jsval list \<Rightarrow> ('w, 'd, 'i, jsval) host" where
  "leveldbReadFileBuf fs strerror args =
     hbind (harg args 0) (\<lambda>a0. hbind (requireString (str ''leveldbReadFileBuf'') a0) (\<lambda>path.
     hbind (harg args 1) (\<lambda>a1. case a1 of
       JNumber d1 \<Rightarrow> hbind (harg args 2) (\<lambda>a2. case a2 of
         JNumber d2 \<Rightarrow> hbind (hint d1) (\<lambda>pos. hbind (hint d2) (\<lambda>len.
           case fs path of
             Inl err \<Rightarrow> hthrow (str ''leveldbReadFileBuf/open-error/'' @ err)
           | Inr contents \<Rightarrow>
               if \<not> (- (2 ^ 31) \<le> pos + len \<and> pos + len < 2 ^ 31) then hundefined
               else if int (length contents) < (pos + len) mod 2 ^ 64
               then hthrow (str ''leveldbReadFileBuf/invalid-len-plus-pos'')
               else if len < 0 then (\<lambda>g. (EngineThrows, g))
               else if pos < 0 then hthrow (str ''leveldbReadFileBuf/read-error/'' @ strerror)
               else hreturn (JArrayBuffer (take (nat len) (drop (nat pos) contents)))))
       | _ \<Rightarrow> hthrow (str ''leveldbReadFileBuf/invalid-params''))
     | _ \<Rightarrow> hthrow (str ''leveldbReadFileBuf/invalid-params''))))"

text \<open>
  \<open>cleanupLeveldb\<close>: the iterators first, then the databases, then the batches. Deleting an iterator whose
  database is gone is undefined.
\<close>

definition cleanupLeveldb :: "('w, 'd, 'i) LevelDB \<Rightarrow> ('w, 'd, 'i, unit) host" where
  "cleanupLeveldb L g =
     (if \<exists>p\<in>set (iterators g). case p of None \<Rightarrow> False | Some (s, j) \<Rightarrow> dbs g ! j = None
      then (Undefined, g)
      else let w = fold (\<lambda>p w. case p of None \<Rightarrow> w | Some (s, j) \<Rightarrow> Iter_free L s w) (iterators g) (world g);
               w = fold (\<lambda>p w. case p of None \<Rightarrow> w | Some d \<Rightarrow> DB_free L d w) (dbs g) w
           in (Returns (), g\<lparr>world := w, iterators := [], dbs := [], batches := []\<rparr>))"

text \<open>\<open>installLeveldb\<close> cleans up and fixes the directory the functions use; it reads the last character of the directory.\<close>

definition installLeveldb :: "('w, 'd, 'i) LevelDB \<Rightarrow> bytes \<Rightarrow> ('w, 'd, 'i, bytes) host" where
  "installLeveldb L documentDir =
     hbind (cleanupLeveldb L) (\<lambda>_.
     if documentDir = [] then hundefined
     else hreturn (if last documentDir \<noteq> 47 then documentDir @ [47] else documentDir))"

subsection \<open>Calls from JavaScript\<close>

datatype host_function =
  F_Open | F_Destroy | F_Close | F_Put | F_Delete | F_NewIterator | F_IteratorSeekToFirst | F_IteratorSeekToLast
| F_IteratorSeek | F_IteratorValid | F_IteratorPrev | F_IteratorNext | F_IteratorDelete | F_IteratorKeyStr
| F_IteratorKeyCompare | F_IteratorValueStr | F_NewWriteBatch | F_WriteWriteBatch | F_WriteBatchPut
| F_WriteBatchDelete | F_WriteBatchClose | F_GetStr | F_IteratorKeyBuf | F_IteratorValueBuf | F_GetBuf
| F_TestException | F_ReadFileBuf

text \<open>What the functions capture and use of the system: the directory and the files.\<close>

record system =
  documentDir :: bytes
  files :: "bytes \<Rightarrow> bytes + bytes"
  strerror :: bytes

fun host_call :: "('w, 'd, 'i) LevelDB \<Rightarrow> system \<Rightarrow> host_function \<Rightarrow> jsval list \<Rightarrow> ('w, 'd, 'i, jsval) host" where
  "host_call L e F_Open args = leveldbOpen L (documentDir e) args"
| "host_call L e F_Destroy args = leveldbDestroy L (documentDir e) args"
| "host_call L e F_Close args = leveldbClose L args"
| "host_call L e F_Put args = leveldbPut L args"
| "host_call L e F_Delete args = leveldbDelete L args"
| "host_call L e F_NewIterator args = leveldbNewIterator L args"
| "host_call L e F_IteratorSeekToFirst args = leveldbIteratorSeekToFirst L args"
| "host_call L e F_IteratorSeekToLast args = leveldbIteratorSeekToLast L args"
| "host_call L e F_IteratorSeek args = leveldbIteratorSeek L args"
| "host_call L e F_IteratorValid args = leveldbIteratorValid L args"
| "host_call L e F_IteratorPrev args = leveldbIteratorPrev L args"
| "host_call L e F_IteratorNext args = leveldbIteratorNext L args"
| "host_call L e F_IteratorDelete args = leveldbIteratorDelete L args"
| "host_call L e F_IteratorKeyStr args = leveldbIteratorKeyStr L args"
| "host_call L e F_IteratorKeyCompare args = leveldbIteratorKeyCompare L args"
| "host_call L e F_IteratorValueStr args = leveldbIteratorValueStr L args"
| "host_call L e F_NewWriteBatch args = leveldbNewWriteBatch args"
| "host_call L e F_WriteWriteBatch args = leveldbWriteWriteBatch L args"
| "host_call L e F_WriteBatchPut args = leveldbWriteBatchPut args"
| "host_call L e F_WriteBatchDelete args = leveldbWriteBatchDelete args"
| "host_call L e F_WriteBatchClose args = leveldbWriteBatchClose args"
| "host_call L e F_GetStr args = leveldbGetStr L args"
| "host_call L e F_IteratorKeyBuf args = leveldbIteratorKeyBuf L args"
| "host_call L e F_IteratorValueBuf args = leveldbIteratorValueBuf L args"
| "host_call L e F_GetBuf args = leveldbGetBuf L args"
| "host_call L e F_TestException args = leveldbTestException args"
| "host_call L e F_ReadFileBuf args = leveldbReadFileBuf (files e) (strerror e) args"

text \<open>
  The calls of a JavaScript program as a step relation: a host function, or the merge of two databases
  when it returns.
\<close>

inductive js_step :: "('w, 'd, 'i) LevelDB \<Rightarrow> system \<Rightarrow> ('w, 'd, 'i) Globals \<Rightarrow> ('w, 'd, 'i) Globals \<Rightarrow> bool" for L e where
  js_call: "host_call L e f args g = (r, g') \<Longrightarrow> js_step L e g g'"
| js_merge: "leveldbMerge L args g = Some (r, g') \<Longrightarrow> js_step L e g g'"

inductive js_run :: "('w, 'd, 'i) LevelDB \<Rightarrow> system \<Rightarrow> ('w, 'd, 'i) Globals \<Rightarrow> ('w, 'd, 'i) Globals \<Rightarrow> bool" for L e where
  js_done: "js_run L e g g"
| js_next: "js_run L e g g' \<Longrightarrow> js_step L e g' g'' \<Longrightarrow> js_run L e g g''"

section \<open>Handles\<close>

text \<open>
  How a call changes the tables: no slot of a database or an iterator changes what it denotes, except to be
  emptied, and the tables only grow.
\<close>

definition evolves_to :: "('w, 'd, 'i) Globals \<Rightarrow> ('w, 'd, 'i) Globals \<Rightarrow> bool" where
  "evolves_to g g' \<longleftrightarrow>
     length (dbs g) \<le> length (dbs g') \<and>
     (\<forall>i < length (dbs g). dbs g' ! i = dbs g ! i \<or> dbs g' ! i = None) \<and>
     length (iterators g) \<le> length (iterators g') \<and>
     (\<forall>i < length (iterators g). iterators g' ! i = None \<or> map_option snd (iterators g' ! i) = map_option snd (iterators g ! i))"

definition evolves :: "('w, 'd, 'i, 'a) host \<Rightarrow> bool" where
  "evolves m \<longleftrightarrow> (\<forall>g. evolves_to g (snd (m g)))"

lemma evolves_to_refl [simp]: "evolves_to g g"
  by (simp add: evolves_to_def)

lemma evolves_to_trans: "evolves_to g g' \<Longrightarrow> evolves_to g' g'' \<Longrightarrow> evolves_to g g''"
  unfolding evolves_to_def
  by (intro conjI allI impI; (elim conjE)?) (force, metis less_le_trans, force, metis less_le_trans option.map_disc_iff)

lemma evolves_prims [intro!, simp]:
  "evolves (hreturn x)" "evolves (hthrow m)" "evolves hundefined" "evolves (hworld f)" "evolves (hread h)"
  "evolves (hmodify (\<lambda>g. g\<lparr>batches := b g\<rparr>))" "evolves (derefIterator p)"
  by (auto simp: evolves_def hreturn_def hthrow_def hundefined_def hworld_def hread_def hmodify_def evolves_to_def
      derefIterator_def case_prod_unfold Let_def split: option.splits)

lemma evolves_bind [intro!]: "evolves m \<Longrightarrow> (\<And>x. evolves (f x)) \<Longrightarrow> evolves (hbind m f)"
  unfolding evolves_def hbind_def
  by (auto split: prod.splits outcome.splits) (metis evolves_to_trans snd_conv)+

lemma evolves_if [intro!]: "evolves a \<Longrightarrow> evolves b \<Longrightarrow> evolves (if c then a else b)"
  by simp

lemma evolves_case_option [intro!]: "evolves a \<Longrightarrow> (\<And>x. evolves (b x)) \<Longrightarrow> evolves (case p of None \<Rightarrow> a | Some x \<Rightarrow> b x)"
  by (cases p) simp_all

lemma evolves_case_sum [intro!]: "(\<And>x. evolves (a x)) \<Longrightarrow> (\<And>x. evolves (b x)) \<Longrightarrow> evolves (case p of Inl x \<Rightarrow> a x | Inr x \<Rightarrow> b x)"
  by (cases p) simp_all

lemma evolves_case_prod [intro!]: "(\<And>x y. evolves (a x y)) \<Longrightarrow> evolves (case p of (x, y) \<Rightarrow> a x y)"
  by (cases p) simp

lemma evolves_case_jsval [intro!]:
  "evolves a \<Longrightarrow> evolves b \<Longrightarrow> (\<And>x. evolves (c x)) \<Longrightarrow> (\<And>x. evolves (d x)) \<Longrightarrow> (\<And>x. evolves (e x)) \<Longrightarrow>
     (\<And>x. evolves (f x)) \<Longrightarrow> evolves h \<Longrightarrow> evolves (case_jsval a b c d e f h v)"
  by (cases v) simp_all

lemma nth_update: "j < length xs \<Longrightarrow> xs[i := v] ! j = (if i = j then v else xs ! j)"
  by simp

lemma evolves_tables [intro!, simp]:
  "evolves (hmodify (\<lambda>g. g\<lparr>dbs := dbs g @ [x]\<rparr>))" "evolves (hmodify (\<lambda>g. g\<lparr>dbs := (dbs g)[i := None]\<rparr>))"
  "evolves (hmodify (\<lambda>g. g\<lparr>iterators := iterators g @ [y]\<rparr>))"
  "evolves (hmodify (\<lambda>g. g\<lparr>iterators := (iterators g)[i := None]\<rparr>))"
  "evolves (setIterator i s)"
  by (auto simp: evolves_def hmodify_def evolves_to_def nth_append nth_update setIterator_def option.map_comp o_def
      case_prod_unfold)

lemmas handler_defs = leveldbOpen_def leveldbDestroy_def leveldbClose_def leveldbPut_def leveldbDelete_def
  leveldbNewIterator_def leveldbIteratorSeekToFirst_def leveldbIteratorSeekToLast_def leveldbIteratorSeek_def
  leveldbIteratorValid_def leveldbIteratorPrev_def leveldbIteratorNext_def leveldbIteratorDelete_def
  leveldbIteratorKeyStr_def leveldbIteratorKeyCompare_def leveldbIteratorValueStr_def leveldbNewWriteBatch_def
  leveldbWriteWriteBatch_def leveldbWriteBatchPut_def leveldbWriteBatchDelete_def leveldbWriteBatchClose_def
  leveldbGetStr_def leveldbGetBuf_def leveldbIteratorKeyBuf_def leveldbIteratorValueBuf_def leveldbTestException_def
  leveldbReadFileBuf_def

lemmas argument_defs = harg_def hint_def requireDb_def requireIterator_def requireBatch_def requireString_def requireOk_def
  valueToDb_def valueToIterator_def valueToWriteBatch_def updateBatch_def getValue_def moveIterator_def readIterator_def

lemma evolves_engine [intro!, simp]: "evolves (\<lambda>g. (EngineThrows, g))"
  by (simp add: evolves_def)

lemma host_call_evolves: "evolves (host_call L e f args)"
  by (cases f; simp only: host_call.simps handler_defs argument_defs Let_def; intro evolves_bind evolves_if evolves_case_option
      evolves_case_sum evolves_case_prod evolves_case_jsval evolves_prims evolves_tables evolves_engine)

text \<open>Reading arguments changes nothing.\<close>

definition reads_only :: "('w, 'd, 'i, 'a) host \<Rightarrow> bool" where
  "reads_only m \<longleftrightarrow> (\<forall>g. snd (m g) = g)"

lemma reads_only_intros:
  "reads_only (hreturn x)" "reads_only (hthrow msg)" "reads_only hundefined" "reads_only (hread h)"
  by (simp_all add: reads_only_def hreturn_def hthrow_def hundefined_def hread_def)

lemma reads_only_bind: "reads_only m \<Longrightarrow> (\<And>x. reads_only (f x)) \<Longrightarrow> reads_only (hbind m f)"
  unfolding reads_only_def hbind_def by (auto split: prod.splits outcome.splits) (metis snd_conv)+

lemma reads_only_requireOk: "reads_only (requireOk name s)"
  by (simp add: requireOk_def reads_only_intros)

lemma reads_only_requireDb: "reads_only (requireDb pre v)"
  unfolding requireDb_def valueToDb_def hint_def
  by (intro reads_only_bind) (auto intro!: reads_only_bind reads_only_intros split: jsval.splits option.splits sum.splits)

lemma leveldbMerge_tables:
  assumes "leveldbMerge L args g = Some (r, g')"
  shows "dbs g' = dbs g \<and> iterators g' = iterators g \<and> batches g' = batches g"
proof -
  let ?m = "hbind (harg args 0) (\<lambda>a0. hbind (requireDb (str ''leveldbMerge/dst/'') a0) (\<lambda>dbDst.
           hbind (harg args 1) (\<lambda>a1. hbind (requireDb (str ''leveldbMerge/src/'') a1) (\<lambda>dbSrc.
           hbind (harg args 2) (\<lambda>a2. case a2 of
             JBool batchMerge \<Rightarrow> hreturn (dbDst, dbSrc, batchMerge)
           | _ \<Rightarrow> hthrow (str ''leveldbMerge/batchMerge-param-not-a-boolean''))))))"
  have "reads_only ?m"
    unfolding harg_def
    by (intro reads_only_bind reads_only_requireDb) (auto intro: reads_only_intros split: jsval.splits)
  then have "snd (?m g) = g" unfolding reads_only_def by blast
  then obtain q where q: "?m g = (q, g)" by (cases "?m g") simp
  show ?thesis
  proof (cases q)
    case (Returns x)
    obtain dbDst dbSrc batchMerge where x: "x = (dbDst, dbSrc, batchMerge)" by (cases x)
    then obtain st w where "merge_run L batchMerge dbDst dbSrc (world g) = Some (st, w)"
      using assms q Returns by (auto simp: leveldbMerge_def split: option.splits)
    then have "(r, g') = hbind (requireOk (str ''leveldbMerge'') st) (\<lambda>_. hreturn JNull) (g\<lparr>world := w\<rparr>)"
      using assms q Returns x by (simp add: leveldbMerge_def)
    then show ?thesis by (simp add: hbind_def requireOk_def hreturn_def hthrow_def split: if_splits)
  qed (use assms q in \<open>auto simp: leveldbMerge_def\<close>)
qed

inductive_cases js_stepE: "js_step L e g g'"

lemma js_step_evolves: "js_step L e g g' \<Longrightarrow> evolves_to g g'"
proof (elim js_stepE)
  fix f args r assume "host_call L e f args g = (r, g')"
  then show ?thesis using host_call_evolves [of L e f args] unfolding evolves_def by (metis snd_conv)
next
  fix args r assume "leveldbMerge L args g = Some (r, g')"
  then show ?thesis using leveldbMerge_tables [of L args g r g'] by (simp add: evolves_to_def)
qed

lemma js_run_evolves: "js_run L e g g' \<Longrightarrow> evolves_to g g'"
  by (induction rule: js_run.induct) (auto intro: evolves_to_trans js_step_evolves)

section \<open>Undefined behaviour\<close>

text \<open>Every live iterator's database is open.\<close>

definition attached :: "('i \<times> nat) option list \<Rightarrow> 'd option list \<Rightarrow> bool" where
  "attached its ds \<longleftrightarrow> (\<forall>p\<in>set its. case p of None \<Rightarrow> True | Some (s, j) \<Rightarrow> j < length ds \<and> ds ! j \<noteq> None)"

abbreviation no_dangling :: "('w, 'd, 'i) Globals \<Rightarrow> bool" where
  "no_dangling g \<equiv> attached (iterators g) (dbs g)"

text \<open>
  Weakest preconditions: the call is defined, ends in a state without dangling iterators, and
  satisfies \<open>Q\<close> when it returns.
\<close>

definition wp :: "('w, 'd, 'i, 'a) host \<Rightarrow> ('a \<Rightarrow> ('w, 'd, 'i) Globals \<Rightarrow> bool) \<Rightarrow> ('w, 'd, 'i) Globals \<Rightarrow> bool" where
  "wp m Q g =
     (case m g of (Returns x, g') \<Rightarrow> Q x g' | (Throws msg, g') \<Rightarrow> no_dangling g'
      | (EngineThrows, g') \<Rightarrow> no_dangling g' | (Undefined, g') \<Rightarrow> False)"

lemma wp_prims [simp]:
  "wp (hreturn x) Q1 g1 = Q1 x g1" "wp (hthrow msg) Q2 g2 = no_dangling g2" "wp hundefined Q3 g3 = False"
  "wp (hread f) Q4 g4 = Q4 (f g4) g4" "wp (hmodify h) Q5 g5 = Q5 () (h g5)"
  "wp (\<lambda>g. (EngineThrows, g)) Q6 g6 = no_dangling g6"
  "wp (hworld k) Q7 g7 = Q7 (fst (k (world g7))) (g7\<lparr>world := snd (k (world g7))\<rparr>)"
  by (simp_all add: wp_def hreturn_def hthrow_def hundefined_def hread_def hmodify_def hworld_def case_prod_unfold Let_def)

lemma wp_bind [simp]: "wp (hbind m f) Q g = wp m (\<lambda>x g. wp (f x) Q g) g"
  by (auto simp: wp_def hbind_def split: prod.splits outcome.splits)

lemma wp_deref [simp]:
  "wp (derefIterator p) Q g \<longleftrightarrow>
     (case p of None \<Rightarrow> False | Some i \<Rightarrow> (case iterators g ! i of None \<Rightarrow> False | Some (s, j) \<Rightarrow> dbs g ! j \<noteq> None \<and> Q s g))"
  by (auto simp: wp_def derefIterator_def split: option.splits)

lemma no_dangling_nth:
  "no_dangling g \<Longrightarrow> i < length (iterators g) \<Longrightarrow> iterators g ! i = Some (s, j) \<Longrightarrow> j < length (dbs g) \<and> dbs g ! j \<noteq> None"
  by (force simp: attached_def dest!: nth_mem)

lemma wp_harg [simp]: "wp (harg args i) Q g \<longleftrightarrow> i < length args \<and> Q (args ! i) g"
  by (simp add: harg_def)

lemma wp_hint [simp]: "wp (hint d) Q g \<longleftrightarrow> (\<exists>i. int_of_double d = Some i \<and> Q i g)"
  by (simp add: hint_def split: option.splits)

definition number_ok :: "jsval \<Rightarrow> bool" where
  "number_ok v \<longleftrightarrow> (case v of JNumber d \<Rightarrow> int_of_double d \<noteq> None | _ \<Rightarrow> True)"

lemma wp_requireDb:
  "number_ok v \<Longrightarrow> no_dangling g \<Longrightarrow>
     (\<And>d idx db. v = JNumber d \<Longrightarrow> int_of_double d = Some idx \<Longrightarrow> 0 \<le> idx \<Longrightarrow> nat idx < length (dbs g) \<Longrightarrow>
        dbs g ! nat idx = Some db \<Longrightarrow> Q db g) \<Longrightarrow>
     wp (requireDb pre v) Q g"
  by (auto simp: requireDb_def valueToDb_def number_ok_def nat_less_iff split: jsval.splits option.splits sum.splits if_splits)

lemma wp_requireIterator:
  "number_ok v \<Longrightarrow> no_dangling g \<Longrightarrow>
     (\<And>i s j. i < length (iterators g) \<Longrightarrow> iterators g ! i = Some (s, j) \<Longrightarrow> dbs g ! j \<noteq> None \<Longrightarrow> Q i g) \<Longrightarrow>
     wp (requireIterator name v) Q g"
  by (auto simp: requireIterator_def valueToIterator_def number_ok_def nat_less_iff no_dangling_nth
      split: jsval.splits option.splits if_splits)

lemma wp_requireBatch:
  "number_ok v \<Longrightarrow> no_dangling g \<Longrightarrow>
     (\<And>d idx. v = JNumber d \<Longrightarrow> int_of_double d = Some idx \<Longrightarrow> 0 \<le> idx \<Longrightarrow> nat idx < length (batches g) \<Longrightarrow>
        batches g ! nat idx \<noteq> None \<Longrightarrow> Q (nat idx) g) \<Longrightarrow>
     wp (requireBatch name v) Q g"
  by (auto simp: requireBatch_def valueToWriteBatch_def number_ok_def nat_less_iff
      split: jsval.splits option.splits sum.splits if_splits)

lemma wp_requireString: "no_dangling g \<Longrightarrow> (\<And>s. valueToString v = Some s \<Longrightarrow> Q s g) \<Longrightarrow> wp (requireString name v) Q g"
  by (auto simp: requireString_def split: option.splits)

lemma wp_requireOk: "no_dangling g \<Longrightarrow> (ok s \<Longrightarrow> Q () g) \<Longrightarrow> wp (requireOk name s) Q g"
  by (auto simp: requireOk_def)

lemmas wp_rules = wp_requireDb wp_requireIterator wp_requireBatch wp_requireString wp_requireOk

fun arity :: "host_function \<Rightarrow> nat" where
  "arity F_Open = 3" | "arity F_Destroy = 1" | "arity F_Close = 1" | "arity F_Put = 3" | "arity F_Delete = 2"
| "arity F_NewIterator = 1" | "arity F_IteratorSeekToFirst = 1" | "arity F_IteratorSeekToLast = 1"
| "arity F_IteratorSeek = 2" | "arity F_IteratorValid = 1" | "arity F_IteratorPrev = 1" | "arity F_IteratorNext = 1"
| "arity F_IteratorDelete = 1" | "arity F_IteratorKeyStr = 1" | "arity F_IteratorKeyCompare = 2"
| "arity F_IteratorValueStr = 1" | "arity F_NewWriteBatch = 0" | "arity F_WriteWriteBatch = 2" | "arity F_WriteBatchPut = 3"
| "arity F_WriteBatchDelete = 2" | "arity F_WriteBatchClose = 1" | "arity F_GetStr = 2" | "arity F_IteratorKeyBuf = 1"
| "arity F_IteratorValueBuf = 1" | "arity F_GetBuf = 2" | "arity F_TestException = 0" | "arity F_ReadFileBuf = 3"

text \<open>
  What a careful JavaScript program keeps to: it passes every argument and sensible numbers, closes a database
  only when no iterator of it is left, compares keys only of live iterators, and asks for file ranges
  whose end is an \<open>int\<close>.
\<close>

definition handle_of :: "jsval \<Rightarrow> int option" where
  "handle_of v = (case v of JNumber d \<Rightarrow> int_of_double d | _ \<Rightarrow> None)"

definition live_iterator :: "('w, 'd, 'i) Globals \<Rightarrow> jsval \<Rightarrow> bool" where
  "live_iterator g v \<longleftrightarrow>
     (case handle_of v of None \<Rightarrow> False
      | Some i \<Rightarrow> 0 \<le> i \<and> i < int (length (iterators g)) \<and> iterators g ! nat i \<noteq> None)"

definition db_in_use :: "('w, 'd, 'i) Globals \<Rightarrow> jsval \<Rightarrow> bool" where
  "db_in_use g v \<longleftrightarrow>
     (case handle_of v of None \<Rightarrow> False | Some i \<Rightarrow> \<exists>p\<in>set (iterators g). map_option (int \<circ> snd) p = Some i)"

definition safe_call :: "host_function \<Rightarrow> jsval list \<Rightarrow> ('w, 'd, 'i) Globals \<Rightarrow> bool" where
  "safe_call f args g \<longleftrightarrow>
     arity f \<le> length args \<and> (\<forall>v\<in>set args. number_ok v) \<and>
     (f = F_Close \<longrightarrow> \<not> db_in_use g (args ! 0)) \<and>
     (f = F_IteratorKeyCompare \<longrightarrow> live_iterator g (args ! 0) \<or> valueToString (args ! 1) = None) \<and>
     (f = F_ReadFileBuf \<longrightarrow> (\<forall>i j. handle_of (args ! 1) = Some i \<longrightarrow> handle_of (args ! 2) = Some j \<longrightarrow>
        - (2 ^ 31) \<le> i + j \<and> i + j < 2 ^ 31))"

lemma attached_grow:
  "attached its ds \<Longrightarrow> attached its (ds @ [x])"
  "attached its ds \<Longrightarrow> attached (its[i := None]) ds"
  "attached its ds \<Longrightarrow> j < length ds \<Longrightarrow> ds ! j = Some d \<Longrightarrow> attached (its @ [Some (s, j)]) ds"
  by (auto simp: attached_def nth_append split: option.splits dest!: set_update_subset_insert [THEN subsetD])

lemma attached_close:
  "attached its ds \<Longrightarrow> \<forall>p\<in>set its. map_option snd p \<noteq> Some j \<Longrightarrow> attached its (ds[j := None])"
  by (fastforce simp: attached_def nth_update split: option.splits)

lemma attached_set:
  assumes "attached its ds" "i < length its" "its ! i = Some (s, j)"
  shows "attached (its[i := Some (s', j)]) ds"
  using assms nth_mem [OF assms(2)]
  by (fastforce simp: attached_def split: option.splits dest!: set_update_subset_insert [THEN subsetD])

lemma wp_moveIterator:
  "no_dangling g \<Longrightarrow> args \<noteq> [] \<Longrightarrow> number_ok (args ! 0) \<Longrightarrow> wp (moveIterator name move args) (\<lambda>_. no_dangling) g"
  by (auto simp: moveIterator_def setIterator_def attached_set intro!: wp_requireIterator)

lemma wp_readIterator:
  "no_dangling g \<Longrightarrow> args \<noteq> [] \<Longrightarrow> number_ok (args ! 0) \<Longrightarrow> wp (readIterator name f args) (\<lambda>_. no_dangling) g"
  by (auto simp: readIterator_def intro!: wp_requireIterator)

lemma wp_getValue:
  "no_dangling g \<Longrightarrow> 1 < length args \<Longrightarrow> number_ok (args ! 0) \<Longrightarrow> wp (getValue name L wrap args) (\<lambda>_. no_dangling) g"
  by (auto simp: getValue_def case_prod_unfold intro!: wp_rules)

lemma wp_Open: "no_dangling g \<Longrightarrow> 2 < length args \<Longrightarrow> wp (leveldbOpen L dir args) (\<lambda>_. no_dangling) g"
  by (auto simp: leveldbOpen_def case_prod_unfold attached_grow split: jsval.splits option.splits)

lemma wp_NewIterator: "no_dangling g \<Longrightarrow> args \<noteq> [] \<Longrightarrow> number_ok (args ! 0) \<Longrightarrow> wp (leveldbNewIterator L args) (\<lambda>_. no_dangling) g"
  by (auto simp: leveldbNewIterator_def attached_grow intro!: wp_requireDb)

lemma wp_IteratorSeek:
  "no_dangling g \<Longrightarrow> 1 < length args \<Longrightarrow> number_ok (args ! 0) \<Longrightarrow> wp (leveldbIteratorSeek L args) (\<lambda>_. no_dangling) g"
  by (auto simp: leveldbIteratorSeek_def setIterator_def attached_set intro!: wp_requireIterator wp_requireString)

lemma wp_IteratorDelete:
  "no_dangling g \<Longrightarrow> args \<noteq> [] \<Longrightarrow> number_ok (args ! 0) \<Longrightarrow> wp (leveldbIteratorDelete L args) (\<lambda>_. no_dangling) g"
  by (auto simp: leveldbIteratorDelete_def attached_grow intro!: wp_requireIterator)

lemma wp_Close:
  assumes "no_dangling g" "args \<noteq> []" "number_ok (args ! 0)" "\<not> db_in_use g (args ! 0)"
  shows "wp (leveldbClose L args) (\<lambda>_. no_dangling) g"
proof (cases "args ! 0")
  case (JNumber d)
  then obtain idx where idx: "int_of_double d = Some idx" using assms(3) by (auto simp: number_ok_def)
  have "attached (iterators g) ((dbs g)[nat idx := None])" if "0 \<le> idx"
    using assms(1,4) JNumber idx that
    by (intro attached_close) (auto simp: db_in_use_def handle_of_def option.map_comp [symmetric] nat_eq_iff2)
  then show ?thesis using assms JNumber idx by (auto simp: leveldbClose_def split: option.splits)
qed (use assms in \<open>simp_all add: leveldbClose_def\<close>)

lemma wp_valueToIterator:
  assumes "number_ok v"
  shows "wp (valueToIterator v) Q g = Q (if live_iterator g v then Some (nat (the (handle_of v))) else None) g"
proof (cases v)
  case (JNumber d)
  then obtain i where i: "int_of_double d = Some i" using assms by (auto simp: number_ok_def)
  have "(if i < 0 \<or> i \<ge> int (length (iterators g)) then None else if iterators g ! nat i = None then None else Some (nat i)) =
      (if live_iterator g v then Some (nat i) else None)"
    by (simp add: live_iterator_def handle_of_def JNumber i not_less)
  then show ?thesis by (simp add: valueToIterator_def JNumber i handle_of_def)
qed (simp_all add: valueToIterator_def live_iterator_def handle_of_def)

lemma live_iterator_slot:
  assumes "no_dangling g" "live_iterator g v"
  obtains s j where "iterators g ! nat (the (handle_of v)) = Some (s, j)" "dbs g ! j \<noteq> None"
proof -
  have "nat (the (handle_of v)) < length (iterators g)" "iterators g ! nat (the (handle_of v)) \<noteq> None"
    using assms(2) by (auto simp: live_iterator_def nat_less_iff split: option.splits)
  with that show ?thesis using no_dangling_nth [OF assms(1)] by fastforce
qed

lemma wp_KeyCompare:
  assumes "no_dangling g" "1 < length args" "number_ok (args ! 0)"
    "live_iterator g (args ! 0) \<or> valueToString (args ! 1) = None"
  shows "wp (leveldbIteratorKeyCompare L args) (\<lambda>_. no_dangling) g"
proof (cases "valueToString (args ! 1)")
  case None
  moreover have "args \<noteq> []" using assms(2) by auto
  ultimately show ?thesis using assms by (simp add: leveldbIteratorKeyCompare_def wp_valueToIterator requireString_def)
next
  case (Some t)
  with assms have live: "live_iterator g (args ! 0)" by simp
  from assms(1) live obtain s j where "iterators g ! nat (the (handle_of (args ! 0))) = Some (s, j)" "dbs g ! j \<noteq> None"
    by (rule live_iterator_slot)
  moreover have "args \<noteq> []" using assms(2) by auto
  ultimately show ?thesis using assms(1-3) Some live
    by (simp add: leveldbIteratorKeyCompare_def wp_valueToIterator requireString_def Let_def)
qed

lemma wp_ReadFileBuf:
  assumes "no_dangling g" "2 < length args" "number_ok (args ! 1)" "number_ok (args ! 2)"
    "\<And>i j. handle_of (args ! 1) = Some i \<Longrightarrow> handle_of (args ! 2) = Some j \<Longrightarrow> - (2 ^ 31) \<le> i + j \<and> i + j < 2 ^ 31"
  shows "wp (leveldbReadFileBuf fs err args) (\<lambda>_. no_dangling) g"
proof (cases "args ! 1")
  case 1: (JNumber d1)
  show ?thesis
  proof (cases "args ! 2")
    case (JNumber d2)
    then obtain i j where ij: "int_of_double d1 = Some i" "int_of_double d2 = Some j"
      using assms(3,4) 1 by (auto simp: number_ok_def)
    then have "- (2 ^ 31) \<le> i + j \<and> i + j < 2 ^ 31" using assms(5) 1 JNumber by (simp add: handle_of_def)
    then show ?thesis using assms(1,2) 1 JNumber ij
      by (auto simp: leveldbReadFileBuf_def requireString_def split: option.splits sum.splits)
  qed (use assms(1,2) 1 in \<open>auto simp: leveldbReadFileBuf_def intro!: wp_requireString\<close>)
qed (use assms(1,2) in \<open>auto simp: leveldbReadFileBuf_def intro!: wp_requireString\<close>)

lemma wp_plain:
  assumes "no_dangling g" "arity f \<le> length args" "\<forall>v\<in>set args. number_ok v"
    "f \<in> {F_NewWriteBatch, F_WriteWriteBatch, F_WriteBatchPut, F_WriteBatchDelete, F_WriteBatchClose,
      F_Destroy, F_Put, F_Delete, F_TestException}"
  shows "wp (host_call L e f args) (\<lambda>_. no_dangling) g"
  using assms
  by (auto simp: handler_defs updateBatch_def case_prod_unfold numeral_2_eq_2 numeral_3_eq_3 Suc_le_length_iff
      intro!: wp_rules split: option.splits jsval.splits)

lemma wp_host_call:
  assumes "no_dangling g" "safe_call f args g"
  shows "wp (host_call L e f args) (\<lambda>_. no_dangling) g"
proof -
  have len: "arity f \<le> length args" and num: "\<And>i. i < arity f \<Longrightarrow> number_ok (args ! i)" "\<forall>v\<in>set args. number_ok v"
    using assms(2) by (auto simp: safe_call_def)
  have a0: "0 < arity f \<Longrightarrow> args \<noteq> [] \<and> number_ok (args ! 0)" using len num(1) [of 0] by force
  note plain = wp_plain [OF assms(1) len num(2)]
  note iter = leveldbIteratorSeekToFirst_def leveldbIteratorSeekToLast_def leveldbIteratorValid_def leveldbIteratorPrev_def
    leveldbIteratorNext_def leveldbIteratorKeyStr_def leveldbIteratorValueStr_def leveldbIteratorKeyBuf_def
    leveldbIteratorValueBuf_def leveldbGetStr_def leveldbGetBuf_def
    wp_moveIterator wp_readIterator wp_getValue wp_NewIterator wp_IteratorSeek wp_IteratorDelete wp_Open
  show ?thesis
  proof (cases f)
    case F_Close
    then show ?thesis using assms a0 by (simp add: safe_call_def wp_Close)
  next
    case F_IteratorKeyCompare
    then show ?thesis using assms a0 by (simp add: safe_call_def wp_KeyCompare)
  next
    case F_ReadFileBuf
    then have "wp (leveldbReadFileBuf (files e) (strerror e) args) (\<lambda>_. no_dangling) g"
      using assms len num(1) [of 1] num(1) [of 2] by (intro wp_ReadFileBuf) (auto simp: safe_call_def)
    then show ?thesis using F_ReadFileBuf by simp
  qed (use assms(1) len a0 plain in \<open>simp_all add: iter\<close>)
qed

section \<open>Handles that are numbers\<close>

lemma int_of_double_int: "- (2 ^ 31) \<le> i \<Longrightarrow> i < 2 ^ 31 \<Longrightarrow> int_of_double (Some (of_int i)) = Some i"
  by (simp add: int_of_double_def Let_def)

lemma valueToDb_handle:
  "i < length (dbs g) \<Longrightarrow> i < 2 ^ 31 \<Longrightarrow>
     valueToDb (JInt (int i)) g =
       (Returns (case dbs g ! i of None \<Rightarrow> Inl (str ''valueToDb/db-closed'') | Some db \<Rightarrow> Inr db), g)"
  using int_of_double_int [of "int i"]
  by (simp add: valueToDb_def JInt_def hint_def hbind_def hreturn_def hread_def)

lemma requireDb_open: "i < length (dbs g) \<Longrightarrow> i < 2 ^ 31 \<Longrightarrow> dbs g ! i = Some db \<Longrightarrow> requireDb pre (JInt (int i)) g = (Returns db, g)"
  by (simp add: requireDb_def hbind_def valueToDb_handle hreturn_def)

lemma requireDb_closed:
  "i < length (dbs g) \<Longrightarrow> i < 2 ^ 31 \<Longrightarrow> dbs g ! i = None \<Longrightarrow>
     requireDb pre (JInt (int i)) g = (Throws (pre @ str ''valueToDb/db-closed''), g)"
  by (simp add: requireDb_def hbind_def valueToDb_handle hthrow_def)

lemma harg_eq: "i < length args \<Longrightarrow> harg args i g = (Returns (args ! i), g)"
  by (simp add: harg_def hreturn_def)

lemma cleanup_defined: "no_dangling g \<Longrightarrow> fst (cleanupLeveldb L g) = Returns ()"
  by (force simp: cleanupLeveldb_def attached_def Let_def split: option.splits)

lemma first_null_None: "first_null xs k = None \<Longrightarrow> None \<notin> set xs"
  by (induction xs k rule: first_null.induct) auto

lemma first_null_shift: "first_null xs k = Some i \<Longrightarrow> k \<le> i \<and> i - k < length xs \<and> xs ! (i - k) = None"
  by (induction xs k rule: first_null.induct) (auto simp: nth_Cons' Suc_diff_le less_Suc_eq_le)

lemma first_null_Some: "first_null xs 0 = Some i \<Longrightarrow> i < length xs \<and> xs ! i = None"
  using first_null_shift [of xs 0 i] by simp

section \<open>Merging\<close>

lemma merge_loop_list:
  assumes L: "list_iterator (Iter_ops L) c kok rep"
  shows "rep s es i \<Longrightarrow> \<exists>s'. rep s' es (length es) \<and> merge_loop L m dst s b w =
    Some (s', if m then foldl (\<lambda>b (k, v). WriteBatch_Put b k v) b (drop i es) else b,
          if m then w else foldl (\<lambda>w (k, v). snd (DB_Put L dst k v w)) w (drop i es))"
proof (induction "length es - i" arbitrary: s i b w)
  case 0
  then have "i = length es" using list_iterator.rep_le [OF L] by (metis diff_is_0_eq le_antisym)
  then show ?case using 0 list_iterator.rep_Valid [OF L 0(2)] by (subst merge_loop.simps) auto
next
  case (Suc n)
  then have i: "i < length es" by simp
  have r: "rep (Next (Iter_ops L) s) es (Suc i)" using list_iterator.rep_Next [OF L Suc.prems i] .
  have d: "drop i es = es ! i # drop (Suc i) es" using i by (simp add: Cons_nth_drop_Suc)
  have "n = length es - Suc i" using Suc.hyps(2) by simp
  note IH = Suc.hyps(1) [OF this r]
  show ?case
    using IH [of "WriteBatch_Put b (fst (es ! i)) (snd (es ! i))" w]
      IH [of b "snd (DB_Put L dst (fst (es ! i)) (snd (es ! i)) w)"] i d
      list_iterator.rep_Valid [OF L Suc.prems] list_iterator.rep_key [OF L Suc.prems i] list_iterator.rep_value [OF L Suc.prems i]
    by (subst merge_loop.simps) (cases m; simp add: Let_def case_prod_unfold)
qed

lemma batch_of_entries:
  "represents b seq ops \<Longrightarrow> \<forall>(k, v)\<in>set es. length k < 2 ^ 32 \<and> length v < 2 ^ 32 \<Longrightarrow>
     represents (foldl (\<lambda>b (k, v). WriteBatch_Put b k v) b es) seq (ops @ map (\<lambda>(k, v). Put_op k v) es)"
proof (induction es arbitrary: b ops)
  case (Cons e es)
  obtain k v where e: "e = (k, v)" by (cases e)
  have "represents (WriteBatch_Put b k v) seq (ops @ [Put_op k v])"
    unfolding WriteBatch_Put_eq by (rule represents_snoc) (use Cons.prems e in auto)
  from Cons.IH [OF this] Cons.prems e show ?case by simp
qed simp

section \<open>Properties\<close>

text \<open>
  C7. Handles: along any sequence of calls from JavaScript, with any arguments, a database or iterator
  handle denotes the same object until it is closed, a closed handle is never given out again
  (using it throws \<open>db-closed\<close>), and an iterator stays with its database.
\<close>

theorem handles_stable:
  assumes "js_run L e g g'"
  shows "(\<forall>i < length (dbs g). i < length (dbs g') \<and> (dbs g' ! i = dbs g ! i \<or> dbs g' ! i = None)) \<and>
    (\<forall>i < length (iterators g). i < length (iterators g') \<and>
       (iterators g' ! i = None \<or> map_option snd (iterators g' ! i) = map_option snd (iterators g ! i))) \<and>
    (\<forall>i < length (dbs g). i < 2 ^ 31 \<longrightarrow> dbs g ! i = None \<longrightarrow>
       (\<forall>pre. requireDb pre (JInt (int i)) g' = (Throws (pre @ str ''valueToDb/db-closed''), g')))"
proof -
  have ev: "evolves_to g g'" using assms by (rule js_run_evolves)
  have "requireDb pre (JInt (int i)) g' = (Throws (pre @ str ''valueToDb/db-closed''), g')"
    if "i < length (dbs g)" "i < 2 ^ 31" "dbs g ! i = None" for i pre
    by (rule requireDb_closed) (use ev that in \<open>auto simp: evolves_to_def\<close>)
  then show ?thesis using ev by (auto simp: evolves_to_def)
qed



text \<open>
  C20. \<open>leveldbMerge\<close> returns for every source whose iterator keeps the iterator contract, and copies the source:
  one by one it puts the entries in order, as a batch it writes exactly the batch of those puts. It returns
  without an error whatever the statuses of its writes are.
\<close>

theorem merge_copies:
  assumes "list_iterator (Iter_ops L) c kok rep" "DB_NewIterator L src (world g) = (s, w)" "rep s es n"
    and "i < length (dbs g)" "i < 2 ^ 31" "dbs g ! i = Some dst" "j < length (dbs g)" "j < 2 ^ 31" "dbs g ! j = Some src"
    and "\<forall>(k, v)\<in>set es. length k < 2 ^ 32 \<and> length v < 2 ^ 32"
  shows "\<exists>s' b. represents b 0 (map (\<lambda>(k, v). Put_op k v) es) \<and>
    leveldbMerge L [JInt (int i), JInt (int j), JBool m] g =
      Some (Returns JNull, g\<lparr>world := Iter_free L s'
        (if m then snd (DB_Write L dst b w) else foldl (\<lambda>w (k, v). snd (DB_Put L dst k v w)) w es)\<rparr>)"
proof -
  have first: "rep (SeekToFirst (Iter_ops L) s) es 0" by (rule list_iterator.rep_SeekToFirst [OF assms(1,3)])
  let ?b = "foldl (\<lambda>b (k, v). WriteBatch_Put b k v) new_WriteBatch es"
  obtain s' where s': "rep s' es (length es)"
    and loop: "merge_loop L m dst (SeekToFirst (Iter_ops L) s) new_WriteBatch w =
      Some (s', if m then ?b else new_WriteBatch, if m then w else foldl (\<lambda>w (k, v). snd (DB_Put L dst k v w)) w es)"
    using merge_loop_list [OF assms(1) first, of m dst new_WriteBatch w] by auto
  have "ok (istatus (Iter_ops L) s')" using list_iterator.rep_status [OF assms(1) s'] by (simp add: ok_def Status_OK_def)
  then have run: "merge_run L m dst src (world g) = Some (istatus (Iter_ops L) s', Iter_free L s'
      (if m then snd (DB_Write L dst ?b w) else foldl (\<lambda>w (k, v). snd (DB_Put L dst k v w)) w es))"
    by (simp add: merge_run_def assms(2) loop)
  have b: "represents ?b 0 (map (\<lambda>(k, v). Put_op k v) es)"
    using batch_of_entries [OF represents_new assms(10)] by simp
  have "leveldbMerge L [JInt (int i), JInt (int j), JBool m] g =
      Some (Returns JNull, g\<lparr>world := Iter_free L s'
        (if m then snd (DB_Write L dst ?b w) else foldl (\<lambda>w (k, v). snd (DB_Put L dst k v w)) w es)\<rparr>)"
    using \<open>ok _\<close> by (simp add: leveldbMerge_def hbind_def harg_eq requireDb_open [OF assms(4-6)] requireDb_open [OF assms(7-9)]
        hreturn_def run requireOk_def)
  with b show ?thesis by blast
qed

text \<open>
  \<open>leveldbReadFileBuf\<close> returns exactly the bytes asked for, when the range lies in the file; any other range
  is an error of some kind, never a short or shifted read.
\<close>

theorem read_file_exact:
  assumes "- (2 ^ 31) \<le> pos" "pos < 2 ^ 31" "- (2 ^ 31) \<le> len" "len < 2 ^ 31" "fs path = Inr contents"
  shows "fst (leveldbReadFileBuf fs err [JString path, JInt pos, JInt len] g) = Returns (JArrayBuffer buf) \<longleftrightarrow>
    0 \<le> pos \<and> 0 \<le> len \<and> pos + len < 2 ^ 31 \<and> pos + len \<le> int (length contents) \<and>
    buf = take (nat len) (drop (nat pos) contents)"
proof -
  have ints: "hint (Some (of_int pos)) g = (Returns pos, g)" "hint (Some (of_int len)) g = (Returns len, g)"
    using assms int_of_double_int [of pos] int_of_double_int [of len] by (simp_all add: hint_def hreturn_def)
  have "leveldbReadFileBuf fs err [JString path, JInt pos, JInt len] g =
      (if \<not> (- (2 ^ 31) \<le> pos + len \<and> pos + len < 2 ^ 31) then (Undefined, g)
       else if int (length contents) < (pos + len) mod 2 ^ 64 then (Throws (str ''leveldbReadFileBuf/invalid-len-plus-pos''), g)
       else if len < 0 then (EngineThrows, g)
       else if pos < 0 then (Throws (str ''leveldbReadFileBuf/read-error/'' @ err), g)
       else (Returns (JArrayBuffer (take (nat len) (drop (nat pos) contents))), g))"
    unfolding leveldbReadFileBuf_def
    by (simp add: hbind_def harg_eq requireString_def valueToString_def hreturn_def JInt_def ints assms(5) hundefined_def hthrow_def
        numeral_2_eq_2)
  then show ?thesis by auto
qed

text \<open>
  Write batch handles: \<open>leveldbNewWriteBatch\<close> gives a handle to an empty batch that was not live before, leaves
  every live batch as it is, and lets the table grow only when every slot is live.
\<close>

theorem batch_slots:
  assumes "leveldbNewWriteBatch args g = (r, g')"
  shows "\<exists>i. r = Returns (JInt (int i)) \<and> i < length (batches g') \<and> batches g' ! i = Some new_WriteBatch \<and>
    (i < length (batches g) \<longrightarrow> batches g ! i = None) \<and>
    (\<forall>k < length (batches g). k \<noteq> i \<longrightarrow> batches g' ! k = batches g ! k) \<and>
    (length (batches g') \<noteq> length (batches g) \<longrightarrow> None \<notin> set (batches g) \<and> i = length (batches g))"
proof (cases "first_null (batches g) 0")
  case None
  then show ?thesis using assms first_null_None [OF None]
    by (intro exI [of _ "length (batches g)"])
      (auto simp: leveldbNewWriteBatch_def hbind_def hread_def hmodify_def JInt_def nth_append)
next
  case (Some i)
  then show ?thesis using assms first_null_Some [OF Some]
    by (intro exI [of _ i]) (auto simp: leveldbNewWriteBatch_def hbind_def hread_def hmodify_def hreturn_def)
qed

text \<open>
  Updates through a batch handle: \<open>leveldbWriteBatchPut\<close> and \<open>leveldbWriteBatchDelete\<close>, with string or buffer
  arguments, append the update to the list the batch represents and touch nothing else.
\<close>

theorem batch_updates:
  assumes "i < length (batches g)" "i < 2 ^ 31" "batches g ! i = Some b" "represents b seq ops"
    "valueToString kv = Some k" "valueToString vv = Some v" "length k < 2 ^ 32" "length v < 2 ^ 32"
  shows "(\<exists>b'. leveldbWriteBatchPut [JInt (int i), kv, vv] g = (Returns JNull, g\<lparr>batches := (batches g)[i := Some b']\<rparr>) \<and>
       represents b' seq (ops @ [Put_op k v])) \<and>
    (\<exists>b'. leveldbWriteBatchDelete [JInt (int i), kv] g = (Returns JNull, g\<lparr>batches := (batches g)[i := Some b']\<rparr>) \<and>
       represents b' seq (ops @ [Delete_op k]))"
proof -
  have h: "requireBatch name (JInt (int i)) g = (Returns i, g)" for name
    using assms(1-3) int_of_double_int [of "int i"]
    by (simp add: requireBatch_def valueToWriteBatch_def hbind_def JInt_def hint_def hreturn_def hread_def)
  have "leveldbWriteBatchPut [JInt (int i), kv, vv] g = (Returns JNull, g\<lparr>batches := (batches g)[i := Some (WriteBatch_Put b k v)]\<rparr>)"
    using assms by (simp add: leveldbWriteBatchPut_def hbind_def harg_eq h requireString_def hreturn_def updateBatch_def hmodify_def
        numeral_2_eq_2)
  moreover have "represents (WriteBatch_Put b k v) seq (ops @ [Put_op k v])"
    unfolding WriteBatch_Put_eq by (rule represents_snoc) (use assms in simp_all)
  moreover have "leveldbWriteBatchDelete [JInt (int i), kv] g = (Returns JNull, g\<lparr>batches := (batches g)[i := Some (WriteBatch_Delete b k)]\<rparr>)"
    using assms by (simp add: leveldbWriteBatchDelete_def hbind_def harg_eq h requireString_def hreturn_def updateBatch_def hmodify_def)
  moreover have "represents (WriteBatch_Delete b k) seq (ops @ [Delete_op k])"
    unfolding WriteBatch_Delete_eq by (rule represents_snoc) (use assms in simp_all)
  ultimately show ?thesis by blast
qed

section \<open>Instances\<close>

text \<open>
  Two databases held as sorted lists, the iterator of the first one a block iterator over it: an implementation of
  the interface to evaluate the functions on.
\<close>

definition sample_LevelDB :: "((bytes \<times> bytes) list \<times> (bytes \<times> bytes) list, bool, Status + BlockIter) LevelDB" where
  "sample_LevelDB =
     \<lparr>DB_Open = (\<lambda>_ _ _ w. ((Status_OK, Some True), w)),
      DB_Destroy = (\<lambda>_ w. (Status_OK, w)),
      DB_free = (\<lambda>_ w. w),
      DB_Put = (\<lambda>d k v w. (Status_OK, if d then (fst w @ [(k, v)], snd w) else (fst w, snd w @ [(k, v)]))),
      DB_Delete = (\<lambda>d k w. (Status_OK, w)),
      DB_Write = (\<lambda>d b w. ((Status_OK, b), w)),
      DB_Get = (\<lambda>d k w. ((case map_of (if d then fst w else snd w) k of None \<Rightarrow> (NotFound [] [], []) | Some v \<Rightarrow> (Status_OK, v)), w)),
      DB_NewIterator = (\<lambda>d w. (Block_NewIterator (new_Block (fst (bb_Finish (build 2 (if d then fst w else snd w))))) BytewiseComparator, w)),
      Iter_ops = Block_Iterator,
      Iter_free = (\<lambda>_ w. w)\<rparr>"

definition sample_globals :: "((bytes \<times> bytes) list \<times> (bytes \<times> bytes) list, bool, Status + BlockIter) Globals" where
  "sample_globals = \<lparr>world = (sample_entries, []), dbs = [Some True, Some False, None],
     iterators = [None, Some (Inl Status_OK, 0)], batches = [Some new_WriteBatch, None]\<rparr>"

definition sample_system :: system where
  "sample_system = \<lparr>documentDir = str ''/data/'', files = (\<lambda>_. Inr [10, 20, 30, 40]), strerror = []\<rparr>"

lemma sample_int [simp]: "int_of_double (Some 0) = Some 0" "int_of_double (Some 1) = Some 1" "int_of_double (Some 2) = Some 2"
  by (simp_all add: int_of_double_def)

theorem handles_stable_witness:
  "requireDb (str ''leveldbPut/'') (JInt 2) (snd (leveldbNewWriteBatch [] sample_globals)) =
    (Throws (str ''leveldbPut/'' @ str ''valueToDb/db-closed''), snd (leveldbNewWriteBatch [] sample_globals))"
proof -
  have "js_run sample_LevelDB sample_system sample_globals (snd (leveldbNewWriteBatch [] sample_globals))"
    by (rule js_next [OF js_done], rule js_call [where f = F_NewWriteBatch and args = "[]"])
      (simp only: host_call.simps, rule prod.collapse [symmetric])
  from handles_stable [OF this] show ?thesis by (auto simp: sample_globals_def)
qed



theorem merge_copies_witness:
  "leveldbMerge sample_LevelDB [JInt 1, JInt 0, JBool False] sample_globals =
    Some (Returns JNull, sample_globals\<lparr>world := (sample_entries, sample_entries)\<rparr>)"
proof -
  let ?s = "Block_NewIterator (new_Block (fst (bb_Finish (build 2 sample_entries)))) BytewiseComparator"
  have L: "list_iterator (Iter_ops sample_LevelDB) BytewiseComparator (\<lambda>_. True) (block_rep BytewiseComparator (\<lambda>_. True))"
    by (simp add: sample_LevelDB_def block_iter.list_iterator_axioms)
  have n: "DB_NewIterator sample_LevelDB True (world sample_globals) = (?s, (sample_entries, []))"
    by (simp add: sample_LevelDB_def sample_globals_def)
  have r: "block_rep BytewiseComparator (\<lambda>_. True) ?s sample_entries (length sample_entries)"
    by (rule built_rep) (simp_all add: sample_sorted sample_length)
  show ?thesis
    using merge_copies [OF L n r, of 1 False 0 False]
    by (simp add: sample_globals_def sample_entries_def sample_LevelDB_def)
qed

theorem read_file_exact_witness:
  "fst (leveldbReadFileBuf (files sample_system) [] [JString [1], JInt 1, JInt 2] sample_globals) = Returns (JArrayBuffer [20, 30])"
  using read_file_exact [of 1 2 "files sample_system" "[1]" "[10, 20, 30, 40]" "[]" sample_globals "[20, 30]"]
  by (simp add: sample_system_def)

theorem batch_slots_witness:
  "\<exists>i. fst (leveldbNewWriteBatch [] sample_globals) = Returns (JInt (int i)) \<and>
     batches (snd (leveldbNewWriteBatch [] sample_globals)) ! i = Some new_WriteBatch"
  using batch_slots [OF prod.collapse [symmetric], of "[]" sample_globals] by blast

theorem batch_updates_witness:
  "\<exists>b'. leveldbWriteBatchPut [JInt (int 0), JString [1], JArrayBuffer [2]] sample_globals =
      (Returns JNull, sample_globals\<lparr>batches := (batches sample_globals)[0 := Some b']\<rparr>) \<and>
    represents b' 0 [Put_op [1] [2]]"
  using batch_updates [of 0 sample_globals new_WriteBatch 0 "[]" "JString [1]" "[1]" "JArrayBuffer [2]" "[2]"] represents_new
  by (simp add: sample_globals_def valueToString_def)

end
