(* ===== verification/Mergers.thy ===== *)
theory Mergers
  imports Blocks
begin

text \<open>
  \<open>table/merger.cc\<close>: the iterator that merges the iterators of the memtables, the level-0 tables and the other
  levels. The pointer \<open>current_\<close> is the index of the child it points to.
\<close>

section \<open>Definitions\<close>

datatype Direction = kForward | kReverse

record 's MergingIterator =
  mg_children :: "'s IteratorWrapper list"
  mg_current :: "nat option"
  mg_direction :: Direction

definition new_MergingIterator :: "'s Iterator \<Rightarrow> 's list \<Rightarrow> 's MergingIterator" where
  "new_MergingIterator it children =
     \<lparr>mg_children = map (\<lambda>s. w_Set it null_Wrapper (Some s)) children, mg_current = None, mg_direction = kForward\<rparr>"

text \<open>One turn of each scan: \<open>best\<close> is the child found so far, \<open>i\<close> the loop's index.\<close>

definition smaller_child :: "comparator \<Rightarrow> 's IteratorWrapper list \<Rightarrow> nat option \<Rightarrow> nat \<Rightarrow> nat option" where
  "smaller_child c cs best i =
     (if w_valid (cs ! i) then
        (case best of
           None \<Rightarrow> Some i
         | Some b \<Rightarrow> if Compare c (w_key (cs ! i)) (w_key (cs ! b)) < 0 then Some i else best)
      else best)"

definition larger_child :: "comparator \<Rightarrow> 's IteratorWrapper list \<Rightarrow> nat option \<Rightarrow> nat \<Rightarrow> nat option" where
  "larger_child c cs best i =
     (if w_valid (cs ! i) then
        (case best of
           None \<Rightarrow> Some i
         | Some b \<Rightarrow> if Compare c (w_key (cs ! i)) (w_key (cs ! b)) > 0 then Some i else best)
      else best)"

definition FindSmallest :: "comparator \<Rightarrow> 's MergingIterator \<Rightarrow> 's MergingIterator" where
  "FindSmallest c m =
     m\<lparr>mg_current := foldl (smaller_child c (mg_children m)) None [0..<length (mg_children m)]\<rparr>"

definition FindLargest :: "comparator \<Rightarrow> 's MergingIterator \<Rightarrow> 's MergingIterator" where
  "FindLargest c m =
     m\<lparr>mg_current := foldl (larger_child c (mg_children m)) None (rev [0..<length (mg_children m)])\<rparr>"

definition mg_map :: "('s IteratorWrapper \<Rightarrow> 's IteratorWrapper) \<Rightarrow> 's MergingIterator \<Rightarrow> 's MergingIterator" where
  "mg_map f m = m\<lparr>mg_children := map f (mg_children m)\<rparr>"

definition mg_SeekToFirst :: "'s Iterator \<Rightarrow> comparator \<Rightarrow> 's MergingIterator \<Rightarrow> 's MergingIterator" where
  "mg_SeekToFirst it c m = (FindSmallest c (mg_map (SeekToFirst (Wrapped it)) m))\<lparr>mg_direction := kForward\<rparr>"

definition mg_SeekToLast :: "'s Iterator \<Rightarrow> comparator \<Rightarrow> 's MergingIterator \<Rightarrow> 's MergingIterator" where
  "mg_SeekToLast it c m = (FindLargest c (mg_map (SeekToLast (Wrapped it)) m))\<lparr>mg_direction := kReverse\<rparr>"

definition mg_Seek :: "'s Iterator \<Rightarrow> comparator \<Rightarrow> 's MergingIterator \<Rightarrow> bytes \<Rightarrow> 's MergingIterator" where
  "mg_Seek it c m target =
     (FindSmallest c (mg_map (\<lambda>w. Seek (Wrapped it) w target) m))\<lparr>mg_direction := kForward\<rparr>"

text \<open>The current child; the functions that use it require one.\<close>

definition mg_cur :: "'s MergingIterator \<Rightarrow> nat" where
  "mg_cur m = the (mg_current m)"

definition mg_key :: "'s Iterator \<Rightarrow> 's MergingIterator \<Rightarrow> bytes" where
  "mg_key it m = ikey (Wrapped it) (mg_children m ! mg_cur m)"

definition mg_value :: "'s Iterator \<Rightarrow> 's MergingIterator \<Rightarrow> bytes" where
  "mg_value it m = ivalue (Wrapped it) (mg_children m ! mg_cur m)"

definition move_current :: "('s IteratorWrapper \<Rightarrow> 's IteratorWrapper) \<Rightarrow> 's MergingIterator \<Rightarrow> 's MergingIterator" where
  "move_current f m = m\<lparr>mg_children := (mg_children m)[mg_cur m := f (mg_children m ! mg_cur m)]\<rparr>"

text \<open>The loops that position the children other than the current one when the direction changes.\<close>

definition move_others :: "('s IteratorWrapper \<Rightarrow> 's IteratorWrapper) \<Rightarrow> 's MergingIterator \<Rightarrow> 's MergingIterator" where
  "move_others f m =
     m\<lparr>mg_children := map (\<lambda>i. if i \<noteq> mg_cur m then f (mg_children m ! i) else mg_children m ! i)
         [0..<length (mg_children m)]\<rparr>"

definition after_key :: "'s Iterator \<Rightarrow> comparator \<Rightarrow> bytes \<Rightarrow> 's IteratorWrapper \<Rightarrow> 's IteratorWrapper" where
  "after_key it c key child =
     (let child = Seek (Wrapped it) child key
      in if Valid (Wrapped it) child \<and> Compare c key (ikey (Wrapped it) child) = 0 then Next (Wrapped it) child else child)"

definition before_key :: "'s Iterator \<Rightarrow> bytes \<Rightarrow> 's IteratorWrapper \<Rightarrow> 's IteratorWrapper" where
  "before_key it key child =
     (let child = Seek (Wrapped it) child key
      in if Valid (Wrapped it) child then Prev (Wrapped it) child else SeekToLast (Wrapped it) child)"

definition mg_Next :: "'s Iterator \<Rightarrow> comparator \<Rightarrow> 's MergingIterator \<Rightarrow> 's MergingIterator" where
  "mg_Next it c m =
     (let m = (if mg_direction m \<noteq> kForward
               then (move_others (after_key it c (mg_key it m)) m)\<lparr>mg_direction := kForward\<rparr> else m)
      in FindSmallest c (move_current (Next (Wrapped it)) m))"

definition mg_Prev :: "'s Iterator \<Rightarrow> comparator \<Rightarrow> 's MergingIterator \<Rightarrow> 's MergingIterator" where
  "mg_Prev it c m =
     (let m = (if mg_direction m \<noteq> kReverse
               then (move_others (before_key it (mg_key it m)) m)\<lparr>mg_direction := kReverse\<rparr> else m)
      in FindLargest c (move_current (Prev (Wrapped it)) m))"

fun mg_status_loop :: "'s Iterator \<Rightarrow> Status \<Rightarrow> 's IteratorWrapper list \<Rightarrow> Status" where
  "mg_status_loop it st [] = st"
| "mg_status_loop it st (w # ws) =
     (let st = istatus (Wrapped it) w in if \<not> ok st then st else mg_status_loop it st ws)"

definition mg_status :: "'s Iterator \<Rightarrow> 's MergingIterator \<Rightarrow> Status" where
  "mg_status it m = mg_status_loop it Status_OK (mg_children m)"

definition Merging :: "'s Iterator \<Rightarrow> comparator \<Rightarrow> 's MergingIterator Iterator" where
  "Merging it c =
     \<lparr>Valid = (\<lambda>m. mg_current m \<noteq> None), SeekToFirst = mg_SeekToFirst it c, SeekToLast = mg_SeekToLast it c,
      Seek = mg_Seek it c, Next = mg_Next it c, Prev = mg_Prev it c, ikey = mg_key it, ivalue = mg_value it,
      istatus = mg_status it\<rparr>"

text \<open>\<open>NewMergingIterator\<close>: the empty iterator, the only child, or a merging iterator.\<close>

datatype 's merged = M_Empty Status | M_Single 's | M_Merging "'s MergingIterator"

definition NewMergingIterator :: "'s Iterator \<Rightarrow> 's list \<Rightarrow> 's merged" where
  "NewMergingIterator it children =
     (if length children = 0 then M_Empty NewEmptyIterator
      else if length children = 1 then M_Single (children ! 0)
      else M_Merging (new_MergingIterator it children))"

section \<open>Lists cut at a position of their merge\<close>

text \<open>How many entries of \<open>xs\<close> are among the first \<open>j\<close> entries of \<open>es\<close>.\<close>

definition cnt :: "(bytes \<times> bytes) list \<Rightarrow> (bytes \<times> bytes) list \<Rightarrow> nat \<Rightarrow> nat" where
  "cnt es xs j = length (takeWhile (\<lambda>e. e \<in> set (take j es)) xs)"

lemma sorted_entries_nth:
  "sorted_entries c okk es \<Longrightarrow> i < j \<Longrightarrow> j < length es \<Longrightarrow> Compare c (fst (es ! i)) (fst (es ! j)) < 0"
  by (simp add: sorted_entries_def sorted_wrt_iff_nth_less)

lemma sorted_entries_ok: "sorted_entries c okk es \<Longrightarrow> e \<in> set es \<Longrightarrow> okk (fst e)"
  by (simp add: sorted_entries_def)

lemma sorted_entries_contract: "sorted_entries c okk es \<Longrightarrow> comparator_contract c okk"
  by (simp add: sorted_entries_def)

lemma entries_order:
  assumes s: "sorted_entries c okk es" and ij: "i < length es" "j < length es"
  shows "Compare c (fst (es ! i)) (fst (es ! j)) < 0 \<longleftrightarrow> i < j" "Compare c (fst (es ! i)) (fst (es ! j)) = 0 \<longleftrightarrow> i = j"
proof -
  note cc = sorted_entries_contract [OF s]
  have ok: "okk (fst (es ! i))" "okk (fst (es ! j))" using s ij by (simp_all add: sorted_entries_ok)
  have "i < j \<Longrightarrow> Compare c (fst (es ! i)) (fst (es ! j)) < 0" "j < i \<Longrightarrow> Compare c (fst (es ! j)) (fst (es ! i)) < 0"
    using sorted_entries_nth [OF s] ij by auto
  then show "Compare c (fst (es ! i)) (fst (es ! j)) < 0 \<longleftrightarrow> i < j" "Compare c (fst (es ! i)) (fst (es ! j)) = 0 \<longleftrightarrow> i = j"
    using comparator_contract.Compare_swap [OF cc ok(2,1)] comparator_contract.Compare_refl [OF cc ok(1)]
    by (cases i j rule: linorder_cases; force)+
qed

lemma sorted_entries_distinct: "sorted_entries c okk es \<Longrightarrow> distinct es"
  using entries_order(2) by (metis distinct_conv_nth)

lemma sorted_entries_index: "sorted_entries c okk es \<Longrightarrow> i < length es \<Longrightarrow> j < length es \<Longrightarrow> es ! i = es ! j \<longleftrightarrow> i = j"
  using sorted_entries_distinct by (metis nth_eq_iff_index_eq)

text \<open>The first \<open>j\<close> entries are those below entry \<open>j\<close>.\<close>

lemma mem_take_iff:
  assumes "sorted_entries c okk es" "p < length es"
  shows "es ! p \<in> set (take j es) \<longleftrightarrow> p < j"
  using sorted_entries_distinct [OF assms(1)] assms(2)
  by (auto simp: in_set_conv_nth nth_eq_iff_index_eq)

lemma sub_index: "set xs \<subseteq> set es \<Longrightarrow> q < length xs \<Longrightarrow> \<exists>r < length es. es ! r = xs ! q"
  by (meson in_set_conv_nth nth_mem subsetD)

lemma take_closed:
  assumes s: "sorted_entries c okk es" "sorted_entries c okk xs" "set xs \<subseteq> set es"
    and "a < b" "b < length xs" "xs ! b \<in> set (take j es)"
  shows "xs ! a \<in> set (take j es)"
proof -
  obtain p q where p: "p < length es" "es ! p = xs ! a" and q: "q < length es" "es ! q = xs ! b"
    using sub_index [OF s(3), of a] sub_index [OF s(3), of b] assms(4,5) by auto
  then have "p < q" using sorted_entries_nth [OF s(2) assms(4,5)] entries_order(1) [OF s(1) p(1) q(1)] by simp
  moreover have "q < j" using mem_take_iff [OF s(1) q(1)] q(2) assms(6) by simp
  ultimately show ?thesis using mem_take_iff [OF s(1) p(1)] p(2) by simp
qed

lemma cnt_iff:
  assumes "sorted_entries c okk es" "sorted_entries c okk xs" "set xs \<subseteq> set es" "p < length xs"
  shows "p < cnt es xs j \<longleftrightarrow> xs ! p \<in> set (take j es)"
proof
  assume "p < cnt es xs j"
  then show "xs ! p \<in> set (take j es)"
    unfolding cnt_def by (metis (mono_tags, lifting) nth_mem set_takeWhileD takeWhile_nth)
next
  assume in_take: "xs ! p \<in> set (take j es)"
  show "p < cnt es xs j"
  proof (rule ccontr)
    assume "\<not> p < cnt es xs j"
    then have le: "cnt es xs j \<le> p" by simp
    then have "xs ! cnt es xs j \<in> set (take j es)"
      using take_closed [OF assms(1-3) _ assms(4) in_take] in_take by (cases "cnt es xs j = p") auto
    moreover have "xs ! cnt es xs j \<notin> set (take j es)"
      using nth_length_takeWhile [of "\<lambda>e. e \<in> set (take j es)" xs] le assms(4) by (simp add: cnt_def)
    ultimately show False by contradiction
  qed
qed

lemma cnt_le: "cnt es xs j \<le> length xs"
  by (simp add: cnt_def length_takeWhile_le)

lemma cnt_0 [simp]: "cnt es xs 0 = 0"
  by (cases xs) (simp_all add: cnt_def)

lemma cnt_all: "set xs \<subseteq> set es \<Longrightarrow> cnt es xs (length es) = length xs"
  unfolding cnt_def by (subst takeWhile_eq_all_conv [THEN iffD2]) auto

lemma cnt_eqI:
  assumes "sorted_entries c okk es" "sorted_entries c okk xs" "set xs \<subseteq> set es" "n \<le> length xs"
    "\<And>p. p < length xs \<Longrightarrow> xs ! p \<in> set (take j es) \<longleftrightarrow> p < n"
  shows "cnt es xs j = n"
proof (rule ccontr)
  assume "cnt es xs j \<noteq> n"
  then consider "cnt es xs j < n" | "n < cnt es xs j" by linarith
  then show False
  proof cases
    case 1
    then show False using cnt_iff [OF assms(1-3), of "cnt es xs j" j] assms(4,5) by fastforce
  next
    case 2
    then show False using cnt_iff [OF assms(1-3), of n j] assms(5) [of n] cnt_le [of es xs j] by fastforce
  qed
qed

lemma cnt_at:
  assumes s: "sorted_entries c okk es" "sorted_entries c okk xs" "set xs \<subseteq> set es" and j: "j < length es" "es ! j \<in> set xs"
  shows "cnt es xs j < length xs" "xs ! cnt es xs j = es ! j" "cnt es xs (Suc j) = Suc (cnt es xs j)"
proof -
  obtain p where p: "p < length xs" "xs ! p = es ! j" using j(2) by (metis in_set_conv_nth)
  have pos: "xs ! q \<in> set (take i es) \<longleftrightarrow> (\<exists>r. r < length es \<and> es ! r = xs ! q \<and> r < i)" if "q < length xs" for q i
    using sub_index [OF s(3) that] mem_take_iff [OF s(1), of _ i] by (metis sorted_entries_index [OF s(1)])
  have below: "r < j \<longleftrightarrow> q < p" if "q < length xs" "r < length es" "es ! r = xs ! q" for q r
    using entries_order(1) [OF s(1) that(2) j(1)] entries_order(1) [OF s(2) that(1) p(1)] that(3) p(2) by simp
  have same: "r = j \<longleftrightarrow> q = p" if "q < length xs" "r < length es" "es ! r = xs ! q" for q r
    using entries_order(2) [OF s(1) that(2) j(1)] entries_order(2) [OF s(2) that(1) p(1)] that(3) p(2) by simp
  have ex: "\<exists>r < length es. es ! r = xs ! q" if "q < length xs" for q
    using sub_index [OF s(3) that] .
  have "cnt es xs j = p"
  proof (rule cnt_eqI [OF s])
    show "xs ! q \<in> set (take j es) \<longleftrightarrow> q < p" if "q < length xs" for q
      using pos [OF that] below [OF that] ex [OF that] by blast
  qed (use p in simp)
  moreover have "cnt es xs (Suc j) = Suc p"
  proof (rule cnt_eqI [OF s])
    show "xs ! q \<in> set (take (Suc j) es) \<longleftrightarrow> q < Suc p" if "q < length xs" for q
      using pos [OF that] below [OF that] same [OF that] ex [OF that] by (metis less_Suc_eq)
  qed (use p in simp)
  ultimately show "cnt es xs j < length xs" "xs ! cnt es xs j = es ! j" "cnt es xs (Suc j) = Suc (cnt es xs j)"
    using p by simp_all
qed

lemma cnt_not_at: "j < length es \<Longrightarrow> es ! j \<notin> set xs \<Longrightarrow> cnt es xs (Suc j) = cnt es xs j"
  unfolding cnt_def by (intro arg_cong [of _ _ length] takeWhile_cong) (auto simp: take_Suc_conv_app_nth)

lemma lower_bound_cnt:
  assumes s: "sorted_entries c okk es" "set xs \<subseteq> set es" and t: "okk target"
  shows "lower_bound c xs target = cnt es xs (lower_bound c es target)"
proof -
  have "e \<in> set (take (lower_bound c es target) es) \<longleftrightarrow> Compare c (fst e) target < 0" if "e \<in> set es" for e
  proof -
    obtain p where p: "p < length es" "e = es ! p" using \<open>e \<in> set es\<close> unfolding in_set_conv_nth by blast
    have "\<not> Compare c (fst (es ! p)) target < 0" if "lower_bound c es target \<le> p"
      using sorted_less_target [OF s(1) t that p(1)] lower_bound_ge [OF le_less_trans [OF that p(1)]] by argo
    then have "p < lower_bound c es target \<longleftrightarrow> Compare c (fst (es ! p)) target < 0"
      using lower_bound_less [of p c es target] not_less by blast
    then show ?thesis using mem_take_iff [OF s(1) p(1)] p(2) by simp
  qed
  then show ?thesis
    unfolding cnt_def lower_bound_def [of c xs] using s(2)
    by (intro arg_cong [of _ _ length] takeWhile_cong) auto
qed

section \<open>The children\<close>

lemma child_unique:
  assumes "distinct (concat ess)" "k < length ess" "l < length ess" "x \<in> set (ess ! k)" "x \<in> set (ess ! l)"
  shows "k = l"
  using assms
proof (induction ess arbitrary: k l)
  case (Cons e ess)
  have "x \<in> set e \<Longrightarrow> i < length ess \<Longrightarrow> x \<notin> set (ess ! i)" for i
    using Cons.prems(1) nth_mem [of i ess] by fastforce
  then show ?case using Cons by (cases k; cases l) auto
qed simp

text \<open>A scan finds the child that beats all others, and none when no child is valid.\<close>

definition best_child :: "(nat \<Rightarrow> bool) \<Rightarrow> (nat \<Rightarrow> nat \<Rightarrow> bool) \<Rightarrow> nat option \<Rightarrow> nat \<Rightarrow> nat option" where
  "best_child V B best i =
     (if V i then (case best of None \<Rightarrow> Some i | Some b \<Rightarrow> if B i b then Some i else best) else best)"

lemma best_child_keep:
  "\<forall>i\<in>set ks. V i \<and> i \<noteq> k \<longrightarrow> \<not> B i k \<Longrightarrow> \<not> B k k \<Longrightarrow> foldl (best_child V B) (Some k) ks = Some k"
  by (induction ks) (auto simp: best_child_def)

lemma best_child_scan:
  assumes "k \<in> set ks" "V k" "\<not> B k k" "\<forall>i\<in>set ks. V i \<and> i \<noteq> k \<longrightarrow> B k i \<and> \<not> B i k"
    "\<And>b. best = Some b \<Longrightarrow> b \<noteq> k \<Longrightarrow> B k b"
  shows "foldl (best_child V B) best ks = Some k"
  using assms
proof (induction ks arbitrary: best)
  case (Cons i ks)
  show ?case
  proof (cases "i = k")
    case True
    then have "best_child V B best i = Some k" using Cons.prems by (auto simp: best_child_def split: option.splits)
    then show ?thesis using best_child_keep [of ks V k B] Cons.prems by simp
  next
    case False
    then have "foldl (best_child V B) (best_child V B best i) ks = Some k"
      using Cons.prems by (intro Cons.IH) (auto simp: best_child_def split: option.splits if_splits)
    then show ?thesis by simp
  qed
qed simp

lemma best_child_none: "\<forall>i\<in>set ks. \<not> V i \<Longrightarrow> foldl (best_child V B) best ks = best"
  by (induction ks) (simp_all add: best_child_def)

lemma child_scans:
  "smaller_child c cs = best_child (\<lambda>i. w_valid (cs ! i)) (\<lambda>i b. Compare c (w_key (cs ! i)) (w_key (cs ! b)) < 0)"
  "larger_child c cs = best_child (\<lambda>i. w_valid (cs ! i)) (\<lambda>i b. Compare c (w_key (cs ! i)) (w_key (cs ! b)) > 0)"
  by (intro ext; simp add: smaller_child_def larger_child_def best_child_def)+

section \<open>The merging iterator keeps the iterator contract\<close>

text \<open>The merge of the children's lists, cut before position \<open>j\<close>.\<close>

definition merges :: "comparator \<Rightarrow> (bytes \<Rightarrow> bool) \<Rightarrow> (bytes \<times> bytes) list list \<Rightarrow> (bytes \<times> bytes) list \<Rightarrow> bool" where
  "merges c okk ess es \<longleftrightarrow>
     sorted_entries c okk es \<and> mset es = mset (concat ess) \<and> (\<forall>xs\<in>set ess. sorted_entries c okk xs)"

definition step_back :: "(bytes \<times> bytes) list \<Rightarrow> nat \<Rightarrow> nat" where
  "step_back xs n = (if n = 0 then length xs else n - 1)"

context list_iterator
begin

abbreviation wrep :: "'s IteratorWrapper \<Rightarrow> (bytes \<times> bytes) list \<Rightarrow> nat \<Rightarrow> bool" where
  "wrep \<equiv> wrapped_rep it rep"

definition positions :: "'s MergingIterator \<Rightarrow> (bytes \<times> bytes) list list \<Rightarrow> ((bytes \<times> bytes) list \<Rightarrow> nat) \<Rightarrow> bool" where
  "positions m ess p \<longleftrightarrow> length (mg_children m) = length ess \<and> (\<forall>k < length ess. wrep (mg_children m ! k) (ess ! k) (p (ess ! k)))"

lemma merges_sub: "merges c ok ess es \<Longrightarrow> k < length ess \<Longrightarrow> set (ess ! k) \<subseteq> set es \<and> sorted_entries c ok (ess ! k)"
  unfolding merges_def by (metis (no_types, lifting) UN_upper nth_mem set_concat set_mset_mset)

lemma merges_child:
  assumes "merges c ok ess es" "j < length es"
  obtains k where "k < length ess" "es ! j \<in> set (ess ! k)" "\<And>l. l < length ess \<Longrightarrow> l \<noteq> k \<Longrightarrow> es ! j \<notin> set (ess ! l)"
proof -
  have "es ! j \<in> set (concat ess)" using assms by (metis merges_def nth_mem set_mset_mset)
  then obtain k where k: "k < length ess" "es ! j \<in> set (ess ! k)" by (auto simp: in_set_conv_nth [of _ ess])
  have "distinct (concat ess)" using assms(1) sorted_entries_distinct by (metis merges_def mset_eq_imp_distinct_iff)
  then show ?thesis using child_unique [of ess] k by (intro that [OF k]) blast
qed

lemma wrapped_facts:
  assumes "wrep w xs p"
  shows "w_valid w \<longleftrightarrow> p < length xs" "p < length xs \<Longrightarrow> w_key w = fst (xs ! p)"
  using list_iterator.rep_Valid [OF wrapped_list_iterator assms] list_iterator.rep_key [OF wrapped_list_iterator assms]
  by (simp_all add: Wrapped_def)

text \<open>What stands at a cut: an entry at or after it, or before it.\<close>

lemma entry_after_cut:
  assumes "merges c ok ess es" "k < length ess" "cnt es (ess ! k) j < length (ess ! k)"
  obtains r where "r < length es" "ess ! k ! cnt es (ess ! k) j = es ! r" "j \<le> r"
proof -
  let ?xs = "ess ! k"
  have s: "sorted_entries c ok es" "sorted_entries c ok ?xs" "set ?xs \<subseteq> set es"
    using merges_sub [OF assms(1,2)] assms(1) by (simp_all add: merges_def)
  obtain r where r: "r < length es" "es ! r = ?xs ! cnt es ?xs j" using sub_index [OF s(3) assms(3)] by blast
  moreover have "\<not> r < j" using cnt_iff [OF s assms(3), of j] mem_take_iff [OF s(1) r(1), of j] r(2) by simp
  ultimately show ?thesis by (intro that [of r]) simp_all
qed

lemma entry_before_cut:
  assumes "merges c ok ess es" "k < length ess" "0 < cnt es (ess ! k) j"
  obtains r where "r < length es" "ess ! k ! (cnt es (ess ! k) j - 1) = es ! r" "r < j"
proof -
  let ?xs = "ess ! k" and ?p = "cnt es (ess ! k) j - 1"
  have s: "sorted_entries c ok es" "sorted_entries c ok ?xs" "set ?xs \<subseteq> set es"
    using merges_sub [OF assms(1,2)] assms(1) by (simp_all add: merges_def)
  have p: "?p < length ?xs" "?p < cnt es ?xs j" using assms(3) cnt_le [of es ?xs j] by simp_all
  obtain r where r: "r < length es" "es ! r = ?xs ! ?p" using sub_index [OF s(3) p(1)] by blast
  moreover have "r < j" using cnt_iff [OF s p(1), of j] mem_take_iff [OF s(1) r(1), of j] r(2) p(2) by simp
  ultimately show ?thesis by (intro that [of r]) simp_all
qed

lemma entries_gt: "merges c ok ess es \<Longrightarrow> i < length es \<Longrightarrow> j < length es \<Longrightarrow> Compare c (fst (es ! i)) (fst (es ! j)) > 0 \<longleftrightarrow> j < i"
  using entries_order(1) [of c ok es j i] comparator_contract.Compare_swap [of c ok "fst (es ! j)" "fst (es ! i)"]
  by (auto simp: merges_def sorted_entries_def)

lemma FindSmallest_current:
  assumes M: "merges c ok ess es" and P: "positions m ess (\<lambda>xs. cnt es xs j)" and j: "j \<le> length es"
  shows "(j = length es \<longrightarrow> mg_current (FindSmallest c m) = None) \<and>
    (j < length es \<longrightarrow> (\<exists>k < length ess. es ! j \<in> set (ess ! k) \<and> mg_current (FindSmallest c m) = Some k))"
proof -
  let ?cs = "mg_children m"
  have len: "length ?cs = length ess" and w: "\<And>l. l < length ess \<Longrightarrow> wrep (?cs ! l) (ess ! l) (cnt es (ess ! l) j)"
    using P by (simp_all add: positions_def)
  have se: "sorted_entries c ok es" using M by (simp add: merges_def)
  show ?thesis
  proof (cases "j < length es")
    case False
    then have "\<not> w_valid (?cs ! l)" if "l < length ess" for l
      using wrapped_facts(1) [OF w [OF that]] cnt_all [of "ess ! l" es] merges_sub [OF M that] j by simp
    then show ?thesis using False len by (simp add: FindSmallest_def child_scans best_child_none)
  next
    case True
    from M True obtain k where k: "k < length ess" "es ! j \<in> set (ess ! k)"
      and others: "\<And>l. l < length ess \<Longrightarrow> l \<noteq> k \<Longrightarrow> es ! j \<notin> set (ess ! l)" by (rule merges_child) blast
    have ks: "sorted_entries c ok (ess ! k)" "set (ess ! k) \<subseteq> set es" using merges_sub [OF M k(1)] by simp_all
    note at = cnt_at [OF se ks True k(2)]
    have key: "w_valid (?cs ! k)" "w_key (?cs ! k) = fst (es ! j)" using wrapped_facts [OF w [OF k(1)]] at by simp_all
    have beats: "Compare c (w_key (?cs ! k)) (w_key (?cs ! l)) < 0 \<and> \<not> Compare c (w_key (?cs ! l)) (w_key (?cs ! k)) < 0"
      if l: "l < length ess" "w_valid (?cs ! l)" "l \<noteq> k" for l
    proof -
      have v: "cnt es (ess ! l) j < length (ess ! l)" using wrapped_facts(1) [OF w [OF l(1)]] l(2) by simp
      from M l(1) v obtain r where r: "r < length es" "ess ! l ! cnt es (ess ! l) j = es ! r" "j \<le> r" by (rule entry_after_cut)
      have "es ! r \<in> set (ess ! l)" using v r(2) by (metis nth_mem)
      then have "j < r" using others [OF l(1,3)] r(3) by (cases "j = r") auto
      then show ?thesis
        using wrapped_facts(2) [OF w [OF l(1)] v] r key(2) entries_order(1) [OF se True r(1)] entries_order(1) [OF se r(1) True] by simp
    qed
    have "\<not> Compare c (w_key (?cs ! k)) (w_key (?cs ! k)) < 0" using key(2) entries_order(1) [OF se True True] by simp
    then have "foldl (smaller_child c ?cs) None [0..<length ?cs] = Some k"
      unfolding child_scans using k(1) len key(1) beats by (intro best_child_scan) auto
    then show ?thesis using True k by (auto simp: FindSmallest_def)
  qed
qed

lemma FindLargest_current:
  assumes M: "merges c ok ess es" and P: "positions m ess (\<lambda>xs. step_back xs (cnt es xs j))" and j: "j \<le> length es"
  shows "(j = 0 \<longrightarrow> mg_current (FindLargest c m) = None) \<and>
    (0 < j \<longrightarrow> (\<exists>k < length ess. es ! (j - 1) \<in> set (ess ! k) \<and> mg_current (FindLargest c m) = Some k))"
proof -
  let ?cs = "mg_children m"
  have len: "length ?cs = length ess" and w: "\<And>l. l < length ess \<Longrightarrow> wrep (?cs ! l) (ess ! l) (step_back (ess ! l) (cnt es (ess ! l) j))"
    using P by (simp_all add: positions_def)
  have se: "sorted_entries c ok es" using M by (simp add: merges_def)
  have valid: "w_valid (?cs ! l) \<longleftrightarrow> 0 < cnt es (ess ! l) j" if "l < length ess" for l
    using wrapped_facts(1) [OF w [OF that]] cnt_le [of es "ess ! l" j] by (auto simp: step_back_def)
  show ?thesis
  proof (cases "0 < j")
    case False
    then show ?thesis using len valid by (simp add: FindLargest_def child_scans best_child_none)
  next
    case True
    then have j1: "j - 1 < length es" using j by simp
    from M j1 obtain k where k: "k < length ess" "es ! (j - 1) \<in> set (ess ! k)"
      and others: "\<And>l. l < length ess \<Longrightarrow> l \<noteq> k \<Longrightarrow> es ! (j - 1) \<notin> set (ess ! l)" by (rule merges_child) blast
    have ks: "sorted_entries c ok (ess ! k)" "set (ess ! k) \<subseteq> set es" using merges_sub [OF M k(1)] by simp_all
    note at = cnt_at [OF se ks j1 k(2)]
    have key: "w_valid (?cs ! k)" "w_key (?cs ! k) = fst (es ! (j - 1))"
      using wrapped_facts [OF w [OF k(1)]] at True by (simp_all add: step_back_def)
    have beats: "Compare c (w_key (?cs ! k)) (w_key (?cs ! l)) > 0 \<and> \<not> Compare c (w_key (?cs ! l)) (w_key (?cs ! k)) > 0"
      if l: "l < length ess" "w_valid (?cs ! l)" "l \<noteq> k" for l
    proof -
      have v: "0 < cnt es (ess ! l) j" using valid [OF l(1)] l(2) by simp
      then have v': "cnt es (ess ! l) j - 1 < length (ess ! l)" using cnt_le [of es "ess ! l" j] by simp
      from M l(1) v obtain r where r: "r < length es" "ess ! l ! (cnt es (ess ! l) j - 1) = es ! r" "r < j" by (rule entry_before_cut)
      have "es ! r \<in> set (ess ! l)" using v' r(2) by (metis nth_mem)
      then have "r < j - 1" using others [OF l(1,3)] r(3) by (cases "r = j - 1") auto
      then show ?thesis
        using wrapped_facts(2) [OF w [OF l(1)]] v v' r key(2) entries_gt [OF M j1 r(1)] entries_gt [OF M r(1) j1]
        by (simp add: step_back_def)
    qed
    have "\<not> Compare c (w_key (?cs ! k)) (w_key (?cs ! k)) > 0" using key(2) entries_gt [OF M j1 j1] by simp
    then have "foldl (larger_child c ?cs) None (rev [0..<length ?cs]) = Some k"
      unfolding child_scans using k(1) len key(1) beats by (intro best_child_scan) auto
    then show ?thesis using True k by (auto simp: FindLargest_def)
  qed
qed

text \<open>The position of a merging iterator.\<close>

definition anywhere :: "'s MergingIterator \<Rightarrow> (bytes \<times> bytes) list list \<Rightarrow> bool" where
  "anywhere m ess \<longleftrightarrow> length (mg_children m) = length ess \<and> (\<forall>k < length ess. \<exists>p. wrep (mg_children m ! k) (ess ! k) p)"

definition at_entry :: "'s MergingIterator \<Rightarrow> (bytes \<times> bytes) list list \<Rightarrow> (bytes \<times> bytes) list \<Rightarrow> nat \<Rightarrow> bool" where
  "at_entry m ess es i \<longleftrightarrow> i < length es \<and>
     (\<exists>k < length ess. es ! i \<in> set (ess ! k) \<and> mg_current m = Some k) \<and>
     (case mg_direction m of
        kForward \<Rightarrow> positions m ess (\<lambda>xs. cnt es xs i)
      | kReverse \<Rightarrow> positions m ess (\<lambda>xs. step_back xs (cnt es xs (Suc i))))"

definition merge_rep :: "'s MergingIterator \<Rightarrow> (bytes \<times> bytes) list \<Rightarrow> nat \<Rightarrow> bool" where
  "merge_rep m es i \<longleftrightarrow>
     (\<exists>ess. merges c ok ess es \<and> (at_entry m ess es i \<or> i = length es \<and> mg_current m = None \<and> anywhere m ess))"

lemma positions_anywhere: "positions m ess p \<Longrightarrow> anywhere m ess"
  by (auto simp: positions_def anywhere_def)

lemma at_entry_anywhere: "at_entry m ess es i \<Longrightarrow> anywhere m ess"
  by (auto simp: at_entry_def split: Direction.splits intro: positions_anywhere)

lemma Find_frame [simp]:
  "mg_children (FindSmallest c m) = mg_children m" "mg_children (FindLargest c m) = mg_children m"
  "mg_direction (FindSmallest c m) = mg_direction m" "mg_direction (FindLargest c m) = mg_direction m"
  by (simp_all add: FindSmallest_def FindLargest_def)

lemma positions_cong: "positions m ess p \<Longrightarrow> mg_children m' = mg_children m \<Longrightarrow> positions m' ess p"
  by (simp add: positions_def)

lemma forward_rep:
  assumes "merges c ok ess es" "positions m ess (\<lambda>xs. cnt es xs j)" "j \<le> length es"
  shows "merge_rep ((FindSmallest c m)\<lparr>mg_direction := kForward\<rparr>) es j"
proof (cases "j = length es")
  case True
  have "anywhere ((FindSmallest c m)\<lparr>mg_direction := kForward\<rparr>) ess"
    by (rule positions_anywhere [OF positions_cong [OF assms(2)]]) simp
  then show ?thesis unfolding merge_rep_def using assms(1) FindSmallest_current [OF assms] True by auto
next
  case False
  then have "at_entry ((FindSmallest c m)\<lparr>mg_direction := kForward\<rparr>) ess es j"
    using assms(3) FindSmallest_current [OF assms] positions_cong [OF assms(2)] by (simp add: at_entry_def)
  then show ?thesis unfolding merge_rep_def using assms(1) by blast
qed

lemma reverse_rep:
  assumes "merges c ok ess es" "positions m ess (\<lambda>xs. step_back xs (cnt es xs j))" "j \<le> length es"
  shows "merge_rep ((FindLargest c m)\<lparr>mg_direction := kReverse\<rparr>) es (if j = 0 then length es else j - 1)"
proof (cases "j = 0")
  case True
  have "anywhere ((FindLargest c m)\<lparr>mg_direction := kReverse\<rparr>) ess"
    by (rule positions_anywhere [OF positions_cong [OF assms(2)]]) simp
  then show ?thesis unfolding merge_rep_def using assms(1) FindLargest_current [OF assms] True by auto
next
  case False
  then have "at_entry ((FindLargest c m)\<lparr>mg_direction := kReverse\<rparr>) ess es (j - 1)"
    using assms(3) FindLargest_current [OF assms] positions_cong [OF assms(2)] by (simp add: at_entry_def)
  then show ?thesis unfolding merge_rep_def using assms(1) False by auto
qed

lemma mg_map_positions:
  "anywhere m ess \<Longrightarrow> (\<And>w k p. k < length ess \<Longrightarrow> wrep w (ess ! k) p \<Longrightarrow> wrep (f w) (ess ! k) (q (ess ! k))) \<Longrightarrow>
     positions (mg_map f m) ess q"
  by (auto simp: anywhere_def positions_def mg_map_def)

lemma lower_bound_own: "sorted_entries c ok es \<Longrightarrow> i < length es \<Longrightarrow> lower_bound c es (fst (es ! i)) = i"
  using entries_order(1) [of c ok es _ i] by (intro lower_bound_unique) (auto simp: less_imp_le)

lemma wrapped_Seek:
  assumes "merges c ok ess es" "k < length ess" "wrep w (ess ! k) p" "ok target"
  shows "wrep (Seek (Wrapped it) w target) (ess ! k) (cnt es (ess ! k) (lower_bound c es target))"
  using list_iterator.rep_Seek [OF wrapped_list_iterator assms(3,4)] lower_bound_cnt [of c ok es "ess ! k" target]
    merges_sub [OF assms(1,2)] assms(1,4)
  by (simp add: merges_def)

lemma wrapped_Seek_own:
  assumes M: "merges c ok ess es" and i: "i < length es" and k: "k < length ess" "wrep w (ess ! k) p"
  shows "wrep (Seek (Wrapped it) w (fst (es ! i))) (ess ! k) (cnt es (ess ! k) i)"
proof -
  have s: "sorted_entries c ok es" using M by (simp add: merges_def)
  show ?thesis using wrapped_Seek [OF M k sorted_entries_ok [OF s nth_mem [OF i]]] lower_bound_own [OF s i] by simp
qed

lemma after_key_rep:
  assumes M: "merges c ok ess es" and i: "i < length es" and k: "k < length ess" "wrep w (ess ! k) p" and out: "es ! i \<notin> set (ess ! k)"
  shows "wrep (after_key it c (fst (es ! i)) w) (ess ! k) (cnt es (ess ! k) i)"
proof -
  let ?w = "Seek (Wrapped it) w (fst (es ! i))"
  have w: "wrep ?w (ess ! k) (cnt es (ess ! k) i)" using wrapped_Seek_own [OF M i k] .
  have "\<not> (Valid (Wrapped it) ?w \<and> Compare c (fst (es ! i)) (ikey (Wrapped it) ?w) = 0)"
  proof
    assume v: "Valid (Wrapped it) ?w \<and> Compare c (fst (es ! i)) (ikey (Wrapped it) ?w) = 0"
    then have lt: "cnt es (ess ! k) i < length (ess ! k)" using list_iterator.rep_Valid [OF wrapped_list_iterator w] by simp
    from M k(1) lt obtain r where r: "r < length es" "ess ! k ! cnt es (ess ! k) i = es ! r" "i \<le> r" by (rule entry_after_cut)
    have "ikey (Wrapped it) ?w = fst (es ! r)" using list_iterator.rep_key [OF wrapped_list_iterator w lt] r(2) by simp
    then have "i = r" using v entries_order(2) [of c ok es i r] M i r(1) by (simp add: merges_def)
    then show False using out r(2) lt by (metis nth_mem)
  qed
  then show ?thesis using w by (auto simp: after_key_def Let_def)
qed

lemma before_key_rep:
  assumes M: "merges c ok ess es" and i: "i < length es" and k: "k < length ess" "wrep w (ess ! k) p"
  shows "wrep (before_key it (fst (es ! i)) w) (ess ! k) (step_back (ess ! k) (cnt es (ess ! k) i))"
proof -
  let ?w = "Seek (Wrapped it) w (fst (es ! i))" and ?n = "cnt es (ess ! k) i"
  have w: "wrep ?w (ess ! k) ?n" using wrapped_Seek_own [OF M i k] .
  show ?thesis
  proof (cases "?n < length (ess ! k)")
    case True
    then show ?thesis
      using list_iterator.rep_Valid [OF wrapped_list_iterator w] list_iterator.rep_Prev [OF wrapped_list_iterator w True]
      by (simp add: before_key_def Let_def step_back_def)
  next
    case False
    then have "?n = length (ess ! k)" using cnt_le [of es "ess ! k" i] by simp
    then show ?thesis
      using list_iterator.rep_Valid [OF wrapped_list_iterator w] list_iterator.rep_SeekToLast [OF wrapped_list_iterator w]
      by (cases "ess ! k") (simp_all add: before_key_def Let_def step_back_def)
  qed
qed

text \<open>The current child stands at the entry, whatever the direction.\<close>

lemma current_child:
  assumes M: "merges c ok ess es" and a: "at_entry m ess es i"
  obtains k where "k < length ess" "mg_cur m = k" "es ! i \<in> set (ess ! k)"
    "wrep (mg_children m ! k) (ess ! k) (cnt es (ess ! k) i)"
    "\<forall>l < length ess. l \<noteq> k \<longrightarrow> es ! i \<notin> set (ess ! l)" "length (mg_children m) = length ess"
proof -
  from a have i: "i < length es" by (simp add: at_entry_def)
  from a obtain k where k: "k < length ess" "es ! i \<in> set (ess ! k)" "mg_current m = Some k" by (auto simp: at_entry_def)
  have "distinct (concat ess)" using M sorted_entries_distinct by (metis merges_def mset_eq_imp_distinct_iff)
  then have others: "\<And>l. l < length ess \<Longrightarrow> l \<noteq> k \<Longrightarrow> es ! i \<notin> set (ess ! l)" using child_unique k by metis
  have s: "sorted_entries c ok es" "sorted_entries c ok (ess ! k)" "set (ess ! k) \<subseteq> set es"
    using merges_sub [OF M k(1)] M by (simp_all add: merges_def)
  have "wrep (mg_children m ! k) (ess ! k) (cnt es (ess ! k) i)" "length (mg_children m) = length ess"
    using a k(1) cnt_at(3) [OF s i k(2)] by (auto simp: at_entry_def positions_def step_back_def split: Direction.splits)
  then show ?thesis using k others by (intro that [of k]) (auto simp: mg_cur_def)
qed

lemma at_entry_key:
  assumes M: "merges c ok ess es" and a: "at_entry m ess es i"
  shows "mg_key it m = fst (es ! i) \<and> mg_value it m = snd (es ! i)"
proof -
  from M a obtain k where k: "k < length ess" "mg_cur m = k" "es ! i \<in> set (ess ! k)"
    "wrep (mg_children m ! k) (ess ! k) (cnt es (ess ! k) i)" by (rule current_child)
  have s: "sorted_entries c ok es" "sorted_entries c ok (ess ! k)" "set (ess ! k) \<subseteq> set es" "i < length es"
    using merges_sub [OF M k(1)] M a by (simp_all add: merges_def at_entry_def)
  note at = cnt_at [OF s k(3)]
  show ?thesis
    using list_iterator.rep_key [OF wrapped_list_iterator k(4) at(1)] list_iterator.rep_value [OF wrapped_list_iterator k(4) at(1)]
      at(2) k(2) by (simp add: mg_key_def mg_value_def)
qed

lemma move_current_positions:
  assumes "length (mg_children m) = length ess" "mg_cur m = k" "k < length ess"
    "wrep (f (mg_children m ! k)) (ess ! k) (q (ess ! k))"
    "\<And>l. l < length ess \<Longrightarrow> l \<noteq> k \<Longrightarrow> wrep (mg_children m ! l) (ess ! l) (q (ess ! l))"
  shows "positions (move_current f m) ess q"
  unfolding positions_def move_current_def using assms by (auto simp: nth_list_update)

lemma move_others_nth:
  "l < length (mg_children m) \<Longrightarrow> mg_children (move_others f m) ! l = (if l \<noteq> mg_cur m then f (mg_children m ! l) else mg_children m ! l)"
  "length (mg_children (move_others f m)) = length (mg_children m)" "mg_cur (move_others f m) = mg_cur m"
  by (simp_all add: move_others_def mg_cur_def)

lemma mg_Next_rep:
  assumes M: "merges c ok ess es" and a: "at_entry m ess es i"
  shows "merge_rep (mg_Next it c m) es (Suc i)"
proof -
  have i: "i < length es" using a by (simp add: at_entry_def)
  from M a obtain k where k: "k < length ess" "mg_cur m = k" "es ! i \<in> set (ess ! k)"
    and wk: "wrep (mg_children m ! k) (ess ! k) (cnt es (ess ! k) i)"
    and others': "\<forall>l < length ess. l \<noteq> k \<longrightarrow> es ! i \<notin> set (ess ! l)" and len: "length (mg_children m) = length ess"
    by (rule current_child)
  have others: "es ! i \<notin> set (ess ! l)" if "l < length ess" "l \<noteq> k" for l using others' that by blast
  have s: "sorted_entries c ok es" "sorted_entries c ok (ess ! k)" "set (ess ! k) \<subseteq> set es"
    using merges_sub [OF M k(1)] M by (simp_all add: merges_def)
  note at = cnt_at [OF s i k(3)]
  define m1 where "m1 = (if mg_direction m \<noteq> kForward
               then (move_others (after_key it c (mg_key it m)) m)\<lparr>mg_direction := kForward\<rparr> else m)"
  have m1: "mg_direction m1 = kForward" "mg_cur m1 = k" "length (mg_children m1) = length ess" "mg_children m1 ! k = mg_children m ! k"
    using k len by (cases "mg_direction m"; auto simp: m1_def move_others_def mg_cur_def)+
  have w1: "wrep (mg_children m1 ! l) (ess ! l) (cnt es (ess ! l) i)" if l: "l < length ess" "l \<noteq> k" for l
  proof (cases "mg_direction m")
    case kForward
    then show ?thesis using a l by (simp add: m1_def at_entry_def positions_def)
  next
    case kReverse
    obtain p where "wrep (mg_children m ! l) (ess ! l) p" using at_entry_anywhere [OF a] l(1) by (auto simp: anywhere_def)
    from after_key_rep [OF M i l(1) this others [OF l]] show ?thesis
      using kReverse at_entry_key [OF M a] l k len by (simp add: m1_def move_others_nth)
  qed
  have "positions (move_current (Next (Wrapped it)) m1) ess (\<lambda>xs. cnt es xs (Suc i))"
  proof (rule move_current_positions [OF m1(3,2) k(1)])
    show "wrep (Next (Wrapped it) (mg_children m1 ! k)) (ess ! k) (cnt es (ess ! k) (Suc i))"
      using list_iterator.rep_Next [OF wrapped_list_iterator wk at(1)] at(3) m1(4) by simp
  qed (use w1 cnt_not_at [OF i others] in simp)
  from forward_rep [OF M this] i
  have "merge_rep ((FindSmallest c (move_current (Next (Wrapped it)) m1))\<lparr>mg_direction := kForward\<rparr>) es (Suc i)" by simp
  moreover have "(FindSmallest c (move_current (Next (Wrapped it)) m1))\<lparr>mg_direction := kForward\<rparr> = mg_Next it c m"
    using m1(1) by (simp add: mg_Next_def Let_def m1_def [symmetric] move_current_def FindSmallest_def)
  ultimately show ?thesis by simp
qed

lemma mg_Prev_rep:
  assumes M: "merges c ok ess es" and a: "at_entry m ess es i"
  shows "merge_rep (mg_Prev it c m) es (if i = 0 then length es else i - 1)"
proof -
  have i: "i < length es" using a by (simp add: at_entry_def)
  from M a obtain k where k: "k < length ess" "mg_cur m = k" "es ! i \<in> set (ess ! k)"
    and wk: "wrep (mg_children m ! k) (ess ! k) (cnt es (ess ! k) i)"
    and others': "\<forall>l < length ess. l \<noteq> k \<longrightarrow> es ! i \<notin> set (ess ! l)" and len: "length (mg_children m) = length ess"
    by (rule current_child)
  have others: "es ! i \<notin> set (ess ! l)" if "l < length ess" "l \<noteq> k" for l using others' that by blast
  have s: "sorted_entries c ok es" "sorted_entries c ok (ess ! k)" "set (ess ! k) \<subseteq> set es"
    using merges_sub [OF M k(1)] M by (simp_all add: merges_def)
  note at = cnt_at [OF s i k(3)]
  define m1 where "m1 = (if mg_direction m \<noteq> kReverse
               then (move_others (before_key it (mg_key it m)) m)\<lparr>mg_direction := kReverse\<rparr> else m)"
  have m1: "mg_direction m1 = kReverse" "mg_cur m1 = k" "length (mg_children m1) = length ess" "mg_children m1 ! k = mg_children m ! k"
    using k len by (cases "mg_direction m"; auto simp: m1_def move_others_def mg_cur_def)+
  have w1: "wrep (mg_children m1 ! l) (ess ! l) (step_back (ess ! l) (cnt es (ess ! l) i))" if l: "l < length ess" "l \<noteq> k" for l
  proof (cases "mg_direction m")
    case kReverse
    then have "wrep (mg_children m1 ! l) (ess ! l) (step_back (ess ! l) (cnt es (ess ! l) (Suc i)))"
      using a l by (simp add: m1_def at_entry_def positions_def)
    then show ?thesis using cnt_not_at [OF i others [OF l]] by simp
  next
    case kForward
    obtain p where "wrep (mg_children m ! l) (ess ! l) p" using at_entry_anywhere [OF a] l(1) by (auto simp: anywhere_def)
    from before_key_rep [OF M i l(1) this] show ?thesis
      using kForward at_entry_key [OF M a] l k len by (simp add: m1_def move_others_nth)
  qed
  have "positions (move_current (Prev (Wrapped it)) m1) ess (\<lambda>xs. step_back xs (cnt es xs i))"
  proof (rule move_current_positions [OF m1(3,2) k(1)])
    show "wrep (Prev (Wrapped it) (mg_children m1 ! k)) (ess ! k) (step_back (ess ! k) (cnt es (ess ! k) i))"
      using list_iterator.rep_Prev [OF wrapped_list_iterator wk at(1)] m1(4) by (simp add: step_back_def)
  qed (use w1 in simp)
  from reverse_rep [OF M this] i
  have "merge_rep ((FindLargest c (move_current (Prev (Wrapped it)) m1))\<lparr>mg_direction := kReverse\<rparr>) es (if i = 0 then length es else i - 1)"
    by simp
  moreover have "(FindLargest c (move_current (Prev (Wrapped it)) m1))\<lparr>mg_direction := kReverse\<rparr> = mg_Prev it c m"
    using m1(1) by (simp add: mg_Prev_def Let_def m1_def [symmetric] move_current_def FindLargest_def)
  ultimately show ?thesis by simp
qed

lemma merge_repE:
  assumes "merge_rep m es i"
  obtains ess where "merges c ok ess es" "anywhere m ess" "i < length es \<longrightarrow> at_entry m ess es i" "i \<le> length es"
    "mg_current m \<noteq> None \<longleftrightarrow> i < length es"
  using assms unfolding merge_rep_def by (fastforce simp: at_entry_def dest: at_entry_anywhere)

lemma mg_status_rep: "anywhere m ess \<Longrightarrow> mg_status it m = Status_OK"
proof -
  assume a: "anywhere m ess"
  have "istatus (Wrapped it) w = Status_OK" if "w \<in> set (mg_children m)" for w
    using a that list_iterator.rep_status [OF wrapped_list_iterator] by (auto simp: anywhere_def in_set_conv_nth)
  then have "\<forall>w\<in>set (mg_children m). istatus (Wrapped it) w = Status_OK" by blast
  moreover have "\<forall>w\<in>set ws. istatus (Wrapped it) w = Status_OK \<Longrightarrow> mg_status_loop it Status_OK ws = Status_OK" for ws
    by (induction ws) (simp_all add: ok_def Status_OK_def)
  ultimately show ?thesis by (simp add: mg_status_def)
qed

lemma merging_list_iterator: "list_iterator (Merging it c) c ok merge_rep"
proof
  fix m es i target
  assume r: "merge_rep m es i"
  then obtain ess where M: "merges c ok ess es" and any: "anywhere m ess" and at: "i < length es \<longrightarrow> at_entry m ess es i"
    and i: "i \<le> length es" "mg_current m \<noteq> None \<longleftrightarrow> i < length es" by (rule merge_repE)
  show "i \<le> length es" by (rule i)
  show "Valid (Merging it c) m \<longleftrightarrow> i < length es" using i(2) by (simp add: Merging_def)
  show "istatus (Merging it c) m = Status_OK" using mg_status_rep [OF any] by (simp add: Merging_def)
  have "positions (mg_map (SeekToFirst (Wrapped it)) m) ess (\<lambda>xs. cnt es xs 0)"
    using list_iterator.rep_SeekToFirst [OF wrapped_list_iterator] by (intro mg_map_positions [OF any]) simp
  from forward_rep [OF M this] show "merge_rep (SeekToFirst (Merging it c) m) es 0" by (simp add: Merging_def mg_SeekToFirst_def)
  have "positions (mg_map (SeekToLast (Wrapped it)) m) ess (\<lambda>xs. step_back xs (cnt es xs (length es)))"
  proof (rule mg_map_positions [OF any])
    fix w k p assume k: "k < length ess" "wrep w (ess ! k) p"
    have "step_back (ess ! k) (cnt es (ess ! k) (length es)) = length (ess ! k) - 1"
      using cnt_all [of "ess ! k" es] merges_sub [OF M k(1)] by (simp add: step_back_def)
    then show "wrep (SeekToLast (Wrapped it) w) (ess ! k) (step_back (ess ! k) (cnt es (ess ! k) (length es)))"
      using list_iterator.rep_SeekToLast [OF wrapped_list_iterator k(2)] by simp
  qed
  from reverse_rep [OF M this]
  have "merge_rep (mg_SeekToLast it c m) es (if length es = 0 then length es else length es - 1)" by (simp add: mg_SeekToLast_def)
  then show "merge_rep (SeekToLast (Merging it c) m) es (length es - 1)" by (cases es) (simp_all add: Merging_def)
  show "merge_rep (Seek (Merging it c) m target) es (lower_bound c es target)" if "ok target"
  proof -
    have "positions (mg_map (\<lambda>w. Seek (Wrapped it) w target) m) ess (\<lambda>xs. cnt es xs (lower_bound c es target))"
      using wrapped_Seek [OF M _ _ that] by (intro mg_map_positions [OF any]) simp
    from forward_rep [OF M this lower_bound_le] show ?thesis by (simp add: Merging_def mg_Seek_def)
  qed
  assume lt: "i < length es"
  note a = at [rule_format, OF lt]
  show "ikey (Merging it c) m = fst (es ! i)" "ivalue (Merging it c) m = snd (es ! i)"
    using at_entry_key [OF M a] by (simp_all add: Merging_def)
  show "merge_rep (Next (Merging it c) m) es (Suc i)" using mg_Next_rep [OF M a] by (simp add: Merging_def)
  show "merge_rep (Prev (Merging it c) m) es (if i = 0 then length es else i - 1)"
    using mg_Prev_rep [OF M a] by (simp add: Merging_def)
qed

lemma new_merge_rep:
  assumes "merges c ok ess es" "length children = length ess" "\<And>k. k < length ess \<Longrightarrow> \<exists>p. rep (children ! k) (ess ! k) p"
  shows "merge_rep (new_MergingIterator it children) es (length es)"
proof -
  have "anywhere (new_MergingIterator it children) ess"
    using assms(2,3) wrapped_Set [of rep] by (fastforce simp: anywhere_def new_MergingIterator_def)
  then show ?thesis unfolding merge_rep_def using assms(1) by (auto simp: new_MergingIterator_def)
qed

end

section \<open>Properties\<close>


definition sample_blocks :: "(Status + BlockIter) list" where
  "sample_blocks =
     [Block_NewIterator (new_Block (fst (bb_Finish (build 2 [([1, 2, 3], [9]), ([2], [5])])))) BytewiseComparator,
      Block_NewIterator (new_Block (fst (bb_Finish (build 1 [([1, 2, 4], []), ([1, 3], [7, 7])])))) BytewiseComparator]"


end
