(* ===== verification/TwoLevels.thy ===== *)
theory TwoLevels
  imports Blocks
begin

text \<open>
  \<open>table/two_level_iterator.cc\<close>: the iterator over an index whose values are handles of blocks. The block
  function, which opens the iterator of a handle, is a parameter (for a table it reads a block of the file).
  The skipping loops run as long as the index yields empty blocks: a call that does not return
  leaves no state.
\<close>

section \<open>Definitions\<close>

record ('a, 'b) TwoLevelIterator =
  tl_status :: Status
  tl_index :: "'a IteratorWrapper"
  tl_data :: "'b IteratorWrapper"
  tl_handle :: bytes

text \<open>The methods of the two inner iterators and the block function.\<close>

record ('a, 'b) two_level =
  index_ops :: "'a Iterator"
  data_ops :: "'b Iterator"
  block_function :: "bytes \<Rightarrow> 'b"

definition new_TwoLevelIterator :: "('a, 'b) two_level \<Rightarrow> 'a \<Rightarrow> ('a, 'b) TwoLevelIterator" where
  "new_TwoLevelIterator T index_iter =
     \<lparr>tl_status = Status_OK, tl_index = w_Set (index_ops T) null_Wrapper (Some index_iter), tl_data = null_Wrapper, tl_handle = []\<rparr>"

definition SaveError :: "('a, 'b) TwoLevelIterator \<Rightarrow> Status \<Rightarrow> ('a, 'b) TwoLevelIterator" where
  "SaveError t s = (if ok (tl_status t) \<and> \<not> ok s then t\<lparr>tl_status := s\<rparr> else t)"

definition data_null :: "('a, 'b) TwoLevelIterator \<Rightarrow> bool" where
  "data_null t \<longleftrightarrow> w_iter (tl_data t) = None"

definition SetDataIterator :: "('a, 'b) two_level \<Rightarrow> ('a, 'b) TwoLevelIterator \<Rightarrow> 'b option \<Rightarrow> ('a, 'b) TwoLevelIterator" where
  "SetDataIterator T t data_iter =
     (let t = (if \<not> data_null t then SaveError t (istatus (Wrapped (data_ops T)) (tl_data t)) else t)
      in t\<lparr>tl_data := w_Set (data_ops T) (tl_data t) data_iter\<rparr>)"

definition InitDataBlock :: "('a, 'b) two_level \<Rightarrow> ('a, 'b) TwoLevelIterator \<Rightarrow> ('a, 'b) TwoLevelIterator" where
  "InitDataBlock T t =
     (if \<not> Valid (Wrapped (index_ops T)) (tl_index t) then SetDataIterator T t None
      else let handle = ivalue (Wrapped (index_ops T)) (tl_index t)
           in if \<not> data_null t \<and> Slice_compare handle (tl_handle t) = 0 then t
              else let iter = block_function T handle;
                       t = t\<lparr>tl_handle := handle\<rparr>
                   in SetDataIterator T t (Some iter))"

text \<open>\<open>if (data_iter_.iter() != nullptr) data_iter_.f()\<close>\<close>

definition on_data :: "('b IteratorWrapper \<Rightarrow> 'b IteratorWrapper) \<Rightarrow> ('a, 'b) TwoLevelIterator \<Rightarrow> ('a, 'b) TwoLevelIterator" where
  "on_data f t = (if data_null t then t else t\<lparr>tl_data := f (tl_data t)\<rparr>)"

definition on_index :: "('a IteratorWrapper \<Rightarrow> 'a IteratorWrapper) \<Rightarrow> ('a, 'b) TwoLevelIterator \<Rightarrow> ('a, 'b) TwoLevelIterator" where
  "on_index f t = t\<lparr>tl_index := f (tl_index t)\<rparr>"

partial_function (option) SkipEmptyDataBlocksForward ::
  "('a, 'b) two_level \<Rightarrow> ('a, 'b) TwoLevelIterator \<Rightarrow> ('a, 'b) TwoLevelIterator option" where
  "SkipEmptyDataBlocksForward T t =
     (if data_null t \<or> \<not> Valid (Wrapped (data_ops T)) (tl_data t) then
        (if \<not> Valid (Wrapped (index_ops T)) (tl_index t) then Some (SetDataIterator T t None)
         else SkipEmptyDataBlocksForward T
           (on_data (SeekToFirst (Wrapped (data_ops T))) (InitDataBlock T (on_index (Next (Wrapped (index_ops T))) t))))
      else Some t)"

partial_function (option) SkipEmptyDataBlocksBackward ::
  "('a, 'b) two_level \<Rightarrow> ('a, 'b) TwoLevelIterator \<Rightarrow> ('a, 'b) TwoLevelIterator option" where
  "SkipEmptyDataBlocksBackward T t =
     (if data_null t \<or> \<not> Valid (Wrapped (data_ops T)) (tl_data t) then
        (if \<not> Valid (Wrapped (index_ops T)) (tl_index t) then Some (SetDataIterator T t None)
         else SkipEmptyDataBlocksBackward T
           (on_data (SeekToLast (Wrapped (data_ops T))) (InitDataBlock T (on_index (Prev (Wrapped (index_ops T))) t))))
      else Some t)"

definition tl_Seek :: "('a, 'b) two_level \<Rightarrow> ('a, 'b) TwoLevelIterator \<Rightarrow> bytes \<Rightarrow> ('a, 'b) TwoLevelIterator option" where
  "tl_Seek T t target =
     SkipEmptyDataBlocksForward T (on_data (\<lambda>w. Seek (Wrapped (data_ops T)) w target)
       (InitDataBlock T (on_index (\<lambda>w. Seek (Wrapped (index_ops T)) w target) t)))"

definition tl_SeekToFirst :: "('a, 'b) two_level \<Rightarrow> ('a, 'b) TwoLevelIterator \<Rightarrow> ('a, 'b) TwoLevelIterator option" where
  "tl_SeekToFirst T t =
     SkipEmptyDataBlocksForward T (on_data (SeekToFirst (Wrapped (data_ops T)))
       (InitDataBlock T (on_index (SeekToFirst (Wrapped (index_ops T))) t)))"

definition tl_SeekToLast :: "('a, 'b) two_level \<Rightarrow> ('a, 'b) TwoLevelIterator \<Rightarrow> ('a, 'b) TwoLevelIterator option" where
  "tl_SeekToLast T t =
     SkipEmptyDataBlocksBackward T (on_data (SeekToLast (Wrapped (data_ops T)))
       (InitDataBlock T (on_index (SeekToLast (Wrapped (index_ops T))) t)))"

definition tl_Next :: "('a, 'b) two_level \<Rightarrow> ('a, 'b) TwoLevelIterator \<Rightarrow> ('a, 'b) TwoLevelIterator option" where
  "tl_Next T t = SkipEmptyDataBlocksForward T (t\<lparr>tl_data := Next (Wrapped (data_ops T)) (tl_data t)\<rparr>)"

definition tl_Prev :: "('a, 'b) two_level \<Rightarrow> ('a, 'b) TwoLevelIterator \<Rightarrow> ('a, 'b) TwoLevelIterator option" where
  "tl_Prev T t = SkipEmptyDataBlocksBackward T (t\<lparr>tl_data := Prev (Wrapped (data_ops T)) (tl_data t)\<rparr>)"

definition tl_get_status :: "('a, 'b) two_level \<Rightarrow> ('a, 'b) TwoLevelIterator \<Rightarrow> Status" where
  "tl_get_status T t =
     (if \<not> ok (istatus (Wrapped (index_ops T)) (tl_index t)) then istatus (Wrapped (index_ops T)) (tl_index t)
      else if \<not> data_null t \<and> \<not> ok (istatus (Wrapped (data_ops T)) (tl_data t)) then istatus (Wrapped (data_ops T)) (tl_data t)
      else tl_status t)"

text \<open>The iterator; the state after a call that has not returned is no state.\<close>

definition TwoLevel :: "('a, 'b) two_level \<Rightarrow> ('a, 'b) TwoLevelIterator option Iterator" where
  "TwoLevel T =
     \<lparr>Valid = (\<lambda>s. case s of None \<Rightarrow> False | Some t \<Rightarrow> Valid (Wrapped (data_ops T)) (tl_data t)),
      SeekToFirst = (\<lambda>s. Option.bind s (tl_SeekToFirst T)), SeekToLast = (\<lambda>s. Option.bind s (tl_SeekToLast T)),
      Seek = (\<lambda>s target. Option.bind s (\<lambda>t. tl_Seek T t target)),
      Next = (\<lambda>s. Option.bind s (tl_Next T)), Prev = (\<lambda>s. Option.bind s (tl_Prev T)),
      ikey = (\<lambda>s. ikey (Wrapped (data_ops T)) (tl_data (the s))), ivalue = (\<lambda>s. ivalue (Wrapped (data_ops T)) (tl_data (the s))),
      istatus = (\<lambda>s. tl_get_status T (the s))\<rparr>"

section \<open>The two-level iterator keeps the iterator contract\<close>

text \<open>
  An index: its values are handles of blocks, its keys separate the blocks; the entries are those of the blocks in turn.
\<close>

definition index_of :: "comparator \<Rightarrow> (bytes \<Rightarrow> bool) \<Rightarrow> (bytes \<Rightarrow> (bytes \<times> bytes) list) \<Rightarrow> (bytes \<times> bytes) list \<Rightarrow> (bytes \<times> bytes) list \<Rightarrow> bool" where
  "index_of c okk blk idx es \<longleftrightarrow>
     es = concat (map (\<lambda>e. blk (snd e)) idx) \<and> sorted_entries c okk idx \<and> sorted_entries c okk es \<and>
     (\<forall>k < length idx. (\<forall>e\<in>set (blk (snd (idx ! k))). \<not> Compare c (fst (idx ! k)) (fst e) < 0) \<and>
        (\<forall>l < length idx. k < l \<longrightarrow> (\<forall>e\<in>set (blk (snd (idx ! l))). Compare c (fst (idx ! k)) (fst e) < 0)))"

lemma index_of_entries:
  assumes "index_of c okk blk idx es"
  shows "es = concat (map (\<lambda>e. blk (snd e)) idx)" "sorted_entries c okk idx" "comparator_contract c okk"
    "l < length idx \<Longrightarrow> e \<in> set (blk (snd (idx ! l))) \<Longrightarrow> okk (fst e)" "l < length idx \<Longrightarrow> okk (fst (idx ! l))"
proof -
  have es: "es = concat (map (\<lambda>e. blk (snd e)) idx)" and s: "sorted_entries c okk idx" "sorted_entries c okk es"
    using assms unfolding index_of_def by blast+
  show "es = concat (map (\<lambda>e. blk (snd e)) idx)" "sorted_entries c okk idx" "comparator_contract c okk"
    using es s by (auto simp: sorted_entries_def)
  have "e \<in> set es" if "l < length idx" "e \<in> set (blk (snd (idx ! l)))" using that unfolding es by force
  then show "l < length idx \<Longrightarrow> e \<in> set (blk (snd (idx ! l))) \<Longrightarrow> okk (fst e)" "l < length idx \<Longrightarrow> okk (fst (idx ! l))"
    using s by (simp_all add: sorted_entries_def)
qed

text \<open>Blocks before the one the index finds lie below the target, later ones do not.\<close>

lemma blocks_below:
  assumes x: "index_of c okk blk idx es" and t: "okk target" and l: "l < lower_bound c idx target" "e \<in> set (blk (snd (idx ! l)))"
  shows "Compare c (fst e) target < 0"
proof -
  note X = index_of_entries [OF x]
  have n: "l < length idx" using l(1) lower_bound_le [of c idx target] by simp
  then have "\<not> Compare c (fst (idx ! l)) (fst e) < 0" using x l(2) by (simp add: index_of_def)
  then have "Compare c (fst e) (fst (idx ! l)) \<le> 0"
    using comparator_contract.Compare_swap [OF X(3) X(5) [OF n] X(4) [OF n l(2)]] by simp
  then show ?thesis
    using lower_bound_less [OF l(1)] comparator_contract.Compare_trans [OF X(3) X(4) [OF n l(2)] X(5) [OF n] t]
      comparator_contract.Compare_zero [OF X(3) X(4) [OF n l(2)] X(5) [OF n]] by fastforce
qed

lemma blocks_above:
  assumes x: "index_of c okk blk idx es" and t: "okk target"
    and l: "lower_bound c idx target < l" "l < length idx" "e \<in> set (blk (snd (idx ! l)))"
  shows "\<not> Compare c (fst e) target < 0"
proof
  let ?k = "lower_bound c idx target"
  note X = index_of_entries [OF x]
  assume "Compare c (fst e) target < 0"
  moreover have "Compare c (fst (idx ! ?k)) (fst e) < 0" using x l by (simp add: index_of_def)
  ultimately have "Compare c (fst (idx ! ?k)) target < 0"
    using comparator_contract.Compare_trans [OF X(3) X(5) X(4) [OF l(2,3)] t] l by simp
  then show False using lower_bound_ge [of c idx target] l by simp
qed

text \<open>The entry sought is in the block the index finds, or is the first of a later block.\<close>

lemma two_level_lower_bound:
  assumes x: "index_of c okk blk idx es" and t: "okk target"
  shows "lower_bound c es target =
    (let k = lower_bound c idx target in
     if k < length idx then part_start (map (\<lambda>e. blk (snd e)) idx) k + lower_bound c (blk (snd (idx ! k))) target else length es)"
proof -
  let ?B = "map (\<lambda>e. blk (snd e)) idx" and ?k = "lower_bound c idx target"
  let ?q = "lower_bound c (blk (snd (idx ! ?k))) target"
  note es = index_of_entries(1) [OF x] and below = blocks_below [OF x t] and above = blocks_above [OF x t]
  show ?thesis
  proof (cases "?k < length idx")
    case False
    have "lower_bound c es target = length es"
    proof (rule lower_bound_unique)
      fix j assume "j < length es"
      then obtain l p where "l < length ?B" "p < length (?B ! l)" "j = part_start ?B l + p"
        using start_split [of j ?B] unfolding es by blast
      then show "Compare c (fst (es ! j)) target < 0"
        using below [of l "blk (snd (idx ! l)) ! p"] False unfolding es by (simp add: nth_start)
    qed simp_all
    then show ?thesis using False by simp
  next
    case True
    have S: "part_start ?B (Suc ?k) = part_start ?B ?k + length (blk (snd (idx ! ?k)))" using start_Suc [of ?k ?B] True by simp
    have q: "?q \<le> length (blk (snd (idx ! ?k)))" by (rule lower_bound_le)
    have "lower_bound c es target = part_start ?B ?k + ?q"
    proof (rule lower_bound_unique)
      show "part_start ?B ?k + ?q \<le> length es"
        using S q start_mono [of "Suc ?k" "length ?B" ?B] start_all [of ?B "length ?B"] True unfolding es by simp
    next
      fix j assume j: "j < part_start ?B ?k + ?q"
      then have "j < length es"
        using S q start_mono [of "Suc ?k" "length ?B" ?B] start_all [of ?B "length ?B"] True unfolding es by simp
      then obtain l p where lp: "l < length ?B" "p < length (?B ! l)" "j = part_start ?B l + p"
        using start_split [of j ?B] unfolding es by blast
      have "l \<le> ?k"
      proof (rule ccontr)
        assume "\<not> l \<le> ?k"
        then have "part_start ?B (Suc ?k) \<le> part_start ?B l" by (intro start_mono) simp
        then show False using S q j lp(3) by linarith
      qed
      moreover have "p < ?q" if "l = ?k" using j lp(3) that by simp
      ultimately show "Compare c (fst (es ! j)) target < 0"
        using below [of l "blk (snd (idx ! l)) ! p"] lp lower_bound_less [of p c "blk (snd (idx ! l))" target] unfolding es
        by (cases "l = ?k") (simp_all add: nth_start)
    next
      assume j: "part_start ?B ?k + ?q < length es"
      then obtain l p where lp: "l < length ?B" "p < length (?B ! l)" "part_start ?B ?k + ?q = part_start ?B l + p"
        using start_split [of _ ?B] unfolding es by blast
      have lk: "?k \<le> l"
      proof (rule ccontr)
        assume "\<not> ?k \<le> l"
        then have "part_start ?B (Suc l) \<le> part_start ?B ?k" by (intro start_mono) simp
        then show False using start_Suc [of l ?B] lp by simp
      qed
      show "\<not> Compare c (fst (es ! (part_start ?B ?k + ?q))) target < 0"
      proof (cases "l = ?k")
        case True
        then show ?thesis using lp lower_bound_ge [of c "blk (snd (idx ! ?k))" target] unfolding es
          by (simp add: nth_start)
      next
        case False
        then show ?thesis using above [of l "blk (snd (idx ! l)) ! p"] lk lp unfolding es
          by (simp add: lp(3) nth_start)
      qed
    qed
    then show ?thesis using True by (simp add: Let_def)
  qed
qed

locale two_levels =
  index: list_iterator "index_ops T" c ok irep + data: list_iterator "data_ops T" c ok drep
  for T :: "('a, 'b) two_level" and c :: comparator and ok :: "bytes \<Rightarrow> bool"
    and irep :: "'a \<Rightarrow> (bytes \<times> bytes) list \<Rightarrow> nat \<Rightarrow> bool" and drep :: "'b \<Rightarrow> (bytes \<times> bytes) list \<Rightarrow> nat \<Rightarrow> bool"
begin

abbreviation iw :: "'a IteratorWrapper \<Rightarrow> (bytes \<times> bytes) list \<Rightarrow> nat \<Rightarrow> bool" where
  "iw \<equiv> wrapped_rep (index_ops T) irep"

abbreviation dw :: "'b IteratorWrapper \<Rightarrow> (bytes \<times> bytes) list \<Rightarrow> nat \<Rightarrow> bool" where
  "dw \<equiv> wrapped_rep (data_ops T) drep"

lemmas iw_laws = index.wrapped_list_iterator
lemmas dw_laws = data.wrapped_list_iterator

text \<open>Every handle of the index opens.\<close>

definition opens :: "(bytes \<Rightarrow> (bytes \<times> bytes) list) \<Rightarrow> (bytes \<times> bytes) list \<Rightarrow> bool" where
  "opens blk idx \<longleftrightarrow> (\<forall>e\<in>set idx. \<exists>q. drep (block_function T (snd e)) (blk (snd e)) q)"

text \<open>The index stands at \<open>k\<close>; the data iterator is null or of the block of its handle.\<close>

definition at_index :: "('a, 'b) TwoLevelIterator \<Rightarrow> (bytes \<Rightarrow> (bytes \<times> bytes) list) \<Rightarrow> (bytes \<times> bytes) list \<Rightarrow> nat \<Rightarrow> bool" where
  "at_index t blk idx k \<longleftrightarrow>
     tl_status t = Status_OK \<and> iw (tl_index t) idx k \<and> (data_null t \<or> (\<exists>q. dw (tl_data t) (blk (tl_handle t)) q))"

definition at_block :: "('a, 'b) TwoLevelIterator \<Rightarrow> (bytes \<Rightarrow> (bytes \<times> bytes) list) \<Rightarrow> (bytes \<times> bytes) list \<Rightarrow> nat \<Rightarrow> nat \<Rightarrow> bool" where
  "at_block t blk idx k q \<longleftrightarrow>
     tl_status t = Status_OK \<and> iw (tl_index t) idx k \<and> k < length idx \<and> \<not> data_null t \<and> tl_handle t = snd (idx ! k) \<and>
     dw (tl_data t) (blk (snd (idx ! k))) q"

lemma at_block_index: "at_block t blk idx k q \<Longrightarrow> at_index t blk idx k"
  by (auto simp: at_block_def at_index_def)

lemma SetData:
  assumes "at_index t blk idx k"
  shows "tl_status (SetDataIterator T t d) = Status_OK" "tl_index (SetDataIterator T t d) = tl_index t"
    "tl_handle (SetDataIterator T t d) = tl_handle t" "tl_data (SetDataIterator T t d) = w_Set (data_ops T) (tl_data t) d"
proof -
  have "istatus (Wrapped (data_ops T)) (tl_data t) = Status_OK" if "\<not> data_null t"
    using assms that list_iterator.rep_status [OF dw_laws] by (auto simp: at_index_def)
  then have "SaveError t (istatus (Wrapped (data_ops T)) (tl_data t)) = t" if "\<not> data_null t"
    using that by (simp add: SaveError_def ok_def Status_OK_def)
  then show "tl_status (SetDataIterator T t d) = Status_OK" "tl_index (SetDataIterator T t d) = tl_index t"
    "tl_handle (SetDataIterator T t d) = tl_handle t" "tl_data (SetDataIterator T t d) = w_Set (data_ops T) (tl_data t) d"
    using assms by (simp_all add: SetDataIterator_def Let_def at_index_def)
qed

lemma SetData_null:
  assumes "at_index t blk idx k"
  shows "at_index (SetDataIterator T t None) blk idx k \<and> data_null (SetDataIterator T t None)"
  using SetData [OF assms, of None] assms by (simp add: at_index_def data_null_def w_Set_def)

lemma InitData_end:
  assumes "at_index t blk idx k" "\<not> k < length idx"
  shows "at_index (InitDataBlock T t) blk idx k \<and> data_null (InitDataBlock T t)"
proof -
  have "\<not> Valid (Wrapped (index_ops T)) (tl_index t)"
    using assms list_iterator.rep_Valid [OF iw_laws] by (auto simp: at_index_def)
  then show ?thesis using SetData_null [OF assms(1)] by (simp add: InitDataBlock_def)
qed

lemma InitData_block:
  assumes a: "at_index t blk idx k" and k: "k < length idx" and o: "opens blk idx"
  shows "\<exists>q. at_block (InitDataBlock T t) blk idx k q"
proof -
  have i: "iw (tl_index t) idx k" using a by (simp add: at_index_def)
  have v: "Valid (Wrapped (index_ops T)) (tl_index t)" "ivalue (Wrapped (index_ops T)) (tl_index t) = snd (idx ! k)"
    using list_iterator.rep_Valid [OF iw_laws i] list_iterator.rep_value [OF iw_laws i k] k by simp_all
  show ?thesis
  proof (cases "\<not> data_null t \<and> Slice_compare (snd (idx ! k)) (tl_handle t) = 0")
    case True
    then have "tl_handle t = snd (idx ! k)" by (simp add: Slice_compare_zero)
    then show ?thesis using True a k v by (auto simp: InitDataBlock_def at_block_def at_index_def)
  next
    case False
    let ?t = "t\<lparr>tl_handle := snd (idx ! k)\<rparr>" and ?d = "block_function T (snd (idx ! k))"
    have e: "InitDataBlock T t = SetDataIterator T ?t (Some ?d)" using False v by (auto simp: InitDataBlock_def Let_def)
    have st: "istatus (Wrapped (data_ops T)) (tl_data t) = Status_OK" if "\<not> data_null t"
      using a that list_iterator.rep_status [OF dw_laws] by (auto simp: at_index_def)
    have "SetDataIterator T ?t (Some ?d) = ?t\<lparr>tl_data := w_Set (data_ops T) (tl_data t) (Some ?d)\<rparr>"
      using st a by (auto simp: SetDataIterator_def SaveError_def data_null_def ok_def Status_OK_def at_index_def Let_def)
    moreover obtain q where "drep ?d (blk (snd (idx ! k))) q" using o k by (fastforce simp: opens_def)
    ultimately show ?thesis
      using a k wrapped_Set [of drep ?d "blk (snd (idx ! k))" q "data_ops T"] unfolding e
      by (intro exI [of _ q]) (auto simp: at_block_def at_index_def data_null_def w_Set_def w_Update_def Let_def)
  qed
qed

text \<open>The position of the whole: an entry of a block, or past the end with no data iterator.\<close>

definition pos :: "(bytes \<Rightarrow> (bytes \<times> bytes) list) \<Rightarrow> (bytes \<times> bytes) list \<Rightarrow> ('a, 'b) TwoLevelIterator \<Rightarrow> nat \<Rightarrow> bool" where
  "pos blk idx t i \<longleftrightarrow>
     (\<exists>k q. at_block t blk idx k q \<and> q < length (blk (snd (idx ! k))) \<and> i = part_start (map (\<lambda>e. blk (snd e)) idx) k + q) \<or>
     (data_null t \<and> \<not> w_valid (tl_data t) \<and> (\<exists>k. at_index t blk idx k) \<and> i = length (concat (map (\<lambda>e. blk (snd e)) idx)))"

lemma on_index_at: "at_index t blk idx k \<Longrightarrow> iw (f (tl_index t)) idx l \<Longrightarrow> at_index (on_index f t) blk idx l"
  by (auto simp: at_index_def on_index_def data_null_def)

lemma on_data_at:
  "at_block t blk idx k q \<Longrightarrow> dw (f (tl_data t)) (blk (snd (idx ! k))) p \<Longrightarrow> at_block (on_data f t) blk idx k p"
  by (auto simp: at_block_def on_data_def data_null_def wrapped_rep_def)

lemma at_block_laws:
  assumes "at_block t blk idx k q"
  shows "iw (tl_index t) idx k" "k < length idx" "dw (tl_data t) (blk (snd (idx ! k))) q" "\<not> data_null t"
    "q \<le> length (blk (snd (idx ! k)))" "w_valid (tl_data t) \<longleftrightarrow> q < length (blk (snd (idx ! k)))"
proof -
  show d: "iw (tl_index t) idx k" "k < length idx" "dw (tl_data t) (blk (snd (idx ! k))) q" "\<not> data_null t"
    using assms by (auto simp: at_block_def)
  show "q \<le> length (blk (snd (idx ! k)))" "w_valid (tl_data t) \<longleftrightarrow> q < length (blk (snd (idx ! k)))"
    using list_iterator.rep_le [OF dw_laws d(3)] list_iterator.rep_Valid [OF dw_laws d(3)] by (simp_all add: Wrapped_def)
qed

lemma index_valid: "at_index t blk idx k \<Longrightarrow> w_valid (tl_index t) \<longleftrightarrow> k < length idx"
  using list_iterator.rep_Valid [OF iw_laws] by (auto simp: at_index_def Wrapped_def)

lemma end_pos:
  assumes "at_index t blk idx k"
  shows "pos blk idx (SetDataIterator T t None) (length (concat (map (\<lambda>e. blk (snd e)) idx)))"
  using SetData_null [OF assms] SetData(4) [OF assms, of None] by (auto simp: pos_def w_Set_def Let_def)

lemma skip_forward_end:
  assumes "at_index t blk idx k" "data_null t" "\<not> k < length idx"
  shows "\<exists>t'. SkipEmptyDataBlocksForward T t = Some t' \<and> pos blk idx t' (length (concat (map (\<lambda>e. blk (snd e)) idx)))"
  using end_pos [OF assms(1)] index_valid [OF assms(1)] assms(2,3)
  by (subst SkipEmptyDataBlocksForward.simps) (simp add: Wrapped_def)

lemma skip_backward_end:
  assumes "at_index t blk idx k" "data_null t" "\<not> k < length idx"
  shows "\<exists>t'. SkipEmptyDataBlocksBackward T t = Some t' \<and> pos blk idx t' (length (concat (map (\<lambda>e. blk (snd e)) idx)))"
  using end_pos [OF assms(1)] index_valid [OF assms(1)] assms(2,3)
  by (subst SkipEmptyDataBlocksBackward.simps) (simp add: Wrapped_def)

text \<open>A data iterator on an entry stops both loops.\<close>

lemma skip_stop:
  assumes a: "at_block t blk idx k q" and q: "q < length (blk (snd (idx ! k)))"
  shows "SkipEmptyDataBlocksForward T t = Some t" "SkipEmptyDataBlocksBackward T t = Some t"
    "pos blk idx t (part_start (map (\<lambda>e. blk (snd e)) idx) k + q)"
  using at_block_laws [OF a] q a
  by (auto simp: SkipEmptyDataBlocksForward.simps [of T t] SkipEmptyDataBlocksBackward.simps [of T t] Wrapped_def pos_def)

text \<open>Opening the block at a position of the index and moving in it.\<close>

lemma enter:
  assumes a: "at_index t blk idx k" and o: "opens blk idx"
    and f: "\<And>w q. k < length idx \<Longrightarrow> dw w (blk (snd (idx ! k))) q \<Longrightarrow> dw (f w) (blk (snd (idx ! k))) p"
  shows "if k < length idx then at_block (on_data f (InitDataBlock T t)) blk idx k p
    else at_index (on_data f (InitDataBlock T t)) blk idx k \<and> data_null (on_data f (InitDataBlock T t))"
proof (cases "k < length idx")
  case True
  with InitData_block [OF a _ o] obtain q where q: "at_block (InitDataBlock T t) blk idx k q" by blast
  show ?thesis using on_data_at [OF q, of f p] f [OF True at_block_laws(3) [OF q]] True by simp
next
  case False
  then show ?thesis using InitData_end [OF a] by (simp add: on_data_def)
qed

lemma skip_forward:
  assumes o: "opens blk idx"
  shows "at_block t blk idx k q \<Longrightarrow>
    \<exists>t'. SkipEmptyDataBlocksForward T t = Some t' \<and> pos blk idx t' (part_start (map (\<lambda>e. blk (snd e)) idx) k + q)"
proof (induction "length idx - k" arbitrary: t k q rule: less_induct)
  case less
  note a = less.prems and l = at_block_laws [OF less.prems]
  show ?case
  proof (cases "q < length (blk (snd (idx ! k)))")
    case True
    then show ?thesis using skip_stop [OF a True] by blast
  next
    case False
    let ?t = "on_data (SeekToFirst (Wrapped (data_ops T))) (InitDataBlock T (on_index (Next (Wrapped (index_ops T))) t))"
    have s: "SkipEmptyDataBlocksForward T t = SkipEmptyDataBlocksForward T ?t"
      using False l index_valid [OF at_block_index [OF a]] by (subst SkipEmptyDataBlocksForward.simps) (simp add: Wrapped_def)
    have e: "part_start (map (\<lambda>e. blk (snd e)) idx) k + q = part_start (map (\<lambda>e. blk (snd e)) idx) (Suc k)"
      using start_Suc [of k "map (\<lambda>e. blk (snd e)) idx"] False l by simp
    have i: "at_index (on_index (Next (Wrapped (index_ops T))) t) blk idx (Suc k)"
      using on_index_at [OF at_block_index [OF a], of "Next (Wrapped (index_ops T))" "Suc k"] list_iterator.rep_Next [OF iw_laws l(1,2)] by simp
    note n = enter [OF i o, of "SeekToFirst (Wrapped (data_ops T))" 0, OF list_iterator.rep_SeekToFirst [OF dw_laws]]
    show ?thesis
    proof (cases "Suc k < length idx")
      case True
      then show ?thesis using less.hyps [of "Suc k" ?t 0] n l(2) unfolding s e by simp
    next
      case F: False
      then show ?thesis using skip_forward_end [of ?t blk idx "Suc k"] n start_all [of "map (\<lambda>e. blk (snd e)) idx" "Suc k"]
        unfolding s e by simp
    qed
  qed
qed

lemma skip_backward:
  assumes o: "opens blk idx"
  shows "at_block t blk idx k q \<Longrightarrow>
    \<exists>t'. SkipEmptyDataBlocksBackward T t = Some t' \<and> pos blk idx t'
      (let s = part_start (map (\<lambda>e. blk (snd e)) idx) k in
       if q < length (blk (snd (idx ! k))) then s + q else if s = 0 then length (concat (map (\<lambda>e. blk (snd e)) idx)) else s - 1)"
proof (induction k arbitrary: t q)
  case (0 t q)
  note a = 0 and l = at_block_laws [OF 0]
  let ?t = "on_data (SeekToLast (Wrapped (data_ops T))) (InitDataBlock T (on_index (Prev (Wrapped (index_ops T))) t))"
  have s: "SkipEmptyDataBlocksBackward T t = SkipEmptyDataBlocksBackward T ?t" if "\<not> q < length (blk (snd (idx ! 0)))"
    using that l index_valid [OF at_block_index [OF a]] by (subst SkipEmptyDataBlocksBackward.simps) (simp add: Wrapped_def)
  have i: "at_index (on_index (Prev (Wrapped (index_ops T))) t) blk idx (length idx)"
    using on_index_at [OF at_block_index [OF a], of "Prev (Wrapped (index_ops T))"] list_iterator.rep_Prev [OF iw_laws l(1,2)] by simp
  note n = enter [OF i o, of "SeekToLast (Wrapped (data_ops T))"]
  show ?case using skip_stop [OF a] s skip_backward_end [of ?t blk idx "length idx"] n by (auto simp: Let_def)
next
  case (Suc k t q)
  note a = Suc.prems and l = at_block_laws [OF Suc.prems]
  show ?case
  proof (cases "q < length (blk (snd (idx ! Suc k)))")
    case True
    then show ?thesis using skip_stop [OF a True] by (simp add: Let_def)
  next
    case False
    let ?t = "on_data (SeekToLast (Wrapped (data_ops T))) (InitDataBlock T (on_index (Prev (Wrapped (index_ops T))) t))"
    have s: "SkipEmptyDataBlocksBackward T t = SkipEmptyDataBlocksBackward T ?t"
      using False l index_valid [OF at_block_index [OF a]] by (subst SkipEmptyDataBlocksBackward.simps) (simp add: Wrapped_def)
    have i: "at_index (on_index (Prev (Wrapped (index_ops T))) t) blk idx k"
      using on_index_at [OF at_block_index [OF a], of "Prev (Wrapped (index_ops T))"] list_iterator.rep_Prev [OF iw_laws l(1,2)] by simp
    note n = enter [OF i o, of "SeekToLast (Wrapped (data_ops T))", OF list_iterator.rep_SeekToLast [OF dw_laws]]
    have "part_start (map (\<lambda>e. blk (snd e)) idx) (Suc k) = part_start (map (\<lambda>e. blk (snd e)) idx) k + length (blk (snd (idx ! k)))"
      using start_Suc [of k "map (\<lambda>e. blk (snd e)) idx"] l(2) by simp
    then show ?thesis
      using Suc.IH [of ?t "length (blk (snd (idx ! k))) - 1"] n l(2) False unfolding s
      by (cases "length (blk (snd (idx ! k)))") (simp_all add: Let_def)
  qed
qed

definition tl_rep ::
  "('a, 'b) TwoLevelIterator option \<Rightarrow> (bytes \<times> bytes) list \<Rightarrow> nat \<Rightarrow> bool" where
  "tl_rep s es i \<longleftrightarrow> (\<exists>t blk idx. s = Some t \<and> index_of c ok blk idx es \<and> opens blk idx \<and> pos blk idx t i)"

lemma tl_repI: "(\<exists>t'. s = Some t' \<and> pos blk idx t' i) \<Longrightarrow> index_of c ok blk idx es \<Longrightarrow> opens blk idx \<Longrightarrow> tl_rep s es i"
  by (auto simp: tl_rep_def)

lemma pos_index: "pos blk idx t i \<Longrightarrow> \<exists>k. at_index t blk idx k"
  unfolding pos_def using at_block_index by blast

text \<open>Each positioning call moves the index, opens the block found and moves in it.\<close>

lemma tl_SeekToFirst_pos:
  assumes a: "at_index t blk idx k" and o: "opens blk idx"
  shows "\<exists>t'. tl_SeekToFirst T t = Some t' \<and> pos blk idx t' 0"
proof -
  let ?t = "on_data (SeekToFirst (Wrapped (data_ops T))) (InitDataBlock T (on_index (SeekToFirst (Wrapped (index_ops T))) t))"
  have "iw (tl_index t) idx k" using a by (simp add: at_index_def)
  then have i: "at_index (on_index (SeekToFirst (Wrapped (index_ops T))) t) blk idx 0"
    using on_index_at [OF a, of "SeekToFirst (Wrapped (index_ops T))" 0] list_iterator.rep_SeekToFirst [OF iw_laws] by simp
  note n = enter [OF i o, of "SeekToFirst (Wrapped (data_ops T))" 0, OF list_iterator.rep_SeekToFirst [OF dw_laws]]
  show ?thesis
    using skip_forward [OF o, of ?t 0 0] skip_forward_end [of ?t blk idx 0] n
    by (cases "0 < length idx") (simp_all add: tl_SeekToFirst_def)
qed

lemma tl_SeekToLast_pos:
  assumes a: "at_index t blk idx k" and o: "opens blk idx"
  shows "\<exists>t'. tl_SeekToLast T t = Some t' \<and> pos blk idx t' (length (concat (map (\<lambda>e. blk (snd e)) idx)) - 1)"
proof -
  let ?B = "map (\<lambda>e. blk (snd e)) idx" and ?k = "length idx - 1"
  let ?t = "on_data (SeekToLast (Wrapped (data_ops T))) (InitDataBlock T (on_index (SeekToLast (Wrapped (index_ops T))) t))"
  have "iw (tl_index t) idx k" using a by (simp add: at_index_def)
  then have i: "at_index (on_index (SeekToLast (Wrapped (index_ops T))) t) blk idx ?k"
    using on_index_at [OF a, of "SeekToLast (Wrapped (index_ops T))" ?k] list_iterator.rep_SeekToLast [OF iw_laws] by simp
  note n = enter [OF i o, of "SeekToLast (Wrapped (data_ops T))", OF list_iterator.rep_SeekToLast [OF dw_laws]]
  show ?thesis
  proof (cases "idx = []")
    case True
    then show ?thesis using skip_backward_end [of ?t blk idx ?k] n by (simp add: tl_SeekToLast_def)
  next
    case False
    then have "length (concat ?B) = part_start ?B ?k + length (blk (snd (idx ! ?k)))"
      using start_Suc [of ?k ?B] start_all [of ?B "Suc ?k"] by simp
    then have e: "(let s = part_start ?B ?k; n = length (blk (snd (idx ! ?k))) in
        if n - 1 < n then s + (n - 1) else if s = 0 then length (concat ?B) else s - 1) = length (concat ?B) - 1"
      unfolding Let_def by (simp only: split: if_split) linarith
    have "at_block ?t blk idx ?k (length (blk (snd (idx ! ?k))) - 1)" using n False by simp
    from skip_backward [OF o this] show ?thesis using e unfolding tl_SeekToLast_def Let_def by (simp only:)
  qed
qed

lemma tl_Seek_pos:
  assumes a: "at_index t blk idx k" and o: "opens blk idx" and x: "index_of c ok blk idx es" and target: "ok target"
  shows "\<exists>t'. tl_Seek T t target = Some t' \<and> pos blk idx t' (lower_bound c es target)"
proof -
  let ?k = "lower_bound c idx target"
  let ?t = "on_data (\<lambda>w. Seek (Wrapped (data_ops T)) w target)
    (InitDataBlock T (on_index (\<lambda>w. Seek (Wrapped (index_ops T)) w target) t))"
  have "iw (tl_index t) idx k" using a by (simp add: at_index_def)
  then have i: "at_index (on_index (\<lambda>w. Seek (Wrapped (index_ops T)) w target) t) blk idx ?k"
    using on_index_at [OF a, of "\<lambda>w. Seek (Wrapped (index_ops T)) w target" ?k] list_iterator.rep_Seek [OF iw_laws _ target] by simp
  note n = enter [OF i o, of "\<lambda>w. Seek (Wrapped (data_ops T)) w target", OF list_iterator.rep_Seek [OF dw_laws _ target]]
  show ?thesis
    using skip_forward [OF o, of ?t ?k "lower_bound c (blk (snd (idx ! ?k))) target"] skip_forward_end [of ?t blk idx ?k] n
      two_level_lower_bound [OF x target] index_of_entries(1) [OF x]
    by (cases "?k < length idx") (simp_all add: tl_Seek_def Let_def)
qed

lemma tl_Next_pos:
  assumes p: "pos blk idx t i" "i < length (concat (map (\<lambda>e. blk (snd e)) idx))" and o: "opens blk idx"
  shows "\<exists>t'. tl_Next T t = Some t' \<and> pos blk idx t' (Suc i)"
proof -
  obtain k q where a: "at_block t blk idx k q" and q: "q < length (blk (snd (idx ! k)))"
    "i = part_start (map (\<lambda>e. blk (snd e)) idx) k + q" using p by (auto simp: pos_def)
  note l = at_block_laws [OF a]
  have "at_block (on_data (Next (Wrapped (data_ops T))) t) blk idx k (Suc q)"
    using on_data_at [OF a, of "Next (Wrapped (data_ops T))"] list_iterator.rep_Next [OF dw_laws l(3) q(1)] by simp
  then show ?thesis using skip_forward [OF o] l(4) q(2) by (simp add: tl_Next_def on_data_def) (metis add_Suc_right)
qed

lemma tl_Prev_pos:
  assumes p: "pos blk idx t i" "i < length (concat (map (\<lambda>e. blk (snd e)) idx))" and o: "opens blk idx"
  shows "\<exists>t'. tl_Prev T t = Some t' \<and> pos blk idx t' (if i = 0 then length (concat (map (\<lambda>e. blk (snd e)) idx)) else i - 1)"
proof -
  obtain k q where a: "at_block t blk idx k q" and q: "q < length (blk (snd (idx ! k)))"
    "i = part_start (map (\<lambda>e. blk (snd e)) idx) k + q" using p by (auto simp: pos_def)
  note l = at_block_laws [OF a]
  let ?q = "if q = 0 then length (blk (snd (idx ! k))) else q - 1"
  have "at_block (on_data (Prev (Wrapped (data_ops T))) t) blk idx k ?q"
    using on_data_at [OF a, of "Prev (Wrapped (data_ops T))" ?q] list_iterator.rep_Prev [OF dw_laws l(3) q(1)] by simp
  from skip_backward [OF o this] show ?thesis
    using l(4) q by (cases "q = 0") (auto simp: tl_Prev_def on_data_def Let_def split: if_splits)
qed

lemma two_level_list_iterator: "list_iterator (TwoLevel T) c ok tl_rep"
proof
  fix s es i target
  assume "tl_rep s es i"
  then obtain t blk idx where s: "s = Some t" and x: "index_of c ok blk idx es" and o: "opens blk idx" and p: "pos blk idx t i"
    by (auto simp: tl_rep_def)
  note es = index_of_entries(1) [OF x] and I = tl_repI [OF _ x o]
  obtain k where k: "at_index t blk idx k" using pos_index [OF p] by blast
  note simps = TwoLevel_def s
  show "istatus (TwoLevel T) s = Status_OK"
    using k list_iterator.rep_status [OF iw_laws] list_iterator.rep_status [OF dw_laws]
    by (auto simp: simps tl_get_status_def at_index_def)
  show "tl_rep (SeekToFirst (TwoLevel T) s) es 0" using tl_SeekToFirst_pos [OF k o] by (simp add: simps I)
  show "tl_rep (SeekToLast (TwoLevel T) s) es (length es - 1)" using I [OF tl_SeekToLast_pos [OF k o]] unfolding es [symmetric] by (simp add: simps)
  show "tl_rep (Seek (TwoLevel T) s target) es (lower_bound c es target)" if "ok target"
    using tl_Seek_pos [OF k o x that] by (simp add: simps I)
  have P: "i < length es \<and> (\<exists>k q. at_block t blk idx k q \<and> q < length (blk (snd (idx ! k))) \<and> es ! i = blk (snd (idx ! k)) ! q) \<or>
    i = length es \<and> \<not> w_valid (tl_data t)"
    using p unfolding pos_def
  proof
    assume "\<exists>k q. at_block t blk idx k q \<and> q < length (blk (snd (idx ! k))) \<and> i = part_start (map (\<lambda>e. blk (snd e)) idx) k + q"
    then obtain k q where "at_block t blk idx k q" "q < length (blk (snd (idx ! k)))" "i = part_start (map (\<lambda>e. blk (snd e)) idx) k + q"
      by blast
    then show ?thesis
      using at_block_laws(2) start_less [of k "map (\<lambda>e. blk (snd e)) idx" q] nth_start [of k "map (\<lambda>e. blk (snd e)) idx" q] es by auto
  qed (simp add: es)
  show "i \<le> length es" using P by auto
  show "Valid (TwoLevel T) s \<longleftrightarrow> i < length es" using P at_block_laws(6) by (auto simp: simps Wrapped_def)
  assume i: "i < length es"
  then obtain k q where b: "at_block t blk idx k q" "q < length (blk (snd (idx ! k)))" "es ! i = blk (snd (idx ! k)) ! q" using P by blast
  show "ikey (TwoLevel T) s = fst (es ! i)" "ivalue (TwoLevel T) s = snd (es ! i)"
    using list_iterator.rep_key [OF dw_laws at_block_laws(3) [OF b(1)] b(2)]
      list_iterator.rep_value [OF dw_laws at_block_laws(3) [OF b(1)] b(2)] b(3) by (simp_all add: simps)
  show "tl_rep (Next (TwoLevel T) s) es (Suc i)" using I [OF tl_Next_pos [OF p _ o]] i es by (simp add: simps)
  show "tl_rep (Prev (TwoLevel T) s) es (if i = 0 then length es else i - 1)"
    using I [OF tl_Prev_pos [OF p _ o]] i unfolding es [symmetric] by (simp add: simps)
qed

lemma new_two_level_rep:
  assumes "index_of c ok blk idx es" "opens blk idx" "irep index_iter idx p"
  shows "tl_rep (Some (new_TwoLevelIterator T index_iter)) es (length es)"
proof -
  have "at_index (new_TwoLevelIterator T index_iter) blk idx p"
    using wrapped_Set [of irep index_iter idx p "index_ops T"] assms(3) by (simp add: at_index_def new_TwoLevelIterator_def data_null_def null_Wrapper_def)
  then show ?thesis
    using assms index_of_entries(1) [OF assms(1)]
    by (auto simp: tl_rep_def pos_def new_TwoLevelIterator_def data_null_def null_Wrapper_def)
qed

end

interpretation block_levels: two_levels "\<lparr>index_ops = Block_Iterator, data_ops = Block_Iterator, block_function = bf\<rparr>" c kok
    "block_rep c kok" "block_rep c kok" for bf c kok
  by (simp add: two_levels_def block_iter.list_iterator_axioms)

section \<open>Properties\<close>

text \<open>
  C15. Two levels of blocks: over an index block whose values are the handles of data blocks and whose keys separate them,
  with a block function that opens every handle, the two-level iterator reads exactly the concatenation of
  the data blocks, forward, backward and from a sought key, over empty blocks too; every call returns.
\<close>

theorem two_level_concatenates:
  assumes "index_of c okk blk idx es" "block_rep c okk index_iter idx p"
    "\<And>e. e \<in> set idx \<Longrightarrow> \<exists>q. block_rep c okk (bf (snd e)) (blk (snd e)) q" "okk target"
  shows "let T = \<lparr>index_ops = Block_Iterator, data_ops = Block_Iterator, block_function = bf\<rparr>;
      I = TwoLevel T; s = Some (new_TwoLevelIterator T index_iter); i = lower_bound c es target in
    read_forward I n (SeekToFirst I s) = take n es \<and>
    read_backward I n (SeekToLast I s) = take n (rev es) \<and>
    read_forward I n (Seek I s target) = take n (dropWhile (\<lambda>e. Compare c (fst e) target < 0) es) \<and>
    (i < length es \<longrightarrow> read_backward I n (Seek I s target) = take n (rev (take (Suc i) es))) \<and>
    SeekToFirst I s \<noteq> None \<and> SeekToLast I s \<noteq> None \<and> Seek I s target \<noteq> None \<and> istatus I (Seek I s target) = Status_OK"
proof -
  let ?T = "\<lparr>index_ops = Block_Iterator, data_ops = Block_Iterator, block_function = bf\<rparr>"
  have "block_levels.opens bf c okk blk idx" using assms(3) by (simp add: block_levels.opens_def)
  note r = block_levels.new_two_level_rep [OF assms(1) this assms(2)] and L = block_levels.two_level_list_iterator
  note seek = list_iterator.rep_Seek [OF L r assms(4)]
  show ?thesis
    unfolding Let_def
    using list_iterator.read_from_first [OF L r, of n] list_iterator.read_from_last [OF L r, of n]
      list_iterator.read_from_seek [OF L r assms(4), of n] list_iterator.read_backward_eq [OF L seek, of n]
      list_iterator.rep_SeekToFirst [OF L r] list_iterator.rep_SeekToLast [OF L r] seek list_iterator.rep_status [OF L seek]
    by (auto simp: block_levels.tl_rep_def)
qed

definition sample_blk :: "bytes \<Rightarrow> (bytes \<times> bytes) list" where
  "sample_blk h = (if h = [0] then take 2 sample_entries else if h = [1] then [] else drop 2 sample_entries)"

definition sample_bf :: "bytes \<Rightarrow> Status + BlockIter" where
  "sample_bf h = Block_NewIterator (new_Block (fst (bb_Finish (build 2 (sample_blk h))))) BytewiseComparator"

definition sample_index :: "(bytes \<times> bytes) list" where
  "sample_index = [([1, 2, 9], [0]), ([1, 2, 10], [1]), ([3], [2])]"

theorem two_level_concatenates_witness:
  "let T = \<lparr>index_ops = Block_Iterator, data_ops = Block_Iterator, block_function = sample_bf\<rparr>; I = TwoLevel T;
      s = Some (new_TwoLevelIterator T (Block_NewIterator (new_Block (fst (bb_Finish (build 1 sample_index)))) BytewiseComparator)) in
    read_forward I 9 (SeekToFirst I s) = sample_entries \<and> read_forward I 9 (Seek I s [1, 2, 9, 0]) = drop 2 sample_entries"
proof -
  have s: "sorted_entries BytewiseComparator (\<lambda>_. True) sample_index"
    "sorted_entries BytewiseComparator (\<lambda>_. True) (sample_blk h)" for h
    by (rule bytewise_sorted_entries, simp add: sample_index_def sample_blk_def sample_entries_def)+
  have x: "index_of BytewiseComparator (\<lambda>_. True) sample_blk sample_index sample_entries"
    using s(1) sample_sorted unfolding index_of_def by (simp add: sample_index_def sample_blk_def sample_entries_def less_Suc_eq BytewiseComparator_def Slice_compare_def all_conj_distrib)
  have "length (fst (bb_Finish (build 1 sample_index))) = 35" by code_simp
  then have i: "block_rep BytewiseComparator (\<lambda>_. True)
      (Block_NewIterator (new_Block (fst (bb_Finish (build 1 sample_index)))) BytewiseComparator) sample_index (length sample_index)"
    by (intro built_rep [OF _ s(1)]) simp_all
  have "length (fst (bb_Finish (build 2 (sample_blk h)))) \<le> 50" for h
  proof -
    have "\<forall>h\<in>{[0], [1], [2]}. length (fst (bb_Finish (build 2 (sample_blk h)))) \<le> 50" by code_simp
    then show ?thesis by (cases "h = [0] \<or> h = [1]") (auto simp: sample_blk_def)
  qed
  then have "length (fst (bb_Finish (build 2 (sample_blk h)))) < 2 ^ 32" for h
    by (rule le_less_trans) simp
  then have b: "\<exists>q. block_rep BytewiseComparator (\<lambda>_. True) (sample_bf h) (sample_blk h) q" for h
    using built_rep [OF _ s(2)] unfolding sample_bf_def by (meson zero_less_numeral)
  have "dropWhile (\<lambda>e. Compare BytewiseComparator (fst e) [1, 2, 9, 0] < 0) sample_entries = drop 2 sample_entries" by code_simp
  then show ?thesis
    using two_level_concatenates [OF x i b TrueI, of "[1, 2, 9, 0]" 9] by (simp add: Let_def sample_entries_def)
qed

end
