(* ===== verification/Caches.thy ===== *)
theory Caches
  imports Statuses Filters "HOL-Library.Multiset" "HOL-Library.Monad_Syntax"
begin

text \<open>
  \<open>util/cache.cc\<close>: the reference-counted LRU cache behind \<open>NewLRUCache\<close> (block cache and table cache). Handles live in
  a memory whose addresses are never used twice, so that a dangling pointer is seen; an access to a freed
  handle has no result. The hash chains and the two circular lists are the lists of the addresses they link.
  The deleter's calls are recorded. A call holds the shard's mutex throughout, so calls are atomic.
\<close>

section \<open>Definitions\<close>

record ('d, 'v) LRUHandle =
  h_value :: 'v
  h_deleter :: 'd
  h_charge :: u64
  h_in_cache :: bool
  h_refs :: u32
  h_hash :: u32
  h_key :: bytes

type_synonym ('d, 'v) memory = "('d, 'v) LRUHandle option list"

definition deref :: "('d, 'v) memory \<Rightarrow> nat \<Rightarrow> ('d, 'v) LRUHandle option" where
  "deref hp a = (if a < length hp then hp ! a else None)"

subsection \<open>The hash table\<close>

record HandleTable =
  ht_length :: u32
  ht_elems :: u32
  ht_list :: "nat list list"

text \<open>The slot a search of a chain ends at: the position of the matching handle, or the trailing slot.\<close>

fun find_slot :: "('d, 'v) memory \<Rightarrow> bytes \<Rightarrow> u32 \<Rightarrow> nat list \<Rightarrow> nat option" where
  "find_slot hp key hash [] = Some 0"
| "find_slot hp key hash (a # as) = do {
     h \<leftarrow> deref hp a;
     if h_hash h \<noteq> hash \<or> key \<noteq> h_key h then map_option Suc (find_slot hp key hash as) else Some 0 }"

definition bucket_of :: "HandleTable \<Rightarrow> u32 \<Rightarrow> nat" where
  "bucket_of T hash = unat (hash AND (ht_length T - 1))"

definition FindPointer :: "HandleTable \<Rightarrow> ('d, 'v) memory \<Rightarrow> bytes \<Rightarrow> u32 \<Rightarrow> (nat \<times> nat) option" where
  "FindPointer T hp key hash = do {
     let i = bucket_of T hash;
     p \<leftarrow> find_slot hp key hash (ht_list T ! i);
     Some (i, p) }"

text \<open>\<open>*ptr\<close>\<close>

definition slot_at :: "HandleTable \<Rightarrow> nat \<times> nat \<Rightarrow> nat option" where
  "slot_at T ptr =
     (case ptr of (i, p) \<Rightarrow> if p < length (ht_list T ! i) then Some (ht_list T ! i ! p) else None)"

definition ht_Lookup :: "HandleTable \<Rightarrow> ('d, 'v) memory \<Rightarrow> bytes \<Rightarrow> u32 \<Rightarrow> nat option option" where
  "ht_Lookup T hp key hash = do { ptr \<leftarrow> FindPointer T hp key hash; Some (slot_at T ptr) }"

text \<open>The doubling loop does not end when no power of two below \<open>2 ^ 32\<close> is large enough.\<close>

partial_function (option) new_length :: "u32 \<Rightarrow> u32 \<Rightarrow> u32 option" where
  "new_length elems n = (if n < elems then new_length elems (n * 2) else Some n)"

fun rehash :: "('d, 'v) memory \<Rightarrow> u32 \<Rightarrow> nat list \<Rightarrow> nat list list \<Rightarrow> nat list list option" where
  "rehash hp len [] new_list = Some new_list"
| "rehash hp len (a # as) new_list = do {
     h \<leftarrow> deref hp a;
     let i = unat (h_hash h AND (len - 1));
     rehash hp len as (new_list[i := a # new_list ! i]) }"

definition Resize :: "HandleTable \<Rightarrow> ('d, 'v) memory \<Rightarrow> HandleTable option" where
  "Resize T hp = do {
     len \<leftarrow> new_length (ht_elems T) 4;
     new_list \<leftarrow> rehash hp len (concat (ht_list T)) (replicate (unat len) []);
     Some (T\<lparr>ht_list := new_list, ht_length := len\<rparr>) }"

definition new_HandleTable :: "('d, 'v) memory \<Rightarrow> HandleTable option" where
  "new_HandleTable hp = Resize \<lparr>ht_length = 0, ht_elems = 0, ht_list = []\<rparr> hp"

definition ht_Insert :: "HandleTable \<Rightarrow> ('d, 'v) memory \<Rightarrow> nat \<Rightarrow> (nat option \<times> HandleTable) option" where
  "ht_Insert T hp a = do {
     h \<leftarrow> deref hp a;
     (i, p) \<leftarrow> FindPointer T hp (h_key h) (h_hash h);
     let old = slot_at T (i, p);
     let chain = ht_list T ! i;
     let T = T\<lparr>ht_list := (ht_list T)[i := take p chain @ a # drop (Suc p) chain]\<rparr>;
     if old = None then do {
       let T = T\<lparr>ht_elems := ht_elems T + 1\<rparr>;
       T \<leftarrow> (if ht_elems T > ht_length T then Resize T hp else Some T);
       Some (old, T) }
     else Some (old, T) }"

definition ht_Remove :: "HandleTable \<Rightarrow> ('d, 'v) memory \<Rightarrow> bytes \<Rightarrow> u32 \<Rightarrow> (nat option \<times> HandleTable) option" where
  "ht_Remove T hp key hash = do {
     (i, p) \<leftarrow> FindPointer T hp key hash;
     let result = slot_at T (i, p);
     let chain = ht_list T ! i;
     Some (if result \<noteq> None
       then (result, T\<lparr>ht_list := (ht_list T)[i := take p chain @ drop (Suc p) chain], ht_elems := ht_elems T - 1\<rparr>)
       else (result, T)) }"

subsection \<open>A shard\<close>

record ('d, 'v) LRUCache =
  capacity :: u64
  usage :: u64
  lru :: "nat list"
  in_use :: "nat list"
  table :: HandleTable
  heap :: "('d, 'v) memory"
  deleted :: "('d \<times> bytes \<times> 'v) list"

definition new_LRUCache :: "u64 \<Rightarrow> ('d, 'v) LRUCache option" where
  "new_LRUCache cap = do {
     T \<leftarrow> new_HandleTable ([] :: ('d, 'v) memory);
     Some \<lparr>capacity = cap, usage = 0, lru = [], in_use = [], table = T, heap = [], deleted = []\<rparr> }"

text \<open>Unlinking takes a handle off the list it is on; the oldest entry of a list is its first.\<close>

definition LRU_Remove :: "('d, 'v) LRUCache \<Rightarrow> nat \<Rightarrow> ('d, 'v) LRUCache" where
  "LRU_Remove c e = c\<lparr>lru := remove1 e (lru c), in_use := remove1 e (in_use c)\<rparr>"

definition set_handle :: "('d, 'v) LRUCache \<Rightarrow> nat \<Rightarrow> ('d, 'v) LRUHandle \<Rightarrow> ('d, 'v) LRUCache" where
  "set_handle c e h = c\<lparr>heap := (heap c)[e := Some h]\<rparr>"

definition Ref :: "('d, 'v) LRUCache \<Rightarrow> nat \<Rightarrow> ('d, 'v) LRUCache option" where
  "Ref c e = do {
     h \<leftarrow> deref (heap c) e;
     let c = (if h_refs h = 1 \<and> h_in_cache h then let c = LRU_Remove c e in c\<lparr>in_use := in_use c @ [e]\<rparr> else c);
     Some (set_handle c e (h\<lparr>h_refs := h_refs h + 1\<rparr>)) }"

definition Unref :: "('d, 'v) LRUCache \<Rightarrow> nat \<Rightarrow> ('d, 'v) LRUCache option" where
  "Unref c e = do {
     h \<leftarrow> deref (heap c) e;
     let h = h\<lparr>h_refs := h_refs h - 1\<rparr>;
     let c = set_handle c e h;
     Some (if h_refs h = 0
       then c\<lparr>deleted := deleted c @ [(h_deleter h, h_key h, h_value h)], heap := (heap c)[e := None]\<rparr>
       else if h_in_cache h \<and> h_refs h = 1 then let c = LRU_Remove c e in c\<lparr>lru := lru c @ [e]\<rparr>
       else c) }"

definition FinishErase :: "('d, 'v) LRUCache \<Rightarrow> nat option \<Rightarrow> ('d, 'v) LRUCache option" where
  "FinishErase c e =
     (case e of
        None \<Rightarrow> Some c
      | Some e \<Rightarrow> do {
          let c = LRU_Remove c e;
          h \<leftarrow> deref (heap c) e;
          let c = set_handle c e (h\<lparr>h_in_cache := False\<rparr>);
          let c = c\<lparr>usage := usage c - h_charge h\<rparr>;
          Unref c e })"

definition lru_Lookup :: "('d, 'v) LRUCache \<Rightarrow> bytes \<Rightarrow> u32 \<Rightarrow> (nat option \<times> ('d, 'v) LRUCache) option" where
  "lru_Lookup c key hash = do {
     e \<leftarrow> ht_Lookup (table c) (heap c) key hash;
     case e of None \<Rightarrow> Some (None, c) | Some a \<Rightarrow> do { c \<leftarrow> Ref c a; Some (Some a, c) } }"

definition lru_Release :: "('d, 'v) LRUCache \<Rightarrow> nat \<Rightarrow> ('d, 'v) LRUCache option" where
  "lru_Release c handle = Unref c handle"

text \<open>\<open>FinishErase(table_.Remove(key, hash))\<close>\<close>

definition lru_Erase :: "('d, 'v) LRUCache \<Rightarrow> bytes \<Rightarrow> u32 \<Rightarrow> ('d, 'v) LRUCache option" where
  "lru_Erase c key hash = do {
     (e, T) \<leftarrow> ht_Remove (table c) (heap c) key hash;
     FinishErase (c\<lparr>table := T\<rparr>) e }"

definition erase_oldest :: "('d, 'v) LRUCache \<Rightarrow> ('d, 'v) LRUCache option" where
  "erase_oldest c = do { old \<leftarrow> deref (heap c) (hd (lru c)); lru_Erase c (h_key old) (h_hash old) }"

text \<open>The loops that erase from the old end do not end if an entry is not found in the table.\<close>

partial_function (option) evict :: "('d, 'v) LRUCache \<Rightarrow> ('d, 'v) LRUCache option" where
  "evict c = (if usage c > capacity c \<and> lru c \<noteq> [] then do { c \<leftarrow> erase_oldest c; evict c } else Some c)"

partial_function (option) lru_Prune :: "('d, 'v) LRUCache \<Rightarrow> ('d, 'v) LRUCache option" where
  "lru_Prune c = (if lru c \<noteq> [] then do { c \<leftarrow> erase_oldest c; lru_Prune c } else Some c)"

definition new_LRUHandle :: "bytes \<Rightarrow> u32 \<Rightarrow> 'v \<Rightarrow> u64 \<Rightarrow> 'd \<Rightarrow> ('d, 'v) LRUHandle" where
  "new_LRUHandle key hash value charge deleter =
     \<lparr>h_value = value, h_deleter = deleter, h_charge = charge, h_in_cache = False, h_refs = 1, h_hash = hash, h_key = key\<rparr>"

definition lru_Insert ::
  "('d, 'v) LRUCache \<Rightarrow> bytes \<Rightarrow> u32 \<Rightarrow> 'v \<Rightarrow> u64 \<Rightarrow> 'd \<Rightarrow> (nat \<times> ('d, 'v) LRUCache) option" where
  "lru_Insert c key hash value charge deleter = do {
     let e = length (heap c);
     let h = new_LRUHandle key hash value charge deleter;
     let c = c\<lparr>heap := heap c @ [Some h]\<rparr>;
     c \<leftarrow> (if capacity c > 0 then do {
            let h = h\<lparr>h_refs := h_refs h + 1, h_in_cache := True\<rparr>;
            let c = set_handle c e h;
            let c = c\<lparr>in_use := in_use c @ [e], usage := usage c + charge\<rparr>;
            (old, T) \<leftarrow> ht_Insert (table c) (heap c) e;
            FinishErase (c\<lparr>table := T\<rparr>) old }
          else Some c);
     c \<leftarrow> evict c;
     Some (e, c) }"

definition lru_TotalCharge :: "('d, 'v) LRUCache \<Rightarrow> u64" where
  "lru_TotalCharge c = usage c"

text \<open>The destructor; a client must have released every handle.\<close>

fun destroy_LRUCache :: "('d, 'v) LRUCache \<Rightarrow> nat list \<Rightarrow> ('d, 'v) LRUCache option" where
  "destroy_LRUCache c [] = Some c"
| "destroy_LRUCache c (e # es) = do {
     h \<leftarrow> deref (heap c) e;
     c \<leftarrow> Unref (set_handle c e (h\<lparr>h_in_cache := False\<rparr>)) e;
     destroy_LRUCache c es }"

subsection \<open>The sharded cache\<close>

definition kNumShardBits :: nat where
  "kNumShardBits = 4"

definition kNumShards :: nat where
  "kNumShards = 2 ^ kNumShardBits"

definition HashSlice :: "bytes \<Rightarrow> u32" where
  "HashSlice s = Hash s 0"

definition Shard :: "u32 \<Rightarrow> nat" where
  "Shard hash = unat (drop_bit (32 - kNumShardBits) hash)"

record ('d, 'v) ShardedLRUCache =
  shards :: "('d, 'v) LRUCache list"
  last_id :: u64

text \<open>The address of a handle: the shard that allocated it and its place there.\<close>

type_synonym cache_handle = "nat \<times> nat"

definition NewLRUCache :: "u64 \<Rightarrow> ('d, 'v) ShardedLRUCache option" where
  "NewLRUCache cap = do {
     let per_shard = (cap + of_nat (kNumShards - 1)) div of_nat kNumShards;
     s \<leftarrow> new_LRUCache per_shard;
     Some \<lparr>shards = replicate kNumShards s, last_id = 0\<rparr> }"

definition set_shard :: "('d, 'v) ShardedLRUCache \<Rightarrow> nat \<Rightarrow> ('d, 'v) LRUCache \<Rightarrow> ('d, 'v) ShardedLRUCache" where
  "set_shard c s x = c\<lparr>shards := (shards c)[s := x]\<rparr>"

definition cache_Insert ::
  "('d, 'v) ShardedLRUCache \<Rightarrow> bytes \<Rightarrow> 'v \<Rightarrow> u64 \<Rightarrow> 'd \<Rightarrow> (cache_handle \<times> ('d, 'v) ShardedLRUCache) option" where
  "cache_Insert c key value charge deleter = do {
     let hash = HashSlice key;
     let s = Shard hash;
     (e, x) \<leftarrow> lru_Insert (shards c ! s) key hash value charge deleter;
     Some ((s, e), set_shard c s x) }"

definition cache_Lookup :: "('d, 'v) ShardedLRUCache \<Rightarrow> bytes \<Rightarrow> (cache_handle option \<times> ('d, 'v) ShardedLRUCache) option" where
  "cache_Lookup c key = do {
     let hash = HashSlice key;
     let s = Shard hash;
     (e, x) \<leftarrow> lru_Lookup (shards c ! s) key hash;
     Some (map_option (Pair s) e, set_shard c s x) }"

definition cache_handle_at :: "('d, 'v) ShardedLRUCache \<Rightarrow> cache_handle \<Rightarrow> ('d, 'v) LRUHandle option" where
  "cache_handle_at c handle = (if fst handle < length (shards c) then deref (heap (shards c ! fst handle)) (snd handle) else None)"

definition cache_Release :: "('d, 'v) ShardedLRUCache \<Rightarrow> cache_handle \<Rightarrow> ('d, 'v) ShardedLRUCache option" where
  "cache_Release c handle = do {
     h \<leftarrow> cache_handle_at c handle;
     let s = Shard (h_hash h);
     x \<leftarrow> lru_Release (shards c ! s) (snd handle);
     Some (set_shard c s x) }"

definition cache_Erase :: "('d, 'v) ShardedLRUCache \<Rightarrow> bytes \<Rightarrow> ('d, 'v) ShardedLRUCache option" where
  "cache_Erase c key = do {
     let hash = HashSlice key;
     let s = Shard hash;
     x \<leftarrow> lru_Erase (shards c ! s) key hash;
     Some (set_shard c s x) }"

definition cache_Value :: "('d, 'v) ShardedLRUCache \<Rightarrow> cache_handle \<Rightarrow> 'v option" where
  "cache_Value c handle = map_option h_value (cache_handle_at c handle)"

definition cache_NewId :: "('d, 'v) ShardedLRUCache \<Rightarrow> u64 \<times> ('d, 'v) ShardedLRUCache" where
  "cache_NewId c = (last_id c + 1, c\<lparr>last_id := last_id c + 1\<rparr>)"

fun prune_shards :: "('d, 'v) LRUCache list \<Rightarrow> ('d, 'v) LRUCache list option" where
  "prune_shards [] = Some []"
| "prune_shards (x # xs) = do { x \<leftarrow> lru_Prune x; xs \<leftarrow> prune_shards xs; Some (x # xs) }"

definition cache_Prune :: "('d, 'v) ShardedLRUCache \<Rightarrow> ('d, 'v) ShardedLRUCache option" where
  "cache_Prune c = do { xs \<leftarrow> prune_shards (shards c); Some (c\<lparr>shards := xs\<rparr>) }"

definition cache_TotalCharge :: "('d, 'v) ShardedLRUCache \<Rightarrow> u64" where
  "cache_TotalCharge c = foldl (\<lambda>total x. total + lru_TotalCharge x) 0 (shards c)"

section \<open>The hash table\<close>

definition mem :: "HandleTable \<Rightarrow> nat set" where
  "mem T = set (concat (ht_list T))"

definition matches :: "('d, 'v) memory \<Rightarrow> bytes \<Rightarrow> u32 \<Rightarrow> nat \<Rightarrow> bool" where
  "matches hp key hash a \<longleftrightarrow> (\<exists>h. deref hp a = Some h \<and> h_key h = key \<and> h_hash h = hash)"

text \<open>Chains: every handle is live and in the bucket of its hash.\<close>

definition chains :: "('d, 'v) memory \<Rightarrow> u32 \<Rightarrow> nat list list \<Rightarrow> bool" where
  "chains hp len xss \<longleftrightarrow>
     (\<exists>k < 32. len = 2 ^ k) \<and> length xss = unat len \<and>
     (\<forall>i < length xss. \<forall>a\<in>set (xss ! i). \<exists>h. deref hp a = Some h \<and> unat (h_hash h AND (len - 1)) = i)"

definition ht_inv :: "('d, 'v) memory \<Rightarrow> HandleTable \<Rightarrow> bool" where
  "ht_inv hp T \<longleftrightarrow>
     chains hp (ht_length T) (ht_list T) \<and> distinct (concat (ht_list T)) \<and> unat (ht_elems T) = length (concat (ht_list T)) \<and>
     (\<forall>a\<in>mem T. \<forall>b\<in>mem T. \<forall>key hash. matches hp key hash a \<and> matches hp key hash b \<longrightarrow> a = b)"

lemma unat_pow2: "k < 32 \<Longrightarrow> unat (2 ^ k :: u32) = 2 ^ k"
  using unat_u32 [OF power_strict_increasing [of k 32 "2 :: nat"]] by simp

lemma and_mask_less: "\<exists>k < 32. len = 2 ^ k \<Longrightarrow> unat ((x :: u32) AND (len - 1)) < unat len"
proof -
  assume "\<exists>k < 32. len = 2 ^ k"
  then obtain k where k: "k < 32" "len = 2 ^ k" by blast
  then have "x AND (len - 1) = take_bit k x" by (simp add: take_bit_eq_mask mask_eq_exp_minus_1)
  moreover have "unat (take_bit k x) < 2 ^ k" by (simp add: unsigned_take_bit_eq)
  moreover have "unat len = 2 ^ k" using k by (simp add: unat_pow2)
  ultimately show ?thesis by simp
qed

lemma find_slot_exact:
  "(\<forall>a\<in>set as. deref hp a \<noteq> None) \<Longrightarrow>
    \<exists>p \<le> length as. find_slot hp key hash as = Some p \<and> (\<forall>j < p. \<not> matches hp key hash (as ! j)) \<and>
      (p < length as \<longrightarrow> matches hp key hash (as ! p))"
proof (induction as)
  case (Cons a as)
  then obtain h p where h: "deref hp a = Some h" and p: "p \<le> length as" "find_slot hp key hash as = Some p"
    "\<forall>j < p. \<not> matches hp key hash (as ! j)" "p < length as \<longrightarrow> matches hp key hash (as ! p)" by auto
  show ?case
  proof (cases "h_hash h \<noteq> hash \<or> key \<noteq> h_key h")
    case True
    then have "\<not> matches hp key hash a" using h by (auto simp: matches_def)
    then show ?thesis using h p True by (intro exI [of _ "Suc p"]) (auto simp: nth_Cons split: nat.splits)
  next
    case False
    then show ?thesis using h by (intro exI [of _ 0]) (auto simp: matches_def)
  qed
qed simp

lemma mem_nth: "a \<in> mem T \<longleftrightarrow> (\<exists>i < length (ht_list T). a \<in> set (ht_list T ! i))"
  by (simp add: mem_def set_conv_nth [of "ht_list T"]) blast

lemma chains_bucket:
  assumes "chains hp (ht_length T) (ht_list T)"
  shows "bucket_of T hash < length (ht_list T)"
    "\<forall>a\<in>set (ht_list T ! bucket_of T hash). deref hp a \<noteq> None"
    "a \<in> mem T \<Longrightarrow> matches hp key hash a \<Longrightarrow> a \<in> set (ht_list T ! bucket_of T hash)"
proof -
  show b: "bucket_of T hash < length (ht_list T)"
    using assms and_mask_less by (simp add: chains_def bucket_of_def)
  then show "\<forall>a\<in>set (ht_list T ! bucket_of T hash). deref hp a \<noteq> None"
    using assms unfolding chains_def by (metis option.discI)
  show "a \<in> set (ht_list T ! bucket_of T hash)" if m: "a \<in> mem T" "matches hp key hash a"
  proof -
    obtain i where i: "i < length (ht_list T)" "a \<in> set (ht_list T ! i)"
      using mem_nth [THEN iffD1, OF m(1)] by blast
    then have "i = bucket_of T hash" using assms m(2) unfolding chains_def bucket_of_def matches_def by fastforce
    then show ?thesis using i by simp
  qed
qed

lemma ht_inv_live: "ht_inv hp T \<Longrightarrow> a \<in> mem T \<Longrightarrow> \<exists>h. deref hp a = Some h"
  unfolding ht_inv_def chains_def mem_nth by blast

text \<open>What a search finds.\<close>

lemma FindPointer_exact:
  assumes "ht_inv hp T"
  shows "\<exists>p. FindPointer T hp key hash = Some (bucket_of T hash, p) \<and> p \<le> length (ht_list T ! bucket_of T hash) \<and>
    (\<forall>a. slot_at T (bucket_of T hash, p) = Some a \<longleftrightarrow> a \<in> mem T \<and> matches hp key hash a)"
proof -
  let ?i = "bucket_of T hash"
  have ch: "chains hp (ht_length T) (ht_list T)" using assms by (simp add: ht_inv_def)
  note b = chains_bucket [OF ch]
  obtain p where p: "p \<le> length (ht_list T ! ?i)" "find_slot hp key hash (ht_list T ! ?i) = Some p"
    "\<forall>j < p. \<not> matches hp key hash (ht_list T ! ?i ! j)"
    "p < length (ht_list T ! ?i) \<longrightarrow> matches hp key hash (ht_list T ! ?i ! p)"
    using find_slot_exact [OF b(2) [of hash], of key hash] by blast
  have sub: "a \<in> set (ht_list T ! ?i) \<Longrightarrow> a \<in> mem T" for a using b(1) [of hash] by (auto simp: mem_def)
  have "slot_at T (?i, p) = Some a \<longleftrightarrow> a \<in> mem T \<and> matches hp key hash a" for a
  proof
    assume "slot_at T (?i, p) = Some a"
    then show "a \<in> mem T \<and> matches hp key hash a" using p sub by (auto simp: slot_at_def split: if_splits)
  next
    assume a: "a \<in> mem T \<and> matches hp key hash a"
    then obtain j where j: "j < length (ht_list T ! ?i)" "ht_list T ! ?i ! j = a"
      using b(3) [of a key hash] by (auto simp: in_set_conv_nth)
    then have "p \<le> j" using p(3) a by (metis not_less)
    then have l: "p < length (ht_list T ! ?i)" using j by simp
    then have "ht_list T ! ?i ! p = a"
      using assms a p(4) sub [OF nth_mem [OF l]] unfolding ht_inv_def by blast
    then show "slot_at T (?i, p) = Some a" using l by (simp add: slot_at_def)
  qed
  then show ?thesis using p by (auto simp: FindPointer_def)
qed

definition found :: "('d, 'v) memory \<Rightarrow> HandleTable \<Rightarrow> bytes \<Rightarrow> u32 \<Rightarrow> nat option \<Rightarrow> bool" where
  "found hp T key hash r \<longleftrightarrow> (\<forall>a. r = Some a \<longleftrightarrow> a \<in> mem T \<and> matches hp key hash a)"

lemma ht_Lookup_exact: "ht_inv hp T \<Longrightarrow> \<exists>r. ht_Lookup T hp key hash = Some r \<and> found hp T key hash r"
  using FindPointer_exact [of hp T key hash] by (auto simp: ht_Lookup_def found_def)

lemma found_unique: "found hp T key hash r \<Longrightarrow> found hp T key hash r' \<Longrightarrow> r = r'"
  unfolding found_def by (metis not_None_eq)

lemma concat_update_mset:
  "i < length xss \<Longrightarrow> mset (concat (xss[i := ys])) + mset (xss ! i) = mset (concat xss) + mset ys"
  by (induction xss arbitrary: i) (auto simp: nth_Cons split: nat.splits)

lemma chains_update:
  assumes "chains hp len xss" "i < length xss"
    "\<forall>a\<in>set ys. \<exists>h. deref hp a = Some h \<and> unat (h_hash h AND (len - 1)) = i"
  shows "chains hp len (xss[i := ys])"
  using assms by (auto simp: chains_def nth_list_update)

lemma ht_Remove_exact:
  assumes inv: "ht_inv hp T"
  shows "\<exists>r T'. ht_Remove T hp key hash = Some (r, T') \<and> found hp T key hash r \<and> ht_inv hp T' \<and> mem T' = mem T - set_option r"
proof -
  let ?i = "bucket_of T hash"
  obtain p where p: "FindPointer T hp key hash = Some (?i, p)" "p \<le> length (ht_list T ! ?i)"
    "\<forall>a. slot_at T (?i, p) = Some a \<longleftrightarrow> a \<in> mem T \<and> matches hp key hash a" using FindPointer_exact [OF inv] by blast
  have ch: "chains hp (ht_length T) (ht_list T)" using inv by (simp add: ht_inv_def)
  note b = chains_bucket(1) [OF ch, of hash]
  show ?thesis
  proof (cases "slot_at T (?i, p)")
    case None
    then show ?thesis using p inv by (auto simp: ht_Remove_def found_def)
  next
    case (Some a)
    let ?c = "ht_list T ! ?i"
    let ?T = "T\<lparr>ht_list := (ht_list T)[?i := take p ?c @ drop (Suc p) ?c], ht_elems := ht_elems T - 1\<rparr>"
    have a: "p < length ?c" "?c ! p = a" using Some by (auto simp: slot_at_def split: if_splits)
    have c: "?c = take p ?c @ a # drop (Suc p) ?c" using a id_take_nth_drop by metis
    then have mc: "mset ?c = mset (take p ?c @ drop (Suc p) ?c) + {#a#}"
      by (metis (no_types, lifting) add_mset_add_single mset.simps(2) mset_append union_mset_add_mset_right)
    have "mset (concat (ht_list ?T)) + mset ?c = mset (concat (ht_list T)) + mset (take p ?c @ drop (Suc p) ?c)"
      using concat_update_mset [OF b, of "take p ?c @ drop (Suc p) ?c"] by simp
    then have m: "mset (concat (ht_list T)) = mset (concat (ht_list ?T)) + {#a#}" unfolding mc by simp
    have d: "distinct (concat (ht_list ?T))" "a \<notin> mem ?T"
      using inv m unfolding ht_inv_def mem_def
      by (metis distinct.simps(2) mset.simps(2) mset_eq_imp_distinct_iff add_mset_add_single)+
    have mem: "mem T = insert a (mem ?T)" using arg_cong [OF m, of set_mset] by (simp add: mem_def)
    have "length (concat (ht_list T)) = Suc (length (concat (ht_list ?T)))" using arg_cong [OF m, of size] by simp
    moreover have "unat (ht_elems T) = length (concat (ht_list T))" using inv by (simp add: ht_inv_def)
    ultimately have "unat (ht_elems ?T) = length (concat (ht_list ?T))" by (simp add: unat_sub unat_gt_0 word_le_nat_alt unat_minus_one)
    moreover have "chains hp (ht_length ?T) (ht_list ?T)"
    proof -
      have "\<forall>x\<in>set (take p ?c @ drop (Suc p) ?c). \<exists>h. deref hp x = Some h \<and> unat (h_hash h AND (ht_length T - 1)) = ?i"
        using ch b unfolding chains_def by (metis Un_iff in_set_dropD in_set_takeD set_append)
      then show ?thesis using chains_update [OF ch b] by simp
    qed
    ultimately have "ht_inv hp ?T" using inv d mem by (simp add: ht_inv_def)
    moreover have "ht_Remove T hp key hash = Some (Some a, ?T)" using p(1) Some by (simp add: ht_Remove_def Let_def)
    ultimately show ?thesis using p(3) Some mem d by (intro exI [of _ "Some a"] exI [of _ ?T]) (auto simp: found_def)
  qed
qed

lemma new_length_pow2:
  assumes "unat elems \<le> 2 ^ 31"
  shows "k < 32 \<Longrightarrow> \<exists>j < 32. new_length elems (2 ^ k) = Some (2 ^ j) \<and> unat elems \<le> 2 ^ j"
proof (induction "31 - k" arbitrary: k)
  case 0
  then have "k = 31" by simp
  then have "\<not> (2 :: u32) ^ k < elems" using assms by (simp add: word_less_nat_alt)
  then show ?case using 0 assms unfolding new_length.simps [of elems "2 ^ k"]
    by (intro exI [of _ k]) (simp add: \<open>k = 31\<close>)
next
  case (Suc n)
  then have k: "k < 31" by simp
  show ?case
  proof (cases "2 ^ k < elems")
    case True
    then show ?thesis using Suc(1) [of "Suc k"] Suc(2) k unfolding new_length.simps [of elems "2 ^ k"] by (simp add: mult.commute)
  next
    case False
    then show ?thesis using k unfolding new_length.simps [of elems "2 ^ k"]
      by (intro exI [of _ k]) (simp add: word_less_nat_alt unat_pow2)
  qed
qed

lemma rehash_exact:
  "chains hp len new \<Longrightarrow> \<forall>a\<in>set as. deref hp a \<noteq> None \<Longrightarrow>
    \<exists>new'. rehash hp len as new = Some new' \<and> chains hp len new' \<and> mset (concat new') = mset (concat new) + mset as"
proof (induction as arbitrary: new)
  case (Cons a as)
  then obtain h where h: "deref hp a = Some h" by auto
  let ?i = "unat (h_hash h AND (len - 1))" let ?new = "new[?i := a # new ! ?i]"
  have i: "?i < length new" using Cons.prems(1) and_mask_less by (simp add: chains_def)
  have "chains hp len ?new" using chains_update [OF Cons.prems(1) i, of "a # new ! ?i"] Cons.prems(1) h i by (auto simp: chains_def)
  moreover have "mset (concat ?new) = mset (concat new) + {#a#}"
    using concat_update_mset [OF i, of "a # new ! ?i"] by simp
  ultimately show ?case using Cons.IH [of ?new] Cons.prems(2) h by auto
qed simp

lemma empty_chains: "k < 32 \<Longrightarrow> chains hp (2 ^ k) (replicate (unat (2 ^ k :: u32)) [])"
  by (auto simp: chains_def)

lemma Resize_exact:
  assumes "unat (ht_elems T) \<le> 2 ^ 31" "\<forall>a\<in>mem T. deref hp a \<noteq> None"
  shows "\<exists>T'. Resize T hp = Some T' \<and> chains hp (ht_length T') (ht_list T') \<and>
    mset (concat (ht_list T')) = mset (concat (ht_list T)) \<and> ht_elems T' = ht_elems T"
proof -
  obtain k where k: "k < 32" "new_length (ht_elems T) 4 = Some (2 ^ k)" using new_length_pow2 [OF assms(1), of 2] by auto
  then show ?thesis using rehash_exact [OF empty_chains [OF k(1), of hp], of "concat (ht_list T)"] assms(2)
    by (auto simp: Resize_def mem_def)
qed

lemma new_HandleTable_inv: "\<exists>T. new_HandleTable hp = Some T \<and> ht_inv hp T \<and> mem T = {}"
proof -
  obtain T where T: "new_HandleTable hp = Some T" "chains hp (ht_length T) (ht_list T)" "mset (concat (ht_list T)) = {#}" "ht_elems T = 0"
    using Resize_exact [of "\<lparr>ht_length = 0, ht_elems = 0, ht_list = []\<rparr>" hp] by (auto simp: new_HandleTable_def mem_def)
  then have c: "concat (ht_list T) = []" by simp
  show ?thesis using T(1,2,4) unfolding ht_inv_def mem_def by (intro exI [of _ T]) (simp add: c del: concat_eq_Nil_conv)
qed

lemma ht_inv_mset:
  "ht_inv hp T \<Longrightarrow> mset (concat (ht_list T')) = mset (concat (ht_list T)) \<Longrightarrow> chains hp (ht_length T') (ht_list T') \<Longrightarrow>
    ht_elems T' = ht_elems T \<Longrightarrow> ht_inv hp T' \<and> mem T' = mem T"
  unfolding ht_inv_def mem_def by (metis mset_eq_imp_distinct_iff mset_eq_length mset_eq_setD)

text \<open>The slot found takes the new handle in place of the old one, or at the end of the chain.\<close>

lemma ht_put:
  assumes inv: "ht_inv hp T" and h: "deref hp a = Some h" and a: "a \<notin> mem T"
  shows "\<exists>p. let i = bucket_of T (h_hash h); c = ht_list T ! i; old = slot_at T (i, p);
      T' = T\<lparr>ht_list := (ht_list T)[i := take p c @ a # drop (Suc p) c]\<rparr> in
    FindPointer T hp (h_key h) (h_hash h) = Some (i, p) \<and> found hp T (h_key h) (h_hash h) old \<and>
    mem T' = insert a (mem T - set_option old) \<and>
    (\<forall>n. unat n = unat (ht_elems T) + (if old = None then 1 else 0) \<longrightarrow> ht_inv hp (T'\<lparr>ht_elems := n\<rparr>))"
proof -
  let ?i = "bucket_of T (h_hash h)" let ?c = "ht_list T ! ?i"
  obtain p where p: "FindPointer T hp (h_key h) (h_hash h) = Some (?i, p)" "p \<le> length ?c"
    "\<forall>b. slot_at T (?i, p) = Some b \<longleftrightarrow> b \<in> mem T \<and> matches hp (h_key h) (h_hash h) b" using FindPointer_exact [OF inv] by blast
  have ch: "chains hp (ht_length T) (ht_list T)" using inv by (simp add: ht_inv_def)
  note b = chains_bucket(1) [OF ch, of "h_hash h"]
  let ?new = "take p ?c @ a # drop (Suc p) ?c" and ?old = "slot_at T (?i, p)"
  let ?T = "T\<lparr>ht_list := (ht_list T)[?i := ?new]\<rparr>"
  have c: "mset ?c = mset (take p ?c) + mset (drop (Suc p) ?c) + mset_set (set_option ?old)"
  proof (cases "p < length ?c")
    case True
    then have "mset ?c = mset (take p ?c @ ?c ! p # drop (Suc p) ?c)" by (metis id_take_nth_drop)
    then show ?thesis using True by (simp add: slot_at_def)
  qed (use p in \<open>simp add: slot_at_def\<close>)
  have m: "mset (concat (ht_list ?T)) + mset_set (set_option ?old) = mset (concat (ht_list T)) + {#a#}"
  proof -
    have "mset (concat (ht_list ?T)) + mset ?c = mset (concat (ht_list T)) + mset ?new"
      using concat_update_mset [OF b, of ?new] by simp
    then show ?thesis unfolding c by (simp add: algebra_simps)
  qed
  define xs where "xs = (case ?old of None \<Rightarrow> concat (ht_list T) | Some b \<Rightarrow> remove1 b (concat (ht_list T)))"
  have old: "b \<in> mem T \<and> matches hp (h_key h) (h_hash h) b" if "?old = Some b" for b using p(3) that by blast
  have d0: "distinct (concat (ht_list T))" and e0: "unat (ht_elems T) = length (concat (ht_list T))" using inv by (simp_all add: ht_inv_def)
  have mx: "mset (concat (ht_list ?T)) = mset (a # xs)"
  proof (cases ?old)
    case None
    then show ?thesis using m by (simp add: xs_def)
  next
    case (Some b)
    then have "a \<noteq> b" using old a by blast
    moreover have "add_mset b (mset (concat (ht_list ?T))) = add_mset a (mset (concat (ht_list T)))" using m Some by simp
    ultimately show ?thesis using Some unfolding xs_def
      by (metis add_mset_remove_trivial diff_union_swap mset.simps(2) mset_remove1 option.simps(5))
  qed
  have dx: "distinct xs" "set xs = mem T - set_option ?old"
    using d0 unfolding xs_def mem_def by (auto split: option.splits)
  have lx: "length (a # xs) = unat (ht_elems T) + (if ?old = None then 1 else 0)"
  proof (cases ?old)
    case (Some b)
    then have "b \<in> set (concat (ht_list T))" using old by (simp add: mem_def)
    moreover from this have "0 < length (concat (ht_list T))" by (rule length_pos_if_in_set)
    ultimately show ?thesis using Some e0 by (simp add: xs_def length_remove1 del: length_concat)
  qed (simp add: xs_def e0)
  have chT: "chains hp (ht_length ?T) (ht_list ?T)"
  proof -
    have "\<forall>x\<in>set ?new. \<exists>h. deref hp x = Some h \<and> unat (h_hash h AND (ht_length T - 1)) = ?i"
      using ch b h unfolding chains_def by (auto simp: bucket_of_def dest: in_set_takeD in_set_dropD)
    then show ?thesis using chains_update [OF ch b] by simp
  qed
  have memT: "mem ?T = insert a (mem T - set_option ?old)" using arg_cong [OF mx, of set_mset] dx by (simp add: mem_def)
  have other: "x \<notin> mem T - set_option ?old" if "matches hp key hash a" "matches hp key hash x" for x key hash
    using that h p(3) by (auto simp: matches_def)
  have uniq0: "\<forall>x\<in>mem T. \<forall>y\<in>mem T. \<forall>key hash. matches hp key hash x \<and> matches hp key hash y \<longrightarrow> x = y"
    using inv by (simp add: ht_inv_def)
  have uniq: "\<forall>x\<in>mem ?T. \<forall>y\<in>mem ?T. \<forall>key hash. matches hp key hash x \<and> matches hp key hash y \<longrightarrow> x = y"
    unfolding memT using uniq0 other by blast
  have memn: "mem (?T\<lparr>ht_elems := n\<rparr>) = mem ?T" for n by (simp add: mem_def)
  have "distinct (concat (ht_list ?T))" using mset_eq_imp_distinct_iff [OF mx] dx a by simp
  then have inv': "ht_inv hp (?T\<lparr>ht_elems := n\<rparr>)" if "unat n = length (a # xs)" for n
    using chT uniq that mset_eq_length [OF mx] unfolding ht_inv_def memn by simp
  then show ?thesis using p memT lx by (intro exI [of _ p]) (auto simp: Let_def found_def)
qed

lemma ht_Insert_exact:
  assumes inv: "ht_inv hp T" and h: "deref hp a = Some h" and a: "a \<notin> mem T" and n: "unat (ht_elems T) < 2 ^ 31"
  shows "\<exists>old T'. ht_Insert T hp a = Some (old, T') \<and> found hp T (h_key h) (h_hash h) old \<and> ht_inv hp T' \<and>
    mem T' = insert a (mem T - set_option old)"
proof -
  let ?i = "bucket_of T (h_hash h)" let ?c = "ht_list T ! ?i"
  obtain p where "let i = ?i; c = ht_list T ! i; old = slot_at T (i, p);
      T' = T\<lparr>ht_list := (ht_list T)[i := take p c @ a # drop (Suc p) c]\<rparr> in
    FindPointer T hp (h_key h) (h_hash h) = Some (i, p) \<and> found hp T (h_key h) (h_hash h) old \<and>
    mem T' = insert a (mem T - set_option old) \<and>
    (\<forall>n. unat n = unat (ht_elems T) + (if old = None then 1 else 0) \<longrightarrow> ht_inv hp (T'\<lparr>ht_elems := n\<rparr>))"
    using ht_put [OF inv h a] by blast
  moreover define T1 old where "T1 = T\<lparr>ht_list := (ht_list T)[?i := take p ?c @ a # drop (Suc p) ?c]\<rparr>" and "old = slot_at T (?i, p)"
  ultimately have p: "FindPointer T hp (h_key h) (h_hash h) = Some (?i, p)" "found hp T (h_key h) (h_hash h) old"
    "mem T1 = insert a (mem T - set_option old)"
    "\<And>n. unat n = unat (ht_elems T) + (if old = None then 1 else 0) \<Longrightarrow> ht_inv hp (T1\<lparr>ht_elems := n\<rparr>)"
    by (auto simp: Let_def)
  have ins: "ht_Insert T hp a =
     (if old = None then do {
       T' \<leftarrow> (if ht_elems T + 1 > ht_length T then Resize (T1\<lparr>ht_elems := ht_elems T + 1\<rparr>) hp else Some (T1\<lparr>ht_elems := ht_elems T + 1\<rparr>));
       Some (old, T') } else Some (old, T1))"
    using h p(1) by (simp add: ht_Insert_def Let_def T1_def old_def)
  show ?thesis
  proof (cases "old = None")
    case False
    have "T1\<lparr>ht_elems := ht_elems T\<rparr> = T1" by (simp add: T1_def)
    then show ?thesis using p(4) [of "ht_elems T"] p(2,3) ins False by simp
  next
    case True
    let ?T1 = "T1\<lparr>ht_elems := ht_elems T + 1\<rparr>"
    have "unat (ht_elems T + 1) = unat (ht_elems T) + 1" using n by (simp add: unat_word_ariths)
    then have i1: "ht_inv hp ?T1" "unat (ht_elems ?T1) \<le> 2 ^ 31" using p(4) [of "ht_elems T + 1"] True n by simp_all
    have m1: "mem ?T1 = mem T1" by (simp add: mem_def)
    have alive: "\<forall>x\<in>mem ?T1. deref hp x \<noteq> None" using ht_inv_live [OF i1(1)] by force
    have "\<exists>T'. (if ht_elems T + 1 > ht_length T then Resize ?T1 hp else Some ?T1) = Some T' \<and> ht_inv hp T' \<and> mem T' = mem T1"
    proof (cases "ht_elems T + 1 > ht_length T")
      case True
      obtain T' where "Resize ?T1 hp = Some T'" "chains hp (ht_length T') (ht_list T')"
        "mset (concat (ht_list T')) = mset (concat (ht_list ?T1))" "ht_elems T' = ht_elems ?T1"
        using Resize_exact [OF i1(2) alive] by blast
      then show ?thesis using ht_inv_mset [OF i1(1)] True m1 by auto
    qed (use i1 m1 in simp)
    then obtain T' where "(if ht_elems T + 1 > ht_length T then Resize ?T1 hp else Some ?T1) = Some T'" "ht_inv hp T'" "mem T' = mem T1"
      by blast
    moreover from this(1) have "ht_Insert T hp a = Some (old, T')" using ins True by (simp only: refl if_True bind.bind_lunit)
    ultimately show ?thesis using p(2,3) by (intro exI [of _ old] exI [of _ T']) simp
  qed
qed

section \<open>The invariant of a shard\<close>

definition linked :: "('d, 'v) LRUCache \<Rightarrow> nat set" where
  "linked c = set (lru c) \<union> set (in_use c)"

definition charge_at :: "('d, 'v) memory \<Rightarrow> nat \<Rightarrow> u64" where
  "charge_at hp a = (case deref hp a of None \<Rightarrow> 0 | Some h \<Rightarrow> h_charge h)"

text \<open>
  \<open>ext a\<close> is the number of references clients hold on the handle \<open>a\<close>; \<open>o\<close> is a handle still on a list but
  already out of the table, if any (between \<open>table_.Remove\<close> or \<open>table_.Insert\<close> and \<open>FinishErase\<close>).
\<close>

fun handle_ok :: "('d, 'v) LRUHandle option \<Rightarrow> bool \<Rightarrow> nat \<Rightarrow> bool" where
  "handle_ok None l n \<longleftrightarrow> n = 0 \<and> \<not> l"
| "handle_ok (Some h) l n \<longleftrightarrow> (h_in_cache h \<longleftrightarrow> l) \<and> unat (h_refs h) = n + (if l then 1 else 0) \<and> h_refs h \<noteq> 0"

definition handles_ok :: "('d, 'v) LRUCache \<Rightarrow> (nat \<Rightarrow> nat) \<Rightarrow> bool" where
  "handles_ok c ext \<longleftrightarrow> (\<forall>a. handle_ok (deref (heap c) a) (a \<in> linked c) (ext a))"

definition lists_ok :: "('d, 'v) LRUCache \<Rightarrow> (nat \<Rightarrow> nat) \<Rightarrow> bool" where
  "lists_ok c ext \<longleftrightarrow> distinct (lru c @ in_use c) \<and> (\<forall>a\<in>set (lru c). ext a = 0) \<and> (\<forall>a\<in>set (in_use c). 0 < ext a)"

definition cinv :: "('d, 'v) LRUCache \<Rightarrow> (nat \<Rightarrow> nat) \<Rightarrow> nat option \<Rightarrow> bool" where
  "cinv c ext orphan \<longleftrightarrow>
     ht_inv (heap c) (table c) \<and> handles_ok c ext \<and> lists_ok c ext \<and> set_option orphan \<subseteq> linked c \<and>
     mem (table c) = linked c - set_option orphan \<and> usage c = (\<Sum>a\<in>linked c. charge_at (heap c) a)"

lemma deref_update [simp]: "deref (hp[e := x]) a = (if a = e \<and> e < length hp then x else deref hp a)"
  by (simp add: deref_def)

lemma deref_less: "deref hp a = Some h \<Longrightarrow> a < length hp"
  by (simp add: deref_def split: if_splits)

lemma ht_inv_frame:
  assumes "ht_inv hp T"
    "\<And>a h. a \<in> mem T \<Longrightarrow> deref hp a = Some h \<Longrightarrow> \<exists>h'. deref hp' a = Some h' \<and> h_key h' = h_key h \<and> h_hash h' = h_hash h"
  shows "ht_inv hp' T"
proof -
  have m: "matches hp' key hash a \<longleftrightarrow> matches hp key hash a" if "a \<in> mem T" for a key hash
    using ht_inv_live [OF assms(1) that] assms(2) [OF that] by (fastforce simp: matches_def)
  have "chains hp' (ht_length T) (ht_list T)"
    unfolding chains_def
  proof (intro conjI allI impI ballI)
    fix i a assume i: "i < length (ht_list T)" "a \<in> set (ht_list T ! i)"
    then obtain h where h: "deref hp a = Some h" "unat (h_hash h AND (ht_length T - 1)) = i"
      using assms(1) unfolding ht_inv_def chains_def by blast
    moreover have "a \<in> mem T" using i by (auto simp: mem_nth)
    ultimately show "\<exists>h. deref hp' a = Some h \<and> unat (h_hash h AND (ht_length T - 1)) = i"
      using assms(2) by fastforce
  qed (use assms(1) in \<open>simp_all add: ht_inv_def chains_def\<close>)
  then show ?thesis using assms(1) m by (simp add: ht_inv_def)
qed

lemma handles_okD:
  assumes "handles_ok c ext"
  shows "deref (heap c) a = None \<Longrightarrow> ext a = 0 \<and> a \<notin> linked c"
    "deref (heap c) a = Some h \<Longrightarrow> (h_in_cache h \<longleftrightarrow> a \<in> linked c) \<and> unat (h_refs h) = ext a + (if h_in_cache h then 1 else 0) \<and> h_refs h \<noteq> 0"
  using assms [unfolded handles_ok_def, rule_format, of a] by auto

text \<open>What a call leaves of the handles: they keep their contents while they live, and every entry is live or was deleted once.\<close>

definition entry :: "('d, 'v) LRUHandle \<Rightarrow> 'd \<times> bytes \<times> 'v" where
  "entry h = (h_deleter h, h_key h, h_value h)"

definition contents :: "('d, 'v) LRUHandle \<Rightarrow> ('d \<times> bytes \<times> 'v) \<times> u64 \<times> u32" where
  "contents h = (entry h, h_charge h, h_hash h)"

definition live :: "('d, 'v) memory \<Rightarrow> ('d \<times> bytes \<times> 'v) multiset" where
  "live hp = (\<Sum>x\<leftarrow>hp. case x of None \<Rightarrow> {#} | Some h \<Rightarrow> {#entry h#})"

definition evolves :: "('d, 'v) LRUCache \<Rightarrow> ('d, 'v) LRUCache \<Rightarrow> bool" where
  "evolves c c' \<longleftrightarrow>
     capacity c' = capacity c \<and> length (heap c') = length (heap c) \<and> prefix (deleted c) (deleted c') \<and>
     live (heap c') + mset (deleted c') = live (heap c) + mset (deleted c) \<and>
     (\<forall>a h'. deref (heap c') a = Some h' \<longrightarrow> (\<exists>h. deref (heap c) a = Some h \<and> contents h' = contents h))"

lemma evolves_refl [simp]: "evolves c c"
  by (simp add: evolves_def)

lemma evolves_trans: "evolves c c' \<Longrightarrow> evolves c' c'' \<Longrightarrow> evolves c c''"
  unfolding evolves_def by (metis prefix_order.trans)

lemma sum_list_update_mset:
  fixes f :: "'x \<Rightarrow> 'y multiset"
  shows "i < length xs \<Longrightarrow> sum_list (map f (xs[i := y])) + f (xs ! i) = sum_list (map f xs) + f y"
  by (induction xs arbitrary: i) (auto simp: nth_Cons algebra_simps split: nat.splits)

lemma live_update:
  assumes "deref hp e = Some h"
  shows "live (hp[e := None]) + {#entry h#} = live hp" "entry h' = entry h \<Longrightarrow> live (hp[e := Some h']) = live hp"
proof -
  have e: "e < length hp" "hp ! e = Some h" using assms by (auto simp: deref_def split: if_splits)
  show "live (hp[e := None]) + {#entry h#} = live hp" "entry h' = entry h \<Longrightarrow> live (hp[e := Some h']) = live hp"
    using sum_list_update_mset [OF e(1), of "\<lambda>x. case x of None \<Rightarrow> {#} | Some h \<Rightarrow> {#entry h#}" None]
      sum_list_update_mset [OF e(1), of "\<lambda>x. case x of None \<Rightarrow> {#} | Some h \<Rightarrow> {#entry h#}" "Some h'"] e(2) by (simp_all add: live_def)
qed

lemma evolves_set_handle:
  "deref (heap c) e = Some h \<Longrightarrow> contents h' = contents h \<Longrightarrow> evolves c (set_handle c e h'\<lparr>usage := u, lru := l, in_use := i, table := T\<rparr>)"
  by (auto simp: evolves_def set_handle_def live_update(2) contents_def)

lemma evolves_fields [simp]: "evolves c (c\<lparr>lru := l\<rparr>)" "evolves c (c\<lparr>in_use := l\<rparr>)" "evolves c (c\<lparr>table := T\<rparr>)" "evolves c (c\<lparr>usage := u\<rparr>)"
  by (simp_all add: evolves_def)

lemma evolves_delete:
  "deref (heap c) e = Some h \<Longrightarrow> evolves c (c\<lparr>deleted := deleted c @ [entry h], heap := (heap c)[e := None]\<rparr>)"
  using live_update(1) [of "heap c" e h] by (auto simp: evolves_def algebra_simps)

section \<open>The calls keep the invariant\<close>

lemma cinvD:
  assumes "cinv c ext orphan"
  shows "ht_inv (heap c) (table c)" "handles_ok c ext" "lists_ok c ext" "set_option orphan \<subseteq> linked c"
    "mem (table c) = linked c - set_option orphan" "usage c = (\<Sum>a\<in>linked c. charge_at (heap c) a)"
  using assms by (simp_all add: cinv_def)

lemma linked_handle:
  assumes "cinv c ext orphan" "a \<in> linked c"
  obtains h where "deref (heap c) a = Some h" "h_in_cache h" "unat (h_refs h) = ext a + 1"
proof -
  have "deref (heap c) a \<noteq> None" using handles_okD(1) [OF cinvD(2) [OF assms(1)]] assms(2) by blast
  then obtain h where h: "deref (heap c) a = Some h" by blast
  then show ?thesis using that handles_okD(2) [OF cinvD(2) [OF assms(1)] h] assms(2) by auto
qed

lemma u32_eq_iff: "(x :: u32) = y \<longleftrightarrow> unat x = unat y"
  by (metis unsigned_word_eqI)

text \<open>Updating one handle without its contents.\<close>

lemma charge_at_update: "deref hp e = Some h \<Longrightarrow> h_charge h' = h_charge h \<Longrightarrow> charge_at (hp[e := Some h']) a = charge_at hp a"
  by (auto simp: charge_at_def dest: deref_less)

lemma ht_inv_update:
  "ht_inv hp T \<Longrightarrow> deref hp e = Some h \<Longrightarrow> h_key h' = h_key h \<Longrightarrow> h_hash h' = h_hash h \<Longrightarrow> ht_inv (hp[e := Some h']) T"
  by (erule ht_inv_frame) (auto dest: deref_less)

lemma Ref_inv:
  assumes inv: "cinv c ext None" and e: "e \<in> linked c" and n: "ext e < 2 ^ 32 - 2"
  shows "\<exists>c'. Ref c e = Some c' \<and> cinv c' (ext(e := ext e + 1)) None \<and> evolves c c' \<and> linked c' = linked c \<and> table c' = table c"
proof -
  obtain h where h: "deref (heap c) e = Some h" "h_in_cache h" "unat (h_refs h) = ext e + 1" using linked_handle [OF inv e] .
  note D = cinvD [OF inv]
  let ?h = "h\<lparr>h_refs := h_refs h + 1\<rparr>"
  let ?c = "if h_refs h = 1 then c\<lparr>lru := remove1 e (lru c), in_use := remove1 e (in_use c) @ [e]\<rparr> else c"
  have r: "Ref c e = Some (set_handle ?c e ?h)" using h by (simp add: Ref_def LRU_Remove_def Let_def)
  have refs: "unat (h_refs h + 1) = ext e + 2" using h(3) n by (simp add: unat_word_ariths)
  have one: "h_refs h = 1 \<longleftrightarrow> ext e = 0" using h(3) by (simp add: u32_eq_iff)
  have L: "linked (set_handle ?c e ?h) = linked c"
    using e D(3) by (auto simp: linked_def set_handle_def lists_ok_def)
  have hp: "heap (set_handle ?c e ?h) = (heap c)[e := Some ?h]" by (simp add: set_handle_def)
  have "handles_ok (set_handle ?c e ?h) (ext(e := ext e + 1))"
    using D(2) h refs e deref_less [OF h(1)] unfolding handles_ok_def L hp by (simp add: u32_eq_iff)
  moreover have "lists_ok (set_handle ?c e ?h) (ext(e := ext e + 1))"
    using D(3) one e by (auto simp: lists_ok_def set_handle_def linked_def)
  moreover have "ht_inv (heap (set_handle ?c e ?h)) (table (set_handle ?c e ?h))"
    using ht_inv_update [OF D(1) h(1)] by (simp add: set_handle_def)
  moreover have "usage (set_handle ?c e ?h) = (\<Sum>a\<in>linked c. charge_at ((heap c)[e := Some ?h]) a)"
    using D(6) charge_at_update [OF h(1), of ?h] by (simp add: set_handle_def)
  ultimately have "cinv (set_handle ?c e ?h) (ext(e := ext e + 1)) None"
    using D(5) unfolding cinv_def L hp by (simp add: set_handle_def)
  moreover have "evolves c (set_handle ?c e ?h)"
    using live_update(2) [OF h(1), of ?h] deref_less [OF h(1)] h(1) by (auto simp: evolves_def set_handle_def entry_def contents_def)
  ultimately show ?thesis using r L by (simp add: set_handle_def)
qed

lemma Unref_inv:
  assumes inv: "cinv c ext None" and e: "0 < ext e"
  shows "\<exists>c'. Unref c e = Some c' \<and> cinv c' (ext(e := ext e - 1)) None \<and> evolves c c' \<and> linked c' = linked c \<and> table c' = table c"
proof -
  note D = cinvD [OF inv]
  have "deref (heap c) e \<noteq> None" using handles_okD(1) [OF D(2)] e by force
  then obtain h where h: "deref (heap c) e = Some h" by blast
  note H = handles_okD(2) [OF D(2) h]
  let ?h = "h\<lparr>h_refs := h_refs h - 1\<rparr>"
  have refs: "unat (h_refs h - 1) = unat (h_refs h) - 1" using H by (simp add: unat_minus_one)
  have lru: "e \<notin> set (lru c)" using D(3) e by (auto simp: lists_ok_def)
  let ?c0 = "c\<lparr>deleted := deleted c @ [entry h], heap := (heap c)[e := None]\<rparr>"
  let ?c1 = "c\<lparr>heap := (heap c)[e := Some ?h], in_use := remove1 e (in_use c), lru := lru c @ [e]\<rparr>"
  let ?c2 = "c\<lparr>heap := (heap c)[e := Some ?h]\<rparr>"
  have r: "Unref c e = Some (if h_refs h - 1 = 0 then ?c0 else if h_in_cache h \<and> h_refs h - 1 = 1 then ?c1 else ?c2)"
    using h lru by (simp add: Unref_def set_handle_def LRU_Remove_def entry_def Let_def remove1_idem)
  have z: "h_refs h - 1 = 0 \<longleftrightarrow> ext e = 1 \<and> \<not> h_in_cache h" "h_in_cache h \<and> h_refs h - 1 = 1 \<longleftrightarrow> ext e = 1 \<and> h_in_cache h"
    using H e refs by (auto simp: u32_eq_iff)
  note frame = ht_inv_update [OF D(1) h, of ?h] charge_at_update [OF h, of ?h] deref_less [OF h]
  have c0: "cinv ?c0 (ext(e := ext e - 1)) None" "linked ?c0 = linked c" if "ext e = 1" "\<not> h_in_cache h"
  proof -
    have n: "e \<notin> linked c" using H that by blast
    show L: "linked ?c0 = linked c" by (simp add: linked_def)
    have "handles_ok ?c0 (ext(e := ext e - 1))"
      using D(2) that n frame(3) unfolding handles_ok_def L by simp
    moreover have "lists_ok ?c0 (ext(e := ext e - 1))" using D(3) n by (auto simp: lists_ok_def linked_def)
    moreover have "ht_inv (heap ?c0) (table ?c0)" using n D(5) by (auto intro!: ht_inv_frame [OF D(1)])
    moreover have "(\<Sum>a\<in>linked c. charge_at ((heap c)[e := None]) a) = (\<Sum>a\<in>linked c. charge_at (heap c) a)"
      using n by (intro sum.cong) (auto simp: charge_at_def)
    ultimately show "cinv ?c0 (ext(e := ext e - 1)) None" using D(5,6) L unfolding cinv_def by simp
  qed
  have c1: "cinv ?c1 (ext(e := ext e - 1)) None" "linked ?c1 = linked c" if "ext e = 1" "h_in_cache h"
  proof -
    have n: "e \<in> set (in_use c)" using H that lru by (simp add: linked_def)
    show L: "linked ?c1 = linked c" using n D(3) by (auto simp: linked_def lists_ok_def)
    have "handles_ok ?c1 (ext(e := ext e - 1))"
      using D(2) that frame(3) H refs unfolding handles_ok_def L by (simp add: u32_eq_iff)
    moreover have "lists_ok ?c1 (ext(e := ext e - 1))" using D(3) n that by (auto simp: lists_ok_def)
    ultimately show "cinv ?c1 (ext(e := ext e - 1)) None" using D(5,6) L frame(1,2) unfolding cinv_def by simp
  qed
  have c2: "cinv ?c2 (ext(e := ext e - 1)) None" "linked ?c2 = linked c" if "ext e \<noteq> 1"
  proof -
    show L: "linked ?c2 = linked c" by (simp add: linked_def)
    have "handles_ok ?c2 (ext(e := ext e - 1))"
      using D(2) that e frame(3) H refs unfolding handles_ok_def L by (simp add: u32_eq_iff)
    moreover have "lists_ok ?c2 (ext(e := ext e - 1))" using D(3) that e lru by (auto simp: lists_ok_def)
    ultimately show "cinv ?c2 (ext(e := ext e - 1)) None" using D(5,6) L frame(1,2) unfolding cinv_def by simp
  qed
  have "evolves c ?c0" by (rule evolves_delete [OF h])
  moreover have "evolves c ?c1" "evolves c ?c2"
    using live_update(2) [OF h, of ?h] frame(3) h by (auto simp: evolves_def entry_def contents_def)
  ultimately show ?thesis using r z c0 c1 c2 by (cases "ext e = 1"; cases "h_in_cache h") simp_all
qed

lemma FinishErase_inv:
  assumes inv: "cinv c ext orphan"
  shows "\<exists>c'. FinishErase c orphan = Some c' \<and> cinv c' ext None \<and> evolves c c' \<and> linked c' = linked c - set_option orphan \<and>
    table c' = table c \<and> lru c' = filter (\<lambda>a. Some a \<noteq> orphan) (lru c)"
proof (cases orphan)
  case None
  then show ?thesis using inv by (auto simp: FinishErase_def)
next
  case (Some e)
  note D = cinvD [OF inv]
  have e: "e \<in> linked c" using D(4) Some by simp
  obtain h where h: "deref (heap c) e = Some h" "h_in_cache h" "unat (h_refs h) = ext e + 1" using linked_handle [OF inv e] .
  let ?h = "h\<lparr>h_in_cache := False, h_refs := h_refs h - 1\<rparr>"
  have refs: "unat (h_refs h - 1) = ext e" using h(3) by (simp add: unat_minus_one u32_eq_iff)
  have ent: "(h_deleter h, h_key h, h_value h) = entry h" by (simp add: entry_def)
  let ?b = "c\<lparr>lru := remove1 e (lru c), in_use := remove1 e (in_use c), usage := usage c - h_charge h\<rparr>"
  define c' where "c' = (if ext e = 0 then ?b\<lparr>deleted := deleted c @ [entry h], heap := (heap c)[e := None]\<rparr>
      else ?b\<lparr>heap := (heap c)[e := Some ?h]\<rparr>)"
  have r: "FinishErase c orphan = Some c'"
    using h refs deref_less [OF h(1)] Some ent
    by (simp add: FinishErase_def Unref_def LRU_Remove_def set_handle_def Let_def c'_def u32_eq_iff)
  have hp: "heap c' = (heap c)[e := (if ext e = 0 then None else Some ?h)]" and tb: "table c' = table c"
    and us: "usage c' = usage c - h_charge h" by (simp_all add: c'_def)
  have L: "linked c' = linked c - {e}" using D(3) by (auto simp: linked_def lists_ok_def c'_def)
  have "handles_ok c' ext"
    using D(2) deref_less [OF h(1)] refs unfolding handles_ok_def L hp by (simp add: u32_eq_iff)
  moreover have "lists_ok c' ext"
    using D(3) by (auto simp: lists_ok_def c'_def dest: notin_set_remove1 set_remove1_subset [THEN subsetD])
  moreover have "ht_inv (heap c') (table c')"
    using D(5) Some unfolding hp tb by (auto intro!: ht_inv_frame [OF D(1)])
  moreover have "usage c' = (\<Sum>a\<in>linked c'. charge_at (heap c') a)"
  proof -
    have "(\<Sum>a\<in>linked c'. charge_at (heap c') a) = (\<Sum>a\<in>linked c - {e}. charge_at (heap c) a)"
      unfolding L hp by (intro sum.cong) (auto simp: charge_at_def)
    moreover have "(\<Sum>a\<in>linked c. charge_at (heap c) a) = charge_at (heap c) e + (\<Sum>a\<in>linked c - {e}. charge_at (heap c) a)"
      using e by (intro sum.remove) (simp_all add: linked_def)
    ultimately show ?thesis using us D(6) h(1) by (simp add: charge_at_def)
  qed
  ultimately have "cinv c' ext None" using D(5) Some unfolding cinv_def L tb by simp
  moreover have "evolves c c'"
    using live_update(1) [OF h(1)] live_update(2) [OF h(1), of ?h] deref_less [OF h(1)] h(1)
    by (auto simp: evolves_def c'_def entry_def contents_def)
  moreover have "lru c' = filter (\<lambda>a. Some a \<noteq> orphan) (lru c)"
  proof -
    have "remove1 e (lru c) = filter (\<lambda>a. a \<noteq> e) (lru c)" using D(3) by (simp add: lists_ok_def distinct_remove1_removeAll removeAll_filter_not_eq neq_commute)
    then show ?thesis using Some by (simp add: c'_def)
  qed
  ultimately show ?thesis using r L tb Some by simp
qed

lemma Erase_inv:
  assumes inv: "cinv c ext None"
  shows "\<exists>c' r. lru_Erase c key hash = Some c' \<and> found (heap c) (table c) key hash r \<and> cinv c' ext None \<and> evolves c c' \<and>
    linked c' = linked c - set_option r \<and> lru c' = filter (\<lambda>a. Some a \<noteq> r) (lru c)"
proof -
  note D = cinvD [OF inv]
  obtain r T where r: "ht_Remove (table c) (heap c) key hash = Some (r, T)" "found (heap c) (table c) key hash r"
    "ht_inv (heap c) T" "mem T = mem (table c) - set_option r" using ht_Remove_exact [OF D(1)] by blast
  have "set_option r \<subseteq> linked c" using r(2) D(5) by (cases r) (auto simp: found_def)
  then have "cinv (c\<lparr>table := T\<rparr>) ext r"
    using D r by (simp add: cinv_def handles_ok_def lists_ok_def linked_def)
  from FinishErase_inv [OF this] obtain c' where c': "FinishErase (c\<lparr>table := T\<rparr>) r = Some c'" "cinv c' ext None"
    "evolves (c\<lparr>table := T\<rparr>) c'" "linked c' = linked c - set_option r" "lru c' = filter (\<lambda>a. Some a \<noteq> r) (lru c)"
    by (auto simp: linked_def)
  moreover have "evolves c c'" using evolves_trans [OF evolves_fields(3) c'(3)] .
  ultimately show ?thesis using r(1,2) by (intro exI [of _ c'] exI [of _ r]) (simp add: lru_Erase_def)
qed

lemma erase_oldest_inv:
  assumes inv: "cinv c ext None" and l: "lru c = a # as"
  shows "\<exists>c'. erase_oldest c = Some c' \<and> cinv c' ext None \<and> evolves c c' \<and> linked c' = linked c - {a} \<and> lru c' = as"
proof -
  note D = cinvD [OF inv]
  have a: "a \<in> linked c" "a \<in> mem (table c)" using l D(5) by (auto simp: linked_def)
  obtain h where h: "deref (heap c) a = Some h" using linked_handle [OF inv a(1)] .
  obtain c' r where c': "lru_Erase c (h_key h) (h_hash h) = Some c'" "found (heap c) (table c) (h_key h) (h_hash h) r" "cinv c' ext None"
    "evolves c c'" "linked c' = linked c - set_option r" "lru c' = filter (\<lambda>a. Some a \<noteq> r) (lru c)" using Erase_inv [OF inv] by blast
  have r: "r = Some a" using c'(2) a(2) h by (auto simp: found_def matches_def)
  have "filter (\<lambda>x. Some x \<noteq> r) (lru c) = as" using D(3) l r by (auto simp: lists_ok_def intro!: filter_True)
  then show ?thesis using c' h l r by (intro exI [of _ c']) (simp add: erase_oldest_def)
qed

text \<open>Eviction takes the oldest unreferenced entries, and no more than the capacity asks for.\<close>

lemma evict_inv:
  "cinv c ext None \<Longrightarrow> \<exists>c' k. evict c = Some c' \<and> cinv c' ext None \<and> evolves c c' \<and> linked c' = linked c - set (take k (lru c)) \<and>
    lru c' = drop k (lru c) \<and> (usage c' \<le> capacity c' \<or> lru c' = [])"
proof (induction "lru c" arbitrary: c)
  case Nil
  then show ?case by (subst evict.simps) (auto intro!: exI [of _ 0])
next
  case (Cons a as)
  show ?case
  proof (cases "usage c > capacity c")
    case False
    then show ?thesis using Cons.prems by (subst evict.simps) (auto intro!: exI [of _ 0])
  next
    case True
    obtain c1 where c1: "erase_oldest c = Some c1" "cinv c1 ext None" "evolves c c1" "linked c1 = linked c - {a}" "lru c1 = as"
      using erase_oldest_inv [OF Cons.prems Cons.hyps(2) [symmetric]] by blast
    obtain c' k where c': "evict c1 = Some c'" "cinv c' ext None" "evolves c1 c'" "linked c' = linked c1 - set (take k (lru c1))"
      "lru c' = drop k (lru c1)" "usage c' \<le> capacity c' \<or> lru c' = []" using Cons.hyps(1) [OF c1(5) [symmetric] c1(2)] by blast
    moreover have "evict c = Some c'" using True Cons.hyps(2) c1(1) c'(1) by (subst evict.simps) (metis bind.bind_lunit list.distinct(1))
    ultimately show ?thesis using c1 Cons.hyps(2) [symmetric] evolves_trans [OF c1(3) c'(3)] by (intro exI [of _ c'] exI [of _ "Suc k"]) auto
  qed
qed

lemma Prune_inv:
  "cinv c ext None \<Longrightarrow> \<exists>c'. lru_Prune c = Some c' \<and> cinv c' ext None \<and> evolves c c' \<and> linked c' = linked c - set (lru c) \<and> lru c' = []"
proof (induction "lru c" arbitrary: c)
  case Nil
  then show ?case by (subst lru_Prune.simps) auto
next
  case (Cons a as)
  obtain c1 where c1: "erase_oldest c = Some c1" "cinv c1 ext None" "evolves c c1" "linked c1 = linked c - {a}" "lru c1 = as"
    using erase_oldest_inv [OF Cons.prems Cons.hyps(2) [symmetric]] by blast
  obtain c' where c': "lru_Prune c1 = Some c'" "cinv c' ext None" "evolves c1 c'" "linked c' = linked c1 - set (lru c1)" "lru c' = []"
    using Cons.hyps(1) [OF c1(5) [symmetric] c1(2)] by blast
  moreover have "lru_Prune c = Some c'" using Cons.hyps(2) c1(1) c'(1) by (subst lru_Prune.simps) (metis bind.bind_lunit list.distinct(1))
  ultimately show ?case using c1 Cons.hyps(2) [symmetric] evolves_trans [OF c1(3) c'(3)] by (intro exI [of _ c']) auto
qed

lemma Lookup_inv:
  assumes inv: "cinv c ext None" and n: "\<And>a. ext a < 2 ^ 32 - 2"
  shows "\<exists>r c'. lru_Lookup c key hash = Some (r, c') \<and> found (heap c) (table c) key hash r \<and> evolves c c' \<and> linked c' = linked c \<and> table c' = table c \<and>
    cinv c' (case r of None \<Rightarrow> ext | Some a \<Rightarrow> ext(a := ext a + 1)) None"
proof -
  note D = cinvD [OF inv]
  obtain r where r: "ht_Lookup (table c) (heap c) key hash = Some r" "found (heap c) (table c) key hash r" using ht_Lookup_exact [OF D(1)] by blast
  show ?thesis
  proof (cases r)
    case None
    then show ?thesis using r inv by (intro exI [of _ None] exI [of _ c]) (simp add: lru_Lookup_def)
  next
    case (Some a)
    then have "a \<in> linked c" using r(2) D(5) by (auto simp: found_def)
    from Ref_inv [OF inv this n] r Some show ?thesis by (auto simp: lru_Lookup_def)
  qed
qed

lemma deref_append: "deref (hp @ [x]) a = (if a = length hp then x else deref hp a)"
  by (auto simp: deref_def nth_append)

lemma found_frame:
  assumes "\<And>a. a \<in> mem T \<Longrightarrow> deref hp' a = deref hp a"
  shows "found hp' T key hash r \<longleftrightarrow> found hp T key hash r"
proof -
  have "a \<in> mem T \<and> matches hp' key hash a \<longleftrightarrow> a \<in> mem T \<and> matches hp key hash a" for a
    using assms by (auto simp: matches_def)
  then show ?thesis by (simp add: found_def)
qed

lemma elems_bound:
  assumes "ht_inv hp T"
  shows "unat (ht_elems T) \<le> length hp"
proof -
  have "mem T \<subseteq> {..<length hp}" using ht_inv_live [OF assms] by (auto dest: deref_less)
  then have "card (mem T) \<le> length hp" using card_mono [of "{..<length hp}"] by simp
  then show ?thesis using assms distinct_card [of "concat (ht_list T)"] unfolding ht_inv_def mem_def by simp
qed

text \<open>The new handle, linked and in the table; the entry it replaces is still linked.\<close>

lemma Insert_link:
  assumes inv: "cinv c ext None" and n: "length (heap c) < 2 ^ 31"
    and h: "h_refs h = 2" "h_in_cache h" and e: "e = length (heap c)"
  defines "c1 \<equiv> c\<lparr>heap := heap c @ [Some h], in_use := in_use c @ [e], usage := usage c + h_charge h\<rparr>"
  shows "\<exists>old T. ht_Insert (table c1) (heap c1) e = Some (old, T) \<and> found (heap c) (table c) (h_key h) (h_hash h) old \<and>
    cinv (c1\<lparr>table := T\<rparr>) (ext(e := 1)) old \<and> linked c1 = insert e (linked c)"
proof -
  note D = cinvD [OF inv]
  have he: "deref (heap c) e = None" using e by (simp add: deref_def)
  have le: "e \<notin> linked c" "ext e = 0" using handles_okD(1) [OF D(2) he] by simp_all
  have hp: "heap c1 = heap c @ [Some h]" and tb: "table c1 = table c" by (simp_all add: c1_def)
  have i1: "ht_inv (heap c1) (table c1)"
    unfolding hp tb using e he by (auto intro!: ht_inv_frame [OF D(1)] simp: deref_append)
  have "unat (ht_elems (table c1)) < 2 ^ 31" using elems_bound [OF D(1)] n unfolding tb by simp
  moreover have "deref (heap c1) e = Some h" using e by (simp add: hp deref_append)
  moreover have "e \<notin> mem (table c1)" using le D(5) tb by simp
  ultimately obtain old T where T: "ht_Insert (table c1) (heap c1) e = Some (old, T)"
    "found (heap c1) (table c1) (h_key h) (h_hash h) old" "ht_inv (heap c1) T" "mem T = insert e (mem (table c1) - set_option old)"
    using ht_Insert_exact [OF i1, of e h] by blast
  have f: "found (heap c) (table c) (h_key h) (h_hash h) old"
  proof -
    have "deref (heap c1) a = deref (heap c) a" if "a \<in> mem (table c)" for a
      using that le D(5) e by (auto simp: hp deref_append)
    then show ?thesis using T(2) found_frame [of "table c" "heap c1" "heap c"] unfolding tb by blast
  qed
  then have old: "set_option old \<subseteq> linked c" using D(5) by (cases old) (auto simp: found_def)
  let ?c = "c1\<lparr>table := T\<rparr>"
  have L: "linked ?c = insert e (linked c)" "linked c1 = insert e (linked c)" by (auto simp: linked_def c1_def)
  have hs: "handles_ok ?c (ext(e := 1))"
    using D(2) le h e unfolding handles_ok_def L by (simp add: hp deref_append)
  have "lists_ok ?c (ext(e := 1))" using D(3) le by (auto simp: lists_ok_def c1_def linked_def)
  moreover have "usage ?c = (\<Sum>a\<in>linked ?c. charge_at (heap ?c) a)"
  proof -
    have "(\<Sum>a\<in>linked c. charge_at (heap ?c) a) = (\<Sum>a\<in>linked c. charge_at (heap c) a)"
      using le e by (intro sum.cong) (auto simp: charge_at_def hp deref_append)
    moreover have "charge_at (heap ?c) e = h_charge h" using e by (simp add: charge_at_def hp deref_append)
    ultimately show ?thesis using D(6) le unfolding L by (simp add: linked_def c1_def)
  qed
  moreover have "mem T = linked ?c - set_option old" using T(4) D(5) le old unfolding L tb by auto
  ultimately have "cinv ?c (ext(e := 1)) old" using T(3) hs old unfolding cinv_def L by auto
  then show ?thesis using T(1) f L by blast
qed

lemma cinv_unlinked:
  assumes inv: "cinv c ext None" and h: "h_refs h = 1" "\<not> h_in_cache h"
  shows "cinv (c\<lparr>heap := heap c @ [Some h]\<rparr>) (ext(length (heap c) := 1)) None"
proof -
  note D = cinvD [OF inv]
  let ?e = "length (heap c)" and ?c = "c\<lparr>heap := heap c @ [Some h]\<rparr>"
  have he: "deref (heap c) ?e = None" by (simp add: deref_def)
  have le: "?e \<notin> linked c" using handles_okD(1) [OF D(2) he] by simp
  have L: "linked ?c = linked c" by (simp add: linked_def)
  have "handles_ok ?c (ext(?e := 1))" using D(2) le h unfolding handles_ok_def L by (simp add: deref_append)
  moreover have "lists_ok ?c (ext(?e := 1))" using D(3) le by (auto simp: lists_ok_def linked_def)
  moreover have "ht_inv (heap ?c) (table ?c)" using he by (auto intro!: ht_inv_frame [OF D(1)] simp: deref_append)
  moreover have "(\<Sum>a\<in>linked c. charge_at (heap ?c) a) = (\<Sum>a\<in>linked c. charge_at (heap c) a)"
    using le by (intro sum.cong) (auto simp: charge_at_def deref_append)
  ultimately show ?thesis using D(5,6) L unfolding cinv_def by simp
qed

lemma lru_Insert_inv:
  assumes inv: "cinv c ext None" and n: "length (heap c) < 2 ^ 31"
  shows "\<exists>c' old k. lru_Insert c key hash value charge d = Some (length (heap c), c') \<and>
    cinv c' (ext(length (heap c) := 1)) None \<and> evolves (c\<lparr>heap := heap c @ [Some (new_LRUHandle key hash value charge d)]\<rparr>) c' \<and>
    found (heap c) (table c) key hash old \<and> (usage c' \<le> capacity c' \<or> lru c' = []) \<and>
    (if capacity c > 0 then linked c' = insert (length (heap c)) (linked c - set_option old) - set (take k (filter (\<lambda>a. Some a \<noteq> old) (lru c)))
     else linked c' = linked c - set (take k (lru c)))"
proof (cases "capacity c > 0")
  case False
  let ?c = "c\<lparr>heap := heap c @ [Some (new_LRUHandle key hash value charge d)]\<rparr>"
  have "cinv ?c (ext(length (heap c) := 1)) None" by (rule cinv_unlinked [OF inv]) (simp_all add: new_LRUHandle_def)
  from evict_inv [OF this] obtain c' k where c': "evict ?c = Some c'" "cinv c' (ext(length (heap c) := 1)) None" "evolves ?c c'"
    "linked c' = linked ?c - set (take k (lru ?c))" "usage c' \<le> capacity c' \<or> lru c' = []" by blast
  obtain old where "found (heap c) (table c) key hash old" using ht_Lookup_exact [OF cinvD(1) [OF inv]] by blast
  moreover have "lru_Insert c key hash value charge d = Some (length (heap c), c')"
    using False c'(1) by (simp add: lru_Insert_def new_LRUHandle_def Let_def)
  ultimately show ?thesis using c' False by (intro exI [of _ c'] exI [of _ old] exI [of _ k]) (simp add: linked_def)
next
  case True
  let ?e = "length (heap c)" and ?h = "new_LRUHandle key hash value charge d\<lparr>h_refs := 2, h_in_cache := True\<rparr>"
  let ?c1 = "c\<lparr>heap := heap c @ [Some ?h], in_use := in_use c @ [?e], usage := usage c + h_charge ?h\<rparr>"
  obtain old T where T: "ht_Insert (table ?c1) (heap ?c1) ?e = Some (old, T)" "found (heap c) (table c) (h_key ?h) (h_hash ?h) old"
    "cinv (?c1\<lparr>table := T\<rparr>) (ext(?e := 1)) old" "linked ?c1 = insert ?e (linked c)"
    using Insert_link [OF inv n, of ?h ?e] by auto
  from FinishErase_inv [OF T(3)] obtain c2 where c2: "FinishErase (?c1\<lparr>table := T\<rparr>) old = Some c2" "cinv c2 (ext(?e := 1)) None"
    "evolves (?c1\<lparr>table := T\<rparr>) c2" "linked c2 = linked ?c1 - set_option old" "lru c2 = filter (\<lambda>a. Some a \<noteq> old) (lru c)"
    by (auto simp: linked_def)
  from evict_inv [OF c2(2)] obtain c' k where c': "evict c2 = Some c'" "cinv c' (ext(?e := 1)) None" "evolves c2 c'"
    "linked c' = linked c2 - set (take k (lru c2))" "usage c' \<le> capacity c' \<or> lru c' = []" by blast
  have "old \<noteq> Some ?e" using T(2) cinvD(5) [OF inv] handles_okD(1) [OF cinvD(2) [OF inv], of ?e] by (auto simp: found_def deref_def)
  then have L: "linked c' = insert ?e (linked c - set_option old) - set (take k (filter (\<lambda>a. Some a \<noteq> old) (lru c)))"
    using c'(4) c2(4,5) T(4) by auto
  have "evolves (c\<lparr>heap := heap c @ [Some (new_LRUHandle key hash value charge d)]\<rparr>) (?c1\<lparr>table := T\<rparr>)"
    by (auto simp: evolves_def live_def entry_def contents_def deref_append split: if_splits)
  then have ev: "evolves (c\<lparr>heap := heap c @ [Some (new_LRUHandle key hash value charge d)]\<rparr>) c'" using c2(3) c'(3) evolves_trans by blast
  have "lru_Insert c key hash value charge d = Some (?e, c')"
    using True T(1) c2(1) c'(1) by (simp add: lru_Insert_def new_LRUHandle_def Let_def set_handle_def)
  then show ?thesis using c' ev L T(2) True by (intro exI [of _ c'] exI [of _ old] exI [of _ k]) (simp add: new_LRUHandle_def)
qed

section \<open>The sharded cache and its clients\<close>

lemma Shard_less: "Shard hash < kNumShards"
proof -
  have "unat (drop_bit 28 hash) = unat hash div 2 ^ 28" by (simp add: drop_bit_eq_div unat_div)
  moreover have "unat hash < 2 ^ 32" using unsigned_less [of hash] by simp
  ultimately show ?thesis by (simp add: Shard_def kNumShards_def kNumShardBits_def less_mult_imp_div_less)
qed

definition hashed :: "nat \<Rightarrow> ('d, 'v) LRUCache \<Rightarrow> bool" where
  "hashed s x \<longleftrightarrow> (\<forall>a h. deref (heap x) a = Some h \<longrightarrow> h_hash h = HashSlice (h_key h) \<and> Shard (HashSlice (h_key h)) = s)"

definition shard_inv :: "nat \<Rightarrow> ('d, 'v) LRUCache \<Rightarrow> (nat \<Rightarrow> nat) \<Rightarrow> nat \<Rightarrow> bool" where
  "shard_inv s x ext n \<longleftrightarrow> cinv x ext None \<and> hashed s x \<and> length (heap x) \<le> n \<and> (\<forall>a. ext a \<le> n)"

definition sinv :: "('d, 'v) ShardedLRUCache \<Rightarrow> (cache_handle \<Rightarrow> nat) \<Rightarrow> nat \<Rightarrow> bool" where
  "sinv c ext n \<longleftrightarrow>
     length (shards c) = kNumShards \<and> (\<forall>s < kNumShards. shard_inv s (shards c ! s) (\<lambda>a. ext (s, a)) n) \<and>
     (\<forall>s a. kNumShards \<le> s \<longrightarrow> ext (s, a) = 0)"

definition all_live :: "('d, 'v) ShardedLRUCache \<Rightarrow> ('d \<times> bytes \<times> 'v) multiset" where
  "all_live c = (\<Sum>x\<leftarrow>shards c. live (heap x))"

definition all_deleted :: "('d, 'v) ShardedLRUCache \<Rightarrow> ('d \<times> bytes \<times> 'v) multiset" where
  "all_deleted c = (\<Sum>x\<leftarrow>shards c. mset (deleted x))"

text \<open>
  The histories of a cache: \<open>held\<close> counts the references the clients hold, \<open>ins\<close> collects the entries inserted, \<open>n\<close> the
  calls. Clients release only handles they hold.
\<close>

inductive history :: "u64 \<Rightarrow> ('d, 'v) ShardedLRUCache \<Rightarrow> (cache_handle \<Rightarrow> nat) \<Rightarrow> ('d \<times> bytes \<times> 'v) multiset \<Rightarrow> nat \<Rightarrow> bool" for cap where
  start: "NewLRUCache cap = Some c \<Longrightarrow> history cap c (\<lambda>_. 0) {#} 0"
| insert: "history cap c held ins n \<Longrightarrow> cache_Insert c key v charge d = Some (h, c') \<Longrightarrow>
    history cap c' (held(h := held h + 1)) (add_mset (d, key, v) ins) (Suc n)"
| hit: "history cap c held ins n \<Longrightarrow> cache_Lookup c key = Some (Some h, c') \<Longrightarrow> history cap c' (held(h := held h + 1)) ins (Suc n)"
| miss: "history cap c held ins n \<Longrightarrow> cache_Lookup c key = Some (None, c') \<Longrightarrow> history cap c' held ins (Suc n)"
| release: "history cap c held ins n \<Longrightarrow> 0 < held h \<Longrightarrow> cache_Release c h = Some c' \<Longrightarrow> history cap c' (held(h := held h - 1)) ins (Suc n)"
| erase: "history cap c held ins n \<Longrightarrow> cache_Erase c key = Some c' \<Longrightarrow> history cap c' held ins (Suc n)"
| prune: "history cap c held ins n \<Longrightarrow> cache_Prune c = Some c' \<Longrightarrow> history cap c' held ins (Suc n)"

lemma hashed_evolves: "hashed s x \<Longrightarrow> evolves x x' \<Longrightarrow> hashed s x'"
  unfolding hashed_def evolves_def contents_def entry_def by (metis prod.inject)

lemma evolves_length: "evolves x x' \<Longrightarrow> length (heap x') = length (heap x)"
  by (simp add: evolves_def)

lemma sinv_shard: "sinv c held n \<Longrightarrow> shard_inv (Shard hash) (shards c ! Shard hash) (\<lambda>a. held (Shard hash, a)) n"
  using Shard_less by (simp add: sinv_def)

lemma shard_inv_step:
  assumes "shard_inv s x ext n" "evolves x x'" "cinv x' ext' None" "\<And>a. ext' a \<le> Suc n"
  shows "shard_inv s x' ext' (Suc n)"
  using assms evolves_length [OF assms(2)] hashed_evolves by (auto simp: shard_inv_def)

lemma shard_inv_Suc: "shard_inv s x ext n \<Longrightarrow> shard_inv s x ext (Suc n)"
  by (auto simp: shard_inv_def intro: le_SucI)

lemma sinv_set_shard:
  assumes "sinv c held n" "s < kNumShards" "shard_inv s x ext (Suc n)"
    "\<And>a. held' (s, a) = ext a" "\<And>t a. t \<noteq> s \<Longrightarrow> held' (t, a) = held (t, a)"
  shows "sinv (set_shard c s x) held' (Suc n)"
  unfolding sinv_def
proof (intro conjI allI impI)
  fix t assume "t < kNumShards"
  then show "shard_inv t (shards (set_shard c s x) ! t) (\<lambda>a. held' (t, a)) (Suc n)"
    using assms shard_inv_Suc [of t "shards c ! t" "\<lambda>a. held (t, a)" n] by (cases "t = s") (auto simp: sinv_def set_shard_def)
qed (use assms in \<open>auto simp: sinv_def set_shard_def\<close>)

lemma totals_set_shard:
  assumes "s < length (shards c)"
  shows "all_live (set_shard c s x) + live (heap (shards c ! s)) = all_live c + live (heap x)"
    "all_deleted (set_shard c s x) + mset (deleted (shards c ! s)) = all_deleted c + mset (deleted x)"
  using sum_list_update_mset [OF assms, of "\<lambda>x. live (heap x)" x] sum_list_update_mset [OF assms, of "\<lambda>x. mset (deleted x)" x]
  by (simp_all add: all_live_def all_deleted_def set_shard_def)

lemma totals_evolves:
  assumes "s < length (shards c)" "evolves (shards c ! s) x"
  shows "all_live (set_shard c s x) + all_deleted (set_shard c s x) = all_live c + all_deleted c"
proof -
  let ?l = "live (heap (shards c ! s))" and ?d = "mset (deleted (shards c ! s))"
  have "all_live (set_shard c s x) + all_deleted (set_shard c s x) + (?l + ?d) = all_live c + all_deleted c + (live (heap x) + mset (deleted x))"
    using arg_cong2 [of _ _ _ _ "(+)", OF totals_set_shard [OF assms(1), of x]] by (simp add: algebra_simps)
  moreover have "live (heap x) + mset (deleted x) = ?l + ?d" using assms(2) by (simp add: evolves_def)
  ultimately show ?thesis by simp
qed

definition caps :: "('d, 'v) ShardedLRUCache \<Rightarrow> u64 list" where
  "caps c = map capacity (shards c)"

lemma caps_set_shard [simp]: "capacity x = capacity (shards c ! s) \<Longrightarrow> caps (set_shard c s x) = caps c"
  by (simp add: caps_def set_shard_def map_update list_update_same_conv) (metis list_update_beyond list_update_id map_update not_le nth_map)

lemma evolves_capacity: "evolves x x' \<Longrightarrow> capacity x' = capacity x"
  by (simp add: evolves_def)

lemma sinv_length: "sinv c held n \<Longrightarrow> length (shards c) = kNumShards"
  by (simp add: sinv_def)

text \<open>One call: it returns, keeps the invariant and loses no entry.\<close>

lemma sharded_Insert:
  assumes inv: "sinv c held n" and n: "n < 2 ^ 31"
  shows "\<exists>h c'. cache_Insert c key v charge d = Some (h, c') \<and> sinv c' (held(h := held h + 1)) (Suc n) \<and>
    all_live c' + all_deleted c' = all_live c + all_deleted c + {#(d, key, v)#} \<and> caps c' = caps c"
proof -
  let ?s = "Shard (HashSlice key)" let ?x = "shards c ! ?s" let ?e = "length (heap ?x)" and ?h = "new_LRUHandle key (HashSlice key) v charge d"
  have I: "shard_inv ?s ?x (\<lambda>a. held (?s, a)) n" by (rule sinv_shard [OF inv])
  then have x: "cinv ?x (\<lambda>a. held (?s, a)) None" "?e < 2 ^ 31" using n by (simp_all add: shard_inv_def)
  obtain x' where x': "lru_Insert ?x key (HashSlice key) v charge d = Some (?e, x')"
    "cinv x' ((\<lambda>a. held (?s, a))(?e := 1)) None" "evolves (?x\<lparr>heap := heap ?x @ [Some ?h]\<rparr>) x'" using lru_Insert_inv [OF x] by blast
  have z: "held (?s, ?e) = 0" using handles_okD(1) [OF cinvD(2) [OF x(1)], of ?e] by (simp add: deref_def)
  have "hashed ?s (?x\<lparr>heap := heap ?x @ [Some ?h]\<rparr>)"
    using I by (auto simp: shard_inv_def hashed_def deref_append new_LRUHandle_def split: if_splits)
  then have "shard_inv ?s x' ((\<lambda>a. held (?s, a))(?e := 1)) (Suc n)"
    using I x'(2) hashed_evolves [OF _ x'(3)] evolves_length [OF x'(3)] by (auto simp: shard_inv_def le_SucI)
  then have S: "sinv (set_shard c ?s x') (held((?s, ?e) := held (?s, ?e) + 1)) (Suc n)"
    by (rule sinv_set_shard [OF inv Shard_less]) (auto simp: z)
  have s: "?s < length (shards c)" using Shard_less sinv_length [OF inv] by simp
  have l: "live (heap x') + mset (deleted x') = live (heap ?x) + mset (deleted ?x) + {#(d, key, v)#}"
  proof -
    have "live (heap x') + mset (deleted x') = live (heap ?x @ [Some ?h]) + mset (deleted ?x)" using x'(3) by (simp add: evolves_def)
    moreover have "live (heap ?x @ [Some ?h]) = live (heap ?x) + {#(d, key, v)#}" by (simp add: live_def entry_def new_LRUHandle_def)
    ultimately show ?thesis by simp
  qed
  have "all_live (set_shard c ?s x') + all_deleted (set_shard c ?s x') + (live (heap ?x) + mset (deleted ?x)) =
    all_live c + all_deleted c + (live (heap x') + mset (deleted x'))"
    using arg_cong2 [of _ _ _ _ "(+)", OF totals_set_shard [OF s, of x']] by (simp add: algebra_simps)
  then have "all_live (set_shard c ?s x') + all_deleted (set_shard c ?s x') = all_live c + all_deleted c + {#(d, key, v)#}"
    unfolding l by simp
  then show ?thesis using S x'(1) by (intro exI [of _ "(?s, ?e)"] exI [of _ "set_shard c ?s x'"]) (simp add: cache_Insert_def Let_def evolves_capacity [OF x'(3)])
qed

lemma sharded_Lookup:
  assumes inv: "sinv c held n" and n: "n < 2 ^ 31"
  shows "\<exists>r c'. cache_Lookup c key = Some (r, c') \<and> sinv c' (case r of None \<Rightarrow> held | Some h \<Rightarrow> held(h := held h + 1)) (Suc n) \<and>
    all_live c' + all_deleted c' = all_live c + all_deleted c \<and> caps c' = caps c"
proof -
  let ?s = "Shard (HashSlice key)" let ?x = "shards c ! ?s"
  have I: "shard_inv ?s ?x (\<lambda>a. held (?s, a)) n" by (rule sinv_shard [OF inv])
  then have x: "cinv ?x (\<lambda>a. held (?s, a)) None" "\<And>a. held (?s, a) < 2 ^ 32 - 2"
    using n le_less_trans [of "held (?s, _)" n "2 ^ 32 - 2"] by (auto simp: shard_inv_def)
  obtain r x' where x': "lru_Lookup ?x key (HashSlice key) = Some (r, x')" "evolves ?x x'"
    "cinv x' (case r of None \<Rightarrow> \<lambda>a. held (?s, a) | Some a \<Rightarrow> (\<lambda>a. held (?s, a))(a := held (?s, a) + 1)) None"
    using Lookup_inv [OF x] by blast
  have "shard_inv ?s x' (case r of None \<Rightarrow> \<lambda>a. held (?s, a) | Some a \<Rightarrow> (\<lambda>a. held (?s, a))(a := held (?s, a) + 1)) (Suc n)"
    using I by (intro shard_inv_step [OF I x'(2,3)]) (auto simp: shard_inv_def le_SucI split: option.splits)
  then have "sinv (set_shard c ?s x') (case r of None \<Rightarrow> held | Some a \<Rightarrow> held((?s, a) := held (?s, a) + 1)) (Suc n)"
    by (rule sinv_set_shard [OF inv Shard_less]) (auto split: option.splits)
  moreover have "?s < length (shards c)" using Shard_less sinv_length [OF inv] by simp
  ultimately show ?thesis using x'(1) totals_evolves [OF _ x'(2)]
    by (intro exI [of _ "map_option (Pair ?s) r"] exI [of _ "set_shard c ?s x'"]) (auto simp: cache_Lookup_def Let_def evolves_capacity [OF x'(2)] split: option.splits)
qed

lemma held_handle:
  assumes inv: "sinv c held n" and h: "0 < held h"
  obtains e where "cache_handle_at c h = Some e" "Shard (h_hash e) = fst h" "fst h < kNumShards"
proof -
  have s: "fst h < kNumShards" using inv h unfolding sinv_def by (metis not_le not_less_zero prod.collapse)
  then have I: "shard_inv (fst h) (shards c ! fst h) (\<lambda>a. held (fst h, a)) n" using inv by (simp add: sinv_def)
  then have "deref (heap (shards c ! fst h)) (snd h) \<noteq> None"
    using handles_okD(1) [OF cinvD(2)] h unfolding shard_inv_def by (metis not_less_zero prod.collapse)
  then show ?thesis using that s I sinv_length [OF inv] by (auto simp: cache_handle_at_def shard_inv_def hashed_def)
qed

lemma sharded_Release:
  assumes inv: "sinv c held n" and h: "0 < held h"
  shows "\<exists>c'. cache_Release c h = Some c' \<and> sinv c' (held(h := held h - 1)) (Suc n) \<and>
    all_live c' + all_deleted c' = all_live c + all_deleted c \<and> caps c' = caps c"
proof -
  obtain e where e: "cache_handle_at c h = Some e" "Shard (h_hash e) = fst h" "fst h < kNumShards" using held_handle [OF assms] .
  let ?s = "fst h" let ?x = "shards c ! ?s"
  have I: "shard_inv ?s ?x (\<lambda>a. held (?s, a)) n" using inv e(3) by (simp add: sinv_def)
  then obtain x' where x': "Unref ?x (snd h) = Some x'" "cinv x' ((\<lambda>a. held (?s, a))(snd h := held (?s, snd h) - 1)) None" "evolves ?x x'"
    using Unref_inv [of ?x "\<lambda>a. held (?s, a)" "snd h"] h by (auto simp: shard_inv_def)
  have "shard_inv ?s x' ((\<lambda>a. held (?s, a))(snd h := held (?s, snd h) - 1)) (Suc n)"
    using I by (intro shard_inv_step [OF I x'(3,2)]) (auto simp: shard_inv_def le_SucI dest!: spec [of _ "snd h"])
  then have "sinv (set_shard c ?s x') (held(h := held h - 1)) (Suc n)"
    by (rule sinv_set_shard [OF inv e(3)]) (cases h; auto)+
  moreover have "?s < length (shards c)" using e(3) sinv_length [OF inv] by simp
  ultimately show ?thesis using x'(1) e totals_evolves [OF _ x'(3)]
    by (intro exI [of _ "set_shard c ?s x'"]) (simp add: cache_Release_def lru_Release_def Let_def evolves_capacity [OF x'(3)])
qed

lemma sharded_Erase:
  assumes inv: "sinv c held n"
  shows "\<exists>c'. cache_Erase c key = Some c' \<and> sinv c' held (Suc n) \<and> all_live c' + all_deleted c' = all_live c + all_deleted c \<and> caps c' = caps c"
proof -
  let ?s = "Shard (HashSlice key)" let ?x = "shards c ! ?s"
  have I: "shard_inv ?s ?x (\<lambda>a. held (?s, a)) n" by (rule sinv_shard [OF inv])
  then obtain x' where x': "lru_Erase ?x key (HashSlice key) = Some x'" "cinv x' (\<lambda>a. held (?s, a)) None" "evolves ?x x'"
    using Erase_inv [of ?x "\<lambda>a. held (?s, a)"] unfolding shard_inv_def by blast
  have "shard_inv ?s x' (\<lambda>a. held (?s, a)) (Suc n)"
    using I by (intro shard_inv_step [OF I x'(3,2)]) (auto simp: shard_inv_def le_SucI)
  then have "sinv (set_shard c ?s x') held (Suc n)" by (rule sinv_set_shard [OF inv Shard_less]) auto
  moreover have "?s < length (shards c)" using Shard_less sinv_length [OF inv] by simp
  ultimately show ?thesis using x'(1) totals_evolves [OF _ x'(3)]
    by (intro exI [of _ "set_shard c ?s x'"]) (simp add: cache_Erase_def Let_def evolves_capacity [OF x'(3)])
qed

lemma prune_shards_inv:
  "(\<And>i. i < length xs \<Longrightarrow> shard_inv (s + i) (xs ! i) (\<lambda>a. held (s + i, a)) n) \<Longrightarrow>
    \<exists>ys. prune_shards xs = Some ys \<and> length ys = length xs \<and>
      (\<forall>i < length xs. shard_inv (s + i) (ys ! i) (\<lambda>a. held (s + i, a)) (Suc n) \<and> linked (ys ! i) = set (in_use (xs ! i))) \<and>
      map capacity ys = map capacity xs \<and>
      (\<Sum>x\<leftarrow>ys. live (heap x)) + (\<Sum>x\<leftarrow>ys. mset (deleted x)) = (\<Sum>x\<leftarrow>xs. live (heap x)) + (\<Sum>x\<leftarrow>xs. mset (deleted x))"
proof (induction xs arbitrary: s)
  case (Cons x xs)
  have I: "shard_inv s x (\<lambda>a. held (s, a)) n" using Cons.prems [of 0] by simp
  then obtain y where y: "lru_Prune x = Some y" "cinv y (\<lambda>a. held (s, a)) None" "evolves x y" "linked y = linked x - set (lru x)"
    using Prune_inv [of x "\<lambda>a. held (s, a)"] unfolding shard_inv_def by blast
  have d: "linked y = set (in_use x)" using y(4) I by (auto simp: shard_inv_def cinv_def lists_ok_def linked_def)
  have Y: "shard_inv s y (\<lambda>a. held (s, a)) (Suc n)"
    using I by (intro shard_inv_step [OF I y(3,2)]) (auto simp: shard_inv_def le_SucI)
  obtain ys where ys: "prune_shards xs = Some ys" "length ys = length xs"
    "\<forall>i < length xs. shard_inv (Suc s + i) (ys ! i) (\<lambda>a. held (Suc s + i, a)) (Suc n) \<and> linked (ys ! i) = set (in_use (xs ! i))"
    "map capacity ys = map capacity xs"
    "(\<Sum>x\<leftarrow>ys. live (heap x)) + (\<Sum>x\<leftarrow>ys. mset (deleted x)) = (\<Sum>x\<leftarrow>xs. live (heap x)) + (\<Sum>x\<leftarrow>xs. mset (deleted x))"
    using Cons.IH [of "Suc s"] Cons.prems [of "Suc i" for i] by auto
  have "live (heap y) + mset (deleted y) = live (heap x) + mset (deleted x)" using y(3) by (simp add: evolves_def)
  then have "(\<Sum>x\<leftarrow>y # ys. live (heap x)) + (\<Sum>x\<leftarrow>y # ys. mset (deleted x)) = (\<Sum>x\<leftarrow>x # xs. live (heap x)) + (\<Sum>x\<leftarrow>x # xs. mset (deleted x))"
    using arg_cong2 [of _ _ _ _ "(+)", OF _ ys(5)] by (simp add: algebra_simps)
  then show ?case using y(1) ys Y d by (intro exI [of _ "y # ys"]) (auto simp: nth_Cons evolves_capacity [OF y(3)] split: nat.splits)
qed simp

lemma sharded_Prune:
  assumes inv: "sinv c held n"
  shows "\<exists>c'. cache_Prune c = Some c' \<and> sinv c' held (Suc n) \<and> all_live c' + all_deleted c' = all_live c + all_deleted c \<and>
    caps c' = caps c \<and> (\<forall>s < kNumShards. linked (shards c' ! s) = set (in_use (shards c ! s)))"
proof -
  obtain ys where "prune_shards (shards c) = Some ys" "length ys = length (shards c)"
    "\<forall>i < length (shards c). shard_inv i (ys ! i) (\<lambda>a. held (i, a)) (Suc n) \<and> linked (ys ! i) = set (in_use (shards c ! i))"
    "map capacity ys = map capacity (shards c)"
    "(\<Sum>x\<leftarrow>ys. live (heap x)) + (\<Sum>x\<leftarrow>ys. mset (deleted x)) = (\<Sum>x\<leftarrow>shards c. live (heap x)) + (\<Sum>x\<leftarrow>shards c. mset (deleted x))"
    using prune_shards_inv [of "shards c" 0 held n] inv by (auto simp: sinv_def)
  then show ?thesis using inv by (intro exI [of _ "c\<lparr>shards := ys\<rparr>"]) (auto simp: cache_Prune_def sinv_def all_live_def all_deleted_def caps_def)
qed

lemma new_cache:
  "\<exists>c :: ('d, 'v) ShardedLRUCache. NewLRUCache cap = Some c \<and> sinv c (\<lambda>_. 0) 0 \<and> all_live c + all_deleted c = {#} \<and>
    caps c = replicate kNumShards ((cap + 15) div 16)"
proof -
  let ?hp = "[] :: ('d, 'v) memory"
  obtain T where T: "new_HandleTable ?hp = Some T" "ht_inv ?hp T" "mem T = {}" using new_HandleTable_inv [of ?hp] by blast
  let ?x = "\<lparr>capacity = (cap + 15) div 16, usage = 0, lru = [], in_use = [], table = T, heap = ?hp, deleted = []\<rparr>"
  let ?c = "\<lparr>shards = replicate kNumShards ?x, last_id = 0\<rparr>"
  have "shard_inv s ?x (\<lambda>_. 0) 0" for s
    using T by (simp add: shard_inv_def cinv_def handles_ok_def lists_ok_def linked_def hashed_def deref_def)
  then have "sinv ?c (\<lambda>_. 0) 0" by (simp add: sinv_def)
  moreover have "NewLRUCache cap = Some ?c"
    using T by (simp add: NewLRUCache_def new_LRUCache_def kNumShards_def kNumShardBits_def Let_def)
  moreover have "sum_list (replicate m {#}) = {#}" for m by (induction m) simp_all
  ultimately show ?thesis by (intro exI [of _ ?c]) (simp add: all_live_def all_deleted_def live_def caps_def)
qed

text \<open>Every history keeps the invariant, and every entry inserted is live or has been deleted once.\<close>

lemma history_inv:
  fixes c :: "('d, 'v) ShardedLRUCache"
  shows "history cap c held ins n \<Longrightarrow> n \<le> 2 ^ 31 \<Longrightarrow>
    sinv c held n \<and> all_live c + all_deleted c = ins \<and> caps c = replicate kNumShards ((cap + 15) div 16)"
proof (induction rule: history.induct)
  case (start c)
  then show ?case using new_cache [of cap, where 'd = 'd and 'v = 'v] by auto
next
  case (insert c held ins n key v charge d h c')
  then show ?case using sharded_Insert [of c held n key v charge d] by fastforce
next
  case (hit c held ins n key h c')
  then show ?case using sharded_Lookup [of c held n key] by (auto simp: fun_upd_def)
next
  case (miss c held ins n key c')
  then show ?case using sharded_Lookup [of c held n key] by (auto simp: fun_upd_def)
next
  case (release c held ins n h c')
  then show ?case using sharded_Release [of c held n h] by (auto simp: fun_upd_def)
next
  case (erase c held ins n key c')
  then show ?case using sharded_Erase [of c held n key] by fastforce
next
  case (prune c held ins n c')
  then show ?case using sharded_Prune [of c held n] by fastforce
qed

section \<open>What a lookup finds\<close>

definition cached :: "('d, 'v) ShardedLRUCache \<Rightarrow> bytes \<Rightarrow> 'v option" where
  "cached c key = (case cache_Lookup c key of Some (Some h, c') \<Rightarrow> cache_Value c' h | _ \<Rightarrow> None)"

definition value_at :: "('d, 'v) LRUCache \<Rightarrow> nat option \<Rightarrow> 'v option" where
  "value_at x r = Option.bind r (\<lambda>a. map_option h_value (deref (heap x) a))"

lemma evolves_value: "evolves x x' \<Longrightarrow> deref (heap x') a = Some h \<Longrightarrow> map_option h_value (deref (heap x) a) = Some (h_value h)"
  unfolding evolves_def contents_def entry_def by (metis option.simps(9) prod.inject)

lemma Lookup_shard:
  assumes inv: "sinv c held n" and n: "n < 2 ^ 31" and s_def: "s = Shard (HashSlice key)"
  shows "\<exists>r. found (heap (shards c ! s)) (table (shards c ! s)) key (HashSlice key) r \<and> cached c key = value_at (shards c ! s) r \<and>
    (\<exists>c'. cache_Lookup c key = Some (map_option (Pair s) r, c'))"
proof -
  let ?x = "shards c ! s"
  have I: "shard_inv s ?x (\<lambda>a. held (s, a)) n" unfolding s_def by (rule sinv_shard [OF inv])
  then have x: "cinv ?x (\<lambda>a. held (s, a)) None" "\<And>a. held (s, a) < 2 ^ 32 - 2"
    using n le_less_trans [of "held (s, _)" n "2 ^ 32 - 2"] by (auto simp: shard_inv_def)
  obtain r x' where r: "lru_Lookup ?x key (HashSlice key) = Some (r, x')" "found (heap ?x) (table ?x) key (HashSlice key) r"
    "evolves ?x x'" "linked x' = linked ?x" "cinv x' (case r of None \<Rightarrow> \<lambda>a. held (s, a) | Some a \<Rightarrow> (\<lambda>a. held (s, a))(a := held (s, a) + 1)) None"
    using Lookup_inv [OF x] by blast
  have l: "s < length (shards c)" using Shard_less sinv_length [OF inv] by (simp add: s_def)
  have L: "cache_Lookup c key = Some (map_option (Pair s) r, set_shard c s x')" using r(1) by (simp add: cache_Lookup_def Let_def s_def)
  have "cached c key = value_at ?x r"
  proof (cases r)
    case (Some a)
    then have "a \<in> linked x'" using r(2,4) cinvD(5) [OF x(1)] by (auto simp: found_def)
    then obtain h where h: "deref (heap x') a = Some h" using linked_handle [OF r(5)] by blast
    then show ?thesis using L Some l evolves_value [OF r(3) h]
      by (auto simp: cached_def value_at_def cache_Value_def cache_handle_at_def set_shard_def)
  qed (use L in \<open>simp add: cached_def value_at_def\<close>)
  then show ?thesis using r(2) L by blast
qed

lemma mem_linked: "shard_inv s x ext n \<Longrightarrow> mem (table x) = linked x"
  by (simp add: shard_inv_def cinv_def)

lemma sharded_insert_lookup:
  assumes inv: "sinv c held n" and n: "Suc n < 2 ^ 31" and ins: "cache_Insert c key v charge d = Some (h, c')"
    and cap: "0 < capacity (shards c ! Shard (HashSlice key))"
  shows "cached c' key = Some v" "cache_Value c' h = Some v"
    "key' \<noteq> key \<Longrightarrow> cached c' key' = None \<or> cached c' key' = cached c key'"
    "key' \<noteq> key \<Longrightarrow> cache_Lookup c key' = Some (Some h', c'') \<Longrightarrow> 0 < held h' \<Longrightarrow> cached c' key' = cached c key'"
proof -
  let ?s = "Shard (HashSlice key)" let ?x = "shards c ! ?s" let ?e = "length (heap ?x)" and ?h = "new_LRUHandle key (HashSlice key) v charge d"
  have I: "shard_inv ?s ?x (\<lambda>a. held (?s, a)) n" by (rule sinv_shard [OF inv])
  then have x: "cinv ?x (\<lambda>a. held (?s, a)) None" "?e < 2 ^ 31" using n by (simp_all add: shard_inv_def)
  obtain x' old k where x': "lru_Insert ?x key (HashSlice key) v charge d = Some (?e, x')"
    "cinv x' ((\<lambda>a. held (?s, a))(?e := 1)) None" "evolves (?x\<lparr>heap := heap ?x @ [Some ?h]\<rparr>) x'"
    "found (heap ?x) (table ?x) key (HashSlice key) old"
    "linked x' = insert ?e (linked ?x - set_option old) - set (take k (filter (\<lambda>a. Some a \<noteq> old) (lru ?x)))"
    using lru_Insert_inv [OF x, of key "HashSlice key" v charge d] cap by auto
  have c': "c' = set_shard c ?s x'" "h = (?s, ?e)" using ins x'(1) by (simp_all add: cache_Insert_def Let_def)
  have l: "?s < length (shards c)" using Shard_less sinv_length [OF inv] by simp
  have inv': "sinv c' (held(h := held h + 1)) (Suc n)" using sharded_Insert [OF inv, of key v charge d] n ins by (auto simp: fun_upd_def)
  have sh: "shards c' ! ?s = x'" "t \<noteq> ?s \<Longrightarrow> shards c' ! t = shards c ! t" for t using c' l by (simp_all add: set_shard_def)
  have ne: "?e \<notin> linked ?x" using handles_okD(1) [OF cinvD(2) [OF x(1)], of ?e] by (simp add: deref_def)
  moreover have "set (take k (filter (\<lambda>a. Some a \<noteq> old) (lru ?x))) \<subseteq> linked ?x" by (auto simp: linked_def dest: in_set_takeD)
  ultimately have e: "?e \<in> linked x'" unfolding x'(5) by blast
  have val: "deref (heap x') a = Some h' \<Longrightarrow> a \<noteq> ?e \<Longrightarrow> \<exists>h. deref (heap ?x) a = Some h \<and> contents h' = contents h" for a h'
    using x'(3) by (auto simp: evolves_def deref_append split: if_splits)
  have vale: "deref (heap x') ?e = Some h' \<Longrightarrow> contents h' = contents ?h" for h'
    using x'(3) by (auto simp: evolves_def deref_append split: if_splits)
  obtain he where he: "deref (heap x') ?e = Some he" using linked_handle [OF x'(2) e] by blast
  have hes: "h_key he = key" "h_hash he = HashSlice key" "h_value he = v"
    using vale [OF he] by (simp_all add: contents_def entry_def new_LRUHandle_def)
  show "cache_Value c' h = Some v" using he hes sh(1) c' l by (simp add: cache_Value_def cache_handle_at_def set_shard_def)
  have lk: "\<exists>r. found (heap (shards c' ! Shard (HashSlice k))) (table (shards c' ! Shard (HashSlice k))) k (HashSlice k) r \<and>
      cached c' k = value_at (shards c' ! Shard (HashSlice k)) r" for k
    using Lookup_shard [OF inv' n refl] by blast
  have m': "mem (table x') = linked x'" using x'(2) by (simp add: cinv_def)
  show "cached c' key = Some v"
  proof -
    obtain r where r: "found (heap x') (table x') key (HashSlice key) r" "cached c' key = value_at x' r" using lk [of key] sh(1) by auto
    then have "r = Some ?e" using e m' he hes by (auto simp: found_def matches_def)
    then show ?thesis using r(2) he hes by (simp add: value_at_def)
  qed
  obtain r where r: "found (heap (shards c' ! Shard (HashSlice key'))) (table (shards c' ! Shard (HashSlice key'))) key' (HashSlice key') r"
    "cached c' key' = value_at (shards c' ! Shard (HashSlice key')) r" using lk by blast
  obtain r0 c0 where r0: "found (heap (shards c ! Shard (HashSlice key'))) (table (shards c ! Shard (HashSlice key'))) key' (HashSlice key') r0"
    "cached c key' = value_at (shards c ! Shard (HashSlice key')) r0" "cache_Lookup c key' = Some (map_option (Pair (Shard (HashSlice key'))) r0, c0)"
    using Lookup_shard [OF inv _ refl, of key'] n by auto
  have other: "cached c' key' = cached c key'" if "Shard (HashSlice key') \<noteq> ?s"
    using r r0 sh(2) [OF that] found_unique [OF r(1)] by auto
  have m: "mem (table ?x) = linked ?x" using x(1) by (simp add: cinv_def)
  have in_both: "value_at x' (Some a) = value_at ?x (Some a) \<and> (matches (heap x') key' hs a \<longleftrightarrow> matches (heap ?x) key' hs a)"
    if ax: "a \<in> linked x'" "a \<noteq> ?e" for a hs
  proof -
    obtain b where b: "deref (heap x') a = Some b" using linked_handle [OF x'(2) ax(1)] by blast
    then show ?thesis using val [OF b ax(2)] by (auto simp: value_at_def matches_def contents_def entry_def)
  qed
  show "cached c' key' = None \<or> cached c' key' = cached c key'" if "key' \<noteq> key"
  proof (cases "Shard (HashSlice key') = ?s")
    case same: True
    show ?thesis
    proof (cases r)
      case (Some a)
      then have a: "a \<in> linked x'" "matches (heap x') key' (HashSlice key') a" using r(1) m' sh(1) same by (auto simp: found_def)
      then have ae: "a \<noteq> ?e" using he hes that by (auto simp: matches_def)
      then have "r0 = Some a" using a x'(5) m in_both [OF a(1) ae] r0(1) same by (auto simp: found_def)
      then show ?thesis using in_both [OF a(1) ae] r(2) r0(2) same sh(1) Some by simp
    qed (use r in \<open>simp add: value_at_def\<close>)
  qed (use other in blast)
  show "cached c' key' = cached c key'" if k: "key' \<noteq> key" "cache_Lookup c key' = Some (Some h', c'')" "0 < held h'"
  proof (cases "Shard (HashSlice key') = ?s")
    case same: True
    obtain a where a: "r0 = Some a" "h' = (?s, a)" using r0(3) k(2) same by (cases r0) auto
    then have am: "a \<in> linked ?x" "matches (heap ?x) key' (HashSlice key') a" using r0(1) m same by (auto simp: found_def)
    have "a \<notin> set (lru ?x)" using k(3) a(2) x(1) by (auto simp: cinv_def lists_ok_def)
    moreover have "old \<noteq> Some a" using x'(4) am(2) k(1) by (auto simp: found_def matches_def)
    ultimately have ax: "a \<in> linked x'" using am(1) unfolding x'(5) by (auto dest: in_set_takeD)
    have ae: "a \<noteq> ?e" using am(1) ne by blast
    have "r = Some a" using r(1) ax am(2) in_both [OF ax ae] m' same sh(1) by (auto simp: found_def)
    then show ?thesis using in_both [OF ax ae] r(2) r0(2) same sh(1) a(1) by simp
  qed (use other in blast)
qed

lemma history_capacity:
  assumes "history cap c held ins n" "n \<le> 2 ^ 31" "s < kNumShards"
  shows "capacity (shards c ! s) = (cap + 15) div 16"
  using history_inv [OF assms(1,2)] assms(3) sinv_length unfolding caps_def by (metis nth_map nth_replicate)

lemma in_sum_list_mset: "x \<in># sum_list ms \<longleftrightarrow> (\<exists>m\<in>set ms. x \<in># m)"
  by (induction ms) auto

lemma live_entry: "x \<in># live hp \<longleftrightarrow> (\<exists>a h. deref hp a = Some h \<and> x = entry h)"
proof -
  have "x \<in># live hp \<longleftrightarrow> (\<exists>h. Some h \<in> set hp \<and> x = entry h)" by (force simp: live_def in_sum_list_mset split: option.splits)
  moreover have "Some h \<in> set hp \<longleftrightarrow> (\<exists>a. deref hp a = Some h)" for h by (auto simp: deref_def in_set_conv_nth split: if_splits)
  ultimately show ?thesis by blast
qed

lemma unheld_pruned:
  assumes inv: "sinv c held n" and z: "\<And>h. held h = 0" and p: "cache_Prune c = Some c'"
  shows "all_live c' = {#}" "cache_TotalCharge c' = 0"
proof -
  have c': "sinv c' held (Suc n)" "\<forall>s < kNumShards. linked (shards c' ! s) = set (in_use (shards c ! s))"
    using sharded_Prune [OF inv] p by auto
  have x: "live (heap x) = {#} \<and> usage x = 0" if xs: "x \<in> set (shards c')" for x
  proof -
    obtain s where s: "s < kNumShards" "x = shards c' ! s" using xs sinv_length [OF c'(1)] unfolding in_set_conv_nth by auto
    have "shard_inv s (shards c ! s) (\<lambda>a. held (s, a)) n" using inv s(1) by (simp add: sinv_def)
    then have "in_use (shards c ! s) = []" using z by (cases "in_use (shards c ! s)") (auto simp: shard_inv_def cinv_def lists_ok_def)
    then have e: "linked x = {}" using c'(2) s by simp
    have I: "cinv x (\<lambda>a. held (s, a)) None" using c'(1) s by (simp add: sinv_def shard_inv_def)
    have "deref (heap x) a = None" for a
      using handles_okD(2) [OF cinvD(2) [OF I], of a] e z by (cases "deref (heap x) a") (auto simp: u32_eq_iff)
    then have "live (heap x) = {#}" using live_entry [of _ "heap x"] by (metis multiset_nonemptyE option.discI)
    then show ?thesis using cinvD(6) [OF I] e by simp
  qed
  have "(\<Sum>x\<leftarrow>xs. live (heap x)) = {#}" if "\<forall>x\<in>set xs. live (heap x) = {#}" for xs :: "('a, 'b) LRUCache list"
    using that by (induction xs) simp_all
  then show "all_live c' = {#}" using x by (simp add: all_live_def)
  have "foldl (\<lambda>t x. t + lru_TotalCharge x) 0 xs = 0" if "\<forall>x\<in>set xs. usage x = 0" for xs :: "('a, 'b) LRUCache list"
    using that by (induction xs) (simp_all add: lru_TotalCharge_def)
  then show "cache_TotalCharge c' = 0" using x by (simp add: cache_TotalCharge_def)
qed

section \<open>Properties\<close>

text \<open>
  C17. In any history of fewer than \<open>2 ^ 31\<close> calls every call of the cache returns: the searches meet no freed handle,
  the table doubling, the eviction and the pruning loops end; a handle a client still holds can be released
  and read.
\<close>

theorem cache_calls_return:
  assumes "history cap c held ins n" "n < 2 ^ 31"
  shows "cache_Insert c key v charge d \<noteq> None \<and> cache_Lookup c key \<noteq> None \<and> cache_Erase c key \<noteq> None \<and> cache_Prune c \<noteq> None \<and>
    (0 < held h \<longrightarrow> cache_Release c h \<noteq> None \<and> cache_Value c h \<noteq> None)"
proof -
  have inv: "sinv c held n" using history_inv [OF assms(1)] assms(2) by simp
  have "cache_Value c h \<noteq> None" if "0 < held h" using held_handle [OF inv that] by (auto simp: cache_Value_def)
  then show ?thesis
    using sharded_Insert [OF inv assms(2), of key v charge d] sharded_Lookup [OF inv assms(2), of key] sharded_Erase [OF inv, of key]
      sharded_Prune [OF inv] sharded_Release [OF inv, of h] by auto
qed

text \<open>
  C16. Every entry inserted is passed to its deleter exactly once: in any history the entries inserted are the live ones and
  the deleted ones together; what a client holds is live; and once all handles are released, pruning deletes
  every entry and leaves no charge.
\<close>

theorem cache_deletes_once:
  assumes "history cap c held ins n" "n < 2 ^ 31"
  shows "all_live c + all_deleted c = ins \<and>
    (0 < held h \<longrightarrow> (\<exists>e. cache_handle_at c h = Some e \<and> entry e \<in># all_live c)) \<and>
    ((\<forall>h. held h = 0) \<longrightarrow> (\<exists>c'. cache_Prune c = Some c' \<and> all_deleted c' = ins \<and> all_live c' = {#} \<and> cache_TotalCharge c' = 0))"
proof -
  have inv: "sinv c held n" and t: "all_live c + all_deleted c = ins" using history_inv [OF assms(1)] assms(2) by simp_all
  have "\<exists>e. cache_handle_at c h = Some e \<and> entry e \<in># all_live c" if h: "0 < held h"
  proof -
    obtain e where e: "cache_handle_at c h = Some e" using held_handle [OF inv h] by blast
    then have "shards c ! fst h \<in> set (shards c)" "entry e \<in># live (heap (shards c ! fst h))"
      by (auto simp: cache_handle_at_def live_entry split: if_splits)
    then show ?thesis using e by (auto simp: all_live_def in_sum_list_mset)
  qed
  moreover have "\<exists>c'. cache_Prune c = Some c' \<and> all_deleted c' = ins \<and> all_live c' = {#} \<and> cache_TotalCharge c' = 0" if z: "\<forall>h. held h = 0"
    using sharded_Prune [OF inv] unheld_pruned [OF inv] z t by fastforce
  ultimately show ?thesis using t by blast
qed


lemma sample_history:
  "\<exists>(c :: (unit, nat) ShardedLRUCache) h. history 64 c ((\<lambda>_. 0)(h := 1)) {#((), [1], 7)#} 1"
proof -
  obtain c :: "(unit, nat) ShardedLRUCache" where c: "NewLRUCache 64 = Some c" "sinv c (\<lambda>_. 0) 0" using new_cache by blast
  obtain h c' where "cache_Insert c [1] 7 5 () = Some (h, c')" using sharded_Insert [OF c(2), of "[1]" 7 5 "()"] by auto
  then show ?thesis using history.insert [OF history.start [OF c(1)]] by fastforce
qed

theorem cache_calls_return_witness:
  "\<exists>(c :: (unit, nat) ShardedLRUCache) h. history 64 c ((\<lambda>_. 0)(h := 1)) {#((), [1], 7)#} 1 \<and>
    cache_Insert c [2] 8 5 () \<noteq> None \<and> cache_Release c h \<noteq> None"
proof -
  obtain c :: "(unit, nat) ShardedLRUCache" and h where c: "history 64 c ((\<lambda>_. 0)(h := 1)) {#((), [1], 7)#} 1" using sample_history by blast
  then show ?thesis using cache_calls_return [OF c, of "[2]" 8 5 "()" h] by (intro exI [of _ c] exI [of _ h]) simp
qed

theorem cache_deletes_once_witness:
  "\<exists>(c :: (unit, nat) ShardedLRUCache) h. history 64 c ((\<lambda>_. 0)(h := 1)) {#((), [1], 7)#} 1 \<and>
    all_live c + all_deleted c = {#((), [1], 7)#} \<and> (\<exists>e. cache_handle_at c h = Some e)"
proof -
  obtain c :: "(unit, nat) ShardedLRUCache" and h where c: "history 64 c ((\<lambda>_. 0)(h := 1)) {#((), [1], 7)#} 1" using sample_history by blast
  then show ?thesis using cache_deletes_once [OF c, of h] by (intro exI [of _ c] exI [of _ h]) auto
qed


end
