(* ===== verification/FilterBlocks.thy ===== *)
theory FilterBlocks
  imports Filters Blocks
begin

text \<open>
  \<open>table/filter_block.cc\<close>: the builder that gathers the keys of the data blocks into one filter for every 2 KB of file
  offsets, and the reader. A shift by 64 or more, which the reader makes when the last byte of a damaged block says
  so, is undefined: it has no result.
\<close>

section \<open>Definitions\<close>

definition kFilterBaseLg :: nat where
  "kFilterBaseLg = 11"

definition kFilterBase :: nat where
  "kFilterBase = 2 ^ kFilterBaseLg"

record FilterBlockBuilder =
  fb_keys :: bytes
  fb_start :: "nat list"
  fb_result :: bytes
  fb_offsets :: "u32 list"

definition new_FilterBlockBuilder :: FilterBlockBuilder where
  "new_FilterBlockBuilder = \<lparr>fb_keys = [], fb_start = [], fb_result = [], fb_offsets = []\<rparr>"

text \<open>The keys cut out of the flattened keys.\<close>

definition tmp_keys :: "FilterBlockBuilder \<Rightarrow> bytes list" where
  "tmp_keys b =
     (let begins = fb_start b @ [length (fb_keys b)]
      in map (\<lambda>i. take (begins ! (i + 1) - begins ! i) (drop (begins ! i) (fb_keys b))) [0..<length (fb_start b)])"

definition GenerateFilter :: "filter_policy \<Rightarrow> FilterBlockBuilder \<Rightarrow> FilterBlockBuilder" where
  "GenerateFilter policy b =
     (let num_keys = length (fb_start b) in
      if num_keys = 0 then b\<lparr>fb_offsets := fb_offsets b @ [of_nat (length (fb_result b))]\<rparr>
      else
        let keys = tmp_keys b;
            b = b\<lparr>fb_offsets := fb_offsets b @ [of_nat (length (fb_result b))]\<rparr>;
            b = b\<lparr>fb_result := CreateFilter policy keys (fb_result b)\<rparr>
        in b\<lparr>fb_keys := [], fb_start := []\<rparr>)"

lemma length_GenerateFilter [simp]: "length (fb_offsets (GenerateFilter policy b)) = Suc (length (fb_offsets b))"
  by (simp add: GenerateFilter_def Let_def)

function StartBlock_loop :: "filter_policy \<Rightarrow> FilterBlockBuilder \<Rightarrow> nat \<Rightarrow> FilterBlockBuilder" where
  "StartBlock_loop policy b filter_index =
     (if filter_index > length (fb_offsets b) then StartBlock_loop policy (GenerateFilter policy b) filter_index else b)"
  by pat_completeness auto
termination by (relation "measure (\<lambda>(policy, b, i). i - length (fb_offsets b))") auto

declare StartBlock_loop.simps [simp del]

definition StartBlock :: "filter_policy \<Rightarrow> FilterBlockBuilder \<Rightarrow> u64 \<Rightarrow> FilterBlockBuilder" where
  "StartBlock policy b block_offset = StartBlock_loop policy b (unat block_offset div kFilterBase)"

definition fb_AddKey :: "FilterBlockBuilder \<Rightarrow> bytes \<Rightarrow> FilterBlockBuilder" where
  "fb_AddKey b key = b\<lparr>fb_start := fb_start b @ [length (fb_keys b)], fb_keys := fb_keys b @ key\<rparr>"

definition fb_Finish :: "filter_policy \<Rightarrow> FilterBlockBuilder \<Rightarrow> bytes" where
  "fb_Finish policy b =
     (let b = (if fb_start b \<noteq> [] then GenerateFilter policy b else b);
          array_offset = of_nat (length (fb_result b)) :: u32;
          result = foldl PutFixed32 (fb_result b) (fb_offsets b);
          result = PutFixed32 result array_offset
      in result @ [of_nat kFilterBaseLg])"

text \<open>The reader; a reader of contents that make no sense has no filters.\<close>

record FilterBlockReader =
  fr_data :: bytes
  fr_offset :: nat
  fr_num :: nat
  fr_base_lg :: nat

definition new_FilterBlockReader :: "bytes \<Rightarrow> FilterBlockReader" where
  "new_FilterBlockReader contents =
     (let n = length contents; r = \<lparr>fr_data = [], fr_offset = 0, fr_num = 0, fr_base_lg = 0\<rparr> in
      if n < 5 then r
      else let r = r\<lparr>fr_base_lg := unat (contents ! (n - 1))\<rparr>;
               last_word = unat (DecodeFixed32 (drop (n - 5) contents))
           in if last_word > n - 5 then r
              else r\<lparr>fr_data := contents, fr_offset := last_word, fr_num := (n - 5 - last_word) div 4\<rparr>)"

definition fr_KeyMayMatch :: "filter_policy \<Rightarrow> FilterBlockReader \<Rightarrow> u64 \<Rightarrow> bytes \<Rightarrow> bool option" where
  "fr_KeyMayMatch policy r block_offset key =
     (if fr_base_lg r \<ge> 64 then None
      else Some (let index = unat (drop_bit (fr_base_lg r) block_offset) in
        if index < fr_num r then
          (let begins = DecodeFixed32 (drop (fr_offset r + index * 4) (fr_data r));
               limit = DecodeFixed32 (drop (fr_offset r + index * 4 + 4) (fr_data r))
           in if begins \<le> limit \<and> unat limit \<le> fr_offset r
              then KeyMayMatch policy key (take (unat (limit - begins)) (drop (unat begins) (fr_data r)))
              else if begins = limit then False
              else True)
        else True))"

section \<open>What the builder holds\<close>

definition filter_of :: "filter_policy \<Rightarrow> bytes list \<Rightarrow> bytes" where
  "filter_of p ks = (if ks = [] then [] else CreateFilter p ks [])"

text \<open>\<open>fs\<close> are the key lists of the filters generated, \<open>pend\<close> the keys of the next one.\<close>

definition fb_rep :: "filter_policy \<Rightarrow> FilterBlockBuilder \<Rightarrow> bytes list list \<Rightarrow> bytes list \<Rightarrow> bool" where
  "fb_rep p b fs pend \<longleftrightarrow>
     fb_result b = concat (map (filter_of p) fs) \<and>
     fb_offsets b = map (\<lambda>j. of_nat (part_start (map (filter_of p) fs) j)) [0..<length fs] \<and>
     fb_keys b = concat pend \<and> fb_start b = map (part_start pend) [0..<length pend]"

lemma fb_rep_new: "fb_rep p new_FilterBlockBuilder [] []"
  by (simp add: fb_rep_def new_FilterBlockBuilder_def)

lemma fb_rep_AddKey: "fb_rep p b fs pend \<Longrightarrow> fb_rep p (fb_AddKey b key) fs (pend @ [key])"
  by (simp add: fb_rep_def fb_AddKey_def start_append start_all)

lemma fb_rep_keys:
  assumes "fb_rep p b fs pend"
  shows "tmp_keys b = pend"
proof (rule nth_equalityI)
  have b: "fb_start b @ [length (fb_keys b)] = map (part_start pend) [0..<Suc (length pend)]" "fb_keys b = concat pend"
    "length (fb_start b) = length pend" using assms by (simp_all add: fb_rep_def start_all)
  show "length (tmp_keys b) = length pend" using b(3) by (simp add: tmp_keys_def Let_def)
  fix i assume "i < length (tmp_keys b)"
  then have i: "i < length pend" using b(3) by (simp add: tmp_keys_def Let_def)
  then have "map (part_start pend) [0..<Suc (length pend)] ! i = part_start pend i"
    "map (part_start pend) [0..<Suc (length pend)] ! (i + 1) = part_start pend (Suc i)" by (simp_all del: upt_Suc)
  then show "tmp_keys b ! i = pend ! i" using i b start_part [OF i] unfolding tmp_keys_def Let_def b(1) by (simp del: upt_Suc)
qed

text \<open>The filters of a policy append to what is there.\<close>

lemma fb_rep_Generate:
  assumes c: "filter_policy_contract p okk" and r: "fb_rep p b fs pend"
  shows "fb_rep p (GenerateFilter p b) (fs @ [pend]) []"
proof -
  let ?F = "map (filter_of p) fs"
  have offs: "fb_offsets b @ [of_nat (length (fb_result b))] = map (\<lambda>j. of_nat (part_start (?F @ [x]) j)) [0..<Suc (length fs)]" for x
    using r by (simp add: fb_rep_def start_append part_start_def)
  have n: "length (fb_start b) = length pend" using r by (simp add: fb_rep_def)
  show ?thesis
  proof (cases "pend = []")
    case True
    then show ?thesis using r offs [of "filter_of p []"] by (simp add: fb_rep_def GenerateFilter_def filter_of_def)
  next
    case False
    then show ?thesis using n r offs [of "filter_of p pend"] fb_rep_keys [OF r] filter_policy_contract.CreateFilter_appends [OF c, of pend "fb_result b"]
      by (simp add: fb_rep_def GenerateFilter_def filter_of_def Let_def del: upt_Suc)
  qed
qed

text \<open>The key \<open>k\<close> is in filter \<open>j\<close>, generated or pending.\<close>

definition in_group :: "bytes list list \<Rightarrow> bytes list \<Rightarrow> nat \<Rightarrow> bytes \<Rightarrow> bool" where
  "in_group fs pend j k \<longleftrightarrow> (j < length fs \<and> k \<in> set (fs ! j)) \<or> (j = length fs \<and> k \<in> set pend)"

lemma in_group_snoc: "in_group fs pend j k \<Longrightarrow> in_group (fs @ [pend]) [] j k"
  by (auto simp: in_group_def nth_append)

text \<open>A builder at filter \<open>i\<close> that has taken the keys \<open>hist\<close>, each with the filter it belongs to.\<close>

definition fb_inv :: "filter_policy \<Rightarrow> (bytes \<Rightarrow> bool) \<Rightarrow> FilterBlockBuilder \<Rightarrow> nat \<Rightarrow> (nat \<times> bytes) set \<Rightarrow> bool" where
  "fb_inv p okk b i hist \<longleftrightarrow>
     filter_policy_contract p okk \<and>
     (\<exists>fs pend. fb_rep p b fs pend \<and> length fs = i \<and> (\<forall>ks\<in>set (pend # fs). \<forall>k\<in>set ks. okk k) \<and>
       (\<forall>(j, k)\<in>hist. in_group fs pend j k))"

lemma fb_inv_new: "filter_policy_contract p okk \<Longrightarrow> fb_inv p okk new_FilterBlockBuilder 0 {}"
  unfolding fb_inv_def using fb_rep_new by (intro conjI exI [of _ "[]"]) auto

lemma fb_inv_AddKey:
  assumes "fb_inv p okk b i hist" "okk k"
  shows "fb_inv p okk (fb_AddKey b k) i (insert (i, k) hist)"
proof -
  obtain fs pend where r: "fb_rep p b fs pend" "length fs = i" "\<forall>ks\<in>set (pend # fs). \<forall>k\<in>set ks. okk k" "\<forall>(j, k)\<in>hist. in_group fs pend j k"
    using assms(1) by (auto simp: fb_inv_def)
  have "in_group fs (pend @ [k]) j k'" if "(j, k') = (i, k) \<or> in_group fs pend j k'" for j k'
    using that r(2) by (auto simp: in_group_def)
  then have "\<forall>(j, k')\<in>insert (i, k) hist. in_group fs (pend @ [k]) j k'" using r(4) by blast
  then show ?thesis
    using assms fb_rep_AddKey [OF r(1)] r(2,3) unfolding fb_inv_def by (intro conjI exI [of _ fs] exI [of _ "pend @ [k]"]) auto
qed

lemma fb_inv_Generate:
  assumes "fb_inv p okk b i hist"
  shows "fb_inv p okk (GenerateFilter p b) (Suc i) hist"
proof -
  obtain fs pend where r: "fb_rep p b fs pend" "length fs = i" "\<forall>ks\<in>set (pend # fs). \<forall>k\<in>set ks. okk k" "\<forall>(j, k)\<in>hist. in_group fs pend j k"
    and c: "filter_policy_contract p okk" using assms by (auto simp: fb_inv_def)
  then show ?thesis
    using fb_rep_Generate [OF c r(1)] in_group_snoc unfolding fb_inv_def by (intro conjI exI [of _ "fs @ [pend]"] exI [of _ "[]"]) auto
qed

lemma fb_inv_offsets: "fb_inv p okk b i hist \<Longrightarrow> length (fb_offsets b) = i"
  by (auto simp: fb_inv_def fb_rep_def)

lemma fb_inv_loop: "fb_inv p okk b i hist \<Longrightarrow> i \<le> n \<Longrightarrow> fb_inv p okk (StartBlock_loop p b n) n hist"
proof (induction "n - i" arbitrary: b i)
  case 0
  then show ?case using fb_inv_offsets [OF 0(2)] by (simp add: StartBlock_loop.simps)
next
  case (Suc m)
  have "m = n - Suc i" "Suc i \<le> n" using Suc(2) by simp_all
  then have "fb_inv p okk (StartBlock_loop p (GenerateFilter p b) n) n hist" using Suc(1) fb_inv_Generate [OF Suc(3)] by blast
  moreover have "i < n" using Suc(2) by simp
  ultimately show ?case using fb_inv_offsets [OF Suc(3)] by (simp add: StartBlock_loop.simps [of p b])
qed

lemma fb_inv_StartBlock:
  "fb_inv p okk b i hist \<Longrightarrow> i \<le> unat off div kFilterBase \<Longrightarrow> fb_inv p okk (StartBlock p b off) (unat off div kFilterBase) hist"
  unfolding StartBlock_def by (rule fb_inv_loop)

text \<open>The finished block: the filters, their offsets and the offset of the offsets.\<close>

lemma fb_Finish_bytes:
  assumes "fb_inv p okk b i hist"
  shows "\<exists>fs. (\<forall>ks\<in>set fs. \<forall>k\<in>set ks. okk k) \<and> (\<forall>(j, k)\<in>hist. j < length fs \<and> k \<in> set (fs ! j)) \<and>
    fb_Finish p b = concat (map (filter_of p) fs) @
      concat (map (\<lambda>j. EncodeFixed32 (of_nat (part_start (map (filter_of p) fs) j))) [0..<Suc (length fs)]) @ [11]"
proof -
  obtain fs pend where r: "fb_rep p b fs pend" "length fs = i" "\<forall>ks\<in>set (pend # fs). \<forall>k\<in>set ks. okk k" "\<forall>(j, k)\<in>hist. in_group fs pend j k"
    and c: "filter_policy_contract p okk" using assms by (auto simp: fb_inv_def)
  have fin: "\<exists>b'. fb_Finish p b = foldl PutFixed32 (fb_result b') (fb_offsets b') @ EncodeFixed32 (of_nat (length (fb_result b'))) @ [11] \<and>
      fb_rep p b' (if pend = [] then fs else fs @ [pend]) []"
    using r(1) fb_rep_Generate [OF c r(1)]
    by (intro exI [of _ "if fb_start b \<noteq> [] then GenerateFilter p b else b"]) (auto simp: fb_Finish_def Let_def PutFixed32_def kFilterBaseLg_def fb_rep_def)
  then obtain b' where b': "fb_Finish p b = foldl PutFixed32 (fb_result b') (fb_offsets b') @ EncodeFixed32 (of_nat (length (fb_result b'))) @ [11]"
    "fb_rep p b' (if pend = [] then fs else fs @ [pend]) []" by blast
  let ?fs = "if pend = [] then fs else fs @ [pend]"
  have "fb_Finish p b = concat (map (filter_of p) ?fs) @
      concat (map (\<lambda>j. EncodeFixed32 (of_nat (part_start (map (filter_of p) ?fs) j))) [0..<Suc (length ?fs)]) @ [11]"
    using b' unfolding fb_rep_def by (simp add: foldl_PutFixed32 comp_def start_all [of "map (filter_of p) ?fs"])
  moreover have "\<forall>(j, k)\<in>hist. j < length ?fs \<and> k \<in> set (?fs ! j)" using r(4) by (fastforce simp: in_group_def nth_append)
  moreover have "\<forall>ks\<in>set ?fs. \<forall>k\<in>set ks. okk k" using r(3) by auto
  ultimately show ?thesis by blast
qed

lemma part_start_le: "part_start xss k \<le> length (concat xss)"
proof (cases "k \<le> length xss")
  case True
  then show ?thesis using start_mono [of k "length xss" xss] start_all [of xss "length xss"] by simp
qed (simp add: start_all)

lemma read_filter:
  assumes F: "length (concat F) < 2 ^ 32" and j: "unat off div kFilterBase < length F"
  shows "fr_KeyMayMatch p (new_FilterBlockReader (concat F @ concat (map (\<lambda>j. EncodeFixed32 (of_nat (part_start F j))) [0..<Suc (length F)]) @ [11])) off key =
    Some (KeyMayMatch p key (F ! (unat off div kFilterBase)))"
proof -
  let ?offs = "map (\<lambda>j. of_nat (part_start F j) :: u32) [0..<Suc (length F)]" and ?R = "concat F" and ?j = "unat off div kFilterBase"
  define C where "C = ?R @ concat (map EncodeFixed32 ?offs) @ [11 :: byte]"
  have CC: "concat F @ concat (map (\<lambda>j. EncodeFixed32 (of_nat (part_start F j))) [0..<Suc (length F)]) @ [11] = C"
    by (simp add: C_def comp_def del: upt_Suc)
  have n: "length C = length ?R + 4 * Suc (length F) + 1" unfolding C_def length_append length_concat_fixed32 by simp
  have off: "DecodeFixed32 (drop (length ?R + i * 4) C) = of_nat (part_start F i)" if "i \<le> length F" for i
    using DecodeFixed32_concat [of i ?offs "[11]"] that unfolding C_def by (simp del: upt_Suc)
  have u: "unat (of_nat (part_start F i) :: u32) = part_start F i" for i
    using part_start_le [of F i] F by (intro unat_u32) simp
  have last: "unat (DecodeFixed32 (drop (length C - 5) C)) = length ?R"
    using off [of "length F"] u [of "length F"] n by (simp add: start_all mult.commute)
  have base: "C ! (length C - 1) = 11" by (simp add: C_def nth_append del: upt_Suc)
  have r: "new_FilterBlockReader C = \<lparr>fr_data = C, fr_offset = length ?R, fr_num = length F, fr_base_lg = 11\<rparr>"
    using last base n by (simp add: new_FilterBlockReader_def Let_def)
  have idx: "unat (drop_bit 11 off) = ?j" by (simp add: drop_bit_eq_div unat_div kFilterBase_def kFilterBaseLg_def)
  have le: "part_start F ?j \<le> part_start F (Suc ?j)" "part_start F (Suc ?j) \<le> length ?R" using start_mono [of ?j "Suc ?j"] part_start_le by simp_all
  have len: "unat (of_nat (part_start F (Suc ?j)) - of_nat (part_start F ?j) :: u32) = part_start F (Suc ?j) - part_start F ?j"
    using le(1) u by (subst unat_sub) (simp_all add: word_le_nat_alt)
  have "take (part_start F (Suc ?j) - part_start F ?j) (drop (part_start F ?j) C) = F ! ?j"
    using start_part [OF j] le unfolding C_def by simp
  then show ?thesis
    using off [of ?j] off [of "Suc ?j"] u j le len unfolding CC r by (simp add: fr_KeyMayMatch_def Let_def idx word_le_nat_alt algebra_simps)
qed

lemma fb_inv_match:
  assumes inv: "fb_inv p okk b i hist" and h: "(unat off div kFilterBase, key) \<in> hist" and n: "length (fb_Finish p b) < 2 ^ 32"
  shows "fr_KeyMayMatch p (new_FilterBlockReader (fb_Finish p b)) off key = Some True"
proof -
  let ?j = "unat off div kFilterBase"
  obtain fs where fs: "\<forall>ks\<in>set fs. \<forall>k\<in>set ks. okk k" "\<forall>(j, k)\<in>hist. j < length fs \<and> k \<in> set (fs ! j)"
    "fb_Finish p b = concat (map (filter_of p) fs) @
      concat (map (\<lambda>j. EncodeFixed32 (of_nat (part_start (map (filter_of p) fs) j))) [0..<Suc (length fs)]) @ [11]"
    using fb_Finish_bytes [OF inv] by blast
  have j: "?j < length fs" "key \<in> set (fs ! ?j)" using fs(2) h by auto
  have "KeyMayMatch p key (CreateFilter p (fs ! ?j) [])"
    using inv fs(1) j by (auto simp: fb_inv_def intro!: filter_policy_contract.no_false_negative)
  moreover have "filter_of p (fs ! ?j) = CreateFilter p (fs ! ?j) []" using j(2) by (auto simp: filter_of_def)
  moreover have "length (concat (map (filter_of p) fs)) < 2 ^ 32" using n unfolding fs(3) by simp
  ultimately show ?thesis using read_filter [of "map (filter_of p) fs" off p key] j(1) unfolding fs(3) by simp
qed

section \<open>Properties\<close>

text \<open>The keys of the blocks in turn, each block at its offset.\<close>

definition build_filters :: "filter_policy \<Rightarrow> (u64 \<times> bytes list) list \<Rightarrow> FilterBlockBuilder" where
  "build_filters p blocks = foldl (\<lambda>b (off, ks). foldl fb_AddKey (StartBlock p b off) ks) new_FilterBlockBuilder blocks"

lemma fb_inv_keys:
  "fb_inv p okk b i hist \<Longrightarrow> \<forall>k\<in>set ks. okk k \<Longrightarrow> fb_inv p okk (foldl fb_AddKey b ks) i (hist \<union> {i} \<times> set ks)"
proof (induction ks arbitrary: b hist)
  case (Cons k ks)
  then have "fb_inv p okk (foldl fb_AddKey (fb_AddKey b k) ks) i (insert (i, k) hist \<union> {i} \<times> set ks)" using Cons.IH [OF fb_inv_AddKey [OF Cons.prems(1)]] by simp
  moreover have "insert (i, k) hist \<union> {i} \<times> set ks = hist \<union> {i} \<times> set (k # ks)" by auto
  ultimately show ?case by simp
qed simp

lemma fb_inv_build:
  assumes "filter_policy_contract p okk"
  shows "sorted (map fst blocks) \<Longrightarrow> \<forall>(off, ks)\<in>set blocks. \<forall>k\<in>set ks. okk k \<Longrightarrow>
    \<exists>i hist. fb_inv p okk (build_filters p blocks) i hist \<and> (blocks \<noteq> [] \<longrightarrow> i = unat (fst (last blocks)) div kFilterBase) \<and> (blocks = [] \<longrightarrow> i = 0) \<and>
      (\<forall>(off, ks)\<in>set blocks. \<forall>k\<in>set ks. (unat off div kFilterBase, k) \<in> hist)"
proof (induction blocks rule: rev_induct)
  case Nil
  then show ?case using fb_inv_new [OF assms] by (auto simp: build_filters_def)
next
  case (snoc x blocks)
  obtain off ks where x: "x = (off, ks)" by (cases x)
  obtain i hist where IH: "fb_inv p okk (build_filters p blocks) i hist" "blocks \<noteq> [] \<longrightarrow> i = unat (fst (last blocks)) div kFilterBase"
    "blocks = [] \<longrightarrow> i = 0" "\<forall>(off, ks)\<in>set blocks. \<forall>k\<in>set ks. (unat off div kFilterBase, k) \<in> hist"
    using snoc.IH snoc.prems by (auto simp: sorted_append)
  have "fst (last blocks) \<le> off" if "blocks \<noteq> []"
    using snoc.prems(1) that x by (auto simp: sorted_append)
  then have "i \<le> unat off div kFilterBase" using IH(2,3) by (cases "blocks = []") (auto simp: word_le_nat_alt intro: div_le_mono)
  from fb_inv_keys [OF fb_inv_StartBlock [OF IH(1) this], of ks] snoc.prems(2) x
  have "fb_inv p okk (build_filters p (blocks @ [x])) (unat off div kFilterBase) (hist \<union> {unat off div kFilterBase} \<times> set ks)"
    by (simp add: build_filters_def)
  then show ?case using IH(4) x by (intro exI [of _ "unat off div kFilterBase"] exI [of _ "hist \<union> {unat off div kFilterBase} \<times> set ks"]) auto
qed

text \<open>
  C31. The filter block has no false negatives: of any policy that has none, for blocks started at increasing offsets, the reader
  of the finished filter block matches every key added, at the offset of its block.
\<close>

theorem filter_block_no_false_negatives:
  assumes "filter_policy_contract p okk" "sorted (map fst blocks)" "\<forall>(off, ks)\<in>set blocks. \<forall>k\<in>set ks. okk k"
    "length (fb_Finish p (build_filters p blocks)) < 2 ^ 32" "(off, ks) \<in> set blocks" "key \<in> set ks"
  shows "fr_KeyMayMatch p (new_FilterBlockReader (fb_Finish p (build_filters p blocks))) off key = Some True"
proof -
  obtain i hist where "fb_inv p okk (build_filters p blocks) i hist" "(unat off div kFilterBase, key) \<in> hist"
    using fb_inv_build [OF assms(1-3)] assms(5,6) by blast
  then show ?thesis using assms(4) by (rule fb_inv_match)
qed

definition sample_filter_blocks :: "(u64 \<times> bytes list) list" where
  "sample_filter_blocks = [(0, [[1]]), (1000, [[4]])]"

theorem filter_block_no_false_negatives_witness:
  "fr_KeyMayMatch (NewBloomFilterPolicy 10) (new_FilterBlockReader (fb_Finish (NewBloomFilterPolicy 10) (build_filters (NewBloomFilterPolicy 10) sample_filter_blocks))) 1000 [4] = Some True"
proof -
  have l: "length (Bloom_CreateFilter 10 ks []) = (if length ks * 10 < 64 then 9 else (length ks * 10 + 7) div 8 + 1)" for ks
    by (simp add: Bloom_CreateFilter_def bloom_keys_loop_eq Let_def)
  have "length (fb_Finish (NewBloomFilterPolicy 10) (build_filters (NewBloomFilterPolicy 10) sample_filter_blocks)) = 18"
    by (simp add: sample_filter_blocks_def build_filters_def new_FilterBlockBuilder_def StartBlock_def StartBlock_loop.simps kFilterBase_def kFilterBaseLg_def
        fb_AddKey_def fb_Finish_def GenerateFilter_def tmp_keys_def NewBloomFilterPolicy_def l PutFixed32_def Let_def upt_rec)
  then show ?thesis
    using filter_block_no_false_negatives [OF bloom.filter_policy_contract_axioms, of sample_filter_blocks 10 1000 "[[4]]" "[4]"]
    by (simp add: sample_filter_blocks_def)
qed

text \<open>
  Damaged offsets: an offset pair that is equal but past the filters makes the reader say that a key is absent, though
  the reader's own rule is to treat errors as potential matches; and a last byte of 64 or more makes the
  reader shift by more than the width of the offset.
\<close>

theorem filter_block_damage:
  "fr_KeyMayMatch p (new_FilterBlockReader [9, 0, 0, 0, 9, 0, 0, 0, 0, 0, 0, 0, 11]) 0 key = Some False \<and>
   fr_KeyMayMatch p (new_FilterBlockReader [0, 0, 0, 0, 64]) off key = None"
proof -
  have "new_FilterBlockReader [9, 0, 0, 0, 9, 0, 0, 0, 0, 0, 0, 0, 11] =
      \<lparr>fr_data = [9, 0, 0, 0, 9, 0, 0, 0, 0, 0, 0, 0, 11], fr_offset = 0, fr_num = 2, fr_base_lg = 11\<rparr>"
    "new_FilterBlockReader [0, 0, 0, 0, 64] = \<lparr>fr_data = [0, 0, 0, 0, 64], fr_offset = 0, fr_num = 0, fr_base_lg = 64\<rparr>" by code_simp+
  moreover have "DecodeFixed32 [9, 0, 0, 0, 9, 0, 0, 0, 0, 0, 0, 0, 11] = 9" "DecodeFixed32 [9, 0, 0, 0, 0, 0, 0, 0, 11] = 9" by code_simp+
  ultimately show ?thesis by (simp add: fr_KeyMayMatch_def Let_def)
qed

end
