(* ===== verification/TableFormat.thy ===== *)
theory TableFormat
  imports Crc32c Envs
begin

text \<open>
  \<open>table/format.h\<close> and \<open>table/format.cc\<close>: block handles, the footer and the reading of a block. A file is what
  its \<open>Read\<close> answers: a status, the bytes read and whether they are in the caller's buffer. The Snappy library is
  a parameter (\<open>port/port_stdcxx.h\<close> calls it, or fails where it is not built in). An access outside of
  what was read is undefined: it has no result.
\<close>

section \<open>Definitions\<close>

subsection \<open>Files and the compression library\<close>

record RandomAccessFile =
  rf_Read :: "u64 \<Rightarrow> nat \<Rightarrow> Status \<times> bytes \<times> bool"

record snappy =
  sn_Compress :: "bytes \<Rightarrow> bytes option"
  sn_GetUncompressedLength :: "bytes \<Rightarrow> nat option"
  sn_Uncompress :: "bytes \<Rightarrow> bytes option"

text \<open>The port built without the library.\<close>

definition no_snappy :: snappy where
  "no_snappy = \<lparr>sn_Compress = \<lambda>_. None, sn_GetUncompressedLength = \<lambda>_. None, sn_Uncompress = \<lambda>_. None\<rparr>"

datatype CompressionType = kNoCompression | kSnappyCompression

fun CompressionType_num :: "CompressionType \<Rightarrow> byte" where
  "CompressionType_num kNoCompression = 0"
| "CompressionType_num kSnappyCompression = 1"

subsection \<open>Block handles\<close>

record BlockHandle =
  bh_offset :: u64
  bh_size :: u64

definition kMaxEncodedLength :: nat where
  "kMaxEncodedLength = 10 + 10"

definition new_BlockHandle :: BlockHandle where
  "new_BlockHandle = \<lparr>bh_offset = - 1, bh_size = - 1\<rparr>"

definition bh_EncodeTo :: "BlockHandle \<Rightarrow> bytes \<Rightarrow> bytes" where
  "bh_EncodeTo h dst = PutVarint64 (PutVarint64 dst (bh_offset h)) (bh_size h)"

text \<open>A handle that fails to decode keeps the fields read so far.\<close>

definition bh_DecodeFrom :: "BlockHandle \<Rightarrow> bytes \<Rightarrow> Status \<times> BlockHandle \<times> bytes" where
  "bh_DecodeFrom h input =
     (case GetVarint64 input of
        None \<Rightarrow> (Corruption (str ''bad block handle'') [], h, input)
      | Some (off, input) \<Rightarrow>
          let h = h\<lparr>bh_offset := off\<rparr> in
          case GetVarint64 input of
            None \<Rightarrow> (Corruption (str ''bad block handle'') [], h, input)
          | Some (sz, input) \<Rightarrow> (Status_OK, h\<lparr>bh_size := sz\<rparr>, input))"

subsection \<open>The footer\<close>

record Footer =
  metaindex_handle :: BlockHandle
  index_handle :: BlockHandle

definition new_Footer :: Footer where
  "new_Footer = \<lparr>metaindex_handle = new_BlockHandle, index_handle = new_BlockHandle\<rparr>"

definition kEncodedLength :: nat where
  "kEncodedLength = 2 * kMaxEncodedLength + 8"

definition kTableMagicNumber :: u64 where
  "kTableMagicNumber = 0xdb4775248b80fb57"

definition kBlockTrailerSize :: nat where
  "kBlockTrailerSize = 5"

definition string_resize :: "nat \<Rightarrow> bytes \<Rightarrow> bytes" where
  "string_resize n s = take n s @ replicate (n - length s) 0"

definition Footer_EncodeTo :: "Footer \<Rightarrow> bytes \<Rightarrow> bytes" where
  "Footer_EncodeTo f dst =
     (let dst = bh_EncodeTo (metaindex_handle f) dst;
          dst = bh_EncodeTo (index_handle f) dst;
          dst = string_resize (2 * kMaxEncodedLength) dst;
          dst = PutFixed32 dst (ucast (kTableMagicNumber AND 0xffffffff))
      in PutFixed32 dst (ucast (drop_bit 32 kTableMagicNumber)))"

definition Footer_DecodeFrom :: "Footer \<Rightarrow> bytes \<Rightarrow> (Status \<times> Footer \<times> bytes) option" where
  "Footer_DecodeFrom f input =
     (if length input < kEncodedLength then None
      else Some (let magic_ptr = drop (kEncodedLength - 8) input;
               magic_lo = DecodeFixed32 magic_ptr;
               magic_hi = DecodeFixed32 (drop 4 magic_ptr);
               magic = push_bit 32 (ucast magic_hi) OR ucast magic_lo :: u64
           in if magic \<noteq> kTableMagicNumber then (Corruption (str ''not an sstable (bad magic number)'') [], f, input)
              else let (result, h, input1) = bh_DecodeFrom (metaindex_handle f) input;
                       f = f\<lparr>metaindex_handle := h\<rparr>
                   in if \<not> ok result then (result, f, input1)
                      else let (result, h, input2) = bh_DecodeFrom (index_handle f) input1;
                               f = f\<lparr>index_handle := h\<rparr>
                           in if ok result then (result, f, drop kEncodedLength input) else (result, f, input2)))"

subsection \<open>Reading a block\<close>

record BlockContents =
  bc_data :: bytes
  bc_cachable :: bool
  bc_heap_allocated :: bool

record ReadOptions =
  verify_checksums :: bool
  fill_cache :: bool

definition new_ReadOptions :: ReadOptions where
  "new_ReadOptions = \<lparr>verify_checksums = False, fill_cache = True\<rparr>"

definition no_contents :: BlockContents where
  "no_contents = \<lparr>bc_data = [], bc_cachable = False, bc_heap_allocated = False\<rparr>"

text \<open>What follows the read: \<open>contents\<close> were read, \<open>n\<close> is the size of the handle.\<close>

definition block_of_contents :: "snappy \<Rightarrow> ReadOptions \<Rightarrow> bytes \<Rightarrow> bool \<Rightarrow> nat \<Rightarrow> (Status \<times> BlockContents) option" where
  "block_of_contents sn options contents in_buf n =
     (if length contents < n + kBlockTrailerSize then None
      else if verify_checksums options \<and>
        crc_Value (take (n + 1) contents) \<noteq> crc_Unmask (DecodeFixed32 (drop (n + 1) contents))
      then Some (Corruption (str ''block checksum mismatch'') [], no_contents)
      else if contents ! n = CompressionType_num kNoCompression then
        Some (Status_OK, \<lparr>bc_data = take n contents, bc_cachable = in_buf, bc_heap_allocated = in_buf\<rparr>)
      else if contents ! n = CompressionType_num kSnappyCompression then
        (case sn_GetUncompressedLength sn (take n contents) of
           None \<Rightarrow> Some (Corruption (str ''corrupted compressed block contents'') [], no_contents)
         | Some ulength \<Rightarrow>
             (case sn_Uncompress sn (take n contents) of
                None \<Rightarrow> Some (Corruption (str ''corrupted compressed block contents'') [], no_contents)
              | Some ubuf \<Rightarrow> Some (Status_OK, \<lparr>bc_data = take ulength ubuf, bc_cachable = True, bc_heap_allocated = True\<rparr>)))
      else Some (Corruption (str ''bad block type'') [], no_contents))"

definition ReadBlock :: "snappy \<Rightarrow> RandomAccessFile \<Rightarrow> ReadOptions \<Rightarrow> BlockHandle \<Rightarrow> (Status \<times> BlockContents) option" where
  "ReadBlock sn file options handle =
     (let n = unat (bh_size handle);
          len = unat (bh_size handle + of_nat kBlockTrailerSize);
          (s, contents, in_buf) = rf_Read file (bh_offset handle) len
      in if \<not> ok s then Some (s, no_contents)
         else if length contents \<noteq> len then Some (Corruption (str ''truncated block read'') [], no_contents)
         else block_of_contents sn options contents in_buf n)"

section \<open>Contracts\<close>

text \<open>
  What the compression library promises: what it compresses it restores, and it takes only inputs whose length its format can
  hold (a 32-bit number).
\<close>

locale snappy_contract =
  fixes sn :: snappy
  assumes restores: "sn_Compress sn raw = Some z \<Longrightarrow>
    sn_GetUncompressedLength sn z = Some (length raw) \<and> sn_Uncompress sn z = Some raw"
    and input_fits: "sn_Compress sn raw = Some z \<Longrightarrow> length raw < 2 ^ 32"

interpretation without_snappy: snappy_contract no_snappy
  by unfold_locales (simp_all add: no_snappy_def)

text \<open>What a readable file promises: a read gives the bytes of the file in the range.\<close>

locale readable_file =
  fixes f :: RandomAccessFile and bs :: bytes
  assumes reads: "\<exists>in_buf. rf_Read f off n = (Status_OK, take n (drop (unat off) bs), in_buf)"

text \<open>A file in memory, mapped or copied into the buffer of the caller.\<close>

definition file_of :: "bool \<Rightarrow> bytes \<Rightarrow> RandomAccessFile" where
  "file_of in_buf bs = \<lparr>rf_Read = \<lambda>off n. (Status_OK, take n (drop (unat off) bs), in_buf)\<rparr>"

interpretation file_of: readable_file "file_of in_buf bs" bs for in_buf bs
  by unfold_locales (simp add: file_of_def)

section \<open>Lemmas\<close>

lemma bh_roundtrip [roundtrip_simps]: "bh_DecodeFrom h0 (bh_EncodeTo h [] @ rest) = (Status_OK, h, rest)"
  by (simp add: bh_DecodeFrom_def bh_EncodeTo_def PutVarint64_def)

lemma bh_EncodeTo_append: "bh_EncodeTo h dst = dst @ bh_EncodeTo h []"
  by (simp add: bh_EncodeTo_def PutVarint64_def)

lemma length_EncodeVarint64_bound: "length (EncodeVarint64 v) \<le> 10"
proof -
  have "unat v < 2 ^ (7 * 10)" by (rule less_trans [OF unsigned_less]) simp
  then show ?thesis by (rule length_EncodeVarint64_le) simp
qed

lemma length_bh_EncodeTo: "length (bh_EncodeTo h []) \<le> kMaxEncodedLength"
  using length_EncodeVarint64_bound [of "bh_offset h"] length_EncodeVarint64_bound [of "bh_size h"]
  by (simp add: bh_EncodeTo_def PutVarint64_def kMaxEncodedLength_def)

definition footer_pad :: "Footer \<Rightarrow> bytes" where
  "footer_pad f = replicate (40 - length (bh_EncodeTo (metaindex_handle f) [] @ bh_EncodeTo (index_handle f) [])) 0 @
     EncodeFixed32 0x8b80fb57 @ EncodeFixed32 0xdb477524"

lemma Footer_EncodeTo_eq: "Footer_EncodeTo f [] = bh_EncodeTo (metaindex_handle f) [] @ bh_EncodeTo (index_handle f) [] @ footer_pad f"
proof -
  have "ucast (kTableMagicNumber AND 0xffffffff) = (0x8b80fb57 :: u32)" "ucast (drop_bit 32 kTableMagicNumber) = (0xdb477524 :: u32)"
    unfolding kTableMagicNumber_def by code_simp+
  then show ?thesis
    using length_bh_EncodeTo [of "metaindex_handle f"] length_bh_EncodeTo [of "index_handle f"]
      bh_EncodeTo_append [of "index_handle f" "bh_EncodeTo (metaindex_handle f) []"]
    by (simp add: Footer_EncodeTo_def string_resize_def PutFixed32_def footer_pad_def kMaxEncodedLength_def Let_def)
qed

lemma length_Footer_EncodeTo [length_simps]: "length (Footer_EncodeTo f []) = kEncodedLength"
  using length_bh_EncodeTo [of "metaindex_handle f"] length_bh_EncodeTo [of "index_handle f"]
  by (simp add: Footer_EncodeTo_eq footer_pad_def kEncodedLength_def kMaxEncodedLength_def)

lemma Footer_roundtrip [roundtrip_simps]: "Footer_DecodeFrom f0 (Footer_EncodeTo f [] @ rest) = Some (Status_OK, f, rest)"
proof -
  let ?b = "Footer_EncodeTo f []"
  have l: "length ?b = 48" by (simp add: length_Footer_EncodeTo kEncodedLength_def kMaxEncodedLength_def)
  have d: "drop 40 ?b = EncodeFixed32 0x8b80fb57 @ EncodeFixed32 0xdb477524"
    using length_bh_EncodeTo [of "metaindex_handle f"] length_bh_EncodeTo [of "index_handle f"]
    by (simp add: Footer_EncodeTo_eq footer_pad_def kMaxEncodedLength_def)
  have m: "DecodeFixed32 (drop 40 (?b @ rest)) = 0x8b80fb57" "DecodeFixed32 (drop 4 (drop 40 (?b @ rest))) = 0xdb477524"
    using l d by (simp_all del: drop_drop)
  have g: "push_bit 32 (ucast (0xdb477524 :: u32)) OR ucast (0x8b80fb57 :: u32) = kTableMagicNumber"
    unfolding kTableMagicNumber_def by code_simp
  define B where "B = ?b @ rest"
  have h: "bh_DecodeFrom h0 B = (Status_OK, metaindex_handle f, bh_EncodeTo (index_handle f) [] @ footer_pad f @ rest)" for h0
    unfolding B_def Footer_EncodeTo_eq append_assoc by (rule bh_roundtrip)
  have "\<not> length B < 48" "drop 48 B = rest" using l by (simp_all add: B_def)
  then have "Footer_DecodeFrom f0 B = Some (Status_OK, f, rest)"
    using m g h unfolding B_def [symmetric] by (simp add: Footer_DecodeFrom_def kEncodedLength_def kMaxEncodedLength_def bh_roundtrip Let_def)
  then show ?thesis by (simp add: B_def)
qed

section \<open>Properties\<close>


end
