(* ===== verification/TableBuilders.thy ===== *)
theory TableBuilders
  imports TableFormat FilterBlocks
begin

text \<open>
  \<open>table/table_builder.cc\<close>: the builder of a table file. The compression library is a parameter, the file a
  \<open>WritableFile\<close> whose calls may fail; a failure is kept in the status and stops the builder.
\<close>

section \<open>Definitions\<close>

text \<open>The options; the environment, the log and the block cache are arguments of the calls that use them.\<close>

record Options =
  opt_comparator :: comparator
  opt_create_if_missing :: bool
  opt_error_if_exists :: bool
  opt_paranoid_checks :: bool
  opt_write_buffer_size :: nat
  opt_max_open_files :: nat
  opt_block_size :: nat
  opt_restart_interval :: nat
  opt_max_file_size :: nat
  opt_compression :: CompressionType
  opt_reuse_logs :: bool
  opt_filter_policy :: "filter_policy option"

definition new_Options :: Options where
  "new_Options =
     \<lparr>opt_comparator = BytewiseComparator, opt_create_if_missing = False, opt_error_if_exists = False, opt_paranoid_checks = False,
      opt_write_buffer_size = 4 * 1024 * 1024, opt_max_open_files = 1000, opt_block_size = 4 * 1024, opt_restart_interval = 16,
      opt_max_file_size = 2 * 1024 * 1024, opt_compression = kSnappyCompression, opt_reuse_logs = False, opt_filter_policy = None\<rparr>"

record TableBuilder =
  tb_options :: Options
  tb_file :: WritableFile
  tb_offset :: u64
  tb_status :: Status
  tb_data_block :: BlockBuilder
  tb_index_block :: BlockBuilder
  tb_last_key :: bytes
  tb_num_entries :: u64
  tb_closed :: bool
  tb_filter_block :: "FilterBlockBuilder option"
  tb_pending_index_entry :: bool
  tb_pending_handle :: BlockHandle

text \<open>The policy of the options; it is used only where there is one.\<close>

definition tb_policy :: "TableBuilder \<Rightarrow> filter_policy" where
  "tb_policy r = the (opt_filter_policy (tb_options r))"

definition on_filter :: "(filter_policy \<Rightarrow> FilterBlockBuilder \<Rightarrow> FilterBlockBuilder) \<Rightarrow> TableBuilder \<Rightarrow> TableBuilder" where
  "on_filter f r = r\<lparr>tb_filter_block := map_option (f (tb_policy r)) (tb_filter_block r)\<rparr>"

definition new_TableBuilder :: "Options \<Rightarrow> WritableFile \<Rightarrow> TableBuilder" where
  "new_TableBuilder options file =
     on_filter (\<lambda>p b. StartBlock p b 0)
       \<lparr>tb_options = options, tb_file = file, tb_offset = 0, tb_status = Status_OK,
        tb_data_block = new_BlockBuilder (opt_restart_interval options), tb_index_block = new_BlockBuilder 1,
        tb_last_key = [], tb_num_entries = 0, tb_closed = False,
        tb_filter_block = map_option (\<lambda>_. new_FilterBlockBuilder) (opt_filter_policy options),
        tb_pending_index_entry = False, tb_pending_handle = new_BlockHandle\<rparr>"

definition tb_ok :: "TableBuilder \<Rightarrow> bool" where
  "tb_ok r \<longleftrightarrow> ok (tb_status r)"

text \<open>
  Whether the comparators are the same object is an argument. The data block builder points to the options and sees the new
  restart interval.
\<close>

definition ChangeOptions :: "TableBuilder \<Rightarrow> Options \<Rightarrow> bool \<Rightarrow> Status \<times> TableBuilder" where
  "ChangeOptions r options same_comparator =
     (if \<not> same_comparator then (InvalidArgument (str ''changing comparator while building table'') [], r)
      else (Status_OK, r\<lparr>tb_options := options,
        tb_data_block := (tb_data_block r)\<lparr>bb_interval := opt_restart_interval options\<rparr>\<rparr>))"

definition file_append :: "TableBuilder \<Rightarrow> bytes \<Rightarrow> TableBuilder" where
  "file_append r data = (let (s, f) = wf_Append (tb_file r) data in r\<lparr>tb_status := s, tb_file := f\<rparr>)"

definition block_trailer :: "bytes \<Rightarrow> CompressionType \<Rightarrow> bytes" where
  "block_trailer block_contents type =
     (let crc = crc_Value block_contents;
          crc = crc_Extend crc [CompressionType_num type]
      in CompressionType_num type # EncodeFixed32 (crc_Mask crc))"

definition WriteRawBlock :: "TableBuilder \<Rightarrow> bytes \<Rightarrow> CompressionType \<Rightarrow> BlockHandle \<times> TableBuilder" where
  "WriteRawBlock r block_contents type =
     (let handle = \<lparr>bh_offset = tb_offset r, bh_size = of_nat (length block_contents)\<rparr>;
          r = file_append r block_contents;
          r = (if tb_ok r then
                 let r = file_append r (block_trailer block_contents type)
                 in if tb_ok r then r\<lparr>tb_offset := tb_offset r + of_nat (length block_contents) + of_nat kBlockTrailerSize\<rparr> else r
               else r)
      in (handle, r))"

text \<open>The contents to write and their type: compressed only where that saves at least an eighth.\<close>

definition compress_block :: "snappy \<Rightarrow> CompressionType \<Rightarrow> bytes \<Rightarrow> bytes \<times> CompressionType" where
  "compress_block sn type raw =
     (case type of
        kNoCompression \<Rightarrow> (raw, kNoCompression)
      | kSnappyCompression \<Rightarrow>
          (case sn_Compress sn raw of
             Some compressed \<Rightarrow>
               if length compressed < length raw - length raw div 8 then (compressed, kSnappyCompression) else (raw, kNoCompression)
           | None \<Rightarrow> (raw, kNoCompression)))"

definition WriteBlock :: "snappy \<Rightarrow> TableBuilder \<Rightarrow> BlockBuilder \<Rightarrow> BlockHandle \<times> BlockBuilder \<times> TableBuilder" where
  "WriteBlock sn r block =
     (let (raw, block) = bb_Finish block;
          (block_contents, type) = compress_block sn (opt_compression (tb_options r)) raw;
          (handle, r) = WriteRawBlock r block_contents type
      in (handle, bb_Reset block, r))"

definition Flush :: "snappy \<Rightarrow> TableBuilder \<Rightarrow> TableBuilder" where
  "Flush sn r =
     (if \<not> tb_ok r then r
      else if bb_empty (tb_data_block r) then r
      else let (handle, block, r) = WriteBlock sn r (tb_data_block r);
               r = r\<lparr>tb_pending_handle := handle, tb_data_block := block\<rparr>;
               r = (if tb_ok r then
                      let (s, f) = wf_Flush (tb_file r)
                      in r\<lparr>tb_pending_index_entry := True, tb_status := s, tb_file := f\<rparr>
                    else r)
           in on_filter (\<lambda>p b. StartBlock p b (tb_offset r)) r)"

definition add_index_entry :: "TableBuilder \<Rightarrow> bytes \<Rightarrow> TableBuilder" where
  "add_index_entry r key =
     r\<lparr>tb_last_key := key, tb_index_block := bb_Add (tb_index_block r) key (bh_EncodeTo (tb_pending_handle r) []),
       tb_pending_index_entry := False\<rparr>"

definition tb_Add :: "snappy \<Rightarrow> TableBuilder \<Rightarrow> bytes \<Rightarrow> bytes \<Rightarrow> TableBuilder" where
  "tb_Add sn r key value =
     (if \<not> tb_ok r then r
      else
        let r = (if tb_pending_index_entry r
                 then add_index_entry r (FindShortestSeparator (opt_comparator (tb_options r)) (tb_last_key r) key) else r);
            r = on_filter (\<lambda>p b. fb_AddKey b key) r;
            r = r\<lparr>tb_last_key := key, tb_num_entries := tb_num_entries r + 1, tb_data_block := bb_Add (tb_data_block r) key value\<rparr>
        in if bb_CurrentSizeEstimate (tb_data_block r) \<ge> opt_block_size (tb_options r) then Flush sn r else r)"

text \<open>The steps of \<open>Finish\<close> after the last flush, each taken while the status is OK.\<close>

definition write_filter :: "TableBuilder \<Rightarrow> BlockHandle \<times> TableBuilder" where
  "write_filter r =
     (case tb_filter_block r of
        Some fb \<Rightarrow> if tb_ok r then WriteRawBlock r (fb_Finish (tb_policy r) fb) kNoCompression else (new_BlockHandle, r)
      | None \<Rightarrow> (new_BlockHandle, r))"

definition metaindex_key :: "filter_policy \<Rightarrow> bytes" where
  "metaindex_key p = str ''filter.'' @ fName p"

definition write_metaindex :: "snappy \<Rightarrow> TableBuilder \<Rightarrow> BlockHandle \<Rightarrow> BlockHandle \<times> TableBuilder" where
  "write_metaindex sn r filter_handle =
     (if tb_ok r then
        let meta = new_BlockBuilder (opt_restart_interval (tb_options r));
            meta = (if tb_filter_block r \<noteq> None then bb_Add meta (metaindex_key (tb_policy r)) (bh_EncodeTo filter_handle []) else meta);
            (handle, meta, r) = WriteBlock sn r meta
        in (handle, r)
      else (new_BlockHandle, r))"

definition write_index :: "snappy \<Rightarrow> TableBuilder \<Rightarrow> BlockHandle \<times> TableBuilder" where
  "write_index sn r =
     (if tb_ok r then
        let r = (if tb_pending_index_entry r
                 then add_index_entry r (FindShortSuccessor (opt_comparator (tb_options r)) (tb_last_key r)) else r);
            (handle, block, r) = WriteBlock sn r (tb_index_block r)
        in (handle, r\<lparr>tb_index_block := block\<rparr>)
      else (new_BlockHandle, r))"

definition write_footer :: "TableBuilder \<Rightarrow> BlockHandle \<Rightarrow> BlockHandle \<Rightarrow> TableBuilder" where
  "write_footer r metaindex index =
     (if tb_ok r then
        let footer = \<lparr>metaindex_handle = metaindex, index_handle = index\<rparr>;
            footer_encoding = Footer_EncodeTo footer [];
            r = file_append r footer_encoding
        in if tb_ok r then r\<lparr>tb_offset := tb_offset r + of_nat (length footer_encoding)\<rparr> else r
      else r)"

definition tb_Finish :: "snappy \<Rightarrow> TableBuilder \<Rightarrow> Status \<times> TableBuilder" where
  "tb_Finish sn r =
     (let r = Flush sn r;
          r = r\<lparr>tb_closed := True\<rparr>;
          (filter_block_handle, r) = write_filter r;
          (metaindex_block_handle, r) = write_metaindex sn r filter_block_handle;
          (index_block_handle, r) = write_index sn r;
          r = write_footer r metaindex_block_handle index_block_handle
      in (tb_status r, r))"

definition tb_Abandon :: "TableBuilder \<Rightarrow> TableBuilder" where
  "tb_Abandon r = r\<lparr>tb_closed := True\<rparr>"

definition tb_NumEntries :: "TableBuilder \<Rightarrow> u64" where
  "tb_NumEntries r = tb_num_entries r"

definition tb_FileSize :: "TableBuilder \<Rightarrow> u64" where
  "tb_FileSize r = tb_offset r"

section \<open>Stored blocks\<close>

definition stored :: "bytes \<times> CompressionType \<Rightarrow> bytes" where
  "stored ct = fst ct @ block_trailer (fst ct) (snd ct)"

lemma block_trailer_eq: "block_trailer c t = CompressionType_num t # EncodeFixed32 (crc_Mask (crc_Value (c @ [CompressionType_num t])))"
  by (simp add: block_trailer_def crc_Value_def crc_Extend_append)

lemma length_block_trailer [simp]: "length (block_trailer c t) = kBlockTrailerSize"
  by (simp add: block_trailer_eq kBlockTrailerSize_def)

lemma length_stored [simp]: "length (stored ct) = length (fst ct) + kBlockTrailerSize"
  by (simp add: stored_def)

text \<open>Reading a block back where it was stored, with or without verification.\<close>

lemma block_of_stored:
  assumes sn: "snappy_contract sn" and ct: "compress_block sn cty raw = (c, t)"
  shows "\<exists>contents. block_of_contents sn options (stored (c, t)) in_buf (length c) = Some (Status_OK, contents) \<and> bc_data contents = raw"
proof -
  let ?t = "CompressionType_num t"
  have st: "stored (c, t) = c @ ?t # EncodeFixed32 (crc_Mask (crc_Value (c @ [?t])))" by (simp add: stored_def block_trailer_eq)
  have crc: "crc_Unmask (DecodeFixed32 (drop (length c + 1) (stored (c, t)))) = crc_Value (take (length c + 1) (stored (c, t)))"
    using DecodeFixed32_EncodeFixed32 [of "crc_Mask (crc_Value (c @ [?t]))" "[]"] unfolding st by (simp add: Unmask_Mask)
  have nt: "stored (c, t) ! length c = ?t" "take (length c) (stored (c, t)) = c" by (simp_all add: st)
  show ?thesis
  proof (cases t)
    case kNoCompression
    then have "raw = c" using ct by (auto simp: compress_block_def split: CompressionType.splits option.splits if_splits)
    then show ?thesis using crc kNoCompression nt by (simp add: block_of_contents_def)
  next
    case kSnappyCompression
    then have "sn_Compress sn raw = Some c" using ct by (auto simp: compress_block_def split: CompressionType.splits option.splits if_splits)
    from snappy_contract.restores [OF sn this] show ?thesis using crc kSnappyCompression nt
      by (simp add: block_of_contents_def)
  qed
qed

lemma unat_of_nat_u64: "n < 2 ^ 64 \<Longrightarrow> unat (of_nat n :: u64) = n"
  using unat_of_nat_eq [of n, where 'a = 64] by simp

lemma ReadBlock_stored:
  assumes f: "readable_file f bs" and bs: "bs = pre @ stored (c, t) @ post" "length bs < 2 ^ 64"
    and sn: "snappy_contract sn" and ct: "compress_block sn cty raw = (c, t)"
  shows "\<exists>contents. ReadBlock sn f options \<lparr>bh_offset = of_nat (length pre), bh_size = of_nat (length c)\<rparr> = Some (Status_OK, contents) \<and>
    bc_data contents = raw"
proof -
  have n: "length pre < 2 ^ 64" "length c + 5 < 2 ^ 64" using bs by (simp_all add: kBlockTrailerSize_def)
  have u: "unat (of_nat (length pre) :: u64) = length pre" "unat (of_nat (length c) :: u64) = length c"
    "unat (of_nat (length c) + of_nat kBlockTrailerSize :: u64) = length c + kBlockTrailerSize"
    using n unat_of_nat_u64 [of "length pre"] unat_of_nat_u64 [of "length c"] unat_of_nat_u64 [of "length c + kBlockTrailerSize"]
    by (simp_all add: kBlockTrailerSize_def)
  obtain in_buf where "rf_Read f (of_nat (length pre)) (length c + kBlockTrailerSize) =
      (Status_OK, take (length c + kBlockTrailerSize) (drop (length pre) bs), in_buf)"
    using readable_file.reads [OF f, of "of_nat (length pre)" "length c + kBlockTrailerSize"] u by auto
  moreover have "take (length c + kBlockTrailerSize) (drop (length pre) bs) = stored (c, t)" using bs by simp
  ultimately show ?thesis using block_of_stored [OF sn ct, of options in_buf] u by (simp add: ReadBlock_def Let_def)
qed

section \<open>The builder without failures\<close>

definition good :: "TableBuilder \<Rightarrow> bool" where
  "good r \<longleftrightarrow> wf_script (tb_file r) = [] \<and> tb_status r = Status_OK"

lemma good_ok: "good r \<Longrightarrow> tb_ok r"
  by (simp add: good_def tb_ok_def)

definition appended :: "TableBuilder \<Rightarrow> bytes \<Rightarrow> TableBuilder" where
  "appended r data = r\<lparr>tb_file := (tb_file r)\<lparr>wf_data := wf_data (tb_file r) @ data\<rparr>\<rparr>"

lemma file_append_good: "good r \<Longrightarrow> file_append r data = appended r data"
  by (simp add: good_def file_append_def appended_def)

lemma good_appended [simp]: "good (appended r data) = good r"
  by (simp add: good_def appended_def)

lemma appended_appended [simp]: "appended (appended r a) b = appended r (a @ b)"
  by (simp add: appended_def)

definition written :: "TableBuilder \<Rightarrow> bytes \<times> CompressionType \<Rightarrow> TableBuilder" where
  "written r ct = (appended r (stored ct))\<lparr>tb_offset := tb_offset r + of_nat (length (stored ct))\<rparr>"

definition handle_at :: "TableBuilder \<Rightarrow> bytes \<times> CompressionType \<Rightarrow> BlockHandle" where
  "handle_at r ct = \<lparr>bh_offset = tb_offset r, bh_size = of_nat (length (fst ct))\<rparr>"

lemma WriteRawBlock_good: "good r \<Longrightarrow> WriteRawBlock r c t = (handle_at r (c, t), written r (c, t))"
  by (simp add: WriteRawBlock_def file_append_good good_ok handle_at_def written_def stored_def Let_def add.assoc)
    (simp add: appended_def)

lemma written_simps [simp]:
  "good (written r ct) = good r" "tb_options (written r ct) = tb_options r" "tb_data_block (written r ct) = tb_data_block r"
  "tb_index_block (written r ct) = tb_index_block r" "tb_last_key (written r ct) = tb_last_key r" "tb_filter_block (written r ct) = tb_filter_block r"
  "tb_pending_index_entry (written r ct) = tb_pending_index_entry r" "tb_pending_handle (written r ct) = tb_pending_handle r"
  "wf_data (tb_file (written r ct)) = wf_data (tb_file r) @ stored ct" "tb_offset (written r ct) = tb_offset r + of_nat (length (stored ct))"
  by (simp_all add: written_def appended_def good_def)

text \<open>What is stored for a block of entries.\<close>

definition content :: "snappy \<Rightarrow> Options \<Rightarrow> nat \<Rightarrow> (bytes \<times> bytes) list \<Rightarrow> bytes \<times> CompressionType" where
  "content sn opts interval es = compress_block sn (opt_compression opts) (fst (bb_Finish (build interval es)))"

lemma bb_interval_build [simp]: "bb_interval (build n es) = n"
  by (induction es rule: rev_induct) (simp_all add: build_def new_BlockBuilder_def bb_Add_def Let_def case_prod_unfold)

lemma build_snoc: "build n (es @ [(k, v)]) = bb_Add (build n es) k v"
  by (simp add: build_def)

lemma build_Nil: "build n [] = new_BlockBuilder n"
  by (simp add: build_def)

lemma WriteBlock_good:
  "good r \<Longrightarrow> WriteBlock sn r (build n es) =
    (handle_at r (content sn (tb_options r) n es), build n [], written r (content sn (tb_options r) n es))"
  by (simp add: WriteBlock_def bb_Finish_def content_def bb_Reset_def build_Nil new_BlockBuilder_def Let_def WriteRawBlock_good split: prod.splits)

lemma build_empty_iff: "bb_empty (build n es) \<longleftrightarrow> es = []"
proof (cases es rule: rev_cases)
  case (snoc ys y)
  have "bb_buffer (bb_Add b k v) \<noteq> []" for b k v
    using EncodeVarint32_nonempty by (simp add: bb_Add_def Let_def PutVarint32_def)
  then show ?thesis using snoc by (cases y) (simp add: bb_empty_def build_snoc)
qed (simp add: bb_empty_def build_Nil new_BlockBuilder_def)

section \<open>The blocks of a table\<close>

text \<open>\<open>gs\<close> are the entries of the data blocks, one list for each block.\<close>

definition parts :: "snappy \<Rightarrow> Options \<Rightarrow> (bytes \<times> bytes) list list \<Rightarrow> bytes list" where
  "parts sn opts gs = map (\<lambda>g. stored (content sn opts (opt_restart_interval opts) g)) gs"

definition part_handle :: "snappy \<Rightarrow> Options \<Rightarrow> (bytes \<times> bytes) list list \<Rightarrow> nat \<Rightarrow> BlockHandle" where
  "part_handle sn opts gs k =
     \<lparr>bh_offset = of_nat (part_start (parts sn opts gs) k),
      bh_size = of_nat (length (fst (content sn opts (opt_restart_interval opts) (gs ! k))))\<rparr>"

definition separator :: "Options \<Rightarrow> (bytes \<times> bytes) list list \<Rightarrow> nat \<Rightarrow> bytes" where
  "separator opts gs k = FindShortestSeparator (opt_comparator opts) (fst (last (gs ! k))) (fst (hd (gs ! Suc k)))"

text \<open>The index entries that are made when the key after a block is known, and all of them.\<close>

definition inner_index :: "snappy \<Rightarrow> Options \<Rightarrow> (bytes \<times> bytes) list list \<Rightarrow> (bytes \<times> bytes) list" where
  "inner_index sn opts gs = map (\<lambda>k. (separator opts gs k, bh_EncodeTo (part_handle sn opts gs k) [])) [0..<length gs - 1]"

definition full_index :: "snappy \<Rightarrow> Options \<Rightarrow> (bytes \<times> bytes) list list \<Rightarrow> (bytes \<times> bytes) list" where
  "full_index sn opts gs = inner_index sn opts gs @
     (if gs = [] then [] else [(FindShortSuccessor (opt_comparator opts) (fst (last (last gs))), bh_EncodeTo (part_handle sn opts gs (length gs - 1)) [])])"

lemma length_parts [simp]: "length (parts sn opts gs) = length gs"
  by (simp add: parts_def)

lemma parts_snoc [simp]: "parts sn opts (gs @ [g]) = parts sn opts gs @ [stored (content sn opts (opt_restart_interval opts) g)]"
  by (simp add: parts_def)

lemma part_handle_snoc: "k < length gs \<Longrightarrow> part_handle sn opts (gs @ [g]) k = part_handle sn opts gs k"
  by (simp add: part_handle_def start_append nth_append)

lemma inner_index_snoc:
  "inner_index sn opts (gs @ [g]) = inner_index sn opts gs @
     (if gs = [] then [] else [(FindShortestSeparator (opt_comparator opts) (fst (last (last gs))) (fst (hd g)), bh_EncodeTo (part_handle sn opts gs (length gs - 1)) [])])"
proof (cases gs rule: rev_cases)
  case (snoc hs h)
  have "part_handle sn opts (hs @ [h, g]) k = part_handle sn opts (hs @ [h]) k" if "k \<le> length hs" for k
    using part_handle_snoc [of k "hs @ [h]" sn opts g] that by simp
  then show ?thesis using snoc by (simp add: inner_index_def separator_def nth_append)
qed (simp add: inner_index_def)

lemma inner_index_short [simp]: "inner_index sn opts [] = []" "inner_index sn opts [g] = []"
  by (simp_all add: inner_index_def)

lemma inner_index_grow: "g \<noteq> [] \<Longrightarrow> inner_index sn opts (gs @ [g @ [e]]) = inner_index sn opts (gs @ [g])"
  by (simp add: inner_index_snoc)

section \<open>The state of the builder\<close>

text \<open>The keys given to the filter builder, each with the number of its filter: the 2 KB range that its block starts in.\<close>

definition filter_keys :: "snappy \<Rightarrow> Options \<Rightarrow> (bytes \<times> bytes) list list \<Rightarrow> (nat \<times> bytes) set" where
  "filter_keys sn opts gs = (\<Union>k<length gs. {part_start (parts sn opts gs) k div kFilterBase} \<times> fst ` set (gs ! k))"

lemma filter_keys_snoc:
  "filter_keys sn opts (gs @ [g]) = filter_keys sn opts gs \<union> {length (concat (parts sn opts gs)) div kFilterBase} \<times> fst ` set g"
proof -
  have "part_start (parts sn opts gs @ [x]) k = part_start (parts sn opts gs) k" if "k \<le> length gs" for x k
    using that by (simp add: start_append)
  then show ?thesis by (auto simp: filter_keys_def lessThan_Suc nth_append start_all)
qed

definition blocks_of :: "(bytes \<times> bytes) list list \<Rightarrow> (bytes \<times> bytes) list \<Rightarrow> (bytes \<times> bytes) list list" where
  "blocks_of fl cur = (if cur = [] then fl else fl @ [cur])"

definition filter_inv :: "(bytes \<Rightarrow> bool) \<Rightarrow> snappy \<Rightarrow> TableBuilder \<Rightarrow> (bytes \<times> bytes) list list \<Rightarrow> bool" where
  "filter_inv okk sn r gs \<longleftrightarrow>
     (case opt_filter_policy (tb_options r) of
        None \<Rightarrow> tb_filter_block r = None
      | Some p \<Rightarrow> \<exists>b hist. tb_filter_block r = Some b \<and> fb_inv p okk b (length (wf_data (tb_file r)) div kFilterBase) hist \<and>
          filter_keys sn (tb_options r) gs \<subseteq> hist)"

text \<open>\<open>fl\<close> are the blocks flushed to the file, \<open>cur\<close> the entries of the block under construction.\<close>

definition tb_inv :: "(bytes \<Rightarrow> bool) \<Rightarrow> snappy \<Rightarrow> TableBuilder \<Rightarrow> (bytes \<times> bytes) list list \<Rightarrow> (bytes \<times> bytes) list \<Rightarrow> bool" where
  "tb_inv okk sn r fl cur \<longleftrightarrow>
     good r \<and> [] \<notin> set fl \<and> wf_data (tb_file r) = concat (parts sn (tb_options r) fl) \<and>
     tb_offset r = of_nat (length (wf_data (tb_file r))) \<and>
     tb_data_block r = build (opt_restart_interval (tb_options r)) cur \<and>
     tb_index_block r = build 1 (inner_index sn (tb_options r) (blocks_of fl cur)) \<and>
     (concat fl @ cur \<noteq> [] \<longrightarrow> tb_last_key r = fst (last (concat fl @ cur))) \<and>
     (tb_pending_index_entry r \<longleftrightarrow> fl \<noteq> [] \<and> cur = []) \<and>
     (tb_pending_index_entry r \<longrightarrow> tb_pending_handle r = part_handle sn (tb_options r) fl (length fl - 1)) \<and>
     filter_inv okk sn r (blocks_of fl cur)"

definition policy_ok :: "Options \<Rightarrow> (bytes \<Rightarrow> bool) \<Rightarrow> bool" where
  "policy_ok opts okk \<longleftrightarrow> (\<forall>p. opt_filter_policy opts = Some p \<longrightarrow> filter_policy_contract p okk)"

lemma tb_inv_new:
  assumes "policy_ok opts okk" "wf_script f = []" "wf_data f = []"
  shows "tb_inv okk sn (new_TableBuilder opts f) [] []"
proof -
  have "filter_inv okk sn (new_TableBuilder opts f) []"
    using assms fb_inv_StartBlock [OF fb_inv_new, of _ okk 0]
    by (auto simp: filter_inv_def new_TableBuilder_def on_filter_def tb_policy_def policy_ok_def filter_keys_def split: option.splits)
  then show ?thesis using assms by (simp add: tb_inv_def new_TableBuilder_def on_filter_def good_def parts_def build_Nil inner_index_def blocks_of_def)
qed

lemma content_flush_file: "good r \<Longrightarrow> tb_data_block r = build n cur \<Longrightarrow> cur \<noteq> [] \<Longrightarrow>
  Flush sn r = (let ct = content sn (tb_options r) n cur; r' = (written r ct)\<lparr>tb_pending_handle := handle_at r ct, tb_data_block := build n [], tb_pending_index_entry := True\<rparr>
    in on_filter (\<lambda>p b. StartBlock p b (tb_offset r')) r')"
  by (simp add: Flush_def good_ok build_empty_iff WriteBlock_good Let_def)
     (cases r, simp add: good_def tb_ok_def written_def appended_def)

lemma tb_inv_Flush:
  assumes inv: "tb_inv okk sn r fl cur" and n: "length (wf_data (tb_file (Flush sn r))) < 2 ^ 64" and cur: "cur \<noteq> []"
  shows "tb_inv okk sn (Flush sn r) (fl @ [cur]) []" "tb_options (Flush sn r) = tb_options r"
proof -
  let ?o = "tb_options r" and ?I = "opt_restart_interval (tb_options r)"
  let ?ct = "content sn ?o ?I cur"
  define r1 where "r1 = (written r ?ct)\<lparr>tb_pending_handle := handle_at r ?ct, tb_data_block := build ?I [], tb_pending_index_entry := True\<rparr>"
  have I: "good r" "wf_data (tb_file r) = concat (parts sn ?o fl)" "tb_offset r = of_nat (length (wf_data (tb_file r)))"
    "tb_data_block r = build ?I cur" "tb_index_block r = build 1 (inner_index sn ?o (fl @ [cur]))" "tb_last_key r = fst (last cur)"
    "filter_inv okk sn r (fl @ [cur])" "[] \<notin> set fl"
    using inv cur by (auto simp: tb_inv_def blocks_of_def)
  have F: "Flush sn r = on_filter (\<lambda>p b. StartBlock p b (tb_offset r1)) r1"
    using content_flush_file [OF I(1,4) cur] by (simp add: r1_def Let_def)
  have r1: "good r1" "tb_options r1 = ?o" "wf_data (tb_file r1) = concat (parts sn ?o (fl @ [cur]))"
    "tb_offset r1 = of_nat (length (wf_data (tb_file r1)))" "tb_data_block r1 = build ?I []"
    "tb_index_block r1 = build 1 (inner_index sn ?o (fl @ [cur]))" "tb_last_key r1 = fst (last cur)" "tb_filter_block r1 = tb_filter_block r"
    "tb_pending_index_entry r1" "tb_pending_handle r1 = part_handle sn ?o (fl @ [cur]) (length fl)"
    using I by (simp_all add: r1_def good_def written_def appended_def handle_at_def part_handle_def start_append start_all)
  have d: "wf_data (tb_file (Flush sn r)) = wf_data (tb_file r1)" unfolding F by (simp add: on_filter_def)
  have off: "unat (tb_offset r1) = length (wf_data (tb_file r1))" using unat_of_nat_u64 n unfolding d r1(4) by blast
  have le: "length (wf_data (tb_file r)) div kFilterBase \<le> unat (tb_offset r1) div kFilterBase"
    unfolding off r1(3) I(2) by (intro div_le_mono) simp
  have fi: "filter_inv okk sn (Flush sn r) (fl @ [cur])"
  proof (cases "opt_filter_policy ?o")
    case None
    then show ?thesis using I(7) r1(2,8) unfolding F by (simp add: filter_inv_def on_filter_def)
  next
    case (Some p)
    then obtain b hist where b: "tb_filter_block r = Some b" "fb_inv p okk b (length (wf_data (tb_file r)) div kFilterBase) hist"
      "filter_keys sn ?o (fl @ [cur]) \<subseteq> hist" using I(7) by (auto simp: filter_inv_def)
    from fb_inv_StartBlock [OF b(2) le] show ?thesis
      using Some b(1,3) r1(2,8) off unfolding F by (auto simp: filter_inv_def on_filter_def tb_policy_def)
  qed
  show o: "tb_options (Flush sn r) = ?o" unfolding F using r1(2) by (simp add: on_filter_def)
  show "tb_inv okk sn (Flush sn r) (fl @ [cur]) []"
    using r1 fi o I(8) cur unfolding tb_inv_def blocks_of_def F by (simp add: on_filter_def good_def)
qed

text \<open>\<open>Add\<close> before the decision to flush.\<close>

definition added :: "TableBuilder \<Rightarrow> bytes \<Rightarrow> bytes \<Rightarrow> TableBuilder" where
  "added r key value =
     (let r = (if tb_pending_index_entry r
               then add_index_entry r (FindShortestSeparator (opt_comparator (tb_options r)) (tb_last_key r) key) else r);
          r = on_filter (\<lambda>p b. fb_AddKey b key) r
      in r\<lparr>tb_last_key := key, tb_num_entries := tb_num_entries r + 1, tb_data_block := bb_Add (tb_data_block r) key value\<rparr>)"

lemma tb_Add_added:
  "tb_ok r \<Longrightarrow> tb_Add sn r key value = (let r = added r key value in
     if bb_CurrentSizeEstimate (tb_data_block r) \<ge> opt_block_size (tb_options r) then Flush sn r else r)"
  by (simp add: tb_Add_def added_def Let_def)

lemma added_simps [simp]:
  "tb_options (added r k v) = tb_options r" "tb_file (added r k v) = tb_file r" "tb_offset (added r k v) = tb_offset r"
  "tb_status (added r k v) = tb_status r" "tb_data_block (added r k v) = bb_Add (tb_data_block r) k v" "tb_last_key (added r k v) = k"
  "tb_pending_index_entry (added r k v) \<longleftrightarrow> False"
  "tb_filter_block (added r k v) = map_option (\<lambda>b. fb_AddKey b k) (tb_filter_block r)"
  "tb_index_block (added r k v) = (if tb_pending_index_entry r
     then bb_Add (tb_index_block r) (FindShortestSeparator (opt_comparator (tb_options r)) (tb_last_key r) k) (bh_EncodeTo (tb_pending_handle r) [])
     else tb_index_block r)"
  by (simp_all add: added_def Let_def add_index_entry_def on_filter_def)

lemma filter_inv_added:
  assumes f: "filter_inv okk sn r (blocks_of fl cur)" and d: "wf_data (tb_file r) = concat (parts sn (tb_options r) fl)" and k: "okk k"
  shows "filter_inv okk sn (added r k v) (fl @ [cur @ [(k, v)]])"
proof (cases "opt_filter_policy (tb_options r)")
  case None
  then show ?thesis using f by (simp add: filter_inv_def)
next
  case (Some p)
  let ?i = "length (wf_data (tb_file r)) div kFilterBase"
  obtain b hist where b: "tb_filter_block r = Some b" "fb_inv p okk b ?i hist"
    "filter_keys sn (tb_options r) (blocks_of fl cur) \<subseteq> hist" using f Some by (auto simp: filter_inv_def)
  have "filter_keys sn (tb_options r) (fl @ [cur @ [(k, v)]]) \<subseteq> insert (?i, k) hist"
    using b(3) d by (auto simp: filter_keys_snoc blocks_of_def split: if_splits)
  then show ?thesis using Some b(1) fb_inv_AddKey [OF b(2) k] by (auto simp: filter_inv_def)
qed

lemma tb_inv_added:
  assumes inv: "tb_inv okk sn r fl cur" and k: "okk k"
  shows "tb_inv okk sn (added r k v) fl (cur @ [(k, v)])"
proof -
  let ?o = "tb_options r"
  have I: "good r" "wf_data (tb_file r) = concat (parts sn ?o fl)" "tb_offset r = of_nat (length (wf_data (tb_file r)))"
    "tb_data_block r = build (opt_restart_interval ?o) cur" "tb_index_block r = build 1 (inner_index sn ?o (blocks_of fl cur))"
    "[] \<notin> set fl" "tb_pending_index_entry r \<longleftrightarrow> fl \<noteq> [] \<and> cur = []" "filter_inv okk sn r (blocks_of fl cur)"
    using inv by (auto simp: tb_inv_def)
  have idx: "tb_index_block (added r k v) = build 1 (inner_index sn ?o (fl @ [cur @ [(k, v)]]))"
  proof (cases "tb_pending_index_entry r")
    case True
    have fl: "fl \<noteq> []" "cur = []" using True I(7) by simp_all
    then have "last fl \<noteq> []" using I(6) last_in_set by metis
    then have "last (concat fl) = last (last fl)" "concat fl \<noteq> []" using fl(1) by (cases fl rule: rev_cases; simp)+
    then have p: "tb_last_key r = fst (last (last fl))" "tb_pending_handle r = part_handle sn ?o fl (length fl - 1)"
      using inv True fl(2) by (auto simp: tb_inv_def)
    show ?thesis using True fl I(5) p by (simp add: inner_index_snoc build_snoc blocks_of_def)
  next
    case False
    then show ?thesis using I(5,7) by (cases "cur = []") (simp_all add: inner_index_grow blocks_of_def inner_index_snoc)
  qed
  show ?thesis
    using idx I filter_inv_added [OF I(8,2) k] unfolding tb_inv_def by (simp add: good_def build_snoc blocks_of_def)
qed

lemma tb_inv_Add:
  assumes inv: "tb_inv okk sn r fl cur" and k: "okk k" and n: "length (wf_data (tb_file (tb_Add sn r k v))) < 2 ^ 64"
  shows "\<exists>fl' cur'. tb_inv okk sn (tb_Add sn r k v) fl' cur' \<and> concat fl' @ cur' = concat fl @ cur @ [(k, v)] \<and>
    tb_options (tb_Add sn r k v) = tb_options r"
proof -
  have "tb_ok r" using inv by (simp add: tb_inv_def good_ok)
  note A = tb_Add_added [OF this, of sn k v]
  note i = tb_inv_added [OF inv k, of v]
  show ?thesis
  proof (cases "bb_CurrentSizeEstimate (tb_data_block (added r k v)) \<ge> opt_block_size (tb_options (added r k v))")
    case True
    then have "tb_Add sn r k v = Flush sn (added r k v)" using A by (simp add: Let_def)
    with tb_inv_Flush [OF i] n show ?thesis by (intro exI [of _ "fl @ [cur @ [(k, v)]]"] exI [of _ "[]"]) simp
  next
    case False
    then have "tb_Add sn r k v = added r k v" using A by (simp add: Let_def)
    with i show ?thesis by (intro exI [of _ fl] exI [of _ "cur @ [(k, v)]"]) simp
  qed
qed

section \<open>A whole table\<close>

definition add_all :: "snappy \<Rightarrow> TableBuilder \<Rightarrow> (bytes \<times> bytes) list \<Rightarrow> TableBuilder" where
  "add_all sn r es = foldl (\<lambda>r (k, v). tb_Add sn r k v) r es"

text \<open>No call takes bytes of the file back.\<close>

lemma file_append_prefix: "prefix (wf_data (tb_file r)) (wf_data (tb_file (file_append r d)))"
  using wf_Append_prefix [of "tb_file r" d] by (simp add: file_append_def Let_def case_prod_unfold)

lemma WriteRawBlock_prefix: "prefix (wf_data (tb_file r)) (wf_data (tb_file (snd (WriteRawBlock r c t))))"
  using file_append_prefix [of r c] file_append_prefix [of "file_append r c" "block_trailer c t"]
  by (auto simp: WriteRawBlock_def Let_def intro: prefix_order.trans)

lemma WriteBlock_prefix: "prefix (wf_data (tb_file r)) (wf_data (tb_file (snd (snd (WriteBlock sn r b)))))"
  using WriteRawBlock_prefix [of r] by (simp add: WriteBlock_def Let_def case_prod_unfold)

lemma Flush_prefix: "prefix (wf_data (tb_file r)) (wf_data (tb_file (Flush sn r)))"
  using WriteBlock_prefix [of r sn "tb_data_block r"]
  by (simp add: Flush_def Let_def case_prod_unfold on_filter_def)

lemma tb_Add_prefix: "prefix (wf_data (tb_file r)) (wf_data (tb_file (tb_Add sn r k v)))"
  using Flush_prefix [of "added r k v" sn] by (cases "tb_ok r") (simp_all add: tb_Add_added Let_def, simp add: tb_Add_def)

lemma tb_inv_add_all:
  assumes "policy_ok opts okk" "wf_script f = []" "wf_data f = []"
  shows "\<forall>e\<in>set es. okk (fst e) \<Longrightarrow> length (wf_data (tb_file (add_all sn (new_TableBuilder opts f) es))) < 2 ^ 64 \<Longrightarrow>
    \<exists>fl cur. tb_inv okk sn (add_all sn (new_TableBuilder opts f) es) fl cur \<and> concat fl @ cur = es \<and>
      tb_options (add_all sn (new_TableBuilder opts f) es) = opts"
proof (induction es rule: rev_induct)
  case Nil
  show ?case using tb_inv_new [OF assms, of sn] by (intro exI [of _ "[]"]) (simp add: add_all_def new_TableBuilder_def on_filter_def)
next
  case (snoc e es)
  let ?r = "add_all sn (new_TableBuilder opts f) es"
  obtain k v where e: "e = (k, v)" by (cases e)
  have a: "add_all sn (new_TableBuilder opts f) (es @ [e]) = tb_Add sn ?r k v" by (simp add: add_all_def e)
  have "length (wf_data (tb_file ?r)) < 2 ^ 64"
    using snoc.prems(2) prefix_length_le [OF tb_Add_prefix [of ?r sn k v]] unfolding a by simp
  with snoc obtain fl cur where i: "tb_inv okk sn ?r fl cur" "concat fl @ cur = es" "tb_options ?r = opts" by auto
  obtain fl' cur' where "tb_inv okk sn (tb_Add sn ?r k v) fl' cur'" "concat fl' @ cur' = concat fl @ cur @ [(k, v)]" "tb_options (tb_Add sn ?r k v) = opts"
    using tb_inv_Add [OF i(1), of k v] snoc.prems i(3) unfolding a by (auto simp: e)
  then show ?case unfolding a using i(2) by (intro exI [of _ fl'] exI [of _ cur']) (simp add: e)
qed

text \<open>The bytes of a table: \<open>gs\<close> the entries of its data blocks, \<open>flt\<close> the filter block.\<close>

definition handle_of :: "bytes \<Rightarrow> bytes \<times> CompressionType \<Rightarrow> BlockHandle" where
  "handle_of pre ct = \<lparr>bh_offset = of_nat (length pre), bh_size = of_nat (length (fst ct))\<rparr>"

definition filter_part :: "bytes option \<Rightarrow> bytes" where
  "filter_part flt = (case flt of None \<Rightarrow> [] | Some b \<Rightarrow> stored (b, kNoCompression))"

definition meta_entries :: "snappy \<Rightarrow> Options \<Rightarrow> (bytes \<times> bytes) list list \<Rightarrow> bytes option \<Rightarrow> (bytes \<times> bytes) list" where
  "meta_entries sn opts gs flt =
     (case flt of None \<Rightarrow> []
      | Some b \<Rightarrow> [(metaindex_key (the (opt_filter_policy opts)), bh_EncodeTo (handle_of (concat (parts sn opts gs)) (b, kNoCompression)) [])])"

definition meta_content :: "snappy \<Rightarrow> Options \<Rightarrow> (bytes \<times> bytes) list list \<Rightarrow> bytes option \<Rightarrow> bytes \<times> CompressionType" where
  "meta_content sn opts gs flt = content sn opts (opt_restart_interval opts) (meta_entries sn opts gs flt)"

definition index_content :: "snappy \<Rightarrow> Options \<Rightarrow> (bytes \<times> bytes) list list \<Rightarrow> bytes \<times> CompressionType" where
  "index_content sn opts gs = content sn opts 1 (full_index sn opts gs)"

definition before_meta :: "snappy \<Rightarrow> Options \<Rightarrow> (bytes \<times> bytes) list list \<Rightarrow> bytes option \<Rightarrow> bytes" where
  "before_meta sn opts gs flt = concat (parts sn opts gs) @ filter_part flt"

definition before_index :: "snappy \<Rightarrow> Options \<Rightarrow> (bytes \<times> bytes) list list \<Rightarrow> bytes option \<Rightarrow> bytes" where
  "before_index sn opts gs flt = before_meta sn opts gs flt @ stored (meta_content sn opts gs flt)"

definition before_footer :: "snappy \<Rightarrow> Options \<Rightarrow> (bytes \<times> bytes) list list \<Rightarrow> bytes option \<Rightarrow> bytes" where
  "before_footer sn opts gs flt = before_index sn opts gs flt @ stored (index_content sn opts gs)"

definition table_footer :: "snappy \<Rightarrow> Options \<Rightarrow> (bytes \<times> bytes) list list \<Rightarrow> bytes option \<Rightarrow> Footer" where
  "table_footer sn opts gs flt =
     \<lparr>metaindex_handle = handle_of (before_meta sn opts gs flt) (meta_content sn opts gs flt),
      index_handle = handle_of (before_index sn opts gs flt) (index_content sn opts gs)\<rparr>"

definition table_file :: "snappy \<Rightarrow> Options \<Rightarrow> (bytes \<times> bytes) list list \<Rightarrow> bytes option \<Rightarrow> bytes" where
  "table_file sn opts gs flt = before_footer sn opts gs flt @ Footer_EncodeTo (table_footer sn opts gs flt) []"

text \<open>A builder without failures that has written \<open>d\<close>.\<close>

definition has :: "TableBuilder \<Rightarrow> bytes \<Rightarrow> bool" where
  "has r d \<longleftrightarrow> good r \<and> wf_data (tb_file r) = d \<and> tb_offset r = of_nat (length d)"

lemma has_written: "has r d \<Longrightarrow> has (written r ct) (d @ stored ct)" "has r d \<Longrightarrow> handle_at r ct = handle_of d ct" "has r d \<Longrightarrow> good r" "has r d \<Longrightarrow> tb_ok r"
  by (simp_all add: has_def handle_at_def handle_of_def good_ok)

lemma write_footer_has:
  "has r d \<Longrightarrow> has (write_footer r m x) (d @ Footer_EncodeTo \<lparr>metaindex_handle = m, index_handle = x\<rparr> [])"
  by (simp add: write_footer_def file_append_good has_def good_ok Let_def good_def) (simp add: appended_def tb_ok_def)

text \<open>\<open>Flush\<close> at the end: the last block is in the file.\<close>

lemma tb_inv_last_Flush:
  assumes "tb_inv okk sn r fl cur" "length (wf_data (tb_file (Flush sn r))) < 2 ^ 64"
  shows "tb_inv okk sn (Flush sn r) (blocks_of fl cur) [] \<and> tb_options (Flush sn r) = tb_options r"
proof (cases "cur = []")
  case True
  then have "Flush sn r = r" using assms(1) by (simp add: Flush_def tb_inv_def good_ok build_empty_iff)
  then show ?thesis using assms(1) True by (simp add: blocks_of_def)
next
  case False
  then show ?thesis using tb_inv_Flush [OF assms False] by (simp add: blocks_of_def)
qed

lemma write_index_good:
  assumes inv: "tb_inv okk sn r gs []" and g: "has r' d" "tb_options r' = tb_options r" "tb_index_block r' = tb_index_block r"
    "tb_pending_index_entry r' = tb_pending_index_entry r" "tb_last_key r' = tb_last_key r" "tb_pending_handle r' = tb_pending_handle r"
  shows "\<exists>r''. write_index sn r' = (handle_of d (index_content sn (tb_options r) gs), r'') \<and> has r'' (d @ stored (index_content sn (tb_options r) gs))"
proof -
  let ?o = "tb_options r"
  define r1 where "r1 = (if tb_pending_index_entry r'
    then add_index_entry r' (FindShortSuccessor (opt_comparator (tb_options r')) (tb_last_key r')) else r')"
  have p: "tb_pending_index_entry r \<longleftrightarrow> gs \<noteq> []" "[] \<notin> set gs" "tb_index_block r = build 1 (inner_index sn ?o gs)"
    using inv by (auto simp: tb_inv_def blocks_of_def)
  have "tb_last_key r = fst (last (last gs)) \<and> tb_pending_handle r = part_handle sn ?o gs (length gs - 1)" if "gs \<noteq> []"
  proof -
    have "last gs \<noteq> []" using p(2) that last_in_set by metis
    then have "last (concat gs) = last (last gs)" "concat gs \<noteq> []" using that by (cases gs rule: rev_cases; simp)+
    then show ?thesis using inv p(1) that by (auto simp: tb_inv_def)
  qed
  then have b: "tb_index_block r1 = build 1 (full_index sn ?o gs)" "tb_options r1 = ?o"
    using p g by (simp_all add: r1_def add_index_entry_def full_index_def build_snoc)
  have h: "has r1 d" using g(1) by (simp add: r1_def has_def good_def add_index_entry_def)
  have "write_index sn r' = (handle_at r1 (index_content sn ?o gs), (written r1 (index_content sn ?o gs))\<lparr>tb_index_block := build 1 []\<rparr>)"
    using has_written(4) [OF g(1)] WriteBlock_good [OF has_written(3) [OF h], of sn 1 "full_index sn ?o gs"] b
    unfolding write_index_def r1_def [symmetric] by (simp add: Let_def index_content_def)
  then show ?thesis using has_written(1,2) [OF h] by (simp add: has_def good_def)
qed

definition filter_of_table :: "(bytes \<Rightarrow> bool) \<Rightarrow> snappy \<Rightarrow> Options \<Rightarrow> (bytes \<times> bytes) list list \<Rightarrow> bytes option \<Rightarrow> bool" where
  "filter_of_table okk sn opts gs flt \<longleftrightarrow>
     (case opt_filter_policy opts of
        None \<Rightarrow> flt = None
      | Some p \<Rightarrow> \<exists>b i hist. flt = Some (fb_Finish p b) \<and> fb_inv p okk b i hist \<and> filter_keys sn opts gs \<subseteq> hist)"

lemma write_meta_good:
  assumes inv: "tb_inv okk sn r gs []"
  shows "\<exists>flt r1 r2 fh. filter_of_table okk sn (tb_options r) gs flt \<and> write_filter (r\<lparr>tb_closed := True\<rparr>) = (fh, r1) \<and>
    write_metaindex sn r1 fh = (handle_of (before_meta sn (tb_options r) gs flt) (meta_content sn (tb_options r) gs flt), r2) \<and>
    has r2 (before_index sn (tb_options r) gs flt) \<and> tb_options r2 = tb_options r \<and> tb_index_block r2 = tb_index_block r \<and>
    tb_pending_index_entry r2 = tb_pending_index_entry r \<and> tb_last_key r2 = tb_last_key r \<and> tb_pending_handle r2 = tb_pending_handle r"
proof -
  let ?r = "r\<lparr>tb_closed := True\<rparr>" and ?o = "tb_options r" and ?I = "opt_restart_interval (tb_options r)"
  have h: "has ?r (concat (parts sn ?o gs))" and f: "filter_inv okk sn r gs"
    using inv by (simp_all add: has_def tb_inv_def good_def blocks_of_def)
  note g = has_written(3) [OF h]
  show ?thesis
  proof (cases "opt_filter_policy ?o")
    case None
    then have n: "tb_filter_block r = None" using f by (simp add: filter_inv_def)
    let ?ct = "meta_content sn ?o gs None"
    have "write_metaindex sn ?r new_BlockHandle = (handle_at ?r ?ct, written ?r ?ct)"
      using WriteBlock_good [OF g, of sn ?I "[]"] has_written(4) [OF h] n
      by (simp add: write_metaindex_def Let_def meta_content_def meta_entries_def build_Nil)
    then show ?thesis using n None has_written(1,2) [OF h]
      by (intro exI [of _ None]) (simp add: write_filter_def filter_of_table_def before_meta_def before_index_def filter_part_def)
  next
    case (Some p)
    then obtain b hist where b: "tb_filter_block r = Some b" "fb_inv p okk b (length (wf_data (tb_file r)) div kFilterBase) hist"
      "filter_keys sn ?o gs \<subseteq> hist" using f by (auto simp: filter_inv_def)
    let ?F = "fb_Finish p b"
    define r1 where "r1 = written ?r (?F, kNoCompression)"
    have wf: "write_filter ?r = (handle_of (concat (parts sn ?o gs)) (?F, kNoCompression), r1)"
      using b(1) Some has_written(2,4) [OF h] WriteRawBlock_good [OF g] by (simp add: write_filter_def tb_policy_def r1_def)
    have h1: "has r1 (before_meta sn ?o gs (Some ?F))" using has_written(1) [OF h] by (simp add: r1_def before_meta_def filter_part_def)
    let ?ct = "meta_content sn ?o gs (Some ?F)" and ?fh = "handle_of (concat (parts sn ?o gs)) (?F, kNoCompression)"
    have "bb_Add (new_BlockBuilder ?I) (metaindex_key p) (bh_EncodeTo ?fh []) = build ?I (meta_entries sn ?o gs (Some ?F))"
      using Some by (simp add: meta_entries_def build_def)
    moreover have s: "tb_options r1 = ?o" "tb_filter_block r1 = Some b" "tb_policy r1 = p" using b(1) Some by (simp_all add: r1_def tb_policy_def)
    ultimately have "write_metaindex sn r1 ?fh = (handle_at r1 ?ct, written r1 ?ct)"
      using WriteBlock_good [OF has_written(3) [OF h1], of sn ?I "meta_entries sn ?o gs (Some ?F)"] has_written(4) [OF h1]
      by (simp add: write_metaindex_def Let_def meta_content_def)
    moreover have "filter_of_table okk sn ?o gs (Some ?F)" using Some b(2,3) by (auto simp: filter_of_table_def)
    ultimately show ?thesis using wf has_written(1,2) [OF h1] s(1)
      by (intro exI [of _ "Some ?F"]) (simp add: before_index_def, simp add: r1_def)
  qed
qed

lemma finish_prefixes:
  "prefix (wf_data (tb_file r)) (wf_data (tb_file (snd (write_filter r))))"
  "prefix (wf_data (tb_file r)) (wf_data (tb_file (snd (write_metaindex sn r fh))))"
  "prefix (wf_data (tb_file r)) (wf_data (tb_file (snd (write_index sn r))))"
  "prefix (wf_data (tb_file r)) (wf_data (tb_file (write_footer r m x)))"
  using WriteRawBlock_prefix WriteBlock_prefix file_append_prefix WriteBlock_prefix [of "add_index_entry r k" for k]
  by (auto simp: write_filter_def write_metaindex_def write_index_def write_footer_def Let_def case_prod_unfold add_index_entry_def split: option.splits)

lemma tb_Finish_prefix: "prefix (wf_data (tb_file (Flush sn r))) (wf_data (tb_file (snd (tb_Finish sn r))))"
proof -
  define r0 where "r0 = (Flush sn r)\<lparr>tb_closed := True\<rparr>"
  define r1 where "r1 = snd (write_filter r0)"
  define r2 where "r2 = snd (write_metaindex sn r1 (fst (write_filter r0)))"
  define r3 where "r3 = snd (write_index sn r2)"
  have "snd (tb_Finish sn r) = write_footer r3 (fst (write_metaindex sn r1 (fst (write_filter r0)))) (fst (write_index sn r2))"
    by (simp add: tb_Finish_def Let_def case_prod_unfold r0_def r1_def r2_def r3_def)
  moreover have "prefix (wf_data (tb_file r0)) (wf_data (tb_file r1))" "prefix (wf_data (tb_file r1)) (wf_data (tb_file r2))"
    "prefix (wf_data (tb_file r2)) (wf_data (tb_file r3))" unfolding r1_def r2_def r3_def by (rule finish_prefixes)+
  moreover have "wf_data (tb_file r0) = wf_data (tb_file (Flush sn r))" by (simp add: r0_def)
  ultimately show ?thesis using finish_prefixes(4) [of r3] by (metis prefix_order.trans)
qed

lemma tb_Finish_file:
  assumes inv: "tb_inv okk sn r fl cur" and n: "length (wf_data (tb_file (snd (tb_Finish sn r)))) < 2 ^ 64"
  shows "\<exists>flt. fst (tb_Finish sn r) = Status_OK \<and> has (snd (tb_Finish sn r)) (table_file sn (tb_options r) (blocks_of fl cur) flt) \<and>
    filter_of_table okk sn (tb_options r) (blocks_of fl cur) flt"
proof -
  let ?o = "tb_options r" and ?gs = "blocks_of fl cur"
  have "length (wf_data (tb_file (Flush sn r))) < 2 ^ 64" using n prefix_length_le [OF tb_Finish_prefix [of sn r]] by simp
  then have i: "tb_inv okk sn (Flush sn r) ?gs []" and o: "tb_options (Flush sn r) = ?o" using tb_inv_last_Flush [OF inv] by auto
  obtain flt r1 r2 fh where m: "filter_of_table okk sn ?o ?gs flt" "write_filter ((Flush sn r)\<lparr>tb_closed := True\<rparr>) = (fh, r1)"
    "write_metaindex sn r1 fh = (handle_of (before_meta sn ?o ?gs flt) (meta_content sn ?o ?gs flt), r2)"
    "has r2 (before_index sn ?o ?gs flt)" "tb_options r2 = tb_options (Flush sn r)" "tb_index_block r2 = tb_index_block (Flush sn r)"
    "tb_pending_index_entry r2 = tb_pending_index_entry (Flush sn r)" "tb_last_key r2 = tb_last_key (Flush sn r)"
    "tb_pending_handle r2 = tb_pending_handle (Flush sn r)"
    using write_meta_good [OF i] unfolding o by blast
  from write_index_good [OF i m(4-9)] obtain r3 where x: "write_index sn r2 = (handle_of (before_index sn ?o ?gs flt) (index_content sn ?o ?gs), r3)"
    "has r3 (before_footer sn ?o ?gs flt)" unfolding o by (auto simp: before_footer_def)
  have "has (write_footer r3 (metaindex_handle (table_footer sn ?o ?gs flt)) (index_handle (table_footer sn ?o ?gs flt))) (table_file sn ?o ?gs flt)"
    using write_footer_has [OF x(2)] by (simp add: table_file_def table_footer_def)
  moreover have "tb_Finish sn r = (let r = write_footer r3 (metaindex_handle (table_footer sn ?o ?gs flt)) (index_handle (table_footer sn ?o ?gs flt)) in (tb_status r, r))"
    using m(2,3) x(1) by (simp add: tb_Finish_def Let_def table_footer_def)
  ultimately show ?thesis using m(1) by (intro exI [of _ flt]) (simp add: Let_def, simp add: has_def good_def)
qed

section \<open>The index of a table\<close>

definition bound :: "Options \<Rightarrow> (bytes \<times> bytes) list list \<Rightarrow> nat \<Rightarrow> bytes" where
  "bound opts gs k = (if Suc k < length gs then separator opts gs k else FindShortSuccessor (opt_comparator opts) (fst (last (gs ! k))))"

lemma full_index_eq: "full_index sn opts gs = map (\<lambda>k. (bound opts gs k, bh_EncodeTo (part_handle sn opts gs k) [])) [0..<length gs]"
proof (cases gs rule: rev_cases)
  case (snoc hs h)
  then show ?thesis by (simp add: full_index_def inner_index_def bound_def)
qed (simp add: full_index_def)

lemma sorted_wrt_concat:
  assumes "sorted_wrt P (concat gs)" "k < l" "l < length gs" "x \<in> set (gs ! k)" "y \<in> set (gs ! l)"
  shows "P x y"
proof -
  have "sorted_wrt P (concat (take l gs) @ concat (drop l gs))" using assms(1) by (simp flip: concat_append)
  moreover have "gs ! k \<in> set (take l gs)" using assms by (auto simp: in_set_conv_nth intro!: exI [of _ k])
  moreover have "gs ! l \<in> set (drop l gs)" using assms by (auto simp: in_set_conv_nth intro!: exI [of _ 0])
  ultimately show ?thesis using assms(4,5) by (auto simp: sorted_wrt_append)
qed

lemma sorted_wrt_part: "sorted_wrt P (concat gs) \<Longrightarrow> g \<in> set gs \<Longrightarrow> sorted_wrt P g"
  by (induction gs) (auto simp: sorted_wrt_append)

lemma sorted_entries_part: "sorted_entries c okk (concat gs) \<Longrightarrow> g \<in> set gs \<Longrightarrow> sorted_entries c okk g"
  using sorted_wrt_part [of _ gs g] by (auto simp: sorted_entries_def)

lemma sorted_le_last:
  assumes s: "sorted_entries c okk g" and e: "e \<in> set g"
  shows "Compare c (fst e) (fst (last g)) \<le> 0"
proof -
  have g: "g = butlast g @ [last g]" using e by (cases g rule: rev_cases) simp_all
  have "last g \<in> set g" using e by (intro last_in_set) auto
  then have "sorted_wrt (\<lambda>a b. Compare c (fst a) (fst b) < 0) (butlast g @ [last g])" "comparator_contract c okk" "okk (fst (last g))"
    using s g by (simp_all add: sorted_entries_def)
  moreover have "e \<in> set (butlast g) \<or> e = last g" using e by (subst (asm) g) auto
  ultimately show ?thesis using comparator_contract.Compare_refl [of c okk] by (auto simp: sorted_wrt_append intro: less_imp_le)
qed

text \<open>A bound is not below the keys of its block and below all keys after.\<close>

lemma bound_laws:
  assumes s: "sorted_entries (opt_comparator opts) okk (concat gs)" and ne: "[] \<notin> set gs" and k: "k < length gs"
  shows "okk (bound opts gs k)" "e \<in> set (gs ! k) \<Longrightarrow> Compare (opt_comparator opts) (fst e) (bound opts gs k) \<le> 0"
    "k < l \<Longrightarrow> l < length gs \<Longrightarrow> e \<in> set (gs ! l) \<Longrightarrow> Compare (opt_comparator opts) (bound opts gs k) (fst e) < 0"
proof -
  let ?c = "opt_comparator opts"
  have C: "comparator_contract ?c okk" and K: "\<And>e l. l < length gs \<Longrightarrow> e \<in> set (gs ! l) \<Longrightarrow> okk (fst e)"
    and P: "sorted_wrt (\<lambda>a b. Compare ?c (fst a) (fst b) < 0) (concat gs)"
    using s nth_mem by (auto simp: sorted_entries_def)
  have N: "l < length gs \<Longrightarrow> gs ! l \<noteq> []" for l using ne by (metis nth_mem)
  have L: "last (gs ! k) \<in> set (gs ! k)" "okk (fst (last (gs ! k)))" using N [OF k] K [OF k] by simp_all
  have B: "okk (bound opts gs k) \<and> Compare ?c (fst (last (gs ! k))) (bound opts gs k) \<le> 0"
  proof (cases "Suc k < length gs")
    case True
    have h: "hd (gs ! Suc k) \<in> set (gs ! Suc k)" using N [OF True] by simp
    have "Compare ?c (fst (last (gs ! k))) (fst (hd (gs ! Suc k))) < 0" using sorted_wrt_concat [OF P _ True L(1) h] by simp
    then show ?thesis
      using True comparator_contract.Separator_ok [OF C L(2) K [OF True h]] comparator_contract.Separator_lower [OF C L(2) K [OF True h]]
      by (simp add: bound_def separator_def)
  next
    case False
    then show ?thesis using comparator_contract.Successor_ok [OF C L(2)] comparator_contract.Successor_lower [OF C L(2)] by (simp add: bound_def)
  qed
  then show "okk (bound opts gs k)" by simp
  show "Compare ?c (fst e) (bound opts gs k) \<le> 0" if e: "e \<in> set (gs ! k)"
    using comparator_contract.Compare_le_trans [OF C K [OF k e] L(2) _ sorted_le_last] B sorted_entries_part [OF s] e k nth_mem by blast
  show "Compare ?c (bound opts gs k) (fst e) < 0" if l: "k < l" "l < length gs" and e: "e \<in> set (gs ! l)"
  proof -
    have S: "Suc k < length gs" using l by simp
    have h: "hd (gs ! Suc k) \<in> set (gs ! Suc k)" using N [OF S] by simp
    have "Compare ?c (fst (last (gs ! k))) (fst (hd (gs ! Suc k))) < 0" using sorted_wrt_concat [OF P _ S L(1) h] by simp
    then have u: "Compare ?c (bound opts gs k) (fst (hd (gs ! Suc k))) < 0"
      using S comparator_contract.Separator_upper [OF C L(2) K [OF S h]] by (simp add: bound_def separator_def)
    have "Compare ?c (fst (hd (gs ! Suc k))) (fst e) \<le> 0"
    proof (cases "l = Suc k")
      case True
      have "e = hd (gs ! l) \<or> Compare ?c (fst (hd (gs ! l))) (fst e) < 0"
        using sorted_wrt_part [OF P nth_mem [OF l(2)]] e by (cases "gs ! l") auto
      then show ?thesis using True comparator_contract.Compare_refl [OF C K [OF S h]] by auto
    next
      case False
      then show ?thesis using sorted_wrt_concat [OF P _ l(2) h e] l by simp
    qed
    then show ?thesis using comparator_contract.Compare_less_le_trans [OF C _ K [OF S h] K [OF l(2) e] u] B by blast
  qed
qed

lemma full_index_sorted:
  assumes s: "sorted_entries (opt_comparator opts) okk (concat gs)" and ne: "[] \<notin> set gs"
  shows "sorted_entries (opt_comparator opts) okk (full_index sn opts gs)"
proof -
  note B = bound_laws [OF s ne]
  have C: "comparator_contract (opt_comparator opts) okk" using s by (simp add: sorted_entries_def)
  have "Compare (opt_comparator opts) (bound opts gs k) (bound opts gs l) < 0" if "k < l" "l < length gs" for k l
  proof -
    have h: "hd (gs ! l) \<in> set (gs ! l)" using ne that by (metis hd_in_set nth_mem)
    then have "okk (fst (hd (gs ! l)))" using s nth_mem [OF that(2)] by (auto simp: sorted_entries_def)
    then show ?thesis using comparator_contract.Compare_less_le_trans [OF C B(1) _ B(1) B(3) [OF _ that h] B(2) [OF that(2) h]] that by simp
  qed
  then show ?thesis using B(1) C by (auto simp: sorted_entries_def full_index_eq sorted_wrt_map sorted_wrt_iff_nth_less)
qed

text \<open>The handles tell the blocks apart.\<close>

lemma part_start_strict: "k < l \<Longrightarrow> l < length gs \<Longrightarrow> part_start (parts sn opts gs) k < part_start (parts sn opts gs) l"
  using start_Suc [of k "parts sn opts gs"] start_mono [of "Suc k" l "parts sn opts gs"] by (simp add: parts_def kBlockTrailerSize_def)

lemma bh_EncodeTo_inj: "bh_EncodeTo h [] = bh_EncodeTo h' [] \<Longrightarrow> h = h'"
  using bh_roundtrip [of new_BlockHandle h "[]"] bh_roundtrip [of new_BlockHandle h' "[]"] by simp

lemma handles_distinct:
  assumes n: "length (concat (parts sn opts gs)) < 2 ^ 64"
  shows "distinct (map (\<lambda>k. bh_EncodeTo (part_handle sn opts gs k) []) [0..<length gs])"
proof -
  have "part_start (parts sn opts gs) k < 2 ^ 64" if "k < length gs" for k
    using start_mono [of k "length gs" "parts sn opts gs"] start_all [of "parts sn opts gs" "length gs"] that n by simp
  then have "unat (bh_offset (part_handle sn opts gs k)) = part_start (parts sn opts gs) k" if "k < length gs" for k
    using that unat_of_nat_u64 by (simp add: part_handle_def)
  then have "part_handle sn opts gs k \<noteq> part_handle sn opts gs l" if "k < l" "l < length gs" for k l
    using part_start_strict [OF that, of sn opts] that by (metis less_trans nat_neq_iff)
  then have "inj_on (\<lambda>k. bh_EncodeTo (part_handle sn opts gs k) []) {0..<length gs}"
    by (intro linorder_inj_onI) (auto dest: bh_EncodeTo_inj)
  then show ?thesis by (simp add: distinct_map)
qed

definition block_entries :: "snappy \<Rightarrow> Options \<Rightarrow> (bytes \<times> bytes) list list \<Rightarrow> bytes \<Rightarrow> (bytes \<times> bytes) list" where
  "block_entries sn opts gs h = the (map_of (zip (map (\<lambda>k. bh_EncodeTo (part_handle sn opts gs k) []) [0..<length gs]) gs) h)"

lemma block_entries_nth:
  assumes "length (concat (parts sn opts gs)) < 2 ^ 64" "k < length gs"
  shows "block_entries sn opts gs (bh_EncodeTo (part_handle sn opts gs k) []) = gs ! k"
  using map_of_zip_nth [OF _ handles_distinct [OF assms(1)] assms(2)] assms(2) by (simp add: block_entries_def)

lemma index_nth: "k < length gs \<Longrightarrow> full_index sn opts gs ! k = (bound opts gs k, bh_EncodeTo (part_handle sn opts gs k) [])"
  "length (full_index sn opts gs) = length gs"
  by (simp_all add: full_index_eq)

section \<open>Properties\<close>


definition sample_options :: Options where
  "sample_options =
     \<lparr>opt_comparator = BytewiseComparator, opt_create_if_missing = False, opt_error_if_exists = False, opt_paranoid_checks = True,
      opt_write_buffer_size = 100, opt_max_open_files = 10, opt_block_size = 10, opt_restart_interval = 2, opt_max_file_size = 100,
      opt_compression = kNoCompression, opt_reuse_logs = False, opt_filter_policy = None\<rparr>"


end
