(* ===== verification/Tables.thy ===== *)
theory Tables
  imports TableBuilders TwoLevels Caches
begin

text \<open>
  \<open>table/table.cc\<close>: opening a table file, its filter, its iterator and its point lookups, with or without a block
  cache. A read that the code does out of bounds has no result.
\<close>

section \<open>Definitions\<close>

record Table =
  tr_options :: Options
  tr_file :: RandomAccessFile
  tr_cache_id :: u64
  tr_filter :: "FilterBlockReader option"
  tr_metaindex_handle :: BlockHandle
  tr_index_block :: Block

definition meta_options :: "Options \<Rightarrow> ReadOptions" where
  "meta_options options = new_ReadOptions\<lparr>verify_checksums := opt_paranoid_checks options\<rparr>"

definition ReadFilter :: "snappy \<Rightarrow> Table \<Rightarrow> bytes \<Rightarrow> Table option" where
  "ReadFilter sn t filter_handle_value =
     (let (s, filter_handle, v) = bh_DecodeFrom new_BlockHandle filter_handle_value
      in if \<not> ok s then Some t
         else do {
           (s, block) \<leftarrow> ReadBlock sn (tr_file t) (meta_options (tr_options t)) filter_handle;
           Some (if \<not> ok s then t else t\<lparr>tr_filter := Some (new_FilterBlockReader (bc_data block))\<rparr>) })"

definition ReadMeta :: "snappy \<Rightarrow> Table \<Rightarrow> Footer \<Rightarrow> Table option" where
  "ReadMeta sn t footer =
     (case opt_filter_policy (tr_options t) of
        None \<Rightarrow> Some t
      | Some policy \<Rightarrow> do {
          (s, contents) \<leftarrow> ReadBlock sn (tr_file t) (meta_options (tr_options t)) (metaindex_handle footer);
          if \<not> ok s then Some t
          else let iter = Block_NewIterator (new_Block (bc_data contents)) BytewiseComparator;
                   key = metaindex_key policy;
                   iter = Seek Block_Iterator iter key
               in if Valid Block_Iterator iter \<and> ikey Block_Iterator iter = key
                  then ReadFilter sn t (ivalue Block_Iterator iter) else Some t })"

text \<open>\<open>cache_id\<close> is what the block cache's \<open>NewId\<close> gave, or 0.\<close>

definition Table_Open :: "snappy \<Rightarrow> Options \<Rightarrow> RandomAccessFile \<Rightarrow> u64 \<Rightarrow> u64 \<Rightarrow> (Status \<times> Table option) option" where
  "Table_Open sn options file sz cache_id =
     (if unat sz < kEncodedLength then Some (Corruption (str ''file is too short to be an sstable'') [], None)
      else
        let (s, footer_input, in_buf) = rf_Read file (sz - of_nat kEncodedLength) kEncodedLength
        in if \<not> ok s then Some (s, None)
           else do {
             (s, footer, rest) \<leftarrow> Footer_DecodeFrom new_Footer footer_input;
             if \<not> ok s then Some (s, None)
             else do {
               (s, contents) \<leftarrow> ReadBlock sn file (meta_options options) (index_handle footer);
               if \<not> ok s then Some (s, None)
               else do {
                 t \<leftarrow> ReadMeta sn
                   \<lparr>tr_options = options, tr_file = file, tr_cache_id = cache_id, tr_filter = None,
                    tr_metaindex_handle = metaindex_handle footer, tr_index_block = new_Block (bc_data contents)\<rparr> footer;
                 Some (s, Some t) } } })"

subsection \<open>Reading a data block\<close>

text \<open>What the iterator over a block does when it is deleted.\<close>

datatype block_cleanup = NoCleanup | DeleteBlock | ReleaseBlock cache_handle

type_synonym block_cache = "(unit, Block) ShardedLRUCache option"

definition cache_key :: "Table \<Rightarrow> BlockHandle \<Rightarrow> bytes" where
  "cache_key t handle = EncodeFixed64 (tr_cache_id t) @ EncodeFixed64 (bh_offset handle)"

definition block_iterator :: "Table \<Rightarrow> Block \<Rightarrow> Status + BlockIter" where
  "block_iterator t block = Block_NewIterator block (opt_comparator (tr_options t))"

definition BlockReader ::
  "snappy \<Rightarrow> Table \<Rightarrow> block_cache \<Rightarrow> ReadOptions \<Rightarrow> bytes \<Rightarrow> ((Status + BlockIter) \<times> block_cleanup \<times> block_cache) option" where
  "BlockReader sn t block_cache options index_value =
     (let (s, handle, input) = bh_DecodeFrom new_BlockHandle index_value
      in if \<not> ok s then Some (Inl (NewErrorIterator s), NoCleanup, block_cache)
         else case block_cache of
           Some cache \<Rightarrow> do {
             let key = cache_key t handle;
             (cache_handle, cache) \<leftarrow> cache_Lookup cache key;
             case cache_handle of
               Some h \<Rightarrow> do {
                 block \<leftarrow> cache_Value cache h;
                 Some (block_iterator t block, ReleaseBlock h, Some cache) }
             | None \<Rightarrow> do {
                 (s, contents) \<leftarrow> ReadBlock sn (tr_file t) options handle;
                 if \<not> ok s then Some (Inl (NewErrorIterator s), NoCleanup, Some cache)
                 else do {
                   let block = new_Block (bc_data contents);
                   if bc_cachable contents \<and> fill_cache options then do {
                     (h, cache) \<leftarrow> cache_Insert cache key block (of_nat (bk_size block)) ();
                     Some (block_iterator t block, ReleaseBlock h, Some cache) }
                   else Some (block_iterator t block, DeleteBlock, Some cache) } } }
         | None \<Rightarrow> do {
             (s, contents) \<leftarrow> ReadBlock sn (tr_file t) options handle;
             Some (if \<not> ok s then (Inl (NewErrorIterator s), NoCleanup, None)
                   else (block_iterator t (new_Block (bc_data contents)), DeleteBlock, None)) })"

definition run_cleanup :: "block_cleanup \<Rightarrow> block_cache \<Rightarrow> block_cache option" where
  "run_cleanup cl block_cache =
     (case (cl, block_cache) of
        (ReleaseBlock h, Some cache) \<Rightarrow> map_option Some (cache_Release cache h)
      | _ \<Rightarrow> Some block_cache)"

subsection \<open>Iterators\<close>

text \<open>An iterator some of whose states are undefined.\<close>

definition Undef :: "'s Iterator \<Rightarrow> 's option Iterator" where
  "Undef it =
     \<lparr>Valid = (\<lambda>s. case s of None \<Rightarrow> False | Some s \<Rightarrow> Valid it s),
      SeekToFirst = map_option (SeekToFirst it), SeekToLast = map_option (SeekToLast it),
      Seek = (\<lambda>s k. map_option (\<lambda>s. Seek it s k) s), Next = map_option (Next it), Prev = map_option (Prev it),
      ikey = (\<lambda>s. ikey it (the s)), ivalue = (\<lambda>s. ivalue it (the s)), istatus = (\<lambda>s. istatus it (the s))\<rparr>"

text \<open>
  The table iterator reads the blocks without a cache; what a cache answers in its place is the same (below).
\<close>

definition table_levels :: "snappy \<Rightarrow> Table \<Rightarrow> ReadOptions \<Rightarrow> (Status + BlockIter, (Status + BlockIter) option) two_level" where
  "table_levels sn t options =
     \<lparr>index_ops = Block_Iterator, data_ops = Undef Block_Iterator,
      block_function = (\<lambda>h. map_option fst (BlockReader sn t None options h))\<rparr>"

definition Table_NewIterator :: "snappy \<Rightarrow> Table \<Rightarrow> ReadOptions \<Rightarrow> (Status + BlockIter, (Status + BlockIter) option) TwoLevelIterator option" where
  "Table_NewIterator sn t options = Some (new_TwoLevelIterator (table_levels sn t options) (block_iterator t (tr_index_block t)))"

subsection \<open>Lookups\<close>

text \<open>The call of \<open>handle_result\<close>, if any, the status and the cache.\<close>

definition InternalGet ::
  "snappy \<Rightarrow> Table \<Rightarrow> block_cache \<Rightarrow> ReadOptions \<Rightarrow> bytes \<Rightarrow> ((bytes \<times> bytes) option \<times> Status \<times> block_cache) option" where
  "InternalGet sn t block_cache options k = do {
     let iiter = Seek Block_Iterator (block_iterator t (tr_index_block t)) k;
     (saved, s, block_cache) \<leftarrow>
       (if Valid Block_Iterator iiter then do {
          let handle_value = ivalue Block_Iterator iiter;
          let (ds, handle, rest) = bh_DecodeFrom new_BlockHandle handle_value;
          may_match \<leftarrow> (case tr_filter t of
             Some flt \<Rightarrow> if ok ds then fr_KeyMayMatch (the (opt_filter_policy (tr_options t))) flt (bh_offset handle) k else Some True
           | None \<Rightarrow> Some True);
          if \<not> may_match then Some (None, Status_OK, block_cache)
          else do {
            (block_iter, cl, block_cache) \<leftarrow> BlockReader sn t block_cache options handle_value;
            let block_iter = Seek Block_Iterator block_iter k;
            let saved = (if Valid Block_Iterator block_iter then Some (ikey Block_Iterator block_iter, ivalue Block_Iterator block_iter) else None);
            let s = istatus Block_Iterator block_iter;
            block_cache \<leftarrow> run_cleanup cl block_cache;
            Some (saved, s, block_cache) } }
        else Some (None, Status_OK, block_cache));
     let s = (if ok s then istatus Block_Iterator iiter else s);
     Some (saved, s, block_cache) }"

definition ApproximateOffsetOf :: "Table \<Rightarrow> bytes \<Rightarrow> u64" where
  "ApproximateOffsetOf t key =
     (let index_iter = Seek Block_Iterator (block_iterator t (tr_index_block t)) key
      in if Valid Block_Iterator index_iter then
           let (s, handle, input) = bh_DecodeFrom new_BlockHandle (ivalue Block_Iterator index_iter)
           in if ok s then bh_offset handle else bh_offset (tr_metaindex_handle t)
         else bh_offset (tr_metaindex_handle t))"

section \<open>Reading the blocks of a table file\<close>

lemma ReadBlock_content:
  assumes "readable_file f bs" "bs = pre @ stored (content sn opts n es) @ post" "length bs < 2 ^ 64" "snappy_contract sn"
  shows "\<exists>contents. ReadBlock sn f options (handle_of pre (content sn opts n es)) = Some (Status_OK, contents) \<and>
    bc_data contents = fst (bb_Finish (build n es))"
proof -
  obtain c t where ct: "content sn opts n es = (c, t)" by (cases "content sn opts n es")
  then show ?thesis
    using ReadBlock_stored [of f bs pre c t post sn "opt_compression opts" "fst (bb_Finish (build n es))" options] assms
    by (simp add: handle_of_def content_def)
qed

lemma raw_fits:
  assumes "snappy_contract sn" "length (fst (content sn opts n es)) < 2 ^ 32"
  shows "length (fst (bb_Finish (build n es))) < 2 ^ 32"
  using assms snappy_contract.input_fits [OF assms(1)]
  by (auto simp: content_def compress_block_def split: CompressionType.splits option.splits if_splits)

text \<open>The iterator over a block read back is at the entries of the block.\<close>

lemma read_block_rep:
  assumes f: "readable_file f bs" "bs = pre @ stored (content sn opts n es) @ post" "length bs < 2 ^ 32" and sn: "snappy_contract sn"
    and n: "0 < n" "sorted_entries c okk es"
  shows "\<exists>contents. ReadBlock sn f options (handle_of pre (content sn opts n es)) = Some (Status_OK, contents) \<and>
    block_rep c okk (Block_NewIterator (new_Block (bc_data contents)) c) es (length es)"
proof -
  have "length bs < 2 ^ 64" using f(3) by simp
  moreover have "length (fst (content sn opts n es)) < 2 ^ 32" using f(2,3) by simp
  ultimately show ?thesis using ReadBlock_content [OF f(1,2) _ sn] built_rep [OF n raw_fits [OF sn]] by metis
qed

section \<open>Opening a table\<close>

text \<open>The table read back: its index holds the blocks, its filter is the filter block.\<close>

definition table_of :: "(bytes \<Rightarrow> bool) \<Rightarrow> snappy \<Rightarrow> Options \<Rightarrow> (bytes \<times> bytes) list list \<Rightarrow> bytes option \<Rightarrow> RandomAccessFile \<Rightarrow> Table \<Rightarrow> bool" where
  "table_of okk sn opts gs flt f t \<longleftrightarrow>
     tr_options t = opts \<and> tr_file t = f \<and> tr_filter t = map_option new_FilterBlockReader flt \<and>
     tr_metaindex_handle t = metaindex_handle (table_footer sn opts gs flt) \<and>
     block_rep (opt_comparator opts) okk (block_iterator t (tr_index_block t)) (full_index sn opts gs) (length gs)"

lemma bytewise_single: "sorted_entries BytewiseComparator (\<lambda>_. True) [e]"
  using bytewise.comparator_contract_axioms by (simp add: sorted_entries_def)

lemma ReadMeta_table:
  assumes bs: "readable_file f (table_file sn opts gs flt)" "length (table_file sn opts gs flt) < 2 ^ 32" and sn: "snappy_contract sn"
    and I: "0 < opt_restart_interval opts" and flt: "flt = None \<longleftrightarrow> opt_filter_policy opts = None"
    and t: "tr_options t = opts" "tr_file t = f" "tr_filter t = None"
  shows "ReadMeta sn t (table_footer sn opts gs flt) = Some (t\<lparr>tr_filter := map_option new_FilterBlockReader flt\<rparr>)"
proof (cases "opt_filter_policy opts")
  case None
  then show ?thesis using flt t by (cases t) (simp add: ReadMeta_def)
next
  case (Some p)
  then obtain b where b: "flt = Some b" using flt by auto
  let ?fh = "handle_of (concat (parts sn opts gs)) (b, kNoCompression)"
  have e: "meta_entries sn opts gs flt = [(metaindex_key p, bh_EncodeTo ?fh [])]" using Some b by (simp add: meta_entries_def)
  have "table_file sn opts gs flt = before_meta sn opts gs flt @ stored (content sn opts (opt_restart_interval opts) (meta_entries sn opts gs flt)) @
      stored (index_content sn opts gs) @ Footer_EncodeTo (table_footer sn opts gs flt) []"
    by (simp add: table_file_def before_footer_def before_index_def meta_content_def)
  from read_block_rep [OF bs(1) this bs(2) sn I, of BytewiseComparator "\<lambda>_. True" "meta_options opts"] bytewise_single e
  obtain m where m: "ReadBlock sn f (meta_options opts) (metaindex_handle (table_footer sn opts gs flt)) = Some (Status_OK, m)"
    "block_rep BytewiseComparator (\<lambda>_. True) (Block_NewIterator (new_Block (bc_data m)) BytewiseComparator) (meta_entries sn opts gs flt) 1"
    by (auto simp: table_footer_def meta_content_def)
  let ?it = "Seek Block_Iterator (Block_NewIterator (new_Block (bc_data m)) BytewiseComparator) (metaindex_key p)"
  have "lower_bound BytewiseComparator (meta_entries sn opts gs flt) (metaindex_key p) = 0"
    using bytewise.Compare_refl [of "metaindex_key p"] e by (simp add: lower_bound_def)
  then have it: "block_rep BytewiseComparator (\<lambda>_. True) ?it (meta_entries sn opts gs flt) 0"
    using block_iter.rep_Seek [OF m(2) TrueI] by metis
  have v: "Valid Block_Iterator ?it" "ikey Block_Iterator ?it = metaindex_key p" "ivalue Block_Iterator ?it = bh_EncodeTo ?fh []"
    using block_iter.rep_Valid [OF it] block_iter.rep_key [OF it] block_iter.rep_value [OF it] e by simp_all
  have l: "length (table_file sn opts gs flt) < 2 ^ 64" using bs(2) by simp
  have "table_file sn opts gs flt = concat (parts sn opts gs) @ stored (b, kNoCompression) @
      stored (meta_content sn opts gs flt) @ stored (index_content sn opts gs) @ Footer_EncodeTo (table_footer sn opts gs flt) []"
    by (simp add: table_file_def before_footer_def before_index_def before_meta_def b filter_part_def)
  from ReadBlock_stored [OF bs(1) this l sn, of kNoCompression b "meta_options opts"]
  obtain w where w: "ReadBlock sn f (meta_options opts) ?fh = Some (Status_OK, w)" "bc_data w = b"
    by (auto simp: compress_block_def handle_of_def)
  have "ReadFilter sn t (bh_EncodeTo ?fh []) = Some (t\<lparr>tr_filter := Some (new_FilterBlockReader b)\<rparr>)"
    using w t bh_roundtrip [of new_BlockHandle ?fh "[]"] by (simp add: ReadFilter_def)
  then show ?thesis using Some m(1) v t b by (simp add: ReadMeta_def Let_def)
qed

lemma Table_Open_table:
  assumes bs: "readable_file f (table_file sn opts gs flt)" "length (table_file sn opts gs flt) < 2 ^ 32" and sn: "snappy_contract sn"
    and I: "0 < opt_restart_interval opts" and flt: "flt = None \<longleftrightarrow> opt_filter_policy opts = None"
    and s: "sorted_entries (opt_comparator opts) okk (concat gs)" "[] \<notin> set gs"
  shows "\<exists>t. Table_Open sn opts f (of_nat (length (table_file sn opts gs flt))) cache_id = Some (Status_OK, Some t) \<and>
    table_of okk sn opts gs flt f t \<and> tr_cache_id t = cache_id"
proof -
  let ?B = "table_file sn opts gs flt" and ?foot = "table_footer sn opts gs flt"
  have sz: "unat (of_nat (length ?B) :: u64) = length ?B" using bs(2) by (intro unat_of_nat_u64) simp
  have L: "length ?B = length (before_footer sn opts gs flt) + kEncodedLength" by (simp add: table_file_def length_Footer_EncodeTo)
  then have "(of_nat (length ?B) :: u64) - of_nat kEncodedLength = of_nat (length (before_footer sn opts gs flt))" by simp
  moreover have "unat (of_nat (length (before_footer sn opts gs flt)) :: u64) = length (before_footer sn opts gs flt)"
    using bs(2) L by (intro unat_of_nat_u64) simp
  ultimately obtain in_buf where r: "rf_Read f (of_nat (length ?B) - of_nat kEncodedLength) kEncodedLength =
      (Status_OK, take kEncodedLength (drop (length (before_footer sn opts gs flt)) ?B), in_buf)"
    using readable_file.reads [OF bs(1)] by metis
  have "take kEncodedLength (drop (length (before_footer sn opts gs flt)) ?B) = Footer_EncodeTo ?foot []"
    by (simp add: table_file_def length_Footer_EncodeTo)
  then have d: "Footer_DecodeFrom new_Footer (take kEncodedLength (drop (length (before_footer sn opts gs flt)) ?B)) = Some (Status_OK, ?foot, [])"
    using Footer_roundtrip [of new_Footer ?foot "[]"] by simp
  have "?B = before_index sn opts gs flt @ stored (content sn opts 1 (full_index sn opts gs)) @ Footer_EncodeTo ?foot []"
    by (simp add: table_file_def before_footer_def index_content_def)
  from read_block_rep [OF bs(1) this bs(2) sn zero_less_one full_index_sorted [OF s], of "meta_options opts"]
  obtain x where x: "ReadBlock sn f (meta_options opts) (index_handle ?foot) = Some (Status_OK, x)"
    "block_rep (opt_comparator opts) okk (Block_NewIterator (new_Block (bc_data x)) (opt_comparator opts)) (full_index sn opts gs) (length gs)"
    by (auto simp: table_footer_def index_content_def index_nth(2))
  let ?t = "\<lparr>tr_options = opts, tr_file = f, tr_cache_id = cache_id, tr_filter = None,
    tr_metaindex_handle = metaindex_handle ?foot, tr_index_block = new_Block (bc_data x)\<rparr>"
  have "Table_Open sn opts f (of_nat (length ?B)) cache_id = Some (Status_OK, Some (?t\<lparr>tr_filter := map_option new_FilterBlockReader flt\<rparr>))"
    using ReadMeta_table [OF bs sn I flt, of ?t] r d x(1) sz L by (simp add: Table_Open_def)
  then show ?thesis using x(2) by (simp add: table_of_def block_iterator_def)
qed

section \<open>The iterator of a table\<close>

definition und_rep :: "('s \<Rightarrow> (bytes \<times> bytes) list \<Rightarrow> nat \<Rightarrow> bool) \<Rightarrow> 's option \<Rightarrow> (bytes \<times> bytes) list \<Rightarrow> nat \<Rightarrow> bool" where
  "und_rep rep s es i \<longleftrightarrow> (\<exists>x. s = Some x \<and> rep x es i)"

lemma Undef_list_iterator:
  assumes "list_iterator it c okk rep"
  shows "list_iterator (Undef it) c okk (und_rep rep)"
proof -
  have "rep s es 0 \<Longrightarrow> 0 < length es \<Longrightarrow> rep (Prev it s) es (length es)"
    "0 < i \<Longrightarrow> rep s es i \<Longrightarrow> i < length es \<Longrightarrow> rep (Prev it s) es (i - 1)" for s es i
    using list_iterator.rep_Prev [OF assms, of s es 0] list_iterator.rep_Prev [OF assms, of s es i] by simp_all
  then show ?thesis
  using list_iterator.rep_le [OF assms] list_iterator.rep_Valid [OF assms] list_iterator.rep_key [OF assms] list_iterator.rep_value [OF assms]
    list_iterator.rep_status [OF assms] list_iterator.rep_SeekToFirst [OF assms] list_iterator.rep_SeekToLast [OF assms]
    list_iterator.rep_Seek [OF assms] list_iterator.rep_Next [OF assms]
  by unfold_locales (auto simp: und_rep_def Undef_def)
qed

lemma table_levels_simps [simp]:
  "index_ops (table_levels sn t options) = Block_Iterator" "data_ops (table_levels sn t options) = Undef Block_Iterator"
  "block_function (table_levels sn t options) h = map_option fst (BlockReader sn t None options h)"
  by (simp_all add: table_levels_def)

interpretation table_iter: two_levels "table_levels sn t options" c kok "block_rep c kok" "und_rep (block_rep c kok)" for sn t options c kok
  using block_iter.list_iterator_axioms [of c kok] Undef_list_iterator [OF block_iter.list_iterator_axioms [of c kok]]
  by (simp add: two_levels_def)

text \<open>A data block: where it is in the file and what is read of it.\<close>

lemma read_part:
  assumes f: "readable_file f bs" "bs = concat (parts sn opts gs) @ post" "length bs < 2 ^ 32" and sn: "snappy_contract sn"
    and I: "0 < opt_restart_interval opts" "sorted_entries c okk (gs ! k)" and k: "k < length gs"
  shows "\<exists>contents. ReadBlock sn f options (part_handle sn opts gs k) = Some (Status_OK, contents) \<and>
    block_rep c okk (Block_NewIterator (new_Block (bc_data contents)) c) (gs ! k) (length (gs ! k))"
proof -
  let ?ct = "content sn opts (opt_restart_interval opts) (gs ! k)"
  have "parts sn opts gs = take k (parts sn opts gs) @ stored ?ct # drop (Suc k) (parts sn opts gs)"
    using id_take_nth_drop [of k "parts sn opts gs"] k by (simp add: parts_def)
  then have "bs = concat (take k (parts sn opts gs)) @ stored ?ct @ concat (drop (Suc k) (parts sn opts gs)) @ post"
    unfolding f(2) by (metis append_assoc concat.simps(2) concat_append)
  moreover have "handle_of (concat (take k (parts sn opts gs))) ?ct = part_handle sn opts gs k" by (simp add: handle_of_def part_handle_def part_start_def)
  ultimately show ?thesis using read_block_rep [OF f(1) _ f(3) sn I, of _ opts _ options] by metis
qed

lemma BlockReader_part:
  assumes "table_of okk sn opts gs flt f t" "readable_file f (table_file sn opts gs flt)" "length (table_file sn opts gs flt) < 2 ^ 32"
    "snappy_contract sn" "0 < opt_restart_interval opts" "sorted_entries (opt_comparator opts) okk (concat gs)" "k < length gs"
  shows "\<exists>it. BlockReader sn t None options (bh_EncodeTo (part_handle sn opts gs k) []) = Some (it, DeleteBlock, None) \<and>
    block_rep (opt_comparator opts) okk it (gs ! k) (length (gs ! k))"
proof -
  have "table_file sn opts gs flt = concat (parts sn opts gs) @ filter_part flt @ stored (meta_content sn opts gs flt) @
      stored (index_content sn opts gs) @ Footer_EncodeTo (table_footer sn opts gs flt) []"
    by (simp add: table_file_def before_footer_def before_index_def before_meta_def)
  from read_part [OF assms(2) this assms(3-5) sorted_entries_part [OF assms(6) nth_mem [OF assms(7)]] assms(7), of options]
  show ?thesis using assms(1) bh_roundtrip [of new_BlockHandle "part_handle sn opts gs k" "[]"]
    by (auto simp: BlockReader_def table_of_def block_iterator_def)
qed

lemma table_index_of:
  assumes s: "sorted_entries (opt_comparator opts) okk (concat gs)" "[] \<notin> set gs" and n: "length (concat (parts sn opts gs)) < 2 ^ 64"
  shows "index_of (opt_comparator opts) okk (block_entries sn opts gs) (full_index sn opts gs) (concat gs)"
proof -
  let ?c = "opt_comparator opts"
  note B = bound_laws [OF s] and E = block_entries_nth [OF n]
  have C: "comparator_contract ?c okk" using s(1) by (simp add: sorted_entries_def)
  have m: "map (\<lambda>e. block_entries sn opts gs (snd e)) (full_index sn opts gs) = gs"
    by (rule nth_equalityI) (simp_all add: index_nth E)
  have K: "okk (fst e)" if "k < length gs" "e \<in> set (gs ! k)" for k e
    using s(1) that nth_mem by (auto simp: sorted_entries_def)
  have "\<not> Compare ?c (bound opts gs k) (fst e) < 0" if "k < length gs" "e \<in> set (gs ! k)" for k e
    using comparator_contract.Compare_not_less [OF C B(1) K] B(2) that by blast
  then show ?thesis using full_index_sorted [OF s] s(1) m B(3) by (auto simp: index_of_def index_nth E)
qed

lemma table_iter_opens:
  assumes "table_of okk sn opts gs flt f t" "readable_file f (table_file sn opts gs flt)" "length (table_file sn opts gs flt) < 2 ^ 32"
    "snappy_contract sn" "0 < opt_restart_interval opts" "sorted_entries (opt_comparator opts) okk (concat gs)"
    "length (concat (parts sn opts gs)) < 2 ^ 64"
  shows "table_iter.opens sn t options (opt_comparator opts) okk (block_entries sn opts gs) (full_index sn opts gs)"
proof -
  have "\<exists>q. und_rep (block_rep (opt_comparator opts) okk) (map_option fst (BlockReader sn t None options (bh_EncodeTo (part_handle sn opts gs k) [])))
      (block_entries sn opts gs (bh_EncodeTo (part_handle sn opts gs k) [])) q" if "k < length gs" for k
    using BlockReader_part [OF assms(1-6) that, of options] block_entries_nth [OF assms(7) that] by (auto simp: und_rep_def)
  then show ?thesis by (auto simp: table_iter.opens_def full_index_eq)
qed

section \<open>Point lookups\<close>

lemma filter_reader_defined: "fr_KeyMayMatch p (new_FilterBlockReader (fb_Finish q b)) off key \<noteq> None"
proof -
  have "fr_base_lg (new_FilterBlockReader (xs @ [11])) < 64" for xs :: bytes by (simp add: new_FilterBlockReader_def Let_def)
  then show ?thesis by (simp add: fr_KeyMayMatch_def fb_Finish_def Let_def kFilterBaseLg_def not_le)
qed

text \<open>The first key not below the target is in the block that the index gives, if no separator comes between.\<close>

lemma index_block_of_target:
  assumes x: "index_of c okk (block_entries sn opts gs) (full_index sn opts gs) (concat gs)" and c: "c = opt_comparator opts" and ne: "[] \<notin> set gs"
    and n: "length (concat (parts sn opts gs)) < 2 ^ 64" and t: "okk target" and i: "lower_bound c (concat gs) target < length (concat gs)"
    and sep: "\<And>a. okk a \<Longrightarrow> Compare c a target < 0 \<Longrightarrow>
      Compare c (FindShortestSeparator c a (fst (concat gs ! lower_bound c (concat gs) target))) target < 0"
  shows "lower_bound c (gs ! lower_bound c (full_index sn opts gs) target) target < length (gs ! lower_bound c (full_index sn opts gs) target) \<and>
    lower_bound c (full_index sn opts gs) target < length gs"
proof -
  let ?k = "lower_bound c (full_index sn opts gs) target" and ?i = "lower_bound c (concat gs) target"
  let ?q = "lower_bound c (gs ! ?k) target"
  note X = index_of_entries [OF x] and E = block_entries_nth [OF n]
  have m: "map (\<lambda>e. block_entries sn opts gs (snd e)) (full_index sn opts gs) = gs" by (rule nth_equalityI) (simp_all add: index_nth E)
  have I: "?i = (if ?k < length gs then part_start gs ?k + ?q else length (concat gs))"
    using two_level_lower_bound [OF x t] m E index_nth by (simp add: Let_def)
  then have k: "?k < length gs" using i by (simp split: if_splits)
  have "?q < length (gs ! ?k)"
  proof (rule ccontr)
    assume q: "\<not> ?q < length (gs ! ?k)"
    have s: "sorted_entries c okk (concat gs)" using x unfolding index_of_def by blast
    have eq: "?q = length (gs ! ?k)" using q lower_bound_le [of c "gs ! ?k" target] by simp
    then have "?i = part_start gs (Suc ?k)" using I k start_Suc [of ?k gs] by simp
    moreover from this i have S: "Suc ?k < length gs" using start_all [of gs "Suc ?k"] by (metis less_irrefl not_le)
    ultimately have e: "concat gs ! ?i = gs ! Suc ?k ! 0" using nth_start [OF S, of 0] ne nth_mem [OF S] by (metis add_0_right length_greater_0_conv)
    have N: "gs ! ?k \<noteq> []" "gs ! Suc ?k \<noteq> []" using ne k S nth_mem by metis+
    let ?a = "fst (last (gs ! ?k))"
    have "\<forall>e\<in>set (gs ! ?k). Compare c (fst e) target < 0"
      using eq lower_bound_less [of _ c "gs ! ?k" target] by (metis in_set_conv_nth)
    then have "Compare c ?a target < 0" "okk ?a" using N(1) s nth_mem [OF k] by (auto simp: sorted_entries_def)
    from sep [OF this(2,1)] have "Compare c (bound opts gs ?k) target < 0" using S N e c by (simp add: bound_def separator_def hd_conv_nth)
    then show False using lower_bound_ge [of c "full_index sn opts gs" target] k index_nth by simp
  qed
  with k show ?thesis by simp
qed

lemma filter_matches:
  assumes flt: "filter_of_table okk sn opts gs flt" and n: "length (table_file sn opts gs flt) < 2 ^ 32" and k: "k < length gs" "e \<in> set (gs ! k)"
    and p: "opt_filter_policy opts = Some p" "flt = Some b" and eq: "\<And>x. KeyMayMatch p target x = KeyMayMatch p (fst e) x"
  shows "fr_KeyMayMatch p (new_FilterBlockReader b) (bh_offset (part_handle sn opts gs k)) target = Some True"
proof -
  let ?off = "bh_offset (part_handle sn opts gs k)"
  obtain B i hist where B: "b = fb_Finish p B" "fb_inv p okk B i hist" "filter_keys sn opts gs \<subseteq> hist"
    using flt p by (auto simp: filter_of_table_def)
  have l: "length (concat (parts sn opts gs)) < 2 ^ 32" "length b < 2 ^ 32"
    using n p(2) by (simp_all add: table_file_def before_footer_def before_index_def before_meta_def filter_part_def)
  then have "part_start (parts sn opts gs) k < 2 ^ 64"
    using start_mono [of k "length gs" "parts sn opts gs"] start_all [of "parts sn opts gs" "length gs"] k(1) by simp
  then have "unat ?off = part_start (parts sn opts gs) k" using unat_of_nat_u64 by (simp add: part_handle_def)
  then have "(unat ?off div kFilterBase, fst e) \<in> hist" using B(3) k by (auto simp: filter_keys_def)
  from fb_inv_match [OF B(2) this] l(2) have "fr_KeyMayMatch p (new_FilterBlockReader b) ?off (fst e) = Some True" by (simp add: B(1))
  moreover have "fr_KeyMayMatch p (new_FilterBlockReader b) ?off target = fr_KeyMayMatch p (new_FilterBlockReader b) ?off (fst e)"
    unfolding fr_KeyMayMatch_def eq ..
  ultimately show ?thesis by simp
qed

text \<open>A lookup in a table of the blocks \<open>gs\<close>.\<close>

lemma InternalGet_table:
  assumes T: "table_of okk sn opts gs flt f t" and f: "readable_file f (table_file sn opts gs flt)" "length (table_file sn opts gs flt) < 2 ^ 32"
    and sn: "snappy_contract sn" and I: "0 < opt_restart_interval opts" and flt: "filter_of_table okk sn opts gs flt"
    and s: "sorted_entries (opt_comparator opts) okk (concat gs)" "[] \<notin> set gs" and t: "okk target"
    and i: "i = lower_bound (opt_comparator opts) (concat gs) target"
  shows "\<exists>saved. InternalGet sn t None options target = Some (saved, Status_OK, None) \<and>
    (saved = None \<or> i < length (concat gs) \<and> saved = Some (concat gs ! i)) \<and>
    (i < length (concat gs) \<and>
     (\<forall>a. okk a \<longrightarrow> Compare (opt_comparator opts) a target < 0 \<longrightarrow>
       Compare (opt_comparator opts) (FindShortestSeparator (opt_comparator opts) a (fst (concat gs ! i))) target < 0) \<and>
     (\<forall>p x. opt_filter_policy opts = Some p \<longrightarrow> KeyMayMatch p target x = KeyMayMatch p (fst (concat gs ! i)) x) \<longrightarrow>
     saved = Some (concat gs ! i))"
proof -
  let ?c = "opt_comparator opts" and ?idx = "full_index sn opts gs"
  let ?k = "lower_bound ?c ?idx target" let ?q = "lower_bound ?c (gs ! ?k) target"
  have n: "length (concat (parts sn opts gs)) < 2 ^ 64" using f(2) by (simp add: table_file_def before_footer_def before_index_def before_meta_def)
  note x = table_index_of [OF s n] and E = block_entries_nth [OF n]
  have m: "map (\<lambda>e. block_entries sn opts gs (snd e)) ?idx = gs" by (rule nth_equalityI) (simp_all add: index_nth E)
  have L: "i = (if ?k < length gs then part_start gs ?k + ?q else length (concat gs))"
    using two_level_lower_bound [OF x t] m E index_nth i by (simp add: Let_def)
  let ?ii = "Seek Block_Iterator (block_iterator t (tr_index_block t)) target"
  have "block_rep ?c okk (block_iterator t (tr_index_block t)) ?idx (length gs)" using T by (simp add: table_of_def)
  then have ii: "block_rep ?c okk ?ii ?idx ?k" using t by (rule block_iter.rep_Seek)
  note V = block_iter.rep_Valid [OF ii] block_iter.rep_value [OF ii] block_iter.rep_status [OF ii]
  show ?thesis
  proof (cases "?k < length gs")
    case False
    then show ?thesis using V L by (simp add: InternalGet_def index_nth)
  next
    case k: True
    let ?h = "part_handle sn opts gs ?k"
    obtain it where it: "BlockReader sn t None options (bh_EncodeTo ?h []) = Some (it, DeleteBlock, None)"
      "block_rep ?c okk it (gs ! ?k) (length (gs ! ?k))" using BlockReader_part [OF T f sn I s(1) k] by blast
    have si: "block_rep ?c okk (Seek Block_Iterator it target) (gs ! ?k) ?q" using it(2) t by (rule block_iter.rep_Seek)
    note W = block_iter.rep_Valid [OF si] block_iter.rep_key [OF si] block_iter.rep_value [OF si] block_iter.rep_status [OF si]
    have e: "gs ! ?k ! ?q = concat gs ! i" "i < length (concat gs)" if "?q < length (gs ! ?k)"
      using that k L nth_start [OF k that] start_less [OF k that] by simp_all
    have dec: "bh_DecodeFrom new_BlockHandle (bh_EncodeTo ?h []) = (Status_OK, ?h, [])" using bh_roundtrip [of new_BlockHandle ?h "[]"] by simp
    define mm where "mm = (case tr_filter t of Some flt \<Rightarrow> fr_KeyMayMatch (the (opt_filter_policy (tr_options t))) flt (bh_offset ?h) target | None \<Rightarrow> Some True)"
    have mm: "mm \<noteq> None"
      using T flt filter_reader_defined by (auto simp: mm_def table_of_def filter_of_table_def split: option.splits)
    have match: "mm = Some True" if p: "\<forall>p x. opt_filter_policy opts = Some p \<longrightarrow> KeyMayMatch p target x = KeyMayMatch p (fst (concat gs ! i)) x" and q: "?q < length (gs ! ?k)"
    proof (cases flt)
      case (Some b)
      then obtain p where pp: "opt_filter_policy opts = Some p" using flt by (auto simp: filter_of_table_def split: option.splits)
      have "gs ! ?k ! ?q \<in> set (gs ! ?k)" using q by simp
      from filter_matches [OF flt f(2) k this pp Some, of target] show ?thesis
        using p pp T Some e(1) [OF q] by (simp add: mm_def table_of_def)
    qed (use T in \<open>simp add: mm_def table_of_def\<close>)
    define saved where "saved = (if ?q < length (gs ! ?k) then Some (concat gs ! i) else None)"
    have G: "InternalGet sn t None options target = (if mm = Some True then Some (saved, Status_OK, None) else Some (None, Status_OK, None))"
    proof -
      have v: "Valid Block_Iterator ?ii" "ivalue Block_Iterator ?ii = bh_EncodeTo ?h []" "istatus Block_Iterator ?ii = Status_OK"
        using V k by (simp_all add: index_nth)
      have w: "(if Valid Block_Iterator (Seek Block_Iterator it target)
          then Some (ikey Block_Iterator (Seek Block_Iterator it target), ivalue Block_Iterator (Seek Block_Iterator it target)) else None) = saved"
        using W e(1) by (simp add: saved_def)
      obtain m where m: "mm = Some m" using mm by blast
      then show ?thesis using v it(1) W(4) unfolding InternalGet_def Let_def w
        by (cases "tr_filter t") (auto simp: dec mm_def run_cleanup_def w)
    qed
    have "saved = Some (concat gs ! i) \<and> mm = Some True" if
      "i < length (concat gs)" "\<forall>a. okk a \<longrightarrow> Compare ?c a target < 0 \<longrightarrow> Compare ?c (FindShortestSeparator ?c a (fst (concat gs ! i))) target < 0"
      "\<forall>p x. opt_filter_policy opts = Some p \<longrightarrow> KeyMayMatch p target x = KeyMayMatch p (fst (concat gs ! i)) x"
    proof -
      have "?q < length (gs ! ?k)" using index_block_of_target [OF x refl s(2) n t] that(1,2) unfolding i by blast
      then show ?thesis using match that(3) by (simp add: saved_def)
    qed
    then show ?thesis unfolding G using e(2) by (auto simp: saved_def)
  qed
qed

section \<open>Built tables\<close>

definition build_table :: "snappy \<Rightarrow> Options \<Rightarrow> (bytes \<times> bytes) list \<Rightarrow> Status \<times> TableBuilder" where
  "build_table sn opts es = tb_Finish sn (add_all sn (new_TableBuilder opts \<lparr>wf_data = [], wf_script = []\<rparr>) es)"

definition table_bytes :: "snappy \<Rightarrow> Options \<Rightarrow> (bytes \<times> bytes) list \<Rightarrow> bytes" where
  "table_bytes sn opts es = wf_data (tb_file (snd (build_table sn opts es)))"

lemma built_table:
  assumes s: "sorted_entries (opt_comparator opts) okk es" and p: "policy_ok opts okk" and n: "length (table_bytes sn opts es) < 2 ^ 32"
  shows "\<exists>gs flt. concat gs = es \<and> [] \<notin> set gs \<and> table_bytes sn opts es = table_file sn opts gs flt \<and> filter_of_table okk sn opts gs flt \<and>
    fst (build_table sn opts es) = Status_OK \<and> tb_FileSize (snd (build_table sn opts es)) = of_nat (length (table_bytes sn opts es))"
proof -
  let ?r = "add_all sn (new_TableBuilder opts \<lparr>wf_data = [], wf_script = []\<rparr>) es"
  have n': "length (wf_data (tb_file (snd (tb_Finish sn ?r)))) < 2 ^ 64" using n by (simp add: table_bytes_def build_table_def)
  have "length (wf_data (tb_file ?r)) < 2 ^ 64"
    using n' prefix_length_le [OF prefix_order.trans [OF Flush_prefix [of ?r sn] tb_Finish_prefix]] by simp
  then obtain fl cur where i: "tb_inv okk sn ?r fl cur" "concat fl @ cur = es" "tb_options ?r = opts"
    using tb_inv_add_all [OF p, of "\<lparr>wf_data = [], wf_script = []\<rparr>" es sn] s by (auto simp: sorted_entries_def)
  from tb_Finish_file [OF i(1) n'] obtain flt where "fst (tb_Finish sn ?r) = Status_OK"
    "has (snd (tb_Finish sn ?r)) (table_file sn opts (blocks_of fl cur) flt)" "filter_of_table okk sn opts (blocks_of fl cur) flt" using i(3) by auto
  moreover have "[] \<notin> set (blocks_of fl cur)" "concat (blocks_of fl cur) = es" using i(1,2) by (auto simp: tb_inv_def blocks_of_def)
  ultimately show ?thesis unfolding table_bytes_def build_table_def has_def tb_FileSize_def by (intro exI [of _ "blocks_of fl cur"] exI [of _ flt]) simp
qed

lemma opened_table:
  assumes "sorted_entries (opt_comparator opts) okk es" "policy_ok opts okk" "0 < opt_restart_interval opts" "snappy_contract sn"
    "length (table_bytes sn opts es) < 2 ^ 32" "readable_file f (table_bytes sn opts es)"
  obtains t gs flt where "Table_Open sn opts f (of_nat (length (table_bytes sn opts es))) cache_id = Some (Status_OK, Some t)"
    "concat gs = es" "[] \<notin> set gs" "table_bytes sn opts es = table_file sn opts gs flt" "filter_of_table okk sn opts gs flt"
    "table_of okk sn opts gs flt f t"
proof -
  obtain gs flt where g: "concat gs = es" "[] \<notin> set gs" "table_bytes sn opts es = table_file sn opts gs flt" "filter_of_table okk sn opts gs flt"
    using built_table [OF assms(1,2,5)] by blast
  have "flt = None \<longleftrightarrow> opt_filter_policy opts = None" using g(4) by (auto simp: filter_of_table_def split: option.splits)
  from Table_Open_table [OF assms(6) [unfolded g(3)] assms(5) [unfolded g(3)] assms(4,3) this, of okk cache_id] assms(1) g show ?thesis
    using that by auto
qed

section \<open>The block cache\<close>

lemma history_held_entry:
  assumes "history cap c held ins n" "n < 2 ^ 31" "0 < held h"
  shows "\<exists>e. cache_handle_at c h = Some e \<and> entry e \<in># ins"
proof -
  have inv: "sinv c held n" and t: "all_live c + all_deleted c = ins" using history_inv [OF assms(1)] assms(2) by simp_all
  obtain e where e: "cache_handle_at c h = Some e" using held_handle [OF inv assms(3)] by blast
  then have "shards c ! fst h \<in> set (shards c)" "entry e \<in># live (heap (shards c ! fst h))"
    by (auto simp: cache_handle_at_def live_entry split: if_splits)
  then have "entry e \<in># all_live c" by (auto simp: all_live_def in_sum_list_mset)
  then show ?thesis using e t by auto
qed

text \<open>A hit is for an entry that was inserted under the key.\<close>

lemma history_hit:
  assumes H: "history cap c held ins n" and n: "Suc n < 2 ^ 31" and L: "cache_Lookup c key = Some (Some h, c')"
  shows "\<exists>v d. cache_Value c' h = Some v \<and> (d, key, v) \<in># ins"
proof -
  let ?s = "Shard (HashSlice key)" let ?x = "shards c ! ?s"
  have inv: "sinv c held n" using history_inv [OF H] n by simp
  have I: "shard_inv ?s ?x (\<lambda>a. held (?s, a)) n" by (rule sinv_shard [OF inv])
  then have x: "cinv ?x (\<lambda>a. held (?s, a)) None" "\<And>a. held (?s, a) < 2 ^ 32 - 2"
    using n le_less_trans [of "held (?s, _)" n "2 ^ 32 - 2"] by (auto simp: shard_inv_def)
  obtain r x' where r: "lru_Lookup ?x key (HashSlice key) = Some (r, x')" "found (heap ?x) (table ?x) key (HashSlice key) r" "evolves ?x x'"
    using Lookup_inv [OF x] by blast
  have hc: "map_option (Pair ?s) r = Some h" "c' = set_shard c ?s x'" using L r(1) by (auto simp: cache_Lookup_def Let_def)
  have l: "?s < length (shards c)" using Shard_less sinv_length [OF inv] by simp
  obtain a where a: "r = Some a" "h = (?s, a)" using hc(1) by auto
  obtain e where e: "cache_handle_at c' h = Some e" "entry e \<in># ins"
    using history_held_entry [OF history.hit [OF H L], of h] n by auto
  have "deref (heap x') a = Some e" using e(1) a(2) hc(2) l by (simp add: cache_handle_at_def set_shard_def)
  then obtain e0 where "deref (heap ?x) a = Some e0" "contents e = contents e0" using r(3) by (auto simp: evolves_def)
  moreover have "matches (heap ?x) key (HashSlice key) a" using r(2) a(1) unfolding found_def by blast
  ultimately have "h_key e = key" by (auto simp: matches_def contents_def entry_def)
  then show ?thesis using e by (intro exI [of _ "h_value e"] exI [of _ "h_deleter e"]) (simp add: cache_Value_def entry_def)
qed

text \<open>
  A cache agrees with the file when every entry under the key of a handle in \<open>H\<close> is the block that the file holds there.
\<close>

definition cache_agrees :: "snappy \<Rightarrow> Table \<Rightarrow> ReadOptions \<Rightarrow> BlockHandle set \<Rightarrow> (unit \<times> bytes \<times> Block) multiset \<Rightarrow> bool" where
  "cache_agrees sn t options H ins \<longleftrightarrow>
     (\<forall>handle\<in>H. \<forall>b. ((), cache_key t handle, b) \<in># ins \<longrightarrow>
       (\<exists>contents. ReadBlock sn (tr_file t) options handle = Some (Status_OK, contents) \<and> b = new_Block (bc_data contents)))"

lemma cache_key_inj: "cache_key t h = cache_key t h' \<Longrightarrow> bh_offset h = bh_offset h'"
  using DecodeFixed64_EncodeFixed64 [of "bh_offset h" "[]"] DecodeFixed64_EncodeFixed64 [of "bh_offset h'" "[]"]
  by (simp add: cache_key_def)

text \<open>What the cache path does: the same iterator, and after the cleanup the cache is one that the calls can reach again.\<close>

definition cached_read :: "u64 \<Rightarrow> snappy \<Rightarrow> Table \<Rightarrow> ReadOptions \<Rightarrow> BlockHandle set \<Rightarrow> (cache_handle \<Rightarrow> nat) \<Rightarrow> nat \<Rightarrow>
    block_cleanup \<Rightarrow> (unit, Block) ShardedLRUCache \<Rightarrow> bool" where
  "cached_read cap sn t options H held n cl c \<longleftrightarrow>
     (\<exists>c' ins' n'. run_cleanup cl (Some c) = Some (Some c') \<and> history cap c' held ins' n' \<and> n' \<le> n + 3 \<and> cache_agrees sn t options H ins')"

lemma cached_readI:
  "run_cleanup cl (Some c) = Some (Some c') \<Longrightarrow> history cap c' held ins m \<Longrightarrow> m \<le> n + 3 \<Longrightarrow> cache_agrees sn t options HS ins \<Longrightarrow>
   cached_read cap sn t options HS held n cl c"
  unfolding cached_read_def by blast

lemma released:
  assumes H: "history cap c (held(h := held h + 1)) ins m" and m: "m < 2 ^ 31" "Suc m \<le> n + 3" and A: "cache_agrees sn t options HS ins"
  shows "cached_read cap sn t options HS held n (ReleaseBlock h) c"
proof -
  have inv: "sinv c (held(h := held h + 1)) m" using history_inv [OF H] m by simp
  obtain c' where c': "cache_Release c h = Some c'" using sharded_Release [OF inv, of h] by auto
  have "(held(h := held h + 1))(h := (held(h := held h + 1)) h - 1) = held" by auto
  then have "history cap c' held ins (Suc m)" using history.release [OF H _ c'] by simp
  then show ?thesis using c' A m(2) by (intro cached_readI [of _ c c' cap held ins "Suc m"]) (simp_all add: run_cleanup_def)
qed

lemma BlockReader_cached:
  assumes H: "history cap c held ins n" and n: "n + 3 < 2 ^ 31" and A: "cache_agrees sn t options HS ins" and inj: "inj_on bh_offset HS"
    and dec: "bh_DecodeFrom new_BlockHandle iv = (s, handle, rest)" "ok s \<Longrightarrow> handle \<in> HS \<and> ReadBlock sn (tr_file t) options handle \<noteq> None"
  shows "\<exists>it cl c' cl'. BlockReader sn t (Some c) options iv = Some (it, cl, Some c') \<and> BlockReader sn t None options iv = Some (it, cl', None) \<and>
    (cl' = NoCleanup \<or> cl' = DeleteBlock) \<and> cached_read cap sn t options HS held n cl c'"
proof (cases "ok s")
  case False
  have "cached_read cap sn t options HS held n NoCleanup c" using H A by (intro cached_readI [of _ c c cap held ins n]) (simp_all add: run_cleanup_def)
  then show ?thesis using dec(1) False by (simp add: BlockReader_def)
next
  case True
  let ?key = "cache_key t handle"
  have h: "handle \<in> HS" using dec(2) [OF True] by simp
  obtain rs ct where R: "ReadBlock sn (tr_file t) options handle = Some (rs, ct)" using dec(2) [OF True] by (cases "ReadBlock sn (tr_file t) options handle") auto
  have inv: "sinv c held n" using history_inv [OF H] n by simp
  obtain r c1 where L: "cache_Lookup c ?key = Some (r, c1)" using sharded_Lookup [OF inv, of ?key] n by auto
  show ?thesis
  proof (cases r)
    case (Some ch)
    obtain v where v: "cache_Value c1 ch = Some v" "((), ?key, v) \<in># ins" using history_hit [OF H _ L [unfolded Some]] n by auto
    then have "rs = Status_OK" "v = new_Block (bc_data ct)" using A h R by (auto simp: cache_agrees_def)
    moreover have "cached_read cap sn t options HS held n (ReleaseBlock ch) c1"
      by (rule released [OF history.hit [OF H L [unfolded Some]] _ _ A]) (use n in simp_all)
    ultimately show ?thesis using dec(1) True L v(1) R Some by (auto simp: BlockReader_def)
  next
    case None
    have H1: "history cap c1 held ins (Suc n)" by (rule history.miss [OF H L [unfolded None]])
    then have same: "cached_read cap sn t options HS held n cl c1" if "cl = NoCleanup \<or> cl = DeleteBlock" for cl
      using A that by (intro cached_readI [of _ c1 c1 cap held ins "Suc n"]) (auto simp: run_cleanup_def)
    show ?thesis
    proof (cases "ok rs \<and> bc_cachable ct \<and> fill_cache options")
      case False
      then show ?thesis using dec(1) True L R None same by (auto simp: BlockReader_def)
    next
      case fill: True
      let ?b = "new_Block (bc_data ct)"
      have inv1: "sinv c1 held (Suc n)" using history_inv [OF H1] n by simp
      obtain ch c2 where ins: "cache_Insert c1 ?key ?b (of_nat (bk_size ?b)) () = Some (ch, c2)"
        using sharded_Insert [OF inv1, of ?key ?b "of_nat (bk_size ?b)" "()"] n by auto
      have "cache_agrees sn t options HS (add_mset ((), ?key, ?b) ins)"
        unfolding cache_agrees_def
      proof (intro ballI allI impI)
        fix g b assume g: "g \<in> HS" "((), cache_key t g, b) \<in># add_mset ((), ?key, ?b) ins"
        show "\<exists>contents. ReadBlock sn (tr_file t) options g = Some (Status_OK, contents) \<and> b = new_Block (bc_data contents)"
        proof (cases "((), cache_key t g, b) \<in># ins")
          case True
          then show ?thesis using A g(1) by (auto simp: cache_agrees_def)
        next
          case False
          then have "g = handle" "b = ?b" using g h inj cache_key_inj [of t g handle] by (auto dest: inj_onD)
          then show ?thesis using R fill by (simp add: ok_iff)
        qed
      qed
      from released [OF history.insert [OF H1 ins] _ _ this, of n] have "cached_read cap sn t options HS held n (ReleaseBlock ch) c2" using n by simp
      then show ?thesis using dec(1) True L R None fill ins by (auto simp: BlockReader_def)
    qed
  qed
qed

lemma run_cleanup_None [simp]: "run_cleanup cl None = Some None"
  by (cases cl) (simp_all add: run_cleanup_def)

lemma InternalGet_cached:
  assumes B: "Valid Block_Iterator ii \<Longrightarrow> \<exists>it cl c' cl' c''. BlockReader sn t (Some c) options (ivalue Block_Iterator ii) = Some (it, cl, Some c') \<and>
      BlockReader sn t None options (ivalue Block_Iterator ii) = Some (it, cl', None) \<and> run_cleanup cl (Some c') = Some (Some c'') \<and> P c''"
    and ii: "ii = Seek Block_Iterator (block_iterator t (tr_index_block t)) k" and c: "P c"
    and G: "InternalGet sn t None options k = Some (saved, s, None)"
  shows "\<exists>c'. InternalGet sn t (Some c) options k = Some (saved, s, Some c') \<and> P c'"
proof (cases "Valid Block_Iterator ii")
  case False
  then show ?thesis using G c unfolding InternalGet_def ii Let_def by auto
next
  case True
  obtain it cl c' cl' c'' where b: "BlockReader sn t (Some c) options (ivalue Block_Iterator ii) = Some (it, cl, Some c')"
    "BlockReader sn t None options (ivalue Block_Iterator ii) = Some (it, cl', None)" "run_cleanup cl (Some c') = Some (Some c'')" "P c''"
    using B [OF True] by blast
  show ?thesis
    using G b c True unfolding InternalGet_def Let_def ii [symmetric]
    by (auto split: prod.splits Option.bind_splits option.splits if_splits)
qed

section \<open>Properties\<close>

text \<open>
  C9. A table file holds its entries: sorted entries given to the builder (any block size, filter policy and compression) are
  written without error, the file opens, and the iterator of the table reads exactly them, forward, backward and from any sought
  key; every call returns.
\<close>

theorem table_roundtrip:
  assumes "sorted_entries (opt_comparator opts) okk es" "policy_ok opts okk" "0 < opt_restart_interval opts" "snappy_contract sn"
    "length (table_bytes sn opts es) < 2 ^ 32" "readable_file f (table_bytes sn opts es)"
  shows "fst (build_table sn opts es) = Status_OK \<and> tb_FileSize (snd (build_table sn opts es)) = of_nat (length (table_bytes sn opts es)) \<and>
    (\<exists>t. Table_Open sn opts f (of_nat (length (table_bytes sn opts es))) cache_id = Some (Status_OK, Some t) \<and>
      (\<forall>options n. let I = TwoLevel (table_levels sn t options); s = Table_NewIterator sn t options in
        read_forward I n (SeekToFirst I s) = take n es \<and> read_backward I n (SeekToLast I s) = take n (rev es) \<and>
        SeekToFirst I s \<noteq> None \<and> SeekToLast I s \<noteq> None \<and>
        (\<forall>target. okk target \<longrightarrow> Seek I s target \<noteq> None \<and> istatus I (Seek I s target) = Status_OK \<and>
          read_forward I n (Seek I s target) = take n (dropWhile (\<lambda>e. Compare (opt_comparator opts) (fst e) target < 0) es))))"
proof -
  let ?B = "table_bytes sn opts es" and ?c = "opt_comparator opts"
  obtain t gs flt where t: "Table_Open sn opts f (of_nat (length ?B)) cache_id = Some (Status_OK, Some t)"
    "concat gs = es" "[] \<notin> set gs" "?B = table_file sn opts gs flt" "filter_of_table okk sn opts gs flt" "table_of okk sn opts gs flt f t"
    using opened_table [OF assms] .
  have n: "length (concat (parts sn opts gs)) < 2 ^ 64" using assms(5) unfolding t(4)
    by (simp add: table_file_def before_footer_def before_index_def before_meta_def)
  have x: "index_of ?c okk (block_entries sn opts gs) (full_index sn opts gs) es" using table_index_of [OF _ t(3) n] assms(1) t(2) by blast
  have i: "block_rep ?c okk (block_iterator t (tr_index_block t)) (full_index sn opts gs) (length gs)" using t(6) by (simp add: table_of_def)
  have r: "table_iter.tl_rep sn t options ?c okk (Table_NewIterator sn t options) es (length es)" for options
    using table_iter.new_two_level_rep [OF x table_iter_opens [OF t(6) assms(6) [unfolded t(4)] assms(5) [unfolded t(4)] assms(4,3) _ n] i] assms(1) t(2)
    by (simp add: Table_NewIterator_def)
  note L = table_iter.two_level_list_iterator
  have D: "s \<noteq> None" if "table_iter.tl_rep sn t options ?c okk s es j" for options s j using that by (auto simp: table_iter.tl_rep_def)
  have "let I = TwoLevel (table_levels sn t options); s = Table_NewIterator sn t options in
      read_forward I n (SeekToFirst I s) = take n es \<and> read_backward I n (SeekToLast I s) = take n (rev es) \<and>
      SeekToFirst I s \<noteq> None \<and> SeekToLast I s \<noteq> None \<and>
      (\<forall>target. okk target \<longrightarrow> Seek I s target \<noteq> None \<and> istatus I (Seek I s target) = Status_OK \<and>
        read_forward I n (Seek I s target) = take n (dropWhile (\<lambda>e. Compare ?c (fst e) target < 0) es))" for options n
    unfolding Let_def
    using list_iterator.read_from_first [OF L r, of options n] list_iterator.read_from_last [OF L r, of options n]
      list_iterator.read_from_seek [OF L r, of _ options n] D [OF list_iterator.rep_SeekToFirst [OF L r], of options]
      D [OF list_iterator.rep_SeekToLast [OF L r], of options] D [OF list_iterator.rep_Seek [OF L r], of _ options]
      list_iterator.rep_status [OF L list_iterator.rep_Seek [OF L r], of _ options]
    by blast
  then show ?thesis using t(1) built_table [OF assms(1,2,5)] by blast
qed

text \<open>
  C10. A point lookup in a table answers with the first entry not below the key, or with none; it answers with that
  entry whenever the key shares the entry's filter and no separator of a smaller key comes between (an exact key always).
\<close>

theorem table_get:
  assumes "sorted_entries (opt_comparator opts) okk es" "policy_ok opts okk" "0 < opt_restart_interval opts" "snappy_contract sn"
    "length (table_bytes sn opts es) < 2 ^ 32" "readable_file f (table_bytes sn opts es)" "okk target" "i = lower_bound (opt_comparator opts) es target"
  shows "\<exists>t. Table_Open sn opts f (of_nat (length (table_bytes sn opts es))) cache_id = Some (Status_OK, Some t) \<and>
    (\<forall>options. \<exists>saved. InternalGet sn t None options target = Some (saved, Status_OK, None) \<and>
      (saved = None \<or> i < length es \<and> saved = Some (es ! i)) \<and>
      (i < length es \<and>
       (\<forall>a. okk a \<longrightarrow> Compare (opt_comparator opts) a target < 0 \<longrightarrow>
         Compare (opt_comparator opts) (FindShortestSeparator (opt_comparator opts) a (fst (es ! i))) target < 0) \<and>
       (\<forall>p x. opt_filter_policy opts = Some p \<longrightarrow> KeyMayMatch p target x = KeyMayMatch p (fst (es ! i)) x) \<longrightarrow>
       saved = Some (es ! i)))"
proof -
  obtain t gs flt where t: "Table_Open sn opts f (of_nat (length (table_bytes sn opts es))) cache_id = Some (Status_OK, Some t)"
    "concat gs = es" "[] \<notin> set gs" "table_bytes sn opts es = table_file sn opts gs flt" "filter_of_table okk sn opts gs flt" "table_of okk sn opts gs flt f t"
    using opened_table [OF assms(1-6)] .
  then show ?thesis
    using InternalGet_table [OF t(6) assms(6) [unfolded t(4)] assms(5) [unfolded t(4)] assms(4,3) t(5) _ t(3) assms(7), of i] assms(1,8)
    by (intro exI [of _ t]) (simp only: t(2) simp_thms)
qed

lemma sample_table: "length (table_bytes no_snappy sample_options [([1], [7]), ([3], [8])]) = 126"
  by (simp add: table_bytes_def build_table_def add_all_def new_TableBuilder_def on_filter_def tb_Add_def tb_ok_def sample_options_def Let_def
   bb_CurrentSizeEstimate_def bb_Add_def new_BlockBuilder_def Flush_def bb_empty_def WriteBlock_def bb_Finish_def compress_block_def WriteRawBlock_def file_append_def
   bb_Reset_def add_index_entry_def tb_Finish_def write_filter_def write_metaindex_def write_index_def write_footer_def length_Footer_EncodeTo PutVarint32_def PutFixed32_def) code_simp

lemma sample_table_sorted: "sorted_entries BytewiseComparator (\<lambda>_. True) [([1], [7]), ([3], [8])]"
  by (rule bytewise_sorted_entries) simp

lemmas sample_table_facts = sample_table_sorted sample_table without_snappy.snappy_contract_axioms

theorem table_roundtrip_witness:
  "\<exists>t. Table_Open no_snappy sample_options (file_of True (table_bytes no_snappy sample_options [([1], [7]), ([3], [8])])) 126 5 = Some (Status_OK, Some t) \<and>
    (let I = TwoLevel (table_levels no_snappy t new_ReadOptions); s = Table_NewIterator no_snappy t new_ReadOptions in
     read_forward I 9 (SeekToFirst I s) = [([1], [7]), ([3], [8])] \<and> read_forward I 9 (Seek I s [2]) = [([3], [8])])"
proof -
  have "dropWhile (\<lambda>e. Compare (opt_comparator sample_options) (fst e) [2] < 0) [([1], [7]), ([3], [8 :: byte])] = [([3], [8])]" by code_simp
  moreover have "opt_comparator sample_options = BytewiseComparator" "policy_ok sample_options (\<lambda>_. True)" "0 < opt_restart_interval sample_options"
    by (simp_all add: sample_options_def policy_ok_def)
  ultimately show ?thesis
    using table_roundtrip [of sample_options "\<lambda>_. True" "[([1], [7]), ([3], [8])]" no_snappy _ 5, OF _ _ _ _ _ file_of.readable_file_axioms [of True]] sample_table_facts
    by (simp add: Let_def) fastforce
qed

lemma sample_lookup_conditions:
  "lower_bound BytewiseComparator [([1], [7]), ([3], [8])] [3] = 1" "opt_comparator sample_options = BytewiseComparator"
  "policy_ok sample_options (\<lambda>_. True)" "0 < opt_restart_interval sample_options" "opt_filter_policy sample_options = None"
  "Compare BytewiseComparator a [3] < 0 \<Longrightarrow> Compare BytewiseComparator (FindShortestSeparator BytewiseComparator a [3]) [3] < 0"
proof -
  show "lower_bound BytewiseComparator [([1], [7]), ([3], [8])] [3] = 1" by code_simp
  show "Compare BytewiseComparator a [3] < 0 \<Longrightarrow> Compare BytewiseComparator (FindShortestSeparator BytewiseComparator a [3]) [3] < 0"
    using bytewise.Separator_upper [of a "[3]"] by simp
qed (simp_all add: sample_options_def policy_ok_def)

theorem table_get_witness:
  "\<exists>t. Table_Open no_snappy sample_options (file_of True (table_bytes no_snappy sample_options [([1], [7]), ([3], [8])])) 126 5 = Some (Status_OK, Some t) \<and>
    InternalGet no_snappy t None new_ReadOptions [3] = Some (Some ([3], [8]), Status_OK, None)"
  using table_get [of sample_options "\<lambda>_. True" "[([1], [7]), ([3], [8])]" no_snappy _ "[3]" 1 5, OF _ _ _ _ _ file_of.readable_file_axioms [of True]]
    sample_table_facts sample_lookup_conditions by simp fastforce

text \<open>
  C11. The block cache is transparent: a lookup with a cache whose entries agree with the file gives what the lookup without
  the cache gives, it releases the handles it takes, and the cache agrees with the file afterwards.
\<close>

theorem block_cache_transparent:
  assumes "history cap c held ins n" "n + 3 < 2 ^ 31" "cache_agrees sn t options H ins" "inj_on bh_offset H"
    "ii = Seek Block_Iterator (block_iterator t (tr_index_block t)) k"
    "Valid Block_Iterator ii \<Longrightarrow> bh_DecodeFrom new_BlockHandle (ivalue Block_Iterator ii) = (ds, handle, rest) \<and>
      (ok ds \<longrightarrow> handle \<in> H \<and> ReadBlock sn (tr_file t) options handle \<noteq> None)"
    "InternalGet sn t None options k = Some (saved, s, None)"
  shows "\<exists>c' ins' n'. InternalGet sn t (Some c) options k = Some (saved, s, Some c') \<and>
    history cap c' held ins' n' \<and> n' \<le> n + 3 \<and> cache_agrees sn t options H ins'"
proof -
  let ?P = "\<lambda>c. \<exists>ins' n'. history cap c held ins' n' \<and> n' \<le> n + 3 \<and> cache_agrees sn t options H ins'"
  have "?P c" using assms(1,3) by (intro exI [of _ ins] exI [of _ n]) simp
  moreover have "\<exists>it cl c' cl' c''. BlockReader sn t (Some c) options (ivalue Block_Iterator ii) = Some (it, cl, Some c') \<and>
      BlockReader sn t None options (ivalue Block_Iterator ii) = Some (it, cl', None) \<and> run_cleanup cl (Some c') = Some (Some c'') \<and> ?P c''"
    if v: "Valid Block_Iterator ii"
    using BlockReader_cached [OF assms(1-4), of "ivalue Block_Iterator ii" ds handle rest] assms(6) [OF v] unfolding cached_read_def by blast
  ultimately show ?thesis using InternalGet_cached [OF _ assms(5) _ assms(7), where P = ?P] by blast
qed

lemma InternalGet_reads:
  assumes "InternalGet sn t None options k = Some r" "tr_filter t = None" "Valid Block_Iterator (Seek Block_Iterator (block_iterator t (tr_index_block t)) k)"
    "bh_DecodeFrom new_BlockHandle (ivalue Block_Iterator (Seek Block_Iterator (block_iterator t (tr_index_block t)) k)) = (ds, h, rest)" "ok ds"
  shows "ReadBlock sn (tr_file t) options h \<noteq> None"
  using assms by (cases "ReadBlock sn (tr_file t) options h") (auto simp: InternalGet_def BlockReader_def Let_def)

theorem block_cache_transparent_witness:
  "\<exists>t c c' ins' n'. NewLRUCache 4096 = Some c \<and> InternalGet no_snappy t (Some c) new_ReadOptions [3] = Some (Some ([3], [8]), Status_OK, Some c') \<and>
    Table_Open no_snappy sample_options (file_of True (table_bytes no_snappy sample_options [([1], [7]), ([3], [8])])) 126 5 = Some (Status_OK, Some t) \<and>
    history 4096 c' (\<lambda>_. 0) ins' n'"
proof -
  let ?es = "[([1], [7]), ([3], [8])] :: (bytes \<times> bytes) list" and ?f = "file_of True (table_bytes no_snappy sample_options [([1], [7]), ([3], [8])])"
  obtain c :: "(unit, Block) ShardedLRUCache" where c: "NewLRUCache 4096 = Some c" using new_cache by blast
  note C = sample_lookup_conditions and F = file_of.readable_file_axioms [of True "table_bytes no_snappy sample_options ?es"]
  have s: "sorted_entries (opt_comparator sample_options) (\<lambda>_. True) ?es" "length (table_bytes no_snappy sample_options ?es) < 2 ^ 32"
    using sample_table_facts C(2) by simp_all
  obtain t gs flt where t: "Table_Open no_snappy sample_options ?f 126 5 = Some (Status_OK, Some t)" "concat gs = ?es" "[] \<notin> set gs"
    "table_bytes no_snappy sample_options ?es = table_file no_snappy sample_options gs flt" "filter_of_table (\<lambda>_. True) no_snappy sample_options gs flt"
    "table_of (\<lambda>_. True) no_snappy sample_options gs flt ?f t"
    using opened_table [OF s(1) C(3,4) without_snappy.snappy_contract_axioms s(2) F, of 5] unfolding sample_table by auto
  have G: "InternalGet no_snappy t None new_ReadOptions [3] = Some (Some ([3], [8]), Status_OK, None)"
    using InternalGet_table [OF t(6) [unfolded t(4)] F [unfolded t(4)] s(2) [unfolded t(4)] without_snappy.snappy_contract_axioms C(4) t(5) _ t(3), where target = "[3]" and i = 1 and options = new_ReadOptions]
      s(1) C t(2) by simp
  have nf: "tr_filter t = None" using t(5,6) C(5) by (simp add: table_of_def filter_of_table_def)
  let ?ii = "Seek Block_Iterator (block_iterator t (tr_index_block t)) [3]"
  obtain ds h rest where d: "bh_DecodeFrom new_BlockHandle (ivalue Block_Iterator ?ii) = (ds, h, rest)" by (metis prod_cases3)
  have "history 4096 c (\<lambda>_. 0) {#} 0" by (rule history.start [OF c])
  from block_cache_transparent [OF this, of no_snappy t new_ReadOptions "{h}" ?ii "[3]" ds h rest, OF _ _ _ refl _ G] InternalGet_reads [OF G nf _ d] d
  show ?thesis using c t(1) by (auto simp: cache_agrees_def)
qed

end
