(* ===== verification/DBIters.thy ===== *)
theory DBIters
  imports DbFormat Randoms Mergers Tables
begin

text \<open>
  \<open>db/db_iter.cc\<close>: the iterator a client sees. It runs over internal entries (user key, sequence
  number, type) and shows at most one entry for each user key, the newest one not newer than the snapshot, if it is not a
  deletion. The keys it reports for read sampling are collected, in place of the call into the database. A call that does not return leaves no
  state. The capacity of the saved value, which decides only when memory is given back, does not show.
\<close>

section \<open>Definitions\<close>

record 's DBIter =
  di_comparator :: comparator
  di_iter :: 's
  di_sequence :: u64
  di_status :: Status
  di_saved_key :: bytes
  di_saved_value :: bytes
  di_direction :: Direction
  di_valid :: bool
  di_rnd :: u32
  di_bytes_until :: nat
  di_samples :: "bytes list"

definition kReadBytesPeriod :: u32 where
  "kReadBytesPeriod = 1048576"

definition RandomCompactionPeriod :: "u32 \<Rightarrow> nat \<times> u32" where
  "RandomCompactionPeriod rnd = (let (n, rnd) = Random_Uniform rnd (2 * kReadBytesPeriod) in (unat n, rnd))"

definition new_DBIter :: "comparator \<Rightarrow> 's \<Rightarrow> u64 \<Rightarrow> u32 \<Rightarrow> 's DBIter" where
  "new_DBIter cmp iter s seed =
     (let (n, rnd) = RandomCompactionPeriod (new_Random seed)
      in \<lparr>di_comparator = cmp, di_iter = iter, di_sequence = s, di_status = Status_OK, di_saved_key = [], di_saved_value = [],
          di_direction = kForward, di_valid = False, di_rnd = rnd, di_bytes_until = n, di_samples = []\<rparr>)"

definition take_sample :: "bytes \<Rightarrow> 's DBIter \<Rightarrow> 's DBIter" where
  "take_sample k d =
     (let (n, rnd) = RandomCompactionPeriod (di_rnd d)
      in d\<lparr>di_bytes_until := di_bytes_until d + n, di_rnd := rnd, di_samples := di_samples d @ [k]\<rparr>)"

partial_function (option) sample_loop :: "bytes \<Rightarrow> nat \<Rightarrow> 's DBIter \<Rightarrow> 's DBIter option" where
  "sample_loop k bytes_read d = (if di_bytes_until d < bytes_read then sample_loop k bytes_read (take_sample k d) else Some d)"

definition ParseKey :: "'s Iterator \<Rightarrow> 's DBIter \<Rightarrow> (ParsedInternalKey option \<times> 's DBIter) option" where
  "ParseKey it d = do {
     let k = ikey it (di_iter d);
     let bytes_read = length k + length (ivalue it (di_iter d));
     d \<leftarrow> sample_loop k bytes_read d;
     let d = d\<lparr>di_bytes_until := di_bytes_until d - bytes_read\<rparr>;
     Some (case ParseInternalKey k of
             None \<Rightarrow> (None, d\<lparr>di_status := Corruption (str ''corrupted internal key in DBIter'') []\<rparr>)
           | Some pk \<Rightarrow> (Some pk, d)) }"

text \<open>
  One round of the forward loop up to the move of the inner iterator: whether an entry is found, the flag \<open>skipping\<close>, the state. The
  argument \<open>skip\<close> of the method always points to \<open>saved_key_\<close>.
\<close>

definition next_round :: "'s Iterator \<Rightarrow> bool \<Rightarrow> 's DBIter \<Rightarrow> (bool \<times> bool \<times> 's DBIter) option" where
  "next_round it skipping d = do {
     (pk, d) \<leftarrow> ParseKey it d;
     Some (case pk of
             None \<Rightarrow> (False, skipping, d)
           | Some pk \<Rightarrow>
               if sequence pk \<le> di_sequence d then
                 (case vtype pk of
                    kTypeDeletion \<Rightarrow> (False, True, d\<lparr>di_saved_key := user_key pk\<rparr>)
                  | kTypeValue \<Rightarrow>
                      if skipping \<and> Compare (di_comparator d) (user_key pk) (di_saved_key d) \<le> 0 then (False, skipping, d)
                      else (True, skipping, d\<lparr>di_valid := True, di_saved_key := []\<rparr>))
               else (False, skipping, d)) }"

partial_function (option) FindNextUserEntry :: "'s Iterator \<Rightarrow> bool \<Rightarrow> 's DBIter \<Rightarrow> 's DBIter option" where
  "FindNextUserEntry it skipping d = do {
     (hit, skipping, d) \<leftarrow> next_round it skipping d;
     if hit then Some d
     else let d = d\<lparr>di_iter := Next it (di_iter d)\<rparr>
          in if Valid it (di_iter d) then FindNextUserEntry it skipping d
             else Some (d\<lparr>di_saved_key := [], di_valid := False\<rparr>) }"

definition di_invalid :: "'s DBIter \<Rightarrow> 's DBIter" where
  "di_invalid d = d\<lparr>di_valid := False, di_saved_key := []\<rparr>"

definition di_Next :: "'s Iterator \<Rightarrow> 's DBIter \<Rightarrow> 's DBIter option" where
  "di_Next it d =
     (if di_direction d = kReverse then
        let d = d\<lparr>di_direction := kForward\<rparr>;
            d = (if \<not> Valid it (di_iter d) then d\<lparr>di_iter := SeekToFirst it (di_iter d)\<rparr> else d\<lparr>di_iter := Next it (di_iter d)\<rparr>)
        in if \<not> Valid it (di_iter d) then Some (di_invalid d) else FindNextUserEntry it True d
      else
        let d = d\<lparr>di_saved_key := ExtractUserKey (ikey it (di_iter d))\<rparr>;
            d = d\<lparr>di_iter := Next it (di_iter d)\<rparr>
        in if \<not> Valid it (di_iter d) then Some (di_invalid d) else FindNextUserEntry it True d)"

text \<open>
  One round of the backward loop: None where the loop breaks, else the type and the state before the inner iterator moves.
\<close>

definition prev_round :: "'s Iterator \<Rightarrow> ValueType \<Rightarrow> 's DBIter \<Rightarrow> ((ValueType option) \<times> 's DBIter) option" where
  "prev_round it value_type d = do {
     (pk, d) \<leftarrow> ParseKey it d;
     Some (case pk of
             None \<Rightarrow> (Some value_type, d)
           | Some pk \<Rightarrow>
               if sequence pk \<le> di_sequence d then
                 if value_type \<noteq> kTypeDeletion \<and> Compare (di_comparator d) (user_key pk) (di_saved_key d) < 0 then (None, d)
                 else (case vtype pk of
                         kTypeDeletion \<Rightarrow> (Some kTypeDeletion, d\<lparr>di_saved_key := [], di_saved_value := []\<rparr>)
                       | kTypeValue \<Rightarrow>
                           (Some kTypeValue, d\<lparr>di_saved_key := ExtractUserKey (ikey it (di_iter d)),
                              di_saved_value := ivalue it (di_iter d)\<rparr>))
               else (Some value_type, d)) }"

partial_function (option) prev_loop :: "'s Iterator \<Rightarrow> ValueType \<Rightarrow> 's DBIter \<Rightarrow> (ValueType \<times> 's DBIter) option" where
  "prev_loop it value_type d = do {
     (vt, d) \<leftarrow> prev_round it value_type d;
     case vt of
       None \<Rightarrow> Some (value_type, d)
     | Some vt \<Rightarrow>
         let d = d\<lparr>di_iter := Prev it (di_iter d)\<rparr>
         in if Valid it (di_iter d) then prev_loop it vt d else Some (vt, d) }"

definition FindPrevUserEntry :: "'s Iterator \<Rightarrow> 's DBIter \<Rightarrow> 's DBIter option" where
  "FindPrevUserEntry it d = do {
     (value_type, d) \<leftarrow> (if Valid it (di_iter d) then prev_loop it kTypeDeletion d else Some (kTypeDeletion, d));
     Some (if value_type = kTypeDeletion
           then d\<lparr>di_valid := False, di_saved_key := [], di_saved_value := [], di_direction := kForward\<rparr>
           else d\<lparr>di_valid := True\<rparr>) }"

text \<open>The scan back over the entries of the current key; the flag says that the start was reached.\<close>

partial_function (option) turn_loop :: "'s Iterator \<Rightarrow> 's DBIter \<Rightarrow> (bool \<times> 's DBIter) option" where
  "turn_loop it d =
     (let d = d\<lparr>di_iter := Prev it (di_iter d)\<rparr>
      in if \<not> Valid it (di_iter d) then Some (True, d)
         else if Compare (di_comparator d) (ExtractUserKey (ikey it (di_iter d))) (di_saved_key d) < 0 then Some (False, d)
         else turn_loop it d)"

definition di_Prev :: "'s Iterator \<Rightarrow> 's DBIter \<Rightarrow> 's DBIter option" where
  "di_Prev it d =
     (if di_direction d = kForward then do {
        let d = d\<lparr>di_saved_key := ExtractUserKey (ikey it (di_iter d))\<rparr>;
        (at_start, d) \<leftarrow> turn_loop it d;
        if at_start then Some (d\<lparr>di_valid := False, di_saved_key := [], di_saved_value := []\<rparr>)
        else FindPrevUserEntry it (d\<lparr>di_direction := kReverse\<rparr>) }
      else FindPrevUserEntry it d)"

definition di_Seek :: "'s Iterator \<Rightarrow> 's DBIter \<Rightarrow> bytes \<Rightarrow> 's DBIter option" where
  "di_Seek it d target =
     (let d = d\<lparr>di_direction := kForward, di_saved_value := [],
               di_saved_key := AppendInternalKey [] \<lparr>user_key = target, sequence = di_sequence d, vtype = kValueTypeForSeek\<rparr>\<rparr>;
          d = d\<lparr>di_iter := Seek it (di_iter d) (di_saved_key d)\<rparr>
      in if Valid it (di_iter d) then FindNextUserEntry it False d else Some (d\<lparr>di_valid := False\<rparr>))"

definition di_SeekToFirst :: "'s Iterator \<Rightarrow> 's DBIter \<Rightarrow> 's DBIter option" where
  "di_SeekToFirst it d =
     (let d = d\<lparr>di_direction := kForward, di_saved_value := []\<rparr>;
          d = d\<lparr>di_iter := SeekToFirst it (di_iter d)\<rparr>
      in if Valid it (di_iter d) then FindNextUserEntry it False d else Some (d\<lparr>di_valid := False\<rparr>))"

definition di_SeekToLast :: "'s Iterator \<Rightarrow> 's DBIter \<Rightarrow> 's DBIter option" where
  "di_SeekToLast it d =
     (let d = d\<lparr>di_direction := kReverse, di_saved_value := []\<rparr>
      in FindPrevUserEntry it (d\<lparr>di_iter := SeekToLast it (di_iter d)\<rparr>))"

definition di_key :: "'s Iterator \<Rightarrow> 's DBIter \<Rightarrow> bytes" where
  "di_key it d = (if di_direction d = kForward then ExtractUserKey (ikey it (di_iter d)) else di_saved_key d)"

definition di_value :: "'s Iterator \<Rightarrow> 's DBIter \<Rightarrow> bytes" where
  "di_value it d = (if di_direction d = kForward then ivalue it (di_iter d) else di_saved_value d)"

definition di_get_status :: "'s Iterator \<Rightarrow> 's DBIter \<Rightarrow> Status" where
  "di_get_status it d = (if ok (di_status d) then istatus it (di_iter d) else di_status d)"

definition DBIterator :: "'s Iterator \<Rightarrow> 's DBIter option Iterator" where
  "DBIterator it =
     \<lparr>Valid = (\<lambda>s. case s of None \<Rightarrow> False | Some d \<Rightarrow> di_valid d),
      SeekToFirst = (\<lambda>s. Option.bind s (di_SeekToFirst it)), SeekToLast = (\<lambda>s. Option.bind s (di_SeekToLast it)),
      Seek = (\<lambda>s target. Option.bind s (\<lambda>d. di_Seek it d target)), Next = (\<lambda>s. Option.bind s (di_Next it)),
      Prev = (\<lambda>s. Option.bind s (di_Prev it)), ikey = (\<lambda>s. di_key it (the s)), ivalue = (\<lambda>s. di_value it (the s)),
      istatus = (\<lambda>s. di_get_status it (the s))\<rparr>"

section \<open>Sampling\<close>

text \<open>The generator never gives two multiples of the period in a row, so the sampling loop ends.\<close>

lemma shift_mod_cancel:
  assumes "2097152 * x = (2097152 * y) mod (2147483647 :: nat)" "x < 2147483647" "y < 2147483647"
  shows "x = y"
proof -
  define M where "M = (2147483647 :: nat)"
  have r: "(1024 * (2097152 * z)) mod M = z mod M" for z
  proof -
    have "1024 * (2097152 * z) = z + M * z" by (simp add: M_def)
    then show ?thesis by (simp only: mod_mult_self2)
  qed
  have "x mod M = (1024 * ((2097152 * y) mod M)) mod M" using r [of x] assms(1) unfolding M_def [symmetric] by simp
  also have "\<dots> = y mod M" using r [of y] by (simp only: mod_mult_right_eq)
  finally show ?thesis using assms(2,3) unfolding M_def [symmetric] by simp
qed

lemma two_draws:
  assumes "good_seed s" "unat (Random_Next s) mod 2097152 = 0"
  shows "unat (Random_Next (Random_Next s)) mod 2097152 \<noteq> 0"
proof
  let ?n = "unat (Random_Next s)"
  assume z: "unat (Random_Next (Random_Next s)) mod 2097152 = 0"
  have g: "good_seed (Random_Next s)" by (rule good_seed_Next [OF assms(1)])
  obtain t where t: "?n = 2097152 * t" using assms(2) by (auto simp: mod_eq_0_iff_dvd dvd_def)
  have n: "0 < ?n" "?n < 2147483647" using g by (simp_all add: good_seed_unat)
  then have tb: "0 < t" "t < 1024" using t by auto
  obtain u where u: "unat (Random_Next (Random_Next s)) = 2097152 * u" using z by (auto simp: mod_eq_0_iff_dvd dvd_def)
  have "unat (Random_Next (Random_Next s)) < 2147483647" using good_seed_Next [OF g] by (simp add: good_seed_unat)
  then have ub: "u < 1024" using u by simp
  have "2097152 * u = (2097152 * (t * 16807)) mod 2147483647" using Random_Next_mod [OF g] unfolding t u mult.assoc .
  then have "u = t * 16807" using ub tb(2) by (intro shift_mod_cancel [of u "t * 16807"]) simp_all
  then show False using ub tb by simp
qed

lemma Period_eq: "good_seed s \<Longrightarrow> RandomCompactionPeriod s = (unat (Random_Next s) mod 2097152, Random_Next s)"
  by (simp add: RandomCompactionPeriod_def Random_Uniform_def kReadBytesPeriod_def Let_def unat_mod)

lemma new_DBIter_seed: "good_seed (di_rnd (new_DBIter c iter s seed))"
  using good_seed_Next [OF good_seed_new [of seed]] by (simp add: new_DBIter_def Period_eq [OF good_seed_new] Let_def)

text \<open>States that differ only in the sampling.\<close>

definition resampled :: "'s DBIter \<Rightarrow> 's DBIter \<Rightarrow> bool" where
  "resampled d d' \<longleftrightarrow>
     di_comparator d' = di_comparator d \<and> di_iter d' = di_iter d \<and> di_sequence d' = di_sequence d \<and> di_status d' = di_status d \<and>
     di_saved_key d' = di_saved_key d \<and> di_saved_value d' = di_saved_value d \<and> di_direction d' = di_direction d \<and>
     di_valid d' = di_valid d \<and> (good_seed (di_rnd d) \<longrightarrow> good_seed (di_rnd d'))"

lemma resampled_refl: "resampled d d"
  by (simp add: resampled_def)

lemma resampled_trans: "resampled d d' \<Longrightarrow> resampled d' d'' \<Longrightarrow> resampled d d''"
  by (auto simp: resampled_def)

lemma resampled_sample: "good_seed (di_rnd d) \<Longrightarrow> resampled d (take_sample k d)"
  using good_seed_Next [of "di_rnd d"] by (auto simp: resampled_def take_sample_def Period_eq)

lemma sample_loop_returns: "good_seed (di_rnd d) \<Longrightarrow> \<exists>d'. sample_loop k n d = Some d' \<and> resampled d d' \<and> n \<le> di_bytes_until d'"
proof (induction "2 * (n - di_bytes_until d) + (if unat (Random_Next (di_rnd d)) mod 2097152 = 0 then 1 else 0)" arbitrary: d rule: less_induct)
  case less
  show ?case
  proof (cases "di_bytes_until d < n")
    case False
    then show ?thesis using resampled_refl by (subst sample_loop.simps) auto
  next
    case True
    let ?d = "take_sample k d" and ?z = "\<lambda>d :: 'a DBIter. unat (Random_Next (di_rnd d)) mod 2097152"
    have t: "di_bytes_until ?d = di_bytes_until d + ?z d" "di_rnd ?d = Random_Next (di_rnd d)"
      using less.prems by (simp_all add: take_sample_def Period_eq)
    have "2 * (n - di_bytes_until ?d) + (if ?z ?d = 0 then 1 else 0) < 2 * (n - di_bytes_until d) + (if ?z d = 0 then 1 else 0)"
      using True two_draws [OF less.prems] unfolding t by (cases "?z d = 0") auto
    then obtain d' where "sample_loop k n ?d = Some d'" "resampled ?d d'" "n \<le> di_bytes_until d'"
      using less.hyps [of ?d] good_seed_Next [OF less.prems] t(2) by auto
    then show ?thesis using True resampled_trans [OF resampled_sample [OF less.prems]] by (subst sample_loop.simps) auto
  qed
qed

lemma ParseKey_returns:
  assumes "good_seed (di_rnd d)" "ParseInternalKey (ikey it (di_iter d)) = Some pk"
  shows "\<exists>d'. ParseKey it d = Some (Some pk, d') \<and> resampled d d'"
proof -
  let ?n = "length (ikey it (di_iter d)) + length (ivalue it (di_iter d))"
  obtain d' where d': "sample_loop (ikey it (di_iter d)) ?n d = Some d'" "resampled d d'" using sample_loop_returns [OF assms(1)] by blast
  then have "resampled d (d'\<lparr>di_bytes_until := di_bytes_until d' - ?n\<rparr>)" by (simp add: resampled_def)
  then show ?thesis using d'(1) assms(2) by (simp add: ParseKey_def Let_def)
qed

section \<open>What a snapshot shows\<close>

text \<open>The entries of the database representation and the user's view of them at a snapshot.\<close>

definition uk :: "(bytes \<times> bytes) list \<Rightarrow> nat \<Rightarrow> bytes" where
  "uk es p = ExtractUserKey (fst (es ! p))"

definition at_seq :: "(bytes \<times> bytes) list \<Rightarrow> nat \<Rightarrow> u64" where
  "at_seq es p = sequence (the (ParseInternalKey (fst (es ! p))))"

definition is_value :: "(bytes \<times> bytes) list \<Rightarrow> nat \<Rightarrow> bool" where
  "is_value es p \<longleftrightarrow> vtype (the (ParseInternalKey (fst (es ! p)))) = kTypeValue"

text \<open>A position is shown if its entry is a value, not newer than the snapshot, and no such entry of the key is before it.\<close>

definition shown :: "u64 \<Rightarrow> (bytes \<times> bytes) list \<Rightarrow> nat \<Rightarrow> bool" where
  "shown s es p \<longleftrightarrow> at_seq es p \<le> s \<and> is_value es p \<and> (\<forall>q < p. uk es q = uk es p \<longrightarrow> \<not> at_seq es q \<le> s)"

definition shown_positions :: "u64 \<Rightarrow> (bytes \<times> bytes) list \<Rightarrow> nat list" where
  "shown_positions s es = filter (shown s es) [0..<length es]"

definition snapshot_view :: "u64 \<Rightarrow> (bytes \<times> bytes) list \<Rightarrow> (bytes \<times> bytes) list" where
  "snapshot_view s es = map (\<lambda>p. (uk es p, snd (es ! p))) (shown_positions s es)"

text \<open>The number of shown positions before a position is the index of the next one.\<close>

definition shown_before :: "u64 \<Rightarrow> (bytes \<times> bytes) list \<Rightarrow> nat \<Rightarrow> nat" where
  "shown_before s es p = length (filter (shown s es) [0..<p])"

lemma length_view: "length (snapshot_view s es) = shown_before s es (length es)"
  by (simp add: snapshot_view_def shown_positions_def shown_before_def)

lemma shown_before_Suc: "shown_before s es (Suc p) = shown_before s es p + (if shown s es p then 1 else 0)"
  by (simp add: shown_before_def)

lemma shown_before_mono: "p \<le> q \<Longrightarrow> shown_before s es p \<le> shown_before s es q"
  by (induction q) (auto simp: shown_before_Suc le_Suc_eq)

lemma shown_before_eq: "p \<le> q \<Longrightarrow> (\<And>r. p \<le> r \<Longrightarrow> r < q \<Longrightarrow> \<not> shown s es r) \<Longrightarrow> shown_before s es q = shown_before s es p"
  by (induction q) (auto simp: shown_before_Suc le_Suc_eq)

lemma view_nth:
  assumes "shown s es p" "p < length es"
  shows "shown_before s es p < length (snapshot_view s es)" "snapshot_view s es ! shown_before s es p = (uk es p, snd (es ! p))"
proof -
  have "[0..<length es] = [0..<p] @ p # [Suc p..<length es]"
    using assms(2) upt_add_eq_append [of 0 p "length es - p"] upt_conv_Cons [of p "length es"] by simp
  then have "shown_positions s es = filter (shown s es) [0..<p] @ p # filter (shown s es) [Suc p..<length es]"
    using assms(1) by (simp add: shown_positions_def)
  then show "shown_before s es p < length (snapshot_view s es)" "snapshot_view s es ! shown_before s es p = (uk es p, snd (es ! p))"
    by (simp_all add: snapshot_view_def shown_before_def nth_append)
qed

lemma view_position:
  assumes "i < length (snapshot_view s es)"
  obtains p where "p < length es" "shown s es p" "shown_before s es p = i"
proof -
  have "\<exists>p < n. shown s es p \<and> shown_before s es p = i" if "i < shown_before s es n" for n
    using that
  proof (induction n)
    case (Suc n)
    then show ?case by (cases "i < shown_before s es n") (auto simp: shown_before_Suc less_Suc_eq split: if_splits)
  qed (simp add: shown_before_def)
  then show ?thesis using assms that by (auto simp: length_view)
qed

section \<open>The inner entries\<close>

definition parsed_entries :: "comparator \<Rightarrow> (bytes \<times> bytes) list \<Rightarrow> bool" where
  "parsed_entries c es \<longleftrightarrow>
     sorted_entries (InternalKeyComparator c) (\<lambda>k. 8 \<le> length k) es \<and> (\<forall>e\<in>set es. ParseInternalKey (fst e) \<noteq> None)"

lemma parsed_nth:
  assumes "parsed_entries c es" "p < length es"
  obtains t where "ParseInternalKey (fst (es ! p)) = Some \<lparr>user_key = uk es p, sequence = at_seq es p, vtype = t\<rparr>" "is_value es p \<longleftrightarrow> t = kTypeValue"
    "fst (es ! p) = InternalKey (uk es p) (at_seq es p) t" "at_seq es p \<le> kMaxSequenceNumber"
proof -
  have "es ! p \<in> set es" using assms(2) by simp
  then obtain k where k: "ParseInternalKey (fst (es ! p)) = Some k" using assms(1) unfolding parsed_entries_def by blast
  have u: "user_key k = uk es p" "at_seq es p = sequence k" "is_value es p \<longleftrightarrow> vtype k = kTypeValue"
    using k by (auto simp: uk_def at_seq_def is_value_def ParseInternalKey_def ExtractUserKey_def Let_def split: if_splits)
  have "fst (es ! p) = InternalKey (uk es p) (at_seq es p) (vtype k)"
    using InternalKey_ParseInternalKey [OF k] u(1,2) by (cases k) (simp add: InternalKey_def)
  moreover have "sequence k \<le> kMaxSequenceNumber"
  proof -
    have "sequence k = drop_bit 8 (key_tag (fst (es ! p)))" using k by (auto simp: ParseInternalKey_def Let_def split: if_splits)
    then have "unat (sequence k) = unat (key_tag (fst (es ! p))) div 2 ^ 8" by (simp add: unat_drop_bit)
    moreover have "unat (key_tag (fst (es ! p))) < 2 ^ 64" using unsigned_less [of "key_tag (fst (es ! p))", where 'a = nat] by simp
    ultimately have "unat (sequence k) < 2 ^ 56" by (simp add: less_mult_imp_div_less)
    then show ?thesis by (simp add: word_le_nat_alt unat_kMaxSequenceNumber)
  qed
  moreover have "ParseInternalKey (fst (es ! p)) = Some \<lparr>user_key = uk es p, sequence = at_seq es p, vtype = vtype k\<rparr>" using k u by (cases k) simp
  ultimately show ?thesis using that u by auto
qed

text \<open>The iterator over any iterator of internal entries.\<close>

locale db_iteration =
  total_comparator c + inner: list_iterator it "InternalKeyComparator c" "\<lambda>k. 8 \<le> length k" irep
  for c :: comparator and it :: "'s Iterator" and irep :: "'s \<Rightarrow> (bytes \<times> bytes) list \<Rightarrow> nat \<Rightarrow> bool"
begin

definition at_pos :: "'s DBIter \<Rightarrow> u64 \<Rightarrow> (bytes \<times> bytes) list \<Rightarrow> nat \<Rightarrow> bool" where
  "at_pos d s es p \<longleftrightarrow>
     irep (di_iter d) es p \<and> good_seed (di_rnd d) \<and> di_comparator d = c \<and> di_sequence d = s \<and> di_status d = Status_OK"

lemma at_pos_frame:
  "at_pos d s es p \<Longrightarrow> irep (di_iter d') es q \<Longrightarrow> di_rnd d' = di_rnd d \<Longrightarrow> di_comparator d' = di_comparator d \<Longrightarrow> di_sequence d' = di_sequence d \<Longrightarrow>
    di_status d' = di_status d \<Longrightarrow> at_pos d' s es q"
  by (simp add: at_pos_def)

lemma keys_ordered:
  assumes "parsed_entries c es" "q \<le> p" "p < length es"
  shows "Compare c (uk es q) (uk es p) \<le> 0"
proof (cases "q = p")
  case False
  then have "InternalKey_Compare c (fst (es ! q)) (fst (es ! p)) < 0"
    using assms by (simp add: parsed_entries_def sorted_entries_def sorted_wrt_iff_nth_less)
  then show ?thesis using Compare_refl by (auto simp: InternalKey_Compare_less uk_def intro: less_imp_le)
qed simp

lemma le_antisym: "Compare c a b \<le> 0 \<Longrightarrow> Compare c b a \<le> 0 \<Longrightarrow> a = b"
  using Compare_swap [of a b] Compare_zero [of a b] by (cases "Compare c a b = 0") auto

lemma parse_at:
  assumes P: "parsed_entries c es" and a: "at_pos d s es p" "p < length es"
  obtains d' t where "ParseKey it d = Some (Some \<lparr>user_key = uk es p, sequence = at_seq es p, vtype = t\<rparr>, d')" "is_value es p \<longleftrightarrow> t = kTypeValue"
    "at_pos d' s es p" "di_saved_key d' = di_saved_key d" "di_saved_value d' = di_saved_value d" "di_direction d' = di_direction d" "di_valid d' = di_valid d"
    "ExtractUserKey (ikey it (di_iter d')) = uk es p" "ivalue it (di_iter d') = snd (es ! p)"
proof -
  obtain t where t: "ParseInternalKey (fst (es ! p)) = Some \<lparr>user_key = uk es p, sequence = at_seq es p, vtype = t\<rparr>" "is_value es p \<longleftrightarrow> t = kTypeValue"
    using parsed_nth [OF P a(2)] by metis
  have r: "irep (di_iter d) es p" "good_seed (di_rnd d)" using a(1) by (simp_all add: at_pos_def)
  have k: "ikey it (di_iter d) = fst (es ! p)" "ivalue it (di_iter d) = snd (es ! p)" using inner.rep_key [OF r(1) a(2)] inner.rep_value [OF r(1) a(2)] .
  obtain d' where d': "ParseKey it d = Some (Some \<lparr>user_key = uk es p, sequence = at_seq es p, vtype = t\<rparr>, d')" "resampled d d'"
    using ParseKey_returns [OF r(2), of it] t(1) k by auto
  show ?thesis by (rule that [OF d'(1) t(2)]) (use d'(2) a(1) k in \<open>simp_all add: resampled_def at_pos_def uk_def\<close>)
qed

text \<open>The forward loop stops at the first selected position.\<close>

definition sel :: "u64 \<Rightarrow> (bytes \<times> bytes) list \<Rightarrow> nat \<Rightarrow> bool \<Rightarrow> bytes \<Rightarrow> nat \<Rightarrow> bool" where
  "sel s es p sk k q \<longleftrightarrow> at_seq es q \<le> s \<and> is_value es q \<and> \<not> (sk \<and> Compare c (uk es q) k \<le> 0) \<and>
     (\<forall>r. p \<le> r \<and> r < q \<longrightarrow> uk es r = uk es q \<longrightarrow> \<not> at_seq es r \<le> s)"

lemma next_round_at:
  assumes P: "parsed_entries c es" and a: "at_pos d s es p" "p < length es"
  shows "\<exists>hit sk' d'. next_round it sk d = Some (hit, sk', d') \<and> at_pos d' s es p \<and> di_direction d' = di_direction d \<and>
    (if \<not> at_seq es p \<le> s \<or> is_value es p \<and> sk \<and> Compare c (uk es p) (di_saved_key d) \<le> 0 then \<not> hit \<and> sk' = sk \<and> di_saved_key d' = di_saved_key d
     else if is_value es p then hit \<and> di_valid d' else \<not> hit \<and> sk' \<and> di_saved_key d' = uk es p)"
proof -
  obtain d' t where d': "ParseKey it d = Some (Some \<lparr>user_key = uk es p, sequence = at_seq es p, vtype = t\<rparr>, d')" "is_value es p \<longleftrightarrow> t = kTypeValue"
    "at_pos d' s es p" "di_saved_key d' = di_saved_key d" "di_direction d' = di_direction d"
    using parse_at [OF P a] by metis
  have c: "di_comparator d' = c" "di_sequence d' = s" using d'(3) by (simp_all add: at_pos_def)
  show ?thesis
    using d' c by (cases t) (auto simp: next_round_def at_pos_def)
qed

lemma sel_step:
  assumes P: "parsed_entries c es" and p: "p < length es" and b: "sk \<longrightarrow> (\<forall>q. p \<le> q \<and> q < length es \<and> at_seq es q \<le> s \<longrightarrow> Compare c k (uk es q) \<le> 0)"
    and q: "p < q" "q < length es"
  shows "\<not> at_seq es p \<le> s \<or> is_value es p \<and> sk \<and> Compare c (uk es p) k \<le> 0 \<Longrightarrow> sel s es (Suc p) sk k q \<longleftrightarrow> sel s es p sk k q"
    "at_seq es p \<le> s \<Longrightarrow> sel s es (Suc p) True (uk es p) q \<longleftrightarrow> sel s es p sk k q"
proof -
  have o: "Compare c (uk es p) (uk es q) \<le> 0" using keys_ordered [OF P _ q(2), of p] q(1) by simp
  have split: "(\<forall>r. p \<le> r \<and> r < q \<longrightarrow> uk es r = uk es q \<longrightarrow> \<not> at_seq es r \<le> s) \<longleftrightarrow>
      (\<forall>r. Suc p \<le> r \<and> r < q \<longrightarrow> uk es r = uk es q \<longrightarrow> \<not> at_seq es r \<le> s) \<and> (uk es p = uk es q \<longrightarrow> \<not> at_seq es p \<le> s)"
    using q(1) by (metis Suc_leD Suc_leI le_neq_implies_less order_refl)
  show "\<not> at_seq es p \<le> s \<or> is_value es p \<and> sk \<and> Compare c (uk es p) k \<le> 0 \<Longrightarrow> sel s es (Suc p) sk k q \<longleftrightarrow> sel s es p sk k q"
    unfolding sel_def split by auto
  assume v: "at_seq es p \<le> s"
  have "Compare c (uk es q) (uk es p) \<le> 0 \<longleftrightarrow> uk es p = uk es q" using o le_antisym by auto
  moreover have "uk es p = uk es q" if "sk" "Compare c (uk es q) k \<le> 0" "at_seq es q \<le> s"
  proof -
    have "Compare c k (uk es p) \<le> 0" using b that(1) p v by auto
    then have "Compare c (uk es q) (uk es p) \<le> 0" using Compare_le_trans [of "uk es q" k "uk es p"] that(2) by simp
    then show ?thesis using o le_antisym by auto
  qed
  ultimately show "sel s es (Suc p) True (uk es p) q \<longleftrightarrow> sel s es p sk k q" unfolding sel_def split using v by auto
qed

lemma find_next:
  assumes P: "parsed_entries c es"
  shows "at_pos d s es p \<Longrightarrow> p < length es \<Longrightarrow> sk \<longrightarrow> (\<forall>q. p \<le> q \<and> q < length es \<and> at_seq es q \<le> s \<longrightarrow> Compare c (di_saved_key d) (uk es q) \<le> 0) \<Longrightarrow>
    di_direction d = kForward \<Longrightarrow> k = di_saved_key d \<Longrightarrow>
    \<exists>d' p'. FindNextUserEntry it sk d = Some d' \<and> at_pos d' s es p' \<and> di_direction d' = kForward \<and> p \<le> p' \<and> p' \<le> length es \<and>
      (\<forall>q. p \<le> q \<and> q < p' \<longrightarrow> \<not> sel s es p sk k q) \<and> (di_valid d' \<longleftrightarrow> p' < length es) \<and> (p' < length es \<longrightarrow> sel s es p sk k p')"
proof (induction "length es - p" arbitrary: d p sk k)
  case (Suc m)
  obtain hit sk' d1 where r: "next_round it sk d = Some (hit, sk', d1)" "at_pos d1 s es p" "di_direction d1 = kForward"
    "if \<not> at_seq es p \<le> s \<or> is_value es p \<and> sk \<and> Compare c (uk es p) k \<le> 0 then \<not> hit \<and> sk' = sk \<and> di_saved_key d1 = k
     else if is_value es p then hit \<and> di_valid d1 else \<not> hit \<and> sk' \<and> di_saved_key d1 = uk es p"
    using next_round_at [OF P Suc.prems(1,2), of sk] Suc.prems(4,5) by (metis (no_types, lifting))
  note S = sel_step [OF P Suc.prems(2), of sk s k]
  have k: "k = di_saved_key d" by (rule Suc.prems(5))
  show ?case
  proof (cases hit)
    case True
    then have s: "at_seq es p \<le> s" "is_value es p" "\<not> (sk \<and> Compare c (uk es p) k \<le> 0)" "di_valid d1" using r(4) by (auto split: if_splits)
    then have "sel s es p sk k p" by (auto simp: sel_def)
    then show ?thesis using r True s Suc.prems(2) by (intro exI [of _ d1] exI [of _ p]) (subst FindNextUserEntry.simps, auto)
  next
    case False
    let ?d = "d1\<lparr>di_iter := Next it (di_iter d1)\<rparr>"
    have i: "irep (di_iter ?d) es (Suc p)" using r(2) Suc.prems(2) by (simp add: at_pos_def inner.rep_Next)
    then have a: "at_pos ?d s es (Suc p)" using r(2) by (intro at_pos_frame [OF r(2)]) simp_all
    have V: "Valid it (di_iter ?d) \<longleftrightarrow> Suc p < length es" by (rule inner.rep_Valid [OF i])
    have ns: "\<not> sel s es p sk k p" using r(4) False by (auto simp: sel_def split: if_splits)
    have F: "FindNextUserEntry it sk d = (if Suc p < length es then FindNextUserEntry it sk' ?d else Some (?d\<lparr>di_saved_key := [], di_valid := False\<rparr>))"
      using r(1) False V by (subst FindNextUserEntry.simps) simp
    show ?thesis
    proof (cases "Suc p < length es")
      case e: False
      then have "Suc p = length es" using Suc.prems(2) by simp
      moreover have "at_pos (?d\<lparr>di_saved_key := [], di_valid := False\<rparr>) s es (Suc p)" using a by (simp add: at_pos_def)
      moreover have "\<not> sel s es p sk k q" if "p \<le> q" "q < Suc p" for q using that ns by (cases "q = p") simp_all
      ultimately show ?thesis using F e r(3)
        by (intro exI [of _ "?d\<lparr>di_saved_key := [], di_valid := False\<rparr>"] exI [of _ "Suc p"]) simp
    next
      case e: True
      have eq: "q > p \<Longrightarrow> q < length es \<Longrightarrow> sel s es (Suc p) sk' (di_saved_key ?d) q \<longleftrightarrow> sel s es p sk k q" for q
        using r(4) False S [of q] Suc.prems(3) k by (auto split: if_splits)
      have b: "sk' \<longrightarrow> (\<forall>q. Suc p \<le> q \<and> q < length es \<and> at_seq es q \<le> s \<longrightarrow> Compare c (di_saved_key ?d) (uk es q) \<le> 0)"
        using r(4) False Suc.prems(3) k keys_ordered [OF P] by (auto split: if_splits)
      have "m = length es - Suc p" using Suc.hyps(2) by simp
      from Suc.hyps(1) [OF this a e b _ refl] r(3) obtain d' p' where d': "FindNextUserEntry it sk' ?d = Some d'" "at_pos d' s es p'"
        "di_direction d' = kForward" "Suc p \<le> p'" "p' \<le> length es" "\<forall>q. Suc p \<le> q \<and> q < p' \<longrightarrow> \<not> sel s es (Suc p) sk' (di_saved_key ?d) q"
        "di_valid d' \<longleftrightarrow> p' < length es" "p' < length es \<longrightarrow> sel s es (Suc p) sk' (di_saved_key ?d) p'" by auto
      have "\<not> sel s es p sk k q" if "p \<le> q" "q < p'" for q
        using that ns d'(5,6) eq [of q] by (cases "q = p") auto
      then show ?thesis using F e d' eq [of p'] by (intro exI [of _ d'] exI [of _ p']) auto
    qed
  qed
qed simp

text \<open>The backward loop: what it knows after the positions from \<open>q\<close> to \<open>n\<close>.\<close>

definition shown_from :: "u64 \<Rightarrow> (bytes \<times> bytes) list \<Rightarrow> nat \<Rightarrow> nat \<Rightarrow> bool" where
  "shown_from s es q p \<longleftrightarrow> at_seq es p \<le> s \<and> is_value es p \<and> (\<forall>r. q \<le> r \<and> r < p \<longrightarrow> uk es r = uk es p \<longrightarrow> \<not> at_seq es r \<le> s)"

definition candidate :: "'s DBIter \<Rightarrow> u64 \<Rightarrow> (bytes \<times> bytes) list \<Rightarrow> nat \<Rightarrow> nat \<Rightarrow> nat \<Rightarrow> bool" where
  "candidate d s es q n v \<longleftrightarrow>
     q \<le> v \<and> v \<le> n \<and> at_seq es v \<le> s \<and> is_value es v \<and> (\<forall>r. q \<le> r \<and> r < v \<longrightarrow> \<not> at_seq es r \<le> s) \<and>
     di_saved_key d = uk es v \<and> di_saved_value d = snd (es ! v) \<and> (\<forall>p. q \<le> p \<and> p \<le> n \<and> shown_from s es q p \<longrightarrow> p = v)"

definition back_inv :: "'s DBIter \<Rightarrow> u64 \<Rightarrow> (bytes \<times> bytes) list \<Rightarrow> nat \<Rightarrow> nat \<Rightarrow> ValueType \<Rightarrow> bool" where
  "back_inv d s es q n vt \<longleftrightarrow>
     (if vt = kTypeDeletion then \<forall>p. q \<le> p \<and> p \<le> n \<longrightarrow> \<not> shown_from s es q p else \<exists>v. candidate d s es q n v)"

lemma prev_round_at:
  assumes P: "parsed_entries c es" and a: "at_pos d s es p" "p < length es"
  shows "\<exists>vt' d'. prev_round it vt d = Some (vt', d') \<and> at_pos d' s es p \<and> di_direction d' = di_direction d \<and>
    (if at_seq es p \<le> s \<and> vt = kTypeValue \<and> Compare c (uk es p) (di_saved_key d) < 0
       then vt' = None \<and> di_saved_key d' = di_saved_key d \<and> di_saved_value d' = di_saved_value d
     else if at_seq es p \<le> s
       then (if is_value es p then vt' = Some kTypeValue \<and> di_saved_key d' = uk es p \<and> di_saved_value d' = snd (es ! p) else vt' = Some kTypeDeletion)
     else vt' = Some vt \<and> di_saved_key d' = di_saved_key d \<and> di_saved_value d' = di_saved_value d)"
proof -
  obtain d' t where d': "ParseKey it d = Some (Some \<lparr>user_key = uk es p, sequence = at_seq es p, vtype = t\<rparr>, d')" "is_value es p \<longleftrightarrow> t = kTypeValue"
    "at_pos d' s es p" "di_saved_key d' = di_saved_key d" "di_saved_value d' = di_saved_value d" "di_direction d' = di_direction d"
    "ExtractUserKey (ikey it (di_iter d')) = uk es p" "ivalue it (di_iter d') = snd (es ! p)"
    using parse_at [OF P a] by metis
  have c: "di_comparator d' = c" "di_sequence d' = s" using d'(3) by (simp_all add: at_pos_def)
  show ?thesis using d' c by (cases t; cases vt) (auto simp: prev_round_def at_pos_def)
qed

lemma shown_from_Suc: "q < p \<Longrightarrow> shown_from s es q p \<longleftrightarrow> shown_from s es (Suc q) p \<and> (uk es q = uk es p \<longrightarrow> \<not> at_seq es q \<le> s)"
  unfolding shown_from_def by (metis Suc_leD Suc_leI le_neq_implies_less order_refl)

lemma back_step:
  assumes P: "parsed_entries c es" and I: "back_inv d s es (Suc p) n vt" and p: "p \<le> n" "n < length es"
    and r: "if at_seq es p \<le> s
       then (if is_value es p then vt' = kTypeValue \<and> di_saved_key d' = uk es p \<and> di_saved_value d' = snd (es ! p) else vt' = kTypeDeletion)
     else vt' = vt \<and> di_saved_key d' = di_saved_key d \<and> di_saved_value d' = di_saved_value d"
    and same: "at_seq es p \<le> s \<Longrightarrow> vt = kTypeValue \<Longrightarrow> \<not> Compare c (uk es p) (di_saved_key d) < 0"
  shows "back_inv d' s es p n vt'"
proof (cases "at_seq es p \<le> s")
  case False
  have "shown_from s es p q \<longleftrightarrow> shown_from s es (Suc p) q" if "q \<noteq> p" "p \<le> q" for q using that False shown_from_Suc [of p q] by auto
  moreover have "\<not> shown_from s es p p" using False by (simp add: shown_from_def)
  ultimately have S: "p \<le> q \<Longrightarrow> shown_from s es p q \<longleftrightarrow> Suc p \<le> q \<and> shown_from s es (Suc p) q" for q by (metis Suc_leI le_neq_implies_less not_less_eq_eq order_refl)
  show ?thesis
  proof (cases "vt = kTypeDeletion")
    case True
    then show ?thesis using I r False S by (simp add: back_inv_def)
  next
    case v: False
    then obtain v where v: "candidate d s es (Suc p) n v" using I by (auto simp: back_inv_def)
    have "\<not> at_seq es q \<le> s" if "p \<le> q" "q < v" for q using that False v by (cases "q = p") (auto simp: candidate_def)
    moreover have "q = v" if "p \<le> q" "q \<le> n" "shown_from s es p q" for q using that S [of q] v by (simp add: candidate_def)
    ultimately have "candidate d' s es p n v" using v r False by (simp add: candidate_def)
    then show ?thesis using r False \<open>vt \<noteq> kTypeDeletion\<close> by (auto simp: back_inv_def)
  qed
next
  case vis: True
  have none: "\<not> shown_from s es p q" if q: "p < q" "q \<le> n" for q
  proof
    assume sq: "shown_from s es p q"
    then have sf: "shown_from s es (Suc p) q" "uk es p \<noteq> uk es q" using shown_from_Suc [OF q(1)] vis by auto
    show False
    proof (cases "vt = kTypeDeletion")
      case True
      then show ?thesis using I sf(1) q by (simp add: back_inv_def)
    next
      case False
      then obtain v where v: "candidate d s es (Suc p) n v" using I by (auto simp: back_inv_def)
      then have "q = v" using sf(1) q by (simp add: candidate_def)
      moreover have "\<not> Compare c (uk es p) (uk es v) < 0" using same vis False v by (cases vt) (simp_all add: candidate_def)
      moreover have "Compare c (uk es p) (uk es v) \<le> 0" using keys_ordered [OF P] v p(2) by (simp add: candidate_def)
      ultimately show False using sf(2) Compare_zero [of "uk es p" "uk es v"] by simp
    qed
  qed
  show ?thesis
  proof (cases "is_value es p")
    case True
    then have "candidate d' s es p n p" using vis r p(1) none by (auto simp: candidate_def) (metis le_neq_implies_less)
    then show ?thesis using r vis True by (auto simp: back_inv_def)
  next
    case False
    then have "\<not> shown_from s es p q" if "p \<le> q" "q \<le> n" for q using that none by (cases "q = p") (auto simp: shown_from_def)
    then show ?thesis using r vis False by (simp add: back_inv_def)
  qed
qed

text \<open>Where the inner iterator stands when the entry shown is at \<open>v\<close> and the direction is backward.\<close>

definition rests :: "u64 \<Rightarrow> (bytes \<times> bytes) list \<Rightarrow> nat \<Rightarrow> nat \<Rightarrow> bool" where
  "rests s es r v \<longleftrightarrow>
     (r < v \<and> at_seq es r \<le> s \<and> Compare c (uk es r) (uk es v) < 0 \<and> (\<forall>q. r < q \<and> q < v \<longrightarrow> \<not> at_seq es q \<le> s)) \<or>
     (r = length es \<and> (\<forall>q < v. \<not> at_seq es q \<le> s))"

definition back_result :: "'s DBIter \<Rightarrow> u64 \<Rightarrow> (bytes \<times> bytes) list \<Rightarrow> nat \<Rightarrow> ValueType \<Rightarrow> bool" where
  "back_result d s es n vt \<longleftrightarrow>
     (if vt = kTypeDeletion then \<exists>r. at_pos d s es r \<and> (\<forall>p \<le> n. \<not> shown s es p)
      else \<exists>r v. at_pos d s es r \<and> rests s es r v \<and> v \<le> n \<and> shown s es v \<and> (\<forall>p. v < p \<and> p \<le> n \<longrightarrow> \<not> shown s es p) \<and>
        di_saved_key d = uk es v \<and> di_saved_value d = snd (es ! v))"

lemma shown_shown_from: "shown s es p \<Longrightarrow> shown_from s es q p" "shown_from s es 0 p \<Longrightarrow> shown s es p"
  by (simp_all add: shown_def shown_from_def)

lemma back_stop:
  assumes P: "parsed_entries c es" and v: "candidate d s es (Suc r) n v" and n: "n < length es" and a: "at_pos d s es r"
    and r: "at_seq es r \<le> s" "Compare c (uk es r) (uk es v) < 0" "r < length es"
  shows "back_result d s es n kTypeValue"
proof -
  have V: "Suc r \<le> v" "v \<le> n" "at_seq es v \<le> s" "is_value es v" "\<forall>q. Suc r \<le> q \<and> q < v \<longrightarrow> \<not> at_seq es q \<le> s"
    "di_saved_key d = uk es v" "di_saved_value d = snd (es ! v)" "\<And>p. Suc r \<le> p \<Longrightarrow> p \<le> n \<Longrightarrow> shown_from s es (Suc r) p \<Longrightarrow> p = v"
    using v by (auto simp: candidate_def)
  have "\<not> at_seq es q \<le> s" if "q < v" "uk es q = uk es v" for q
  proof (cases "q \<le> r")
    case True
    then have "Compare c (uk es q) (uk es r) \<le> 0" using keys_ordered [OF P _ r(3)] by simp
    then show ?thesis using Compare_le_less_trans [of "uk es q" "uk es r" "uk es v"] r(2) that(2) by simp
  qed (use V(5) that in simp)
  then have "shown s es v" using V(3,4) by (simp add: shown_def)
  moreover have "\<not> shown s es p" if "v < p" "p \<le> n" for p using V(8) [of p] V(1) shown_shown_from(1) [of s es p "Suc r"] that by auto
  moreover have "rests s es r v" using V(1,5) r by (simp add: rests_def Suc_le_eq)
  ultimately show ?thesis using a V(2,6,7) by (simp add: back_result_def) blast
qed

lemma back_end: "back_inv d s es 0 n vt \<Longrightarrow> at_pos d s es (length es) \<Longrightarrow> back_result d s es n vt"
proof (cases "vt = kTypeDeletion")
  case True
  assume "back_inv d s es 0 n vt" "at_pos d s es (length es)"
  then show ?thesis using True shown_shown_from(1) [of s es _ 0] by (simp add: back_inv_def back_result_def) blast
next
  case False
  assume I: "back_inv d s es 0 n vt" and a: "at_pos d s es (length es)"
  obtain v where v: "candidate d s es 0 n v" using I False by (auto simp: back_inv_def)
  then have "shown s es v" by (simp add: candidate_def shown_def)
  moreover have "\<not> shown s es p" if "v < p" "p \<le> n" for p using v shown_shown_from(1) [of s es p 0] that by (auto simp: candidate_def)
  moreover have "rests s es (length es) v" using v by (simp add: rests_def candidate_def)
  ultimately show ?thesis using False a v by (simp add: back_result_def candidate_def) blast
qed

lemma prev_loop_at:
  assumes P: "parsed_entries c es" and n: "n < length es"
  shows "at_pos d s es p \<Longrightarrow> p \<le> n \<Longrightarrow> back_inv d s es (Suc p) n vt \<Longrightarrow>
    \<exists>vt' d'. prev_loop it vt d = Some (vt', d') \<and> back_result d' s es n vt' \<and> di_direction d' = di_direction d"
proof (induction p arbitrary: d vt rule: less_induct)
  case (less p)
  have p: "p < length es" using less.prems(2) n by simp
  obtain vt' d1 where r: "prev_round it vt d = Some (vt', d1)" "at_pos d1 s es p" "di_direction d1 = di_direction d"
    "if at_seq es p \<le> s \<and> vt = kTypeValue \<and> Compare c (uk es p) (di_saved_key d) < 0
       then vt' = None \<and> di_saved_key d1 = di_saved_key d \<and> di_saved_value d1 = di_saved_value d
     else if at_seq es p \<le> s
       then (if is_value es p then vt' = Some kTypeValue \<and> di_saved_key d1 = uk es p \<and> di_saved_value d1 = snd (es ! p) else vt' = Some kTypeDeletion)
     else vt' = Some vt \<and> di_saved_key d1 = di_saved_key d \<and> di_saved_value d1 = di_saved_value d"
    using prev_round_at [OF P less.prems(1) p] by blast
  show ?case
  proof (cases vt')
    case None
    then have b: "at_seq es p \<le> s" "vt = kTypeValue" "Compare c (uk es p) (di_saved_key d) < 0" "di_saved_key d1 = di_saved_key d" "di_saved_value d1 = di_saved_value d"
      using r(4) by (auto split: if_splits)
    obtain v where "candidate d s es (Suc p) n v" using less.prems(3) b(2) by (auto simp: back_inv_def)
    then have "candidate d1 s es (Suc p) n v" "di_saved_key d = uk es v" using b(4,5) by (simp_all add: candidate_def)
    then have "back_result d1 s es n kTypeValue" using back_stop [OF P _ n r(2) b(1) _ p] b(3) by simp
    then show ?thesis using r b(2) None by (subst prev_loop.simps) simp
  next
    case (Some vt2)
    let ?d = "d1\<lparr>di_iter := Prev it (di_iter d1)\<rparr>"
    have I1: "back_inv d1 s es p n vt2"
      by (rule back_step [OF P less.prems(3,2) n]) (use r(4) Some in \<open>auto split: if_splits\<close>)
    moreover have "candidate ?d s es p n v \<longleftrightarrow> candidate d1 s es p n v" for v by (simp add: candidate_def)
    ultimately have I: "back_inv ?d s es p n vt2" by (simp add: back_inv_def)
    have i: "irep (di_iter ?d) es (if p = 0 then length es else p - 1)" using r(2) p inner.rep_Prev by (simp add: at_pos_def)
    have a: "at_pos ?d s es (if p = 0 then length es else p - 1)" by (rule at_pos_frame [OF r(2) i]) simp_all
    have V: "Valid it (di_iter ?d) \<longleftrightarrow> p \<noteq> 0" using inner.rep_Valid [OF i] p by auto
    have L: "prev_loop it vt d = (if p \<noteq> 0 then prev_loop it vt2 ?d else Some (vt2, ?d))" using r(1) Some V by (subst prev_loop.simps) simp
    show ?thesis
    proof (cases p)
      case 0
      then show ?thesis using L back_end [of ?d s es n vt2] I a r(3) by simp
    next
      case (Suc q)
      then show ?thesis using L less.IH [of q ?d vt2] I a r(3) less.prems(2) by simp
    qed
  qed
qed

text \<open>The scan back over the entries of a key.\<close>

lemma turn_loop_at:
  assumes P: "parsed_entries c es" and p: "p < length es"
  shows "at_pos d s es q \<Longrightarrow> q \<le> p \<Longrightarrow> di_saved_key d = uk es p \<Longrightarrow> uk es q = uk es p \<Longrightarrow>
    \<exists>b d' r. turn_loop it d = Some (b, d') \<and> at_pos d' s es r \<and> di_direction d' = di_direction d \<and>
      (if b then r = length es \<and> (\<forall>x \<le> p. uk es x = uk es p) else r < p \<and> Compare c (uk es r) (uk es p) < 0 \<and> (\<forall>x. r < x \<and> x \<le> p \<longrightarrow> uk es x = uk es p))"
proof (induction q arbitrary: d rule: less_induct)
  case (less q)
  let ?d = "d\<lparr>di_iter := Prev it (di_iter d)\<rparr>"
  have q: "q < length es" using less.prems(2) p by simp
  have i: "irep (di_iter ?d) es (if q = 0 then length es else q - 1)" using less.prems(1) q inner.rep_Prev by (simp add: at_pos_def)
  have a: "at_pos ?d s es (if q = 0 then length es else q - 1)" by (rule at_pos_frame [OF less.prems(1) i]) simp_all
  have V: "Valid it (di_iter ?d) \<longleftrightarrow> q \<noteq> 0" using inner.rep_Valid [OF i] q by auto
  have c: "di_comparator d = c" using less.prems(1) by (simp add: at_pos_def)
  have same: "uk es x = uk es p" if "q \<le> x" "x \<le> p" for x
    using keys_ordered [OF P, of q x] keys_ordered [OF P, of x p] that p less.prems(4) le_antisym by auto
  show ?case
  proof (cases q)
    case 0
    then have "turn_loop it d = Some (True, ?d)" using V by (subst turn_loop.simps) simp
    moreover have "at_pos ?d s es (length es)" "di_direction ?d = di_direction d" using a 0 by simp_all
    moreover have "\<forall>x \<le> p. uk es x = uk es p" using same 0 by blast
    ultimately show ?thesis by (intro exI [of _ True] exI [of _ ?d] exI [of _ "length es"]) (unfold if_True, blast)
  next
    case (Suc r)
    have k: "ExtractUserKey (ikey it (di_iter ?d)) = uk es r" using inner.rep_key [OF i] Suc q by (simp add: uk_def)
    have L: "turn_loop it d = (if Compare c (uk es r) (uk es p) < 0 then Some (False, ?d) else turn_loop it ?d)"
      using V k c Suc less.prems(3) by (subst turn_loop.simps) simp
    show ?thesis
    proof (cases "Compare c (uk es r) (uk es p) < 0")
      case True
      then have "turn_loop it d = Some (False, ?d)" using L by simp
      moreover have "at_pos ?d s es r" "di_direction ?d = di_direction d" "r < p" using a Suc less.prems(2) by simp_all
      moreover have "\<forall>x. r < x \<and> x \<le> p \<longrightarrow> uk es x = uk es p" using same Suc by (metis Suc_leI)
      ultimately show ?thesis using True by (intro exI [of _ False] exI [of _ ?d] exI [of _ r]) (unfold if_False, blast)
    next
      case False
      then have "uk es r = uk es p" using keys_ordered [OF P, of r p] Suc less.prems(2) p Compare_zero [of "uk es r" "uk es p"] by simp
      then obtain b d' x where "turn_loop it ?d = Some (b, d')" "at_pos d' s es x" "di_direction d' = di_direction d"
        "if b then x = length es \<and> (\<forall>y \<le> p. uk es y = uk es p) else x < p \<and> Compare c (uk es x) (uk es p) < 0 \<and> (\<forall>y. x < y \<and> y \<le> p \<longrightarrow> uk es y = uk es p)"
        using less.IH [of r ?d] a Suc less.prems(2,3) by auto
      moreover have "turn_loop it d = turn_loop it ?d" using L False by simp
      ultimately show ?thesis by (intro exI [of _ b] exI [of _ d'] exI [of _ x]) (metis (no_types))
    qed
  qed
qed

section \<open>The iterator reads the view\<close>

definition db_rep :: "u64 \<Rightarrow> (bytes \<times> bytes) list \<Rightarrow> 's DBIter option \<Rightarrow> (bytes \<times> bytes) list \<Rightarrow> nat \<Rightarrow> bool" where
  "db_rep s es st view i \<longleftrightarrow> parsed_entries c es \<and> s \<le> kMaxSequenceNumber \<and> view = snapshot_view s es \<and>
     (\<exists>d r. st = Some d \<and> at_pos d s es r \<and>
       (if di_valid d then \<exists>p < length es. shown s es p \<and> i = shown_before s es p \<and>
          (if di_direction d = kForward then r = p else rests s es r p \<and> di_saved_key d = uk es p \<and> di_saved_value d = snd (es ! p))
        else i = length view))"

lemma back_result_rep:
  assumes P: "parsed_entries c es" "s \<le> kMaxSequenceNumber" and n: "n < length es" and r: "back_result d s es n vt" and d: "di_direction d = kReverse"
    and i: "i = shown_before s es (Suc n)"
  shows "db_rep s es (Some (if vt = kTypeDeletion then d\<lparr>di_valid := False, di_saved_key := [], di_saved_value := [], di_direction := kForward\<rparr> else d\<lparr>di_valid := True\<rparr>))
    (snapshot_view s es) (if i = 0 then length (snapshot_view s es) else i - 1)"
proof (cases "vt = kTypeDeletion")
  case True
  then obtain x where x: "at_pos d s es x" "\<forall>p \<le> n. \<not> shown s es p" using r by (auto simp: back_result_def)
  have "shown_before s es (Suc n) = shown_before s es 0" using x(2) by (intro shown_before_eq) auto
  then have "i = 0" using i by (simp add: shown_before_def)
  then show ?thesis using x(1) True P by (auto simp: db_rep_def at_pos_def)
next
  case False
  then obtain x v where x: "at_pos d s es x" "rests s es x v" "v \<le> n" "shown s es v" "\<And>p. v < p \<Longrightarrow> p \<le> n \<Longrightarrow> \<not> shown s es p"
    "di_saved_key d = uk es v" "di_saved_value d = snd (es ! v)" using r by (auto simp: back_result_def)
  have "shown_before s es (Suc n) = shown_before s es (Suc v)" using x(3,5) by (intro shown_before_eq) (auto simp: Suc_le_eq less_Suc_eq_le)
  then have "i = Suc (shown_before s es v)" using i x(4) by (simp add: shown_before_Suc)
  then show ?thesis using x False P n d unfolding db_rep_def
    by (intro conjI exI [of _ "d\<lparr>di_valid := True\<rparr>"] exI [of _ x]) (auto simp: at_pos_def intro!: exI [of _ v])
qed

lemma FindPrev_rep:
  assumes P: "parsed_entries c es" "s \<le> kMaxSequenceNumber" and a: "at_pos d s es n" and n: "n < length es" and d: "di_direction d = kReverse"
    and i: "i = shown_before s es (Suc n)"
  shows "db_rep s es (FindPrevUserEntry it d) (snapshot_view s es) (if i = 0 then length (snapshot_view s es) else i - 1)"
proof -
  have "back_inv d s es (Suc n) n kTypeDeletion" by (auto simp: back_inv_def)
  then obtain vt d' where d': "prev_loop it kTypeDeletion d = Some (vt, d')" "back_result d' s es n vt" "di_direction d' = kReverse"
    using prev_loop_at [OF P(1) n a le_refl] d by metis
  have "Valid it (di_iter d)" using a n inner.rep_Valid by (auto simp: at_pos_def)
  then have F: "FindPrevUserEntry it d = Some (if vt = kTypeDeletion
      then d'\<lparr>di_valid := False, di_saved_key := [], di_saved_value := [], di_direction := kForward\<rparr> else d'\<lparr>di_valid := True\<rparr>)"
    using d'(1) by (simp add: FindPrevUserEntry_def)
  show ?thesis unfolding F by (rule back_result_rep [OF P n d'(2,3) i])
qed

lemma FindNext_rep:
  assumes P: "parsed_entries c es" "s \<le> kMaxSequenceNumber" and a: "at_pos d s es p" and p: "p < length es" and d: "di_direction d = kForward"
    and b: "sk \<longrightarrow> (\<forall>q. p \<le> q \<and> q < length es \<and> at_seq es q \<le> s \<longrightarrow> Compare c (di_saved_key d) (uk es q) \<le> 0)"
    and S: "\<And>q. p \<le> q \<Longrightarrow> q < length es \<Longrightarrow> sel s es p sk (di_saved_key d) q \<longleftrightarrow> m \<le> q \<and> shown s es q"
    and i: "i = shown_before s es m" and m: "p \<le> m" "m \<le> length es"
  shows "db_rep s es (FindNextUserEntry it sk d) (snapshot_view s es) i"
proof -
  obtain d' p' where d': "FindNextUserEntry it sk d = Some d'" "at_pos d' s es p'" "di_direction d' = kForward" "p \<le> p'" "p' \<le> length es"
    "\<forall>q. p \<le> q \<and> q < p' \<longrightarrow> \<not> sel s es p sk (di_saved_key d) q" "di_valid d' \<longleftrightarrow> p' < length es" "p' < length es \<longrightarrow> sel s es p sk (di_saved_key d) p'"
    using find_next [OF P(1) a p b d refl] by blast
  have none: "\<not> shown s es q" if "m \<le> q" "q < p'" for q using S [of q] d'(5,6) that m(1) by auto
  show ?thesis
  proof (cases "p' < length es")
    case True
    then have "m \<le> p'" "shown s es p'" using S [of p'] d'(4,8) by auto
    moreover have "i = shown_before s es p'" using shown_before_eq [of m p' s es] none i \<open>m \<le> p'\<close> by auto
    ultimately show ?thesis using d' True P by (auto simp: db_rep_def)
  next
    case False
    then have e: "p' = length es" using d'(5) by simp
    have "i = length (snapshot_view s es)"
      using shown_before_eq [of m "length es" s es] none i e m(2) by (auto simp: length_view)
    then show ?thesis using d' False P by (auto simp: db_rep_def)
  qed
qed

lemma sel_after:
  assumes P: "parsed_entries c es" and p: "p < length es" "shown s es p" and x: "x \<le> Suc p" "\<And>q. x \<le> q \<Longrightarrow> q < p \<Longrightarrow> \<not> at_seq es q \<le> s"
  shows "x \<le> q \<Longrightarrow> q < length es \<Longrightarrow> sel s es x True (uk es p) q \<longleftrightarrow> Suc p \<le> q \<and> shown s es q"
    "x \<le> q \<Longrightarrow> q < length es \<Longrightarrow> at_seq es q \<le> s \<Longrightarrow> Compare c (uk es p) (uk es q) \<le> 0"
proof -
  assume q: "x \<le> q" "q < length es"
  show b: "Compare c (uk es p) (uk es q) \<le> 0" if "at_seq es q \<le> s" using x(2) [OF q(1)] that keys_ordered [OF P _ q(2), of p] by (cases "q < p") auto
  show "sel s es x True (uk es p) q \<longleftrightarrow> Suc p \<le> q \<and> shown s es q"
  proof
    assume S: "sel s es x True (uk es p) q"
    then have v: "at_seq es q \<le> s" "is_value es q" "\<not> Compare c (uk es q) (uk es p) \<le> 0" by (auto simp: sel_def)
    have gt: "p < q" using x(2) [OF q(1)] v Compare_refl [of "uk es p"] by (cases "q < p"; cases "q = p") auto
    have "\<not> at_seq es r \<le> s" if r: "r < q" "uk es r = uk es q" for r
    proof (cases "x \<le> r")
      case True
      then show ?thesis using S r by (auto simp: sel_def)
    next
      case False
      then have "Compare c (uk es r) (uk es p) \<le> 0" using keys_ordered [OF P _ p(1)] x(1) by simp
      then show ?thesis using v(3) r(2) by simp
    qed
    then show "Suc p \<le> q \<and> shown s es q" using gt v by (simp add: shown_def)
  next
    assume S: "Suc p \<le> q \<and> shown s es q"
    have "\<not> Compare c (uk es q) (uk es p) \<le> 0"
    proof
      assume "Compare c (uk es q) (uk es p) \<le> 0"
      then have "uk es p = uk es q" using le_antisym keys_ordered [OF P _ q(2), of p] S by simp
      then show False using S p(2) by (auto simp: shown_def)
    qed
    then show "sel s es x True (uk es p) q" using S by (auto simp: sel_def shown_def)
  qed
qed

lemma seek_position:
  assumes P: "parsed_entries c es" "s \<le> kMaxSequenceNumber"
    and p_def: "p = lower_bound (InternalKeyComparator c) es (InternalKey target s kTypeValue)"
  shows "q < p \<Longrightarrow> at_seq es q \<le> s \<Longrightarrow> Compare c (uk es q) target < 0" "p \<le> q \<Longrightarrow> q < length es \<Longrightarrow> \<not> Compare c (uk es q) target < 0"
proof -
  have L: "InternalKey_Compare c (fst (es ! q)) (InternalKey target s kTypeValue) < 0 \<longleftrightarrow> Compare c (uk es q) target < 0 \<or> uk es q = target \<and> at_seq es q > s"
    if "q < length es" for q
  proof -
    obtain t where t: "fst (es ! q) = InternalKey (uk es q) (at_seq es q) t" "at_seq es q \<le> kMaxSequenceNumber" using parsed_nth [OF P(1) \<open>q < length es\<close>] by metis
    show ?thesis using InternalKey_Compare_keys [OF total_comparator_axioms t(2) P(2), of "uk es q" t target kTypeValue] t(1) by (cases t) auto
  qed
  assume q: "q < p" "at_seq es q \<le> s"
  have "q < length es" using q(1) lower_bound_le [of "InternalKeyComparator c" es "InternalKey target s kTypeValue"] unfolding p_def by simp
  moreover have "InternalKey_Compare c (fst (es ! q)) (InternalKey target s kTypeValue) < 0"
    using lower_bound_less [of q "InternalKeyComparator c" es "InternalKey target s kTypeValue"] q(1) unfolding p_def by simp
  ultimately show "Compare c (uk es q) target < 0" using L [of q] q(2) by (auto simp: not_less)
next
  assume q: "p \<le> q" "q < length es"
  then have p: "p < length es" by simp
  have "\<not> InternalKey_Compare c (fst (es ! p)) (InternalKey target s kTypeValue) < 0" using lower_bound_ge [of "InternalKeyComparator c" es] p unfolding p_def by simp
  then have "\<not> Compare c (uk es p) target < 0"
    using P(1) by (auto simp: InternalKey_Compare_less uk_def InternalKey_eq)
  then show "\<not> Compare c (uk es q) target < 0" using keys_ordered [OF P(1) q] Compare_le_less_trans [of "uk es p" "uk es q" target] by blast
qed

lemma view_lower_bound:
  assumes P: "parsed_entries c es" "s \<le> kMaxSequenceNumber"
  shows "lower_bound c (snapshot_view s es) target = shown_before s es (lower_bound (InternalKeyComparator c) es (InternalKey target s kTypeValue))"
proof (rule lower_bound_unique)
  let ?p = "lower_bound (InternalKeyComparator c) es (InternalKey target s kTypeValue)"
  show le: "shown_before s es ?p \<le> length (snapshot_view s es)" using shown_before_mono [OF lower_bound_le] by (simp add: length_view)
  fix j assume j: "j < shown_before s es ?p"
  then obtain x where x: "x < length es" "shown s es x" "shown_before s es x = j" using view_position le by (metis less_le_trans)
  then have "x < ?p" using j shown_before_mono [of ?p x s es] by (metis leI not_less)
  then show "Compare c (fst (snapshot_view s es ! j)) target < 0" using seek_position(1) [OF P refl, of x target] view_nth(2) [OF x(2,1)] x by (simp add: shown_def)
next
  let ?p = "lower_bound (InternalKeyComparator c) es (InternalKey target s kTypeValue)"
  assume m: "shown_before s es ?p < length (snapshot_view s es)"
  then obtain x where x: "x < length es" "shown s es x" "shown_before s es x = shown_before s es ?p" using view_position by metis
  then have "?p \<le> x" using shown_before_mono [of "Suc x" ?p s es] by (cases "x < ?p") (simp_all add: shown_before_Suc Suc_le_eq)
  then show "\<not> Compare c (fst (snapshot_view s es ! shown_before s es ?p)) target < 0"
    using seek_position(2) [OF P refl, of target x] view_nth(2) [OF x(2,1)] x by simp
qed

lemma db_repE:
  assumes "db_rep s es st view i"
  obtains (invalid) d r where "parsed_entries c es" "s \<le> kMaxSequenceNumber" "view = snapshot_view s es" "st = Some d" "at_pos d s es r" "\<not> di_valid d" "i = length view"
  | (forward) d p where "parsed_entries c es" "s \<le> kMaxSequenceNumber" "view = snapshot_view s es" "st = Some d" "at_pos d s es p" "di_valid d"
      "di_direction d = kForward" "p < length es" "shown s es p" "i = shown_before s es p"
  | (backward) d p r where "parsed_entries c es" "s \<le> kMaxSequenceNumber" "view = snapshot_view s es" "st = Some d" "at_pos d s es r" "di_valid d"
      "di_direction d = kReverse" "p < length es" "shown s es p" "i = shown_before s es p" "rests s es r p" "di_saved_key d = uk es p" "di_saved_value d = snd (es ! p)"
proof -
  obtain d r where d: "parsed_entries c es" "s \<le> kMaxSequenceNumber" "view = snapshot_view s es" "st = Some d" "at_pos d s es r"
    "if di_valid d then \<exists>p < length es. shown s es p \<and> i = shown_before s es p \<and>
          (if di_direction d = kForward then r = p else rests s es r p \<and> di_saved_key d = uk es p \<and> di_saved_value d = snd (es ! p))
        else i = length view" using assms by (auto simp: db_rep_def)
  show ?thesis
  proof (cases "di_valid d")
    case True
    then obtain p where p: "p < length es" "shown s es p" "i = shown_before s es p"
      "if di_direction d = kForward then r = p else rests s es r p \<and> di_saved_key d = uk es p \<and> di_saved_value d = snd (es ! p)" using d(6) by auto
    show ?thesis
    proof (cases "di_direction d")
      case kForward
      then show ?thesis using forward [OF d(1-4) _ True kForward p(1-3)] d(5) p(4) by simp
    next
      case kReverse
      then show ?thesis using backward [OF d(1-5) True kReverse p(1-3)] p(4) by simp
    qed
  next
    case False
    then show ?thesis using invalid [OF d(1-5)] d(6) by simp
  qed
qed

lemma db_rep_anywhere:
  assumes "db_rep s es st view i"
  obtains d r where "parsed_entries c es" "s \<le> kMaxSequenceNumber" "view = snapshot_view s es" "st = Some d" "at_pos d s es r"
  using assms by (auto simp: db_rep_def)

lemma di_SeekToFirst_rep:
  assumes P: "parsed_entries c es" "s \<le> kMaxSequenceNumber" and a: "at_pos d s es r"
  shows "db_rep s es (di_SeekToFirst it d) (snapshot_view s es) 0"
proof -
  let ?d = "d\<lparr>di_direction := kForward, di_saved_value := [], di_iter := SeekToFirst it (di_iter d)\<rparr>"
  have i: "irep (di_iter ?d) es 0" using a inner.rep_SeekToFirst [of "di_iter d" es r] by (simp add: at_pos_def)
  have a': "at_pos ?d s es 0" by (rule at_pos_frame [OF a i]) simp_all
  show ?thesis
  proof (cases "0 < length es")
    case False
    then have "di_SeekToFirst it d = Some (?d\<lparr>di_valid := False\<rparr>)" using inner.rep_Valid [OF i] by (simp add: di_SeekToFirst_def)
    moreover have "at_pos (?d\<lparr>di_valid := False\<rparr>) s es 0" using a' by (simp add: at_pos_def)
    ultimately show ?thesis using P False by (auto simp: db_rep_def length_view shown_before_def)
  next
    case True
    then have "di_SeekToFirst it d = FindNextUserEntry it False ?d" using inner.rep_Valid [OF i] by (simp add: di_SeekToFirst_def)
    then show ?thesis using FindNext_rep [OF P a' True, of False 0 0] by (simp add: sel_def shown_def shown_before_def)
  qed
qed

lemma di_Seek_rep:
  assumes P: "parsed_entries c es" "s \<le> kMaxSequenceNumber" and a: "at_pos d s es r"
  shows "db_rep s es (di_Seek it d target) (snapshot_view s es) (lower_bound c (snapshot_view s es) target)"
proof -
  let ?k = "InternalKey target s kTypeValue" let ?p = "lower_bound (InternalKeyComparator c) es ?k"
  let ?d = "d\<lparr>di_direction := kForward, di_saved_value := [], di_saved_key := ?k, di_iter := Seek it (di_iter d) ?k\<rparr>"
  have i: "irep (di_iter ?d) es ?p" using a inner.rep_Seek [of "di_iter d" es r ?k] by (simp add: at_pos_def InternalKey_eq)
  have a': "at_pos ?d s es ?p" by (rule at_pos_frame [OF a i]) simp_all
  have k: "AppendInternalKey [] \<lparr>user_key = target, sequence = di_sequence d, vtype = kValueTypeForSeek\<rparr> = ?k"
    using a by (simp add: at_pos_def InternalKey_def kValueTypeForSeek_def)
  have D: "di_Seek it d target = (if ?p < length es then FindNextUserEntry it False ?d else Some (?d\<lparr>di_valid := False\<rparr>))"
    using inner.rep_Valid [OF i] by (simp add: di_Seek_def k Let_def)
  note v = view_lower_bound [OF P, of target]
  show ?thesis
  proof (cases "?p < length es")
    case False
    then have "?p = length es" using lower_bound_le [of "InternalKeyComparator c" es ?k] by simp
    moreover have "at_pos (?d\<lparr>di_valid := False\<rparr>) s es ?p" using a' by (simp add: at_pos_def)
    ultimately show ?thesis using P False v unfolding D by (auto simp: db_rep_def length_view)
  next
    case True
    have "sel s es ?p False ?k q \<longleftrightarrow> ?p \<le> q \<and> shown s es q" if q: "?p \<le> q" "q < length es" for q
    proof -
      have "\<not> at_seq es x \<le> s" if "x < ?p" "uk es x = uk es q" for x
        using seek_position(1) [OF P refl, of x target] seek_position(2) [OF P refl, of target q] q that by auto
      then show ?thesis using q(1) unfolding sel_def shown_def by (metis not_less)
    qed
    then show ?thesis using FindNext_rep [OF P a' True, of False ?p] True unfolding D v by simp
  qed
qed

lemma di_SeekToLast_rep:
  assumes P: "parsed_entries c es" "s \<le> kMaxSequenceNumber" and a: "at_pos d s es r"
  shows "db_rep s es (di_SeekToLast it d) (snapshot_view s es) (length (snapshot_view s es) - 1)"
proof -
  let ?d = "d\<lparr>di_direction := kReverse, di_saved_value := [], di_iter := SeekToLast it (di_iter d)\<rparr>"
  have i: "irep (di_iter ?d) es (length es - 1)" using a inner.rep_SeekToLast [of "di_iter d" es r] by (simp add: at_pos_def)
  have a': "at_pos ?d s es (length es - 1)" by (rule at_pos_frame [OF a i]) simp_all
  have D: "di_SeekToLast it d = FindPrevUserEntry it ?d" by (simp add: di_SeekToLast_def)
  show ?thesis
  proof (cases "es = []")
    case True
    then have "\<not> Valid it (di_iter ?d)" using inner.rep_Valid [OF i] by simp
    then show ?thesis using True P a' unfolding D by (auto simp: FindPrevUserEntry_def db_rep_def at_pos_def length_view shown_before_def)
  next
    case False
    then show ?thesis using FindPrev_rep [OF P a' _ _ refl] unfolding D by (simp add: length_view split: if_splits)
  qed
qed

lemma di_Next_rep:
  assumes r: "db_rep s es (Some d) view i" and i: "i < length view"
  shows "db_rep s es (di_Next it d) view (Suc i)"
  using r
proof (cases rule: db_repE)
  case (forward d' p)
  let ?d = "d\<lparr>di_saved_key := uk es p, di_iter := Next it (di_iter d)\<rparr>"
  have [simp]: "d' = d" using forward by simp
  have ii: "irep (di_iter d) es p" using forward by (simp add: at_pos_def)
  have i': "irep (di_iter ?d) es (Suc p)" using inner.rep_Next [OF ii] forward by simp
  have a: "at_pos ?d s es (Suc p)" by (rule at_pos_frame [OF forward(5)]) (use i' in simp_all)
  have D: "di_Next it d = (if Suc p < length es then FindNextUserEntry it True ?d else Some (di_invalid ?d))"
    using inner.rep_Valid [OF i'] inner.rep_key [OF ii] forward by (simp add: di_Next_def Let_def uk_def)
  have S: "shown_before s es (Suc p) = Suc i" using forward by (simp add: shown_before_Suc)
  show ?thesis
  proof (cases "Suc p < length es")
    case True
    note A = sel_after [OF forward(1,8,9) order_refl]
    show ?thesis unfolding D using True FindNext_rep [OF forward(1,2) a True, of True "Suc p" "Suc i"] A forward S by simp
  next
    case False
    then have "Suc p = length es" using forward by simp
    moreover have "at_pos (di_invalid ?d) s es (Suc p)" "\<not> di_valid (di_invalid ?d)" using a by (simp_all add: at_pos_def di_invalid_def)
    moreover have "Suc i = length view" using S forward(3) \<open>Suc p = length es\<close> by (metis length_view)
    ultimately show ?thesis unfolding D using False forward(1-3) by (auto simp: db_rep_def)
  qed
next
  case (backward d' p x)
  have [simp]: "d' = d" using backward by simp
  let ?y = "if x < length es then Suc x else 0"
  let ?d = "d\<lparr>di_direction := kForward, di_iter := if x < length es then Next it (di_iter d) else SeekToFirst it (di_iter d)\<rparr>"
  have ii: "irep (di_iter d) es x" using backward by (simp add: at_pos_def)
  have i': "irep (di_iter ?d) es ?y" using inner.rep_Next [OF ii] inner.rep_SeekToFirst [OF ii] by simp
  have a: "at_pos ?d s es ?y" by (rule at_pos_frame [OF backward(5)]) (use i' in simp_all)
  have y: "?y \<le> p" "\<And>q. ?y \<le> q \<Longrightarrow> q < p \<Longrightarrow> \<not> at_seq es q \<le> s" using backward(8,11) by (auto simp: rests_def Suc_le_eq split: if_splits)
  have D: "di_Next it d = FindNextUserEntry it True ?d"
    using inner.rep_Valid [OF i'] inner.rep_Valid [OF ii] backward y by (auto simp: di_Next_def Let_def)
  have S: "shown_before s es (Suc p) = Suc i" using backward by (simp add: shown_before_Suc)
  define z where "z = ?y"
  have z: "z \<le> Suc p" "z < length es" "\<And>q. z \<le> q \<Longrightarrow> q < p \<Longrightarrow> \<not> at_seq es q \<le> s" using y backward(8) unfolding z_def by simp_all
  note A = sel_after [OF backward(1,8,9) z(1,3)]
  show ?thesis unfolding D backward(3)
    by (rule FindNext_rep [OF backward(1,2) a [folded z_def] z(2), of True "Suc p"]) (use A z backward S in simp_all)
qed (use i in simp)

lemma di_Prev_rep:
  assumes r: "db_rep s es (Some d) view i" and i: "i < length view"
  shows "db_rep s es (di_Prev it d) view (if i = 0 then length view else i - 1)"
  using r
proof (cases rule: db_repE)
  case (forward d' p)
  have [simp]: "d' = d" using forward by simp
  let ?d = "d\<lparr>di_saved_key := uk es p\<rparr>"
  have ii: "irep (di_iter d) es p" using forward by (simp add: at_pos_def)
  have a: "at_pos ?d s es p" by (rule at_pos_frame [OF forward(5)]) (use ii in simp_all)
  obtain b d1 x where t: "turn_loop it ?d = Some (b, d1)" "at_pos d1 s es x" "di_direction d1 = kForward"
    "if b then x = length es \<and> (\<forall>y \<le> p. uk es y = uk es p) else x < p \<and> Compare c (uk es x) (uk es p) < 0 \<and> (\<forall>y. x < y \<and> y \<le> p \<longrightarrow> uk es y = uk es p)"
    using turn_loop_at [OF forward(1,8) a] forward(7) by auto
  have D: "di_Prev it d = (if b then Some (d1\<lparr>di_valid := False, di_saved_key := [], di_saved_value := []\<rparr>) else FindPrevUserEntry it (d1\<lparr>di_direction := kReverse\<rparr>))"
    using t(1) forward(7) inner.rep_key [OF ii forward(8)] by (simp add: di_Prev_def uk_def)
  have hid: "\<not> shown s es y" if "y < p" "uk es y = uk es p" for y using forward(9) that by (auto simp: shown_def)
  show ?thesis
  proof (cases b)
    case True
    then have "\<not> shown s es y" if "y < p" for y using t(4) hid that by (metis less_imp_le)
    then have "shown_before s es p = shown_before s es 0" by (intro shown_before_eq) auto
    then have "i = 0" using forward(10) by (simp add: shown_before_def)
    moreover have "at_pos (d1\<lparr>di_valid := False, di_saved_key := [], di_saved_value := []\<rparr>) s es x" using t(2) by (simp add: at_pos_def)
    ultimately show ?thesis unfolding D using True forward(1-3) by (auto simp: db_rep_def)
  next
    case False
    then have x: "x < p" using t(4) by metis
    have "\<not> shown s es y" if "x < y" "y < p" for y using t(4) False hid that by (metis less_imp_le)
    then have "shown_before s es p = shown_before s es (Suc x)" using x by (intro shown_before_eq) (auto simp: Suc_le_eq)
    moreover have "at_pos (d1\<lparr>di_direction := kReverse\<rparr>) s es x" "x < length es" using t(2) x forward(8) by (auto simp: at_pos_def)
    ultimately show ?thesis unfolding D using FindPrev_rep [OF forward(1,2), of "d1\<lparr>di_direction := kReverse\<rparr>" x i] False forward(3,10) by (auto split: if_splits)
  qed
next
  case (backward d' p x)
  have [simp]: "d' = d" using backward by simp
  have D: "di_Prev it d = FindPrevUserEntry it d" using backward(7) by (simp add: di_Prev_def)
  show ?thesis
  proof (cases "x < length es")
    case True
    then have "x < p" "\<And>q. x < q \<Longrightarrow> q < p \<Longrightarrow> \<not> at_seq es q \<le> s" using backward(11) by (auto simp: rests_def)
    then have "shown_before s es p = shown_before s es (Suc x)" by (intro shown_before_eq) (auto simp: shown_def Suc_le_eq)
    then show ?thesis unfolding D using FindPrev_rep [OF backward(1,2) _ True, of d i] backward by (auto split: if_splits)
  next
    case False
    then have "\<forall>q < p. \<not> at_seq es q \<le> s" using backward(8,11) by (auto simp: rests_def)
    then have "shown_before s es p = shown_before s es 0" by (intro shown_before_eq) (auto simp: shown_def)
    then have z: "i = 0" using backward(10) by (simp add: shown_before_def)
    have "\<not> Valid it (di_iter d)" using backward(5) False inner.rep_Valid [of "di_iter d" es x] by (simp add: at_pos_def)
    then have "FindPrevUserEntry it d = Some (d\<lparr>di_valid := False, di_saved_key := [], di_saved_value := [], di_direction := kForward\<rparr>)"
      by (simp add: FindPrevUserEntry_def)
    moreover have "at_pos (d\<lparr>di_valid := False, di_saved_key := [], di_saved_value := [], di_direction := kForward\<rparr>) s es x"
      using backward(5) by (simp add: at_pos_def)
    ultimately show ?thesis unfolding D using z backward(1-3) by (auto simp: db_rep_def)
  qed
qed (use i in simp)

lemma db_list_iterator: "list_iterator (DBIterator it) c (\<lambda>_. True) (db_rep s es)"
proof
  fix st view i target
  assume r: "db_rep s es st view i"
  obtain d x where d: "parsed_entries c es" "s \<le> kMaxSequenceNumber" "view = snapshot_view s es" "st = Some d" "at_pos d s es x" using db_rep_anywhere [OF r] .
  have ii: "irep (di_iter d) es x" using d(5) by (simp add: at_pos_def)
  show le: "i \<le> length view" using r by (cases rule: db_repE) (auto dest: view_nth(1) intro: less_imp_le)
  show "Valid (DBIterator it) st \<longleftrightarrow> i < length view" using r by (cases rule: db_repE) (auto simp: DBIterator_def dest: view_nth(1))
  show "istatus (DBIterator it) st = Status_OK" using d(4,5) inner.rep_status [OF ii] by (simp add: DBIterator_def di_get_status_def at_pos_def)
  show "db_rep s es (SeekToFirst (DBIterator it) st) view 0" using di_SeekToFirst_rep [OF d(1,2,5)] d by (simp add: DBIterator_def)
  show "db_rep s es (SeekToLast (DBIterator it) st) view (length view - 1)" using di_SeekToLast_rep [OF d(1,2,5)] d by (simp add: DBIterator_def)
  show "db_rep s es (Seek (DBIterator it) st target) view (lower_bound c view target)" using di_Seek_rep [OF d(1,2,5)] d by (simp add: DBIterator_def)
  assume i: "i < length view"
  show "db_rep s es (Next (DBIterator it) st) view (Suc i)" using di_Next_rep [OF r [unfolded d(4)] i] d(4) by (simp add: DBIterator_def)
  show "db_rep s es (Prev (DBIterator it) st) view (if i = 0 then length view else i - 1)"
    using di_Prev_rep [OF r [unfolded d(4)] i] d(4) by (simp add: DBIterator_def)
  show "ikey (DBIterator it) st = fst (view ! i)" "ivalue (DBIterator it) st = snd (view ! i)"
  proof -
    have "di_key it d = fst (view ! i) \<and> di_value it d = snd (view ! i)"
      using r
    proof (cases rule: db_repE)
      case (forward d' p)
      then have "irep (di_iter d) es p" "d' = d" using d(4) by (simp_all add: at_pos_def)
      then show ?thesis using forward inner.rep_key [of "di_iter d" es p] inner.rep_value [of "di_iter d" es p] view_nth(2) [of s es p]
        by (simp add: di_key_def di_value_def uk_def)
    next
      case (backward d' p y)
      then show ?thesis using view_nth(2) [of s es p] d(4) by (simp add: di_key_def di_value_def)
    qed (use i in simp)
    then show "ikey (DBIterator it) st = fst (view ! i)" "ivalue (DBIterator it) st = snd (view ! i)" using d(4) by (simp_all add: DBIterator_def)
  qed
qed

lemma new_DBIter_rep:
  assumes "parsed_entries c es" "s \<le> kMaxSequenceNumber" "irep iter es r"
  shows "db_rep s es (Some (new_DBIter c iter s seed)) (snapshot_view s es) (length (snapshot_view s es))"
proof -
  have "at_pos (new_DBIter c iter s seed) s es r" using assms(3) new_DBIter_seed [of c iter s seed] by (simp add: at_pos_def new_DBIter_def Let_def split: prod.splits)
  moreover have "\<not> di_valid (new_DBIter c iter s seed)" by (simp add: new_DBIter_def Let_def split: prod.splits)
  ultimately show ?thesis using assms by (auto simp: db_rep_def)
qed

lemma view_sorted:
  assumes P: "parsed_entries c es"
  shows "sorted_wrt (\<lambda>a b. Compare c (fst a) (fst b) < 0) (snapshot_view s es)"
proof -
  have "Compare c (uk es p) (uk es q) < 0" if "p < q" "q < length es" "shown s es p" "shown s es q" for p q
    using keys_ordered [OF P, of p q] that Compare_zero [of "uk es p" "uk es q"] by (auto simp: shown_def order_less_le)
  then have "sorted_wrt (\<lambda>p q. Compare c (uk es p) (uk es q) < 0) (filter (shown s es) [0..<length es])"
    by (intro sorted_wrt_mono_rel [OF _ sorted_wrt_filter [OF sorted_wrt_upt]]) auto
  then show ?thesis by (simp add: snapshot_view_def shown_positions_def sorted_wrt_map)
qed

end

text \<open>What the database is made of: blocks, and the merge of blocks.\<close>

interpretation db_blocks: db_iteration BytewiseComparator Block_Iterator
  "block_rep (InternalKeyComparator BytewiseComparator) (\<lambda>k. 8 \<le> length k)"
  by (simp add: db_iteration_def bytewise.total_comparator_axioms block_iter.list_iterator_axioms)

interpretation db_merged: db_iteration BytewiseComparator "Merging Block_Iterator (InternalKeyComparator BytewiseComparator)"
  "list_iterator.merge_rep Block_Iterator (InternalKeyComparator BytewiseComparator) (\<lambda>k. 8 \<le> length k)
     (block_rep (InternalKeyComparator BytewiseComparator) (\<lambda>k. 8 \<le> length k))"
  by (simp add: db_iteration_def bytewise.total_comparator_axioms block_iter.merging_list_iterator)

section \<open>Properties\<close>

text \<open>
  C5. The iterator a client sees: over any iterator of internal entries, at any snapshot, it reads exactly the view of the
  snapshot: for each user key the newest entry not newer than the snapshot, if it is a value, in key order, forward, backward, after changes of
  direction and from any sought key. Every call returns.
\<close>

theorem db_iterator_reads_snapshot:
  assumes "total_comparator c" "list_iterator it (InternalKeyComparator c) (\<lambda>k. 8 \<le> length k) rep" "parsed_entries c es"
    "s \<le> kMaxSequenceNumber" "rep iter es r"
  shows "let I = DBIterator it; d = Some (new_DBIter c iter s seed); V = snapshot_view s es; i = lower_bound c V target in
    sorted_wrt (\<lambda>a b. Compare c (fst a) (fst b) < 0) V \<and>
    read_forward I n (SeekToFirst I d) = take n V \<and> read_backward I n (SeekToLast I d) = take n (rev V) \<and>
    read_forward I n (Seek I d target) = take n (drop i V) \<and>
    (i < length V \<longrightarrow> read_backward I n (Seek I d target) = take n (rev (take (Suc i) V))) \<and>
    (Suc i < length V \<longrightarrow> read_forward I n (Prev I (Next I (Seek I d target))) = take n (drop i V)) \<and>
    SeekToFirst I d \<noteq> None \<and> SeekToLast I d \<noteq> None \<and> Seek I d target \<noteq> None \<and> istatus I (Seek I d target) = Status_OK"
proof -
  have D: "db_iteration c it rep" using assms(1,2) by (simp add: db_iteration_def)
  note L = db_iteration.db_list_iterator [OF D, of s es] and r = db_iteration.new_DBIter_rep [OF D assms(3-5), of seed]
  note S = list_iterator.rep_Seek [OF L r TrueI, of target]
  have N: "st \<noteq> None" if "db_iteration.db_rep c rep s es st V j" for st V j using that by (auto simp: db_iteration.db_rep_def [OF D])
  let ?V = "snapshot_view s es" and ?I = "DBIterator it" and ?d = "Some (new_DBIter c iter s seed)"
  let ?i = "lower_bound c ?V target"
  have "read_forward ?I n (Prev ?I (Next ?I (Seek ?I ?d target))) = take n (drop ?i ?V)" if i: "Suc ?i < length ?V"
    using list_iterator.read_forward_eq [OF L list_iterator.rep_Prev [OF L list_iterator.rep_Next [OF L S]]] i by simp
  then show ?thesis unfolding Let_def
    using db_iteration.view_sorted [OF D assms(3)] list_iterator.read_from_first [OF L r] list_iterator.read_from_last [OF L r]
      list_iterator.read_forward_eq [OF L S] list_iterator.read_backward_eq [OF L S] list_iterator.rep_status [OF L S]
      N [OF list_iterator.rep_SeekToFirst [OF L r]] N [OF list_iterator.rep_SeekToLast [OF L r]] N [OF S] by blast
qed

definition sample_versions :: "(bytes \<times> bytes) list" where
  "sample_versions = [(InternalKey [1] 5 kTypeDeletion, []), (InternalKey [1] 2 kTypeValue, [10]), (InternalKey [2] 7 kTypeValue, [21]),
     (InternalKey [2] 3 kTypeValue, [20]), (InternalKey [3] 4 kTypeValue, [30])]"

lemma sample_sequences: "(2 :: u64) \<le> kMaxSequenceNumber" "(3 :: u64) \<le> kMaxSequenceNumber" "(4 :: u64) \<le> kMaxSequenceNumber"
  "(5 :: u64) \<le> kMaxSequenceNumber" "(6 :: u64) \<le> kMaxSequenceNumber" "(7 :: u64) \<le> kMaxSequenceNumber"
  by (simp_all add: kMaxSequenceNumber_def push_bit_eq_mult)

lemma sample_versions_parsed: "parsed_entries BytewiseComparator sample_versions"
proof -
  have "Compare BytewiseComparator = Slice_compare" by (simp add: BytewiseComparator_def)
  then show ?thesis
    using bytewise.internal_contract
    by (simp add: parsed_entries_def sorted_entries_def sample_versions_def InternalKey_Compare_keys [OF bytewise.total_comparator_axioms]
        InternalKey_eq [THEN arg_cong [of _ _ length]] sample_sequences)
qed

lemma sample_views: "snapshot_view 6 sample_versions = [([2], [20]), ([3], [30])]" "snapshot_view 3 sample_versions = [([1], [10]), ([2], [20])]"
proof -
  have u: "ExtractUserKey (InternalKey u s t) = u" for u s t by (simp add: InternalKey_eq)
  have b: "shown s es p \<longleftrightarrow> at_seq es p \<le> s \<and> is_value es p \<and> list_all (\<lambda>q. uk es q = uk es p \<longrightarrow> \<not> at_seq es q \<le> s) [0..<p]" for s es p
    by (auto simp: shown_def list_all_iff)
  show "snapshot_view 6 sample_versions = [([2], [20]), ([3], [30])]" "snapshot_view 3 sample_versions = [([1], [10]), ([2], [20])]"
    by (simp_all add: snapshot_view_def shown_positions_def b upt_rec uk_def at_seq_def is_value_def sample_versions_def sample_sequences u)
qed

lemma sample_versions_block:
  "block_rep (InternalKeyComparator BytewiseComparator) (\<lambda>k. 8 \<le> length k)
     (Block_NewIterator (new_Block (fst (bb_Finish (build 2 sample_versions)))) (InternalKeyComparator BytewiseComparator)) sample_versions (length sample_versions)"
proof (rule built_rep)
  have "length (fst (bb_Finish (build 2 sample_versions))) = 77" by code_simp
  then show "length (fst (bb_Finish (build 2 sample_versions))) < 2 ^ 32" by simp
qed (use sample_versions_parsed in \<open>simp_all add: parsed_entries_def\<close>)

theorem db_iterator_reads_snapshot_witness:
  "let I = DBIterator Block_Iterator; b = Block_NewIterator (new_Block (fst (bb_Finish (build 2 sample_versions)))) (InternalKeyComparator BytewiseComparator) in
   read_forward I 9 (SeekToFirst I (Some (new_DBIter BytewiseComparator b 6 301))) = [([2], [20]), ([3], [30])] \<and>
   read_backward I 9 (SeekToLast I (Some (new_DBIter BytewiseComparator b 3 301))) = [([2], [20]), ([1], [10])]"
proof -
  note T = db_iterator_reads_snapshot [OF bytewise.total_comparator_axioms block_iter.list_iterator_axioms sample_versions_parsed _ sample_versions_block, of _ 301 "[]" 9]
  show ?thesis using T [OF sample_sequences(5)] T [OF sample_sequences(2)] by (simp add: Let_def sample_views)
qed

text \<open>
  C18. The read sampling of an iterator always ends: however many bytes the current entry has, and from every state the generator reaches, the
  loop that extends the sampling period by random amounts (zero among them) reaches the entry's length, and it touches nothing but the
  generator, the period and the samples it reports.
\<close>

theorem read_sampling_ends:
  assumes "good_seed (di_rnd d)"
  shows "\<exists>d'. sample_loop k n d = Some d' \<and> n \<le> di_bytes_until d' \<and> good_seed (di_rnd d') \<and> di_iter d' = di_iter d \<and>
    di_valid d' = di_valid d \<and> di_direction d' = di_direction d \<and> di_saved_key d' = di_saved_key d \<and> di_saved_value d' = di_saved_value d \<and>
    di_status d' = di_status d"
  using sample_loop_returns [OF assms, of k n] assms by (auto simp: resampled_def)

theorem read_sampling_ends_witness:
  "\<exists>d'. sample_loop [1] (2 ^ 40) (new_DBIter BytewiseComparator () 6 301) = Some d' \<and> 2 ^ 40 \<le> di_bytes_until d'"
  using read_sampling_ends [OF new_DBIter_seed [of BytewiseComparator "()" 6 301], of "[1]" "2 ^ 40"] by blast

end
