(* ===== verification/TableCaches.thy ===== *)
theory TableCaches
  imports Tables FileNames
begin

text \<open>
  \<open>db/table_cache.cc\<close>: open tables kept in an LRU cache under their file numbers. The environment is what its
  \<open>NewRandomAccessFile\<close> answers; the block cache the tables share is passed along.
\<close>

section \<open>Definitions\<close>

record TableAndFile =
  tf_file :: RandomAccessFile
  tf_table :: Table

datatype table_deleter = DeleteEntry

type_synonym table_lru = "(table_deleter, TableAndFile) ShardedLRUCache"

record TableCache =
  tc_env :: "bytes \<Rightarrow> Status + RandomAccessFile"
  tc_dbname :: bytes
  tc_options :: Options
  tc_cache :: table_lru

definition new_TableCache :: "(bytes \<Rightarrow> Status + RandomAccessFile) \<Rightarrow> bytes \<Rightarrow> Options \<Rightarrow> u64 \<Rightarrow> TableCache option" where
  "new_TableCache env dbname options entries =
     map_option (\<lambda>c. \<lparr>tc_env = env, tc_dbname = dbname, tc_options = options, tc_cache = c\<rparr>) (NewLRUCache entries)"

text \<open>The file under its name, or under the name older versions gave it; the error is the one for the first name.\<close>

definition open_file :: "TableCache \<Rightarrow> u64 \<Rightarrow> Status + RandomAccessFile" where
  "open_file tc file_number =
     (case tc_env tc (TableFileName (tc_dbname tc) file_number) of
        Inr f \<Rightarrow> Inr f
      | Inl s \<Rightarrow> (case tc_env tc (SSTTableFileName (tc_dbname tc) file_number) of Inr f \<Rightarrow> Inr f | Inl _ \<Rightarrow> Inl s))"

text \<open>A table that opens takes an id of the block cache.\<close>

definition next_id :: "block_cache \<Rightarrow> u64" where
  "next_id bc = (case bc of None \<Rightarrow> 0 | Some c \<Rightarrow> fst (cache_NewId c))"

definition take_id :: "block_cache \<Rightarrow> block_cache" where
  "take_id bc = map_option (\<lambda>c. snd (cache_NewId c)) bc"

definition FindTable ::
  "snappy \<Rightarrow> TableCache \<Rightarrow> block_cache \<Rightarrow> u64 \<Rightarrow> u64 \<Rightarrow> (Status \<times> cache_handle option \<times> TableCache \<times> block_cache) option" where
  "FindTable sn tc bc file_number file_size = do {
     let key = EncodeFixed64 file_number;
     (handle, cache) \<leftarrow> cache_Lookup (tc_cache tc) key;
     let tc = tc\<lparr>tc_cache := cache\<rparr>;
     case handle of
       Some h \<Rightarrow> Some (Status_OK, Some h, tc, bc)
     | None \<Rightarrow>
         (case open_file tc file_number of
            Inl s \<Rightarrow> Some (s, None, tc, bc)
          | Inr f \<Rightarrow> do {
              (s, table) \<leftarrow> Table_Open sn (tc_options tc) f file_size (next_id bc);
              if \<not> ok s then Some (s, None, tc, bc)
              else do {
                t \<leftarrow> table;
                (h, cache) \<leftarrow> cache_Insert (tc_cache tc) key \<lparr>tf_file = f, tf_table = t\<rparr> 1 DeleteEntry;
                Some (s, Some h, tc\<lparr>tc_cache := cache\<rparr>, take_id bc) } }) }"

definition UnrefEntry :: "TableCache \<Rightarrow> cache_handle \<Rightarrow> TableCache option" where
  "UnrefEntry tc h = map_option (\<lambda>c. tc\<lparr>tc_cache := c\<rparr>) (cache_Release (tc_cache tc) h)"

text \<open>The iterator over the table, or the error; the handle that its deletion unreferences.\<close>

definition tc_NewIterator ::
  "snappy \<Rightarrow> TableCache \<Rightarrow> block_cache \<Rightarrow> ReadOptions \<Rightarrow> u64 \<Rightarrow> u64 \<Rightarrow>
   ((Status + (Table \<times> (Status + BlockIter, (Status + BlockIter) option) TwoLevelIterator option)) \<times> cache_handle option \<times> TableCache \<times> block_cache) option" where
  "tc_NewIterator sn tc bc options file_number file_size = do {
     (s, handle, tc, bc) \<leftarrow> FindTable sn tc bc file_number file_size;
     if ok s then do {
         h \<leftarrow> handle;
         tf \<leftarrow> cache_Value (tc_cache tc) h;
         Some (Inr (tf_table tf, Table_NewIterator sn (tf_table tf) options), Some h, tc, bc) }
     else Some (Inl (NewErrorIterator s), None, tc, bc) }"

definition tc_Get ::
  "snappy \<Rightarrow> TableCache \<Rightarrow> block_cache \<Rightarrow> ReadOptions \<Rightarrow> u64 \<Rightarrow> u64 \<Rightarrow> bytes \<Rightarrow>
   ((bytes \<times> bytes) option \<times> Status \<times> TableCache \<times> block_cache) option" where
  "tc_Get sn tc bc options file_number file_size k = do {
     (s, handle, tc, bc) \<leftarrow> FindTable sn tc bc file_number file_size;
     if ok s then do {
         h \<leftarrow> handle;
         tf \<leftarrow> cache_Value (tc_cache tc) h;
         (saved, s, bc) \<leftarrow> InternalGet sn (tf_table tf) bc options k;
         tc \<leftarrow> UnrefEntry tc h;
         Some (saved, s, tc, bc) }
     else Some (None, s, tc, bc) }"

definition tc_Evict :: "TableCache \<Rightarrow> u64 \<Rightarrow> TableCache option" where
  "tc_Evict tc file_number = map_option (\<lambda>c. tc\<lparr>tc_cache := c\<rparr>) (cache_Erase (tc_cache tc) (EncodeFixed64 file_number))"


section \<open>Finding tables\<close>

lemma Table_Open_status: "Table_Open sn options f sz i = Some (s, t) \<Longrightarrow> ok s \<longleftrightarrow> t \<noteq> None"
  by (auto simp: Table_Open_def Let_def split: if_splits prod.splits option.splits bind_splits) (metis option.exhaust)?

lemma EncodeFixed64_inj: "EncodeFixed64 a = EncodeFixed64 b \<longleftrightarrow> a = b"
  by (metis DecodeFixed64_EncodeFixed64)

lemma inserted_value:
  assumes H: "history cap c held ins n" and n: "Suc n < 2 ^ 31" and I: "cache_Insert c key v charge d = Some (h, c')" and cap: "0 < (cap + 15) div 16"
  shows "cache_Value c' h = Some v"
proof -
  have inv: "sinv c held n" using history_inv [OF H] n by simp
  have "0 < capacity (shards c ! Shard (HashSlice key))" using history_capacity [OF H _ Shard_less] n cap by simp
  then show ?thesis by (rule sharded_insert_lookup(2) [OF inv n I])
qed

text \<open>
  Every table in the cache is one that its file opens to, the size of a file being a function of its number.
\<close>

definition opens_to :: "snappy \<Rightarrow> TableCache \<Rightarrow> (u64 \<Rightarrow> u64) \<Rightarrow> u64 \<Rightarrow> Table \<Rightarrow> bool" where
  "opens_to sn tc sizes num t \<longleftrightarrow>
     (\<exists>f i. open_file tc num = Inr f \<and> Table_Open sn (tc_options tc) f (sizes num) i = Some (Status_OK, Some t))"

definition tables_agree :: "snappy \<Rightarrow> TableCache \<Rightarrow> (u64 \<Rightarrow> u64) \<Rightarrow> (table_deleter \<times> bytes \<times> TableAndFile) multiset \<Rightarrow> bool" where
  "tables_agree sn tc sizes ins \<longleftrightarrow> (\<forall>d num tf. (d, EncodeFixed64 num, tf) \<in># ins \<longrightarrow> opens_to sn tc sizes num (tf_table tf))"

lemma open_file_cache [simp]: "open_file (tc\<lparr>tc_cache := c\<rparr>) num = open_file tc num"
  by (simp add: open_file_def split: sum.splits)

definition fails :: "snappy \<Rightarrow> TableCache \<Rightarrow> block_cache \<Rightarrow> u64 \<Rightarrow> u64 \<Rightarrow> Status \<Rightarrow> bool" where
  "fails sn tc bc num sz s \<longleftrightarrow> \<not> ok s \<and> (open_file tc num = Inl s \<or>
     (\<exists>f. open_file tc num = Inr f \<and> Table_Open sn (tc_options tc) f sz (next_id bc) = Some (s, None)))"

definition found_table :: "snappy \<Rightarrow> TableCache \<Rightarrow> block_cache \<Rightarrow> (u64 \<Rightarrow> u64) \<Rightarrow> u64 \<Rightarrow> u64 \<Rightarrow> (cache_handle \<Rightarrow> nat) \<Rightarrow> nat \<Rightarrow>
    cache_handle \<Rightarrow> TableCache \<Rightarrow> block_cache \<Rightarrow> bool" where
  "found_table sn tc bc sizes num cap held n h tc' bc' \<longleftrightarrow>
     (\<exists>tf ins' n'. cache_Value (tc_cache tc') h = Some tf \<and> opens_to sn tc sizes num (tf_table tf) \<and>
        (bc' = bc \<or> bc' = take_id bc) \<and> history cap (tc_cache tc') (held(h := held h + 1)) ins' n' \<and> n' \<le> n + 2 \<and> tables_agree sn tc sizes ins' \<and>
        (\<exists>c. tc' = tc\<lparr>tc_cache := c\<rparr>))"

lemma found_tableI:
  assumes "cache_Value c h = Some tf" "opens_to sn tc sizes num (tf_table tf)" "bc' = bc \<or> bc' = take_id bc"
    "history cap c (held(h := held h + 1)) ins m" "m \<le> n + 2" "tables_agree sn tc sizes ins"
  shows "found_table sn tc bc sizes num cap held n h (tc\<lparr>tc_cache := c\<rparr>) bc'"
  unfolding found_table_def by (rule exI [of _ tf], rule exI [of _ ins], rule exI [of _ m]) (use assms in auto)

lemma FindTable_cases:
  assumes H: "history cap (tc_cache tc) held ins n" and n: "n + 3 < 2 ^ 31" and cap: "0 < (cap + 15) div 16"
    and A: "tables_agree sn tc sizes ins"
    and D: "\<And>f. open_file tc num = Inr f \<Longrightarrow> Table_Open sn (tc_options tc) f (sizes num) (next_id bc) \<noteq> None"
    and E: "\<And>s. open_file tc num = Inl s \<Longrightarrow> \<not> ok s"
  shows "(\<exists>s c. FindTable sn tc bc num (sizes num) = Some (s, None, tc\<lparr>tc_cache := c\<rparr>, bc) \<and> fails sn tc bc num (sizes num) s \<and>
      history cap c held ins (Suc n)) \<or>
    (\<exists>h tc' bc'. FindTable sn tc bc num (sizes num) = Some (Status_OK, Some h, tc', bc') \<and>
      found_table sn tc bc sizes num cap held n h tc' bc')"
proof -
  let ?key = "EncodeFixed64 num"
  have inv: "sinv (tc_cache tc) held n" using history_inv [OF H] n by simp
  obtain r c1 where L: "cache_Lookup (tc_cache tc) ?key = Some (r, c1)" using sharded_Lookup [OF inv, of ?key] n by auto
  show ?thesis
  proof (cases r)
    case (Some h)
    obtain tf d where v: "cache_Value c1 h = Some tf" "(d, ?key, tf) \<in># ins" using history_hit [OF H _ L [unfolded Some]] n by auto
    have "found_table sn tc bc sizes num cap held n h (tc\<lparr>tc_cache := c1\<rparr>) bc"
      by (rule found_tableI [OF v(1) _ _ history.hit [OF H L [unfolded Some]] _ A]) (use A v(2) in \<open>auto simp: tables_agree_def\<close>)
    then show ?thesis using L Some by (intro disjI2 exI) (simp add: FindTable_def Let_def)
  next
    case None
    have H1: "history cap c1 held ins (Suc n)" by (rule history.miss [OF H L [unfolded None]])
    show ?thesis
    proof (cases "open_file tc num")
      case (Inl s)
      then have "open_file (tc\<lparr>tc_cache := c1\<rparr>) num = Inl s" by simp
      then show ?thesis using L None H1 E [OF Inl] Inl by (intro disjI1 exI [of _ s] exI [of _ c1]) (simp add: FindTable_def Let_def fails_def)
    next
      case (Inr f)
      obtain s t where O: "Table_Open sn (tc_options tc) f (sizes num) (next_id bc) = Some (s, t)" using D [OF Inr] by auto
      show ?thesis
      proof (cases t)
        case N: None
        have "open_file (tc\<lparr>tc_cache := c1\<rparr>) num = Inr f" using Inr by simp
        then show ?thesis using L None H1 Inr N O Table_Open_status [OF O]
          by (intro disjI1 exI [of _ s] exI [of _ c1]) (simp add: FindTable_def Let_def fails_def)
      next
        case (Some tb)
        have s: "s = Status_OK" using Table_Open_status [OF O] Some by (simp add: ok_iff)
        let ?tf = "\<lparr>tf_file = f, tf_table = tb\<rparr>"
        have inv1: "sinv c1 held (Suc n)" using history_inv [OF H1] n by simp
        obtain h c2 where I: "cache_Insert c1 ?key ?tf 1 DeleteEntry = Some (h, c2)" using sharded_Insert [OF inv1, of ?key ?tf 1 DeleteEntry] n by auto
        have V: "cache_Value c2 h = Some ?tf" using inserted_value [OF H1 _ I cap] n by simp
        have o: "opens_to sn tc sizes num tb" using Inr O s Some by (auto simp: opens_to_def)
        then have A2: "tables_agree sn tc sizes (add_mset (DeleteEntry, ?key, ?tf) ins)" using A by (auto simp: tables_agree_def EncodeFixed64_inj)
        have "found_table sn tc bc sizes num cap held n h (tc\<lparr>tc_cache := c2\<rparr>) (take_id bc)"
          by (rule found_tableI [OF V _ _ history.insert [OF H1 I] _ A2]) (use o in simp_all)
        moreover have "open_file (tc\<lparr>tc_cache := c1\<rparr>) num = Inr f" using Inr by simp
        ultimately show ?thesis using L None O s Some I by (intro disjI2 exI) (simp add: FindTable_def Let_def)
      qed
    qed
  qed
qed


lemma tc_Get_cases:
  assumes "history cap (tc_cache tc) held ins n" "n + 3 < 2 ^ 31" "0 < (cap + 15) div 16" "tables_agree sn tc sizes ins"
    "\<And>f. open_file tc num = Inr f \<Longrightarrow> Table_Open sn (tc_options tc) f (sizes num) (next_id bc) \<noteq> None"
    "\<And>s. open_file tc num = Inl s \<Longrightarrow> \<not> ok s"
  shows "(\<exists>s c. tc_Get sn tc bc options num (sizes num) k = Some (None, s, tc\<lparr>tc_cache := c\<rparr>, bc) \<and>
      fails sn tc bc num (sizes num) s \<and> history cap c held ins (Suc n)) \<or>
    (\<exists>t bc' c ins' n'. opens_to sn tc sizes num t \<and> bc' \<in> {bc, take_id bc} \<and>
      tc_Get sn tc bc options num (sizes num) k =
        map_option (\<lambda>(saved, s, bc). (saved, s, tc\<lparr>tc_cache := c\<rparr>, bc)) (InternalGet sn t bc' options k) \<and>
      history cap c held ins' n' \<and> n' \<le> n + 3 \<and> tables_agree sn tc sizes ins')"
proof -
  consider (fail) s c where "FindTable sn tc bc num (sizes num) = Some (s, None, tc\<lparr>tc_cache := c\<rparr>, bc)" "fails sn tc bc num (sizes num) s"
      "history cap c held ins (Suc n)"
    | (table) h tc' bc' where "FindTable sn tc bc num (sizes num) = Some (Status_OK, Some h, tc', bc')"
      "found_table sn tc bc sizes num cap held n h tc' bc'"
    using FindTable_cases [where num = num and bc = bc, OF assms] by blast
  then show ?thesis
  proof cases
    case fail
    then show ?thesis by (intro disjI1 exI [of _ s] exI [of _ c]) (simp add: tc_Get_def fails_def)
  next
    case table
    obtain tf ins' n' c where t: "cache_Value (tc_cache tc') h = Some tf" "opens_to sn tc sizes num (tf_table tf)" "bc' \<in> {bc, take_id bc}"
      "history cap (tc_cache tc') (held(h := held h + 1)) ins' n'" "n' \<le> n + 2" "tables_agree sn tc sizes ins'" "tc' = tc\<lparr>tc_cache := c\<rparr>"
      using table(2) unfolding found_table_def by blast
    have "sinv (tc_cache tc') (held(h := held h + 1)) n'" using history_inv [OF t(4)] t(5) assms(2) by simp
    then obtain c' where c': "cache_Release c h = Some c'" using sharded_Release [of c "held(h := held h + 1)" n' h] t(7) by auto
    have "(held(h := held h + 1))(h := (held(h := held h + 1)) h - 1) = held" by auto
    then have "history cap c' held ins' (Suc n')" using history.release [OF t(4), of h c'] c' t(7) by simp
    moreover have "tc_Get sn tc bc options num (sizes num) k =
        map_option (\<lambda>(saved, s, bc). (saved, s, tc\<lparr>tc_cache := c'\<rparr>, bc)) (InternalGet sn (tf_table tf) bc' options k)"
      using table(1) t(1,7) c' by (cases "InternalGet sn (tf_table tf) bc' options k") (auto simp: tc_Get_def UnrefEntry_def)
    ultimately show ?thesis using t(2,3,5,6)
      by (intro disjI2 exI [of _ "tf_table tf"] exI [of _ bc'] exI [of _ c'] exI [of _ ins'] exI [of _ "Suc n'"]) simp
  qed
qed

section \<open>Properties\<close>

text \<open>
  C14. The table cache is transparent: a lookup in a file gives what a lookup in the table that the file opens to gives, whether the
  table was cached or is opened now; a file that does not open gives the error of opening it, and nothing is cached for it, so that the next
  lookup tries again. The table is released, so the cache holds what it held before.
\<close>

theorem table_cache_get:
  assumes "history cap (tc_cache tc) held ins n" "n + 3 < 2 ^ 31" "0 < (cap + 15) div 16" "tables_agree sn tc sizes ins"
    "\<And>f. open_file tc num = Inr f \<Longrightarrow> Table_Open sn (tc_options tc) f (sizes num) (next_id bc) \<noteq> None"
    "\<And>s. open_file tc num = Inl s \<Longrightarrow> \<not> ok s"
  shows "(\<exists>s c. tc_Get sn tc bc options num (sizes num) k = Some (None, s, tc\<lparr>tc_cache := c\<rparr>, bc) \<and>
      fails sn tc bc num (sizes num) s \<and> history cap c held ins (Suc n)) \<or>
    (\<exists>t bc' c ins' n'. opens_to sn tc sizes num t \<and> bc' \<in> {bc, take_id bc} \<and>
      tc_Get sn tc bc options num (sizes num) k =
        map_option (\<lambda>(saved, s, bc). (saved, s, tc\<lparr>tc_cache := c\<rparr>, bc)) (InternalGet sn t bc' options k) \<and>
      history cap c held ins' n' \<and> n' \<le> n + 3 \<and> tables_agree sn tc sizes ins')"
  using assms by (rule tc_Get_cases)

text \<open>A database directory with one table, under its old name, beside a file that is missing.\<close>

definition sample_env :: "bytes \<Rightarrow> Status + RandomAccessFile" where
  "sample_env name = (if name = SSTTableFileName (str ''d'') 5 then Inr (file_of True (table_bytes no_snappy sample_options [([1], [7]), ([3], [8])]))
     else Inl (NotFound name []))"

lemma sample_lookup:
  "\<exists>t. Table_Open no_snappy sample_options (file_of True (table_bytes no_snappy sample_options [([1], [7]), ([3], [8])])) 126 i = Some (Status_OK, Some t) \<and>
     InternalGet no_snappy t None new_ReadOptions [3] = Some (Some ([3], [8]), Status_OK, None)"
proof -
  let ?es = "[([1], [7]), ([3], [8])] :: (bytes \<times> bytes) list" and ?f = "file_of True (table_bytes no_snappy sample_options [([1], [7]), ([3], [8])])"
  note C = sample_lookup_conditions and F = file_of.readable_file_axioms [of True "table_bytes no_snappy sample_options ?es"]
  have s: "sorted_entries (opt_comparator sample_options) (\<lambda>_. True) ?es" "length (table_bytes no_snappy sample_options ?es) < 2 ^ 32"
    using sample_table_facts C(2) by simp_all
  obtain t gs flt where t: "Table_Open no_snappy sample_options ?f 126 i = Some (Status_OK, Some t)" "concat gs = ?es" "[] \<notin> set gs"
    "table_bytes no_snappy sample_options ?es = table_file no_snappy sample_options gs flt" "filter_of_table (\<lambda>_. True) no_snappy sample_options gs flt"
    "table_of (\<lambda>_. True) no_snappy sample_options gs flt ?f t"
    using opened_table [OF s(1) C(3,4) without_snappy.snappy_contract_axioms s(2) F, of i] unfolding sample_table by auto
  then show ?thesis
    using InternalGet_table [OF t(6) [unfolded t(4)] F [unfolded t(4)] s(2) [unfolded t(4)] without_snappy.snappy_contract_axioms C(4) t(5) _ t(3), where target = "[3]" and i = 1 and options = new_ReadOptions]
      s(1) C t(2) by auto
qed

theorem table_cache_get_witness:
  "\<exists>tc s c c'. new_TableCache sample_env (str ''d'') sample_options 64 = Some tc \<and>
     tc_Get no_snappy tc None new_ReadOptions 5 126 [3] = Some (Some ([3], [8]), Status_OK, tc\<lparr>tc_cache := c\<rparr>, None) \<and>
     tc_Get no_snappy tc None new_ReadOptions 6 126 [3] = Some (None, s, tc\<lparr>tc_cache := c'\<rparr>, None) \<and> \<not> ok s"
proof -
  obtain c :: table_lru where c: "NewLRUCache 64 = Some c" using new_cache by blast
  let ?tc = "\<lparr>tc_env = sample_env, tc_dbname = str ''d'', tc_options = sample_options, tc_cache = c\<rparr>"
  have names: "TableFileName (str ''d'') 5 \<noteq> SSTTableFileName (str ''d'') 5" "TableFileName (str ''d'') 6 \<noteq> SSTTableFileName (str ''d'') 5"
    "SSTTableFileName (str ''d'') 6 \<noteq> SSTTableFileName (str ''d'') 5" by code_simp+
  have o: "open_file ?tc 5 = Inr (file_of True (table_bytes no_snappy sample_options [([1], [7]), ([3], [8])]))" "\<exists>s. open_file ?tc 6 = Inl s \<and> \<not> ok s"
    using names by (simp_all add: open_file_def sample_env_def)
  have H: "history 64 (tc_cache ?tc) (\<lambda>_. 0) {#} 0" using history.start [OF c] by simp
  have A: "tables_agree no_snappy ?tc (\<lambda>_. 126) {#}" by (simp add: tables_agree_def)
  note T = table_cache_get [OF H _ _ A, of _ None new_ReadOptions "[3]"]
  have O: "Table_Open no_snappy (tc_options ?tc) f 126 (next_id None) \<noteq> None" if "open_file ?tc 5 = Inr f" for f
    using that o(1) sample_lookup [of "next_id None"] by auto
  have F: "\<not> fails no_snappy ?tc None 5 126 s" for s using o(1) sample_lookup [of "next_id None"] by (auto simp: fails_def)
  have G: "InternalGet no_snappy t None new_ReadOptions [3] = Some (Some ([3], [8]), Status_OK, None)" if t: "opens_to no_snappy ?tc (\<lambda>_. 126) 5 t" for t
  proof -
    obtain i where "Table_Open no_snappy sample_options (file_of True (table_bytes no_snappy sample_options [([1], [7]), ([3], [8])])) 126 i = Some (Status_OK, Some t)"
      using t o(1) by (auto simp: opens_to_def)
    then show ?thesis using sample_lookup [of i] by auto
  qed
  have "\<exists>c. tc_Get no_snappy ?tc None new_ReadOptions 5 126 [3] = Some (Some ([3], [8]), Status_OK, ?tc\<lparr>tc_cache := c\<rparr>, None)"
    using T [of 5] O F G o(1) by (auto simp: take_id_def simp del: open_file_cache)
  moreover have "\<exists>s c. tc_Get no_snappy ?tc None new_ReadOptions 6 126 [3] = Some (None, s, ?tc\<lparr>tc_cache := c\<rparr>, None) \<and> \<not> ok s"
    using T [of 6] o(2) by (auto simp: fails_def opens_to_def)
  ultimately show ?thesis using c unfolding new_TableCache_def by (intro exI [of _ ?tc]) auto
qed

end
