(* ===== verification/VersionFiles.thy ===== *)
theory VersionFiles
  imports VersionEdits TableCaches
begin

text \<open>
  The file lists of \<open>db/version_set.cc\<close>: size limits, the binary search for a file, overlap tests, the iterator over
  the files of a level and the expansion of a key range over overlapping files. A list of files is the list of their metadata.
\<close>

section \<open>Definitions\<close>

subsection \<open>Sizes\<close>

definition TargetFileSize :: "Options \<Rightarrow> u64" where
  "TargetFileSize options = of_nat (opt_max_file_size options)"

definition MaxGrandParentOverlapBytes :: "Options \<Rightarrow> int" where
  "MaxGrandParentOverlapBytes options = sint (10 * TargetFileSize options)"

definition ExpandedCompactionByteSizeLimit :: "Options \<Rightarrow> int" where
  "ExpandedCompactionByteSizeLimit options = sint (25 * TargetFileSize options)"

definition MaxFileSizeForLevel :: "Options \<Rightarrow> nat \<Rightarrow> u64" where
  "MaxFileSizeForLevel options level = TargetFileSize options"

definition TotalFileSize :: "FileMetaData list \<Rightarrow> int" where
  "TotalFileSize files = sint (foldl (\<lambda>sum f. sum + file_size f) 0 files :: u64)"

subsection \<open>Searching\<close>

text \<open>The bounds are 32-bit; a file out of range of the vector has no result.\<close>

partial_function (option) FindFile_loop :: "comparator \<Rightarrow> FileMetaData list \<Rightarrow> bytes \<Rightarrow> u32 \<Rightarrow> u32 \<Rightarrow> u32 option" where
  "FindFile_loop icmp files key left right =
     (if left < right then
        let mid = (left + right) div 2
        in if length files \<le> unat mid then None
           else if Compare icmp (largest (files ! unat mid)) key < 0 then FindFile_loop icmp files key (mid + 1) right
           else FindFile_loop icmp files key left mid
      else Some right)"

definition FindFile :: "comparator \<Rightarrow> FileMetaData list \<Rightarrow> bytes \<Rightarrow> u32 option" where
  "FindFile icmp files key = FindFile_loop icmp files key 0 (of_nat (length files))"

definition AfterFile :: "comparator \<Rightarrow> bytes option \<Rightarrow> FileMetaData \<Rightarrow> bool" where
  "AfterFile ucmp ukey f = (case ukey of None \<Rightarrow> False | Some k \<Rightarrow> Compare ucmp k (ExtractUserKey (largest f)) > 0)"

definition BeforeFile :: "comparator \<Rightarrow> bytes option \<Rightarrow> FileMetaData \<Rightarrow> bool" where
  "BeforeFile ucmp ukey f = (case ukey of None \<Rightarrow> False | Some k \<Rightarrow> Compare ucmp k (ExtractUserKey (smallest f)) < 0)"

text \<open>Without the order on the files the first overlapping one decides.\<close>

fun some_overlap :: "comparator \<Rightarrow> FileMetaData list \<Rightarrow> bytes option \<Rightarrow> bytes option \<Rightarrow> bool" where
  "some_overlap ucmp [] lo hi = False"
| "some_overlap ucmp (f # fs) lo hi = (if AfterFile ucmp lo f \<or> BeforeFile ucmp hi f then some_overlap ucmp fs lo hi else True)"

definition SomeFileOverlapsRange :: "comparator \<Rightarrow> bool \<Rightarrow> FileMetaData list \<Rightarrow> bytes option \<Rightarrow> bytes option \<Rightarrow> bool option" where
  "SomeFileOverlapsRange ucmp disjoint_sorted_files files lo hi =
     (if \<not> disjoint_sorted_files then Some (some_overlap ucmp files lo hi)
      else do {
        index \<leftarrow> (case lo of
            None \<Rightarrow> Some 0
          | Some k \<Rightarrow> FindFile (InternalKeyComparator ucmp) files (InternalKey k kMaxSequenceNumber kValueTypeForSeek));
        Some (if length files \<le> unat index then False else \<not> BeforeFile ucmp hi (files ! unat index)) })"

subsection \<open>The iterator over the files of a level\<close>

record LevelFileNumIterator =
  lf_icmp :: comparator
  lf_flist :: "FileMetaData list"
  lf_index :: u32

definition new_LevelFileNumIterator :: "comparator \<Rightarrow> FileMetaData list \<Rightarrow> LevelFileNumIterator" where
  "new_LevelFileNumIterator icmp flist = \<lparr>lf_icmp = icmp, lf_flist = flist, lf_index = of_nat (length flist)\<rparr>"

definition lf_Valid :: "LevelFileNumIterator \<Rightarrow> bool" where
  "lf_Valid i \<longleftrightarrow> unat (lf_index i) < length (lf_flist i)"

definition lf_Seek :: "LevelFileNumIterator \<Rightarrow> bytes \<Rightarrow> LevelFileNumIterator option" where
  "lf_Seek i target = map_option (\<lambda>x. i\<lparr>lf_index := x\<rparr>) (FindFile (lf_icmp i) (lf_flist i) target)"

definition lf_SeekToFirst :: "LevelFileNumIterator \<Rightarrow> LevelFileNumIterator" where
  "lf_SeekToFirst i = i\<lparr>lf_index := 0\<rparr>"

definition lf_SeekToLast :: "LevelFileNumIterator \<Rightarrow> LevelFileNumIterator" where
  "lf_SeekToLast i = i\<lparr>lf_index := (if lf_flist i = [] then 0 else of_nat (length (lf_flist i) - 1))\<rparr>"

definition lf_Next :: "LevelFileNumIterator \<Rightarrow> LevelFileNumIterator" where
  "lf_Next i = i\<lparr>lf_index := lf_index i + 1\<rparr>"

definition lf_Prev :: "LevelFileNumIterator \<Rightarrow> LevelFileNumIterator" where
  "lf_Prev i = i\<lparr>lf_index := (if lf_index i = 0 then of_nat (length (lf_flist i)) else lf_index i - 1)\<rparr>"

definition lf_key :: "LevelFileNumIterator \<Rightarrow> bytes" where
  "lf_key i = largest (lf_flist i ! unat (lf_index i))"

definition file_value :: "FileMetaData \<Rightarrow> bytes" where
  "file_value f = EncodeFixed64 (number f) @ EncodeFixed64 (file_size f)"

definition lf_value :: "LevelFileNumIterator \<Rightarrow> bytes" where
  "lf_value i = file_value (lf_flist i ! unat (lf_index i))"

definition LevelFileNum :: "LevelFileNumIterator option Iterator" where
  "LevelFileNum =
     \<lparr>Valid = (\<lambda>s. case s of None \<Rightarrow> False | Some i \<Rightarrow> lf_Valid i),
      SeekToFirst = map_option lf_SeekToFirst, SeekToLast = map_option lf_SeekToLast,
      Seek = (\<lambda>s k. Option.bind s (\<lambda>i. lf_Seek i k)), Next = map_option lf_Next, Prev = map_option lf_Prev,
      ikey = (\<lambda>s. lf_key (the s)), ivalue = (\<lambda>s. lf_value (the s)), istatus = (\<lambda>s. Status_OK)\<rparr>"

subsection \<open>Overlapping inputs\<close>

text \<open>
  The loop of \<open>GetOverlappingInputs\<close> over the files from position \<open>i\<close>; at level 0 a file that widens the range
  starts the search again.
\<close>

partial_function (option) overlapping_loop ::
  "('f \<Rightarrow> FileMetaData) \<Rightarrow> comparator \<Rightarrow> nat \<Rightarrow> 'f list \<Rightarrow> nat \<Rightarrow> bytes option \<Rightarrow> bytes option \<Rightarrow> 'f list \<Rightarrow> 'f list option" where
  "overlapping_loop m ucmp level files i user_begin user_end inputs =
     (if length files \<le> i then Some inputs
      else
        let f = files ! i; file_start = ExtractUserKey (smallest (m f)); file_limit = ExtractUserKey (largest (m f)); i = Suc i
        in if user_begin \<noteq> None \<and> Compare ucmp file_limit (the user_begin) < 0 then overlapping_loop m ucmp level files i user_begin user_end inputs
           else if user_end \<noteq> None \<and> Compare ucmp file_start (the user_end) > 0 then overlapping_loop m ucmp level files i user_begin user_end inputs
           else if level = 0 \<and> user_begin \<noteq> None \<and> Compare ucmp file_start (the user_begin) < 0 then
             overlapping_loop m ucmp level files 0 (Some file_start) user_end []
           else if level = 0 \<and> user_end \<noteq> None \<and> Compare ucmp file_limit (the user_end) > 0 then
             overlapping_loop m ucmp level files 0 user_begin (Some file_limit) []
           else overlapping_loop m ucmp level files i user_begin user_end (inputs @ [f]))"

definition GetOverlappingInputs ::
  "('f \<Rightarrow> FileMetaData) \<Rightarrow> comparator \<Rightarrow> nat \<Rightarrow> 'f list \<Rightarrow> bytes option \<Rightarrow> bytes option \<Rightarrow> 'f list option" where
  "GetOverlappingInputs m ucmp level files begin_key end_key =
     overlapping_loop m ucmp level files 0 (map_option ExtractUserKey begin_key) (map_option ExtractUserKey end_key) []"


section \<open>The binary search\<close>

definition file_entry :: "FileMetaData \<Rightarrow> bytes \<times> bytes" where
  "file_entry f = (largest f, file_value f)"

lemma fst_file_entry [simp]: "fst (file_entry f) = largest f" "snd (file_entry f) = file_value f"
  by (simp_all add: file_entry_def)

lemma lower_bound_iff:
  assumes "sorted_entries c okk es" "okk target" "i < length es"
  shows "Compare c (fst (es ! i)) target < 0 \<longleftrightarrow> i < lower_bound c es target"
proof
  assume a: "Compare c (fst (es ! i)) target < 0"
  show "i < lower_bound c es target"
  proof (rule ccontr)
    assume "\<not> i < lower_bound c es target"
    then have "lower_bound c es target < length es" "lower_bound c es target \<le> i" using assms(3) by simp_all
    then show False using sorted_less_target [OF assms(1,2) _ assms(3) a] lower_bound_ge by blast
  qed
qed (rule lower_bound_less)

lemma mid_bounds:
  assumes "unat l < unat (r :: u32)" "unat r < 2 ^ 31"
  shows "unat ((l + r) div 2) = (unat l + unat r) div 2" "unat ((l + r) div 2 + 1) = (unat l + unat r) div 2 + 1"
proof -
  have "unat l + unat r < 2 ^ 32" using assms by simp
  then have "unat (l + r) = unat l + unat r" using unat_add_lem [of l r] by simp
  then show a: "unat ((l + r) div 2) = (unat l + unat r) div 2" by (simp add: unat_div)
  then have "unat ((l + r) div 2) + unat (1 :: u32) < 2 ^ 32" using assms by simp
  then show "unat ((l + r) div 2 + 1) = (unat l + unat r) div 2 + 1" using unat_add_lem [of "(l + r) div 2" 1] a by simp
qed

lemma FindFile_loop_finds:
  fixes c key files
  defines "m \<equiv> lower_bound c (map file_entry files) key"
  assumes S: "sorted_entries c okk (map file_entry files)" "okk key" and len: "length files < 2 ^ 31"
  shows "unat l \<le> m \<Longrightarrow> m \<le> unat r \<Longrightarrow> unat r \<le> length files \<Longrightarrow> FindFile_loop c files key l r = Some (of_nat m)"
proof (induction "unat r - unat l" arbitrary: l r rule: less_induct)
  case less
  show ?case
  proof (cases "l < r")
    case False
    then have "unat r = m" using less.prems by (simp add: word_less_nat_alt)
    then show ?thesis using False by (subst FindFile_loop.simps) auto
  next
    case True
    let ?mid = "(l + r) div 2"
    have lr: "unat l < unat r" "unat r < 2 ^ 31" using True less.prems len by (simp_all add: word_less_nat_alt)
    note b = mid_bounds [OF lr]
    have i: "unat ?mid < length files" "unat l \<le> unat ?mid" "unat ?mid < unat r" using b(1) lr less.prems by linarith+
    have c: "Compare c (largest (files ! unat ?mid)) key < 0 \<longleftrightarrow> unat ?mid < m"
      using lower_bound_iff [OF S, of "unat ?mid"] i(1) by (simp add: m_def)
    show ?thesis
    proof (cases "unat ?mid < m")
      case T: True
      have "FindFile_loop c files key (?mid + 1) r = Some (of_nat m)" by (rule less.hyps) (use T b less.prems lr in linarith)+
      then show ?thesis using True T c i by (subst FindFile_loop.simps) (simp add: Let_def)
    next
      case F: False
      have "FindFile_loop c files key l ?mid = Some (of_nat m)" by (rule less.hyps) (use F i less.prems in linarith)+
      then show ?thesis using True F c i by (subst FindFile_loop.simps) (simp add: Let_def)
    qed
  qed
qed

lemma FindFile_finds:
  assumes "sorted_entries c okk (map file_entry files)" "okk key" "length files < 2 ^ 31"
  shows "FindFile c files key = Some (of_nat (lower_bound c (map file_entry files) key))"
    "unat (of_nat (lower_bound c (map file_entry files) key) :: u32) = lower_bound c (map file_entry files) key"
proof -
  have l: "lower_bound c (map file_entry files) key \<le> length files" using lower_bound_le [of c "map file_entry files" key] by simp
  have u: "unat (of_nat (length files) :: u32) = length files" using assms(3) by (simp add: unat_u32)
  show "FindFile c files key = Some (of_nat (lower_bound c (map file_entry files) key))"
    unfolding FindFile_def by (rule FindFile_loop_finds [OF assms]) (use l u in simp_all)
  show "unat (of_nat (lower_bound c (map file_entry files) key) :: u32) = lower_bound c (map file_entry files) key"
    using l assms(3) by (intro unat_u32) simp
qed

section \<open>The iterator over a level\<close>

definition level_rep :: "comparator \<Rightarrow> (bytes \<Rightarrow> bool) \<Rightarrow> LevelFileNumIterator option \<Rightarrow> (bytes \<times> bytes) list \<Rightarrow> nat \<Rightarrow> bool" where
  "level_rep c okk s es i \<longleftrightarrow> (\<exists>x. s = Some x \<and> lf_icmp x = c \<and> es = map file_entry (lf_flist x) \<and> sorted_entries c okk es \<and>
     length es < 2 ^ 31 \<and> unat (lf_index x) = i \<and> i \<le> length es)"

lemma level_repI:
  "sorted_entries c okk (map file_entry fs) \<Longrightarrow> length fs < 2 ^ 31 \<Longrightarrow>
   level_rep c okk (Some (new_LevelFileNumIterator c fs)) (map file_entry fs) (length fs)"
  by (simp add: level_rep_def new_LevelFileNumIterator_def unat_u32)

lemma level_repE:
  assumes "level_rep c okk s es i"
  obtains x where "s = Some x" "lf_icmp x = c" "es = map file_entry (lf_flist x)" "sorted_entries c okk (map file_entry (lf_flist x))"
    "length (lf_flist x) < 2 ^ 31" "unat (lf_index x) = i" "i \<le> length (lf_flist x)"
  using assms by (auto simp: level_rep_def)

interpretation level_iter: list_iterator LevelFileNum c okk "level_rep c okk" for c okk
proof
  fix s es i target assume r: "level_rep c okk s es i"
  then obtain x where x: "s = Some x" "lf_icmp x = c" "es = map file_entry (lf_flist x)" "sorted_entries c okk (map file_entry (lf_flist x))"
    "length (lf_flist x) < 2 ^ 31" "unat (lf_index x) = i" "i \<le> length (lf_flist x)" by (rule level_repE)
  show "i \<le> length es" using x by simp
  show "Valid LevelFileNum s \<longleftrightarrow> i < length es" using x by (simp add: LevelFileNum_def lf_Valid_def)
  show "istatus LevelFileNum s = Status_OK" by (simp add: LevelFileNum_def)
  show "level_rep c okk (SeekToFirst LevelFileNum s) es 0" using x by (simp add: LevelFileNum_def lf_SeekToFirst_def level_rep_def)
  show "level_rep c okk (SeekToLast LevelFileNum s) es (length es - 1)"
    using x by (simp add: LevelFileNum_def lf_SeekToLast_def level_rep_def unat_u32)
  show "level_rep c okk (Seek LevelFileNum s target) es (lower_bound c es target)" if "okk target"
    using x FindFile_finds [OF x(4) that x(5)] lower_bound_le [of c es target] by (simp add: LevelFileNum_def lf_Seek_def level_rep_def)
  assume i: "i < length es"
  show "ikey LevelFileNum s = fst (es ! i)" "ivalue LevelFileNum s = snd (es ! i)"
    using x i by (simp_all add: LevelFileNum_def lf_key_def lf_value_def)
  have "unat (lf_index x + 1) = Suc i" using x i unat_add_lem [of "lf_index x" 1] by simp
  then show "level_rep c okk (Next LevelFileNum s) es (Suc i)" using x i by (simp add: LevelFileNum_def lf_Next_def level_rep_def)
  have "unat (lf_index x - 1) = i - 1" if "i \<noteq> 0" using x that by (metis unat_1 unat_eq_zero unat_minus_one)
  moreover have "lf_index x = 0 \<longleftrightarrow> i = 0" using x(6) by (auto simp: unat_eq_zero)
  ultimately show "level_rep c okk (Prev LevelFileNum s) es (if i = 0 then length es else i - 1)"
    using x i by (auto simp: LevelFileNum_def lf_Prev_def level_rep_def unat_u32)
qed


section \<open>Overlap of files sorted in a level\<close>

text \<open>An internal key whose tag is one that a sequence number and a type pack to, or smaller.\<close>

definition proper_key :: "bytes \<Rightarrow> bool" where
  "proper_key k \<longleftrightarrow> 8 \<le> length k \<and> key_tag k \<le> PackSequenceAndType kMaxSequenceNumber kValueTypeForSeek"

text \<open>The files of a level above 0: no file is inside out, and each ends before the next one starts.\<close>

definition sorted_files :: "comparator \<Rightarrow> FileMetaData list \<Rightarrow> bool" where
  "sorted_files c fs \<longleftrightarrow> length fs < 2 ^ 31 \<and>
     (\<forall>f\<in>set fs. proper_key (smallest f) \<and> proper_key (largest f) \<and> InternalKey_Compare c (smallest f) (largest f) \<le> 0) \<and>
     sorted_wrt (\<lambda>f g. InternalKey_Compare c (largest f) (smallest g) < 0) fs"

definition overlaps :: "comparator \<Rightarrow> bytes option \<Rightarrow> bytes option \<Rightarrow> FileMetaData \<Rightarrow> bool" where
  "overlaps c lo hi f \<longleftrightarrow> \<not> AfterFile c lo f \<and> \<not> BeforeFile c hi f"

lemma some_overlap_iff: "some_overlap c fs lo hi \<longleftrightarrow> (\<exists>f\<in>set fs. overlaps c lo hi f)"
  by (induction fs) (auto simp: overlaps_def)

lemma proper_InternalKey: "s \<le> kMaxSequenceNumber \<Longrightarrow> proper_key (InternalKey u s t)"
  using Pack_less [of kMaxSequenceNumber s kValueTypeForSeek t]
  by (cases t) (auto simp: proper_key_def InternalKey_eq kValueTypeForSeek_def simp flip: not_less)

lemma InternalKey_shape [simp]: "8 \<le> length (InternalKey u s t)" "ExtractUserKey (InternalKey u s t) = u"
  by (simp_all add: InternalKey_eq)

text \<open>A range that no file sticks out of, and the least such range around a given one.\<close>

definition within :: "comparator \<Rightarrow> bytes option \<Rightarrow> bytes option \<Rightarrow> FileMetaData \<Rightarrow> bool" where
  "within c b e f \<longleftrightarrow> (b \<noteq> None \<longrightarrow> Compare c (the b) (ExtractUserKey (smallest f)) \<le> 0) \<and>
     (e \<noteq> None \<longrightarrow> Compare c (ExtractUserKey (largest f)) (the e) \<le> 0)"

definition key_le :: "comparator \<Rightarrow> bytes option \<Rightarrow> bytes option \<Rightarrow> bool" where
  "key_le c a b \<longleftrightarrow> (a = None \<longleftrightarrow> b = None) \<and> (a \<noteq> None \<longrightarrow> Compare c (the a) (the b) \<le> 0)"

definition closed :: "comparator \<Rightarrow> FileMetaData set \<Rightarrow> bytes option \<Rightarrow> bytes option \<Rightarrow> bool" where
  "closed c F b e \<longleftrightarrow> (\<forall>f\<in>F. overlaps c b e f \<longrightarrow> within c b e f)"

definition least_closed :: "comparator \<Rightarrow> FileMetaData set \<Rightarrow> bytes option \<Rightarrow> bytes option \<Rightarrow> bytes option \<Rightarrow> bytes option \<Rightarrow> bool" where
  "least_closed c F b e b' e' \<longleftrightarrow> closed c F b' e' \<and> key_le c b' b \<and> key_le c e e' \<and>
     (\<forall>B E. closed c F B E \<and> key_le c B b \<and> key_le c e E \<longrightarrow> key_le c B b' \<and> key_le c e' E)"

definition apart :: "comparator \<Rightarrow> FileMetaData \<Rightarrow> FileMetaData \<Rightarrow> bool" where
  "apart c f g \<longleftrightarrow> Compare c (ExtractUserKey (largest f)) (ExtractUserKey (smallest g)) < 0 \<or>
     Compare c (ExtractUserKey (largest g)) (ExtractUserKey (smallest f)) < 0"

locale file_order = total_comparator c for c
begin

lemma user_less_trans: "Compare c a b \<le> 0 \<Longrightarrow> Compare c b d \<le> 0 \<Longrightarrow> Compare c a d \<le> 0"
  using Compare_trans [of a b d] Compare_zero by (metis order_le_less)

lemma user_less_le: "Compare c a b < 0 \<Longrightarrow> Compare c b d \<le> 0 \<Longrightarrow> Compare c a d < 0"
  using Compare_trans [of a b d] Compare_zero [of b d] by (cases "b = d") auto

lemma internal_le_user:
  "InternalKey_Compare c a b \<le> 0 \<Longrightarrow> Compare c (ExtractUserKey a) (ExtractUserKey b) \<le> 0"
  by (auto simp: InternalKey_Compare_def Let_def split: if_splits)

lemma internal_less_le:
  assumes "8 \<le> length x" "8 \<le> length y" "8 \<le> length z" "InternalKey_Compare c x y < 0" "InternalKey_Compare c y z \<le> 0"
  shows "InternalKey_Compare c x z < 0"
proof (cases "y = z")
  case False
  then have "InternalKey_Compare c y z < 0" using assms(5) InternalKey_Compare_zero [OF assms(2,3)] by simp
  then show ?thesis using comparator_contract.Compare_trans [OF internal_contract assms(1-3)] assms(4) by simp
qed (use assms(4) in simp)

lemma sorted_files_entries:
  assumes S: "sorted_files c fs"
  shows "sorted_entries (InternalKeyComparator c) (\<lambda>k. 8 \<le> length k) (map file_entry fs)"
proof -
  have k: "8 \<le> length (smallest f)" "8 \<le> length (largest f)" "InternalKey_Compare c (smallest f) (largest f) \<le> 0" if "f \<in> set fs" for f
    using S that by (simp_all add: sorted_files_def proper_key_def)
  have "InternalKey_Compare c (largest f) (largest g) < 0" if "f \<in> set fs" "g \<in> set fs" "InternalKey_Compare c (largest f) (smallest g) < 0" for f g
    using internal_less_le [OF k(2) k(1,2) that(3) k(3)] that by simp
  then have "sorted_wrt (\<lambda>f g. InternalKey_Compare c (largest f) (largest g) < 0) fs"
    using S by (simp add: sorted_files_def sorted_wrt_iff_nth_less)
  then show ?thesis unfolding sorted_entries_def using k by (simp add: internal_contract sorted_wrt_map)
qed

text \<open>A file ends before the earliest entry of a user key exactly if the key is after the file.\<close>

lemma seek_key_after:
  assumes "proper_key k"
  shows "InternalKey_Compare c k (InternalKey u kMaxSequenceNumber kValueTypeForSeek) < 0 \<longleftrightarrow> Compare c u (ExtractUserKey k) > 0"
  using assms InternalKey_Compare_less [of k "InternalKey u kMaxSequenceNumber kValueTypeForSeek"] Compare_swap [of "ExtractUserKey k" u]
    Compare_zero [of u u] by (auto simp: InternalKey_eq proper_key_def)

lemma smallest_mono:
  assumes "sorted_files c fs" "i \<le> j" "j < length fs"
  shows "Compare c (ExtractUserKey (smallest (fs ! i))) (ExtractUserKey (smallest (fs ! j))) \<le> 0"
proof (cases "i = j")
  case True
  then show ?thesis using Compare_zero [of "ExtractUserKey (smallest (fs ! i))" "ExtractUserKey (smallest (fs ! i))"] by simp
next
  case False
  then have "i < j" using assms(2) by simp
  then have "InternalKey_Compare c (smallest (fs ! i)) (largest (fs ! i)) \<le> 0" "InternalKey_Compare c (largest (fs ! i)) (smallest (fs ! j)) < 0"
    using assms by (auto simp: sorted_files_def sorted_wrt_iff_nth_less)
  then show ?thesis using internal_le_user user_less_trans by (meson less_imp_le)
qed

lemma overlap_search:
  assumes S: "sorted_files c fs"
  shows "SomeFileOverlapsRange c True fs lo hi = Some (\<exists>f\<in>set fs. overlaps c lo hi f)"
proof -
  define n where "n = (case lo of None \<Rightarrow> 0 | Some k \<Rightarrow> lower_bound (InternalKeyComparator c) (map file_entry fs) (InternalKey k kMaxSequenceNumber kValueTypeForSeek))"
  note E = sorted_files_entries [OF S]
  have len: "length fs < 2 ^ 31" using S by (simp add: sorted_files_def)
  have after: "AfterFile c lo (fs ! i) \<longleftrightarrow> i < n" if i: "i < length fs" for i
  proof (cases lo)
    case (Some k)
    have "proper_key (largest (fs ! i))" using S i by (auto simp: sorted_files_def)
    then show ?thesis using lower_bound_iff [OF E, of "InternalKey k kMaxSequenceNumber kValueTypeForSeek" i] i Some
      by (simp add: n_def AfterFile_def seek_key_after)
  qed (simp add: AfterFile_def n_def)
  have before: "BeforeFile c hi (fs ! n) \<Longrightarrow> n \<le> j \<Longrightarrow> j < length fs \<Longrightarrow> BeforeFile c hi (fs ! j)" for j
    using smallest_mono [OF S, of n j] user_less_le by (cases hi) (auto simp: BeforeFile_def)
  have iff: "(\<exists>f\<in>set fs. overlaps c lo hi f) \<longleftrightarrow> n < length fs \<and> \<not> BeforeFile c hi (fs ! n)"
  proof
    assume "\<exists>f\<in>set fs. overlaps c lo hi f"
    then obtain j where "j < length fs" "n \<le> j" "\<not> BeforeFile c hi (fs ! j)" using after by (auto simp: in_set_conv_nth overlaps_def not_less)
    then show "n < length fs \<and> \<not> BeforeFile c hi (fs ! n)" using before by auto
  next
    assume n: "n < length fs \<and> \<not> BeforeFile c hi (fs ! n)"
    then show "\<exists>f\<in>set fs. overlaps c lo hi f" using after [of n] by (intro bexI [of _ "fs ! n"]) (simp_all add: overlaps_def)
  qed
  show ?thesis
  proof (cases lo)
    case None
    then show ?thesis using iff by (simp add: SomeFileOverlapsRange_def n_def)
  next
    case (Some k)
    note F = FindFile_finds [OF E _ len, of "InternalKey k kMaxSequenceNumber kValueTypeForSeek"]
    then show ?thesis using iff Some by (simp add: SomeFileOverlapsRange_def n_def)
  qed
qed

subsection \<open>Overlapping inputs\<close>

lemma overlap_test:
  "overlaps c b e f \<longleftrightarrow> \<not> (b \<noteq> None \<and> Compare c (ExtractUserKey (largest f)) (the b) < 0) \<and>
     \<not> (e \<noteq> None \<and> Compare c (ExtractUserKey (smallest f)) (the e) > 0)"
  using Compare_swap [of "ExtractUserKey (largest f)" "the b"] Compare_swap [of "the e" "ExtractUserKey (smallest f)"]
  by (cases b; cases e) (simp_all add: overlaps_def AfterFile_def BeforeFile_def)

lemma overlapping_filter:
  "level \<noteq> 0 \<Longrightarrow> i \<le> length files \<Longrightarrow>
   overlapping_loop m c level files i b e inputs = Some (inputs @ filter (\<lambda>f. overlaps c b e (m f)) (drop i files))"
proof (induction "length files - i" arbitrary: i inputs)
  case 0
  then show ?case by (subst overlapping_loop.simps) simp
next
  case (Suc n)
  then have i: "i < length files" "drop i files = files ! i # drop (Suc i) files" by (simp_all add: Cons_nth_drop_Suc)
  have IH: "overlapping_loop m c level files (Suc i) b e inp = Some (inp @ filter (\<lambda>f. overlaps c b e (m f)) (drop (Suc i) files))" for inp
    by (rule Suc.hyps(1)) (use Suc.hyps(2) Suc.prems i in simp_all)
  show ?case using i Suc.prems(1) IH overlap_test [of b e "m (files ! i)"]
    by (cases b; cases e; subst overlapping_loop.simps) (auto simp: Let_def)
qed

lemma key_le_refl: "key_le c a a"
  using Compare_refl by (simp add: key_le_def)

lemma key_le_trans: "key_le c a b \<Longrightarrow> key_le c b d \<Longrightarrow> key_le c a d"
  using user_less_trans [of "the a" "the b" "the d"] by (auto simp: key_le_def)

lemma overlaps_wider: "overlaps c b e f \<Longrightarrow> key_le c B b \<Longrightarrow> key_le c e E \<Longrightarrow> overlaps c B E f"
  using user_less_le [of "ExtractUserKey (largest f)" "the B" "the b"] user_less_trans [of "ExtractUserKey (smallest f)" "the e" "the E"]
    Compare_swap [of "the e" "ExtractUserKey (smallest f)"] Compare_swap [of "the E" "ExtractUserKey (smallest f)"]
  by (auto simp: overlap_test key_le_def not_less)

lemma least_closed_widen:
  assumes f: "f \<in> F" "overlaps c b e f"
  shows "b \<noteq> None \<Longrightarrow> Compare c (ExtractUserKey (smallest f)) (the b) < 0 \<Longrightarrow> least_closed c F (Some (ExtractUserKey (smallest f))) e b' e' \<Longrightarrow> least_closed c F b e b' e'"
    and "e \<noteq> None \<Longrightarrow> Compare c (ExtractUserKey (largest f)) (the e) > 0 \<Longrightarrow> least_closed c F b (Some (ExtractUserKey (largest f))) b' e' \<Longrightarrow> least_closed c F b e b' e'"
proof -
  have W: "within c B E f" if "closed c F B E" "key_le c B b" "key_le c e E" for B E
    using overlaps_wider [OF f(2) that(2,3)] that(1) f(1) by (simp add: closed_def)
  {
    assume b: "b \<noteq> None" "Compare c (ExtractUserKey (smallest f)) (the b) < 0" and L: "least_closed c F (Some (ExtractUserKey (smallest f))) e b' e'"
    then have "key_le c (Some (ExtractUserKey (smallest f))) b" by (simp add: key_le_def)
    moreover have "key_le c B (Some (ExtractUserKey (smallest f)))" if "closed c F B E" "key_le c B b" "key_le c e E" for B E
      using W [OF that] that(2) b(1) by (auto simp: key_le_def within_def)
    ultimately show "least_closed c F b e b' e'" using L key_le_trans unfolding least_closed_def by blast
  next
    assume e: "e \<noteq> None" "Compare c (ExtractUserKey (largest f)) (the e) > 0" and L: "least_closed c F b (Some (ExtractUserKey (largest f))) b' e'"
    then have "key_le c e (Some (ExtractUserKey (largest f)))" using Compare_swap [of "the e" "ExtractUserKey (largest f)"] by (simp add: key_le_def)
    moreover have "key_le c (Some (ExtractUserKey (largest f))) E" if "closed c F B E" "key_le c B b" "key_le c e E" for B E
      using W [OF that] that(3) e(1) by (auto simp: key_le_def within_def)
    ultimately show "least_closed c F b e b' e'" using L key_le_trans unfolding least_closed_def by blast
  }
qed

text \<open>How many files stick out of a range.\<close>

definition below :: "('f \<Rightarrow> FileMetaData) \<Rightarrow> 'f list \<Rightarrow> bytes option \<Rightarrow> nat" where
  "below m files b = (case b of None \<Rightarrow> 0 | Some k \<Rightarrow> length (filter (\<lambda>f. Compare c (ExtractUserKey (smallest (m f))) k < 0) files))"

definition above :: "('f \<Rightarrow> FileMetaData) \<Rightarrow> 'f list \<Rightarrow> bytes option \<Rightarrow> nat" where
  "above m files e = (case e of None \<Rightarrow> 0 | Some k \<Rightarrow> length (filter (\<lambda>f. Compare c (ExtractUserKey (largest (m f))) k > 0) files))"

lemma length_filter_strict:
  assumes "\<And>x. x \<in> set xs \<Longrightarrow> P x \<Longrightarrow> Q x" "y \<in> set xs" "Q y" "\<not> P y"
  shows "length (filter P xs) < length (filter Q xs)"
proof -
  have "filter P xs = filter P (filter Q xs)" using assms(1) by (auto simp: filter_filter intro!: filter_cong)
  moreover have "y \<in> set (filter Q xs)" "\<not> P y" using assms by auto
  ultimately show ?thesis using length_filter_less [of y "filter Q xs" P] by simp
qed

lemma below_less:
  assumes "f \<in> set files" "Compare c (ExtractUserKey (smallest (m f))) k < 0"
  shows "below m files (Some (ExtractUserKey (smallest (m f)))) < below m files (Some k)"
  unfolding below_def option.case
  by (rule length_filter_strict [OF _ assms(1)]) (use assms Compare_trans Compare_refl in auto)

lemma above_less:
  assumes "f \<in> set files" "Compare c (ExtractUserKey (largest (m f))) k > 0"
  shows "above m files (Some (ExtractUserKey (largest (m f)))) < above m files (Some k)"
proof -
  have eq: "0 < Compare c x k \<longleftrightarrow> Compare c k x < 0" for x k using Compare_swap [of k x] by simp
  show ?thesis unfolding above_def option.case eq
    by (rule length_filter_strict [OF _ assms(1)]) (use assms Compare_trans Compare_refl eq in auto)
qed

lemma level0_steps:
  fixes m :: "'f \<Rightarrow> FileMetaData" and files :: "'f list" and i
  defines "f \<equiv> files ! i"
  assumes i: "i < length files"
  shows "\<not> overlaps c b e (m f) \<Longrightarrow> overlapping_loop m c 0 files i b e inp = overlapping_loop m c 0 files (Suc i) b e inp"
    and "overlaps c b e (m f) \<Longrightarrow> b \<noteq> None \<and> Compare c (ExtractUserKey (smallest (m f))) (the b) < 0 \<Longrightarrow>
      overlapping_loop m c 0 files i b e inp = overlapping_loop m c 0 files 0 (Some (ExtractUserKey (smallest (m f)))) e []"
    and "overlaps c b e (m f) \<Longrightarrow> \<not> (b \<noteq> None \<and> Compare c (ExtractUserKey (smallest (m f))) (the b) < 0) \<Longrightarrow>
      e \<noteq> None \<and> Compare c (ExtractUserKey (largest (m f))) (the e) > 0 \<Longrightarrow>
      overlapping_loop m c 0 files i b e inp = overlapping_loop m c 0 files 0 b (Some (ExtractUserKey (largest (m f)))) []"
    and "overlaps c b e (m f) \<Longrightarrow> \<not> (b \<noteq> None \<and> Compare c (ExtractUserKey (smallest (m f))) (the b) < 0) \<Longrightarrow>
      \<not> (e \<noteq> None \<and> Compare c (ExtractUserKey (largest (m f))) (the e) > 0) \<Longrightarrow>
      overlapping_loop m c 0 files i b e inp = overlapping_loop m c 0 files (Suc i) b e (inp @ [f])"
  using i overlap_test [of b e "m f"] unfolding f_def by (cases b; cases e; subst overlapping_loop.simps; auto simp: Let_def)+

lemma overlapping_level0:
  "i \<le> length files \<Longrightarrow> inp = filter (\<lambda>f. overlaps c b e (m f)) (take i files) \<Longrightarrow>
   (\<And>f. f \<in> set (take i files) \<Longrightarrow> overlaps c b e (m f) \<Longrightarrow> within c b e (m f)) \<Longrightarrow>
   \<exists>b' e'. overlapping_loop m c 0 files i b e inp = Some (filter (\<lambda>f. overlaps c b' e' (m f)) files) \<and> least_closed c (m ` set files) b e b' e'"
proof (induction "(below m files b + above m files e) * Suc (length files) + (length files - i)" arbitrary: i b e inp rule: less_induct)
  case less
  let ?N = "Suc (length files)"
  show ?case
  proof (cases "i < length files")
    case False
    then have "least_closed c (m ` set files) b e b e" using less.prems key_le_refl by (auto simp: least_closed_def closed_def)
    then show ?thesis using False less.prems(2) by (intro exI [of _ b] exI [of _ e]) (subst overlapping_loop.simps, simp)
  next
    case i: True
    define f where "f = files ! i"
    have f: "f \<in> set files" "take (Suc i) files = take i files @ [f]" using i by (simp_all add: f_def take_Suc_conv_app_nth)
    note st = level0_steps [OF i, of b e m inp, folded f_def]
    have m1: "x * ?N + (length files - Suc i) < x * ?N + (length files - i)" for x using i by simp
    have m2: "y * ?N + (length files - 0) < x * ?N + (length files - i)" if "y < x" for x y
    proof -
      have "Suc y * ?N \<le> x * ?N" using that by (intro mult_le_mono1) simp
      then show ?thesis by simp
    qed
    let ?lo = "b \<noteq> None \<and> Compare c (ExtractUserKey (smallest (m f))) (the b) < 0" and ?hi = "e \<noteq> None \<and> Compare c (ExtractUserKey (largest (m f))) (the e) > 0"
    consider (out) "\<not> overlaps c b e (m f)" | (lo) "overlaps c b e (m f)" ?lo | (hi) "overlaps c b e (m f)" "\<not> ?lo" ?hi | (both) "overlaps c b e (m f)" "\<not> ?lo" "\<not> ?hi"
      by blast
    then show ?thesis
    proof cases
      case out
      show ?thesis unfolding st(1) [OF out] by (rule less.hyps [OF m1]) (use i less.prems out f(2) in auto)
    next
      case lo
      obtain k where k: "b = Some k" "Compare c (ExtractUserKey (smallest (m f))) k < 0" using lo(2) by auto
      have "below m files (Some (ExtractUserKey (smallest (m f)))) + above m files e < below m files b + above m files e"
        using below_less [of f files m k, OF f(1) k(2)] k(1) by simp
      from less.hyps [OF m2 [OF this], of "[]"] obtain b' e' where
        "overlapping_loop m c 0 files 0 (Some (ExtractUserKey (smallest (m f)))) e [] = Some (filter (\<lambda>f. overlaps c b' e' (m f)) files)"
        "least_closed c (m ` set files) (Some (ExtractUserKey (smallest (m f)))) e b' e'" by auto
      then show ?thesis using st(2) [OF lo] least_closed_widen(1) [of "m f" "m ` set files" b e b' e'] f(1) lo by auto
    next
      case hi
      obtain k where k: "e = Some k" "Compare c (ExtractUserKey (largest (m f))) k > 0" using hi(3) by auto
      have "below m files b + above m files (Some (ExtractUserKey (largest (m f)))) < below m files b + above m files e"
        using above_less [of f files m k, OF f(1) k(2)] k(1) by simp
      from less.hyps [OF m2 [OF this], of "[]"] obtain b' e' where
        "overlapping_loop m c 0 files 0 b (Some (ExtractUserKey (largest (m f)))) [] = Some (filter (\<lambda>f. overlaps c b' e' (m f)) files)"
        "least_closed c (m ` set files) b (Some (ExtractUserKey (largest (m f)))) b' e'" by auto
      then show ?thesis using st(3) [OF hi] least_closed_widen(2) [of "m f" "m ` set files" b e b' e'] f(1) hi by auto
    next
      case both
      have "within c b e (m f)" using both(2,3) Compare_swap [of "ExtractUserKey (smallest (m f))" "the b"] by (auto simp: within_def)
      then show ?thesis unfolding st(4) [OF both] by (intro less.hyps [OF m1]) (use i less.prems both f(2) in auto)
    qed
  qed
qed

text \<open>What is left out of a closed range does not touch what is in it.\<close>

lemma closed_apart:
  assumes "closed c F b e" "f \<in> F" "overlaps c b e f" "\<not> overlaps c b e g"
  shows "apart c f g"
proof -
  have w: "within c b e f" using assms by (simp add: closed_def)
  from assms(4) consider k where "b = Some k" "Compare c (ExtractUserKey (largest g)) k < 0" | k where "e = Some k" "Compare c k (ExtractUserKey (smallest g)) < 0"
    using Compare_swap [of "the e" "ExtractUserKey (smallest g)"] by (auto simp: overlap_test)
  then show ?thesis
  proof cases
    case 1
    then show ?thesis using w user_less_le [of "ExtractUserKey (largest g)" k "ExtractUserKey (smallest f)"] by (auto simp: within_def apart_def)
  next
    case 2
    then show ?thesis using w Compare_trans [of "ExtractUserKey (largest f)" k "ExtractUserKey (smallest g)"] Compare_zero [of "ExtractUserKey (largest f)" k]
      by (auto simp: within_def apart_def order_le_less)
  qed
qed

end

interpretation bytewise_files: file_order BytewiseComparator
  by (simp add: file_order_def bytewise.total_comparator_axioms)

section \<open>Properties\<close>

text \<open>
  C25. The binary search over the files of a level answers as the scan over all of them: a range overlaps some file of a sorted
  level exactly if the search says so, whichever ends of the range are open.
\<close>

theorem overlap_search_exact:
  assumes "total_comparator c" "sorted_files c fs"
  shows "SomeFileOverlapsRange c True fs lo hi = SomeFileOverlapsRange c False fs lo hi \<and>
    SomeFileOverlapsRange c True fs lo hi = Some (\<exists>f\<in>set fs. overlaps c lo hi f)"
proof -
  have "file_order c" using assms(1) by (simp add: file_order_def)
  from file_order.overlap_search [OF this assms(2)] show ?thesis by (simp add: SomeFileOverlapsRange_def some_overlap_iff)
qed

text \<open>
  C26. The collection of overlapping inputs always ends. Above level 0 it is the files that overlap the range; at level 0, where files overlap
  each other and the range grows with the files taken, it is the files of the least range around the given one that no file sticks out of,
  so no file left out overlaps a file taken.
\<close>

theorem overlapping_inputs_exact:
  fixes m :: "'f \<Rightarrow> FileMetaData"
  assumes "total_comparator c" "b = map_option ExtractUserKey begin_key" "e = map_option ExtractUserKey end_key"
  shows "\<exists>b' e' inputs. GetOverlappingInputs m c level files begin_key end_key = Some inputs \<and>
    inputs = filter (\<lambda>f. overlaps c b' e' (m f)) files \<and>
    (level \<noteq> 0 \<longrightarrow> b' = b \<and> e' = e) \<and>
    (level = 0 \<longrightarrow> least_closed c (m ` set files) b e b' e' \<and> (\<forall>f\<in>set inputs. \<forall>g\<in>set files - set inputs. apart c (m f) (m g)))"
proof -
  have O: "file_order c" using assms(1) by (simp add: file_order_def)
  show ?thesis
  proof (cases "level = 0")
    case False
    then show ?thesis using file_order.overlapping_filter [OF O False, of 0 files m b e "[]"] assms(2,3) by (auto simp: GetOverlappingInputs_def)
  next
    case True
    obtain b' e' where r: "overlapping_loop m c 0 files 0 b e [] = Some (filter (\<lambda>f. overlaps c b' e' (m f)) files)" "least_closed c (m ` set files) b e b' e'"
      using file_order.overlapping_level0 [OF O, of 0 files "[]" b e m] by auto
    have "apart c (m f) (m g)" if "f \<in> set files" "overlaps c b' e' (m f)" "\<not> overlaps c b' e' (m g)" for f g
      using file_order.closed_apart [OF O, of "m ` set files" b' e' "m f" "m g"] r(2) that by (simp add: least_closed_def)
    then show ?thesis using r True assms(2,3) by (intro exI [of _ b'] exI [of _ e']) (auto simp: GetOverlappingInputs_def)
  qed
qed

definition sample_file :: "u64 \<Rightarrow> bytes \<Rightarrow> bytes \<Rightarrow> FileMetaData" where
  "sample_file n lo hi = new_FileMetaData\<lparr>number := n, smallest := InternalKey lo 7 kTypeValue, largest := InternalKey hi 7 kTypeValue\<rparr>"

lemma sample_file_sorted: "sorted_files BytewiseComparator [sample_file 4 [1] [2], sample_file 5 [4] [6]]"
proof -
  have k: "(7 :: u64) \<le> kMaxSequenceNumber" by (simp add: kMaxSequenceNumber_def push_bit_eq_mult)
  have "InternalKey_Compare BytewiseComparator (InternalKey a 7 kTypeValue) (InternalKey b 7 kTypeValue) < 0" if "Slice_compare a b < 0" for a b
    using InternalKey_Compare_keys [OF bytewise.total_comparator_axioms k k] that by (simp add: BytewiseComparator_def)
  then show ?thesis
    by (simp add: sorted_files_def sample_file_def proper_InternalKey [OF k] less_imp_le)
qed

lemma sample_compare: "Compare BytewiseComparator = Slice_compare"
  by (simp add: BytewiseComparator_def)

theorem overlap_search_exact_witness:
  "SomeFileOverlapsRange BytewiseComparator True [sample_file 4 [1] [2], sample_file 5 [4] [6]] (Some [3]) (Some [3]) = Some False \<and>
   SomeFileOverlapsRange BytewiseComparator True [sample_file 4 [1] [2], sample_file 5 [4] [6]] (Some [2]) None = Some True"
proof -
  note T = overlap_search_exact [OF bytewise.total_comparator_axioms sample_file_sorted, THEN conjunct2]
  show ?thesis unfolding T by (simp add: overlaps_def AfterFile_def BeforeFile_def sample_file_def sample_compare)
qed

theorem overlapping_inputs_exact_witness:
  "\<exists>inputs. GetOverlappingInputs (\<lambda>f. f) BytewiseComparator 0 [sample_file 4 [1] [3], sample_file 5 [3] [6], sample_file 6 [8] [9]]
      (Some (InternalKey [5] 7 kTypeValue)) (Some (InternalKey [5] 7 kTypeValue)) = Some inputs \<and>
     sample_file 4 [1] [3] \<in> set inputs \<and> sample_file 5 [3] [6] \<in> set inputs"
proof -
  let ?files = "[sample_file 4 [1] [3], sample_file 5 [3] [6], sample_file 6 [8] [9]]" and ?k = "Some (InternalKey [5] 7 kTypeValue)"
  obtain b' e' inputs where r: "GetOverlappingInputs (\<lambda>f. f) BytewiseComparator 0 ?files ?k ?k = Some inputs"
      "inputs = filter (\<lambda>f. overlaps BytewiseComparator b' e' f) ?files" "least_closed BytewiseComparator ((\<lambda>f. f) ` set ?files) (Some [5]) (Some [5]) b' e'"
      "\<forall>f\<in>set inputs. \<forall>g\<in>set ?files - set inputs. apart BytewiseComparator f g"
    using overlapping_inputs_exact [OF bytewise.total_comparator_axioms refl refl, of "\<lambda>f. f" 0 ?files ?k ?k] by auto
  have "overlaps BytewiseComparator (Some [5]) (Some [5]) (sample_file 5 [3] [6])"
    by (simp add: overlaps_def AfterFile_def BeforeFile_def sample_file_def sample_compare)
  then have "overlaps BytewiseComparator b' e' (sample_file 5 [3] [6])" using bytewise_files.overlaps_wider r(3) unfolding least_closed_def by blast
  then have five: "sample_file 5 [3] [6] \<in> set inputs" using r(2) by simp
  have "\<not> apart BytewiseComparator (sample_file 5 [3] [6]) (sample_file 4 [1] [3])" by (simp add: apart_def sample_file_def sample_compare)
  then have "sample_file 4 [1] [3] \<in> set inputs" using r(4) five by auto
  then show ?thesis using r(1) five by blast
qed

end
