(* ===== verification/Versions.thy ===== *)
theory Versions
  imports Complex_Main VersionFiles DBIters LoggingUtil
begin

text \<open>
  Versions of \<open>db/version_set.cc\<close>: the files of each level and the operations that read them. The metadata objects are shared
  between versions and mutated (seeks left, references), so a version holds their addresses and an operation takes what the addresses hold.
\<close>

section \<open>Definitions\<close>

type_synonym faddr = nat
type_synonym fstore = "faddr \<Rightarrow> FileMetaData"

record GetStats =
  seek_file :: "faddr option"
  seek_file_level :: int

datatype SaverState = kNotFound | kFound | kDeleted | kCorrupt

record Saver =
  sv_state :: SaverState
  sv_ucmp :: comparator
  sv_user_key :: bytes
  sv_value :: bytes

definition SaveValue :: "Saver \<Rightarrow> bytes \<Rightarrow> bytes \<Rightarrow> Saver" where
  "SaveValue s k v =
     (case ParseInternalKey k of
        None \<Rightarrow> s\<lparr>sv_state := kCorrupt\<rparr>
      | Some parsed_key \<Rightarrow>
          if Compare (sv_ucmp s) (user_key parsed_key) (sv_user_key s) = 0 then
            if vtype parsed_key = kTypeValue then s\<lparr>sv_state := kFound, sv_value := v\<rparr> else s\<lparr>sv_state := kDeleted\<rparr>
          else s)"

text \<open>\<open>NewestFirst\<close> orders by descending file number, and the numbers of a version's files are distinct.\<close>

definition NewestFirst :: "FileMetaData \<Rightarrow> int" where
  "NewestFirst f = - uint (number f)"

text \<open>The callback returns whether to go on; the search tells whether it was stopped.\<close>

fun each_newest :: "('st \<Rightarrow> nat \<Rightarrow> faddr \<Rightarrow> (bool \<times> 'st) option) \<Rightarrow> faddr list \<Rightarrow> 'st \<Rightarrow> (bool \<times> 'st) option" where
  "each_newest func [] st = Some (True, st)"
| "each_newest func (f # fs) st = do {
     (go, st) \<leftarrow> func st 0 f;
     if go then each_newest func fs st else Some (False, st) }"

fun each_level :: "fstore \<Rightarrow> comparator \<Rightarrow> faddr list list \<Rightarrow> bytes \<Rightarrow> bytes \<Rightarrow> ('st \<Rightarrow> nat \<Rightarrow> faddr \<Rightarrow> (bool \<times> 'st) option) \<Rightarrow>
    nat list \<Rightarrow> 'st \<Rightarrow> 'st option" where
  "each_level m ucmp files ukey internal_key func [] st = Some st"
| "each_level m ucmp files ukey internal_key func (level # ls) st =
     (let fs = files ! level
      in if fs = [] then each_level m ucmp files ukey internal_key func ls st
         else do {
           index \<leftarrow> FindFile (InternalKeyComparator ucmp) (map m fs) internal_key;
           if unat index < length fs then
             let f = fs ! unat index
             in if Compare ucmp ukey (ExtractUserKey (smallest (m f))) < 0 then each_level m ucmp files ukey internal_key func ls st
                else do {
                  (go, st) \<leftarrow> func st level f;
                  if go then each_level m ucmp files ukey internal_key func ls st else Some st }
           else each_level m ucmp files ukey internal_key func ls st })"

definition level0_candidates :: "fstore \<Rightarrow> comparator \<Rightarrow> faddr list \<Rightarrow> bytes \<Rightarrow> faddr list" where
  "level0_candidates m ucmp fs ukey =
     filter (\<lambda>f. Compare ucmp ukey (ExtractUserKey (smallest (m f))) \<ge> 0 \<and> Compare ucmp ukey (ExtractUserKey (largest (m f))) \<le> 0) fs"

definition ForEachOverlapping ::
  "fstore \<Rightarrow> comparator \<Rightarrow> faddr list list \<Rightarrow> bytes \<Rightarrow> bytes \<Rightarrow> ('st \<Rightarrow> nat \<Rightarrow> faddr \<Rightarrow> (bool \<times> 'st) option) \<Rightarrow> 'st \<Rightarrow> 'st option" where
  "ForEachOverlapping m ucmp files ukey internal_key func st = do {
     let tmp = sort_key (\<lambda>f. NewestFirst (m f)) (level0_candidates m ucmp (files ! 0) ukey);
     (go, st) \<leftarrow> each_newest func tmp st;
     if go then each_level m ucmp files ukey internal_key func [1..<kNumLevels] st else Some st }"

subsection \<open>Get\<close>

record GetState =
  gs_saver :: Saver
  gs_stats :: GetStats
  gs_last_file_read :: "faddr option"
  gs_last_file_read_level :: int
  gs_s :: Status
  gs_found :: bool
  gs_table_cache :: TableCache
  gs_block_cache :: block_cache

definition charge_seek :: "GetState \<Rightarrow> GetState" where
  "charge_seek st =
     (if seek_file (gs_stats st) = None \<and> gs_last_file_read st \<noteq> None
      then st\<lparr>gs_stats := \<lparr>seek_file = gs_last_file_read st, seek_file_level = gs_last_file_read_level st\<rparr>\<rparr> else st)"

definition get_Match :: "snappy \<Rightarrow> fstore \<Rightarrow> ReadOptions \<Rightarrow> bytes \<Rightarrow> GetState \<Rightarrow> nat \<Rightarrow> faddr \<Rightarrow> (bool \<times> GetState) option" where
  "get_Match sn m options k st level f = do {
     let st = (charge_seek st)\<lparr>gs_last_file_read := Some f, gs_last_file_read_level := int level\<rparr>;
     (saved, s, tc, bc) \<leftarrow> tc_Get sn (gs_table_cache st) (gs_block_cache st) options (number (m f)) (file_size (m f)) k;
     let st = st\<lparr>gs_s := s, gs_table_cache := tc, gs_block_cache := bc,
       gs_saver := (case saved of None \<Rightarrow> gs_saver st | Some (sk, v) \<Rightarrow> SaveValue (gs_saver st) sk v)\<rparr>;
     Some (if \<not> ok s then (False, st\<lparr>gs_found := True\<rparr>)
           else case sv_state (gs_saver st) of
             kNotFound \<Rightarrow> (True, st)
           | kFound \<Rightarrow> (False, st\<lparr>gs_found := True\<rparr>)
           | kDeleted \<Rightarrow> (False, st)
           | kCorrupt \<Rightarrow> (False, st\<lparr>gs_s := Corruption (str ''corrupted key for '') (sv_user_key (gs_saver st)), gs_found := True\<rparr>)) }"

definition new_GetState :: "comparator \<Rightarrow> LookupKey \<Rightarrow> bytes \<Rightarrow> TableCache \<Rightarrow> block_cache \<Rightarrow> GetState" where
  "new_GetState ucmp k value tc bc =
     \<lparr>gs_saver = \<lparr>sv_state = kNotFound, sv_ucmp = ucmp, sv_user_key = lk_user_key k, sv_value = value\<rparr>,
      gs_stats = \<lparr>seek_file = None, seek_file_level = -1\<rparr>, gs_last_file_read = None, gs_last_file_read_level = -1,
      gs_s = Status_OK, gs_found = False, gs_table_cache = tc, gs_block_cache = bc\<rparr>"

text \<open>The status, the value, the statistics and the caches.\<close>

definition Version_Get ::
  "snappy \<Rightarrow> fstore \<Rightarrow> comparator \<Rightarrow> faddr list list \<Rightarrow> TableCache \<Rightarrow> block_cache \<Rightarrow> ReadOptions \<Rightarrow> LookupKey \<Rightarrow> bytes \<Rightarrow>
   (Status \<times> bytes \<times> GetStats \<times> TableCache \<times> block_cache) option" where
  "Version_Get sn m ucmp files tc bc options k value = do {
     st \<leftarrow> ForEachOverlapping m ucmp files (lk_user_key k) (lk_internal_key k) (get_Match sn m options (lk_internal_key k)) (new_GetState ucmp k value tc bc);
     Some (if gs_found st then gs_s st else NotFound [] [], sv_value (gs_saver st), gs_stats st, gs_table_cache st, gs_block_cache st) }"

subsection \<open>Seek statistics\<close>

record Version =
  v_refs :: int
  v_files :: "faddr list list"
  file_to_compact :: "faddr option"
  file_to_compact_level :: int
  compaction_score :: rat
  compaction_level :: int

definition new_Version :: Version where
  "new_Version = \<lparr>v_refs = 0, v_files = replicate kNumLevels [], file_to_compact = None, file_to_compact_level = -1,
     compaction_score = -1, compaction_level = -1\<rparr>"

definition UpdateStats :: "fstore \<Rightarrow> Version \<Rightarrow> GetStats \<Rightarrow> bool \<times> fstore \<times> Version" where
  "UpdateStats m v stats =
     (case seek_file stats of
        None \<Rightarrow> (False, m, v)
      | Some f \<Rightarrow>
          let m = m(f := (m f)\<lparr>allowed_seeks := allowed_seeks (m f) - 1\<rparr>)
          in if allowed_seeks (m f) \<le> 0 \<and> file_to_compact v = None
             then (True, m, v\<lparr>file_to_compact := Some f, file_to_compact_level := seek_file_level stats\<rparr>)
             else (False, m, v))"

definition sample_Match :: "GetStats \<times> nat \<Rightarrow> nat \<Rightarrow> faddr \<Rightarrow> (bool \<times> GetStats \<times> nat) option" where
  "sample_Match st level f =
     (let (stats, n) = st; n = n + 1;
          stats = (if n = 1 then \<lparr>seek_file = Some f, seek_file_level = int level\<rparr> else stats)
      in Some (n < 2, stats, n))"

definition RecordReadSample :: "fstore \<Rightarrow> comparator \<Rightarrow> Version \<Rightarrow> bytes \<Rightarrow> (bool \<times> fstore \<times> Version) option" where
  "RecordReadSample m ucmp v internal_key =
     (case ParseInternalKey internal_key of
        None \<Rightarrow> Some (False, m, v)
      | Some k \<Rightarrow> do {
          (stats, n) \<leftarrow> ForEachOverlapping m ucmp (v_files v) (user_key k) internal_key sample_Match (\<lparr>seek_file = None, seek_file_level = 0\<rparr>, 0);
          Some (if n \<ge> 2 then UpdateStats m v stats else (False, m, v)) })"

subsection \<open>Where a memtable goes\<close>

definition OverlapInLevel :: "fstore \<Rightarrow> comparator \<Rightarrow> Version \<Rightarrow> nat \<Rightarrow> bytes option \<Rightarrow> bytes option \<Rightarrow> bool option" where
  "OverlapInLevel m ucmp v level smallest_user_key largest_user_key =
     SomeFileOverlapsRange ucmp (level > 0) (map m (v_files v ! level)) smallest_user_key largest_user_key"

function pick_level :: "Options \<Rightarrow> fstore \<Rightarrow> comparator \<Rightarrow> Version \<Rightarrow> bytes \<Rightarrow> bytes \<Rightarrow> nat \<Rightarrow> nat option" where
  "pick_level options m ucmp v lo hi level =
     (if level < kMaxMemCompactLevel then do {
        o1 \<leftarrow> OverlapInLevel m ucmp v (level + 1) (Some lo) (Some hi);
        if o1 then Some level
        else if level + 2 < kNumLevels then do {
          overlapping \<leftarrow> GetOverlappingInputs m ucmp (level + 2) (v_files v ! (level + 2))
             (Some (InternalKey lo kMaxSequenceNumber kValueTypeForSeek)) (Some (InternalKey hi 0 kTypeDeletion));
          if TotalFileSize (map m overlapping) > MaxGrandParentOverlapBytes options then Some level
          else pick_level options m ucmp v lo hi (level + 1) }
        else pick_level options m ucmp v lo hi (level + 1) }
      else Some level)"
  by auto
termination by (relation "measure (\<lambda>(_, _, _, _, _, _, level). kMaxMemCompactLevel - level)") auto

declare pick_level.simps [simp del]

definition PickLevelForMemTableOutput :: "Options \<Rightarrow> fstore \<Rightarrow> comparator \<Rightarrow> Version \<Rightarrow> bytes \<Rightarrow> bytes \<Rightarrow> nat option" where
  "PickLevelForMemTableOutput options m ucmp v smallest_user_key largest_user_key = do {
     o0 \<leftarrow> OverlapInLevel m ucmp v 0 (Some smallest_user_key) (Some largest_user_key);
     if \<not> o0 then pick_level options m ucmp v smallest_user_key largest_user_key 0 else Some 0 }"

definition NumFiles :: "Version \<Rightarrow> nat \<Rightarrow> nat" where
  "NumFiles v level = length (v_files v ! level)"

definition file_DebugString :: "FileMetaData \<Rightarrow> bytes" where
  "file_DebugString f = str '' '' @ decimal (unat (number f)) @ str '':'' @ decimal (unat (file_size f)) @ str ''['' @
     InternalKey_DebugString (smallest f) @ str '' .. '' @ InternalKey_DebugString (largest f) @ str '']'' @ [10]"

definition Version_DebugString :: "fstore \<Rightarrow> Version \<Rightarrow> bytes" where
  "Version_DebugString m v =
     concat (map (\<lambda>level. str ''--- level '' @ decimal level @ str '' ---'' @ [10] @ concat (map (\<lambda>f. file_DebugString (m f)) (v_files v ! level))) [0..<kNumLevels])"

end
