(* ===== verification/VersionReads.thy ===== *)
theory VersionReads
  imports Versions
begin

text \<open>
  What a version's \<open>Get\<close> finds: the order in which the files are searched, the answer of each file, and that the first answer
  is the newest entry of all files, given how the levels are ordered by age.
\<close>

section \<open>Entries\<close>

definition euk :: "bytes \<times> bytes \<Rightarrow> bytes" where
  "euk e = ExtractUserKey (fst e)"

definition eseq :: "bytes \<times> bytes \<Rightarrow> u64" where
  "eseq e = sequence (the (ParseInternalKey (fst e)))"

definition is_put :: "bytes \<times> bytes \<Rightarrow> bool" where
  "is_put e \<longleftrightarrow> vtype (the (ParseInternalKey (fst e))) = kTypeValue"

definition visible :: "bytes \<Rightarrow> u64 \<Rightarrow> bytes \<times> bytes \<Rightarrow> bool" where
  "visible u s e \<longleftrightarrow> euk e = u \<and> eseq e \<le> s"

lemma parsed_entry:
  assumes "parsed_entries c es" "e \<in> set es"
  obtains t where "ParseInternalKey (fst e) = Some \<lparr>user_key = euk e, sequence = eseq e, vtype = t\<rparr>" "is_put e \<longleftrightarrow> t = kTypeValue"
    "fst e = InternalKey (euk e) (eseq e) t" "eseq e \<le> kMaxSequenceNumber"
proof -
  obtain p where p: "p < length es" "es ! p = e" using assms(2) by (auto simp: in_set_conv_nth)
  show ?thesis using parsed_nth [OF assms(1) p(1)] that p(2) by (metis at_seq_def eseq_def euk_def is_put_def is_value_def uk_def)
qed

text \<open>What a lookup in a table may answer.\<close>

definition table_answer :: "comparator \<Rightarrow> (bytes \<times> bytes) list \<Rightarrow> bytes \<Rightarrow> (bytes \<times> bytes) option \<Rightarrow> bool" where
  "table_answer c es k r \<longleftrightarrow>
     (let i = lower_bound (InternalKeyComparator c) es k
      in (r = None \<or> i < length es \<and> r = Some (es ! i)) \<and> (i < length es \<and> euk (es ! i) = ExtractUserKey k \<longrightarrow> r = Some (es ! i)))"

fun visit :: "('st \<Rightarrow> nat \<Rightarrow> faddr \<Rightarrow> (bool \<times> 'st) option) \<Rightarrow> (nat \<times> faddr) list \<Rightarrow> 'st \<Rightarrow> 'st option" where
  "visit func [] st = Some st"
| "visit func (lf # fs) st = do { (go, st) \<leftarrow> func st (fst lf) (snd lf); if go then visit func fs st else Some st }"

definition level_candidate :: "fstore \<Rightarrow> comparator \<Rightarrow> faddr list \<Rightarrow> bytes \<Rightarrow> bytes \<Rightarrow> faddr list" where
  "level_candidate m c fs u k =
     (let i = lower_bound (InternalKeyComparator c) (map file_entry (map m fs)) k
      in if i < length fs \<and> \<not> Compare c u (ExtractUserKey (smallest (m (fs ! i)))) < 0 then [fs ! i] else [])"

definition search_order :: "fstore \<Rightarrow> comparator \<Rightarrow> faddr list list \<Rightarrow> bytes \<Rightarrow> bytes \<Rightarrow> (nat \<times> faddr) list" where
  "search_order m c files u k =
     map (Pair 0) (sort_key (\<lambda>f. NewestFirst (m f)) (level0_candidates m c (files ! 0) u)) @
     concat (map (\<lambda>l. map (Pair l) (level_candidate m c (files ! l) u k)) [1..<kNumLevels])"

fun first_hit :: "('f \<Rightarrow> (bytes \<times> bytes) list) \<Rightarrow> bytes \<Rightarrow> u64 \<Rightarrow> 'f list \<Rightarrow> (bytes \<times> bytes) option" where
  "first_hit cont u s [] = None"
| "first_hit cont u s (f # fs) = (case find (visible u s) (cont f) of None \<Rightarrow> first_hit cont u s fs | Some e \<Rightarrow> Some e)"

section \<open>The search\<close>

lemma sorted_wrt_concat_map:
  "(\<And>l. l \<in> set ls \<Longrightarrow> sorted_wrt R (g l)) \<Longrightarrow> sorted_wrt (\<lambda>l l'. \<forall>x\<in>set (g l). \<forall>y\<in>set (g l'). R x y) ls \<Longrightarrow> sorted_wrt R (concat (map g ls))"
  by (induction ls) (auto simp: sorted_wrt_append)

lemma visit_append: "visit func (xs @ ys) st = do { (go, st) \<leftarrow> each_newest func (map snd xs) st; if go then visit func ys st else Some st }"
  if "\<forall>x\<in>set xs. fst x = 0"
  using that by (induction xs arbitrary: st) (auto simp: Option.bind_eq_Some_conv split: bind_splits)

lemma level_candidate_length: "length (level_candidate m c fs u k) \<le> 1"
  by (simp add: level_candidate_def Let_def)

lemma level_candidate_sub: "f \<in> set (level_candidate m c fs u k) \<Longrightarrow> f \<in> set fs"
  by (auto simp: level_candidate_def Let_def split: if_splits)

lemma newest_sorted:
  assumes "distinct (map (\<lambda>f. number (m f)) fs)"
  shows "sorted_wrt (\<lambda>f g. number (m g) < number (m f)) (sort_key (\<lambda>f. NewestFirst (m f)) fs)"
proof -
  define t where "t = sort_key (\<lambda>f. NewestFirst (m f)) fs"
  have "sorted (map (\<lambda>f. NewestFirst (m f)) t)" "distinct (map (\<lambda>f. number (m f)) t)" using assms by (simp_all add: t_def distinct_map)
  note st = this
  have "number (m (t ! j)) < number (m (t ! i))" if ij: "i < j" "j < length t" for i j
  proof -
    have "NewestFirst (m (t ! i)) \<le> NewestFirst (m (t ! j))" using st(1) ij by (simp add: sorted_iff_nth_mono)
    moreover have "number (m (t ! i)) \<noteq> number (m (t ! j))" using nth_eq_iff_index_eq [OF st(2), of i j] ij by simp
    ultimately show ?thesis by (simp add: NewestFirst_def word_less_def order_less_le word_uint_eq_iff)
  qed
  then show ?thesis unfolding t_def [symmetric] sorted_wrt_iff_nth_less by blast
qed

lemma search_order_length: "length (search_order m c files u k) \<le> length (files ! 0) + kNumLevels"
proof -
  have "length (concat (map (\<lambda>l. map (Pair l) (level_candidate m c (files ! l) u k)) ls)) \<le> length ls" for ls
  proof (induction ls)
    case (Cons l ls)
    then show ?case using level_candidate_length [of m c "files ! l" u k] by simp
  qed simp
  from this [of "[1..<kNumLevels]"] show ?thesis unfolding search_order_def level0_candidates_def
    using length_filter_le [of _ "files ! 0"] by (simp add: add_mono le_diff_conv)
qed

locale lsm_order = file_order c for c
begin

lemma each_level_visit:
  assumes "8 \<le> length k"
  shows "\<forall>l\<in>set ls. sorted_files c (map m (files ! l)) \<Longrightarrow>
    each_level m c files u k func ls st = visit func (concat (map (\<lambda>l. map (Pair l) (level_candidate m c (files ! l) u k)) ls)) st"
proof (induction ls arbitrary: st)
  case (Cons l ls)
  have S: "sorted_files c (map m (files ! l))" using Cons.prems by simp
  then have len: "length (map m (files ! l)) < 2 ^ 31" by (simp add: sorted_files_def)
  note F = FindFile_finds [OF sorted_files_entries [OF S] assms len]
  have IH: "each_level m c files u k func ls st = visit func (concat (map (\<lambda>l. map (Pair l) (level_candidate m c (files ! l) u k)) ls)) st" for st
    using Cons by simp
  show ?case
  proof (cases "files ! l = []")
    case True
    then show ?thesis using IH by (simp add: level_candidate_def)
  next
    case False
    then show ?thesis using F by (simp add: level_candidate_def IH Let_def cong: if_cong)
  qed
qed simp

lemma ForEach_visit:
  assumes "8 \<le> length k" "\<forall>l\<in>{1..<kNumLevels}. sorted_files c (map m (files ! l))"
  shows "ForEachOverlapping m c files u k func st = visit func (search_order m c files u k) st"
proof -
  have "\<forall>l\<in>set [1..<kNumLevels]. sorted_files c (map m (files ! l))" using assms(2) by simp
  note E = each_level_visit [OF assms(1) this, where u = u and func = func]
  show ?thesis unfolding ForEachOverlapping_def search_order_def
    by (subst visit_append) (auto simp: E [unfolded One_nat_def] comp_def Let_def cong: if_cong)
qed

text \<open>Where an entry stands against the key of a lookup.\<close>

lemma entry_before:
  assumes "parsed_entries c es" "e \<in> set es" "s \<le> kMaxSequenceNumber"
  shows "InternalKey_Compare c (fst e) (InternalKey u s kTypeValue) < 0 \<longleftrightarrow> Compare c (euk e) u < 0 \<or> euk e = u \<and> s < eseq e"
proof -
  obtain t where t: "fst e = InternalKey (euk e) (eseq e) t" "eseq e \<le> kMaxSequenceNumber" using parsed_entry [OF assms(1,2)] by metis
  show ?thesis using InternalKey_Compare_keys [OF total_comparator_axioms t(2) assms(3), of "euk e" t u kTypeValue] t(1) by (cases t) auto
qed

lemma key_less_seq:
  assumes "parsed_entries c es" "a \<in> set es" "parsed_entries c es'" "b \<in> set es'" "InternalKey_Compare c (fst a) (fst b) < 0" "euk a = euk b"
  shows "eseq b \<le> eseq a"
proof -
  obtain t where t: "fst a = InternalKey (euk a) (eseq a) t" "eseq a \<le> kMaxSequenceNumber" using parsed_entry [OF assms(1,2)] by metis
  obtain t' where t': "fst b = InternalKey (euk b) (eseq b) t'" "eseq b \<le> kMaxSequenceNumber" using parsed_entry [OF assms(3,4)] by metis
  show ?thesis using InternalKey_Compare_keys [OF total_comparator_axioms t(2) t'(2), of "euk a" t "euk b" t'] assms(5,6) t(1) t'(1) Compare_refl [of "euk a"]
    by (auto simp: not_less)
qed

lemma entry_order:
  assumes "parsed_entries c es" "i < j" "j < length es"
  shows "Compare c (euk (es ! i)) (euk (es ! j)) \<le> 0" "euk (es ! i) = euk (es ! j) \<Longrightarrow> eseq (es ! j) \<le> eseq (es ! i)"
proof -
  have less: "InternalKey_Compare c (fst (es ! i)) (fst (es ! j)) < 0" using assms by (simp add: parsed_entries_def sorted_entries_def sorted_wrt_iff_nth_less)
  then show "Compare c (euk (es ! i)) (euk (es ! j)) \<le> 0" using internal_le_user [of "fst (es ! i)" "fst (es ! j)"] by (simp add: euk_def)
  show "euk (es ! i) = euk (es ! j) \<Longrightarrow> eseq (es ! j) \<le> eseq (es ! i)" by (rule key_less_seq [OF assms(1) _ assms(1) _ less]) (use assms in simp_all)
qed

lemma internal_le_less:
  assumes "8 \<le> length x" "8 \<le> length y" "8 \<le> length z" "InternalKey_Compare c x y \<le> 0" "InternalKey_Compare c y z < 0"
  shows "InternalKey_Compare c x z < 0"
proof (cases "x = y")
  case False
  then have "InternalKey_Compare c x y < 0" using assms(4) InternalKey_Compare_zero [OF assms(1,2)] by simp
  then show ?thesis using comparator_contract.Compare_trans [OF internal_contract assms(1-3)] assms(5) by simp
qed (use assms(5) in simp)

text \<open>A table answers with the first visible entry, or with nothing of the user key.\<close>

lemma answer_find:
  assumes P: "parsed_entries c es" and s: "s \<le> kMaxSequenceNumber" and A: "table_answer c es (InternalKey u s kTypeValue) r"
  shows "case find (visible u s) es of Some e \<Rightarrow> r = Some e \<and> e \<in> set es | None \<Rightarrow> r = None \<or> (\<exists>e\<in>set es. r = Some e \<and> euk e \<noteq> u)"
proof -
  define i where "i = lower_bound (InternalKeyComparator c) es (InternalKey u s kTypeValue)"
  have S: "sorted_entries (InternalKeyComparator c) (\<lambda>k. 8 \<le> length k) es" using P by (simp add: parsed_entries_def)
  have lb: "Compare c (euk (es ! q)) u < 0 \<or> euk (es ! q) = u \<and> s < eseq (es ! q) \<longleftrightarrow> q < i" if "q < length es" for q
    using lower_bound_iff [OF S _ that, of "InternalKey u s kTypeValue"] entry_before [OF P _ s, of "es ! q" u] that by (simp add: i_def)
  have early: "\<not> visible u s (es ! q)" if "q < length es" "q < i" for q using lb [OF that(1)] that(2) Compare_refl [of u] by (auto simp: visible_def)
  have at: "visible u s (es ! i) \<longleftrightarrow> euk (es ! i) = u" if "i < length es" using lb [OF that] by (auto simp: visible_def)
  have R: "r = None \<or> i < length es \<and> r = Some (es ! i)" "i < length es \<Longrightarrow> euk (es ! i) = u \<Longrightarrow> r = Some (es ! i)"
    using A by (auto simp: table_answer_def Let_def i_def)
  show ?thesis
  proof (cases "find (visible u s) es")
    case None
    then have "\<not> visible u s (es ! i)" if "i < length es" using that nth_mem [OF that] unfolding find_None_iff by blast
    then show ?thesis using None R(1) at by auto
  next
    case (Some e)
    then obtain p where p: "p < length es" "visible u s (es ! p)" "e = es ! p" "\<And>q. q < p \<Longrightarrow> \<not> visible u s (es ! q)" by (auto simp: find_Some_iff)
    have ip: "i \<le> p" using early [OF p(1)] p(2) by (meson not_le)
    have "euk (es ! i) = u"
    proof (cases "i = p")
      case False
      then have "Compare c (euk (es ! i)) u \<le> 0" "\<not> Compare c (euk (es ! i)) u < 0" using entry_order(1) [OF P, of i p] ip p(1,2) lb [of i] by (auto simp: visible_def)
      then show ?thesis using Compare_zero [of "euk (es ! i)" u] by simp
    qed (use p(2) in \<open>simp add: visible_def\<close>)
    moreover have i: "i < length es" using ip p(1) by simp
    ultimately have "p \<le> i" using p(4) [of i] at [OF i] by (meson not_le)
    then show ?thesis using Some R(2) [OF i] ip p(1,3) \<open>euk (es ! i) = u\<close> by auto
  qed
qed

lemma SaveValue_entry:
  assumes "parsed_entries c es" "e \<in> set es" "sv_ucmp sv = c"
  shows "SaveValue sv (fst e) (snd e) =
    (if euk e = sv_user_key sv then if is_put e then sv\<lparr>sv_state := kFound, sv_value := snd e\<rparr> else sv\<lparr>sv_state := kDeleted\<rparr> else sv)"
proof -
  obtain t where t: "ParseInternalKey (fst e) = Some \<lparr>user_key = euk e, sequence = eseq e, vtype = t\<rparr>" "is_put e \<longleftrightarrow> t = kTypeValue"
    using parsed_entry [OF assms(1,2)] by metis
  then show ?thesis using Compare_zero [of "euk e" "sv_user_key sv"] assms(3) by (simp add: SaveValue_def)
qed

end

section \<open>Reading through stored tables\<close>

text \<open>
  What the version relies on: the table cache answers a lookup in a stored file as a table with the file's entries does, for as
  many calls as are left.
\<close>

locale stored_tables = lsm_order c for c +
  fixes sn :: snappy and options :: ReadOptions and good :: "nat \<Rightarrow> TableCache \<Rightarrow> block_cache \<Rightarrow> bool"
    and cont :: "FileMetaData \<Rightarrow> (bytes \<times> bytes) list" and stored :: "FileMetaData \<Rightarrow> bool"
  assumes get_answers: "good (Suc n) tc bc \<Longrightarrow> stored f \<Longrightarrow> 8 \<le> length k \<Longrightarrow>
      \<exists>r tc' bc'. tc_Get sn tc bc options (number f) (file_size f) k = Some (r, Status_OK, tc', bc') \<and> good n tc' bc' \<and> table_answer c (cont f) k r"
    and good_less: "good (Suc n) tc bc \<Longrightarrow> good n tc bc"
begin

definition searching :: "bytes \<Rightarrow> bytes \<Rightarrow> nat \<Rightarrow> GetState \<Rightarrow> bool" where
  "searching u v n st \<longleftrightarrow> gs_saver st = \<lparr>sv_state = kNotFound, sv_ucmp = c, sv_user_key = u, sv_value = v\<rparr> \<and> \<not> gs_found st \<and>
     good n (gs_table_cache st) (gs_block_cache st)"

definition answered :: "bytes \<Rightarrow> bytes \<Rightarrow> (bytes \<times> bytes) option \<Rightarrow> GetState \<Rightarrow> bool" where
  "answered u v hit st \<longleftrightarrow>
     (case hit of
        Some e \<Rightarrow> if is_put e then gs_found st \<and> gs_s st = Status_OK \<and> sv_value (gs_saver st) = snd e else \<not> gs_found st \<and> sv_value (gs_saver st) = v
      | None \<Rightarrow> \<not> gs_found st \<and> sv_value (gs_saver st) = v)"

lemma Match_step:
  assumes "searching u v (Suc n) st" "stored (m f)" "parsed_entries c (cont (m f))" "s \<le> kMaxSequenceNumber"
  obtains go st' where "get_Match sn m options (InternalKey u s kTypeValue) st l f = Some (go, st')" "good n (gs_table_cache st') (gs_block_cache st')"
    "case find (visible u s) (cont (m f)) of None \<Rightarrow> go \<and> searching u v n st' | Some e \<Rightarrow> \<not> go \<and> answered u v (Some e) st'"
proof -
  let ?k = "InternalKey u s kTypeValue"
  obtain r tc' bc' where g: "tc_Get sn (gs_table_cache st) (gs_block_cache st) options (number (m f)) (file_size (m f)) ?k = Some (r, Status_OK, tc', bc')"
    "good n tc' bc'" "table_answer c (cont (m f)) ?k r"
    using get_answers [of n "gs_table_cache st" "gs_block_cache st" "m f" ?k] assms(1,2) unfolding searching_def by auto
  note A = answer_find [OF assms(3,4) g(3)]
  have sv: "gs_saver st = \<lparr>sv_state = kNotFound, sv_ucmp = c, sv_user_key = u, sv_value = v\<rparr>" "\<not> gs_found st" using assms(1) by (simp_all add: searching_def)
  note V = SaveValue_entry [OF assms(3), of _ "gs_saver st"]
  have ch: "gs_saver (charge_seek st) = gs_saver st" "gs_found (charge_seek st) = gs_found st" "gs_table_cache (charge_seek st) = gs_table_cache st"
    "gs_block_cache (charge_seek st) = gs_block_cache st" by (simp_all add: charge_seek_def)
  show ?thesis
  proof (cases "find (visible u s) (cont (m f))")
    case None
    have "case r of None \<Rightarrow> True | Some e \<Rightarrow> SaveValue (gs_saver st) (fst e) (snd e) = gs_saver st" using A None V sv by (auto split: option.splits)
    then show ?thesis using that [of True] None g(1,2) sv by (cases r) (auto simp: get_Match_def Let_def ch searching_def split: prod.splits)
  next
    case (Some e)
    then have "r = Some e" "e \<in> set (cont (m f))" using A by simp_all
    moreover have "euk e = u" using Some by (auto simp: find_Some_iff visible_def)
    ultimately show ?thesis using that [of False] Some g(1,2) sv V [of e]
      by (cases e; cases "is_put e") (simp_all add: get_Match_def Let_def ch answered_def)
  qed
qed

lemma visit_Match:
  assumes "s \<le> kMaxSequenceNumber"
  shows "searching u v (length xs + n) st \<Longrightarrow> (\<And>lf. lf \<in> set xs \<Longrightarrow> stored (m (snd lf)) \<and> parsed_entries c (cont (m (snd lf)))) \<Longrightarrow>
    \<exists>st'. visit (get_Match sn m options (InternalKey u s kTypeValue)) xs st = Some st' \<and> good n (gs_table_cache st') (gs_block_cache st') \<and>
      answered u v (first_hit (\<lambda>lf. cont (m (snd lf))) u s xs) st'"
proof (induction xs arbitrary: st)
  case Nil
  then show ?case by (simp add: searching_def answered_def)
next
  case (Cons lf xs)
  have down: "good (k + n) tc bc \<Longrightarrow> good n tc bc" for k tc bc by (induction k) (auto dest: good_less)
  obtain go st' where M: "get_Match sn m options (InternalKey u s kTypeValue) st (fst lf) (snd lf) = Some (go, st')" "good (length xs + n) (gs_table_cache st') (gs_block_cache st')"
    "case find (visible u s) (cont (m (snd lf))) of None \<Rightarrow> go \<and> searching u v (length xs + n) st' | Some e \<Rightarrow> \<not> go \<and> answered u v (Some e) st'"
    using Match_step [of u v "length xs + n" st m "snd lf" s "fst lf"] Cons.prems assms by auto
  show ?case
  proof (cases "find (visible u s) (cont (m (snd lf)))")
    case None
    then have "searching u v (length xs + n) st'" go using M(3) by auto
    then show ?thesis using M(1) Cons.IH [of st'] Cons.prems(2) None by auto
  next
    case (Some e)
    then show ?thesis using M down [of "length xs"] by auto
  qed
qed

lemma Version_Get_first_hit:
  assumes "s \<le> kMaxSequenceNumber" "\<forall>l\<in>{1..<kNumLevels}. sorted_files c (map m (files ! l))" "xs = search_order m c files u (InternalKey u s kTypeValue)"
    "\<And>lf. lf \<in> set xs \<Longrightarrow> stored (m (snd lf)) \<and> parsed_entries c (cont (m (snd lf)))" "good (length xs + n) tc bc"
  obtains stats tc' bc' st where "good n tc' bc'" "Version_Get sn m c files tc bc options (make_LookupKey u s) value =
      Some (if gs_found st then gs_s st else NotFound [] [], sv_value (gs_saver st), stats, tc', bc')"
    "answered u value (first_hit (\<lambda>lf. cont (m (snd lf))) u s xs) st"
proof -
  have "searching u value (length xs + n) (new_GetState c (make_LookupKey u s) value tc bc)" using assms(5) by (simp add: searching_def new_GetState_def)
  from visit_Match [where m = m, OF assms(1) this assms(4)] obtain st where
    "visit (get_Match sn m options (InternalKey u s kTypeValue)) xs (new_GetState c (make_LookupKey u s) value tc bc) = Some st"
    "good n (gs_table_cache st) (gs_block_cache st)" "answered u value (first_hit (\<lambda>lf. cont (m (snd lf))) u s xs) st" by blast
  then show ?thesis using that [of "gs_table_cache st" "gs_block_cache st" st "gs_stats st"]
    by (simp add: Version_Get_def assms(3) ForEach_visit [OF _ assms(2)])
qed

end

section \<open>The newest entry\<close>

text \<open>
  A file's metadata names its first and last key. In levels above 0 the files follow each other. Of two entries of a user key,
  the one in a newer level-0 file, or in a lower level, is the newer one.
\<close>

definition newer_than :: "(bytes \<times> bytes) list \<Rightarrow> (bytes \<times> bytes) list \<Rightarrow> bool" where
  "newer_than es es' \<longleftrightarrow> (\<forall>e\<in>set es. \<forall>e'\<in>set es'. euk e = euk e' \<longrightarrow> eseq e' < eseq e)"

definition described :: "comparator \<Rightarrow> (FileMetaData \<Rightarrow> (bytes \<times> bytes) list) \<Rightarrow> FileMetaData \<Rightarrow> bool" where
  "described c cont f \<longleftrightarrow> parsed_entries c (cont f) \<and> cont f \<noteq> [] \<and> smallest f = fst (hd (cont f)) \<and> largest f = fst (last (cont f))"

definition levels_ok :: "comparator \<Rightarrow> (FileMetaData \<Rightarrow> (bytes \<times> bytes) list) \<Rightarrow> FileMetaData list list \<Rightarrow> bool" where
  "levels_ok c cont L \<longleftrightarrow> length L = kNumLevels \<and>
     (\<forall>fs\<in>set L. \<forall>f\<in>set fs. described c cont f) \<and>
     (\<forall>l\<in>{1..<kNumLevels}. sorted_files c (L ! l)) \<and>
     (\<forall>f\<in>set (L ! 0). \<forall>g\<in>set (L ! 0). number g < number f \<longrightarrow> newer_than (cont f) (cont g)) \<and> distinct (map number (L ! 0)) \<and>
     (\<forall>i j. i < j \<and> j < kNumLevels \<longrightarrow> (\<forall>f\<in>set (L ! i). \<forall>g\<in>set (L ! j). newer_than (cont f) (cont g)))"

definition all_entries :: "(FileMetaData \<Rightarrow> (bytes \<times> bytes) list) \<Rightarrow> FileMetaData list list \<Rightarrow> (bytes \<times> bytes) set" where
  "all_entries cont L = (\<Union>fs\<in>set L. \<Union>f\<in>set fs. set (cont f))"

text \<open>An entry is the newest of those visible.\<close>

definition newest :: "bytes \<Rightarrow> u64 \<Rightarrow> (bytes \<times> bytes) set \<Rightarrow> bytes \<times> bytes \<Rightarrow> bool" where
  "newest u s E e \<longleftrightarrow> e \<in> E \<and> visible u s e \<and> (\<forall>e'\<in>E. visible u s e' \<longrightarrow> eseq e' \<le> eseq e)"

lemma first_hit_None: "first_hit cont u s xs = None \<longleftrightarrow> (\<forall>x\<in>set xs. \<forall>e\<in>set (cont x). \<not> visible u s e)"
  by (induction xs) (auto simp: find_None_iff find_Some_iff split: option.splits)

context lsm_order
begin

lemma find_newest:
  assumes "parsed_entries c es" "find (visible u s) es = Some e"
  shows "newest u s (set es) e"
proof -
  obtain p where p: "p < length es" "visible u s (es ! p)" "e = es ! p" "\<And>q. q < p \<Longrightarrow> \<not> visible u s (es ! q)" using assms(2) by (auto simp: find_Some_iff)
  have "eseq (es ! q) \<le> eseq (es ! p)" if "q < length es" "visible u s (es ! q)" for q
    using entry_order(2) [OF assms(1), of p q] p(2) p(4) [of q] that by (cases q p rule: linorder_cases) (auto simp: visible_def)
  then show ?thesis using p(1-3) unfolding newest_def by (metis in_set_conv_nth)
qed

lemma first_hit_newest:
  assumes "\<And>x. x \<in> set xs \<Longrightarrow> parsed_entries c (cont x)"
  shows "sorted_wrt (\<lambda>x y. newer_than (cont x) (cont y)) xs \<Longrightarrow> first_hit cont u s xs = Some e \<Longrightarrow> newest u s (\<Union>x\<in>set xs. set (cont x)) e"
  using assms
proof (induction xs)
  case (Cons x xs)
  show ?case
  proof (cases "find (visible u s) (cont x)")
    case None
    then have "newest u s (\<Union>x\<in>set xs. set (cont x)) e" using Cons by simp
    then show ?thesis using None by (auto simp: newest_def find_None_iff)
  next
    case (Some e')
    then have N: "newest u s (set (cont x)) e" using find_newest [OF Cons.prems(3) [of x]] Cons.prems(2) by simp
    moreover have "eseq e' \<le> eseq e" if "y \<in> set xs" "e' \<in> set (cont y)" "visible u s e'" for y e'
      using Cons.prems(1) N that unfolding newer_than_def newest_def visible_def by fastforce
    ultimately show ?thesis unfolding newest_def by auto
  qed
qed simp

text \<open>The keys of a file are in the range of its metadata.\<close>

lemma described_range:
  assumes "described c cont f" "e \<in> set (cont f)"
  shows "Compare c (ExtractUserKey (smallest f)) (euk e) \<le> 0" "Compare c (euk e) (ExtractUserKey (largest f)) \<le> 0"
    "InternalKey_Compare c (smallest f) (fst e) \<le> 0" "InternalKey_Compare c (fst e) (largest f) \<le> 0"
proof -
  obtain p where p: "p < length (cont f)" "e = cont f ! p" using assms(2) by (auto simp: in_set_conv_nth)
  let ?es = "cont f"
  have ne: "?es \<noteq> []" and P: "parsed_entries c ?es" using assms(1) by (auto simp: described_def)
  have k: "smallest f = fst (?es ! 0)" "largest f = fst (?es ! (length ?es - 1))" using assms(1) by (auto simp: described_def hd_conv_nth last_conv_nth)
  have le: "InternalKey_Compare c (fst (?es ! i)) (fst (?es ! j)) \<le> 0" if "i \<le> j" "j < length ?es" for i j
  proof (cases "i = j")
    case True
    then show ?thesis by (simp add: InternalKey_Compare_def Compare_refl)
  next
    case False
    then show ?thesis using P that by (simp add: parsed_entries_def sorted_entries_def sorted_wrt_iff_nth_less less_imp_le)
  qed
  show "InternalKey_Compare c (smallest f) (fst e) \<le> 0" using le [of 0 p] p k by simp
  then show "Compare c (ExtractUserKey (smallest f)) (euk e) \<le> 0" unfolding euk_def by (rule internal_le_user)
  show "InternalKey_Compare c (fst e) (largest f) \<le> 0" using le [of p "length ?es - 1"] p k by simp
  then show "Compare c (euk e) (ExtractUserKey (largest f)) \<le> 0" unfolding euk_def by (rule internal_le_user)
qed

lemma search_order_member:
  assumes "lf \<in> set (search_order m c files u k)"
  shows "snd lf \<in> set (files ! fst lf) \<and> fst lf < kNumLevels \<and> (1 \<le> fst lf \<longrightarrow> level_candidate m c (files ! fst lf) u k = [snd lf])"
  using assms by (auto simp: search_order_def level0_candidates_def level_candidate_def Let_def kNumLevels_def split: if_splits)

text \<open>The search goes from newer to older files.\<close>

lemma search_order_newer:
  assumes "levels_ok c cont (map (map m) files)"
  shows "sorted_wrt (\<lambda>x y. newer_than (cont (m (snd x))) (cont (m (snd y)))) (search_order m c files u k)"
proof -
  let ?L = "map (map m) files" and ?R = "\<lambda>x y :: nat \<times> faddr. newer_than (cont (m (snd x))) (cont (m (snd y)))"
  let ?tmp = "sort_key (\<lambda>f. NewestFirst (m f)) (level0_candidates m c (files ! 0) u)" and ?g = "\<lambda>l. map (Pair l) (level_candidate m c (files ! l) u k)"
  have len: "length files = kNumLevels" using assms by (auto simp: levels_ok_def dest: arg_cong [of _ _ length])
  have L: "?L ! i = map m (files ! i)" if "i < kNumLevels" for i using that len by simp
  have across: "newer_than (cont (m f)) (cont (m g))" if "i < j" "j < kNumLevels" "f \<in> set (files ! i)" "g \<in> set (files ! j)" for f g i j
    using assms that L [of i] L [of j] unfolding levels_ok_def by simp
  have zero: "?L ! 0 = map m (files ! 0)" using L [of 0] by (simp add: kNumLevels_def)
  have level0_newer: "newer_than (cont (m f)) (cont (m g))" if "f \<in> set (files ! 0)" "g \<in> set (files ! 0)" "number (m g) < number (m f)" for f g
    using assms that zero unfolding levels_ok_def by simp
  have sub: "set ?tmp \<subseteq> set (files ! 0)" by (auto simp: level0_candidates_def)
  have "distinct (map (\<lambda>f. number (m f)) (files ! 0))" using assms zero by (simp add: levels_ok_def comp_def)
  then have "distinct (map (\<lambda>f. number (m f)) (level0_candidates m c (files ! 0) u))" unfolding level0_candidates_def by (rule distinct_map_filter)
  from newest_sorted [OF this] have "sorted_wrt (\<lambda>f g. newer_than (cont (m f)) (cont (m g))) ?tmp"
    using level0_newer sub by (elim sorted_wrt_mono_rel [rotated]) (simp add: subset_iff)
  then have tmp: "sorted_wrt ?R (map (Pair 0) ?tmp)" by (simp add: sorted_wrt_map)
  have one: "sorted_wrt ?R (?g l)" for l using level_candidate_length [of m c "files ! l" u k] by (auto simp: sorted_wrt_map le_Suc_eq length_Suc_conv)
  have "\<forall>x\<in>set (?g l). \<forall>y\<in>set (?g l'). ?R x y" if "l < l'" "l' < kNumLevels" for l l'
    using across [OF that] level_candidate_sub by fastforce
  then have levels: "sorted_wrt (\<lambda>l l'. \<forall>x\<in>set (?g l). \<forall>y\<in>set (?g l'). ?R x y) [1..<kNumLevels]"
    by (intro sorted_wrt_mono_rel [OF _ sorted_wrt_upt]) simp
  have "?R x y" if x: "x \<in> set (map (Pair 0) ?tmp)" and y: "y \<in> set (concat (map ?g [1..<kNumLevels]))" for x y
  proof -
    obtain f where "x = (0, f)" "f \<in> set (files ! 0)" using x sub by auto
    moreover obtain l g where "y = (l, g)" "1 \<le> l" "l < kNumLevels" "g \<in> set (files ! l)" using y by (auto dest: level_candidate_sub)
    ultimately show ?thesis using across [of 0 l f g] by simp
  qed
  then show ?thesis unfolding search_order_def sorted_wrt_append using tmp sorted_wrt_concat_map [OF one levels] by blast
qed

text \<open>A visible entry of any file is in a file that is searched, or one at least as new is.\<close>

lemma search_order_covers:
  assumes "levels_ok c cont (map (map m) files)" "s \<le> kMaxSequenceNumber" "e \<in> all_entries cont (map (map m) files)" "visible u s e"
  shows "\<exists>lf\<in>set (search_order m c files u (InternalKey u s kTypeValue)). \<exists>e'\<in>set (cont (m (snd lf))). visible u s e' \<and> eseq e \<le> eseq e'"
proof -
  let ?k = "InternalKey u s kTypeValue"
  have len: "length files = kNumLevels" using assms by (auto simp: levels_ok_def dest: arg_cong [of _ _ length])
  obtain fs f where fs: "fs \<in> set files" and f0: "f \<in> set fs" "e \<in> set (cont (m f))" using assms(3) by (auto simp: all_entries_def)
  obtain l where "l < length files" "files ! l = fs" using fs by (auto simp: in_set_conv_nth)
  then have f: "l < kNumLevels" "f \<in> set (files ! l)" "e \<in> set (cont (m f))" using f0 len by simp_all
  have D: "described c cont (m g)" if "g \<in> set (files ! l)" for g using assms(1) that f(1) len unfolding levels_ok_def by force
  note r = described_range [OF D [OF f(2)] f(3)]
  have u: "euk e = u" "eseq e \<le> s" using assms(4) by (simp_all add: visible_def)
  show ?thesis
  proof (cases "l = 0")
    case True
    have "Compare c u (ExtractUserKey (smallest (m f))) \<ge> 0" using r(1) Compare_swap [of u "ExtractUserKey (smallest (m f))"] u by auto
    then have "(0, f) \<in> set (search_order m c files u ?k)" using f(2) True r(2) u by (auto simp: search_order_def level0_candidates_def)
    then show ?thesis using f(3) assms(4) by force
  next
    case False
    have S: "sorted_files c (map m (files ! l))" using assms(1) f(1) False len by (auto simp: levels_ok_def)
    let ?fs = "files ! l" and ?i = "lower_bound (InternalKeyComparator c) (map file_entry (map m (files ! l))) ?k"
    obtain j where j: "j < length ?fs" "?fs ! j = f" using f(2) by (auto simp: in_set_conv_nth)
    have kl: "8 \<le> length (fst e)" "8 \<le> length (largest (m f))" "8 \<le> length (smallest (m f))"
      using D [OF f(2)] f(3) by (auto simp: described_def parsed_entries_def sorted_entries_def)
    have key: "\<not> InternalKey_Compare c (fst e) ?k < 0" using entry_before [OF _ f(3) assms(2), of u] D [OF f(2)] u Compare_refl [of u] by (auto simp: described_def)
    have lb: "InternalKey_Compare c (largest (m (?fs ! q))) ?k < 0 \<longleftrightarrow> q < ?i" if "q < length ?fs" for q
      using lower_bound_iff [OF sorted_files_entries [OF S], of ?k q] that by simp
    have "\<not> InternalKey_Compare c (largest (m f)) ?k < 0" using internal_le_less [OF kl(1,2) _ r(4), of ?k] key by auto
    then have ij: "?i \<le> j" using lb [OF j(1)] j(2) by simp
    then have i: "?i < length ?fs" using j(1) by simp
    have "Compare c (ExtractUserKey (smallest (m (?fs ! ?i)))) u \<le> 0"
      using smallest_mono [OF S ij] user_less_trans [OF _ r(1)] j i u by simp
    then have "\<not> Compare c u (ExtractUserKey (smallest (m (?fs ! ?i)))) < 0" using Compare_swap [of u "ExtractUserKey (smallest (m (?fs ! ?i)))"] by simp
    then have c: "(l, ?fs ! ?i) \<in> set (search_order m c files u ?k)"
      using i False f(1) by (auto simp: search_order_def level_candidate_def intro!: bexI [of _ l])
    show ?thesis
    proof (cases "?i = j")
      case True
      then show ?thesis using c j f(3) assms(4) by force
    next
      case ne: False
      let ?g = "m (?fs ! ?i)" and ?e = "last (cont (m (?fs ! ?i)))"
      have Dg: "described c cont ?g" using D i by simp
      then have e': "?e \<in> set (cont ?g)" "largest ?g = fst ?e" "parsed_entries c (cont ?g)" by (simp_all add: described_def)
      have "InternalKey_Compare c (largest ?g) (smallest (m f)) < 0" using S ij ne j by (auto simp: sorted_files_def sorted_wrt_iff_nth_less)
      moreover have "8 \<le> length (largest ?g)" using S i by (auto simp: sorted_files_def proper_key_def)
      ultimately have less: "InternalKey_Compare c (fst ?e) (fst e) < 0" using internal_less_le [OF _ kl(3,1) _ r(3)] e'(2) by simp
      have "\<not> InternalKey_Compare c (fst ?e) ?k < 0" using lb [OF i] e'(2) by simp
      then have nb: "\<not> Compare c (euk ?e) u < 0" "euk ?e = u \<Longrightarrow> eseq ?e \<le> s" using entry_before [OF e'(3,1) assms(2), of u] by auto
      moreover have "Compare c (euk ?e) u \<le> 0" using less internal_le_user [of "fst ?e" "fst e"] u by (simp add: euk_def)
      ultimately have eu: "euk ?e = u" using Compare_zero [of "euk ?e" u] by simp
      have "parsed_entries c (cont (m f))" using D [OF f(2)] by (simp add: described_def)
      then have "eseq e \<le> eseq ?e" using key_less_seq [OF e'(3,1) _ f(3) less] eu u by simp
      then show ?thesis using c e'(1) eu nb(2) by (intro bexI [OF _ c] bexI [of _ ?e]) (simp_all add: visible_def)
    qed
  qed
qed

end

context stored_tables
begin

lemma Version_Get_newest:
  assumes L: "levels_ok c cont (map (map m) files)" "\<forall>fs\<in>set files. \<forall>f\<in>set fs. stored (m f)" "s \<le> kMaxSequenceNumber"
    and g: "good (length (files ! 0) + kNumLevels) tc bc"
  shows "\<exists>st v stats tc' bc'. Version_Get sn m c files tc bc options (make_LookupKey u s) value = Some (st, v, stats, tc', bc') \<and>
    ((\<exists>e. newest u s (all_entries cont (map (map m) files)) e \<and> (if is_put e then st = Status_OK \<and> v = snd e else st = NotFound [] [] \<and> v = value)) \<or>
     (\<forall>e\<in>all_entries cont (map (map m) files). \<not> visible u s e) \<and> st = NotFound [] [] \<and> v = value)"
proof -
  define xs where "xs = search_order m c files u (InternalKey u s kTypeValue)"
  define E where "E = all_entries cont (map (map m) files)"
  let ?c = "\<lambda>lf :: nat \<times> faddr. cont (m (snd lf))"
  have len: "length files = kNumLevels" using L(1) by (auto simp: levels_ok_def dest: arg_cong [of _ _ length])
  have S: "\<forall>l\<in>{1..<kNumLevels}. sorted_files c (map m (files ! l))" using L(1) len by (auto simp: levels_ok_def)
  have in_files: "\<exists>fs\<in>set files. snd lf \<in> set fs" if "lf \<in> set xs" for lf
    using search_order_member [of lf m files u] that len unfolding xs_def by (intro bexI [of _ "files ! fst lf"]) simp_all
  have mem: "stored (m (snd lf)) \<and> parsed_entries c (?c lf)" if "lf \<in> set xs" for lf
    using in_files [OF that] L(1,2) by (auto simp: levels_ok_def described_def)
  have sub: "set (?c lf) \<subseteq> E" if "lf \<in> set xs" for lf using in_files [OF that] by (auto simp: E_def all_entries_def)
  have lx: "length xs \<le> length (files ! 0) + kNumLevels" unfolding xs_def by (rule search_order_length)
  then obtain n where n: "length (files ! 0) + kNumLevels = length xs + n" using le_Suc_ex by blast
  obtain stats tc' bc' st where V: "Version_Get sn m c files tc bc options (make_LookupKey u s) value =
      Some (if gs_found st then gs_s st else NotFound [] [], sv_value (gs_saver st), stats, tc', bc')" "answered u value (first_hit ?c u s xs) st"
    using Version_Get_first_hit [where m = m and files = files and u = u, OF L(3) S xs_def mem g [unfolded n]] by metis
  have cover: "\<exists>lf\<in>set xs. \<exists>e'\<in>set (?c lf). visible u s e' \<and> eseq e \<le> eseq e'" if "e \<in> E" "visible u s e" for e
    using search_order_covers [OF L(1,3)] that unfolding xs_def E_def by blast
  show ?thesis
  proof (cases "first_hit ?c u s xs")
    case None
    then have "\<forall>e\<in>E. \<not> visible u s e" using cover unfolding first_hit_None by blast
    then show ?thesis using V None unfolding E_def [symmetric] by (auto simp: answered_def)
  next
    case (Some e)
    have "newest u s (\<Union>x\<in>set xs. set (?c x)) e"
      using first_hit_newest [OF _ search_order_newer [OF L(1), where u = u and k = "InternalKey u s kTypeValue"], folded xs_def, OF _ Some] mem by blast
    then have N: "e \<in> E" "visible u s e" "\<And>lf e'. lf \<in> set xs \<Longrightarrow> e' \<in> set (?c lf) \<Longrightarrow> visible u s e' \<Longrightarrow> eseq e' \<le> eseq e"
      using sub unfolding newest_def by blast+
    have "eseq e' \<le> eseq e" if "e' \<in> E" "visible u s e'" for e' using cover [OF that] N(3) order_trans by blast
    then have NE: "newest u s E e" using N(1,2) by (simp add: newest_def)
    have R: "if is_put e then gs_found st \<and> gs_s st = Status_OK \<and> sv_value (gs_saver st) = snd e else \<not> gs_found st \<and> sv_value (gs_saver st) = value"
      using V(2) Some by (simp add: answered_def)
    show ?thesis unfolding E_def [symmetric]
      by (intro exI conjI, rule V(1), intro disjI1 exI [of _ e]) (use NE R in \<open>cases "is_put e"; simp\<close>)
  qed
qed

end

section \<open>Tables in a directory\<close>

text \<open>
  The contract on the model: the numbers of a directory hold tables built from entries, every table cached is one of them, and there are
  calls left before the cache's counters could overflow. The tables are read without a block cache.
\<close>

definition holds_tables :: "snappy \<Rightarrow> Options \<Rightarrow> comparator \<Rightarrow> (u64 \<Rightarrow> (bytes \<times> bytes) list option) \<Rightarrow> TableCache \<Rightarrow> bool" where
  "holds_tables sn opts c dir tc \<longleftrightarrow> snappy_contract sn \<and> tc_options tc = opts \<and> opt_comparator opts = InternalKeyComparator c \<and>
     0 < opt_restart_interval opts \<and> policy_ok opts (\<lambda>k. 8 \<le> length k) \<and>
     (\<forall>p. opt_filter_policy opts = Some p \<longrightarrow> (\<exists>q. p = InternalFilterPolicy q)) \<and>
     (\<forall>num es. dir num = Some es \<longrightarrow> parsed_entries c es \<and> length (table_bytes sn opts es) < 2 ^ 32 \<and>
        (\<exists>f. open_file tc num = Inr f \<and> readable_file f (table_bytes sn opts es)))"

definition table_size :: "snappy \<Rightarrow> Options \<Rightarrow> (u64 \<Rightarrow> (bytes \<times> bytes) list option) \<Rightarrow> u64 \<Rightarrow> u64" where
  "table_size sn opts dir num = of_nat (length (table_bytes sn opts (the (dir num))))"

definition good_cache :: "snappy \<Rightarrow> Options \<Rightarrow> comparator \<Rightarrow> (u64 \<Rightarrow> (bytes \<times> bytes) list option) \<Rightarrow> nat \<Rightarrow> TableCache \<Rightarrow> block_cache \<Rightarrow> bool" where
  "good_cache sn opts c dir n tc bc \<longleftrightarrow> bc = None \<and> holds_tables sn opts c dir tc \<and>
     (\<exists>cap held ins k. history cap (tc_cache tc) held ins k \<and> k + 3 * n < 2 ^ 31 \<and> 0 < (cap + 15) div 16 \<and> tables_agree sn tc (table_size sn opts dir) ins)"

definition dir_content :: "(u64 \<Rightarrow> (bytes \<times> bytes) list option) \<Rightarrow> FileMetaData \<Rightarrow> (bytes \<times> bytes) list" where
  "dir_content dir f = the (dir (number f))"

definition dir_stored :: "snappy \<Rightarrow> Options \<Rightarrow> (u64 \<Rightarrow> (bytes \<times> bytes) list option) \<Rightarrow> FileMetaData \<Rightarrow> bool" where
  "dir_stored sn opts dir f \<longleftrightarrow> dir (number f) \<noteq> None \<and> file_size f = table_size sn opts dir (number f)"

lemma internal_separator_below:
  assumes "total_comparator c" "8 \<le> length a" "InternalKey_Compare c a k < 0" "ExtractUserKey b = ExtractUserKey k"
  shows "InternalKey_Compare c (InternalKey_FindShortestSeparator c a b) k < 0"
proof -
  have T: "total_comparator c" by fact
  then have C: "comparator_contract c (\<lambda>_. True)" by (simp add: total_comparator_def)
  show ?thesis
  proof (cases "ExtractUserKey a = ExtractUserKey k")
    case True
    then have "FindShortestSeparator c (ExtractUserKey a) (ExtractUserKey b) = ExtractUserKey a"
      using comparator_contract.Separator_unordered [OF C, of "ExtractUserKey a" "ExtractUserKey b"] assms(4) comparator_contract.Compare_refl [OF C] by simp
    then show ?thesis using assms(3) by (simp add: InternalKey_FindShortestSeparator_def Let_def)
  next
    case False
    then have "Compare c (ExtractUserKey a) (ExtractUserKey b) < 0" using assms(3,4) total_comparator.InternalKey_Compare_less [OF T, of a k] by simp
    then have "Compare c (FindShortestSeparator c (ExtractUserKey a) (ExtractUserKey b)) (ExtractUserKey k) < 0"
      using comparator_contract.Separator_upper [OF C, of "ExtractUserKey a" "ExtractUserKey b"] assms(4) by simp
    then show ?thesis using assms(3) total_comparator.InternalKey_Compare_less [OF T] by (simp add: InternalKey_FindShortestSeparator_def Let_def PutFixed64_def)
  qed
qed

lemma holds_tablesD:
  assumes "holds_tables sn opts c dir tc" "dir num = Some es"
  obtains f where "open_file tc num = Inr f" "readable_file f (table_bytes sn opts es)" "parsed_entries c es" "length (table_bytes sn opts es) < 2 ^ 32"
    "sorted_entries (opt_comparator opts) (\<lambda>k. 8 \<le> length k) es" "table_size sn opts dir num = of_nat (length (table_bytes sn opts es))"
proof -
  have P: "parsed_entries c es \<and> length (table_bytes sn opts es) < 2 ^ 32 \<and> (\<exists>f. open_file tc num = Inr f \<and> readable_file f (table_bytes sn opts es))"
    using assms unfolding holds_tables_def by blast
  moreover have "opt_comparator opts = InternalKeyComparator c" using assms(1) by (simp add: holds_tables_def)
  ultimately show ?thesis using that assms(2) by (auto simp: table_size_def parsed_entries_def)
qed

lemma directory_table_opens:
  assumes H: "holds_tables sn opts c dir tc" and d: "dir num = Some es" and T: "total_comparator c"
  obtains f t where "open_file tc num = Inr f" "Table_Open sn opts f (table_size sn opts dir num) i = Some (Status_OK, Some t)"
    "\<And>k options. 8 \<le> length k \<Longrightarrow> \<exists>r. InternalGet sn t None options k = Some (r, Status_OK, None) \<and> table_answer c es k r"
proof -
  obtain f where f: "open_file tc num = Inr f" "readable_file f (table_bytes sn opts es)" "parsed_entries c es" "length (table_bytes sn opts es) < 2 ^ 32"
    "sorted_entries (opt_comparator opts) (\<lambda>k. 8 \<le> length k) es" "table_size sn opts dir num = of_nat (length (table_bytes sn opts es))"
    using holds_tablesD [OF H d] .
  have O: "opt_comparator opts = InternalKeyComparator c" "0 < opt_restart_interval opts" "policy_ok opts (\<lambda>k. 8 \<le> length k)" "snappy_contract sn"
    and fp: "\<And>p. opt_filter_policy opts = Some p \<Longrightarrow> \<exists>q. p = InternalFilterPolicy q" using H by (auto simp: holds_tables_def)
  obtain t gs flt where t: "Table_Open sn opts f (of_nat (length (table_bytes sn opts es))) i = Some (Status_OK, Some t)"
    "concat gs = es" "[] \<notin> set gs" "table_bytes sn opts es = table_file sn opts gs flt" "filter_of_table (\<lambda>k. 8 \<le> length k) sn opts gs flt"
    "table_of (\<lambda>k. 8 \<le> length k) sn opts gs flt f t"
    using opened_table [OF f(5) O(3,2,4) f(4,2)] .
  have "\<exists>r. InternalGet sn t None options k = Some (r, Status_OK, None) \<and> table_answer c es k r" if k: "8 \<le> length k" for k options
  proof -
    let ?i = "lower_bound (InternalKeyComparator c) es k"
    have "\<exists>saved. InternalGet sn t None options k = Some (saved, Status_OK, None) \<and>
        (saved = None \<or> ?i < length es \<and> saved = Some (es ! ?i)) \<and>
        (?i < length es \<and> (\<forall>a. 8 \<le> length a \<longrightarrow> InternalKey_Compare c a k < 0 \<longrightarrow> InternalKey_Compare c (InternalKey_FindShortestSeparator c a (fst (es ! ?i))) k < 0) \<and>
         (\<forall>p x. opt_filter_policy opts = Some p \<longrightarrow> KeyMayMatch p k x = KeyMayMatch p (fst (es ! ?i)) x) \<longrightarrow> saved = Some (es ! ?i))"
      using InternalGet_table [OF t(6) f(2) [unfolded t(4)] f(4) [unfolded t(4)] O(4,2) t(5) _ t(3) k, of ?i options] f(5) unfolding t(2) O(1) InternalKeyComparator_simps
      by blast
    moreover have "KeyMayMatch p k x = KeyMayMatch p (fst (es ! ?i)) x" if "opt_filter_policy opts = Some p" "euk (es ! ?i) = ExtractUserKey k" for p x
      using fp [OF that(1)] that(2) by (auto simp: InternalFilterPolicy_def euk_def)
    ultimately show ?thesis using internal_separator_below [OF T] unfolding table_answer_def Let_def euk_def by metis
  qed
  then show ?thesis using that f(1,6) t(1) by auto
qed

lemma opens_to_cache: "opens_to sn (tc\<lparr>tc_cache := x\<rparr>) sizes num t = opens_to sn tc sizes num t" "tables_agree sn (tc\<lparr>tc_cache := x\<rparr>) sizes ins = tables_agree sn tc sizes ins"
  "holds_tables sn opts c dir (tc\<lparr>tc_cache := x\<rparr>) = holds_tables sn opts c dir tc"
  by (simp_all add: opens_to_def tables_agree_def holds_tables_def)

lemma good_cacheI:
  "holds_tables sn opts c dir tc \<Longrightarrow> history cap (tc_cache tc) held ins k \<Longrightarrow> k + 3 * n < 2 ^ 31 \<Longrightarrow> 0 < (cap + 15) div 16 \<Longrightarrow>
   tables_agree sn tc (table_size sn opts dir) ins \<Longrightarrow> good_cache sn opts c dir n tc None"
  unfolding good_cache_def by blast

lemma good_cacheE:
  assumes "good_cache sn opts c dir n tc bc"
  obtains cap held ins k where "bc = None" "holds_tables sn opts c dir tc" "history cap (tc_cache tc) held ins k" "k + 3 * n < 2 ^ 31" "0 < (cap + 15) div 16"
    "tables_agree sn tc (table_size sn opts dir) ins"
  using assms unfolding good_cache_def by blast

lemma directory_tables:
  assumes "total_comparator c"
  shows "stored_tables c sn options (good_cache sn opts c dir) (dir_content dir) (dir_stored sn opts dir)"
proof -
  have "lsm_order c" using assms by (simp add: lsm_order_def file_order_def)
  moreover have "good_cache sn opts c dir (Suc n) tc bc \<Longrightarrow> good_cache sn opts c dir n tc bc" for n tc bc
    by (erule good_cacheE) (auto intro: good_cacheI)
  moreover have "\<exists>r tc' bc'. tc_Get sn tc bc options (number f) (file_size f) k = Some (r, Status_OK, tc', bc') \<and> good_cache sn opts c dir n tc' bc' \<and>
      table_answer c (dir_content dir f) k r"
    if g: "good_cache sn opts c dir (Suc n) tc bc" and s: "dir_stored sn opts dir f" and k: "8 \<le> length k" for n tc bc f k
  proof -
    obtain es where d: "dir (number f) = Some es" and sz: "file_size f = table_size sn opts dir (number f)" using s by (auto simp: dir_stored_def)
    obtain cap held ins i where h: "bc = None" "holds_tables sn opts c dir tc" "history cap (tc_cache tc) held ins i" "i + 3 * Suc n < 2 ^ 31" "0 < (cap + 15) div 16"
      "tables_agree sn tc (table_size sn opts dir) ins" using g by (rule good_cacheE)
    note O = directory_table_opens [OF h(2) d assms]
    have opts: "tc_options tc = opts" using h(2) by (simp add: holds_tables_def)
    obtain f0 t0 where o: "open_file tc (number f) = Inr f0" "Table_Open sn opts f0 (table_size sn opts dir (number f)) (next_id bc) = Some (Status_OK, Some t0)"
      using O by metis
    have i: "i + 3 < 2 ^ 31" using h(4) by simp
    have "\<not> fails sn tc bc (number f) (table_size sn opts dir (number f)) s" for s using o opts by (auto simp: fails_def)
    then obtain t c' ins' n' where r: "opens_to sn tc (table_size sn opts dir) (number f) t"
      "tc_Get sn tc bc options (number f) (table_size sn opts dir (number f)) k = map_option (\<lambda>(saved, s, bc). (saved, s, tc\<lparr>tc_cache := c'\<rparr>, bc)) (InternalGet sn t None options k)"
      "history cap c' held ins' n'" "n' \<le> i + 3" "tables_agree sn tc (table_size sn opts dir) ins'"
      using tc_Get_cases [OF h(3) i h(5,6), where num = "number f" and bc = bc and options = options and k = k] o opts h(1) by (auto simp: take_id_def)
    obtain j where "Table_Open sn opts f0 (table_size sn opts dir (number f)) j = Some (Status_OK, Some t)" using r(1) o(1) opts by (auto simp: opens_to_def)
    then obtain x where "InternalGet sn t None options k = Some (x, Status_OK, None)" "table_answer c es k x"
      using O [where i = j] o(1) k by (metis Inr_inject option.inject prod.inject)
    moreover have "good_cache sn opts c dir n (tc\<lparr>tc_cache := c'\<rparr>) None"
      by (rule good_cacheI [of _ _ _ _ _ cap held ins' n']) (use r(3-5) h(2,4,5) in \<open>simp_all add: opens_to_cache\<close>)
    ultimately show ?thesis using r(2) d sz by (simp add: dir_content_def)
  qed
  ultimately show ?thesis by (simp add: stored_tables_def stored_tables_axioms_def)
qed

interpretation bytewise_lsm: lsm_order BytewiseComparator
  by (simp add: lsm_order_def bytewise_files.file_order_axioms)

interpretation directory: stored_tables BytewiseComparator sn options "good_cache sn opts BytewiseComparator dir" "dir_content dir" "dir_stored sn opts dir"
  for sn options opts dir
  by (rule directory_tables [OF bytewise.total_comparator_axioms])


section \<open>Properties\<close>

text \<open>
  C6. A lookup in a version finds the newest entry: over files stored as tables, whose levels are ordered by age, \<open>Version::Get\<close> returns for
  every user key and snapshot the value of the newest entry not newer than the snapshot, \<open>NotFound\<close> when that entry is a deletion or there
  is none, and leaves the value alone then. The search always returns, whatever is cached.
\<close>

theorem version_get_newest:
  assumes "total_comparator c" "levels_ok c (dir_content dir) (map (map m) files)" "\<forall>fs\<in>set files. \<forall>f\<in>set fs. dir_stored sn opts dir (m f)"
    "s \<le> kMaxSequenceNumber" "good_cache sn opts c dir (length (files ! 0) + kNumLevels) tc bc"
  shows "\<exists>st v stats tc' bc'. Version_Get sn m c files tc bc options (make_LookupKey u s) value = Some (st, v, stats, tc', bc') \<and>
    ((\<exists>e. newest u s (all_entries (dir_content dir) (map (map m) files)) e \<and>
        (if is_put e then st = Status_OK \<and> v = snd e else st = NotFound [] [] \<and> v = value)) \<or>
     (\<forall>e\<in>all_entries (dir_content dir) (map (map m) files). \<not> visible u s e) \<and> st = NotFound [] [] \<and> v = value)"
  using stored_tables.Version_Get_newest [OF directory_tables [OF assms(1)] assms(2-5)] .

text \<open>A database of two tables: at level 0 a deletion, over an older value at level 1.\<close>

definition db_options :: Options where
  "db_options = sample_options\<lparr>opt_comparator := InternalKeyComparator BytewiseComparator, opt_block_size := 1000\<rparr>"

definition new_key :: bytes where "new_key = InternalKey [1] 5 kTypeDeletion"
definition old_key :: bytes where "old_key = InternalKey [1] 3 kTypeValue"

definition sample_dir :: "u64 \<Rightarrow> (bytes \<times> bytes) list option" where
  "sample_dir num = (if num = 9 then Some [(new_key, [])] else if num = 4 then Some [(old_key, [7])] else None)"

definition db_env :: "bytes \<Rightarrow> Status + RandomAccessFile" where
  "db_env name = (if name = TableFileName (str ''d'') 9 then Inr (file_of True (table_bytes no_snappy db_options [(new_key, [])]))
     else if name = TableFileName (str ''d'') 4 then Inr (file_of True (table_bytes no_snappy db_options [(old_key, [7])])) else Inl (NotFound name []))"

definition db_file :: "u64 \<Rightarrow> bytes \<Rightarrow> FileMetaData" where
  "db_file num k = new_FileMetaData\<lparr>number := num, file_size := table_size no_snappy db_options sample_dir num, smallest := k, largest := k\<rparr>"

definition db_files :: fstore where
  "db_files a = (if a = 0 then db_file 9 new_key else db_file 4 old_key)"

lemmas build_defs = table_bytes_def build_table_def add_all_def new_TableBuilder_def on_filter_def tb_Add_def tb_ok_def Let_def bb_CurrentSizeEstimate_def
  bb_Add_def new_BlockBuilder_def Flush_def bb_empty_def WriteBlock_def bb_Finish_def compress_block_def WriteRawBlock_def file_append_def bb_Reset_def add_index_entry_def
  tb_Finish_def write_filter_def write_metaindex_def write_index_def write_footer_def length_Footer_EncodeTo PutVarint32_def PutFixed32_def

lemma db_keys: "new_key = [1, 0, 5, 0, 0, 0, 0, 0, 0]" "old_key = [1, 1, 3, 0, 0, 0, 0, 0, 0]"
  by code_simp+

lemma new_table_size: "length (table_bytes no_snappy db_options [(new_key, [])]) < 200"
  unfolding db_keys by (simp add: build_defs sample_options_def db_options_def) code_simp

lemma old_table_size: "length (table_bytes no_snappy db_options [(old_key, [7])]) < 200"
  unfolding db_keys by (simp add: build_defs sample_options_def db_options_def) code_simp

lemma single_parsed: "8 \<le> length k \<Longrightarrow> ParseInternalKey k \<noteq> None \<Longrightarrow> parsed_entries BytewiseComparator [(k, v)]"
  using bytewise.internal_contract by (simp add: parsed_entries_def sorted_entries_def)

lemma db_parsed: "ParseInternalKey new_key = Some \<lparr>user_key = [1], sequence = 5, vtype = kTypeDeletion\<rparr>"
  "ParseInternalKey old_key = Some \<lparr>user_key = [1], sequence = 3, vtype = kTypeValue\<rparr>"
  using sample_sequences by (simp_all add: new_key_def old_key_def)

lemma db_entries: "euk (new_key, v) = [1]" "euk (old_key, v) = [1]" "eseq (new_key, v) = 5" "eseq (old_key, v) = 3" "\<not> is_put (new_key, v)" "is_put (old_key, v)"
  by (simp_all add: euk_def eseq_def is_put_def db_parsed) (simp_all add: new_key_def old_key_def)

lemma db_holds:
  "holds_tables no_snappy db_options BytewiseComparator sample_dir \<lparr>tc_env = db_env, tc_dbname = str ''d'', tc_options = db_options, tc_cache = x\<rparr>"
proof -
  have names: "TableFileName (str ''d'') 9 \<noteq> TableFileName (str ''d'') 4" by code_simp
  have p: "parsed_entries BytewiseComparator [(new_key, [])]" "parsed_entries BytewiseComparator [(old_key, [7])]"
    using single_parsed [of new_key "[]"] single_parsed [of old_key "[7]"] db_parsed by (simp_all add: new_key_def old_key_def)
  show ?thesis unfolding holds_tables_def
    using p names new_table_size old_table_size without_snappy.snappy_contract_axioms
    by (auto simp: db_options_def [THEN arg_cong [of _ _ opt_comparator]] db_options_def [THEN arg_cong [of _ _ opt_restart_interval]]
      db_options_def [THEN arg_cong [of _ _ opt_filter_policy]] policy_ok_def sample_options_def sample_dir_def open_file_def db_env_def file_of.readable_file_axioms split: if_splits)
qed

lemma db_levels: "levels_ok BytewiseComparator (dir_content sample_dir) (map (map db_files) [[0], [1], [], [], [], [], []])"
proof -
  have "described BytewiseComparator (dir_content sample_dir) (db_files a)" for a
    using single_parsed [of new_key "[]"] single_parsed [of old_key "[7]"] db_parsed
    by (simp add: described_def db_files_def db_file_def dir_content_def sample_dir_def) (simp add: new_key_def old_key_def)
  moreover have "sorted_files BytewiseComparator [db_files 1]"
    using proper_InternalKey [OF sample_sequences(2)] bytewise.Compare_refl by (simp add: sorted_files_def db_files_def db_file_def old_key_def InternalKey_Compare_def)
  moreover have "newer_than (dir_content sample_dir (db_files 0)) (dir_content sample_dir (db_files 1))"
    by (simp add: newer_than_def dir_content_def db_files_def db_file_def sample_dir_def db_entries)
  moreover have "{1..<7 :: nat} = {1, 2, 3, 4, 5, 6}" by auto
  moreover have "sorted_files BytewiseComparator []" by (simp add: sorted_files_def)
  ultimately show ?thesis unfolding levels_ok_def kNumLevels_def by (auto simp: nth_Cons split: nat.splits)
qed

theorem version_get_newest_witness:
  "\<exists>tc x y. new_TableCache db_env (str ''d'') db_options 64 = Some tc \<and>
     Version_Get no_snappy db_files BytewiseComparator [[0], [1], [], [], [], [], []] tc None new_ReadOptions (make_LookupKey [1] 4) [] = Some (Status_OK, [7], x) \<and>
     Version_Get no_snappy db_files BytewiseComparator [[0], [1], [], [], [], [], []] tc None new_ReadOptions (make_LookupKey [1] 5) [] = Some (NotFound [] [], [], y)"
proof -
  let ?files = "[[0], [1], [], [], [], [], []] :: faddr list list" and ?E = "all_entries (dir_content sample_dir) (map (map db_files) [[0], [1], [], [], [], [], []])"
  obtain x :: table_lru where x: "NewLRUCache 64 = Some x" using new_cache by blast
  let ?tc = "\<lparr>tc_env = db_env, tc_dbname = str ''d'', tc_options = db_options, tc_cache = x\<rparr>"
  have G: "good_cache no_snappy db_options BytewiseComparator sample_dir (length (?files ! 0) + kNumLevels) ?tc None"
    by (rule good_cacheI [OF db_holds, where cap = 64 and held = "\<lambda>_. 0" and ins = "{#}" and k = 0]) (use history.start [OF x] in \<open>simp_all add: kNumLevels_def tables_agree_def\<close>)
  have E: "?E = {(new_key, []), (old_key, [7])}" by (auto simp: all_entries_def dir_content_def db_files_def db_file_def sample_dir_def)
  have st: "\<forall>fs\<in>set ?files. \<forall>f\<in>set fs. dir_stored no_snappy db_options sample_dir (db_files f)"
    by (simp add: dir_stored_def db_files_def db_file_def) (simp add: sample_dir_def)
  note T = version_get_newest [OF bytewise.total_comparator_axioms db_levels st _ G, of _ new_ReadOptions "[1]" "[]"]
  have n: "newest [1] 4 ?E e \<longleftrightarrow> e = (old_key, [7])" "newest [1] 5 ?E e \<longleftrightarrow> e = (new_key, [])" "visible [1] 4 (old_key, [7])" "visible [1] 5 (new_key, [])" for e
    unfolding E newest_def visible_def by (auto simp: db_entries)
  have "\<exists>x. Version_Get no_snappy db_files BytewiseComparator ?files ?tc None new_ReadOptions (make_LookupKey [1] 4) [] = Some (Status_OK, [7], x)"
    using T [OF sample_sequences(3)] n(1,3) unfolding E by (auto simp: db_entries)
  moreover have "\<exists>y. Version_Get no_snappy db_files BytewiseComparator ?files ?tc None new_ReadOptions (make_LookupKey [1] 5) [] = Some (NotFound [] [], [], y)"
    using T [OF sample_sequences(4)] n(2,4) unfolding E by (auto simp: db_entries)
  ultimately show ?thesis using x unfolding new_TableCache_def by (intro exI [of _ ?tc]) auto
qed

end
