(* ===== verification/VersionBuilders.thy ===== *)
theory VersionBuilders
  imports Versions
begin

text \<open>
  \<open>VersionSet::Builder\<close> of \<open>db/version_set.cc\<close>: a sequence of edits applied to the files of a version, without the versions
  in between. The metadata of files lives in a heap with reference counts; a file whose count reaches zero is freed.
\<close>

section \<open>Definitions\<close>

record FileHeap =
  fh_meta :: fstore
  fh_next :: faddr
  fh_freed :: "faddr set"

definition new_file :: "FileMetaData \<Rightarrow> FileHeap \<Rightarrow> faddr \<times> FileHeap" where
  "new_file f h = (fh_next h, h\<lparr>fh_meta := (fh_meta h)(fh_next h := f), fh_next := fh_next h + 1\<rparr>)"

definition ref_file :: "FileHeap \<Rightarrow> faddr \<Rightarrow> FileHeap" where
  "ref_file h a = h\<lparr>fh_meta := (fh_meta h)(a := (fh_meta h a)\<lparr>refs := refs (fh_meta h a) + 1\<rparr>)\<rparr>"

definition unref_file :: "FileHeap \<Rightarrow> faddr \<Rightarrow> FileHeap" where
  "unref_file h a =
     (let h = h\<lparr>fh_meta := (fh_meta h)(a := (fh_meta h a)\<lparr>refs := refs (fh_meta h a) - 1\<rparr>)\<rparr>
      in if refs (fh_meta h a) \<le> 0 then h\<lparr>fh_freed := insert a (fh_freed h)\<rparr> else h)"

definition BySmallestKey :: "comparator \<Rightarrow> FileMetaData \<Rightarrow> FileMetaData \<Rightarrow> bool" where
  "BySmallestKey c f1 f2 =
     (let r = InternalKey_Compare c (smallest f1) (smallest f2) in if r \<noteq> 0 then r < 0 else number f1 < number f2)"

text \<open>An ordered set is the list of its elements; an element that is equivalent to one of them is not inserted.\<close>

fun set_insert :: "('f \<Rightarrow> 'f \<Rightarrow> bool) \<Rightarrow> 'f \<Rightarrow> 'f list \<Rightarrow> 'f list" where
  "set_insert lt x [] = [x]"
| "set_insert lt x (y # ys) = (if lt x y then x # y # ys else if lt y x then y # set_insert lt x ys else y # ys)"

record LevelState =
  ls_deleted :: "u64 set"
  ls_added :: "faddr list"

record Builder =
  bl_base :: "faddr list list"
  bl_levels :: "LevelState list"

definition new_Builder :: "faddr list list \<Rightarrow> Builder" where
  "new_Builder base = \<lparr>bl_base = base, bl_levels = replicate kNumLevels \<lparr>ls_deleted = {}, ls_added = []\<rparr>\<rparr>"

definition seeks_allowed :: "u64 \<Rightarrow> int" where
  "seeks_allowed sz = (let n = sint (ucast (sz div 16384) :: 32 word) in if n < 100 then 100 else n)"

definition apply_pointer :: "bytes list \<Rightarrow> nat \<times> bytes \<Rightarrow> bytes list" where
  "apply_pointer cp lk = cp[fst lk := snd lk]"

definition apply_delete :: "LevelState list \<Rightarrow> nat \<times> u64 \<Rightarrow> LevelState list" where
  "apply_delete ls d = ls[fst d := (ls ! fst d)\<lparr>ls_deleted := insert (snd d) (ls_deleted (ls ! fst d))\<rparr>]"

definition apply_add :: "comparator \<Rightarrow> FileHeap \<times> LevelState list \<Rightarrow> nat \<times> FileMetaData \<Rightarrow> FileHeap \<times> LevelState list" where
  "apply_add c hl lf =
     (let (h, ls) = hl; (level, f) = lf;
          (a, h) = new_file (f\<lparr>refs := 1, allowed_seeks := seeks_allowed (file_size f)\<rparr>) h;
          l = ls ! level;
          l = l\<lparr>ls_deleted := ls_deleted l - {number f}, ls_added := set_insert (\<lambda>x y. BySmallestKey c (fh_meta h x) (fh_meta h y)) a (ls_added l)\<rparr>
      in (h, ls[level := l]))"

text \<open>The compaction pointers of the version set, the heap and the builder.\<close>

definition Apply :: "comparator \<Rightarrow> VersionEdit \<Rightarrow> bytes list \<times> FileHeap \<times> Builder \<Rightarrow> bytes list \<times> FileHeap \<times> Builder" where
  "Apply c edit st =
     (let (cp, h, b) = st;
          cp = foldl apply_pointer cp (compact_pointers edit);
          ls = foldl apply_delete (bl_levels b) (deleted_files edit);
          (h, ls) = foldl (apply_add c) (h, ls) (new_files edit)
      in (cp, h, b\<lparr>bl_levels := ls\<rparr>))"

definition MaybeAddFile :: "u64 set \<Rightarrow> FileHeap \<times> faddr list \<Rightarrow> faddr \<Rightarrow> FileHeap \<times> faddr list" where
  "MaybeAddFile gone hf f =
     (let (h, files) = hf in if number (fh_meta h f) \<in> gone then (h, files) else (ref_file h f, files @ [f]))"

text \<open>\<open>std::upper_bound\<close> over base files in order: those that the added file is not before.\<close>

fun merge_files :: "comparator \<Rightarrow> fstore \<Rightarrow> faddr list \<Rightarrow> faddr list \<Rightarrow> faddr list" where
  "merge_files c m base [] = base"
| "merge_files c m base (a # as) =
     takeWhile (\<lambda>b. \<not> BySmallestKey c (m a) (m b)) base @ a # merge_files c m (dropWhile (\<lambda>b. \<not> BySmallestKey c (m a) (m b)) base) as"

definition save_level :: "comparator \<Rightarrow> Builder \<Rightarrow> FileHeap \<times> faddr list list \<Rightarrow> nat \<Rightarrow> FileHeap \<times> faddr list list" where
  "save_level c b hv level =
     (let (h, v) = hv; l = bl_levels b ! level;
          (h, files) = foldl (MaybeAddFile (ls_deleted l)) (h, []) (merge_files c (fh_meta h) (bl_base b ! level) (ls_added l))
      in (h, v @ [files]))"

definition SaveTo :: "comparator \<Rightarrow> FileHeap \<Rightarrow> Builder \<Rightarrow> FileHeap \<times> faddr list list" where
  "SaveTo c h b = foldl (save_level c b) (h, []) [0..<kNumLevels]"

text \<open>The destructor drops the builder's references to the added files.\<close>

definition delete_Builder :: "FileHeap \<Rightarrow> Builder \<Rightarrow> FileHeap" where
  "delete_Builder h b = foldl (\<lambda>h l. foldl unref_file h (ls_added l)) h (bl_levels b)"

text \<open>The destructor of a version drops its references to its files.\<close>

definition delete_Version :: "FileHeap \<Rightarrow> faddr list list \<Rightarrow> FileHeap" where
  "delete_Version h files = foldl (foldl unref_file) h files"


section \<open>Ordered sets and merging\<close>

text \<open>What the library asks of the order of a set, on the elements in use.\<close>

locale set_order =
  fixes lt :: "'f \<Rightarrow> 'f \<Rightarrow> bool" and okf :: "'f \<Rightarrow> bool"
  assumes less_irrefl: "okf x \<Longrightarrow> \<not> lt x x"
    and less_trans: "okf x \<Longrightarrow> okf y \<Longrightarrow> okf z \<Longrightarrow> lt x y \<Longrightarrow> lt y z \<Longrightarrow> lt x z"
    and equiv_trans: "okf x \<Longrightarrow> okf y \<Longrightarrow> okf z \<Longrightarrow> \<not> lt x y \<Longrightarrow> \<not> lt y z \<Longrightarrow> \<not> lt x z"
begin

lemma less_asym: "okf x \<Longrightarrow> okf y \<Longrightarrow> lt x y \<Longrightarrow> \<not> lt y x"
  using less_irrefl less_trans by blast

lemma set_insert_subset: "set (set_insert lt x ys) \<subseteq> insert x (set ys)" "set ys \<subseteq> set (set_insert lt x ys)"
  by (induction ys) auto

lemma set_insert_equiv: "\<exists>y\<in>set (set_insert lt x ys). y = x \<or> \<not> lt x y \<and> \<not> lt y x"
  by (induction ys) auto

lemma ordered_insert_sorted:
  "okf x \<Longrightarrow> \<forall>y\<in>set ys. okf y \<Longrightarrow> sorted_wrt lt ys \<Longrightarrow> sorted_wrt lt (set_insert lt x ys)"
proof (induction ys)
  case (Cons y ys)
  have "lt y z" if "lt y x" "z \<in> set (set_insert lt x ys)" for z using that Cons.prems set_insert_subset(1) [of x ys] by auto
  then show ?case using Cons less_trans [of x y] by auto
qed simp

definition in_order :: "'f list \<Rightarrow> bool" where
  "in_order xs \<longleftrightarrow> sorted_wrt (\<lambda>x y. \<not> lt y x) xs"

lemma in_orderI:
  assumes "in_order xs" "in_order ys" "\<And>y. y \<in> set ys \<Longrightarrow> \<not> lt y a" "\<And>x. x \<in> set xs \<Longrightarrow> \<not> lt a x" "\<And>x y. x \<in> set xs \<Longrightarrow> y \<in> set ys \<Longrightarrow> \<not> lt y x"
  shows "in_order (xs @ a # ys)"
  using assms unfolding in_order_def sorted_wrt_append by simp

lemma sorted_in_order: "\<forall>x\<in>set xs. okf x \<Longrightarrow> sorted_wrt lt xs \<Longrightarrow> in_order xs"
  unfolding in_order_def by (rule sorted_wrt_mono_rel) (auto dest: less_asym)

lemma in_order_split:
  assumes "in_order base" "\<forall>x\<in>set base. okf x" "okf a" "x \<in> set (dropWhile (\<lambda>b. \<not> lt a b) base)"
  shows "lt a x"
proof -
  obtain d ds where d: "dropWhile (\<lambda>b. \<not> lt a b) base = d # ds" using assms(4) by (cases "dropWhile (\<lambda>b. \<not> lt a b) base") auto
  have "lt a d" using hd_dropWhile [of "\<lambda>b. \<not> lt a b" base] d by auto
  moreover have "in_order (d # ds)" using assms(1) d sorted_wrt_drop [of _ base] dropWhile_eq_drop [of "\<lambda>b. \<not> lt a b" base] unfolding in_order_def by metis
  moreover have "\<forall>y\<in>set (d # ds). okf y" using assms(2) d by (metis set_dropWhileD)
  ultimately show ?thesis using assms(3,4) equiv_trans [of a x d] unfolding d in_order_def by auto
qed

fun merge_by :: "'f list \<Rightarrow> 'f list \<Rightarrow> 'f list" where
  "merge_by base [] = base"
| "merge_by base (a # as) = takeWhile (\<lambda>b. \<not> lt a b) base @ a # merge_by (dropWhile (\<lambda>b. \<not> lt a b) base) as"

lemma set_merge_by: "set (merge_by base as) = set base \<union> set as"
proof (induction base as rule: merge_by.induct)
  case (2 base a as)
  have "set base = set (takeWhile (\<lambda>b. \<not> lt a b) base) \<union> set (dropWhile (\<lambda>b. \<not> lt a b) base)"
    using takeWhile_dropWhile_id [of "\<lambda>b. \<not> lt a b" base] by (metis set_append)
  then show ?case using 2 by auto
qed simp

lemma merge_by_in_order:
  "in_order base \<Longrightarrow> sorted_wrt lt as \<Longrightarrow> \<forall>x\<in>set base \<union> set as. okf x \<Longrightarrow> in_order (merge_by base as)"
proof (induction base as rule: merge_by.induct)
  case (2 base a as)
  let ?t = "takeWhile (\<lambda>b. \<not> lt a b) base" and ?d = "dropWhile (\<lambda>b. \<not> lt a b) base"
  have td: "set ?t \<subseteq> set base" "set ?d \<subseteq> set base" by (auto dest: set_takeWhileD set_dropWhileD)
  have "in_order (?t @ ?d)" using 2(2) by simp
  then have base: "in_order ?t" "in_order ?d" unfolding in_order_def sorted_wrt_append by blast+
  have rest: "lt a x" if "x \<in> set (merge_by ?d as)" for x
    using that in_order_split [OF 2(2), of a x] 2(3,4) by (auto simp: set_merge_by)
  have dx: "okf x" if "x \<in> set (merge_by ?d as)" for x using that td 2(4) by (auto simp: set_merge_by)
  have tx: "\<not> lt a b \<and> okf b" if "b \<in> set ?t" for b using that td 2(4) by (auto dest: set_takeWhileD)
  show ?case unfolding merge_by.simps
  proof (rule in_orderI [OF base(1)])
    show "in_order (merge_by ?d as)" by (rule 2(1) [OF base(2)]) (use 2(3,4) td in auto)
    show "\<not> lt x a" if "x \<in> set (merge_by ?d as)" for x using rest [OF that] less_asym [of a x] dx [OF that] 2(4) by auto
    show "\<not> lt a b" if "b \<in> set ?t" for b using tx [OF that] by simp
    show "\<not> lt x b" if "b \<in> set ?t" "x \<in> set (merge_by ?d as)" for b x
      using rest [OF that(2)] less_trans [of a x b] tx [OF that(1)] dx [OF that(2)] 2(4) by auto
  qed
qed simp

end

definition file_dom :: "FileMetaData \<Rightarrow> bool" where
  "file_dom f \<longleftrightarrow> 8 \<le> length (smallest f)"

context file_order
begin

lemma BySmallestKey_iff:
  assumes "file_dom f" "file_dom g"
  shows "BySmallestKey c f g \<longleftrightarrow> InternalKey_Compare c (smallest f) (smallest g) < 0 \<or> smallest f = smallest g \<and> number f < number g"
    and "\<not> BySmallestKey c f g \<longleftrightarrow> InternalKey_Compare c (smallest g) (smallest f) < 0 \<or> smallest f = smallest g \<and> number g \<le> number f"
proof -
  have k: "8 \<le> length (smallest f)" "8 \<le> length (smallest g)" using assms by (simp_all add: file_dom_def)
  note z = InternalKey_Compare_zero [OF k] and w = InternalKey_Compare_swap [of "smallest g" "smallest f"]
  show a: "BySmallestKey c f g \<longleftrightarrow> InternalKey_Compare c (smallest f) (smallest g) < 0 \<or> smallest f = smallest g \<and> number f < number g"
    using z by (auto simp: BySmallestKey_def Let_def)
  show "\<not> BySmallestKey c f g \<longleftrightarrow> InternalKey_Compare c (smallest g) (smallest f) < 0 \<or> smallest f = smallest g \<and> number g \<le> number f"
    unfolding a using z w by (cases "smallest f = smallest g") auto
qed

lemma equivalent_number:
  assumes "file_dom f" "file_dom g" "\<not> BySmallestKey c f g" "\<not> BySmallestKey c g f"
  shows "number f = number g"
  using assms(3,4) InternalKey_Compare_swap [of "smallest f" "smallest g"]
  unfolding BySmallestKey_iff(2) [OF assms(1,2)] BySmallestKey_iff(2) [OF assms(2,1)] by auto

lemma by_smallest_key: "set_order (BySmallestKey c) file_dom"
proof
  have T: "InternalKey_Compare c (smallest x) (smallest z) < 0"
    if "file_dom x" "file_dom y" "file_dom z" "InternalKey_Compare c (smallest x) (smallest y) < 0" "InternalKey_Compare c (smallest y) (smallest z) < 0" for x y z
    using internal_less_le [of "smallest x" "smallest y" "smallest z"] that by (simp add: file_dom_def)
  fix x y z assume d: "file_dom x" "file_dom y" "file_dom z"
  show "\<not> BySmallestKey c x x" using BySmallestKey_iff(2) [OF d(1,1)] by simp
  show "BySmallestKey c x y \<Longrightarrow> BySmallestKey c y z \<Longrightarrow> BySmallestKey c x z"
    unfolding BySmallestKey_iff(1) [OF d(1,2)] BySmallestKey_iff(1) [OF d(2,3)] BySmallestKey_iff(1) [OF d(1,3)] using T [OF d] by auto
  show "\<not> BySmallestKey c x y \<Longrightarrow> \<not> BySmallestKey c y z \<Longrightarrow> \<not> BySmallestKey c x z"
    unfolding BySmallestKey_iff(2) [OF d(1,2)] BySmallestKey_iff(2) [OF d(2,3)] BySmallestKey_iff(2) [OF d(1,3)] using T [OF d(3,2,1)] by auto
qed

text \<open>The order of addresses by what they hold.\<close>

lemma address_order: "set_order (\<lambda>x y. BySmallestKey c (m x) (m y)) (\<lambda>a. file_dom (m a))"
  using by_smallest_key unfolding set_order_def by blast

lemma merge_files_eq: "merge_files c m base as = set_order.merge_by (\<lambda>x y. BySmallestKey c (m x) (m y)) base as"
  by (induction as arbitrary: base) (simp_all add: set_order.merge_by.simps [OF address_order])

end

section \<open>Reference counts\<close>

lemma ref_files_meta: "fh_meta (foldl ref_file h as) a = (fh_meta h a)\<lparr>refs := refs (fh_meta h a) + count_list as a\<rparr>"
  by (induction as arbitrary: h) (auto simp: ref_file_def)

lemma ref_files_other [simp]: "fh_next (foldl ref_file h as) = fh_next h" "fh_freed (foldl ref_file h as) = fh_freed h"
  by (induction as arbitrary: h) (simp_all add: ref_file_def)

lemma MaybeAddFiles:
  "foldl (MaybeAddFile D) (h, fs) as =
     (let keep = filter (\<lambda>a. number (fh_meta h a) \<notin> D) as in (foldl ref_file h keep, fs @ keep))"
proof (induction as arbitrary: h fs)
  case (Cons a as)
  have "number (fh_meta (ref_file h a) x) = number (fh_meta h x)" for x by (simp add: ref_file_def)
  then show ?case using Cons by (simp add: MaybeAddFile_def Let_def)
qed simp

section \<open>What a builder saves\<close>

definition level_result :: "comparator \<Rightarrow> fstore \<Rightarrow> Builder \<Rightarrow> nat \<Rightarrow> faddr list" where
  "level_result c m b l = filter (\<lambda>a. number (m a) \<notin> ls_deleted (bl_levels b ! l)) (merge_files c m (bl_base b ! l) (ls_added (bl_levels b ! l)))"

lemma merge_files_cong:
  assumes "\<And>a. smallest (m' a) = smallest (m a) \<and> number (m' a) = number (m a)"
  shows "merge_files c m' base as = merge_files c m base as"
proof -
  have "BySmallestKey c (m' a) (m' b) = BySmallestKey c (m a) (m b)" for a b using assms by (simp add: BySmallestKey_def)
  then show ?thesis by (induction as arbitrary: base) simp_all
qed

lemma level_result_cong: "(\<And>a. smallest (m' a) = smallest (m a) \<and> number (m' a) = number (m a)) \<Longrightarrow> level_result c m' b l = level_result c m b l"
  by (simp add: level_result_def merge_files_cong [of m' m])

lemma SaveTo_eq:
  "SaveTo c h b = (foldl ref_file h (concat (map (level_result c (fh_meta h) b) [0..<kNumLevels])), map (level_result c (fh_meta h) b) [0..<kNumLevels])"
proof -
  have "foldl (save_level c b) (h, []) ls = (foldl ref_file h (concat (map (level_result c (fh_meta h) b) ls)), map (level_result c (fh_meta h) b) ls)" for ls
  proof (induction ls rule: rev_induct)
    case (snoc l ls)
    let ?h = "foldl ref_file h (concat (map (level_result c (fh_meta h) b) ls))"
    have "merge_files c (fh_meta ?h) = merge_files c (fh_meta h)" by (intro ext merge_files_cong) (simp add: ref_files_meta)
    moreover have "number (fh_meta ?h a) = number (fh_meta h a)" for a by (simp add: ref_files_meta)
    ultimately have "save_level c b (?h, v) l = (foldl ref_file ?h (level_result c (fh_meta h) b l), v @ [level_result c (fh_meta h) b l])" for v
      by (simp add: save_level_def Let_def MaybeAddFiles level_result_def)
    then show ?case using snoc by simp
  qed simp
  then show ?thesis unfolding SaveTo_def .
qed

text \<open>The numbers of the files of each level, and what an edit makes of them.\<close>

definition edit_numbers :: "VersionEdit \<Rightarrow> (nat \<Rightarrow> u64 set) \<Rightarrow> nat \<Rightarrow> u64 set" where
  "edit_numbers e S l = (S l - {n. (l, n) \<in> set (deleted_files e)}) \<union> {number f |f. (l, f) \<in> set (new_files e)}"

definition numbers :: "fstore \<Rightarrow> faddr list \<Rightarrow> u64 set" where
  "numbers m as = (\<lambda>a. number (m a)) ` set as"

text \<open>Apart from its references and the seeks left a file's metadata does not change.\<close>

definition describes :: "FileMetaData \<Rightarrow> u64 \<times> u64 \<times> bytes \<times> bytes" where
  "describes f = (number f, file_size f, smallest f, largest f)"

text \<open>What an edit may hold: levels that exist, files with whole keys, and what \<open>P\<close> asks of their metadata.\<close>

definition edit_ok :: "(FileMetaData \<Rightarrow> bool) \<Rightarrow> VersionEdit \<Rightarrow> bool" where
  "edit_ok P e \<longleftrightarrow> (\<forall>d\<in>set (deleted_files e). fst d < kNumLevels) \<and>
     (\<forall>lf\<in>set (new_files e). fst lf < kNumLevels \<and> file_dom (snd lf) \<and> (\<forall>r n. P ((snd lf)\<lparr>refs := r, allowed_seeks := n\<rparr>)))"

definition builder_ok :: "comparator \<Rightarrow> (FileMetaData \<Rightarrow> bool) \<Rightarrow> FileHeap \<Rightarrow> faddr list list \<Rightarrow> FileHeap \<Rightarrow> LevelState list \<Rightarrow> (nat \<Rightarrow> u64 set) \<Rightarrow> bool" where
  "builder_ok c P h0 base h ls S \<longleftrightarrow> fh_next h0 \<le> fh_next h \<and> fh_freed h = fh_freed h0 \<and> (\<forall>a < fh_next h0. fh_meta h a = fh_meta h0 a) \<and> length ls = kNumLevels \<and>
     (\<forall>l < kNumLevels.
       (\<forall>a\<in>set (ls_added (ls ! l)). fh_next h0 \<le> a \<and> a < fh_next h \<and> file_dom (fh_meta h a) \<and> P (fh_meta h a) \<and> refs (fh_meta h a) = 1) \<and>
       sorted_wrt (\<lambda>x y. BySmallestKey c (fh_meta h x) (fh_meta h y)) (ls_added (ls ! l)) \<and>
       (numbers (fh_meta h0) (base ! l) \<union> numbers (fh_meta h) (ls_added (ls ! l))) - ls_deleted (ls ! l) = S l)"

lemma builder_okD:
  assumes "builder_ok c P h0 base h ls S"
  shows "fh_next h0 \<le> fh_next h" "fh_freed h = fh_freed h0" "a < fh_next h0 \<Longrightarrow> fh_meta h a = fh_meta h0 a" "length ls = kNumLevels"
    "l < kNumLevels \<Longrightarrow> a \<in> set (ls_added (ls ! l)) \<Longrightarrow> fh_next h0 \<le> a \<and> a < fh_next h \<and> file_dom (fh_meta h a) \<and> P (fh_meta h a) \<and> refs (fh_meta h a) = 1"
    "l < kNumLevels \<Longrightarrow> sorted_wrt (\<lambda>x y. BySmallestKey c (fh_meta h x) (fh_meta h y)) (ls_added (ls ! l))"
    "l < kNumLevels \<Longrightarrow> (numbers (fh_meta h0) (base ! l) \<union> numbers (fh_meta h) (ls_added (ls ! l))) - ls_deleted (ls ! l) = S l"
  using assms unfolding builder_ok_def by blast+

lemma builder_okI:
  assumes "fh_next h0 \<le> fh_next h" "fh_freed h = fh_freed h0" "\<And>a. a < fh_next h0 \<Longrightarrow> fh_meta h a = fh_meta h0 a" "length ls = kNumLevels"
    "\<And>l a. l < kNumLevels \<Longrightarrow> a \<in> set (ls_added (ls ! l)) \<Longrightarrow> fh_next h0 \<le> a \<and> a < fh_next h \<and> file_dom (fh_meta h a) \<and> P (fh_meta h a) \<and> refs (fh_meta h a) = 1"
    "\<And>l. l < kNumLevels \<Longrightarrow> sorted_wrt (\<lambda>x y. BySmallestKey c (fh_meta h x) (fh_meta h y)) (ls_added (ls ! l))"
    "\<And>l. l < kNumLevels \<Longrightarrow> (numbers (fh_meta h0) (base ! l) \<union> numbers (fh_meta h) (ls_added (ls ! l))) - ls_deleted (ls ! l) = S l"
  shows "builder_ok c P h0 base h ls S"
  using assms unfolding builder_ok_def by blast

context file_order
begin

lemma builder_ok_new: "length base = kNumLevels \<Longrightarrow> builder_ok c P h base h (bl_levels (new_Builder base)) (\<lambda>l. numbers (fh_meta h) (base ! l))"
  by (rule builder_okI) (simp_all add: new_Builder_def numbers_def)

lemma apply_delete_ok:
  assumes "builder_ok c P h0 base h ls S" "fst d < kNumLevels"
  shows "builder_ok c P h0 base h (apply_delete ls d) (S(fst d := S (fst d) - {snd d}))"
proof -
  note D = builder_okD [OF assms(1)]
  let ?ls = "apply_delete ls d"
  have f: "ls_added (?ls ! l) = ls_added (ls ! l)" "ls_deleted (?ls ! l) = (if l = fst d then insert (snd d) (ls_deleted (ls ! l)) else ls_deleted (ls ! l))"
    if "l < kNumLevels" for l using that D(4) by (cases "l = fst d"; simp add: apply_delete_def)+
  show ?thesis
  proof (rule builder_okI)
    show "length ?ls = kNumLevels" using D(4) by (simp add: apply_delete_def)
    show "(numbers (fh_meta h0) (base ! l) \<union> numbers (fh_meta h) (ls_added (?ls ! l))) - ls_deleted (?ls ! l) = (S(fst d := S (fst d) - {snd d})) l"
      if "l < kNumLevels" for l using D(7) [OF that] f [OF that] by auto
  qed (use D f in simp_all)
qed

lemma apply_add_ok:
  assumes B: "builder_ok c P h0 base h ls S" and l: "fst lf < kNumLevels" and f: "file_dom (snd lf)" "P ((snd lf)\<lparr>refs := 1, allowed_seeks := seeks_allowed (file_size (snd lf))\<rparr>)"
  shows "builder_ok c P h0 base (fst (apply_add c (h, ls) lf)) (snd (apply_add c (h, ls) lf)) (S(fst lf := insert (number (snd lf)) (S (fst lf))))"
proof -
  define f' where "f' = (snd lf)\<lparr>refs := 1, allowed_seeks := seeks_allowed (file_size (snd lf))\<rparr>"
  define h' where "h' = h\<lparr>fh_meta := (fh_meta h)(fh_next h := f'), fh_next := fh_next h + 1\<rparr>"
  let ?lt = "\<lambda>x y. BySmallestKey c (fh_meta h' x) (fh_meta h' y)" and ?a = "fh_next h" and ?l = "ls ! fst lf"
  define l' where "l' = ?l\<lparr>ls_deleted := ls_deleted ?l - {number (snd lf)}, ls_added := set_insert ?lt ?a (ls_added ?l)\<rparr>"
  have A: "apply_add c (h, ls) lf = (h', ls[fst lf := l'])"
    by (cases lf) (simp add: apply_add_def new_file_def f'_def h'_def l'_def Let_def)
  note D = builder_okD [OF B]
  note O = address_order [of "fh_meta h'"]
  have old: "fh_meta h' a = fh_meta h a" if "a < fh_next h" for a using that by (simp add: h'_def)
  have at: "fh_meta h' ?a = f'" by (simp add: h'_def)
  have f': "file_dom f'" "P f'" "refs f' = 1" "number f' = number (snd lf)" using f by (simp_all add: f'_def file_dom_def)
  have sub: "set (ls_added l') \<subseteq> insert ?a (set (ls_added ?l))" "set (ls_added ?l) \<subseteq> set (ls_added l')"
    using set_order.set_insert_subset [OF O, where x = ?a and ys = "ls_added ?l"] by (simp_all add: l'_def)
  have srt: "sorted_wrt ?lt (ls_added (ls ! l))" if "l < kNumLevels" for l
    by (rule sorted_wrt_mono_rel [OF _ D(6) [OF that]]) (use D(5) [OF that] old in auto)
  have eqv: "\<exists>y\<in>set (ls_added l'). number (fh_meta h' y) = number (snd lf)"
  proof -
    obtain y where y: "y \<in> set (ls_added l')" "y = ?a \<or> \<not> ?lt ?a y \<and> \<not> ?lt y ?a"
      using set_order.set_insert_equiv [OF O, of ?a "ls_added ?l"] by (auto simp: l'_def)
    have "number (fh_meta h' y) = number f'"
    proof (cases "y = ?a")
      case False
      then have "y \<in> set (ls_added ?l)" using y(1) sub(1) by auto
      then have "file_dom (fh_meta h' y)" using D(5) [OF l] old by auto
      then show ?thesis using y(2) False equivalent_number [of "fh_meta h' y" f'] f'(1) at by simp
    qed (use at in simp)
    then show ?thesis using y(1) f'(4) by auto
  qed
  have num: "numbers (fh_meta h') (ls_added l') = insert (number (snd lf)) (numbers (fh_meta h) (ls_added ?l))"
  proof -
    have o: "numbers (fh_meta h') (ls_added ?l) = numbers (fh_meta h) (ls_added ?l)" using D(5) [OF l] old unfolding numbers_def by (intro image_cong) auto
    have "numbers (fh_meta h') (ls_added l') \<subseteq> insert (number (snd lf)) (numbers (fh_meta h') (ls_added ?l))" using sub(1) at f'(4) by (auto simp: numbers_def)
    moreover have "numbers (fh_meta h') (ls_added ?l) \<subseteq> numbers (fh_meta h') (ls_added l')" using sub(2) by (auto simp: numbers_def)
    moreover have "number (snd lf) \<in> numbers (fh_meta h') (ls_added l')" using eqv unfolding numbers_def by (metis imageI)
    ultimately show ?thesis using o by blast
  qed
  have same: "numbers (fh_meta h') (ls_added (ls ! l)) = numbers (fh_meta h) (ls_added (ls ! l))" if "l < kNumLevels" for l
    using D(5) [OF that] old unfolding numbers_def by (intro image_cong) auto
  show ?thesis unfolding A fst_conv snd_conv
  proof (rule builder_okI)
    show "fh_next h0 \<le> fh_next h'" "fh_freed h' = fh_freed h0" "length (ls[fst lf := l']) = kNumLevels" using D(1,2,4) by (simp_all add: h'_def)
    show "fh_meta h' a = fh_meta h0 a" if "a < fh_next h0" for a using that D(1) D(3) [OF that] old [of a] by simp
    show "fh_next h0 \<le> a \<and> a < fh_next h' \<and> file_dom (fh_meta h' a) \<and> P (fh_meta h' a) \<and> refs (fh_meta h' a) = 1"
      if "l < kNumLevels" "a \<in> set (ls_added (ls[fst lf := l'] ! l))" for l a
    proof (cases "a = ?a")
      case True
      then show ?thesis using f' D(1) at by (simp add: h'_def)
    next
      case False
      then have "a \<in> set (ls_added (ls ! l))" using that sub(1) D(4) by (cases "l = fst lf") auto
      then show ?thesis using D(5) [OF that(1), of a] old [of a] by (simp add: h'_def)
    qed
    show "sorted_wrt ?lt (ls_added (ls[fst lf := l'] ! l))" if "l < kNumLevels" for l
    proof (cases "l = fst lf")
      case True
      have "sorted_wrt ?lt (set_insert ?lt ?a (ls_added ?l))"
        by (rule set_order.ordered_insert_sorted [OF O _ _ srt [OF l]]) (use f'(1) at D(5) [OF l] old in auto)
      then show ?thesis using True l D(4) by (simp add: l'_def)
    qed (use srt [OF that] in simp)
    show "(numbers (fh_meta h0) (base ! l) \<union> numbers (fh_meta h') (ls_added (ls[fst lf := l'] ! l))) - ls_deleted (ls[fst lf := l'] ! l) =
        (S(fst lf := insert (number (snd lf)) (S (fst lf)))) l" if "l < kNumLevels" for l
    proof (cases "l = fst lf")
      case True
      then show ?thesis using D(7) [OF l] num l D(4) by (auto simp: l'_def)
    qed (use D(7) [OF that] same [OF that] in simp)
  qed
qed

lemma apply_deletes_ok:
  "builder_ok c P h0 base h ls S \<Longrightarrow> \<forall>d\<in>set ds. fst d < kNumLevels \<Longrightarrow>
   builder_ok c P h0 base h (foldl apply_delete ls ds) (\<lambda>l. S l - {n. (l, n) \<in> set ds})"
proof (induction ds arbitrary: ls S)
  case (Cons d ds)
  have "builder_ok c P h0 base h (foldl apply_delete (apply_delete ls d) ds) (\<lambda>l. (S(fst d := S (fst d) - {snd d})) l - {n. (l, n) \<in> set ds})"
    using Cons.IH [OF apply_delete_ok [OF Cons.prems(1), of d]] Cons.prems(2) by simp
  moreover have "(\<lambda>l. (S(fst d := S (fst d) - {snd d})) l - {n. (l, n) \<in> set ds}) = (\<lambda>l. S l - {n. (l, n) \<in> set (d # ds)})"
    by (intro ext, cases d) auto
  ultimately show ?case by simp
qed simp

lemma apply_adds_ok:
  "builder_ok c P h0 base h ls S \<Longrightarrow> \<forall>lf\<in>set fs. fst lf < kNumLevels \<and> file_dom (snd lf) \<and> (\<forall>r n. P ((snd lf)\<lparr>refs := r, allowed_seeks := n\<rparr>)) \<Longrightarrow>
   builder_ok c P h0 base (fst (foldl (apply_add c) (h, ls) fs)) (snd (foldl (apply_add c) (h, ls) fs)) (\<lambda>l. S l \<union> {number f |f. (l, f) \<in> set fs})"
proof (induction fs arbitrary: h ls S)
  case (Cons lf fs)
  obtain h' ls' where a: "apply_add c (h, ls) lf = (h', ls')" by fastforce
  have "builder_ok c P h0 base h' ls' (S(fst lf := insert (number (snd lf)) (S (fst lf))))"
    using apply_add_ok [OF Cons.prems(1), of lf] Cons.prems(2) a by simp
  then have "builder_ok c P h0 base (fst (foldl (apply_add c) (h', ls') fs)) (snd (foldl (apply_add c) (h', ls') fs))
      (\<lambda>l. (S(fst lf := insert (number (snd lf)) (S (fst lf)))) l \<union> {number f |f. (l, f) \<in> set fs})"
    by (rule Cons.IH) (use Cons.prems(2) in simp)
  moreover have "(\<lambda>l. (S(fst lf := insert (number (snd lf)) (S (fst lf)))) l \<union> {number f |f. (l, f) \<in> set fs}) =
      (\<lambda>l. S l \<union> {number f |f. (l, f) \<in> set (lf # fs)})" by (intro ext, cases lf) auto
  ultimately show ?case using a by simp
qed simp

lemma Apply_ok:
  assumes "builder_ok c P h0 base h (bl_levels b) S" "edit_ok P e" "Apply c e (cp, h, b) = (cp', h', b')"
  shows "builder_ok c P h0 base h' (bl_levels b') (edit_numbers e S)" "bl_base b' = bl_base b" "cp' = foldl apply_pointer cp (compact_pointers e)"
proof -
  have "builder_ok c P h0 base h (foldl apply_delete (bl_levels b) (deleted_files e)) (\<lambda>l. S l - {n. (l, n) \<in> set (deleted_files e)})"
    by (rule apply_deletes_ok [OF assms(1)]) (use assms(2) in \<open>simp add: edit_ok_def\<close>)
  from apply_adds_ok [OF this, of "new_files e"] show "builder_ok c P h0 base h' (bl_levels b') (edit_numbers e S)"
    using assms(2,3) unfolding edit_numbers_def by (auto simp: Apply_def Let_def edit_ok_def split: prod.splits)
  show "bl_base b' = bl_base b" "cp' = foldl apply_pointer cp (compact_pointers e)" using assms(3) by (auto simp: Apply_def Let_def split: prod.splits)
qed

lemma Apply_edits_ok:
  "builder_ok c P h0 base h (bl_levels b) S \<Longrightarrow> \<forall>e\<in>set es. edit_ok P e \<Longrightarrow> foldl (\<lambda>st e. Apply c e st) (cp, h, b) es = (cp', h', b') \<Longrightarrow>
   builder_ok c P h0 base h' (bl_levels b') (foldl (\<lambda>S e. edit_numbers e S) S es) \<and> bl_base b' = bl_base b \<and>
   cp' = foldl apply_pointer cp (concat (map compact_pointers es))"
proof (induction es arbitrary: cp h b S)
  case (Cons e es)
  obtain cp1 h1 b1 where a: "Apply c e (cp, h, b) = (cp1, h1, b1)" by (metis prod_cases3)
  note A = Apply_ok [OF Cons.prems(1) _ a]
  show ?case using Cons.IH [of h1 b1 "edit_numbers e S" cp1] A Cons.prems a by simp
qed simp

text \<open>The files saved: numbers, order and descriptions.\<close>

lemma level_result_ok:
  assumes B: "builder_ok c P h0 base h (bl_levels b) S" and b: "bl_base b = base" and l: "l < kNumLevels"
    and old: "\<forall>a\<in>set (base ! l). a < fh_next h0 \<and> file_dom (fh_meta h0 a) \<and> P (fh_meta h0 a)"
    and srt: "set_order.in_order (\<lambda>x y. BySmallestKey c (fh_meta h0 x) (fh_meta h0 y)) (base ! l)"
  shows "numbers (fh_meta h) (level_result c (fh_meta h) b l) = S l"
    "set_order.in_order (\<lambda>x y. BySmallestKey c (fh_meta h x) (fh_meta h y)) (level_result c (fh_meta h) b l)"
    "\<forall>a\<in>set (level_result c (fh_meta h) b l). a < fh_next h \<and> file_dom (fh_meta h a) \<and> P (fh_meta h a)"
    "set (level_result c (fh_meta h) b l) \<subseteq> set (base ! l) \<union> set (ls_added (bl_levels b ! l))"
proof -
  let ?m = "fh_meta h" and ?added = "ls_added (bl_levels b ! l)"
  let ?lt = "\<lambda>x y. BySmallestKey c (?m x) (?m y)"
  note D = builder_okD [OF B] and O = address_order [of ?m]
  have m: "fh_meta h a = fh_meta h0 a" if "a \<in> set (base ! l)" for a using D(3) old that by blast
  have st: "set (level_result c ?m b l) = {a \<in> set (base ! l) \<union> set ?added. number (?m a) \<notin> ls_deleted (bl_levels b ! l)}"
    by (auto simp: level_result_def b merge_files_eq set_order.set_merge_by [OF O])
  have nb: "numbers ?m (base ! l) = numbers (fh_meta h0) (base ! l)" using m by (auto simp: numbers_def)
  have "numbers ?m (level_result c ?m b l) = (numbers ?m (base ! l) \<union> numbers ?m ?added) - ls_deleted (bl_levels b ! l)" by (auto simp: numbers_def st)
  then show "numbers ?m (level_result c ?m b l) = S l" using D(7) [OF l] nb by simp
  show "set (level_result c ?m b l) \<subseteq> set (base ! l) \<union> set ?added" using st by auto
  have all: "\<forall>a\<in>set (base ! l) \<union> set ?added. a < fh_next h \<and> file_dom (?m a) \<and> P (?m a)" using old m D(1) D(5) [OF l] by force
  then show "\<forall>a\<in>set (level_result c ?m b l). a < fh_next h \<and> file_dom (?m a) \<and> P (?m a)" using st by auto
  have "sorted_wrt (\<lambda>x y. \<not> ?lt y x) (base ! l)"
    by (rule sorted_wrt_mono_rel [OF _ srt [unfolded set_order.in_order_def [OF address_order [of "fh_meta h0"]]]]) (use m in simp)
  then have "set_order.in_order ?lt (merge_files c ?m (base ! l) ?added)"
    unfolding merge_files_eq by (intro set_order.merge_by_in_order [OF O] D(6) [OF l]) (use all in \<open>auto simp: set_order.in_order_def [OF O]\<close>)
  then show "set_order.in_order ?lt (level_result c ?m b l)"
    unfolding level_result_def b set_order.in_order_def [OF O] by (rule sorted_wrt_filter)
qed

end

definition files_in_order :: "comparator \<Rightarrow> fstore \<Rightarrow> faddr list \<Rightarrow> bool" where
  "files_in_order c m as \<longleftrightarrow> sorted_wrt (\<lambda>x y. \<not> BySmallestKey c (m y) (m x)) as"

text \<open>What a version's files are: addresses in use, whole keys, descriptions among \<open>D\<close>, in order.\<close>

definition version_ok :: "comparator \<Rightarrow> (u64 \<times> u64 \<times> bytes \<times> bytes) set \<Rightarrow> FileHeap \<Rightarrow> faddr list list \<Rightarrow> bool" where
  "version_ok c D h files \<longleftrightarrow> length files = kNumLevels \<and>
     (\<forall>l < kNumLevels. files_in_order c (fh_meta h) (files ! l) \<and>
       (\<forall>a\<in>set (files ! l). a < fh_next h \<and> file_dom (fh_meta h a) \<and> describes (fh_meta h a) \<in> D))"

lemma builder_saves:
  assumes "total_comparator c" "version_ok c D h base" "\<forall>e\<in>set es. edit_ok (\<lambda>f. describes f \<in> D) e"
    "foldl (\<lambda>st e. Apply c e st) (cp, h, new_Builder base) es = (cp', h', b')" "SaveTo c h' b' = (h'', files)"
  shows "version_ok c D h'' files" "cp' = foldl apply_pointer cp (concat (map compact_pointers es))"
    "l < kNumLevels \<Longrightarrow> numbers (fh_meta h'') (files ! l) = foldl (\<lambda>S e. edit_numbers e S) (\<lambda>l. numbers (fh_meta h) (base ! l)) es l"
proof -
  have O: "file_order c" using assms(1) by (simp add: file_order_def)
  let ?P = "\<lambda>f. describes f \<in> D" and ?S = "foldl (\<lambda>S e. edit_numbers e S) (\<lambda>l. numbers (fh_meta h) (base ! l)) es"
  have "length base = kNumLevels" using assms(2) by (simp add: version_ok_def)
  note B = file_order.Apply_edits_ok [OF O file_order.builder_ok_new [OF O this, of ?P h] assms(3,4)]
  then show "cp' = foldl apply_pointer cp (concat (map compact_pointers es))" by blast
  have b: "builder_ok c ?P h base h' (bl_levels b') ?S" "bl_base b' = base" using B by (simp_all add: new_Builder_def)
  have S: "files = map (level_result c (fh_meta h') b') [0..<kNumLevels]" "h'' = foldl ref_file h' (concat files)" using assms(5) unfolding SaveTo_eq by auto
  have ext: "set_order (\<lambda>x y. BySmallestKey c (m x) (m y)) (\<lambda>a. file_dom (m a))" for m by (rule file_order.address_order [OF O])
  have n: "fh_next h'' = fh_next h'" "describes (fh_meta h'' a) = describes (fh_meta h' a)" "file_dom (fh_meta h'' a) = file_dom (fh_meta h' a)"
    "number (fh_meta h'' a) = number (fh_meta h' a)" "BySmallestKey c (fh_meta h'' a) (fh_meta h'' x) = BySmallestKey c (fh_meta h' a) (fh_meta h' x)" for a x
    by (simp_all add: S(2) ref_files_meta describes_def file_dom_def BySmallestKey_def)
  have L: "numbers (fh_meta h') (files ! l) = ?S l" "files_in_order c (fh_meta h') (files ! l)"
    "\<forall>a\<in>set (files ! l). a < fh_next h' \<and> file_dom (fh_meta h' a) \<and> ?P (fh_meta h' a)" if "l < kNumLevels" for l
    using file_order.level_result_ok [OF O b that] assms(2) that
    by (auto simp: S(1) version_ok_def files_in_order_def set_order.in_order_def [OF ext])
  show "l < kNumLevels \<Longrightarrow> numbers (fh_meta h'') (files ! l) = ?S l" using L(1) by (simp add: numbers_def n)
  show "version_ok c D h'' files" using L(2,3) by (simp add: version_ok_def files_in_order_def n) (simp add: S(1))
qed

section \<open>Properties\<close>


definition empty_heap :: FileHeap where
  "empty_heap = \<lparr>fh_meta = (\<lambda>_. new_FileMetaData), fh_next = 0, fh_freed = {}\<rparr>"


end
