(* ===== verification/VersionSets.thy ===== *)
theory VersionSets
  imports VersionBuilders LogFormat "HOL-Library.Log_Nat"
begin

text \<open>
  The state of \<open>VersionSet\<close> of \<open>db/version_set.cc\<close>: the versions with their reference counts, the numbers it hands out and
  what it computes from the current version. Versions are addresses into a heap; the circular list of versions is the list
  of their addresses, oldest first. A reference dropped on a freed version has no result.
\<close>

section \<open>Definitions\<close>

type_synonym vaddr = nat

record VersionSet =
  vs_dbname :: bytes
  vs_options :: Options
  vs_ucmp :: comparator
  vs_next_file_number :: u64
  vs_manifest_file_number :: u64
  vs_last_sequence :: u64
  vs_log_number :: u64
  vs_prev_log_number :: u64
  vs_descriptor :: "(bytes \<times> Writer) option"
  vs_heap :: FileHeap
  vs_versions :: "vaddr \<Rightarrow> Version"
  vs_next_version :: vaddr
  vs_list :: "vaddr list"
  vs_current :: "vaddr option"
  vs_compact_pointer :: "bytes list"

text \<open>A version is in the list from \<open>AppendVersion\<close> to its destruction.\<close>

definition Version_Ref :: "VersionSet \<Rightarrow> vaddr \<Rightarrow> VersionSet option" where
  "Version_Ref vs v =
     (if v \<notin> set (vs_list vs) then None
      else Some (vs\<lparr>vs_versions := (vs_versions vs)(v := (vs_versions vs v)\<lparr>v_refs := v_refs (vs_versions vs v) + 1\<rparr>)\<rparr>))"

definition Version_Unref :: "VersionSet \<Rightarrow> vaddr \<Rightarrow> VersionSet option" where
  "Version_Unref vs v =
     (if v \<notin> set (vs_list vs) then None
      else
        let ver = (vs_versions vs v)\<lparr>v_refs := v_refs (vs_versions vs v) - 1\<rparr>;
            vs = vs\<lparr>vs_versions := (vs_versions vs)(v := ver)\<rparr>
        in Some (if v_refs ver = 0
                 then vs\<lparr>vs_list := remove1 v (vs_list vs), vs_heap := delete_Version (vs_heap vs) (v_files ver)\<rparr>
                 else vs))"

definition AppendVersion :: "VersionSet \<Rightarrow> Version \<Rightarrow> VersionSet option" where
  "AppendVersion vs ver = do {
     let v = vs_next_version vs;
     vs \<leftarrow> (case vs_current vs of None \<Rightarrow> Some vs | Some cur \<Rightarrow> Version_Unref vs cur);
     Some (vs\<lparr>vs_current := Some v, vs_versions := (vs_versions vs)(v := ver\<lparr>v_refs := v_refs ver + 1\<rparr>),
       vs_next_version := v + 1, vs_list := vs_list vs @ [v]\<rparr>) }"

definition new_VersionSet :: "bytes \<Rightarrow> Options \<Rightarrow> comparator \<Rightarrow> FileHeap \<Rightarrow> VersionSet option" where
  "new_VersionSet dbname options ucmp h =
     AppendVersion
       \<lparr>vs_dbname = dbname, vs_options = options, vs_ucmp = ucmp, vs_next_file_number = 2, vs_manifest_file_number = 0,
        vs_last_sequence = 0, vs_log_number = 0, vs_prev_log_number = 0, vs_descriptor = None, vs_heap = h,
        vs_versions = (\<lambda>_. new_Version), vs_next_version = 0, vs_list = [], vs_current = None,
        vs_compact_pointer = replicate kNumLevels []\<rparr>
       new_Version"

definition delete_VersionSet :: "VersionSet \<Rightarrow> VersionSet option" where
  "delete_VersionSet vs = do {
     cur \<leftarrow> vs_current vs;
     vs \<leftarrow> Version_Unref vs cur;
     Some (vs\<lparr>vs_descriptor := None\<rparr>) }"

definition current_version :: "VersionSet \<Rightarrow> Version" where
  "current_version vs = vs_versions vs (the (vs_current vs))"

subsection \<open>Numbers\<close>

definition NewFileNumber :: "VersionSet \<Rightarrow> u64 \<times> VersionSet" where
  "NewFileNumber vs = (vs_next_file_number vs, vs\<lparr>vs_next_file_number := vs_next_file_number vs + 1\<rparr>)"

definition ReuseFileNumber :: "VersionSet \<Rightarrow> u64 \<Rightarrow> VersionSet" where
  "ReuseFileNumber vs file_number =
     (if vs_next_file_number vs = file_number + 1 then vs\<lparr>vs_next_file_number := file_number\<rparr> else vs)"

definition MarkFileNumberUsed :: "VersionSet \<Rightarrow> u64 \<Rightarrow> VersionSet" where
  "MarkFileNumberUsed vs n = (if vs_next_file_number vs \<le> n then vs\<lparr>vs_next_file_number := n + 1\<rparr> else vs)"

definition vs_SetLastSequence :: "VersionSet \<Rightarrow> u64 \<Rightarrow> VersionSet" where
  "vs_SetLastSequence vs s = vs\<lparr>vs_last_sequence := s\<rparr>"

subsection \<open>Doubles\<close>

text \<open>
  A double is the rational it stands for. Results are rounded to 53 significant bits, ties to even; the numbers here are far from the ends
  of the exponent's range.
\<close>

definition rat_exponent :: "rat \<Rightarrow> int" where
  "rat_exponent x =
     (let (p, q) = quotient_of x; e = bitlen p - bitlen q in if 2 powi e \<le> x then e else e - 1)"

definition round_half_even :: "rat \<Rightarrow> int" where
  "round_half_even x = (let n = \<lfloor>x\<rfloor>; d = x - of_int n in if d < 1 / 2 \<or> d = 1 / 2 \<and> even n then n else n + 1)"

definition to_double :: "rat \<Rightarrow> rat" where
  "to_double x = (if x = 0 then 0 else let u = 2 powi (rat_exponent x - 52) in of_int (round_half_even (x / u)) * u)"

subsection \<open>Finalize\<close>

function MaxBytesForLevel_loop :: "rat \<Rightarrow> nat \<Rightarrow> rat" where
  "MaxBytesForLevel_loop result level = (if level > 1 then MaxBytesForLevel_loop (to_double (result * 10)) (level - 1) else result)"
  by auto
termination by (relation "measure snd") auto

declare MaxBytesForLevel_loop.simps [simp del]

definition MaxBytesForLevel :: "Options \<Rightarrow> nat \<Rightarrow> rat" where
  "MaxBytesForLevel options level = MaxBytesForLevel_loop (to_double (10 * 1048576)) level"

definition level_score :: "Options \<Rightarrow> fstore \<Rightarrow> Version \<Rightarrow> nat \<Rightarrow> rat" where
  "level_score options m v level =
     (if level = 0 then to_double (to_double (of_nat (length (v_files v ! level))) / to_double (of_nat kL0_CompactionTrigger))
      else
        let level_bytes = word_of_int (TotalFileSize (map m (v_files v ! level))) :: u64
        in to_double (to_double (of_nat (unat level_bytes)) / MaxBytesForLevel options level))"

definition Finalize :: "Options \<Rightarrow> fstore \<Rightarrow> Version \<Rightarrow> Version" where
  "Finalize options m v =
     (let (best_level, best_score) =
        foldl (\<lambda>(best_level, best_score) level.
            let score = level_score options m v level
            in if score > best_score then (int level, score) else (best_level, best_score))
          (-1, -1) [0..<kNumLevels - 1]
      in v\<lparr>compaction_level := best_level, compaction_score := best_score\<rparr>)"

definition NeedsCompaction :: "VersionSet \<Rightarrow> bool" where
  "NeedsCompaction vs \<longleftrightarrow> compaction_score (current_version vs) \<ge> 1 \<or> file_to_compact (current_version vs) \<noteq> None"

subsection \<open>Summaries of the current version\<close>

definition NumLevelFiles :: "VersionSet \<Rightarrow> nat \<Rightarrow> nat" where
  "NumLevelFiles vs level = length (v_files (current_version vs) ! level)"

definition NumLevelBytes :: "VersionSet \<Rightarrow> nat \<Rightarrow> int" where
  "NumLevelBytes vs level = TotalFileSize (map (fh_meta (vs_heap vs)) (v_files (current_version vs) ! level))"

definition LevelSummary :: "VersionSet \<Rightarrow> bytes" where
  "LevelSummary vs =
     str ''files['' @ concat (map (\<lambda>level. str '' '' @ decimal (NumLevelFiles vs level)) [0..<kNumLevels]) @ str '' ]''"

definition AddLiveFiles :: "VersionSet \<Rightarrow> u64 set \<Rightarrow> u64 set" where
  "AddLiveFiles vs alive =
     foldl (\<lambda>alive v. foldl (foldl (\<lambda>alive f. insert (number (fh_meta (vs_heap vs) f)) alive)) alive (v_files (vs_versions vs v)))
       alive (vs_list vs)"

fun max_overlap :: "fstore \<Rightarrow> comparator \<Rightarrow> nat \<Rightarrow> faddr list \<Rightarrow> faddr list \<Rightarrow> int \<Rightarrow> int option" where
  "max_overlap m ucmp level next_files [] result = Some result"
| "max_overlap m ucmp level next_files (f # fs) result = do {
     overlaps \<leftarrow> GetOverlappingInputs m ucmp (level + 1) next_files (Some (smallest (m f))) (Some (largest (m f)));
     let sum = TotalFileSize (map m overlaps);
     max_overlap m ucmp level next_files fs (if sum > result then sum else result) }"

fun max_overlap_levels :: "fstore \<Rightarrow> comparator \<Rightarrow> faddr list list \<Rightarrow> nat list \<Rightarrow> int \<Rightarrow> int option" where
  "max_overlap_levels m ucmp files [] result = Some result"
| "max_overlap_levels m ucmp files (level # levels) result = do {
     result \<leftarrow> max_overlap m ucmp level (files ! (level + 1)) (files ! level) result;
     max_overlap_levels m ucmp files levels result }"

definition MaxNextLevelOverlappingBytes :: "VersionSet \<Rightarrow> int option" where
  "MaxNextLevelOverlappingBytes vs =
     max_overlap_levels (fh_meta (vs_heap vs)) (vs_ucmp vs) (v_files (current_version vs)) [1..<kNumLevels - 1] 0"


section \<open>Rounding\<close>

lemma rat_exponent_bounds:
  assumes "0 < x"
  shows "2 powi rat_exponent x \<le> x" "x < 2 powi (rat_exponent x + 1)"
proof -
  obtain p q where pq: "quotient_of x = (p, q)" by fastforce
  have q: "0 < q" using quotient_of_denom_pos [OF pq] .
  have x: "x = of_int p / of_int q" using quotient_of_div [OF pq] .
  have p: "0 < p" using assms q unfolding x by (simp add: zero_less_divide_iff)
  have B: "2 powi (bitlen n - 1) \<le> (of_int n :: rat) \<and> (of_int n :: rat) < 2 powi bitlen n" if "0 < n" for n
  proof -
    have l: "2 ^ nat (bitlen n - 1) \<le> n" "n < 2 ^ nat (bitlen n)" using bitlen_bounds [OF that] by auto
    have b: "0 < bitlen n" using l(2) that by (cases "0 < bitlen n") auto
    have "(of_int (2 ^ nat (bitlen n - 1)) :: rat) \<le> of_int n" "(of_int n :: rat) < of_int (2 ^ nat (bitlen n))" using l by (simp_all only: of_int_le_iff of_int_less_iff)
    then show ?thesis using b by (simp add: power_int_def)
  qed
  let ?e = "bitlen p - bitlen q"
  have hi: "x < 2 powi (?e + 1)"
  proof -
    have "of_int p < (2 :: rat) powi bitlen p" "2 powi (bitlen q - 1) \<le> (of_int q :: rat)" using B p q by auto
    moreover have "(2 :: rat) powi bitlen p = 2 powi (?e + 1) * 2 powi (bitlen q - 1)" by (subst power_int_add [symmetric]) auto
    moreover have "(2 :: rat) powi (?e + 1) * 2 powi (bitlen q - 1) \<le> 2 powi (?e + 1) * of_int q" using B [OF q] by (intro mult_left_mono) auto
    ultimately have "of_int p < (2 :: rat) powi (?e + 1) * of_int q" by linarith
    then show ?thesis using q unfolding x by (simp add: divide_less_eq)
  qed
  have lo: "2 powi (?e - 1) \<le> x"
  proof -
    have "(2 :: rat) powi (?e - 1) * of_int q \<le> 2 powi (?e - 1) * 2 powi bitlen q" using B [OF q] by (intro mult_left_mono) auto
    also have "\<dots> = 2 powi (bitlen p - 1)" by (subst power_int_add [symmetric]) auto
    also have "\<dots> \<le> of_int p" using B [OF p] by simp
    finally show ?thesis using q unfolding x by (simp add: le_divide_eq)
  qed
  show "2 powi rat_exponent x \<le> x" "x < 2 powi (rat_exponent x + 1)"
    using hi lo by (auto simp: rat_exponent_def pq Let_def)
qed

lemma round_half_even_bounds: "\<lfloor>x\<rfloor> \<le> round_half_even x" "\<bar>of_int (round_half_even x) - x\<bar> \<le> 1 / 2"
  by (auto simp: round_half_even_def Let_def abs_if) linarith+

lemma round_half_even_int [simp]: "round_half_even (of_int n) = n"
  by (simp add: round_half_even_def)

lemma to_double_0 [simp]: "to_double 0 = 0"
  by (simp add: to_double_def)

lemma powi_pos [simp]: "(0 :: rat) < 2 powi e"
  by simp

lemma to_double_ge:
  assumes "2 powi k \<le> x"
  shows "2 powi k \<le> to_double x"
proof -
  have x: "0 < x" using assms powi_pos [of k] by linarith
  let ?e = "rat_exponent x" and ?u = "(2 :: rat) powi (rat_exponent x - 52)"
  have "(2 :: rat) powi k < 2 powi (?e + 1)" using rat_exponent_bounds(2) [OF x] assms by simp
  then have "k \<le> ?e" using power_int_increasing [of "?e + 1" k "2 :: rat"] by (cases "k \<le> ?e") auto
  then have ke: "(2 :: rat) powi k \<le> 2 powi ?e" by (simp add: power_int_increasing)
  have e: "(2 :: rat) powi ?e = 2 ^ 52 * ?u" by (simp add: power_int_diff)
  have "2 ^ 52 \<le> x / ?u" using rat_exponent_bounds(1) [OF x] e by (simp add: le_divide_eq)
  then have "of_int (2 ^ 52) \<le> x / ?u" by simp
  then have "2 ^ 52 \<le> \<lfloor>x / ?u\<rfloor>" by (simp only: le_floor_iff)
  then have "2 ^ 52 \<le> round_half_even (x / ?u)" using round_half_even_bounds(1) [of "x / ?u"] by linarith
  then have "(of_int (2 ^ 52) :: rat) \<le> of_int (round_half_even (x / ?u))" by (simp only: of_int_le_iff)
  then have "2 ^ 52 * ?u \<le> of_int (round_half_even (x / ?u)) * ?u" by (intro mult_right_mono) auto
  then have "2 powi k \<le> of_int (round_half_even (x / ?u)) * ?u" using ke unfolding e by linarith
  then show ?thesis using x by (simp add: to_double_def Let_def)
qed

lemma to_double_error:
  assumes "0 < x"
  shows "\<bar>to_double x - x\<bar> \<le> x / 2 ^ 53"
proof -
  let ?u = "(2 :: rat) powi (rat_exponent x - 52)"
  have "to_double x - x = (of_int (round_half_even (x / ?u)) - x / ?u) * ?u" using assms by (simp add: to_double_def Let_def left_diff_distrib)
  then have "\<bar>to_double x - x\<bar> \<le> 1 / 2 * ?u" using round_half_even_bounds(2) [of "x / ?u"] by (simp add: abs_mult)
  also have "\<dots> = 2 powi rat_exponent x / 2 ^ 53" by (simp add: power_int_diff)
  also have "\<dots> \<le> x / 2 ^ 53" using rat_exponent_bounds(1) [OF assms] by (intro divide_right_mono) auto
  finally show ?thesis .
qed

lemma to_double_exact:
  assumes "n < 2 ^ 53"
  shows "to_double (of_nat n) = of_nat n"
proof (cases "n = 0")
  case False
  let ?x = "of_nat n :: rat" and ?u = "(2 :: rat) powi (rat_exponent (of_nat n) - 52)"
  have x: "0 < ?x" using False by simp
  have "?x < of_nat (2 ^ 53)" using assms by (simp only: of_nat_less_iff)
  then have "(2 :: rat) powi rat_exponent ?x < 2 powi 53" using rat_exponent_bounds(1) [OF x] by simp
  then have e: "rat_exponent ?x \<le> 52" using power_int_increasing [of 53 "rat_exponent ?x" "2 :: rat"] by (cases "rat_exponent ?x \<le> 52") auto
  have "(1 :: rat) / ?u = 2 powi (52 - rat_exponent ?x)" by (simp add: power_int_diff)
  also have "\<dots> = 2 ^ nat (52 - rat_exponent ?x)" using e by (simp add: power_int_def)
  finally have "?x / ?u = of_int (int n * 2 ^ nat (52 - rat_exponent ?x))" by (simp add: divide_inverse)
  then have r: "of_int (round_half_even (?x / ?u)) = ?x / ?u" by (simp del: of_int_mult)
  show ?thesis using x r by (simp add: to_double_def Let_def)
qed simp

lemma to_double_nonneg: "0 \<le> x \<Longrightarrow> 0 \<le> to_double x"
proof (cases "x = 0")
  case False
  assume "0 \<le> x"
  then have "0 < x" using False by simp
  then show ?thesis using to_double_ge [of "rat_exponent x" x] rat_exponent_bounds(1) [of x] powi_pos [of "rat_exponent x"] by linarith
qed simp

text \<open>The rounded ratio of two integers reaches one exactly when the integers do.\<close>

lemma ratio_reaches_one:
  assumes "0 < l" "l < 2 ^ 53"
  shows "1 \<le> to_double (to_double (of_nat n) / of_nat l) \<longleftrightarrow> l \<le> n"
proof
  have lr: "(0 :: rat) < of_nat l" using assms by simp
  assume n: "l \<le> n"
  have "(of_nat l :: rat) \<le> to_double (of_nat n)"
  proof (cases "n < 2 ^ 53")
    case True
    then show ?thesis using n by (simp add: to_double_exact)
  next
    case False
    then have "of_nat (2 ^ 53) \<le> (of_nat n :: rat)" by (simp only: of_nat_le_iff not_less)
    then have "(2 :: rat) powi 53 \<le> of_nat n" by simp
    from to_double_ge [OF this] have "2 ^ 53 \<le> to_double (of_nat n)" by simp
    moreover have "(of_nat l :: rat) < of_nat (2 ^ 53)" using assms(2) by (simp only: of_nat_less_iff)
    ultimately show ?thesis by simp
  qed
  then have "2 powi 0 \<le> to_double (of_nat n) / of_nat l" using lr by simp
  from to_double_ge [OF this] show "1 \<le> to_double (to_double (of_nat n) / of_nat l)" by simp
next
  have "(of_nat l :: rat) < of_nat (2 ^ 53)" using assms(2) by (simp only: of_nat_less_iff)
  then have lr: "(0 :: rat) < of_nat l" "(of_nat l :: rat) < 2 ^ 53" using assms(1) by simp_all
  assume ge: "1 \<le> to_double (to_double (of_nat n) / of_nat l)"
  show "l \<le> n"
  proof (rule ccontr)
    assume "\<not> l \<le> n"
    then have n: "n < l" by simp
    let ?x = "of_nat n / of_nat l :: rat"
    have t: "to_double (of_nat n) = of_nat n" using n assms(2) by (simp add: to_double_exact)
    have ge': "1 \<le> to_double ?x" using ge by (simp only: t)
    then have "n \<noteq> 0" by (intro notI) simp
    then have x: "0 < ?x" using lr by simp
    have "(of_nat n :: rat) + 1 \<le> of_nat l" using n by (simp flip: of_nat_Suc)
    then have le: "?x \<le> 1 - 1 / of_nat l" using lr by (simp add: field_simps)
    have a: "1 / 2 ^ 53 < 1 / (of_nat l :: rat)" by (rule divide_strict_left_mono) (use lr in simp_all)
    have "0 \<le> 1 / (of_nat l :: rat)" by simp
    then have "?x \<le> 1" using le by linarith
    then have b: "?x / 2 ^ 53 \<le> 1 / 2 ^ 53" by (rule divide_right_mono) simp
    have "to_double ?x - ?x \<le> ?x / 2 ^ 53" using to_double_error [OF x] by (simp only: abs_le_iff)
    then show False using ge' le a b by linarith
  qed
qed

section \<open>The level to compact\<close>

lemma MaxBytesForLevel_nat:
  assumes "1 \<le> level" "level < 6"
  shows "MaxBytesForLevel options level = of_nat (10 ^ level * 2 ^ 20)"
proof -
  have L: "MaxBytesForLevel_loop r (Suc 0) = r" "MaxBytesForLevel_loop r (numeral k) = (if numeral k > (1 :: nat) then MaxBytesForLevel_loop (to_double (r * 10)) (numeral k - 1) else r)" for r k
    using MaxBytesForLevel_loop.simps [of r "Suc 0"] MaxBytesForLevel_loop.simps [of r "numeral k"] by simp_all
  have E: "to_double (numeral k) = numeral k" if "numeral k < (2 ^ 53 :: nat)" for k
    using to_double_exact [OF that] by simp
  have "level \<in> {1, 2, 3, 4, 5}" using assms by auto
  then show ?thesis unfolding MaxBytesForLevel_def by (elim insertE) (simp_all add: L E)
qed

definition level_bytes :: "fstore \<Rightarrow> Version \<Rightarrow> nat \<Rightarrow> nat" where
  "level_bytes m v level = unat (word_of_int (TotalFileSize (map m (v_files v ! level))) :: u64)"

definition over_limit :: "fstore \<Rightarrow> Version \<Rightarrow> nat \<Rightarrow> bool" where
  "over_limit m v level \<longleftrightarrow> (if level = 0 then kL0_CompactionTrigger \<le> length (v_files v ! 0) else 10 ^ level * 2 ^ 20 \<le> level_bytes m v level)"

lemma level_score_iff:
  assumes "level < 6"
  shows "1 \<le> level_score options m v level \<longleftrightarrow> over_limit m v level"
proof (cases "level = 0")
  case True
  have "to_double (of_nat kL0_CompactionTrigger) = of_nat kL0_CompactionTrigger" by (rule to_double_exact) (simp add: kL0_CompactionTrigger_def)
  then show ?thesis using True ratio_reaches_one [of kL0_CompactionTrigger] by (simp add: level_score_def over_limit_def kL0_CompactionTrigger_def)
next
  case False
  have l: "1 \<le> level" using False by simp
  have "(10 :: nat) ^ level \<le> 10 ^ 5" using assms by (intro power_increasing) auto
  then have "10 ^ level * 2 ^ 20 < (2 ^ 53 :: nat)" by simp
  from ratio_reaches_one [OF _ this, of "level_bytes m v level"] show ?thesis
    using False by (simp only: level_score_def over_limit_def MaxBytesForLevel_nat [OF l assms] level_bytes_def Let_def if_False) simp
qed

lemma level_score_nonneg: "level < 6 \<Longrightarrow> 0 \<le> level_score options m v level"
proof -
  assume l: "level < 6"
  have n: "0 \<le> to_double (of_nat k)" for k by (simp add: to_double_nonneg)
  show ?thesis
    using l MaxBytesForLevel_nat [of level options] unfolding level_score_def Let_def by (cases "level = 0") (auto intro!: to_double_nonneg divide_nonneg_nonneg n simp del: of_nat_unat)
qed

lemma best_of_levels:
  fixes score :: "nat \<Rightarrow> rat"
  assumes "foldl (\<lambda>(bl, bs) level. let sc = score level in if sc > bs then (int level, sc) else (bl, bs)) (b, s) ls = (b', s')"
  shows "s \<le> s' \<and> (\<forall>l\<in>set ls. score l \<le> s') \<and> ((b', s') = (b, s) \<or> (\<exists>l\<in>set ls. b' = int l \<and> s' = score l))"
  using assms
proof (induction ls arbitrary: b s)
  case (Cons l ls)
  show ?case
  proof (cases "score l > s")
    case True
    then have "foldl (\<lambda>(bl, bs) level. let sc = score level in if sc > bs then (int level, sc) else (bl, bs)) (int l, score l) ls = (b', s')"
      using Cons.prems by (simp add: Let_def)
    from Cons.IH [OF this] show ?thesis using True by auto
  next
    case False
    then have "foldl (\<lambda>(bl, bs) level. let sc = score level in if sc > bs then (int level, sc) else (bl, bs)) (b, s) ls = (b', s')"
      using Cons.prems by (simp add: Let_def)
    from Cons.IH [OF this] show ?thesis using False by auto
  qed
qed simp

lemma Finalize_best:
  obtains l where "l < 6" "compaction_level (Finalize options m v) = int l" "compaction_score (Finalize options m v) = level_score options m v l"
    "\<And>k. k < 6 \<Longrightarrow> level_score options m v k \<le> level_score options m v l"
proof -
  obtain b s where f: "foldl (\<lambda>(bl, bs) level. let sc = level_score options m v level in if sc > bs then (int level, sc) else (bl, bs)) (-1, -1) [0..<kNumLevels - 1] = (b, s)"
    by fastforce
  have n: "set [0..<kNumLevels - 1] = {..<6}" by (auto simp: kNumLevels_def)
  note B = best_of_levels [OF f, unfolded n]
  have "level_score options m v 0 \<le> s" using B by auto
  then have "0 \<le> s" using level_score_nonneg [of 0 options m v] by linarith
  then obtain l where "l < 6" "b = int l" "s = level_score options m v l" using B by auto
  moreover have F: "compaction_level (Finalize options m v) = b" "compaction_score (Finalize options m v) = s" using f by (simp_all add: Finalize_def)
  ultimately show ?thesis using B that [of l] by auto
qed


end
