(* ===== verification/FileSystems.thy ===== *)
theory FileSystems
  imports Envs FileNames
begin

text \<open>
  The file system behind \<open>Env\<close> (\<open>include/leveldb/env.h\<close>) as its documentation promises it: the bytes under each name, with a script of
  the statuses that its next calls return, so that every call can fail; and what \<open>util/env.cc\<close> and \<open>db/filename.cc\<close> build
  on it. A failing call of the environment changes no file. The bytes of an open file are those appended to it.
\<close>

section \<open>Definitions\<close>

record Env =
  env_files :: "bytes \<Rightarrow> bytes option"
  env_script :: "Status list"
  env_reads :: "Status list list"
  env_writes :: "(Status \<times> nat) list list"

text \<open>The status of the next call, and the scripts of the next files to be opened.\<close>

fun env_next :: "Env \<Rightarrow> Status \<times> Env" where
  "env_next env = (case env_script env of [] \<Rightarrow> (Status_OK, env) | s # ss \<Rightarrow> (s, env\<lparr>env_script := ss\<rparr>))"

fun next_script :: "'s list list \<Rightarrow> 's list \<times> 's list list" where
  "next_script [] = ([], [])"
| "next_script (x # xs) = (x, xs)"

definition missing_file :: "bytes \<Rightarrow> Status" where
  "missing_file fname = NotFound fname (str ''No such file or directory'')"

definition NewSequentialFile :: "Env \<Rightarrow> bytes \<Rightarrow> Status \<times> SequentialFile option \<times> Env" where
  "NewSequentialFile env fname =
     (let (s, env) = env_next env
      in if \<not> ok s then (s, None, env)
         else case env_files env fname of
             None \<Rightarrow> (missing_file fname, None, env)
           | Some data \<Rightarrow> let (sc, rest) = next_script (env_reads env) in (s, Some \<lparr>sf_rest = data, sf_script = sc\<rparr>, env\<lparr>env_reads := rest\<rparr>))"

definition store_file :: "Env \<Rightarrow> bytes \<Rightarrow> WritableFile \<Rightarrow> Env" where
  "store_file env fname f = env\<lparr>env_files := (env_files env)(fname \<mapsto> wf_data f)\<rparr>"

definition open_writable :: "Env \<Rightarrow> bytes \<Rightarrow> bytes \<Rightarrow> Status \<times> WritableFile option \<times> Env" where
  "open_writable env fname data =
     (let (s, env) = env_next env
      in if \<not> ok s then (s, None, env)
         else let (sc, rest) = next_script (env_writes env); f = \<lparr>wf_data = data, wf_script = sc\<rparr>
              in (s, Some f, store_file (env\<lparr>env_writes := rest\<rparr>) fname f))"

definition NewWritableFile :: "Env \<Rightarrow> bytes \<Rightarrow> Status \<times> WritableFile option \<times> Env" where
  "NewWritableFile env fname = open_writable env fname []"

definition NewAppendableFile :: "Env \<Rightarrow> bytes \<Rightarrow> Status \<times> WritableFile option \<times> Env" where
  "NewAppendableFile env fname = open_writable env fname (case env_files env fname of None \<Rightarrow> [] | Some data \<Rightarrow> data)"

definition FileExists :: "Env \<Rightarrow> bytes \<Rightarrow> bool" where
  "FileExists env fname \<longleftrightarrow> env_files env fname \<noteq> None"

definition env_RemoveFile :: "Env \<Rightarrow> bytes \<Rightarrow> Status \<times> Env" where
  "env_RemoveFile env fname =
     (let (s, env) = env_next env
      in if \<not> ok s then (s, env)
         else if env_files env fname = None then (missing_file fname, env)
         else (s, env\<lparr>env_files := (env_files env)(fname := None)\<rparr>))"

definition RenameFile :: "Env \<Rightarrow> bytes \<Rightarrow> bytes \<Rightarrow> Status \<times> Env" where
  "RenameFile env src target =
     (let (s, env) = env_next env
      in if \<not> ok s then (s, env)
         else case env_files env src of
             None \<Rightarrow> (missing_file src, env)
           | Some data \<Rightarrow> (s, env\<lparr>env_files := (env_files env)(src := None, target \<mapsto> data)\<rparr>))"

definition GetFileSize :: "Env \<Rightarrow> bytes \<Rightarrow> Status \<times> u64 \<times> Env" where
  "GetFileSize env fname =
     (let (s, env) = env_next env
      in if \<not> ok s then (s, 0, env)
         else case env_files env fname of None \<Rightarrow> (missing_file fname, 0, env) | Some data \<Rightarrow> (s, of_nat (length data), env))"

text \<open>\<open>Sync\<close> and \<open>Close\<close> of a writable file.\<close>

definition wf_Sync :: "WritableFile \<Rightarrow> Status \<times> WritableFile" where
  "wf_Sync f = (let ((s, k), f) = wf_next f in (s, f))"

definition wf_Close :: "WritableFile \<Rightarrow> Status \<times> WritableFile" where
  "wf_Close f = (let ((s, k), f) = wf_next f in (s, f))"

subsection \<open>Whole files\<close>

definition DoWriteStringToFile :: "Env \<Rightarrow> bytes \<Rightarrow> bytes \<Rightarrow> bool \<Rightarrow> Status \<times> Env" where
  "DoWriteStringToFile env data fname should_sync =
     (case NewWritableFile env fname of
        (s, None, env) \<Rightarrow> (s, env)
      | (s, Some file, env) \<Rightarrow>
          let (s, file) = wf_Append file data;
              (s, file) = (if ok s \<and> should_sync then wf_Sync file else (s, file));
              (s, file) = (if ok s then wf_Close file else (s, file));
              env = store_file env fname file
          in if \<not> ok s then (s, snd (env_RemoveFile env fname)) else (s, env))"

definition WriteStringToFile :: "Env \<Rightarrow> bytes \<Rightarrow> bytes \<Rightarrow> Status \<times> Env" where
  "WriteStringToFile env data fname = DoWriteStringToFile env data fname False"

definition WriteStringToFileSync :: "Env \<Rightarrow> bytes \<Rightarrow> bytes \<Rightarrow> Status \<times> Env" where
  "WriteStringToFileSync env data fname = DoWriteStringToFile env data fname True"

function read_all :: "SequentialFile \<Rightarrow> bytes \<Rightarrow> Status \<times> bytes" where
  "read_all file data =
     (case sf_Read file 8192 of
        (s, fragment, file) \<Rightarrow>
          if \<not> ok s then (s, data)
          else if fragment = [] then (s, data)
          else read_all file (data @ fragment))"
  by auto
termination
  by (relation "measure (\<lambda>(f, _). length (sf_rest f))") (auto dest!: sf_Read_measure [OF sym] simp flip: length_greater_0_conv)

declare read_all.simps [simp del]

definition ReadFileToString :: "Env \<Rightarrow> bytes \<Rightarrow> Status \<times> bytes \<times> Env" where
  "ReadFileToString env fname =
     (case NewSequentialFile env fname of
        (s, None, env) \<Rightarrow> (s, [], env)
      | (s, Some file, env) \<Rightarrow> let (s, data) = read_all file [] in (s, data, env))"

definition SetCurrentFile :: "Env \<Rightarrow> bytes \<Rightarrow> u64 \<Rightarrow> Status \<times> Env" where
  "SetCurrentFile env dbname descriptor_number =
     (let manifest = DescriptorFileName dbname descriptor_number;
          cont = drop (length dbname + 1) manifest;
          tmp = TempFileName dbname descriptor_number;
          (s, env) = WriteStringToFileSync env (cont @ [10]) tmp;
          (s, env) = (if ok s then RenameFile env tmp (CurrentFileName dbname) else (s, env))
      in if \<not> ok s then (s, snd (env_RemoveFile env tmp)) else (s, env))"


section \<open>What a call changes\<close>

lemma env_next_files [simp]: "env_files (snd (env_next env)) = env_files env"
  by (auto split: list.splits)

lemma open_writable_files:
  "open_writable env fname data = (s, f, env') \<Longrightarrow>
     (if ok s then env_files env' = (env_files env)(fname \<mapsto> data) \<and> (\<exists>sc. f = Some \<lparr>wf_data = data, wf_script = sc\<rparr>)
      else env_files env' = env_files env \<and> f = None)"
  using env_next_files [of env] by (auto simp: open_writable_def store_file_def Let_def split: prod.splits if_splits)

lemma RemoveFile_files:
  "env_RemoveFile env fname = (s, env') \<Longrightarrow>
     env_files env' = (if ok s then (env_files env)(fname := None) else env_files env)"
  using env_next_files [of env] by (auto simp: env_RemoveFile_def missing_file_def Let_def split: prod.splits if_splits)

lemma RemoveFile_others: "g \<noteq> fname \<Longrightarrow> env_files (snd (env_RemoveFile env fname)) g = env_files env g"
  using RemoveFile_files [OF surjective_pairing, of env fname] by auto

lemma RenameFile_files:
  "RenameFile env src target = (s, env') \<Longrightarrow>
     (if ok s then (\<exists>data. env_files env src = Some data \<and> env_files env' = (env_files env)(src := None, target \<mapsto> data))
      else env_files env' = env_files env)"
  using env_next_files [of env] by (auto simp: RenameFile_def missing_file_def Let_def split: prod.splits if_splits option.splits)

lemma wf_Append_ok: "wf_Append f data = (s, f') \<Longrightarrow> ok s \<Longrightarrow> wf_data f' = wf_data f @ data"
  by (auto simp: wf_Append_def Let_def split: prod.splits list.splits)

lemma wf_calls_data [simp]: "wf_data (snd (wf_Sync f)) = wf_data f" "wf_data (snd (wf_Close f)) = wf_data f"
  by (auto simp: wf_Sync_def wf_Close_def split: prod.splits list.splits)

lemma wf_calls_dataD:
  "wf_Sync f = (s, f') \<Longrightarrow> wf_data f' = wf_data f"
  "wf_Close f = (s, f') \<Longrightarrow> wf_data f' = wf_data f"
  using wf_calls_data [of f] by auto

lemma DoWrite_files:
  assumes "DoWriteStringToFile env data fname sync = (s, env')"
  shows "if ok s then env_files env' = (env_files env)(fname \<mapsto> data) else (\<forall>g. g \<noteq> fname \<longrightarrow> env_files env' g = env_files env g)"
proof -
  obtain s0 f0 env0 where n: "NewWritableFile env fname = (s0, f0, env0)" by (metis prod_cases3)
  note N = open_writable_files [OF n [unfolded NewWritableFile_def]]
  show ?thesis
  proof (cases f0)
    case None
    then show ?thesis using assms n N by (auto simp: DoWriteStringToFile_def split: if_splits)
  next
    case (Some f)
    obtain s1 f1 where a: "wf_Append f data = (s1, f1)" by fastforce
    obtain s2 f2 where y: "(if ok s1 \<and> sync then wf_Sync f1 else (s1, f1)) = (s2, f2)" by fastforce
    obtain s3 f3 where cl: "(if ok s2 then wf_Close f2 else (s2, f2)) = (s3, f3)" by fastforce
    have d: "wf_data f3 = wf_data f1" using y cl wf_calls_dataD(1) [of f1 s2 f2] wf_calls_dataD(2) [of f2 s3 f3] by (auto split: if_splits)
    have ok: "ok s1" if "ok s3" using y cl that by (auto split: if_splits)
    have f: "wf_data f = []" "env_files env0 = (env_files env)(fname \<mapsto> [])" using N Some by (auto split: if_splits)
    have r: "(s, env') = (if \<not> ok s3 then (s3, snd (env_RemoveFile (store_file env0 fname f3) fname)) else (s3, store_file env0 fname f3))"
      using assms n Some a y cl by (simp add: DoWriteStringToFile_def Let_def)
    show ?thesis
    proof (cases "ok s3")
      case True
      then show ?thesis using r wf_Append_ok [OF a ok] d f by (auto simp: store_file_def)
    next
      case False
      then show ?thesis using r RemoveFile_others [of _ fname] f by (auto simp: store_file_def)
    qed
  qed
qed

lemma read_all_reads:
  "read_all f acc = (s, data) \<Longrightarrow> if ok s then data = acc @ sf_rest f else prefix data (acc @ sf_rest f)"
proof (induction f acc rule: read_all.induct)
  case (1 f acc)
  obtain s1 b f1 where r: "sf_Read f 8192 = (s1, b, f1)" by (metis prod_cases3)
  have R: "if ok s1 then b = take 8192 (sf_rest f) \<and> sf_rest f1 = drop 8192 (sf_rest f) else b = []"
    using r by (auto simp: sf_Read_def Let_def split: prod.splits if_splits list.splits)
  show ?case
  proof (cases "ok s1 \<and> b \<noteq> []")
    case True
    then have "read_all f1 (acc @ b) = (s, data)" using "1.prems" r by (simp add: read_all.simps [of f])
    from "1.IH" [OF r [symmetric] _ _ _ this] True have "if ok s then data = (acc @ b) @ sf_rest f1 else prefix data ((acc @ b) @ sf_rest f1)" by auto
    moreover have "b @ sf_rest f1 = sf_rest f" using True R by simp
    ultimately show ?thesis by (cases "ok s") simp_all
  next
    case False
    then have "(s, data) = (s1, acc)" using "1.prems" r by (cases "ok s1") (simp_all add: read_all.simps [of f])
    then show ?thesis using False R by auto
  qed
qed

section \<open>Properties\<close>

text \<open>Whatever fails, a file read whole is read exactly, and an error leaves what was read before it.\<close>

theorem read_file_exact_or_error:
  "let (s, data, env') = ReadFileToString env fname in
     (if ok s then env_files env fname = Some data else prefix data (case env_files env fname of None \<Rightarrow> [] | Some d \<Rightarrow> d)) \<and>
     env_files env' = env_files env"
proof -
  obtain s f env' where n: "NewSequentialFile env fname = (s, f, env')" by (metis prod_cases3)
  have N: "env_files env' = env_files env \<and> (case f of None \<Rightarrow> \<not> ok s | Some f \<Rightarrow> ok s \<and> env_files env fname = Some (sf_rest f))"
    using n env_next_files [of env] by (auto simp: NewSequentialFile_def missing_file_def Let_def split: prod.splits if_splits option.splits)
  show ?thesis
  proof (cases f)
    case None
    then show ?thesis using n N by (simp add: ReadFileToString_def)
  next
    case (Some g)
    obtain s1 data where r: "read_all g [] = (s1, data)" by fastforce
    from read_all_reads [OF r] show ?thesis using n N Some r by (auto simp: ReadFileToString_def Let_def)
  qed
qed

lemma temp_not_current: "TempFileName dbname n \<noteq> CurrentFileName dbname'"
proof
  assume "TempFileName dbname n = CurrentFileName dbname'"
  then have "last (TempFileName dbname n) = last (CurrentFileName dbname')" by simp
  then show False by (simp add: TempFileName_def MakeFileName_def CurrentFileName_def)
qed

text \<open>
  C27. The switch to a new manifest is all or nothing, whatever calls fail and whatever a failing append leaves behind: either it succeeds and
  \<open>CURRENT\<close> holds the name of the manifest and a newline, the temporary file being gone and every other file as before; or it reports an
  error and every file but the temporary one is as before, \<open>CURRENT\<close> included.
\<close>

theorem set_current_atomic:
  "let (s, env') = SetCurrentFile env dbname n; tmp = TempFileName dbname n; cur = CurrentFileName dbname in
     (if ok s then env_files env' = (env_files env)(tmp := None, cur \<mapsto> file_part dbname (DescriptorFileName dbname n) @ [10])
      else env_files env' cur = env_files env cur \<and> (env_files env')(tmp := None) = (env_files env)(tmp := None))"
proof -
  let ?tmp = "TempFileName dbname n" and ?cur = "CurrentFileName dbname" and ?data = "file_part dbname (DescriptorFileName dbname n) @ [10]"
  obtain s1 env1 where w: "DoWriteStringToFile env ?data ?tmp True = (s1, env1)" by fastforce
  note W = DoWrite_files [OF w]
  obtain s2 env2 where r: "(if ok s1 then RenameFile env1 ?tmp ?cur else (s1, env1)) = (s2, env2)" by fastforce
  have R: "SetCurrentFile env dbname n = (if \<not> ok s2 then (s2, snd (env_RemoveFile env2 ?tmp)) else (s2, env2))"
    using w r by (simp add: SetCurrentFile_def WriteStringToFileSync_def file_part_def Let_def)
  have rn: "if ok s2 then env_files env2 = (env_files env1)(?tmp := None, ?cur \<mapsto> ?data) \<and> ok s1 else env_files env2 = env_files env1"
    using r W by (cases "ok s1") (auto split: if_splits dest: RenameFile_files)
  show ?thesis
  proof (cases "ok s2")
    case True
    then show ?thesis using R rn W by (simp add: fun_upd_twist)
  next
    case False
    have "env_files (snd (env_RemoveFile env2 ?tmp)) g = env_files env g" if "g \<noteq> ?tmp" for g
      using RemoveFile_others [OF that] rn False W that by (auto split: if_splits)
    then show ?thesis using R False temp_not_current [of dbname n dbname] by (auto simp: fun_eq_iff)
  qed
qed

end
