(* ===== verification/Manifests.thy ===== *)
theory Manifests
  imports VersionSets FileSystems
begin

text \<open>
  The manifest of \<open>VersionSet\<close> in \<open>db/version_set.cc\<close>: a log of version edits. \<open>LogAndApply\<close> computes the next version, writes the edit
  and installs the version; \<open>Recover\<close> reads the log that \<open>CURRENT\<close> names. The mutex is released while the manifest is written; no
  other call changes what is used here meanwhile.
\<close>

section \<open>Definitions\<close>

subsection \<open>Writing\<close>

definition snapshot_pointers :: "bytes list \<Rightarrow> VersionEdit \<Rightarrow> VersionEdit" where
  "snapshot_pointers cp edit =
     foldl (\<lambda>edit level. if cp ! level \<noteq> [] then SetCompactPointer edit level (cp ! level) else edit) edit [0..<kNumLevels]"

definition snapshot_files :: "fstore \<Rightarrow> faddr list list \<Rightarrow> VersionEdit \<Rightarrow> VersionEdit" where
  "snapshot_files m files edit =
     foldl (\<lambda>edit level. foldl (\<lambda>edit f. AddFile edit level (number (m f)) (file_size (m f)) (smallest (m f)) (largest (m f))) edit (files ! level))
       edit [0..<kNumLevels]"

definition snapshot_edit :: "VersionSet \<Rightarrow> VersionEdit" where
  "snapshot_edit vs =
     snapshot_files (fh_meta (vs_heap vs)) (v_files (current_version vs))
       (snapshot_pointers (vs_compact_pointer vs) (SetComparatorName new_VersionEdit (Name (vs_ucmp vs))))"

definition WriteSnapshot :: "VersionSet \<Rightarrow> Writer \<Rightarrow> Status \<times> Writer" where
  "WriteSnapshot vs w = AddRecord w (ve_EncodeTo (snapshot_edit vs) [])"

definition fill_edit :: "VersionSet \<Rightarrow> VersionEdit \<Rightarrow> VersionEdit" where
  "fill_edit vs edit =
     (let edit = (if has_log_number edit then edit else SetLogNumber edit (vs_log_number vs));
          edit = (if has_prev_log_number edit then edit else SetPrevLogNumber edit (vs_prev_log_number vs));
          edit = SetNextFile edit (vs_next_file_number vs)
      in SetLastSequence edit (vs_last_sequence vs))"

text \<open>The new version, its builder gone.\<close>

definition next_version :: "VersionSet \<Rightarrow> VersionEdit \<Rightarrow> (VersionSet \<times> Version) option" where
  "next_version vs edit = do {
     cur \<leftarrow> vs_current vs;
     vs \<leftarrow> Version_Ref vs cur;
     let (cp, h, b) = Apply (vs_ucmp vs) edit (vs_compact_pointer vs, vs_heap vs, new_Builder (v_files (vs_versions vs cur)));
     let (h, files) = SaveTo (vs_ucmp vs) h b;
     vs \<leftarrow> Version_Unref (vs\<lparr>vs_compact_pointer := cp, vs_heap := delete_Builder h b\<rparr>) cur;
     Some (vs, Finalize (vs_options vs) (fh_meta (vs_heap vs)) (new_Version\<lparr>v_files := files\<rparr>)) }"

text \<open>The manifest, opened with a snapshot of the current version if there is none yet.\<close>

definition open_manifest :: "VersionSet \<Rightarrow> Env \<Rightarrow> Status \<times> VersionSet \<times> Env" where
  "open_manifest vs env =
     (case vs_descriptor vs of
        Some d \<Rightarrow> (Status_OK, vs, env)
      | None \<Rightarrow>
          let new_manifest_file = DescriptorFileName (vs_dbname vs) (vs_manifest_file_number vs)
          in case NewWritableFile env new_manifest_file of
               (s, None, env) \<Rightarrow> (s, vs, env)
             | (s, Some f, env) \<Rightarrow>
                 let (s, w) = WriteSnapshot vs (new_Writer f)
                 in (s, vs\<lparr>vs_descriptor := Some (new_manifest_file, w)\<rparr>, store_file env new_manifest_file (dest w)))"

definition write_edit :: "VersionSet \<Rightarrow> Env \<Rightarrow> VersionEdit \<Rightarrow> Status \<times> VersionSet \<times> Env" where
  "write_edit vs env edit =
     (case vs_descriptor vs of
        None \<Rightarrow> (Status_OK, vs, env)
      | Some (fname, w) \<Rightarrow>
          let (s, w) = AddRecord w (ve_EncodeTo edit []);
              (s, f) = (if ok s then wf_Sync (dest w) else (s, dest w));
              w = w\<lparr>dest := f\<rparr>
          in (s, vs\<lparr>vs_descriptor := Some (fname, w)\<rparr>, store_file env fname f))"

definition drop_manifest :: "VersionSet \<Rightarrow> Env \<Rightarrow> VersionSet \<times> Env" where
  "drop_manifest vs env =
     (vs\<lparr>vs_descriptor := None\<rparr>, snd (env_RemoveFile env (DescriptorFileName (vs_dbname vs) (vs_manifest_file_number vs))))"

definition write_manifest :: "VersionSet \<Rightarrow> Env \<Rightarrow> VersionEdit \<Rightarrow> Status \<times> VersionSet \<times> Env" where
  "write_manifest vs env edit =
     (let new_manifest = (vs_descriptor vs = None);
          (s, vs, env) = open_manifest vs env;
          (s, vs, env) = (if ok s then write_edit vs env edit else (s, vs, env));
          (s, env) = (if ok s \<and> new_manifest then SetCurrentFile env (vs_dbname vs) (vs_manifest_file_number vs) else (s, env))
      in (s, vs, env))"

definition LogAndApply :: "VersionSet \<Rightarrow> Env \<Rightarrow> VersionEdit \<Rightarrow> (Status \<times> VersionEdit \<times> VersionSet \<times> Env) option" where
  "LogAndApply vs env edit = do {
     let edit = fill_edit vs edit;
     (vs, v) \<leftarrow> next_version vs edit;
     let new_manifest = (vs_descriptor vs = None);
     let edit = (if new_manifest then SetNextFile edit (vs_next_file_number vs) else edit);
     let (s, vs, env) = write_manifest vs env edit;
     if ok s then do {
       vs \<leftarrow> AppendVersion vs v;
       Some (s, edit, vs\<lparr>vs_log_number := ve_log_number edit, vs_prev_log_number := ve_prev_log_number edit\<rparr>, env) }
     else do {
       let vs = vs\<lparr>vs_heap := delete_Version (vs_heap vs) (v_files v)\<rparr>;
       let (vs, env) = (if new_manifest then drop_manifest vs env else (vs, env));
       Some (s, edit, vs, env) } }"

subsection \<open>Reading\<close>

lemma input_left_fields [simp]:
  "input_left (r\<lparr>last_record_offset := q\<rparr>) = input_left r"
  "input_left (r\<lparr>reporter := rep\<rparr>) = input_left r"
  "input_left (r\<lparr>end_of_buffer_offset := n\<rparr>) = input_left r"
  "input_left (ReportDrop r n s) = input_left r"
  by (simp_all add: input_left_def)

lemma ReadRecord_loop_decreases: "ReadRecord_loop r frag scratch pro = (Some x, r') \<Longrightarrow> input_left r' < input_left r"
proof (induction "input_left r" arbitrary: r frag scratch pro rule: less_induct)
  case less
  obtain t fragment r1 where p: "ReadPhysicalRecord r = (t, fragment, r1)" by (metis prod_cases3)
  show ?case
  proof (cases "t = kEof")
    case True
    then show ?thesis using less.prems p by (auto simp: ReadRecord_loop.simps [of r] Let_def kEof_def kMaxRecordType_def)
  next
    case False
    then have lt: "input_left r1 < input_left r" using ReadPhysicalRecord_decreases [OF p] by blast
    have IH: "input_left r' < input_left r" if "ReadRecord_loop r2 f s q = (Some x, r')" "input_left r2 = input_left r1" for r2 f s q
      using less.hyps [OF _ that(1)] lt that(2) by simp
    show ?thesis
      using less.prems lt unfolding ReadRecord_loop.simps [of r] p
      by (auto simp: Let_def split: if_splits dest!: IH)
  qed
qed

lemma ReadRecord_decreases:
  assumes "ReadRecord r = (Some x, r')"
  shows "input_left r' < input_left r"
proof -
  have sk: "input_left (snd (SkipToInitialBlock r)) \<le> input_left r"
    by (auto simp: SkipToInitialBlock_def sf_Skip_def Let_def input_left_def ReportDrop_def split: prod.splits if_splits list.splits option.splits)
  show ?thesis using assms ReadRecord_loop_decreases sk by (fastforce simp: ReadRecord_def Let_def split: prod.splits if_splits)
qed

text \<open>Recovery keeps the fields that the edits set, and the builder.\<close>

record Recovery =
  rc_log_number :: "u64 option"
  rc_prev_log_number :: "u64 option"
  rc_next_file :: "u64 option"
  rc_last_sequence :: "u64 option"
  rc_compact_pointer :: "bytes list"
  rc_heap :: FileHeap
  rc_builder :: Builder

text \<open>The reporter keeps the first error.\<close>

definition report_status :: "Status \<Rightarrow> (u64 \<times> Status) list \<Rightarrow> Status" where
  "report_status s reps = foldl (\<lambda>s rep. if ok s then snd rep else s) s reps"

definition recover_edit :: "comparator \<Rightarrow> bytes \<Rightarrow> Recovery \<Rightarrow> Status \<times> Recovery" where
  "recover_edit ucmp rec rc =
     (let (s, edit) = ve_DecodeFrom new_VersionEdit rec;
          s = (if ok s \<and> has_comparator edit \<and> ve_comparator edit \<noteq> Name ucmp
               then InvalidArgument (ve_comparator edit @ str '' does not match existing comparator '') (Name ucmp) else s);
          rc = (if ok s then
                  let (cp, h, b) = Apply ucmp edit (rc_compact_pointer rc, rc_heap rc, rc_builder rc)
                  in rc\<lparr>rc_compact_pointer := cp, rc_heap := h, rc_builder := b\<rparr>
                else rc);
          rc = (if has_log_number edit then rc\<lparr>rc_log_number := Some (ve_log_number edit)\<rparr> else rc);
          rc = (if has_prev_log_number edit then rc\<lparr>rc_prev_log_number := Some (ve_prev_log_number edit)\<rparr> else rc);
          rc = (if has_next_file_number edit then rc\<lparr>rc_next_file := Some (ve_next_file_number edit)\<rparr> else rc);
          rc = (if has_last_sequence edit then rc\<lparr>rc_last_sequence := Some (ve_last_sequence edit)\<rparr> else rc)
      in (s, rc))"

definition reports :: "Reader \<Rightarrow> (u64 \<times> Status) list" where
  "reports r = (case reporter r of None \<Rightarrow> [] | Some reps \<Rightarrow> reps)"

function recover_loop :: "comparator \<Rightarrow> Reader \<Rightarrow> Status \<Rightarrow> Recovery \<Rightarrow> Status \<times> Recovery" where
  "recover_loop ucmp r s rc =
     (case ReadRecord (r\<lparr>reporter := Some []\<rparr>) of
        (None, r) \<Rightarrow> (report_status s (reports r), rc)
      | (Some rec, r) \<Rightarrow>
          let s = report_status s (reports r)
          in if ok s then let (s, rc) = recover_edit ucmp rec rc in recover_loop ucmp r s rc else (s, rc))"
  by auto
termination
  by (relation "measure (\<lambda>(_, r, _, _). input_left r)") (auto dest!: ReadRecord_decreases [OF sym])

declare recover_loop.simps [simp del]

definition check_recovered :: "Recovery \<Rightarrow> Status" where
  "check_recovered rc =
     (if rc_next_file rc = None then Corruption (str ''no meta-nextfile entry in descriptor'') []
      else if rc_log_number rc = None then Corruption (str ''no meta-lognumber entry in descriptor'') []
      else if rc_last_sequence rc = None then Corruption (str ''no last-sequence-number entry in descriptor'') []
      else Status_OK)"

definition or_zero :: "u64 option \<Rightarrow> u64" where
  "or_zero x = (case x of None \<Rightarrow> 0 | Some n \<Rightarrow> n)"

definition ReuseManifest :: "VersionSet \<Rightarrow> Env \<Rightarrow> bytes \<Rightarrow> bytes \<Rightarrow> bool \<times> VersionSet \<times> Env" where
  "ReuseManifest vs env dscname dscbase =
     (if \<not> opt_reuse_logs (vs_options vs) then (False, vs, env)
      else case ParseFileName dscbase of
        None \<Rightarrow> (False, vs, env)
      | Some (manifest_number, manifest_type) \<Rightarrow>
          if manifest_type \<noteq> kDescriptorFile then (False, vs, env)
          else
            let (s, manifest_size, env) = GetFileSize env dscname
            in if \<not> ok s \<or> manifest_size \<ge> TargetFileSize (vs_options vs) then (False, vs, env)
               else case NewAppendableFile env dscname of
                   (s, None, env) \<Rightarrow> (False, vs, env)
                 | (s, Some f, env) \<Rightarrow>
                     (True, vs\<lparr>vs_descriptor := Some (dscname, new_Writer_at f manifest_size), vs_manifest_file_number := manifest_number\<rparr>, env))"

text \<open>What \<open>Recover\<close> does with what it read: the builder's destructor runs last.\<close>

definition install_recovered :: "VersionSet \<Rightarrow> Env \<Rightarrow> vaddr \<Rightarrow> bytes \<Rightarrow> bytes \<Rightarrow> Status \<Rightarrow> Recovery \<Rightarrow> (Status \<times> bool \<times> VersionSet \<times> Env) option" where
  "install_recovered vs env base dscname dscbase s rc = do {
     let vs = vs\<lparr>vs_compact_pointer := rc_compact_pointer rc, vs_heap := rc_heap rc\<rparr>;
     let s1 = (if ok s then check_recovered rc else s);
     let vs = (if ok s then MarkFileNumberUsed (MarkFileNumberUsed vs (or_zero (rc_prev_log_number rc))) (or_zero (rc_log_number rc)) else vs);
     (save_manifest, vs, env) \<leftarrow>
       (if ok s1 then do {
          let (h, files) = SaveTo (vs_ucmp vs) (vs_heap vs) (rc_builder rc);
          vs \<leftarrow> AppendVersion (vs\<lparr>vs_heap := h\<rparr>) (Finalize (vs_options vs) (fh_meta h) (new_Version\<lparr>v_files := files\<rparr>));
          let vs = vs\<lparr>vs_manifest_file_number := or_zero (rc_next_file rc), vs_next_file_number := or_zero (rc_next_file rc) + 1,
            vs_last_sequence := or_zero (rc_last_sequence rc), vs_log_number := or_zero (rc_log_number rc),
            vs_prev_log_number := or_zero (rc_prev_log_number rc)\<rparr>;
          let (reused, vs, env) = ReuseManifest vs env dscname dscbase;
          Some (\<not> reused, vs, env) }
        else Some (False, vs, env));
     vs \<leftarrow> Version_Unref (vs\<lparr>vs_heap := delete_Builder (vs_heap vs) (rc_builder rc)\<rparr>) base;
     Some (s1, save_manifest, vs, env) }"

text \<open>The result tells whether \<open>*save_manifest\<close> was set.\<close>

definition Recover :: "VersionSet \<Rightarrow> Env \<Rightarrow> (Status \<times> bool \<times> VersionSet \<times> Env) option" where
  "Recover vs env =
     (let (s, cur, env) = ReadFileToString env (CurrentFileName (vs_dbname vs))
      in if \<not> ok s then Some (s, False, vs, env)
         else if cur = [] \<or> last cur \<noteq> 10 then Some (Corruption (str ''CURRENT file does not end with newline'') [], False, vs, env)
         else
           let dscbase = butlast cur; dscname = vs_dbname vs @ str ''/'' @ dscbase
           in case NewSequentialFile env dscname of
                (s, None, env) \<Rightarrow>
                  Some (if IsNotFound s then Corruption (str ''CURRENT points to a non-existent file'') (Status_ToString s) else s, False, vs, env)
              | (s, Some file, env) \<Rightarrow> do {
                  base \<leftarrow> vs_current vs;
                  vs \<leftarrow> Version_Ref vs base;
                  let (s, rc) = recover_loop (vs_ucmp vs) (new_Reader file (Some []) True 0) s
                    \<lparr>rc_log_number = None, rc_prev_log_number = None, rc_next_file = None, rc_last_sequence = None,
                     rc_compact_pointer = vs_compact_pointer vs, rc_heap = vs_heap vs, rc_builder = new_Builder (v_files (vs_versions vs base))\<rparr>;
                  install_recovered vs env base dscname dscbase s rc })"

end
