(* ===== verification/VersionRefs.thy ===== *)
theory VersionRefs
  imports Manifests "HOL-Library.Multiset"
begin

text \<open>
  Reference counts of the version set: who holds the versions, who holds the files, and that no call, failing or not, frees a file
  that a version in use still lists.
\<close>

section \<open>Files\<close>

text \<open>A multiset of references to files: each file in it is allocated, not freed, and its count is the number of the references.\<close>

definition heap_ok :: "FileHeap \<Rightarrow> faddr multiset \<Rightarrow> bool" where
  "heap_ok h M \<longleftrightarrow> fh_freed h \<subseteq> {..<fh_next h} \<and> (\<forall>a. a \<in># M \<longrightarrow> a < fh_next h \<and> a \<notin> fh_freed h \<and> refs (fh_meta h a) = count M a)"

lemma heap_ok_new:
  assumes "heap_ok h M"
  shows "heap_ok (h\<lparr>fh_meta := (fh_meta h)(fh_next h := f\<lparr>refs := Suc 0, allowed_seeks := n\<rparr>), fh_next := Suc (fh_next h)\<rparr>) (add_mset (fh_next h) M)"
proof -
  have "fh_next h \<notin># M" using assms by (auto simp: heap_ok_def)
  then show ?thesis using assms by (auto simp: heap_ok_def count_eq_zero_iff less_Suc_eq)
qed

lemma heap_ok_less: "heap_ok h (add_mset a M) \<Longrightarrow> a \<in># M \<or> refs (fh_meta h a) = 1"
  by (auto simp: heap_ok_def count_eq_zero_iff)

lemma heap_ok_leak:
  assumes "heap_ok h (add_mset a M)" "a \<notin># M"
  shows "heap_ok h M"
  using assms by (auto simp: heap_ok_def)

lemma heap_ok_ref: "heap_ok h M \<Longrightarrow> a \<in># M \<Longrightarrow> heap_ok (ref_file h a) (add_mset a M)"
  by (auto simp: heap_ok_def ref_file_def)

lemma heap_ok_unref: "heap_ok h (add_mset a M) \<Longrightarrow> heap_ok (unref_file h a) M"
  by (auto simp: heap_ok_def unref_file_def Let_def count_eq_zero_iff)

lemma heap_ok_refs: "heap_ok h M \<Longrightarrow> set as \<subseteq> set_mset M \<Longrightarrow> heap_ok (foldl ref_file h as) (mset as + M)"
proof (induction as arbitrary: h M)
  case (Cons a as)
  then show ?case using Cons.IH [OF heap_ok_ref [OF Cons.prems(1), of a]] by auto
qed simp

lemma heap_ok_unrefs: "heap_ok h (mset as + M) \<Longrightarrow> heap_ok (foldl unref_file h as) M"
  by (induction as arbitrary: h M) (auto dest: heap_ok_unref)

lemma delete_Version_unrefs: "delete_Version h files = foldl unref_file h (concat files)"
  by (induction files arbitrary: h) (simp_all add: delete_Version_def)

definition added_files :: "LevelState list \<Rightarrow> faddr list" where
  "added_files ls = concat (map ls_added ls)"

lemma delete_Builder_unrefs: "delete_Builder h b = foldl unref_file h (added_files (bl_levels b))"
proof -
  have "foldl (\<lambda>h l. foldl unref_file h (ls_added l)) h ls = foldl unref_file h (concat (map ls_added ls))" for ls
    by (induction ls arbitrary: h) simp_all
  then show ?thesis by (simp add: delete_Builder_def added_files_def)
qed

lemma unref_other [simp]: "fh_next (unref_file h a) = fh_next h" "describes (fh_meta (unref_file h a) x) = describes (fh_meta h x)"
  by (simp_all add: unref_file_def Let_def describes_def)

lemma unrefs_other [simp]: "fh_next (foldl unref_file h as) = fh_next h" "describes (fh_meta (foldl unref_file h as) x) = describes (fh_meta h x)"
  by (induction as arbitrary: h) simp_all

lemma mset_concat_update:
  "i < length ls \<Longrightarrow> mset (f x) = M + mset (f (ls ! i)) \<Longrightarrow> mset (concat (map f (ls[i := x]))) = M + mset (concat (map f ls))"
proof (induction ls arbitrary: i)
  case (Cons l ls)
  then show ?case by (cases i) auto
qed simp

lemma mset_set_insert: "mset (set_insert lt x ys) = add_mset x (mset ys) \<or> set_insert lt x ys = ys"
  by (induction ys) auto

lemma mset_merge_files: "mset (merge_files c m base as) = mset base + mset as"
proof (induction as arbitrary: base)
  case (Cons a as)
  have "mset base = mset (takeWhile P base) + mset (dropWhile P base)" for P by (metis mset_append takeWhile_dropWhile_id)
  then show ?case using Cons by simp
qed simp

subsection \<open>A builder\<close>

lemma apply_delete_added: "fst d < length ls \<Longrightarrow> mset (added_files (apply_delete ls d)) = mset (added_files ls)"
  using mset_concat_update [of "fst d" ls ls_added _ "{#}"] by (simp add: apply_delete_def added_files_def)

lemma apply_add_refs:
  assumes "heap_ok h (mset (added_files ls) + M)" "fst lf < length ls" "apply_add c (h, ls) lf = (h', ls')"
  shows "heap_ok h' (mset (added_files ls') + M)" "length ls' = length ls"
proof -
  let ?f = "(snd lf)\<lparr>refs := Suc 0, allowed_seeks := seeks_allowed (file_size (snd lf))\<rparr>" and ?a = "fh_next h" and ?l = "ls ! fst lf"
  define h1 where "h1 = h\<lparr>fh_meta := (fh_meta h)(?a := ?f), fh_next := Suc ?a\<rparr>"
  let ?lt = "\<lambda>x y. BySmallestKey c (fh_meta h1 x) (fh_meta h1 y)"
  define l' where "l' = ?l\<lparr>ls_deleted := ls_deleted ?l - {number (snd lf)}, ls_added := set_insert ?lt ?a (ls_added ?l)\<rparr>"
  have "apply_add c (h, ls) lf = (h1, ls[fst lf := l'])"
    by (cases lf) (simp add: apply_add_def new_file_def h1_def l'_def Let_def)
  then have A: "h' = h1" "ls' = ls[fst lf := l']" using assms(3) by auto
  show "length ls' = length ls" by (simp add: A)
  have H: "heap_ok h1 (add_mset ?a (mset (added_files ls) + M))" unfolding h1_def by (rule heap_ok_new [OF assms(1)])
  consider "mset (ls_added l') = add_mset ?a (mset (ls_added ?l))" | "ls_added l' = ls_added ?l"
    using mset_set_insert [of ?lt ?a "ls_added ?l"] by (auto simp: l'_def)
  then show "heap_ok h' (mset (added_files ls') + M)"
  proof cases
    case 1
    then have "mset (added_files ls') = {#?a#} + mset (added_files ls)"
      unfolding A added_files_def by (intro mset_concat_update [OF assms(2)]) simp
    then show ?thesis using H by (simp add: A)
  next
    case 2
    then have "mset (added_files ls') = {#} + mset (added_files ls)"
      unfolding A added_files_def by (intro mset_concat_update [OF assms(2)]) simp
    moreover have "?a \<notin># mset (added_files ls) + M" using assms(1) by (auto simp: heap_ok_def)
    ultimately show ?thesis using heap_ok_leak [OF H] by (simp add: A)
  qed
qed

definition edit_levels :: "VersionEdit \<Rightarrow> bool" where
  "edit_levels e \<longleftrightarrow> (\<forall>d\<in>set (deleted_files e). fst d < kNumLevels) \<and> (\<forall>lf\<in>set (new_files e). fst lf < kNumLevels)"

definition builder_refs :: "FileHeap \<Rightarrow> Builder \<Rightarrow> faddr multiset \<Rightarrow> bool" where
  "builder_refs h b M \<longleftrightarrow> length (bl_levels b) = kNumLevels \<and> heap_ok h (mset (added_files (bl_levels b)) + M)"

lemma builder_refs_new: "heap_ok h M \<Longrightarrow> builder_refs h (new_Builder base) M"
proof -
  have "added_files (replicate n \<lparr>ls_deleted = {}, ls_added = []\<rparr>) = []" for n by (induction n) (simp_all add: added_files_def)
  then show "heap_ok h M \<Longrightarrow> ?thesis" by (simp add: builder_refs_def new_Builder_def)
qed

lemma Apply_refs:
  assumes "builder_refs h b M" "edit_levels e" "Apply c e (cp, h, b) = (cp', h', b')"
  shows "builder_refs h' b' M" "bl_base b' = bl_base b"
proof -
  have D: "length (foldl apply_delete ls ds) = length ls \<and> mset (added_files (foldl apply_delete ls ds)) = mset (added_files ls)"
    if "\<forall>d\<in>set ds. fst d < length ls" for ds ls using that
  proof (induction ds arbitrary: ls)
    case (Cons d ds)
    then show ?case using Cons.IH [of "apply_delete ls d"] apply_delete_added [of d ls] by (simp add: apply_delete_def)
  qed simp
  have F: "heap_ok (fst (foldl (apply_add c) (h, ls) lfs)) (mset (added_files (snd (foldl (apply_add c) (h, ls) lfs))) + M) \<and>
      length (snd (foldl (apply_add c) (h, ls) lfs)) = length ls"
    if "\<forall>lf\<in>set lfs. fst lf < length ls" "heap_ok h (mset (added_files ls) + M)" for lfs ls h using that
  proof (induction lfs arbitrary: h ls)
    case (Cons lf lfs)
    obtain h1 ls1 where a: "apply_add c (h, ls) lf = (h1, ls1)" by fastforce
    show ?case using Cons.IH [of ls1 h1] apply_add_refs [OF Cons.prems(2) _ a] Cons.prems(1) a by simp
  qed simp
  show "builder_refs h' b' M" "bl_base b' = bl_base b"
    using assms D [of "deleted_files e" "bl_levels b"] F [of "new_files e" "foldl apply_delete (bl_levels b) (deleted_files e)" h]
    by (auto simp: Apply_def builder_refs_def edit_levels_def split: prod.splits)
qed

text \<open>Saving takes a reference for each file of the new version, and the builder then gives back its own.\<close>

lemma SaveTo_refs:
  assumes "builder_refs h b M" "SaveTo c h b = (h', files)" "set (concat (bl_base b)) \<subseteq> set_mset M" "length (bl_base b) = kNumLevels"
  shows "builder_refs h' b (mset (concat files) + M)"
proof -
  have S: "files = map (level_result c (fh_meta h) b) [0..<kNumLevels]" "h' = foldl ref_file h (concat files)"
    using assms(2) unfolding SaveTo_eq by auto
  have "set (concat files) \<subseteq> set_mset (mset (added_files (bl_levels b)) + M)"
  proof
    fix a assume "a \<in> set (concat files)"
    then obtain l where l: "l < kNumLevels" "a \<in> set (level_result c (fh_meta h) b l)" by (auto simp: S(1))
    then have "a \<in># mset (merge_files c (fh_meta h) (bl_base b ! l) (ls_added (bl_levels b ! l)))" by (auto simp: level_result_def)
    then have "a \<in> set (bl_base b ! l) \<or> a \<in> set (ls_added (bl_levels b ! l))" unfolding mset_merge_files by auto
    moreover have "bl_base b ! l \<in> set (bl_base b)" "bl_levels b ! l \<in> set (bl_levels b)" using l(1) assms(1,4) by (simp_all add: builder_refs_def)
    ultimately show "a \<in># mset (added_files (bl_levels b)) + M" using assms(3) by (auto simp: added_files_def)
  qed
  from heap_ok_refs [OF _ this, of h] show ?thesis using assms(1) S(2) by (simp add: builder_refs_def ac_simps)
qed

lemma delete_Builder_refs: "builder_refs h b M \<Longrightarrow> heap_ok (delete_Builder h b) M"
  unfolding delete_Builder_unrefs builder_refs_def by (blast intro: heap_ok_unrefs)

section \<open>Versions\<close>

text \<open>The references to files that the listed versions hold.\<close>

definition owners :: "VersionSet \<Rightarrow> faddr multiset" where
  "owners vs = (\<Sum>v\<leftarrow>vs_list vs. mset (concat (v_files (vs_versions vs v))))"

text \<open>
  The versions in the list have the references that clients hold, the current one one more; \<open>M\<close> are references to files held outside
  versions.
\<close>

definition vs_ok :: "VersionSet \<Rightarrow> (vaddr \<Rightarrow> nat) \<Rightarrow> faddr multiset \<Rightarrow> bool" where
  "vs_ok vs held M \<longleftrightarrow>
     (\<exists>cur. vs_current vs = Some cur \<and> cur \<in> set (vs_list vs) \<and>
       (\<forall>v\<in>set (vs_list vs). v_refs (vs_versions vs v) = int (held v + (if v = cur then 1 else 0)) \<and> 0 < v_refs (vs_versions vs v))) \<and>
     distinct (vs_list vs) \<and> set (vs_list vs) \<subseteq> {..<vs_next_version vs} \<and> (\<forall>v. v \<notin> set (vs_list vs) \<longrightarrow> held v = 0) \<and>
     (\<forall>v\<in>set (vs_list vs). length (v_files (vs_versions vs v)) = kNumLevels) \<and>
     heap_ok (vs_heap vs) (M + owners vs)"

lemma owners_update [simp]:
  "owners (vs\<lparr>vs_descriptor := d\<rparr>) = owners vs" "owners (vs\<lparr>vs_compact_pointer := cp\<rparr>) = owners vs" "owners (vs\<lparr>vs_heap := h\<rparr>) = owners vs"
  "owners (vs\<lparr>vs_log_number := n\<rparr>) = owners vs" "owners (vs\<lparr>vs_prev_log_number := n\<rparr>) = owners vs"
  "owners (vs\<lparr>vs_manifest_file_number := n\<rparr>) = owners vs" "owners (vs\<lparr>vs_next_file_number := n\<rparr>) = owners vs" "owners (vs\<lparr>vs_last_sequence := n\<rparr>) = owners vs"
  "owners (vs\<lparr>vs_current := cur\<rparr>) = owners vs" "owners (vs\<lparr>vs_next_version := nv\<rparr>) = owners vs"
  by (simp_all add: owners_def)

lemma vs_ok_update [simp]:
  "vs_ok (vs\<lparr>vs_descriptor := d\<rparr>) held M = vs_ok vs held M" "vs_ok (vs\<lparr>vs_compact_pointer := cp\<rparr>) held M = vs_ok vs held M"
  "vs_ok (vs\<lparr>vs_log_number := n\<rparr>) held M = vs_ok vs held M" "vs_ok (vs\<lparr>vs_prev_log_number := n\<rparr>) held M = vs_ok vs held M"
  "vs_ok (vs\<lparr>vs_manifest_file_number := n\<rparr>) held M = vs_ok vs held M" "vs_ok (vs\<lparr>vs_next_file_number := n\<rparr>) held M = vs_ok vs held M"
  "vs_ok (vs\<lparr>vs_last_sequence := n\<rparr>) held M = vs_ok vs held M"
  by (simp_all add: vs_ok_def)

lemma vs_ok_heap: "vs_ok vs held M \<Longrightarrow> heap_ok h (M' + owners vs) \<Longrightarrow> vs_ok (vs\<lparr>vs_heap := h\<rparr>) held M'"
  by (simp add: vs_ok_def)

lemma vs_okD:
  assumes "vs_ok vs held M"
  shows "heap_ok (vs_heap vs) (M + owners vs)" "distinct (vs_list vs)" "v \<in> set (vs_list vs) \<Longrightarrow> v < vs_next_version vs"
    "v \<in> set (vs_list vs) \<Longrightarrow> length (v_files (vs_versions vs v)) = kNumLevels" "0 < held v \<Longrightarrow> v \<in> set (vs_list vs)"
    "vs_current vs = Some c \<Longrightarrow> c \<in> set (vs_list vs)" "\<exists>c. vs_current vs = Some c"
  using assms by (auto simp: vs_ok_def)

lemma vs_okI:
  assumes "vs_current vs = Some cur" "cur \<in> set (vs_list vs)"
    "\<And>v. v \<in> set (vs_list vs) \<Longrightarrow> v_refs (vs_versions vs v) = int (held v + (if v = cur then 1 else 0)) \<and> 0 < v_refs (vs_versions vs v)"
    "distinct (vs_list vs)" "\<And>v. v \<in> set (vs_list vs) \<Longrightarrow> v < vs_next_version vs" "\<And>v. v \<notin> set (vs_list vs) \<Longrightarrow> held v = 0"
    "\<And>v. v \<in> set (vs_list vs) \<Longrightarrow> length (v_files (vs_versions vs v)) = kNumLevels" "heap_ok (vs_heap vs) (M + owners vs)"
  shows "vs_ok vs held M"
  using assms unfolding vs_ok_def by blast

lemma owners_split: "distinct (vs_list vs) \<Longrightarrow> v \<in> set (vs_list vs) \<Longrightarrow>
    owners vs = mset (concat (v_files (vs_versions vs v))) + (\<Sum>u\<leftarrow>remove1 v (vs_list vs). mset (concat (v_files (vs_versions vs u))))"
  by (simp add: owners_def sum_list_map_remove1)

lemma owned_files: "v \<in> set (vs_list vs) \<Longrightarrow> set (concat (v_files (vs_versions vs v))) \<subseteq> set_mset (owners vs)"
  unfolding owners_def by (subst sum_list_map_remove1 [of v]) auto

lemma owners_refs [simp]: "owners (vs\<lparr>vs_versions := (vs_versions vs)(v := (vs_versions vs v)\<lparr>v_refs := n\<rparr>)\<rparr>) = owners vs"
  unfolding owners_def by (simp add: fun_upd_def cong: if_cong) (metis (mono_tags, lifting) Version.ext_inject Version.surjective Version.update_convs(1))

lemma Version_Ref_ok:
  assumes "vs_ok vs held M" "v \<in> set (vs_list vs)"
  obtains vs' where "Version_Ref vs v = Some vs'" "vs_ok vs' (held(v := held v + 1)) M" "owners vs' = owners vs"
    "vs' = vs\<lparr>vs_versions := (vs_versions vs)(v := (vs_versions vs v)\<lparr>v_refs := v_refs (vs_versions vs v) + 1\<rparr>)\<rparr>"
proof -
  let ?vs = "vs\<lparr>vs_versions := (vs_versions vs)(v := (vs_versions vs v)\<lparr>v_refs := v_refs (vs_versions vs v) + 1\<rparr>)\<rparr>"
  have "vs_ok ?vs (held(v := held v + 1)) M" using assms by (auto simp: vs_ok_def)
  then show ?thesis using that [of ?vs] assms(2) by (simp add: Version_Ref_def)
qed

text \<open>What dropping a reference leaves alone.\<close>

definition same_versions :: "VersionSet \<Rightarrow> VersionSet \<Rightarrow> bool" where
  "same_versions vs vs' \<longleftrightarrow> vs_current vs' = vs_current vs \<and> vs_next_version vs' = vs_next_version vs \<and>
     (\<forall>u. v_files (vs_versions vs' u) = v_files (vs_versions vs u)) \<and>
     (\<forall>a. describes (fh_meta (vs_heap vs') a) = describes (fh_meta (vs_heap vs) a)) \<and> fh_next (vs_heap vs') = fh_next (vs_heap vs)"

lemma Version_Unref_ok:
  assumes "vs_ok vs held M" "0 < held v"
  obtains vs' where "Version_Unref vs v = Some vs'" "vs_ok vs' (held(v := held v - 1)) M" "same_versions vs vs'"
    "\<exists>vers ls h. vs' = vs\<lparr>vs_versions := vers, vs_list := ls, vs_heap := h\<rparr>"
proof -
  note D = vs_okD [OF assms(1)]
  have v: "v \<in> set (vs_list vs)" using D(5) [OF assms(2)] .
  obtain cur where cur: "vs_current vs = Some cur" "cur \<in> set (vs_list vs)"
    "\<And>u. u \<in> set (vs_list vs) \<Longrightarrow> v_refs (vs_versions vs u) = int (held u + (if u = cur then 1 else 0)) \<and> 0 < v_refs (vs_versions vs u)"
    using assms(1) by (auto simp: vs_ok_def)
  define ver where "ver = (vs_versions vs v)\<lparr>v_refs := v_refs (vs_versions vs v) - 1\<rparr>"
  define vs1 where "vs1 = vs\<lparr>vs_versions := (vs_versions vs)(v := ver)\<rparr>"
  have f: "v_files (vs_versions vs1 u) = v_files (vs_versions vs u)" for u by (simp add: vs1_def ver_def)
  have others: "v_refs (vs_versions vs1 u) = (if u = v then v_refs (vs_versions vs v) - 1 else v_refs (vs_versions vs u))" for u by (simp add: vs1_def ver_def)
  show ?thesis
  proof (cases "v_refs ver = 0")
    case False
    have "v_refs (vs_versions vs v) \<noteq> 1" using False by (simp add: ver_def)
    then have p: "1 < v_refs (vs_versions vs v)" using cur(3) [OF v] by linarith
    have o: "owners vs1 = owners vs" by (simp add: vs1_def ver_def)
    have r: "v_refs (vs_versions vs1 u) = int ((held(v := held v - 1)) u + (if u = cur then 1 else 0)) \<and> 0 < v_refs (vs_versions vs1 u)"
      if "u \<in> set (vs_list vs)" for u
      using cur(3) [OF that] assms(2) p unfolding others by (cases "u = v") (simp_all add: of_nat_diff)
    have l: "vs_list vs1 = vs_list vs" "vs_current vs1 = vs_current vs" "vs_next_version vs1 = vs_next_version vs" "vs_heap vs1 = vs_heap vs" by (simp_all add: vs1_def)
    have "vs_ok vs1 (held(v := held v - 1)) M"
    proof (rule vs_okI [where cur = cur])
      show "v_refs (vs_versions vs1 u) = int ((held(v := held v - 1)) u + (if u = cur then 1 else 0)) \<and> 0 < v_refs (vs_versions vs1 u)"
        if "u \<in> set (vs_list vs1)" for u by (rule r) (use that l in simp)
    qed (use cur(1,2) D v in \<open>auto simp: l o f\<close>)
    moreover have "Version_Unref vs v = Some vs1" using v False by (simp add: Version_Unref_def vs1_def ver_def Let_def)
    moreover have "vs1 = vs\<lparr>vs_versions := (vs_versions vs)(v := ver), vs_list := vs_list vs, vs_heap := vs_heap vs\<rparr>" by (simp add: vs1_def)
    moreover have "same_versions vs vs1" using f by (simp add: same_versions_def l)
    ultimately show ?thesis using that [of vs1] by blast
  next
    case True
    let ?h = "delete_Version (vs_heap vs) (v_files ver)"
    let ?vs = "vs1\<lparr>vs_list := remove1 v (vs_list vs), vs_heap := ?h\<rparr>"
    have z: "v \<noteq> cur" "held v = 1" using True cur(3) [OF v] assms(2) by (auto simp: ver_def split: if_splits)
    have "owners ?vs = (\<Sum>u\<leftarrow>remove1 v (vs_list vs). mset (concat (v_files (vs_versions vs u))))"
      unfolding owners_def by (simp add: f)
    then have o: "owners vs = mset (concat (v_files ver)) + owners ?vs" using owners_split [OF D(2) v] by (simp add: ver_def)
    have heap: "heap_ok ?h (M + owners ?vs)"
      unfolding delete_Version_unrefs by (rule heap_ok_unrefs) (use D(1) o in \<open>simp add: ac_simps\<close>)
    have st: "set (remove1 v (vs_list vs)) = set (vs_list vs) - {v}" using D(2) by simp
    have r: "v_refs (vs_versions vs1 u) = int ((held(v := held v - 1)) u + (if u = cur then 1 else 0)) \<and> 0 < v_refs (vs_versions vs1 u)"
      if "u \<in> set (vs_list vs)" "u \<noteq> v" for u using cur(3) [OF that(1)] that(2) unfolding others by simp
    have l: "vs_list ?vs = remove1 v (vs_list vs)" "vs_current ?vs = vs_current vs" "vs_next_version ?vs = vs_next_version vs" "vs_heap ?vs = ?h"
      "vs_versions ?vs = vs_versions vs1" by (simp_all add: vs1_def)
    have "vs_ok ?vs (held(v := held v - 1)) M"
    proof (rule vs_okI [where cur = cur])
      show "v_refs (vs_versions ?vs u) = int ((held(v := held v - 1)) u + (if u = cur then 1 else 0)) \<and> 0 < v_refs (vs_versions ?vs u)"
        if "u \<in> set (vs_list ?vs)" for u unfolding l(5) by (rule r) (use that st in \<open>simp_all add: l\<close>)
      show "heap_ok (vs_heap ?vs) (M + owners ?vs)" unfolding l(4) by (rule heap)
      show "(held(v := held v - 1)) u = 0" if "u \<notin> set (vs_list ?vs)" for u using that st D(5) [of u] z(2) by (cases "u = v") (auto simp: l)
    qed (use cur(1,2) D(2-4) z(1) st in \<open>simp_all add: l f\<close>)
    moreover have "Version_Unref vs v = Some ?vs" using v True by (simp add: Version_Unref_def vs1_def ver_def Let_def)
    moreover have "\<exists>vers ls h. ?vs = vs\<lparr>vs_versions := vers, vs_list := ls, vs_heap := h\<rparr>" unfolding vs1_def by auto
    moreover have "same_versions vs ?vs" using f by (simp add: same_versions_def vs1_def delete_Version_unrefs)
    ultimately show ?thesis using that [of ?vs] by blast
  qed
qed

text \<open>Appending before or after dropping the reference on the current version is the same.\<close>

lemma AppendVersion_eq:
  assumes "vs_current vs = Some cur" "cur \<in> set (vs_list vs)" "cur < vs_next_version vs"
  shows "AppendVersion vs ver =
    Version_Unref (vs\<lparr>vs_current := Some (vs_next_version vs), vs_versions := (vs_versions vs)(vs_next_version vs := ver\<lparr>v_refs := v_refs ver + 1\<rparr>),
      vs_next_version := vs_next_version vs + 1, vs_list := vs_list vs @ [vs_next_version vs]\<rparr>) cur"
  using assms by (auto simp: AppendVersion_def Version_Unref_def Let_def remove1_append fun_upd_twist [of cur])

lemma AppendVersion_ok:
  assumes "vs_ok vs held (mset (concat (v_files ver)) + M)" "v_refs ver = 0" "length (v_files ver) = kNumLevels"
  obtains vs' where "AppendVersion vs ver = Some vs'" "vs_ok vs' held M" "vs_current vs' = Some (vs_next_version vs)"
    "v_files (vs_versions vs' (vs_next_version vs)) = v_files ver"
    "\<And>a. describes (fh_meta (vs_heap vs') a) = describes (fh_meta (vs_heap vs) a)" "fh_next (vs_heap vs') = fh_next (vs_heap vs)"
    "\<exists>vers ls h nv c. vs' = vs\<lparr>vs_versions := vers, vs_list := ls, vs_heap := h, vs_next_version := nv, vs_current := c\<rparr>"
proof -
  note D = vs_okD [OF assms(1)]
  obtain cur where cur: "vs_current vs = Some cur" "cur \<in> set (vs_list vs)"
    "\<And>u. u \<in> set (vs_list vs) \<Longrightarrow> v_refs (vs_versions vs u) = int (held u + (if u = cur then 1 else 0)) \<and> 0 < v_refs (vs_versions vs u)"
    using assms(1) by (auto simp: vs_ok_def)
  let ?v = "vs_next_version vs"
  let ?vs = "vs\<lparr>vs_current := Some ?v, vs_versions := (vs_versions vs)(?v := ver\<lparr>v_refs := v_refs ver + 1\<rparr>), vs_next_version := ?v + 1, vs_list := vs_list vs @ [?v]\<rparr>"
  have new: "?v \<notin> set (vs_list vs)" using D(3) by blast
  then have h0: "held ?v = 0" using D(5) by blast
  have f: "v_files (vs_versions ?vs u) = v_files (vs_versions vs u)" if "u \<in> set (vs_list vs)" for u using that new by auto
  have "(\<Sum>u\<leftarrow>vs_list vs. mset (concat (v_files (vs_versions ?vs u)))) = (\<Sum>u\<leftarrow>vs_list vs. mset (concat (v_files (vs_versions vs u))))"
    using f by (intro arg_cong [where f = sum_list] map_cong) simp_all
  then have "owners ?vs = mset (concat (v_files ver)) + owners vs" unfolding owners_def by (simp del: fun_upd_apply) simp
  then have heap: "heap_ok (vs_heap ?vs) (M + owners ?vs)" using D(1) by (simp add: ac_simps)
  have refs: "v_refs (vs_versions ?vs u) = int ((held(cur := held cur + 1)) u + (if u = ?v then 1 else 0)) \<and> 0 < v_refs (vs_versions ?vs u)"
    if "u \<in> set (vs_list vs) \<or> u = ?v" for u using that cur(2) cur(3) [of u] new h0 assms(2) by (cases "u = ?v") auto
  have "vs_ok ?vs (held(cur := held cur + 1)) M"
  proof (rule vs_okI [where cur = ?v])
    show "v_refs (vs_versions ?vs u) = int ((held(cur := held cur + 1)) u + (if u = ?v then 1 else 0)) \<and> 0 < v_refs (vs_versions ?vs u)"
      if "u \<in> set (vs_list ?vs)" for u by (rule refs) (use that in auto)
  qed (use heap D cur(2) new assms(3) in \<open>auto intro: less_SucI\<close>)
  then obtain vs' where vs': "Version_Unref ?vs cur = Some vs'" "vs_ok vs' ((held(cur := held cur + 1))(cur := (held(cur := held cur + 1)) cur - 1)) M" "same_versions ?vs vs'"
    "\<exists>vers ls h. vs' = ?vs\<lparr>vs_versions := vers, vs_list := ls, vs_heap := h\<rparr>"
    by (rule Version_Unref_ok [where v = cur]) simp
  have a: "AppendVersion vs ver = Some vs'" using AppendVersion_eq [OF cur(1,2) D(3) [OF cur(2)]] vs'(1) by simp
  have b: "vs_ok vs' held M" using vs'(2) by simp
  have c: "\<exists>vers ls h nv c. vs' = vs\<lparr>vs_versions := vers, vs_list := ls, vs_heap := h, vs_next_version := nv, vs_current := c\<rparr>"
  proof -
    from vs'(4) obtain vers ls h where e: "vs' = ?vs\<lparr>vs_versions := vers, vs_list := ls, vs_heap := h\<rparr>" by blast
    have "vs' = vs\<lparr>vs_versions := vers, vs_list := ls, vs_heap := h, vs_next_version := ?v + 1, vs_current := Some ?v\<rparr>" unfolding e by simp
    then show ?thesis by blast
  qed
  show ?thesis by (rule that [OF a b _ _ _ _ c]) (use vs'(3) in \<open>simp_all add: same_versions_def\<close>)
qed


lemma Finalize_fields [simp]: "v_refs (Finalize options m v) = v_refs v" "v_files (Finalize options m v) = v_files v"
  by (simp_all add: Finalize_def Let_def split: prod.splits)

lemma next_version_ok:
  assumes "vs_ok vs held {#}" "edit_levels edit" "vs_current vs = Some cur"
    "Apply (vs_ucmp vs) edit (vs_compact_pointer vs, vs_heap vs, new_Builder (v_files (vs_versions vs cur))) = (cp, h, b)"
    "SaveTo (vs_ucmp vs) h b = (h2, files)"
  obtains vs1 v where "next_version vs edit = Some (vs1, v)" "vs_ok vs1 held (mset (concat files))" "v_refs v = 0" "length files = kNumLevels" "v_files v = files"
    "vs_current vs1 = vs_current vs" "\<And>u. v_files (vs_versions vs1 u) = v_files (vs_versions vs u)"
    "\<And>a. describes (fh_meta (vs_heap vs1) a) = describes (fh_meta h2 a)" "fh_next (vs_heap vs1) = fh_next h2"
    "\<exists>vers ls h. vs1 = vs\<lparr>vs_versions := vers, vs_list := ls, vs_heap := h, vs_compact_pointer := cp\<rparr>"
proof -
  note D = vs_okD [OF assms(1)]
  have cur: "cur \<in> set (vs_list vs)" using D(6) [OF assms(3)] .
  obtain vs2 where r: "Version_Ref vs cur = Some vs2" "vs_ok vs2 (held(cur := held cur + 1)) {#}" "owners vs2 = owners vs"
    "vs2 = vs\<lparr>vs_versions := (vs_versions vs)(cur := (vs_versions vs cur)\<lparr>v_refs := v_refs (vs_versions vs cur) + 1\<rparr>)\<rparr>"
    using Version_Ref_ok [OF assms(1) cur] by blast
  have f2: "v_files (vs_versions vs2 u) = v_files (vs_versions vs u)" for u by (simp add: r(4))
  have e2: "vs_ucmp vs2 = vs_ucmp vs" "vs_compact_pointer vs2 = vs_compact_pointer vs" "vs_heap vs2 = vs_heap vs" "vs_options vs2 = vs_options vs" "vs_current vs2 = vs_current vs"
    by (simp_all add: r(4))
  have ap: "Apply (vs_ucmp vs) edit (vs_compact_pointer vs2, vs_heap vs2, new_Builder (v_files (vs_versions vs2 cur))) = (cp, h, b)"
    using assms(4) by (simp add: e2 f2)
  have "builder_refs (vs_heap vs) (new_Builder (v_files (vs_versions vs cur))) (owners vs)" using D(1) by (intro builder_refs_new) simp
  note B = Apply_refs [OF this assms(2,4)]
  have bb: "bl_base b = v_files (vs_versions vs cur)" using B(2) by (simp add: new_Builder_def)
  have R: "builder_refs h2 b (mset (concat files) + owners vs)"
    by (rule SaveTo_refs [OF B(1) assms(5)]) (use owned_files [OF cur] D(4) [OF cur] bb in auto)
  let ?vs3 = "vs2\<lparr>vs_compact_pointer := cp, vs_heap := delete_Builder h2 b\<rparr>"
  have "vs_ok (vs2\<lparr>vs_heap := delete_Builder h2 b\<rparr>) (held(cur := held cur + 1)) (mset (concat files))"
    by (rule vs_ok_heap [OF r(2)]) (use delete_Builder_refs [OF R] r(3) in simp)
  then have "vs_ok ?vs3 (held(cur := held cur + 1)) (mset (concat files))" by (simp add: vs_ok_def)
  then obtain vs1 where u: "Version_Unref ?vs3 cur = Some vs1"
    "vs_ok vs1 ((held(cur := held cur + 1))(cur := (held(cur := held cur + 1)) cur - 1)) (mset (concat files))" "same_versions ?vs3 vs1"
    "\<exists>vers ls h. vs1 = ?vs3\<lparr>vs_versions := vers, vs_list := ls, vs_heap := h\<rparr>"
    by (rule Version_Unref_ok [where v = cur]) simp
  let ?v = "Finalize (vs_options vs1) (fh_meta (vs_heap vs1)) (new_Version\<lparr>v_files := files\<rparr>)"
  have nv: "next_version vs edit = Some (vs1, ?v)"
    unfolding next_version_def assms(3) Option.bind.bind_lunit r(1) Let_def ap prod.case e2(1) assms(5) u(1) ..
  have len: "length files = kNumLevels" using assms(5) unfolding SaveTo_eq by auto
  obtain vers ls h3 where w: "vs1 = ?vs3\<lparr>vs_versions := vers, vs_list := ls, vs_heap := h3\<rparr>" using u(4) by blast
  have w': "\<exists>vers ls h. vs1 = vs\<lparr>vs_versions := vers, vs_list := ls, vs_heap := h, vs_compact_pointer := cp\<rparr>"
    unfolding w r(4) by (intro exI [of _ vers] exI [of _ ls] exI [of _ h3]) simp
  have sv: "vs_current vs1 = vs_current vs" "v_files (vs_versions vs1 x) = v_files (vs_versions vs x)"
    "describes (fh_meta (vs_heap vs1) a) = describes (fh_meta h2 a)" "fh_next (vs_heap vs1) = fh_next h2" for x a
    using u(3) by (simp_all add: same_versions_def e2 f2 delete_Builder_unrefs)
  show ?thesis by (rule that [OF nv _ _ len _ sv w']) (use u(2) in \<open>simp_all add: new_Version_def\<close>)
qed


text \<open>The calls that write the manifest change nothing else of the version set.\<close>

lemma open_manifest_shape: "open_manifest vs env = (s, vs', env') \<Longrightarrow> \<exists>d. vs' = vs\<lparr>vs_descriptor := d\<rparr>"
  by (cases "vs_descriptor vs") (auto simp: open_manifest_def Let_def split: prod.splits option.splits intro: exI [of _ "vs_descriptor vs"])

lemma write_edit_shape: "write_edit vs env e = (s, vs', env') \<Longrightarrow> \<exists>d. vs' = vs\<lparr>vs_descriptor := d\<rparr>"
  by (cases "vs_descriptor vs") (auto simp: write_edit_def Let_def split: prod.splits if_splits intro: exI [of _ "vs_descriptor vs"])

lemma write_manifest_shape:
  assumes "write_manifest vs env e = (s, vs', env')"
  obtains d where "vs' = vs\<lparr>vs_descriptor := d\<rparr>"
proof -
  obtain s1 vs1 env1 where o: "open_manifest vs env = (s1, vs1, env1)" by (metis prod_cases3)
  obtain d1 where d1: "vs1 = vs\<lparr>vs_descriptor := d1\<rparr>" using open_manifest_shape [OF o] by blast
  obtain s2 vs2 env2 where w: "(if ok s1 then write_edit vs1 env1 e else (s1, vs1, env1)) = (s2, vs2, env2)" by (metis prod_cases3)
  have "\<exists>d. vs2 = vs1\<lparr>vs_descriptor := d\<rparr>"
    using w write_edit_shape [of vs1 env1 e s2 vs2 env2] by (cases "ok s1") (auto intro: exI [of _ "vs_descriptor vs1"])
  moreover have "vs' = vs2" using assms o w by (auto simp: write_manifest_def Let_def split: prod.splits if_splits)
  ultimately show ?thesis using that d1 by auto
qed

lemma edit_levels_fill [simp]: "edit_levels (fill_edit vs e) = edit_levels e"
  by (simp add: edit_levels_def fill_edit_def Let_def SetLogNumber_def SetPrevLogNumber_def SetNextFile_def VersionEdits.SetLastSequence_def)

definition final_edit :: "VersionSet \<Rightarrow> VersionEdit \<Rightarrow> VersionEdit" where
  "final_edit vs edit = (if vs_descriptor vs = None then SetNextFile (fill_edit vs edit) (vs_next_file_number vs) else fill_edit vs edit)"

lemma LogAndApply_eq:
  assumes "next_version vs (fill_edit vs edit) = Some (vs1, v)" "vs_descriptor vs1 = vs_descriptor vs" "vs_next_file_number vs1 = vs_next_file_number vs"
    "write_manifest vs1 env (final_edit vs edit) = (s, vs2, env')"
  shows "LogAndApply vs env edit =
    (if ok s then do {
       vs3 \<leftarrow> AppendVersion vs2 v;
       Some (s, final_edit vs edit, vs3\<lparr>vs_log_number := ve_log_number (final_edit vs edit), vs_prev_log_number := ve_prev_log_number (final_edit vs edit)\<rparr>, env') }
     else
       let vs3 = vs2\<lparr>vs_heap := delete_Version (vs_heap vs2) (v_files v)\<rparr>;
           (vs4, env) = (if vs_descriptor vs = None then drop_manifest vs3 env' else (vs3, env'))
       in Some (s, final_edit vs edit, vs4, env))"
proof (cases "vs_descriptor vs")
  case None
  then have "write_manifest vs1 env (SetNextFile (fill_edit vs edit) (vs_next_file_number vs1)) = (s, vs2, env')" using assms(3,4) by (simp add: final_edit_def)
  then show ?thesis using None by (simp add: LogAndApply_def final_edit_def assms(1-3) Let_def)
next
  case (Some p)
  then have "write_manifest vs1 env (fill_edit vs edit) = (s, vs2, env')" using assms(4) by (simp add: final_edit_def)
  then show ?thesis using Some by (simp add: LogAndApply_def final_edit_def assms(1-3) Let_def)
qed

text \<open>What a call returns, and what becomes of the versions.\<close>

lemma LogAndApply_ok:
  assumes "vs_ok vs held {#}" "edit_levels edit" "vs_current vs = Some cur"
    "Apply (vs_ucmp vs) (fill_edit vs edit) (vs_compact_pointer vs, vs_heap vs, new_Builder (v_files (vs_versions vs cur))) = (cp, h, b)"
    "SaveTo (vs_ucmp vs) h b = (h2, files)"
  obtains s vs' env' vs1 d where "LogAndApply vs env edit = Some (s, final_edit vs edit, vs', env')" "vs_ok vs' held {#}"
    "\<not> ok s \<Longrightarrow> vs_current vs' = vs_current vs \<and> (\<forall>v. v_files (vs_versions vs' v) = v_files (vs_versions vs v)) \<and> vs_log_number vs' = vs_log_number vs"
    "ok s \<Longrightarrow> v_files (current_version vs') = files \<and> (\<forall>a. describes (fh_meta (vs_heap vs') a) = describes (fh_meta h2 a)) \<and> fh_next (vs_heap vs') = fh_next h2"
    "ok s \<Longrightarrow> vs_log_number vs' = ve_log_number (final_edit vs edit) \<and> vs_prev_log_number vs' = ve_prev_log_number (final_edit vs edit) \<and> vs_descriptor vs' = d"
    "vs_compact_pointer vs' = cp" "vs_dbname vs' = vs_dbname vs" "vs_ucmp vs' = vs_ucmp vs" "vs_next_file_number vs' = vs_next_file_number vs"
    "vs_last_sequence vs' = vs_last_sequence vs" "vs_manifest_file_number vs' = vs_manifest_file_number vs"
    "write_manifest vs1 env (final_edit vs edit) = (s, vs1\<lparr>vs_descriptor := d\<rparr>, if ok s then env' else snd (snd (write_manifest vs1 env (final_edit vs edit))))"
    "\<exists>vers ls h. vs1 = vs\<lparr>vs_versions := vers, vs_list := ls, vs_heap := h, vs_compact_pointer := cp\<rparr>" "v_files (current_version vs1) = v_files (current_version vs)"
    "\<forall>a. describes (fh_meta (vs_heap vs1) a) = describes (fh_meta h2 a)" "fh_next (vs_heap vs1) = fh_next h2"
proof -
  obtain vs1 v where nv: "next_version vs (fill_edit vs edit) = Some (vs1, v)" "vs_ok vs1 held (mset (concat files))" "v_refs v = 0" "length files = kNumLevels" "v_files v = files"
    "vs_current vs1 = vs_current vs" "\<And>u. v_files (vs_versions vs1 u) = v_files (vs_versions vs u)"
    "\<And>a. describes (fh_meta (vs_heap vs1) a) = describes (fh_meta h2 a)" "fh_next (vs_heap vs1) = fh_next h2"
    "\<exists>vers ls h. vs1 = vs\<lparr>vs_versions := vers, vs_list := ls, vs_heap := h, vs_compact_pointer := cp\<rparr>"
    using next_version_ok [OF assms(1) _ assms(3-5)] assms(2) by (metis edit_levels_fill)
  obtain s vs2 env2 where w: "write_manifest vs1 env (final_edit vs edit) = (s, vs2, env2)" by (metis prod_cases3)
  obtain d where d: "vs2 = vs1\<lparr>vs_descriptor := d\<rparr>" using write_manifest_shape [OF w] by blast
  have f1: "vs_descriptor vs1 = vs_descriptor vs" "vs_next_file_number vs1 = vs_next_file_number vs" "vs_compact_pointer vs1 = cp" "vs_dbname vs1 = vs_dbname vs"
    "vs_ucmp vs1 = vs_ucmp vs" "vs_last_sequence vs1 = vs_last_sequence vs" "vs_manifest_file_number vs1 = vs_manifest_file_number vs" "vs_log_number vs1 = vs_log_number vs"
    using nv(10) by auto
  note E = LogAndApply_eq [OF nv(1) f1(1,2) w]
  have ok2: "vs_ok vs2 held (mset (concat files))" using nv(2) by (simp add: d)
  have cv: "v_files (current_version vs1) = v_files (current_version vs)" using nv(6,7) by (simp add: current_version_def)
  show ?thesis
  proof (cases "ok s")
    case True
    obtain vs3 where a: "AppendVersion vs2 v = Some vs3" "vs_ok vs3 held {#}" "vs_current vs3 = Some (vs_next_version vs2)"
      "v_files (vs_versions vs3 (vs_next_version vs2)) = v_files v"
      "\<And>a. describes (fh_meta (vs_heap vs3) a) = describes (fh_meta (vs_heap vs2) a)" "fh_next (vs_heap vs3) = fh_next (vs_heap vs2)"
      "\<exists>vers ls h nv c. vs3 = vs2\<lparr>vs_versions := vers, vs_list := ls, vs_heap := h, vs_next_version := nv, vs_current := c\<rparr>"
      using AppendVersion_ok [of vs2 held v "{#}"] ok2 nv(3-5) by (metis add.right_neutral)
    let ?vs = "vs3\<lparr>vs_log_number := ve_log_number (final_edit vs edit), vs_prev_log_number := ve_prev_log_number (final_edit vs edit)\<rparr>"
    have f3: "vs_descriptor vs3 = d" "vs_next_file_number vs3 = vs_next_file_number vs" "vs_compact_pointer vs3 = cp" "vs_dbname vs3 = vs_dbname vs"
      "vs_ucmp vs3 = vs_ucmp vs" "vs_last_sequence vs3 = vs_last_sequence vs" "vs_manifest_file_number vs3 = vs_manifest_file_number vs"
      using a(7) f1 by (auto simp: d)
    have L: "LogAndApply vs env edit = Some (s, final_edit vs edit, ?vs, env2)" using E True a(1) by simp
    show ?thesis
      by (rule that [OF L, where ?vs1.0 = vs1 and d = d]) (use a(2-6) f3 True nv w cv in \<open>simp_all add: d current_version_def\<close>)
  next
    case False
    let ?vs3 = "vs2\<lparr>vs_heap := delete_Version (vs_heap vs2) (v_files v)\<rparr>"
    obtain vs4 env4 where r: "(if vs_descriptor vs = None then drop_manifest ?vs3 env2 else (?vs3, env2)) = (vs4, env4)" by fastforce
    then obtain d4 where d4: "vs4 = ?vs3\<lparr>vs_descriptor := d4\<rparr>"
      by (cases "vs_descriptor vs = None") (auto simp: drop_manifest_def intro: that [of "vs_descriptor ?vs3"])
    have "heap_ok (delete_Version (vs_heap vs2) (v_files v)) ({#} + owners vs2)"
      unfolding delete_Version_unrefs by (rule heap_ok_unrefs) (use vs_okD(1) [OF ok2] nv(5) in simp)
    then have "vs_ok ?vs3 held {#}" by (rule vs_ok_heap [OF ok2])
    then have ok4: "vs_ok vs4 held {#}" unfolding d4 vs_ok_update .
    have L: "LogAndApply vs env edit = Some (s, final_edit vs edit, vs4, env4)" using E False r by (simp add: Let_def)
    show ?thesis
      by (rule that [OF L ok4, where ?vs1.0 = vs1 and d = d]) (use f1 False nv w cv in \<open>simp_all add: d d4\<close>)
  qed
qed


section \<open>Calls in any order\<close>

text \<open>
  What clients do with a version set: take and drop references on versions they can reach, apply edits in an environment where anything may
  fail, hand out numbers. The counts \<open>held\<close> are theirs.
\<close>

inductive vs_step :: "VersionSet \<times> (vaddr \<Rightarrow> nat) \<Rightarrow> VersionSet \<times> (vaddr \<Rightarrow> nat) \<Rightarrow> bool" where
  ref: "vs_current vs = Some v \<or> 0 < held v \<Longrightarrow> Version_Ref vs v = Some vs' \<Longrightarrow> vs_step (vs, held) (vs', held(v := held v + 1))"
| unref: "0 < held v \<Longrightarrow> Version_Unref vs v = Some vs' \<Longrightarrow> vs_step (vs, held) (vs', held(v := held v - 1))"
| install: "edit_levels edit \<Longrightarrow> LogAndApply vs env edit = Some (s, edit', vs', env') \<Longrightarrow> vs_step (vs, held) (vs', held)"
| new_number: "NewFileNumber vs = (n, vs') \<Longrightarrow> vs_step (vs, held) (vs', held)"
| reuse_number: "vs_step (vs, held) (ReuseFileNumber vs n, held)"
| mark_number: "vs_step (vs, held) (MarkFileNumberUsed vs n, held)"
| sequence: "vs_step (vs, held) (vs_SetLastSequence vs n, held)"

inductive_cases vs_stepE: "vs_step (vs, held) (vs', held')"

lemma vs_ok_numbers:
  "vs_ok vs held M \<Longrightarrow> NewFileNumber vs = (n, vs') \<Longrightarrow> vs_ok vs' held M"
  "vs_ok vs held M \<Longrightarrow> vs_ok (ReuseFileNumber vs n) held M" "vs_ok vs held M \<Longrightarrow> vs_ok (MarkFileNumberUsed vs n) held M"
  "vs_ok vs held M \<Longrightarrow> vs_ok (vs_SetLastSequence vs n) held M"
  by (auto simp: NewFileNumber_def ReuseFileNumber_def MarkFileNumberUsed_def vs_SetLastSequence_def)

lemma LogAndApply_returns:
  assumes "vs_ok vs held {#}" "edit_levels edit"
  obtains s edit' vs' env' where "LogAndApply vs env edit = Some (s, edit', vs', env')" "vs_ok vs' held {#}"
    "\<not> ok s \<Longrightarrow> vs_current vs' = vs_current vs"
proof -
  obtain cur where cur: "vs_current vs = Some cur" using vs_okD(7) [OF assms(1)] by blast
  obtain cp h b where a: "Apply (vs_ucmp vs) (fill_edit vs edit) (vs_compact_pointer vs, vs_heap vs, new_Builder (v_files (vs_versions vs cur))) = (cp, h, b)"
    by (metis prod_cases3)
  obtain h2 files where f: "SaveTo (vs_ucmp vs) h b = (h2, files)" by fastforce
  show ?thesis by (rule LogAndApply_ok [OF assms cur a f]) (blast intro: that)
qed

lemma vs_step_ok:
  assumes "vs_step (vs, held) (vs', held')" "vs_ok vs held {#}"
  shows "vs_ok vs' held' {#}"
  using assms(1)
proof (cases rule: vs_step.cases)
  case (ref v)
  then have "v \<in> set (vs_list vs)" using vs_okD(5,6) [OF assms(2)] by blast
  then show ?thesis using Version_Ref_ok [OF assms(2)] ref by (metis option.inject)
next
  case (unref v)
  then show ?thesis using Version_Unref_ok [OF assms(2)] by (metis option.inject)
next
  case (install edit env s edit' env')
  then show ?thesis using LogAndApply_returns [OF assms(2)] by (metis option.inject prod.inject)
qed (use assms(2) in \<open>auto simp: vs_ok_numbers\<close>)

definition vs_reachable :: "VersionSet \<times> (vaddr \<Rightarrow> nat) \<Rightarrow> VersionSet \<times> (vaddr \<Rightarrow> nat) \<Rightarrow> bool" where
  "vs_reachable = vs_step\<^sup>*\<^sup>*"

lemma new_VersionSet_ok:
  assumes "new_VersionSet dbname options c h = Some vs" "fh_freed h \<subseteq> {..<fh_next h}"
  shows "vs_ok vs (\<lambda>_. 0) {#}"
proof -
  have "concat (replicate n []) = ([] :: faddr list)" for n by (induction n) simp_all
  then show ?thesis using assms
    by (auto simp: new_VersionSet_def AppendVersion_def vs_ok_def owners_def new_Version_def heap_ok_def)
qed

lemma vs_reachable_ok: "vs_reachable (vs, held) (vs', held') \<Longrightarrow> vs_ok vs held {#} \<Longrightarrow> vs_ok vs' held' {#}"
  unfolding vs_reachable_def by (induction rule: rtranclp_induct2) (auto dest: vs_step_ok)

section \<open>Properties\<close>




end
