(* ===== verification/ManifestLogs.thy ===== *)
theory ManifestLogs
  imports VersionRefs
begin

text \<open>
  What the manifest keeps: the edits that \<open>LogAndApply\<close> writes are what \<open>Recover\<close> reads back, whole or cut at any byte, and the recovered
  version set has the files, numbers and pointers of the one that wrote them.
\<close>

section \<open>Reading edits\<close>

definition encode :: "VersionEdit \<Rightarrow> bytes" where
  "encode e = ve_EncodeTo e []"

text \<open>The value of a field that the last edit setting it gave.\<close>

definition last_field :: "(VersionEdit \<Rightarrow> bool) \<Rightarrow> (VersionEdit \<Rightarrow> u64) \<Rightarrow> VersionEdit list \<Rightarrow> u64 option" where
  "last_field hf get es = foldl (\<lambda>x e. if hf e then Some (get e) else x) None es"

lemma last_field_snoc [simp]: "last_field hf get (es @ [e]) = (if hf e then Some (get e) else last_field hf get es)" "last_field hf get [] = None"
  by (simp_all add: last_field_def)

definition recover_step :: "comparator \<Rightarrow> Recovery \<Rightarrow> VersionEdit \<Rightarrow> Recovery" where
  "recover_step c rc e = snd (recover_edit c (encode e) rc)"

definition readable :: "comparator \<Rightarrow> VersionEdit \<Rightarrow> bool" where
  "readable c e \<longleftrightarrow> wf_edit e \<and> (has_comparator e \<longrightarrow> ve_comparator e = Name c)"

lemma recover_edit_readable:
  assumes "readable c e"
  shows "recover_edit c (encode e) rc = (Status_OK, recover_step c rc e)"
    "recover_step c rc e =
      (case Apply c e (rc_compact_pointer rc, rc_heap rc, rc_builder rc) of (cp, h, b) \<Rightarrow>
         rc\<lparr>rc_compact_pointer := cp, rc_heap := h, rc_builder := b,
           rc_log_number := if has_log_number e then Some (ve_log_number e) else rc_log_number rc,
           rc_prev_log_number := if has_prev_log_number e then Some (ve_prev_log_number e) else rc_prev_log_number rc,
           rc_next_file := if has_next_file_number e then Some (ve_next_file_number e) else rc_next_file rc,
           rc_last_sequence := if has_last_sequence e then Some (ve_last_sequence e) else rc_last_sequence rc\<rparr>)"
proof -
  have "ve_DecodeFrom new_VersionEdit (encode e) = (Status_OK, e)"
    using Decode_Encode [of e new_VersionEdit] assms by (simp add: readable_def encode_def new_VersionEdit_def ve_Clear_def)
  then have E: "recover_edit c (encode e) rc = (Status_OK,
      (case Apply c e (rc_compact_pointer rc, rc_heap rc, rc_builder rc) of (cp, h, b) \<Rightarrow>
         rc\<lparr>rc_compact_pointer := cp, rc_heap := h, rc_builder := b,
           rc_log_number := if has_log_number e then Some (ve_log_number e) else rc_log_number rc,
           rc_prev_log_number := if has_prev_log_number e then Some (ve_prev_log_number e) else rc_prev_log_number rc,
           rc_next_file := if has_next_file_number e then Some (ve_next_file_number e) else rc_next_file rc,
           rc_last_sequence := if has_last_sequence e then Some (ve_last_sequence e) else rc_last_sequence rc\<rparr>))"
    using assms by (cases rc; cases "has_comparator e") (simp_all add: recover_edit_def readable_def Let_def split: prod.splits)
  show "recover_edit c (encode e) rc = (Status_OK, recover_step c rc e)" unfolding recover_step_def E by simp
  show "recover_step c rc e =
      (case Apply c e (rc_compact_pointer rc, rc_heap rc, rc_builder rc) of (cp, h, b) \<Rightarrow>
         rc\<lparr>rc_compact_pointer := cp, rc_heap := h, rc_builder := b,
           rc_log_number := if has_log_number e then Some (ve_log_number e) else rc_log_number rc,
           rc_prev_log_number := if has_prev_log_number e then Some (ve_prev_log_number e) else rc_prev_log_number rc,
           rc_next_file := if has_next_file_number e then Some (ve_next_file_number e) else rc_next_file rc,
           rc_last_sequence := if has_last_sequence e then Some (ve_last_sequence e) else rc_last_sequence rc\<rparr>)"
    unfolding recover_step_def E by simp
qed

lemma recover_loop_reads:
  "reads r xs \<Longrightarrow> xs = map encode es \<Longrightarrow> reporter r = Some [] \<Longrightarrow> \<forall>e\<in>set es. readable c e \<Longrightarrow>
     recover_loop c r Status_OK rc = (Status_OK, foldl (recover_step c) rc es)"
proof (induction arbitrary: es rc rule: reads.induct)
  case (no_more r r1)
  have "r\<lparr>reporter := Some []\<rparr> = r" using no_more.prems(2) by (cases r) simp
  then have "ReadRecord (r\<lparr>reporter := Some []\<rparr>) = (None, r1)" using no_more.hyps(1) by metis
  then show ?case using no_more by (simp add: recover_loop.simps [of c r] reports_def same_reports_def report_status_def)
next
  case (one_more r x r1 xs)
  obtain e es' where es: "es = e # es'" "x = encode e" "xs = map encode es'" using one_more.prems(1) by (cases es) auto
  have "r\<lparr>reporter := Some []\<rparr> = r" using one_more.prems(2) by (cases r) simp
  then have "ReadRecord (r\<lparr>reporter := Some []\<rparr>) = (Some x, r1)" using one_more.hyps(1) by metis
  moreover have "reporter r1 = Some []" using one_more.hyps(2) one_more.prems(2) by (simp add: same_reports_def)
  moreover have "readable c e" "\<forall>e\<in>set es'. readable c e" using one_more.prems(3) es(1) by auto
  ultimately show ?case using one_more.IH [OF es(3)] one_more.hyps(1) es(1,2)
    by (simp add: recover_loop.simps [of c r] reports_def report_status_def recover_edit_readable(1))
qed

definition new_Recovery :: "bytes list \<Rightarrow> FileHeap \<Rightarrow> faddr list list \<Rightarrow> Recovery" where
  "new_Recovery cp h base =
     \<lparr>rc_log_number = None, rc_prev_log_number = None, rc_next_file = None, rc_last_sequence = None,
      rc_compact_pointer = cp, rc_heap = h, rc_builder = new_Builder base\<rparr>"

lemma recover_steps:
  assumes "\<forall>e\<in>set es. readable c e"
  shows "foldl (recover_step c) (new_Recovery cp h base) es =
    (case foldl (\<lambda>st e. Apply c e st) (cp, h, new_Builder base) es of (cp, h, b) \<Rightarrow>
      \<lparr>rc_log_number = last_field has_log_number ve_log_number es, rc_prev_log_number = last_field has_prev_log_number ve_prev_log_number es,
       rc_next_file = last_field has_next_file_number ve_next_file_number es, rc_last_sequence = last_field has_last_sequence ve_last_sequence es,
       rc_compact_pointer = cp, rc_heap = h, rc_builder = b\<rparr>)"
  using assms
proof (induction es rule: rev_induct)
  case (snoc e es)
  obtain cp1 h1 b1 where f: "foldl (\<lambda>st e. Apply c e st) (cp, h, new_Builder base) es = (cp1, h1, b1)" by (metis prod_cases3)
  have "readable c e" "\<forall>e\<in>set es. readable c e" using snoc.prems by auto
  then show ?case using snoc.IH f by (simp add: recover_edit_readable(2) split: prod.splits)
qed (simp add: new_Recovery_def)


section \<open>Recovery\<close>

definition no_faults :: "Env \<Rightarrow> bool" where
  "no_faults env \<longleftrightarrow> env_script env = [] \<and> env_reads env = [] \<and> env_writes env = []"

lemma read_all_no_faults: "sf_script f = [] \<Longrightarrow> read_all f acc = (Status_OK, acc @ sf_rest f)"
proof (induction f acc rule: read_all.induct)
  case (1 f acc)
  let ?f = "f\<lparr>sf_rest := drop 8192 (sf_rest f)\<rparr>"
  show ?case
  proof (cases "sf_rest f = []")
    case True
    then show ?thesis using 1(2) by (simp add: read_all.simps [of f])
  next
    case False
    have r: "sf_Read f 8192 = (Status_OK, take 8192 (sf_rest f), ?f)" using 1(2) by simp
    have "read_all ?f (acc @ take 8192 (sf_rest f)) = (Status_OK, (acc @ take 8192 (sf_rest f)) @ sf_rest ?f)"
      by (rule "1.IH" [OF r [symmetric] refl]) (use 1(2) False in simp_all)
    then show ?thesis using r False by (simp add: read_all.simps [of f])
  qed
qed

lemma ReadFileToString_no_faults:
  "no_faults env \<Longrightarrow> env_files env fname = Some data \<Longrightarrow> ReadFileToString env fname = (Status_OK, data, env)"
  by (simp add: ReadFileToString_def NewSequentialFile_def no_faults_def read_all_no_faults)

lemma Applies_refs:
  "builder_refs h b M \<Longrightarrow> \<forall>e\<in>set es. edit_levels e \<Longrightarrow> foldl (\<lambda>st e. Apply c e st) (cp, h, b) es = (cp', h', b') \<Longrightarrow>
     builder_refs h' b' M \<and> bl_base b' = bl_base b"
proof (induction es arbitrary: cp h b)
  case (Cons e es)
  obtain cp1 h1 b1 where a: "Apply c e (cp, h, b) = (cp1, h1, b1)" by (metis prod_cases3)
  show ?case using Cons.IH [of h1 b1 cp1] Apply_refs [OF Cons.prems(1) _ a] Cons.prems(2,3) a by simp
qed simp

lemma ReuseManifest_off: "\<not> opt_reuse_logs (vs_options vs) \<Longrightarrow> ReuseManifest vs env dscname dscbase = (False, vs, env)"
  by (simp add: ReuseManifest_def)

lemma ReuseManifest_shape:
  assumes "ReuseManifest vs env dscname dscbase = (r, vs', env')"
  obtains d m where "vs' = vs\<lparr>vs_descriptor := d, vs_manifest_file_number := m\<rparr>"
proof -
  have self: "\<exists>d m. x = x\<lparr>vs_descriptor := d, vs_manifest_file_number := m\<rparr>" for x
    by (rule exI [of _ "vs_descriptor x"], rule exI [of _ "vs_manifest_file_number x"]) simp
  have "\<exists>d m. vs' = vs\<lparr>vs_descriptor := d, vs_manifest_file_number := m\<rparr>"
    using assms self by (auto simp: ReuseManifest_def Let_def split: prod.splits if_splits option.splits)
  then show ?thesis using that by blast
qed

lemma MarkFileNumberUsed_shape:
  obtains n' where "MarkFileNumberUsed vs n = vs\<lparr>vs_next_file_number := n'\<rparr>"
proof (cases "vs_next_file_number vs \<le> n")
  case False
  then show ?thesis using that [of "vs_next_file_number vs"] by (simp add: MarkFileNumberUsed_def)
qed (use that in \<open>simp add: MarkFileNumberUsed_def\<close>)

lemma install_recovered_ok:
  assumes "vs_ok vs (held(base := held base + 1)) M0" "check_recovered rc = Status_OK" "SaveTo (vs_ucmp vs) (rc_heap rc) (rc_builder rc) = (h2, files)"
    "builder_refs (rc_heap rc) (rc_builder rc) (owners vs)" "set (concat (bl_base (rc_builder rc))) \<subseteq> set_mset (owners vs)" "length (bl_base (rc_builder rc)) = kNumLevels"
  obtains save vs' env' where "install_recovered vs env base dscname dscbase Status_OK rc = Some (Status_OK, save, vs', env')"
    "vs_ok vs' held {#}" "v_files (current_version vs') = files" "\<And>a. describes (fh_meta (vs_heap vs') a) = describes (fh_meta h2 a)"
    "fh_next (vs_heap vs') = fh_next h2" "vs_log_number vs' = or_zero (rc_log_number rc)" "vs_prev_log_number vs' = or_zero (rc_prev_log_number rc)"
    "vs_last_sequence vs' = or_zero (rc_last_sequence rc)" "vs_next_file_number vs' = or_zero (rc_next_file rc) + 1" "vs_compact_pointer vs' = rc_compact_pointer rc"
    "vs_dbname vs' = vs_dbname vs" "vs_ucmp vs' = vs_ucmp vs" "vs_options vs' = vs_options vs"
    "\<not> opt_reuse_logs (vs_options vs) \<Longrightarrow> env' = env \<and> vs_descriptor vs' = vs_descriptor vs"
proof -
  let ?b = "rc_builder rc" and ?vs1 = "vs\<lparr>vs_compact_pointer := rc_compact_pointer rc, vs_heap := rc_heap rc\<rparr>"
  obtain n1 where n1: "MarkFileNumberUsed ?vs1 (or_zero (rc_prev_log_number rc)) = ?vs1\<lparr>vs_next_file_number := n1\<rparr>" by (rule MarkFileNumberUsed_shape)
  obtain n2 where n2: "MarkFileNumberUsed (?vs1\<lparr>vs_next_file_number := n1\<rparr>) (or_zero (rc_log_number rc)) = ?vs1\<lparr>vs_next_file_number := n1\<rparr>\<lparr>vs_next_file_number := n2\<rparr>"
    by (rule MarkFileNumberUsed_shape)
  define vs2 where "vs2 = vs\<lparr>vs_compact_pointer := rc_compact_pointer rc, vs_next_file_number := n2, vs_heap := h2\<rparr>"
  have mark: "(MarkFileNumberUsed (MarkFileNumberUsed ?vs1 (or_zero (rc_prev_log_number rc))) (or_zero (rc_log_number rc)))\<lparr>vs_heap := h2\<rparr> = vs2"
    unfolding n1 n2 by (simp add: vs2_def)
  have R: "builder_refs h2 ?b (mset (concat files) + owners vs)" by (rule SaveTo_refs [OF assms(4,3,5,6)])
  have o2: "owners vs2 = owners vs" by (simp add: vs2_def owners_def)
  have "vs_ok (vs\<lparr>vs_heap := h2\<rparr>) (held(base := held base + 1)) (mset (concat files) + mset (added_files (bl_levels ?b)))"
    by (rule vs_ok_heap [OF assms(1)]) (use R in \<open>simp add: builder_refs_def ac_simps\<close>)
  then have ok2: "vs_ok vs2 (held(base := held base + 1)) (mset (concat files) + mset (added_files (bl_levels ?b)))"
    by (simp add: vs_ok_def vs2_def o2 [unfolded vs2_def])
  let ?v = "Finalize (vs_options vs) (fh_meta h2) (new_Version\<lparr>v_files := files\<rparr>)"
  have len: "length files = kNumLevels" using assms(3) unfolding SaveTo_eq by auto
  have v: "vs_ok vs2 (held(base := held base + 1)) (mset (concat (v_files ?v)) + mset (added_files (bl_levels ?b)))" "v_refs ?v = 0" "length (v_files ?v) = kNumLevels"
    using ok2 len by (simp_all add: new_Version_def)
  obtain vs3 where a: "AppendVersion vs2 ?v = Some vs3" "vs_ok vs3 (held(base := held base + 1)) (mset (added_files (bl_levels ?b)))"
    "vs_current vs3 = Some (vs_next_version vs2)" "v_files (vs_versions vs3 (vs_next_version vs2)) = v_files ?v"
    "\<And>a. describes (fh_meta (vs_heap vs3) a) = describes (fh_meta (vs_heap vs2) a)" "fh_next (vs_heap vs3) = fh_next (vs_heap vs2)"
    "\<exists>vers ls h nv c. vs3 = vs2\<lparr>vs_versions := vers, vs_list := ls, vs_heap := h, vs_next_version := nv, vs_current := c\<rparr>"
    by (rule AppendVersion_ok [OF v]) (rule that)
  define vs4 where "vs4 = vs3\<lparr>vs_manifest_file_number := or_zero (rc_next_file rc), vs_next_file_number := or_zero (rc_next_file rc) + 1,
    vs_last_sequence := or_zero (rc_last_sequence rc), vs_log_number := or_zero (rc_log_number rc), vs_prev_log_number := or_zero (rc_prev_log_number rc)\<rparr>"
  obtain r vs5 env5 where ru: "ReuseManifest vs4 env dscname dscbase = (r, vs5, env5)" by (metis prod_cases3)
  obtain d m where vs5: "vs5 = vs4\<lparr>vs_descriptor := d, vs_manifest_file_number := m\<rparr>" by (rule ReuseManifest_shape [OF ru])
  have ok5: "vs_ok vs5 (held(base := held base + 1)) (mset (added_files (bl_levels ?b)))" using a(2) by (simp add: vs5 vs4_def)
  have "heap_ok (delete_Builder (vs_heap vs5) ?b) ({#} + owners vs5)"
    unfolding delete_Builder_unrefs by (rule heap_ok_unrefs) (use vs_okD(1) [OF ok5] in simp)
  note ok6 = vs_ok_heap [OF ok5 this]
  obtain vs' where u: "Version_Unref (vs5\<lparr>vs_heap := delete_Builder (vs_heap vs5) ?b\<rparr>) base = Some vs'"
    "vs_ok vs' ((held(base := held base + 1))(base := (held(base := held base + 1)) base - 1)) {#}" "same_versions (vs5\<lparr>vs_heap := delete_Builder (vs_heap vs5) ?b\<rparr>) vs'"
    "\<exists>vers ls h. vs' = vs5\<lparr>vs_heap := delete_Builder (vs_heap vs5) ?b, vs_versions := vers, vs_list := ls, vs_heap := h\<rparr>"
    using Version_Unref_ok [OF ok6, of base] by auto
  define mk where "mk = MarkFileNumberUsed (MarkFileNumberUsed ?vs1 (or_zero (rc_prev_log_number rc))) (or_zero (rc_log_number rc))"
  have mk: "vs_ucmp mk = vs_ucmp vs" "vs_heap mk = rc_heap rc" "vs_options mk = vs_options vs" "mk\<lparr>vs_heap := h2\<rparr> = vs2"
    using mark by (simp_all add: mk_def n1 n2)
  have inst: "install_recovered vs env base dscname dscbase Status_OK rc = Some (Status_OK, \<not> r, vs', env5)"
    using ru u(1) unfolding install_recovered_def Let_def assms(2) mk_def [symmetric] vs4_def
    by (simp add: mk assms(3) a(1))
  have f3: "vs_dbname vs3 = vs_dbname vs" "vs_ucmp vs3 = vs_ucmp vs" "vs_options vs3 = vs_options vs" "vs_compact_pointer vs3 = rc_compact_pointer rc"
    using a(7) by (auto simp: vs2_def)
  obtain vers ls h3 where w: "vs' = vs5\<lparr>vs_heap := delete_Builder (vs_heap vs5) ?b, vs_versions := vers, vs_list := ls, vs_heap := h3\<rparr>" using u(4) by blast
  have f': "vs_log_number vs' = or_zero (rc_log_number rc)" "vs_prev_log_number vs' = or_zero (rc_prev_log_number rc)"
    "vs_last_sequence vs' = or_zero (rc_last_sequence rc)" "vs_next_file_number vs' = or_zero (rc_next_file rc) + 1" "vs_compact_pointer vs' = rc_compact_pointer rc"
    "vs_dbname vs' = vs_dbname vs" "vs_ucmp vs' = vs_ucmp vs" "vs_options vs' = vs_options vs"
    by (simp_all add: w vs5 vs4_def f3)
  have S: "vs_current vs' = Some (vs_next_version vs2)" "v_files (vs_versions vs' (vs_next_version vs2)) = files"
    "describes (fh_meta (vs_heap vs') a) = describes (fh_meta h2 a)" "fh_next (vs_heap vs') = fh_next h2" for a
    using u(3) a(3-6) by (simp_all add: same_versions_def vs5 vs4_def delete_Builder_unrefs) (simp_all add: vs2_def)
  have ok': "vs_ok vs' held {#}" using u(2) by simp
  have cv: "v_files (current_version vs') = files" using S(1,2) by (simp add: current_version_def)
  have off: "env5 = env \<and> vs_descriptor vs' = vs_descriptor vs" if "\<not> opt_reuse_logs (vs_options vs)"
  proof -
    have "vs_options vs4 = vs_options vs" "vs_descriptor vs3 = vs_descriptor vs" using a(7) f3 by (auto simp: vs4_def vs2_def)
    then have "vs5 = vs4" "env5 = env" using ru that by (simp_all add: ReuseManifest_off)
    then show ?thesis using \<open>vs_descriptor vs3 = vs_descriptor vs\<close> by (simp add: w vs4_def)
  qed
  show ?thesis by (rule that [OF inst ok' cv S(3,4) f' off])
qed


text \<open>What a version set recovers from the edits it can read.\<close>

lemma Recover_reads:
  assumes "vs_ok vs held {#}" "vs_current vs = Some base" "no_faults env"
    and cur: "env_files env (CurrentFileName (vs_dbname vs)) = Some (name @ [10])" and mfile: "env_files env (vs_dbname vs @ str ''/'' @ name) = Some data"
    and rd: "reads (log_reader data (Some []) True) (map encode es)" and es: "\<forall>e\<in>set es. readable (vs_ucmp vs) e \<and> edit_levels e"
    and fields: "last_field has_next_file_number ve_next_file_number es = Some nf" "last_field has_log_number ve_log_number es = Some lnum"
      "last_field has_last_sequence ve_last_sequence es = Some seq"
    and ap: "foldl (\<lambda>st e. Apply (vs_ucmp vs) e st) (vs_compact_pointer vs, vs_heap vs, new_Builder (v_files (vs_versions vs base))) es = (cp, h, b)"
    and sv: "SaveTo (vs_ucmp vs) h b = (h2, files)"
  obtains save vs' env' where "Recover vs env = Some (Status_OK, save, vs', env')" "vs_ok vs' held {#}" "v_files (current_version vs') = files"
    "\<And>a. describes (fh_meta (vs_heap vs') a) = describes (fh_meta h2 a)" "fh_next (vs_heap vs') = fh_next h2" "vs_log_number vs' = lnum"
    "vs_prev_log_number vs' = or_zero (last_field has_prev_log_number ve_prev_log_number es)" "vs_last_sequence vs' = seq" "vs_next_file_number vs' = nf + 1"
    "vs_compact_pointer vs' = cp" "vs_dbname vs' = vs_dbname vs" "vs_ucmp vs' = vs_ucmp vs" "vs_options vs' = vs_options vs"
    "\<not> opt_reuse_logs (vs_options vs) \<Longrightarrow> env' = env \<and> vs_descriptor vs' = vs_descriptor vs"
proof -
  note D = vs_okD [OF assms(1)]
  have base: "base \<in> set (vs_list vs)" using D(6) [OF assms(2)] .
  obtain vs1 where r: "Version_Ref vs base = Some vs1" "vs_ok vs1 (held(base := held base + 1)) {#}" "owners vs1 = owners vs"
    "vs1 = vs\<lparr>vs_versions := (vs_versions vs)(base := (vs_versions vs base)\<lparr>v_refs := v_refs (vs_versions vs base) + 1\<rparr>)\<rparr>"
    using Version_Ref_ok [OF assms(1) base] by blast
  have f1: "vs_dbname vs1 = vs_dbname vs" "vs_ucmp vs1 = vs_ucmp vs" "vs_options vs1 = vs_options vs" "vs_compact_pointer vs1 = vs_compact_pointer vs"
    "vs_heap vs1 = vs_heap vs" "v_files (vs_versions vs1 base) = v_files (vs_versions vs base)" "vs_descriptor vs1 = vs_descriptor vs" by (simp_all add: r(4))
  define rc where "rc = \<lparr>rc_log_number = Some lnum, rc_prev_log_number = last_field has_prev_log_number ve_prev_log_number es,
    rc_next_file = Some nf, rc_last_sequence = Some seq, rc_compact_pointer = cp, rc_heap = h, rc_builder = b\<rparr>"
  have st: "foldl (recover_step (vs_ucmp vs)) (new_Recovery (vs_compact_pointer vs) (vs_heap vs) (v_files (vs_versions vs base))) es = rc"
    using recover_steps [of es "vs_ucmp vs"] es ap fields by (simp add: rc_def)
  have lp: "recover_loop (vs_ucmp vs) (log_reader data (Some []) True) Status_OK
      (new_Recovery (vs_compact_pointer vs) (vs_heap vs) (v_files (vs_versions vs base))) = (Status_OK, rc)"
    using recover_loop_reads [OF rd refl _, of "vs_ucmp vs" "new_Recovery (vs_compact_pointer vs) (vs_heap vs) (v_files (vs_versions vs base))"] es st by simp
  have "builder_refs (vs_heap vs) (new_Builder (v_files (vs_versions vs base))) (owners vs)" using D(1) by (intro builder_refs_new) simp
  from Applies_refs [OF this _ ap] es have B: "builder_refs h b (owners vs)" "bl_base b = v_files (vs_versions vs base)" by (simp_all add: new_Builder_def)
  have own: "set (concat (v_files (vs_versions vs base))) \<subseteq> set_mset (owners vs)" by (rule owned_files [OF base])
  have chk: "check_recovered rc = Status_OK" by (simp add: check_recovered_def rc_def)
  obtain save vs' env' where I: "install_recovered vs1 env base (vs_dbname vs @ str ''/'' @ name) name Status_OK rc = Some (Status_OK, save, vs', env')"
    "vs_ok vs' held {#}" "v_files (current_version vs') = files" "\<And>a. describes (fh_meta (vs_heap vs') a) = describes (fh_meta h2 a)"
    "fh_next (vs_heap vs') = fh_next h2" "vs_log_number vs' = or_zero (rc_log_number rc)" "vs_prev_log_number vs' = or_zero (rc_prev_log_number rc)"
    "vs_last_sequence vs' = or_zero (rc_last_sequence rc)" "vs_next_file_number vs' = or_zero (rc_next_file rc) + 1" "vs_compact_pointer vs' = rc_compact_pointer rc"
    "vs_dbname vs' = vs_dbname vs1" "vs_ucmp vs' = vs_ucmp vs1" "vs_options vs' = vs_options vs1"
    "\<not> opt_reuse_logs (vs_options vs1) \<Longrightarrow> env' = env \<and> vs_descriptor vs' = vs_descriptor vs1"
    by (rule install_recovered_ok [OF r(2) chk, of h2 files env "vs_dbname vs @ str ''/'' @ name" name])
      (use sv B own D(4) [OF base] r(3) f1 that in \<open>simp_all add: rc_def\<close>)
  have seq: "NewSequentialFile env (vs_dbname vs @ str ''/'' @ name) = (Status_OK, Some \<lparr>sf_rest = data, sf_script = []\<rparr>, env)"
    using assms(3) mfile by (simp add: NewSequentialFile_def no_faults_def)
  have "Recover vs env = Some (Status_OK, save, vs', env')"
    using lp I(1) r(1) assms(2) seq
    by (simp add: Recover_def ReadFileToString_no_faults [OF assms(3) cur] f1 new_Recovery_def [symmetric])
  then show ?thesis by (rule that [OF _ I(2-5)]) (use I(6-) f1 in \<open>simp_all add: rc_def or_zero_def\<close>)
qed

end
