(* ===== verification/ManifestRuns.thy ===== *)
theory ManifestRuns
  imports ManifestLogs
begin

text \<open>
  Edits applied one after the other in an environment that works, and what a new version set recovers from the manifest they leave,
  whole or cut at any byte of the last record.
\<close>

section \<open>Compaction pointers\<close>

lemma length_apply_pointers [simp]: "length (foldl apply_pointer cp ps) = length cp"
  by (induction ps arbitrary: cp) (simp_all add: apply_pointer_def)

lemma apply_pointers_other: "i \<notin> fst ` set ps \<Longrightarrow> foldl apply_pointer cp ps ! i = cp ! i"
  by (induction ps arbitrary: cp) (simp_all add: apply_pointer_def)

lemma apply_pointers_eq:
  "length cp = length cp' \<Longrightarrow> (\<And>i. i < length cp \<Longrightarrow> i \<notin> fst ` set ps \<Longrightarrow> cp ! i = cp' ! i) \<Longrightarrow> foldl apply_pointer cp ps = foldl apply_pointer cp' ps"
proof (induction ps arbitrary: cp cp')
  case Nil
  then show ?case by (simp add: nth_equalityI)
next
  case (Cons p ps)
  have "apply_pointer cp p ! i = apply_pointer cp' p ! i" if "i < length cp" "i \<notin> fst ` set ps" for i
    using that Cons.prems by (cases "i = fst p") (auto simp: apply_pointer_def)
  then show ?case using Cons.IH [of "apply_pointer cp p" "apply_pointer cp' p"] Cons.prems(1) by (simp add: apply_pointer_def)
qed

lemma apply_pointers_again: "foldl apply_pointer (foldl apply_pointer cp ps) ps = foldl apply_pointer cp ps"
  by (rule apply_pointers_eq) (simp_all add: apply_pointers_other)

definition pointers_ok :: "bytes list \<Rightarrow> bool" where
  "pointers_ok cp \<longleftrightarrow> length cp = kNumLevels \<and> (\<forall>k\<in>set cp. length k < 2 ^ 32)"

lemma pointers_ok_apply:
  "pointers_ok cp \<Longrightarrow> \<forall>p\<in>set ps. length (snd p) < 2 ^ 32 \<Longrightarrow> pointers_ok (foldl apply_pointer cp ps)"
proof (induction ps arbitrary: cp)
  case (Cons p ps)
  have "pointers_ok (apply_pointer cp p)"
    using Cons.prems set_update_subset_insert [of cp "fst p" "snd p"] by (auto simp: pointers_ok_def apply_pointer_def)
  then show ?case using Cons by simp
qed simp

section \<open>The snapshot\<close>

lemma snapshot_pointers_shape:
  "foldl (\<lambda>edit level. if cp ! level \<noteq> [] then SetCompactPointer edit level (cp ! level) else edit) e ls =
     e\<lparr>compact_pointers := compact_pointers e @ map (\<lambda>l. (l, cp ! l)) (filter (\<lambda>l. cp ! l \<noteq> []) ls)\<rparr>"
  by (induction ls arbitrary: e) (simp_all add: SetCompactPointer_def)

definition plain_meta :: "FileMetaData \<Rightarrow> FileMetaData" where
  "plain_meta f = new_FileMetaData\<lparr>number := number f, file_size := file_size f, smallest := smallest f, largest := largest f\<rparr>"

lemma snapshot_files_shape:
  "foldl (\<lambda>edit level. foldl (\<lambda>edit f. AddFile edit level (number (m f)) (file_size (m f)) (smallest (m f)) (largest (m f))) edit (files ! level)) e ls =
     e\<lparr>new_files := new_files e @ concat (map (\<lambda>l. map (\<lambda>f. (l, plain_meta (m f))) (files ! l)) ls)\<rparr>"
proof -
  have "foldl (\<lambda>edit f. AddFile edit l (number (m f)) (file_size (m f)) (smallest (m f)) (largest (m f))) e fs =
      e\<lparr>new_files := new_files e @ map (\<lambda>f. (l, plain_meta (m f))) fs\<rparr>" for l e fs
    by (induction fs arbitrary: e) (simp_all add: AddFile_def plain_meta_def)
  then show ?thesis by (induction ls arbitrary: e) simp_all
qed

lemma snapshot_edit_shape:
  "snapshot_edit vs = (SetComparatorName new_VersionEdit (Name (vs_ucmp vs)))
     \<lparr>compact_pointers := map (\<lambda>l. (l, vs_compact_pointer vs ! l)) (filter (\<lambda>l. vs_compact_pointer vs ! l \<noteq> []) [0..<kNumLevels]),
      new_files := concat (map (\<lambda>l. map (\<lambda>f. (l, plain_meta (fh_meta (vs_heap vs) f))) (v_files (current_version vs) ! l)) [0..<kNumLevels])\<rparr>"
  by (simp add: snapshot_edit_def snapshot_pointers_def snapshot_files_def snapshot_pointers_shape snapshot_files_shape SetComparatorName_def
      new_VersionEdit_def ve_Clear_def)

lemma snapshot_pointers_restore:
  assumes "pointers_ok cp"
  shows "foldl apply_pointer (replicate kNumLevels []) (map (\<lambda>l. (l, cp ! l)) (filter (\<lambda>l. cp ! l \<noteq> []) [0..<kNumLevels])) = cp"
proof -
  let ?ps = "map (\<lambda>l. (l, cp ! l)) (filter (\<lambda>l. cp ! l \<noteq> []) [0..<kNumLevels])"
  have len: "length cp = kNumLevels" using assms by (simp add: pointers_ok_def)
  have "foldl apply_pointer cp (map (\<lambda>l. (l, cp ! l)) ls) = cp" for ls by (induction ls) (simp_all add: apply_pointer_def)
  moreover have "foldl apply_pointer (replicate kNumLevels []) ?ps = foldl apply_pointer cp ?ps"
    by (rule apply_pointers_eq) (auto simp: len image_iff)
  ultimately show ?thesis by metis
qed

text \<open>What is known of files: numbers identify them, and their keys can be written.\<close>

definition known_files :: "(u64 \<times> u64 \<times> bytes \<times> bytes) set \<Rightarrow> bool" where
  "known_files D \<longleftrightarrow> inj_on fst D \<and>
     (\<forall>(n, sz, lo, hi)\<in>D. 8 \<le> length lo \<and> length lo < 2 ^ 32 \<and> hi \<noteq> [] \<and> length hi < 2 ^ 32)"

definition client_edit :: "comparator \<Rightarrow> (u64 \<times> u64 \<times> bytes \<times> bytes) set \<Rightarrow> VersionEdit \<Rightarrow> bool" where
  "client_edit c D e \<longleftrightarrow> readable c e \<and> edit_ok (\<lambda>f. describes f \<in> D) e"

lemma client_edit_levels: "client_edit c D e \<Longrightarrow> edit_levels e"
  by (simp add: client_edit_def edit_ok_def edit_levels_def)

lemma wf_fields_iff:
  "list_all wf_field (ve_fields e) \<longleftrightarrow> (has_comparator e \<longrightarrow> length (ve_comparator e) < 2 ^ 32) \<and>
     list_all (\<lambda>x. wf_field (F_CompactPointer (fst x) (snd x))) (compact_pointers e) \<and>
     list_all (\<lambda>x. wf_field (F_DeletedFile (fst x) (snd x))) (deleted_files e) \<and> list_all (\<lambda>x. wf_field (F_NewFile (fst x) (snd x))) (new_files e)"
  by (simp add: ve_fields_def list.pred_map comp_def case_prod_beta)

lemma client_edit_pointers: "client_edit c D e \<Longrightarrow> \<forall>p\<in>set (compact_pointers e). length (snd p) < 2 ^ 32"
  unfolding client_edit_def readable_def wf_edit_def wf_fields_iff by (simp add: list_all_iff)

lemma client_edit_set:
  assumes "client_edit c D e"
  shows "client_edit c D (SetLogNumber e n)" "client_edit c D (SetPrevLogNumber e n)" "client_edit c D (SetNextFile e n)" "client_edit c D (VersionEdits.SetLastSequence e n)"
  using assms unfolding client_edit_def readable_def wf_edit_def wf_fields_iff edit_ok_def
  by (cases "has_comparator e"; simp add: SetLogNumber_def SetPrevLogNumber_def SetNextFile_def VersionEdits.SetLastSequence_def)+

lemma client_edit_fill: "client_edit c D e \<Longrightarrow> client_edit c D (final_edit vs e)"
  unfolding final_edit_def fill_edit_def Let_def by (auto intro!: client_edit_set)

lemma final_edit_fields:
  "compact_pointers (final_edit vs e) = compact_pointers e" "new_files (final_edit vs e) = new_files e" "deleted_files (final_edit vs e) = deleted_files e"
  "has_log_number (final_edit vs e)" "has_prev_log_number (final_edit vs e)" "has_next_file_number (final_edit vs e)" "has_last_sequence (final_edit vs e)"
  "ve_next_file_number (final_edit vs e) = vs_next_file_number vs" "ve_last_sequence (final_edit vs e) = vs_last_sequence vs"
  by (simp_all add: final_edit_def fill_edit_def Let_def SetLogNumber_def SetPrevLogNumber_def SetNextFile_def VersionEdits.SetLastSequence_def)

lemma snapshot_client:
  assumes "known_files D" "version_ok (vs_ucmp vs) D (vs_heap vs) (v_files (current_version vs))" "pointers_ok (vs_compact_pointer vs)" "length (Name (vs_ucmp vs)) < 2 ^ 32"
  shows "client_edit (vs_ucmp vs) D (snapshot_edit vs)"
    "foldl apply_pointer (replicate kNumLevels []) (compact_pointers (snapshot_edit vs)) = vs_compact_pointer vs"
    "l < kNumLevels \<Longrightarrow> edit_numbers (snapshot_edit vs) (\<lambda>_. {}) l = numbers (fh_meta (vs_heap vs)) (v_files (current_version vs) ! l)"
proof -
  let ?m = "fh_meta (vs_heap vs)" and ?files = "v_files (current_version vs)" and ?cp = "vs_compact_pointer vs"
  have f: "describes (?m a) \<in> D \<and> file_dom (?m a)" if "l < kNumLevels" "a \<in> set (?files ! l)" for l a using assms(2) that by (auto simp: version_ok_def)
  have k: "smallest (?m a) \<noteq> [] \<and> length (smallest (?m a)) < 2 ^ 32 \<and> largest (?m a) \<noteq> [] \<and> length (largest (?m a)) < 2 ^ 32" if "l < kNumLevels" "a \<in> set (?files ! l)" for l a
    using assms(1) f [OF that] by (force simp: known_files_def describes_def)
  have cpl: "length (?cp ! l) < 2 ^ 32" if "l < kNumLevels" for l using assms(3) that by (auto simp: pointers_ok_def)
  have "list_all wf_field (ve_fields (snapshot_edit vs))"
    using k cpl assms(4) unfolding wf_fields_iff
    by (auto simp: snapshot_edit_shape SetComparatorName_def new_VersionEdit_def ve_Clear_def list_all_iff plain_meta_def new_FileMetaData_def)
  then have "wf_edit (snapshot_edit vs)"
    by (simp add: wf_edit_def) (simp add: snapshot_edit_shape SetComparatorName_def new_VersionEdit_def ve_Clear_def)
  moreover have "edit_ok (\<lambda>f. describes f \<in> D) (snapshot_edit vs)"
    using f by (auto simp: snapshot_edit_shape edit_ok_def SetComparatorName_def new_VersionEdit_def ve_Clear_def plain_meta_def describes_def file_dom_def)
  ultimately show "client_edit (vs_ucmp vs) D (snapshot_edit vs)"
    by (simp add: client_edit_def readable_def) (simp add: snapshot_edit_shape SetComparatorName_def)
  show "foldl apply_pointer (replicate kNumLevels []) (compact_pointers (snapshot_edit vs)) = ?cp"
    using snapshot_pointers_restore [OF assms(3)] by (simp add: snapshot_edit_shape)
  have nf: "(l, f) \<in> set (new_files (snapshot_edit vs)) \<longleftrightarrow> l < kNumLevels \<and> f \<in> (\<lambda>a. plain_meta (?m a)) ` set (?files ! l)" for l f
    by (auto simp: snapshot_edit_shape)
  have "deleted_files (snapshot_edit vs) = []" by (simp add: snapshot_edit_shape SetComparatorName_def new_VersionEdit_def ve_Clear_def)
  then have "edit_numbers (snapshot_edit vs) (\<lambda>_. {}) l = (\<lambda>a. number (plain_meta (?m a))) ` set (?files ! l)" if "l < kNumLevels"
    using that unfolding edit_numbers_def nf by auto
  then show "l < kNumLevels \<Longrightarrow> edit_numbers (snapshot_edit vs) (\<lambda>_. {}) l = numbers ?m (?files ! l)"
    by (simp add: numbers_def plain_meta_def)
qed


section \<open>Writing without faults\<close>

abbreviation log_of :: "VersionEdit list \<Rightarrow> Writer" where
  "log_of es \<equiv> write_records empty_log (map encode es)"

lemma writer_at_records: "writer_at w p \<Longrightarrow> \<exists>q. writer_at (write_records w recs) q"
proof (induction recs arbitrary: w p)
  case (Cons x xs)
  then show ?case using AddRecord_writer_at by (metis write_records_Cons)
qed (auto simp: write_records_def)

lemma log_of_snoc: "AddRecord (log_of es) (encode e) = (Status_OK, log_of (es @ [e]))" "wf_script (dest (log_of es)) = []"
proof -
  obtain q where q: "writer_at (log_of es) q" using writer_at_records [OF writer_at_empty] by blast
  then show "wf_script (dest (log_of es)) = []" by (simp add: writer_at_def)
  obtain out where "AddRecord (log_of es) (encode e) = (Status_OK, snd (AddRecord (log_of es) (encode e)))" using AddRecord_encoded [OF q] by metis
  then show "AddRecord (log_of es) (encode e) = (Status_OK, log_of (es @ [e]))" by (simp add: write_records_def)
qed

lemma no_faults_store [simp]: "no_faults (store_file env f w) = no_faults env" "env_files (store_file env f w) = (env_files env)(f \<mapsto> wf_data w)"
  by (simp_all add: no_faults_def store_file_def)

lemma NewWritableFile_no_faults:
  assumes "no_faults env"
  obtains env' where "NewWritableFile env f = (Status_OK, Some \<lparr>wf_data = [], wf_script = []\<rparr>, env')" "no_faults env'" "env_files env' = (env_files env)(f \<mapsto> [])"
proof -
  let ?env = "store_file env f \<lparr>wf_data = [], wf_script = []\<rparr>"
  have "NewWritableFile env f = (Status_OK, Some \<lparr>wf_data = [], wf_script = []\<rparr>, ?env)"
    using assms by (simp add: NewWritableFile_def open_writable_def no_faults_def store_file_def)
  then show ?thesis using that [of ?env] assms by simp
qed

lemma SetCurrentFile_no_faults:
  assumes "no_faults env"
  obtains env' where "SetCurrentFile env db n = (Status_OK, env')" "no_faults env'"
    "env_files env' = (env_files env)(TempFileName db n := None, CurrentFileName db \<mapsto> file_part db (DescriptorFileName db n) @ [10])"
proof -
  let ?data = "file_part db (DescriptorFileName db n) @ [10]" and ?tmp = "TempFileName db n"
  let ?env = "store_file env ?tmp \<lparr>wf_data = ?data, wf_script = []\<rparr>"
  have w: "WriteStringToFileSync env ?data ?tmp = (Status_OK, ?env)"
    using assms by (simp add: WriteStringToFileSync_def DoWriteStringToFile_def NewWritableFile_def open_writable_def no_faults_def store_file_def
        wf_Append_def wf_Sync_def wf_Close_def Let_def)
  let ?env' = "?env\<lparr>env_files := (env_files ?env)(?tmp := None, CurrentFileName db \<mapsto> ?data)\<rparr>"
  have nf: "no_faults ?env" using assms by simp
  then have nf': "no_faults ?env'" by (simp add: no_faults_def)
  have "RenameFile ?env ?tmp (CurrentFileName db) = (Status_OK, ?env')" using nf by (simp add: RenameFile_def no_faults_def Let_def)
  then have "SetCurrentFile env db n = (Status_OK, ?env')" using w by (simp add: SetCurrentFile_def file_part_def Let_def)
  then show ?thesis using that [OF _ nf'] by simp
qed

lemma digit_names: "last (DescriptorFileName db n) \<noteq> 112" "last (DescriptorFileName db n) \<noteq> 84"
proof -
  have "is_digit (last (DescriptorFileName db n))"
    using zero_padded_digits [of 6 "unat n"] zero_padded_nonempty [of 6 "unat n"] by (simp add: DescriptorFileName_def last_in_set)
  then show "last (DescriptorFileName db n) \<noteq> 112" "last (DescriptorFileName db n) \<noteq> 84" by (auto simp: is_digit_def)
qed

lemma descriptor_names: "DescriptorFileName db n \<noteq> TempFileName db' m" "DescriptorFileName db n \<noteq> CurrentFileName db'"
proof -
  have "last (TempFileName db' m) = 112" "last (CurrentFileName db') = 84" by (simp_all add: TempFileName_def MakeFileName_def CurrentFileName_def)
  then show "DescriptorFileName db n \<noteq> TempFileName db' m" "DescriptorFileName db n \<noteq> CurrentFileName db'" using digit_names [of db n] by metis+
qed

lemma descriptor_part: "db @ str ''/'' @ file_part db (DescriptorFileName db n) = DescriptorFileName db n"
  by (simp add: file_part_def DescriptorFileName_def)

text \<open>A manifest with these edits is open, and \<open>CURRENT\<close> names it.\<close>

definition logged :: "VersionSet \<Rightarrow> Env \<Rightarrow> VersionEdit list \<Rightarrow> bool" where
  "logged vs env es \<longleftrightarrow> (\<exists>n. vs_descriptor vs = Some (DescriptorFileName (vs_dbname vs) n, log_of es) \<and>
     env_files env (DescriptorFileName (vs_dbname vs) n) = Some (wf_data (dest (log_of es))) \<and>
     env_files env (CurrentFileName (vs_dbname vs)) = Some (file_part (vs_dbname vs) (DescriptorFileName (vs_dbname vs) n) @ [10]))"

lemma write_edit_logs:
  assumes "no_faults env" "vs_descriptor vs = Some (fname, log_of es)"
  shows "write_edit vs env e = (Status_OK, vs\<lparr>vs_descriptor := Some (fname, log_of (es @ [e]))\<rparr>, store_file env fname (dest (log_of (es @ [e]))))"
proof -
  have "log_of (es @ [e])\<lparr>dest := dest (log_of (es @ [e]))\<rparr> = log_of (es @ [e])" by (cases "log_of (es @ [e])") simp
  moreover have "wf_Sync (dest (log_of (es @ [e]))) = (Status_OK, dest (log_of (es @ [e])))" using log_of_snoc(2) [of "es @ [e]"] by (simp add: wf_Sync_def)
  ultimately show ?thesis using assms log_of_snoc(1) [of es e] by (simp add: write_edit_def encode_def Let_def)
qed

lemma write_manifest_logs:
  assumes "no_faults env" "vs_descriptor vs = None \<or> logged vs env es"
    and es'_def: "es' = (if vs_descriptor vs = None then [snapshot_edit vs] else es) @ [e]"
  obtains d env' where "write_manifest vs env e = (Status_OK, vs\<lparr>vs_descriptor := d\<rparr>, env')" "no_faults env'" "logged (vs\<lparr>vs_descriptor := d\<rparr>) env' es'"
    "\<And>n. vs_descriptor vs = Some (DescriptorFileName (vs_dbname vs) n, log_of es) \<Longrightarrow>
       env_files env' = (env_files env)(DescriptorFileName (vs_dbname vs) n \<mapsto> wf_data (dest (log_of es')))"
proof (cases "vs_descriptor vs")
  case (Some d0)
  then obtain n where n: "vs_descriptor vs = Some (DescriptorFileName (vs_dbname vs) n, log_of es)"
    "env_files env (CurrentFileName (vs_dbname vs)) = Some (file_part (vs_dbname vs) (DescriptorFileName (vs_dbname vs) n) @ [10])"
    using assms(2) unfolding logged_def by auto
  have es': "es' = es @ [e]" using Some by (simp add: es'_def)
  let ?f = "DescriptorFileName (vs_dbname vs) n"
  let ?env = "store_file env ?f (dest (log_of es'))"
  have w: "write_manifest vs env e = (Status_OK, vs\<lparr>vs_descriptor := Some (?f, log_of es')\<rparr>, ?env)"
    using write_edit_logs [OF assms(1) n(1), of e] n(1) by (simp add: write_manifest_def open_manifest_def es' Let_def)
  have "logged (vs\<lparr>vs_descriptor := Some (?f, log_of es')\<rparr>) ?env es'"
    unfolding logged_def using n(2) descriptor_names(2) [of "vs_dbname vs" n "vs_dbname vs"] by (auto intro!: exI [of _ n])
  moreover have "?f = DescriptorFileName (vs_dbname vs) m" if "vs_descriptor vs = Some (DescriptorFileName (vs_dbname vs) m, log_of es)" for m using that n(1) by simp
  ultimately show ?thesis using that [OF w] assms(1) by simp
next
  case None
  let ?n = "vs_manifest_file_number vs"
  let ?f = "DescriptorFileName (vs_dbname vs) ?n"
  have es': "es' = [snapshot_edit vs] @ [e]" using None by (simp add: es'_def)
  obtain env1 where w1: "NewWritableFile env ?f = (Status_OK, Some \<lparr>wf_data = [], wf_script = []\<rparr>, env1)" "no_faults env1"
    using NewWritableFile_no_faults [OF assms(1)] by metis
  have snap: "WriteSnapshot vs empty_log = (Status_OK, log_of [snapshot_edit vs])"
    using log_of_snoc(1) [of "[]" "snapshot_edit vs"] by (simp add: WriteSnapshot_def encode_def write_records_def)
  let ?vs1 = "vs\<lparr>vs_descriptor := Some (?f, log_of [snapshot_edit vs])\<rparr>" and ?env2 = "store_file env1 ?f (dest (log_of [snapshot_edit vs]))"
  have o: "open_manifest vs env = (Status_OK, ?vs1, ?env2)" using None w1(1) snap by (simp add: open_manifest_def Let_def)
  have we: "write_edit ?vs1 ?env2 e = (Status_OK, ?vs1\<lparr>vs_descriptor := Some (?f, log_of es')\<rparr>, store_file ?env2 ?f (dest (log_of es')))"
    unfolding es' by (rule write_edit_logs) (use w1(2) in simp_all)
  obtain env3 where sc: "SetCurrentFile (store_file ?env2 ?f (dest (log_of es'))) (vs_dbname vs) ?n = (Status_OK, env3)" "no_faults env3"
    "env_files env3 = (env_files (store_file ?env2 ?f (dest (log_of es'))))(TempFileName (vs_dbname vs) ?n := None, CurrentFileName (vs_dbname vs) \<mapsto> file_part (vs_dbname vs) ?f @ [10])"
    using SetCurrentFile_no_faults [of "store_file ?env2 ?f (dest (log_of es'))" "vs_dbname vs" ?n] w1(2) by (auto simp del: no_faults_store(2))
  have w: "write_manifest vs env e = (Status_OK, vs\<lparr>vs_descriptor := Some (?f, log_of es')\<rparr>, env3)"
    using o we sc(1) None by (simp add: write_manifest_def Let_def)
  have "logged (vs\<lparr>vs_descriptor := Some (?f, log_of es')\<rparr>) env3 es'"
    unfolding logged_def using sc(3) descriptor_names [of "vs_dbname vs" ?n "vs_dbname vs"] by (intro exI [of _ ?n]) simp
  then show ?thesis using that [OF w] sc(2) None by simp
qed


section \<open>Runs\<close>

text \<open>What the edits of a manifest say: the numbers in each level and the compaction pointers.\<close>

definition replay :: "VersionEdit list \<Rightarrow> nat \<Rightarrow> u64 set" where
  "replay es = foldl (\<lambda>S e. edit_numbers e S) (\<lambda>_. {}) es"

definition replay_pointers :: "VersionEdit list \<Rightarrow> bytes list" where
  "replay_pointers es = foldl apply_pointer (replicate kNumLevels []) (concat (map compact_pointers es))"

definition holds :: "comparator \<Rightarrow> (u64 \<times> u64 \<times> bytes \<times> bytes) set \<Rightarrow> VersionSet \<Rightarrow> VersionEdit list \<Rightarrow> bool" where
  "holds c D vs es \<longleftrightarrow> (\<forall>e\<in>set es. client_edit c D e) \<and> es \<noteq> [] \<and>
     has_log_number (last es) \<and> has_prev_log_number (last es) \<and> has_next_file_number (last es) \<and> has_last_sequence (last es) \<and>
     (\<forall>l < kNumLevels. numbers (fh_meta (vs_heap vs)) (v_files (current_version vs) ! l) = replay es l) \<and> vs_compact_pointer vs = replay_pointers es \<and>
     vs_log_number vs = ve_log_number (last es) \<and> vs_prev_log_number vs = ve_prev_log_number (last es)"

definition run_ok :: "comparator \<Rightarrow> (u64 \<times> u64 \<times> bytes \<times> bytes) set \<Rightarrow> VersionSet \<Rightarrow> Env \<Rightarrow> bool" where
  "run_ok c D vs env \<longleftrightarrow> (\<exists>held. vs_ok vs held {#}) \<and> no_faults env \<and> vs_ucmp vs = c \<and> pointers_ok (vs_compact_pointer vs) \<and>
     version_ok c D (vs_heap vs) (v_files (current_version vs)) \<and>
     (vs_descriptor vs \<noteq> None \<longrightarrow> (\<exists>es. logged vs env es \<and> holds c D vs es))"

lemma edit_numbers_level: "S l = T l \<Longrightarrow> edit_numbers e S l = edit_numbers e T l"
  by (simp add: edit_numbers_def)

lemma replay_snoc [simp]: "replay (es @ [e]) = edit_numbers e (replay es)" "replay_pointers (es @ [e]) = foldl apply_pointer (replay_pointers es) (compact_pointers e)"
  by (simp_all add: replay_def replay_pointers_def)

lemma version_ok_describes:
  assumes "version_ok c D h files" "\<And>a. describes (fh_meta h' a) = describes (fh_meta h a)" "fh_next h' = fh_next h"
  shows "version_ok c D h' files" "numbers (fh_meta h') fs = numbers (fh_meta h) fs"
proof -
  have d: "number (fh_meta h' a) = number (fh_meta h a)" "smallest (fh_meta h' a) = smallest (fh_meta h a)" for a
    using assms(2) [of a] by (simp_all add: describes_def)
  show "numbers (fh_meta h') fs = numbers (fh_meta h) fs" by (simp add: numbers_def d)
  have "BySmallestKey c (fh_meta h' a) (fh_meta h' b) = BySmallestKey c (fh_meta h a) (fh_meta h b)" for a b by (simp add: BySmallestKey_def d)
  then show "version_ok c D h' files" using assms by (simp add: version_ok_def files_in_order_def file_dom_def d)
qed

text \<open>A builder leaves the files that exist alone.\<close>

lemma apply_adds_old: "fh_next h \<le> fh_next (fst (foldl (apply_add c) (h, ls) lfs)) \<and>
    (\<forall>a < fh_next h. fh_meta (fst (foldl (apply_add c) (h, ls) lfs)) a = fh_meta h a)"
proof (induction lfs arbitrary: h ls)
  case (Cons lf lfs)
  obtain h1 ls1 where a: "apply_add c (h, ls) lf = (h1, ls1)" by fastforce
  then have "fh_next h1 = Suc (fh_next h)" "\<forall>a < fh_next h. fh_meta h1 a = fh_meta h a"
    by (cases lf; auto simp: apply_add_def new_file_def Let_def)+
  then show ?case using Cons.IH [of h1 ls1] a by auto
qed simp

lemma Apply_SaveTo_old:
  assumes "Apply c e (cp, h, b) = (cp', h', b')" "SaveTo c h' b' = (h2, files)" "a < fh_next h"
  shows "describes (fh_meta h2 a) = describes (fh_meta h a)"
proof -
  have "fh_meta h' a = fh_meta h a"
    using assms(1,3) apply_adds_old [of h c "foldl apply_delete (bl_levels b) (deleted_files e)" "new_files e"]
    by (auto simp: Apply_def Let_def split: prod.splits)
  moreover have "describes (fh_meta h2 a) = describes (fh_meta h' a)" using assms(2) unfolding SaveTo_eq by (auto simp: ref_files_meta describes_def)
  ultimately show ?thesis by simp
qed

lemma Apply_SaveTo_next: "Apply c e (cp, h, b) = (cp', h', b') \<Longrightarrow> SaveTo c h' b' = (h2, files) \<Longrightarrow> fh_next h \<le> fh_next h2"
  using apply_adds_old [of h c "foldl apply_delete (bl_levels b) (deleted_files e)" "new_files e"]
  unfolding SaveTo_eq by (auto simp: Apply_def Let_def split: prod.splits)

text \<open>An edit in a run is written, and the version it makes is what the manifest then says.\<close>

lemma LogAndApply_run:
  assumes c: "total_comparator c" "length (Name c) < 2 ^ 32" and D: "known_files D" and run: "run_ok c D vs env" and e: "client_edit c D e"
  obtains vs' env' es where "LogAndApply vs env e = Some (Status_OK, final_edit vs e, vs', env')" "run_ok c D vs' env'"
    "logged vs' env' (es @ [final_edit vs e])" "holds c D vs' (es @ [final_edit vs e])" "vs_dbname vs' = vs_dbname vs"
    "vs_next_file_number vs' = vs_next_file_number vs" "vs_last_sequence vs' = vs_last_sequence vs"
    "vs_descriptor vs \<noteq> None \<Longrightarrow> holds c D vs es \<and> (\<exists>n. vs_descriptor vs = Some (DescriptorFileName (vs_dbname vs) n, log_of es) \<and>
       env_files env (DescriptorFileName (vs_dbname vs) n) = Some (wf_data (dest (log_of es))) \<and>
       env_files env' = (env_files env)(DescriptorFileName (vs_dbname vs) n \<mapsto> wf_data (dest (log_of (es @ [final_edit vs e])))))"
proof -
  obtain held where V: "vs_ok vs held {#}" using run by (auto simp: run_ok_def)
  obtain cur where cur: "vs_current vs = Some cur" using vs_okD(7) [OF V] by blast
  have R: "no_faults env" "vs_ucmp vs = c" "pointers_ok (vs_compact_pointer vs)" "version_ok c D (vs_heap vs) (v_files (current_version vs))" using run by (simp_all add: run_ok_def)
  have cv: "v_files (current_version vs) = v_files (vs_versions vs cur)" using cur by (simp add: current_version_def)
  let ?fe = "fill_edit vs e" and ?E = "final_edit vs e"
  obtain cp h b where ap: "Apply c ?fe (vs_compact_pointer vs, vs_heap vs, new_Builder (v_files (vs_versions vs cur))) = (cp, h, b)" by (metis prod_cases3)
  obtain h2 files where sv: "SaveTo c h b = (h2, files)" by fastforce
  have ce: "client_edit c D ?fe" using e unfolding fill_edit_def Let_def by (auto intro!: client_edit_set)
  have fields: "compact_pointers ?fe = compact_pointers e" "new_files ?fe = new_files e" "deleted_files ?fe = deleted_files e"
    by (simp_all add: fill_edit_def Let_def SetLogNumber_def SetPrevLogNumber_def SetNextFile_def VersionEdits.SetLastSequence_def)
  have EN: "edit_numbers ?fe = edit_numbers ?E" by (intro ext) (simp add: edit_numbers_def fields final_edit_fields)
  have ap1: "foldl (\<lambda>st e. Apply c e st) (vs_compact_pointer vs, vs_heap vs, new_Builder (v_files (vs_versions vs cur))) [?fe] = (cp, h, b)" using ap by simp
  have eok: "\<forall>x\<in>set [?fe]. edit_ok (\<lambda>f. describes f \<in> D) x" using ce by (simp add: client_edit_def)
  note B = builder_saves [OF c(1) R(4) [unfolded cv] eok ap1 sv]
  have cp: "cp = foldl apply_pointer (vs_compact_pointer vs) (compact_pointers ?E)" using B(2) fields(1) by (simp add: final_edit_fields)
  have pcp: "pointers_ok cp" unfolding cp by (rule pointers_ok_apply [OF R(3)]) (use client_edit_pointers [OF e] in \<open>simp add: final_edit_fields\<close>)
  have num: "numbers (fh_meta h2) (files ! l) = edit_numbers ?E (\<lambda>l. numbers (fh_meta (vs_heap vs)) (v_files (current_version vs) ! l)) l" if "l < kNumLevels" for l
    using B(3) [OF that] by (simp add: EN cv)
  obtain s vs' env' vs1 d where L: "LogAndApply vs env e = Some (s, ?E, vs', env')" "vs_ok vs' held {#}"
    "ok s \<Longrightarrow> v_files (current_version vs') = files \<and> (\<forall>a. describes (fh_meta (vs_heap vs') a) = describes (fh_meta h2 a)) \<and> fh_next (vs_heap vs') = fh_next h2"
    "ok s \<Longrightarrow> vs_log_number vs' = ve_log_number ?E \<and> vs_prev_log_number vs' = ve_prev_log_number ?E \<and> vs_descriptor vs' = d"
    "vs_compact_pointer vs' = cp" "vs_dbname vs' = vs_dbname vs" "vs_ucmp vs' = vs_ucmp vs" "vs_next_file_number vs' = vs_next_file_number vs"
    "vs_last_sequence vs' = vs_last_sequence vs"
    "write_manifest vs1 env ?E = (s, vs1\<lparr>vs_descriptor := d\<rparr>, if ok s then env' else snd (snd (write_manifest vs1 env ?E)))"
    "\<exists>vers ls h. vs1 = vs\<lparr>vs_versions := vers, vs_list := ls, vs_heap := h, vs_compact_pointer := cp\<rparr>" "v_files (current_version vs1) = v_files (current_version vs)"
    "\<forall>a. describes (fh_meta (vs_heap vs1) a) = describes (fh_meta h2 a)" "fh_next (vs_heap vs1) = fh_next h2"
    using LogAndApply_ok [OF V client_edit_levels [OF e] cur ap [folded R(2)] sv [folded R(2)]] by metis
  have f1: "vs_descriptor vs1 = vs_descriptor vs" "vs_dbname vs1 = vs_dbname vs" "vs_ucmp vs1 = c" "vs_compact_pointer vs1 = cp" using L(11) R(2) by auto
  have old: "describes (fh_meta (vs_heap vs1) a) = describes (fh_meta (vs_heap vs) a)" if "a < fh_next (vs_heap vs)" for a
    using L(13) Apply_SaveTo_old [OF ap sv that] by simp
  have known: "a < fh_next (vs_heap vs)" if "l < kNumLevels" "a \<in> set (v_files (current_version vs) ! l)" for l a using R(4) that by (auto simp: version_ok_def)
  have num1: "numbers (fh_meta (vs_heap vs1)) (v_files (current_version vs) ! l) = numbers (fh_meta (vs_heap vs)) (v_files (current_version vs) ! l)" if "l < kNumLevels" for l
    using old known [OF that] unfolding numbers_def describes_def by (intro image_cong) auto
  obtain es0 where es0: "vs_descriptor vs \<noteq> None \<Longrightarrow> logged vs env es0 \<and> holds c D vs es0" using run by (auto simp: run_ok_def)
  define es where "es = (if vs_descriptor vs = None then [snapshot_edit vs1] else es0)"
  have lg: "vs_descriptor vs1 = None \<or> logged vs1 env es0" using es0 f1 unfolding logged_def by (cases "vs_descriptor vs = None") auto
  have es': "es @ [?E] = (if vs_descriptor vs1 = None then [snapshot_edit vs1] else es0) @ [?E]" by (simp add: es_def f1)
  obtain d' env1 where W: "write_manifest vs1 env ?E = (Status_OK, vs1\<lparr>vs_descriptor := d'\<rparr>, env1)" "no_faults env1" "logged (vs1\<lparr>vs_descriptor := d'\<rparr>) env1 (es @ [?E])"
    "\<And>n. vs_descriptor vs1 = Some (DescriptorFileName (vs_dbname vs1) n, log_of es0) \<Longrightarrow>
       env_files env1 = (env_files env)(DescriptorFileName (vs_dbname vs1) n \<mapsto> wf_data (dest (log_of (es @ [?E]))))"
    using write_manifest_logs [OF R(1) lg es'] by metis
  have s: "s = Status_OK" using L(10) W(1) by simp
  then have env': "env' = env1" using L(10) W(1) by simp
  have dd: "vs_descriptor vs' = d'"
  proof -
    have "vs1\<lparr>vs_descriptor := d\<rparr> = vs1\<lparr>vs_descriptor := d'\<rparr>" using L(10) W(1) by simp
    then have "vs_descriptor (vs1\<lparr>vs_descriptor := d\<rparr>) = vs_descriptor (vs1\<lparr>vs_descriptor := d'\<rparr>)" by simp
    then show ?thesis using L(4) s by simp
  qed
  have V': "v_files (current_version vs') = files" "\<And>a. describes (fh_meta (vs_heap vs') a) = describes (fh_meta h2 a)" "fh_next (vs_heap vs') = fh_next h2"
    using L(3) s by auto
  have lg': "logged vs' env' (es @ [?E])" using W(3) dd f1(2) L(6) by (simp add: logged_def env')
  note vo = version_ok_describes [OF B(1) V'(2,3)]
  have base: "(\<forall>x\<in>set es. client_edit c D x) \<and> (\<forall>l < kNumLevels. numbers (fh_meta (vs_heap vs)) (v_files (current_version vs) ! l) = replay es l) \<and>
      cp = foldl apply_pointer (replay_pointers es) (compact_pointers ?E)"
  proof (cases "vs_descriptor vs = None")
    case True
    have v1: "version_ok c D (vs_heap vs1) (v_files (current_version vs))"
      unfolding version_ok_def
    proof (intro conjI allI impI ballI)
      show "length (v_files (current_version vs)) = kNumLevels" using R(4) by (simp add: version_ok_def)
      fix l assume l: "l < kNumLevels"
      have d: "number (fh_meta (vs_heap vs1) a) = number (fh_meta (vs_heap vs) a) \<and> smallest (fh_meta (vs_heap vs1) a) = smallest (fh_meta (vs_heap vs) a)"
        if "a \<in> set (v_files (current_version vs) ! l)" for a using old [OF known [OF l that]] by (simp add: describes_def)
      have "sorted_wrt (\<lambda>x y. \<not> BySmallestKey c (fh_meta (vs_heap vs) y) (fh_meta (vs_heap vs) x)) (v_files (current_version vs) ! l)"
        using R(4) l by (simp add: version_ok_def files_in_order_def)
      then show "files_in_order c (fh_meta (vs_heap vs1)) (v_files (current_version vs) ! l)"
        unfolding files_in_order_def
      proof (rule sorted_wrt_mono_rel [rotated])
        fix x y assume xy: "x \<in> set (v_files (current_version vs) ! l)" "y \<in> set (v_files (current_version vs) ! l)"
        have "BySmallestKey c (fh_meta (vs_heap vs1) y) (fh_meta (vs_heap vs1) x) = BySmallestKey c (fh_meta (vs_heap vs) y) (fh_meta (vs_heap vs) x)"
          by (simp only: BySmallestKey_def d [OF xy(1)] d [OF xy(2)])
        then show "\<not> BySmallestKey c (fh_meta (vs_heap vs) y) (fh_meta (vs_heap vs) x) \<Longrightarrow> \<not> BySmallestKey c (fh_meta (vs_heap vs1) y) (fh_meta (vs_heap vs1) x)" by simp
      qed
      fix a assume a: "a \<in> set (v_files (current_version vs) ! l)"
      show "file_dom (fh_meta (vs_heap vs1) a)" using d [OF a] R(4) l a by (simp add: version_ok_def file_dom_def)
      show "describes (fh_meta (vs_heap vs1) a) \<in> D" using old [OF known [OF l a]] R(4) l a by (simp add: version_ok_def)
      have "fh_next (vs_heap vs) \<le> fh_next (vs_heap vs1)" using Apply_SaveTo_next [OF ap sv] L(14) by simp
      then show "a < fh_next (vs_heap vs1)" using known [OF l a] by simp
    qed
    note S = snapshot_client [OF D, of vs1, unfolded f1 L(12), OF v1 pcp c(2)]
    have "replay es l = numbers (fh_meta (vs_heap vs1)) (v_files (current_version vs) ! l)" if "l < kNumLevels" for l
      using S(3) [OF that] True by (simp add: es_def replay_def)
    moreover have "replay_pointers es = cp" using S(2) True by (simp add: es_def replay_pointers_def)
    moreover have "foldl apply_pointer cp (compact_pointers ?E) = cp" unfolding cp by (rule apply_pointers_again)
    ultimately show ?thesis using S(1) num1 True by (simp add: es_def)
  next
    case False
    then have "holds c D vs es" using es0 [OF False] by (cases "vs_descriptor vs") (simp_all add: es_def)
    then show ?thesis using cp by (simp add: holds_def)
  qed
  have hd: "holds c D vs' (es @ [?E])"
    unfolding holds_def last_snoc
  proof (intro conjI allI impI)
    show "\<forall>x\<in>set (es @ [?E]). client_edit c D x" using base client_edit_fill [OF e] by simp
    show "vs_compact_pointer vs' = replay_pointers (es @ [?E])" using base L(5) by simp
    show "numbers (fh_meta (vs_heap vs')) (v_files (current_version vs') ! l) = replay (es @ [?E]) l" if "l < kNumLevels" for l
      using num [OF that] base that edit_numbers_level [of "\<lambda>l. numbers (fh_meta (vs_heap vs)) (v_files (current_version vs) ! l)" l "replay es" ?E] by (simp add: vo V'(1))
  qed (use L(4) s in \<open>simp_all add: final_edit_fields\<close>)
  have ro: "run_ok c D vs' env'"
    unfolding run_ok_def using L(2,5,7) W(2) R(2) pcp vo(1) V'(1) lg' hd by (auto simp: env')
  have last: "holds c D vs es \<and> (\<exists>n. vs_descriptor vs = Some (DescriptorFileName (vs_dbname vs) n, log_of es) \<and>
       env_files env (DescriptorFileName (vs_dbname vs) n) = Some (wf_data (dest (log_of es))) \<and>
       env_files env' = (env_files env)(DescriptorFileName (vs_dbname vs) n \<mapsto> wf_data (dest (log_of (es @ [?E])))))" if "vs_descriptor vs \<noteq> None"
    using es0 that W(4) f1 by (auto simp: es_def logged_def env')
  show ?thesis by (rule that [OF L(1) [unfolded s] ro lg' hd L(6,8,9) last])
qed


section \<open>Recovering from a manifest\<close>

lemma replay_level: "S l = T l \<Longrightarrow> foldl (\<lambda>S e. edit_numbers e S) S es l = foldl (\<lambda>S e. edit_numbers e S) T es l"
proof (induction es arbitrary: S T)
  case (Cons e es)
  show ?case using Cons.IH [of "edit_numbers e S" "edit_numbers e T"] edit_numbers_level [of S l T e, OF Cons.prems] by simp
qed simp

lemma last_fields:
  "es \<noteq> [] \<Longrightarrow> hf (last es) \<Longrightarrow> last_field hf get es = Some (get (last es))"
  by (cases es rule: rev_cases) auto

definition writes_fields :: "VersionEdit \<Rightarrow> bool" where
  "writes_fields e \<longleftrightarrow> has_log_number e \<and> has_prev_log_number e \<and> has_next_file_number e \<and> has_last_sequence e"

lemma new_VersionSet_fields:
  assumes "new_VersionSet db options c h = Some vs"
  shows "vs_dbname vs = db" "vs_ucmp vs = c" "vs_options vs = options" "vs_heap vs = h" "vs_compact_pointer vs = replicate kNumLevels []" "vs_descriptor vs = None"
    "vs_current vs = Some 0" "v_files (vs_versions vs 0) = replicate kNumLevels []"
  using assms by (auto simp: new_VersionSet_def AppendVersion_def new_Version_def)

lemma Recover_log:
  assumes "total_comparator c" "new_VersionSet db options c h = Some vs0" "fh_freed h \<subseteq> {..<fh_next h}" "no_faults env"
    "env_files env (CurrentFileName db) = Some (file_part db (DescriptorFileName db n) @ [10])"
    "env_files env (DescriptorFileName db n) = Some (take k (wf_data (dest (log_of es))))" "complete_records k empty_log (map encode es) = map encode es'"
    "\<forall>e\<in>set es'. client_edit c D e" "es' \<noteq> []" "writes_fields (last es')"
  obtains save vs' env' where "Recover vs0 env = Some (Status_OK, save, vs', env')" "vs_ok vs' (\<lambda>_. 0) {#}" "version_ok c D (vs_heap vs') (v_files (current_version vs'))"
    "\<And>l. l < kNumLevels \<Longrightarrow> numbers (fh_meta (vs_heap vs')) (v_files (current_version vs') ! l) = replay es' l" "vs_compact_pointer vs' = replay_pointers es'"
    "vs_log_number vs' = ve_log_number (last es')" "vs_prev_log_number vs' = ve_prev_log_number (last es')" "vs_last_sequence vs' = ve_last_sequence (last es')"
    "vs_next_file_number vs' = ve_next_file_number (last es') + 1" "vs_dbname vs' = db" "vs_ucmp vs' = c"
    "\<not> opt_reuse_logs options \<Longrightarrow> env' = env \<and> vs_descriptor vs' = None"
proof -
  note N = new_VersionSet_fields [OF assms(2)]
  let ?base = "replicate kNumLevels [] :: faddr list list"
  obtain cp h1 b where ap: "foldl (\<lambda>st e. Apply c e st) (replicate kNumLevels [], h, new_Builder ?base) es' = (cp, h1, b)" by (metis prod_cases3)
  obtain h2 files where sv: "SaveTo c h1 b = (h2, files)" by fastforce
  have vb: "version_ok c D h ?base" by (simp add: version_ok_def files_in_order_def)
  have eok: "\<forall>e\<in>set es'. edit_ok (\<lambda>f. describes f \<in> D) e" using assms(8) by (simp add: client_edit_def)
  note B = builder_saves [OF assms(1) vb eok ap sv]
  have rd: "reads (log_reader (take k (wf_data (dest (log_of es)))) (Some []) True) (map encode es')"
    using reads_complete [OF writer_at_empty empty_log_length reader_at_start [of _ "Some []" True] refl, where recs = "map encode es" and n = k] assms(7) by simp
  have cf: "env_files env (CurrentFileName (vs_dbname vs0)) = Some (file_part db (DescriptorFileName db n) @ [10])" using assms(5) by (simp only: N(1))
  have mf: "env_files env (vs_dbname vs0 @ str ''/'' @ file_part db (DescriptorFileName db n)) = Some (take k (wf_data (dest (log_of es))))"
    using assms(6) by (simp only: N(1) descriptor_part)
  have es: "\<forall>e\<in>set es'. readable (vs_ucmp vs0) e \<and> edit_levels e" using assms(8) client_edit_levels by (auto simp: client_edit_def N(2))
  note F = last_fields [OF assms(9)]
  have fl: "last_field has_next_file_number ve_next_file_number es' = Some (ve_next_file_number (last es'))" "last_field has_log_number ve_log_number es' = Some (ve_log_number (last es'))"
    "last_field has_last_sequence ve_last_sequence es' = Some (ve_last_sequence (last es'))" "last_field has_prev_log_number ve_prev_log_number es' = Some (ve_prev_log_number (last es'))"
    using assms(10) F by (simp_all add: writes_fields_def)
  have ap': "foldl (\<lambda>st e. Apply (vs_ucmp vs0) e st) (vs_compact_pointer vs0, vs_heap vs0, new_Builder (v_files (vs_versions vs0 0))) es' = (cp, h1, b)"
    using ap by (simp only: N)
  have sv': "SaveTo (vs_ucmp vs0) h1 b = (h2, files)" using sv by (simp only: N(2))
  obtain save vs' env' where R: "Recover vs0 env = Some (Status_OK, save, vs', env')" "vs_ok vs' (\<lambda>_. 0) {#}" "v_files (current_version vs') = files"
    "\<And>a. describes (fh_meta (vs_heap vs') a) = describes (fh_meta h2 a)" "fh_next (vs_heap vs') = fh_next h2" "vs_log_number vs' = ve_log_number (last es')"
    "vs_prev_log_number vs' = or_zero (last_field has_prev_log_number ve_prev_log_number es')" "vs_last_sequence vs' = ve_last_sequence (last es')"
    "vs_next_file_number vs' = ve_next_file_number (last es') + 1"
    "vs_compact_pointer vs' = cp" "vs_dbname vs' = vs_dbname vs0" "vs_ucmp vs' = vs_ucmp vs0" "vs_options vs' = vs_options vs0"
    "\<not> opt_reuse_logs (vs_options vs0) \<Longrightarrow> env' = env \<and> vs_descriptor vs' = vs_descriptor vs0"
    by (rule Recover_reads [OF new_VersionSet_ok [OF assms(2,3)] N(7) assms(4) cf mf rd es fl(1-3) ap' sv'])
      (rule that)
  note vo = version_ok_describes [OF B(1) R(4,5)]
  have num: "numbers (fh_meta (vs_heap vs')) (v_files (current_version vs') ! l) = replay es' l" if "l < kNumLevels" for l
  proof -
    have "numbers (fh_meta h) (?base ! l) = {}" using that by (simp add: numbers_def)
    then show ?thesis using B(3) [OF that] replay_level [of "\<lambda>l. numbers (fh_meta h) (?base ! l)" l "\<lambda>_. {}" es'] by (simp only: vo(2) R(3) replay_def)
  qed
  have cp: "vs_compact_pointer vs' = replay_pointers es'" using R(10) B(2) by (simp add: replay_pointers_def)
  show ?thesis by (rule that [OF R(1,2) _ num cp R(6)]) (use vo(1) R fl(4) N in \<open>simp_all add: or_zero_def\<close>)
qed


text \<open>What a version holds in a level: the descriptions of its files.\<close>

definition level_files :: "VersionSet \<Rightarrow> nat \<Rightarrow> (u64 \<times> u64 \<times> bytes \<times> bytes) set" where
  "level_files vs l = (\<lambda>a. describes (fh_meta (vs_heap vs) a)) ` set (v_files (current_version vs) ! l)"

lemma level_files_numbers:
  assumes "known_files D" "version_ok c D (vs_heap vs) (v_files (current_version vs))" "l < kNumLevels"
  shows "level_files vs l = {d \<in> D. fst d \<in> numbers (fh_meta (vs_heap vs)) (v_files (current_version vs) ! l)}"
proof -
  have D: "describes (fh_meta (vs_heap vs) a) \<in> D" if "a \<in> set (v_files (current_version vs) ! l)" for a using assms(2,3) that by (simp add: version_ok_def)
  have "d = describes (fh_meta (vs_heap vs) a)" if "d \<in> D" "a \<in> set (v_files (current_version vs) ! l)" "fst d = number (fh_meta (vs_heap vs) a)" for d a
    using assms(1) inj_onD [of fst D d "describes (fh_meta (vs_heap vs) a)"] that D by (simp add: known_files_def describes_def)
  then show ?thesis using D by (auto simp: level_files_def numbers_def describes_def image_iff)
qed

text \<open>
  Runs of a database's version sets under one directory: a new version set, edits, numbers handed out, and restarts, each a new version set that
  recovers what the one before left.
\<close>

inductive manifest_run :: "comparator \<Rightarrow> (u64 \<times> u64 \<times> bytes \<times> bytes) set \<Rightarrow> bytes \<Rightarrow> VersionSet \<Rightarrow> Env \<Rightarrow> bool" for c D db where
  start: "new_VersionSet db options c h = Some vs \<Longrightarrow> fh_freed h \<subseteq> {..<fh_next h} \<Longrightarrow> no_faults env \<Longrightarrow> manifest_run c D db vs env"
| edit: "manifest_run c D db vs env \<Longrightarrow> client_edit c D e \<Longrightarrow> LogAndApply vs env e = Some (s, e', vs', env') \<Longrightarrow> manifest_run c D db vs' env'"
| new_number: "manifest_run c D db vs env \<Longrightarrow> NewFileNumber vs = (n, vs') \<Longrightarrow> manifest_run c D db vs' env"
| reuse_number: "manifest_run c D db vs env \<Longrightarrow> manifest_run c D db (ReuseFileNumber vs n) env"
| mark_number: "manifest_run c D db vs env \<Longrightarrow> manifest_run c D db (MarkFileNumberUsed vs n) env"
| sequence: "manifest_run c D db vs env \<Longrightarrow> manifest_run c D db (vs_SetLastSequence vs n) env"
| restart: "manifest_run c D db vs env \<Longrightarrow> vs_descriptor vs \<noteq> None \<Longrightarrow> new_VersionSet db options c h = Some vs0 \<Longrightarrow> fh_freed h \<subseteq> {..<fh_next h} \<Longrightarrow>
    \<not> opt_reuse_logs options \<Longrightarrow> Recover vs0 env = Some (s, save, vs', env') \<Longrightarrow> manifest_run c D db vs' env'"

lemma run_ok_numbers:
  assumes "run_ok c D vs env"
  shows "NewFileNumber vs = (n, vs') \<Longrightarrow> run_ok c D vs' env \<and> vs_dbname vs' = vs_dbname vs" "run_ok c D (ReuseFileNumber vs k) env \<and> vs_dbname (ReuseFileNumber vs k) = vs_dbname vs"
    "run_ok c D (MarkFileNumberUsed vs k) env \<and> vs_dbname (MarkFileNumberUsed vs k) = vs_dbname vs" "run_ok c D (vs_SetLastSequence vs k) env \<and> vs_dbname (vs_SetLastSequence vs k) = vs_dbname vs"
proof -
  have N: "run_ok c D (vs\<lparr>vs_next_file_number := m\<rparr>) env" "run_ok c D (vs\<lparr>vs_last_sequence := m\<rparr>) env" for m
    using assms by (simp_all add: run_ok_def logged_def holds_def current_version_def)
  then show "NewFileNumber vs = (n, vs') \<Longrightarrow> run_ok c D vs' env \<and> vs_dbname vs' = vs_dbname vs" "run_ok c D (ReuseFileNumber vs k) env \<and> vs_dbname (ReuseFileNumber vs k) = vs_dbname vs"
    "run_ok c D (MarkFileNumberUsed vs k) env \<and> vs_dbname (MarkFileNumberUsed vs k) = vs_dbname vs" "run_ok c D (vs_SetLastSequence vs k) env \<and> vs_dbname (vs_SetLastSequence vs k) = vs_dbname vs"
    using assms by (auto simp: NewFileNumber_def ReuseFileNumber_def MarkFileNumberUsed_def vs_SetLastSequence_def)
qed

lemma complete_records_upto:
  assumes "length (wf_data (dest (log_of es))) \<le> k"
  shows "complete_records k empty_log (map encode (es @ [e])) = map encode (if length (wf_data (dest (log_of (es @ [e])))) \<le> k then es @ [e] else es)"
proof -
  have A: "complete_records k w (xs @ ys) = xs @ complete_records k (write_records w xs) ys" if "writer_at w p" "length (wf_data (dest (write_records w xs))) \<le> k" for w p xs ys
    using that
  proof (induction xs arbitrary: w p)
    case (Cons x xs)
    obtain q where q: "writer_at (snd (AddRecord w x)) q" using AddRecord_writer_at [OF Cons.prems(1)] by blast
    have "length (wf_data (dest (snd (AddRecord w x)))) \<le> k" using write_records_extends [OF q, of xs] Cons.prems(2) by (auto simp: write_records_Cons)
    then show ?case using Cons.IH [OF q] Cons.prems(2) by (simp add: write_records_Cons)
  qed (simp add: write_records_def)
  have "log_of (es @ [e]) = snd (AddRecord (log_of es) (encode e))" by (simp add: write_records_def)
  then show ?thesis using A [OF writer_at_empty assms, of "[encode e]"] by (simp add: Let_def)
qed

lemma run_recovers:
  assumes "total_comparator c" "length (Name c) < 2 ^ 32" "known_files D" "run_ok c D vs env" "logged vs env (es @ [e])" "holds c D vs (es @ [e])"
    "new_VersionSet (vs_dbname vs) options c h = Some vs0" "fh_freed h \<subseteq> {..<fh_next h}"
  obtains save vs' env' where "Recover vs0 env = Some (Status_OK, save, vs', env')" "\<And>l. l < kNumLevels \<Longrightarrow> level_files vs' l = level_files vs l"
    "vs_compact_pointer vs' = vs_compact_pointer vs" "vs_log_number vs' = vs_log_number vs" "vs_prev_log_number vs' = vs_prev_log_number vs"
    "vs_last_sequence vs' = ve_last_sequence e" "vs_next_file_number vs' = ve_next_file_number e + 1" "vs_dbname vs' = vs_dbname vs"
    "\<not> opt_reuse_logs options \<Longrightarrow> run_ok c D vs' env'"
proof -
  let ?es = "es @ [e]"
  obtain n where n: "env_files env (DescriptorFileName (vs_dbname vs) n) = Some (wf_data (dest (log_of ?es)))"
    "env_files env (CurrentFileName (vs_dbname vs)) = Some (file_part (vs_dbname vs) (DescriptorFileName (vs_dbname vs) n) @ [10])"
    using assms(5) by (auto simp: logged_def)
  let ?k = "length (wf_data (dest (log_of ?es)))"
  have cr: "complete_records ?k empty_log (map encode ?es) = map encode ?es" by (rule complete_records_all [OF writer_at_empty]) simp
  have H: "\<forall>e\<in>set ?es. client_edit c D e" "writes_fields (last ?es)" "\<And>l. l < kNumLevels \<Longrightarrow> numbers (fh_meta (vs_heap vs)) (v_files (current_version vs) ! l) = replay ?es l"
    "vs_compact_pointer vs = replay_pointers ?es" "vs_log_number vs = ve_log_number e" "vs_prev_log_number vs = ve_prev_log_number e"
    using assms(6) unfolding holds_def writes_fields_def by auto
  have nf: "no_faults env" and vo: "version_ok c D (vs_heap vs) (v_files (current_version vs))" and po: "pointers_ok (vs_compact_pointer vs)" using assms(4) by (simp_all add: run_ok_def)
  obtain save vs' env' where R: "Recover vs0 env = Some (Status_OK, save, vs', env')" "vs_ok vs' (\<lambda>_. 0) {#}" "version_ok c D (vs_heap vs') (v_files (current_version vs'))"
    "\<And>l. l < kNumLevels \<Longrightarrow> numbers (fh_meta (vs_heap vs')) (v_files (current_version vs') ! l) = replay ?es l" "vs_compact_pointer vs' = replay_pointers ?es"
    "vs_log_number vs' = ve_log_number (last ?es)" "vs_prev_log_number vs' = ve_prev_log_number (last ?es)" "vs_last_sequence vs' = ve_last_sequence (last ?es)"
    "vs_next_file_number vs' = ve_next_file_number (last ?es) + 1" "vs_dbname vs' = vs_dbname vs" "vs_ucmp vs' = c"
    "\<not> opt_reuse_logs options \<Longrightarrow> env' = env \<and> vs_descriptor vs' = None"
    using Recover_log [OF assms(1,7,8) nf n(2), where k = ?k and es = ?es and es' = ?es and D = D] n(1) cr H(1,2) by auto
  have lf: "level_files vs' l = level_files vs l" if "l < kNumLevels" for l
    by (simp add: level_files_numbers [OF assms(3) vo that] level_files_numbers [OF assms(3) R(3) that] H(3) [OF that] R(4) [OF that])
  have ro: "run_ok c D vs' env'" if "\<not> opt_reuse_logs options"
    unfolding run_ok_def using R(2,3,11) R(12) [OF that] nf po H(4) R(5) by auto
  show ?thesis by (rule that [OF R(1) lf _ _ _ _ _ R(10) ro]) (use R H in simp_all)
qed

lemma manifest_run_ok:
  assumes "total_comparator c" "length (Name c) < 2 ^ 32" "known_files D"
  shows "manifest_run c D db vs env \<Longrightarrow> run_ok c D vs env \<and> vs_dbname vs = db"
proof (induction rule: manifest_run.induct)
  case (start options h vs env)
  note N = new_VersionSet_fields [OF start(1)]
  have "version_ok c D (vs_heap vs) (v_files (current_version vs))" using N by (simp add: current_version_def version_ok_def files_in_order_def)
  moreover have "pointers_ok (vs_compact_pointer vs)" using N by (simp add: pointers_ok_def)
  ultimately show ?case using new_VersionSet_ok [OF start(1,2)] start(3) N by (auto simp: run_ok_def)
next
  case (edit vs env e s e' vs' env')
  then show ?case using LogAndApply_run [OF assms, of vs env e] by (metis option.inject prod.inject)
next
  case (restart vs env options h vs0 s save vs' env')
  then obtain es where es: "logged vs env es" "holds c D vs es" by (auto simp: run_ok_def)
  then obtain es' e where e: "es = es' @ [e]" by (cases es rule: rev_cases) (auto simp: holds_def)
  have db: "vs_dbname vs = db" using restart by blast
  show ?case using run_recovers [OF assms _ es [unfolded e], of options h vs0] restart db by (metis option.inject prod.inject)
qed (use run_ok_numbers in metis)+

section \<open>Properties\<close>


text \<open>
  C3. A crash while an edit is written to an open manifest, at any byte of its record, loses the edit and nothing else: a new version set recovers,
  in each level, the files of the version before the edit, and its compaction pointers and log numbers.
\<close>

theorem crash_loses_only_the_edit:
  assumes "total_comparator c" "length (Name c) < 2 ^ 32" "known_files D" "manifest_run c D db vs env" "client_edit c D e"
    "LogAndApply vs env e = Some (s, e', vs1, env1)" "vs_descriptor vs = Some (fname, w)" "env_files env fname = Some before" "env_files env1 fname = Some after"
    "length before \<le> k" "k < length after" "new_VersionSet db options c h = Some vs0" "fh_freed h \<subseteq> {..<fh_next h}"
  shows "\<exists>save vs2 env2. Recover vs0 (env1\<lparr>env_files := (env_files env1)(fname \<mapsto> take k after)\<rparr>) = Some (Status_OK, save, vs2, env2) \<and>
    (\<forall>l < kNumLevels. level_files vs2 l = level_files vs l) \<and> vs_compact_pointer vs2 = vs_compact_pointer vs \<and>
    vs_log_number vs2 = vs_log_number vs \<and> vs_prev_log_number vs2 = vs_prev_log_number vs"
proof -
  have R: "run_ok c D vs env" "vs_dbname vs = db" using manifest_run_ok [OF assms(1-3,4)] by blast+
  let ?E = "final_edit vs e" and ?env = "env1\<lparr>env_files := (env_files env1)(fname \<mapsto> take k after)\<rparr>"
  have ne: "vs_descriptor vs \<noteq> None" using assms(7) by simp
  obtain vs' env' es where L: "LogAndApply vs env e = Some (Status_OK, ?E, vs', env')" "run_ok c D vs' env'" "logged vs' env' (es @ [?E])" "vs_dbname vs' = vs_dbname vs"
    "holds c D vs es \<and> (\<exists>n. vs_descriptor vs = Some (DescriptorFileName (vs_dbname vs) n, log_of es) \<and>
       env_files env (DescriptorFileName (vs_dbname vs) n) = Some (wf_data (dest (log_of es))) \<and>
       env_files env' = (env_files env)(DescriptorFileName (vs_dbname vs) n \<mapsto> wf_data (dest (log_of (es @ [?E])))))"
    using LogAndApply_run [OF assms(1-3) R(1) assms(5)] ne by metis
  have e: "env1 = env'" using assms(6) L(1) by auto
  obtain n where n: "fname = DescriptorFileName db n" "w = log_of es" "before = wf_data (dest (log_of es))" "after = wf_data (dest (log_of (es @ [?E])))"
    using L(5) assms(7-9) R(2) e by auto
  have cur: "env_files env' (CurrentFileName db) = Some (file_part db (DescriptorFileName db n) @ [10])"
  proof -
    obtain m where m: "vs_descriptor vs' = Some (DescriptorFileName db m, log_of (es @ [?E]))" "env_files env' (DescriptorFileName db m) = Some (wf_data (dest (log_of (es @ [?E]))))"
      "env_files env' (CurrentFileName db) = Some (file_part db (DescriptorFileName db m) @ [10])" using L(3,4) R(2) by (auto simp: logged_def)
    obtain es1 n1 where "vs_descriptor vs = Some (DescriptorFileName db n1, log_of es1)" "env_files env (CurrentFileName db) = Some (file_part db (DescriptorFileName db n1) @ [10])"
      using R ne by (auto simp: run_ok_def logged_def)
    moreover have "env_files env' (CurrentFileName db) = env_files env (CurrentFileName db)" using L(5) descriptor_names(2) [of db _ db] R(2) by (metis fun_upd_other)
    ultimately show ?thesis using assms(7) n(1) by simp
  qed
  have H: "\<forall>e\<in>set es. client_edit c D e" "es \<noteq> []" "writes_fields (last es)" "\<And>l. l < kNumLevels \<Longrightarrow> numbers (fh_meta (vs_heap vs)) (v_files (current_version vs) ! l) = replay es l"
    "vs_compact_pointer vs = replay_pointers es" "vs_log_number vs = ve_log_number (last es)" "vs_prev_log_number vs = ve_prev_log_number (last es)"
    using L(5) unfolding holds_def writes_fields_def by auto
  have vo: "version_ok c D (vs_heap vs) (v_files (current_version vs))" using R(1) by (simp add: run_ok_def)
  have cr: "complete_records k empty_log (map encode (es @ [?E])) = map encode es"
    using complete_records_upto [of es k ?E] assms(10,11) n(3,4) by simp
  have env: "no_faults ?env" "env_files ?env (CurrentFileName db) = Some (file_part db (DescriptorFileName db n) @ [10])"
    "env_files ?env (DescriptorFileName db n) = Some (take k (wf_data (dest (log_of (es @ [?E])))))"
    using L(2) cur descriptor_names(2) [of db n db] by (simp_all add: e n run_ok_def no_faults_def)
  obtain save vs2 env2 where C: "Recover vs0 ?env = Some (Status_OK, save, vs2, env2)" "version_ok c D (vs_heap vs2) (v_files (current_version vs2))"
    "\<And>l. l < kNumLevels \<Longrightarrow> numbers (fh_meta (vs_heap vs2)) (v_files (current_version vs2) ! l) = replay es l" "vs_compact_pointer vs2 = replay_pointers es"
    "vs_log_number vs2 = ve_log_number (last es)" "vs_prev_log_number vs2 = ve_prev_log_number (last es)"
    using Recover_log [OF assms(1,12,13) env cr H(1-3)] by metis
  have "level_files vs2 l = level_files vs l" if "l < kNumLevels" for l
    by (simp add: level_files_numbers [OF assms(3) vo that] level_files_numbers [OF assms(3) C(2) that] H(4) [OF that] C(3) [OF that])
  then show ?thesis using C H by simp
qed


subsection \<open>An example\<close>

abbreviation empty_env :: Env where
  "empty_env \<equiv> \<lparr>env_files = (\<lambda>_. None), env_script = [], env_reads = [], env_writes = []\<rparr>"

abbreviation sample_key :: bytes where
  "sample_key \<equiv> InternalKey [1] 5 kTypeValue"

abbreviation sample_files :: "(u64 \<times> u64 \<times> bytes \<times> bytes) set" where
  "sample_files \<equiv> {(4, 100, sample_key, sample_key)}"

definition sample_edit :: VersionEdit where
  "sample_edit = AddFile new_VersionEdit 1 4 100 sample_key sample_key"

lemma sample_client: "known_files sample_files" "client_edit BytewiseComparator sample_files sample_edit" "length (Name BytewiseComparator) < 2 ^ 32"
proof -
  have "length sample_key = 9" by (simp add: InternalKey_def AppendInternalKey_def PutFixed64_def)
  then have k: "8 \<le> length sample_key" "length sample_key < 2 ^ 32" "sample_key \<noteq> []" by auto
  show "known_files sample_files" using k by (simp add: known_files_def)
  have "list_all wf_field (ve_fields sample_edit)"
    unfolding wf_fields_iff using k by (simp add: sample_edit_def AddFile_def new_VersionEdit_def ve_Clear_def new_FileMetaData_def kNumLevels_def)
  then show "client_edit BytewiseComparator sample_files sample_edit"
    using k by (simp add: client_edit_def readable_def wf_edit_def)
      (simp add: sample_edit_def AddFile_def new_VersionEdit_def ve_Clear_def edit_ok_def describes_def file_dom_def kNumLevels_def)
  show "length (Name BytewiseComparator) < 2 ^ 32" by (simp add: BytewiseComparator_def)
qed

lemma encoded_nonempty: "encoded p b data out \<Longrightarrow> 0 < length out"
  by (cases rule: encoded.cases) (simp_all only: length_append length_emit_bytes, simp_all add: kHeaderSize_def)

lemma log_of_longer: "length (wf_data (dest (log_of es))) < length (wf_data (dest (log_of (es @ [e]))))"
proof -
  obtain q where q: "writer_at (log_of es) q" using writer_at_records [OF writer_at_empty] by blast
  obtain out where "encoded q True (encode e) out" "wf_data (dest (snd (AddRecord (log_of es) (encode e)))) = wf_data (dest (log_of es)) @ out"
    using AddRecord_encoded [OF q] by metis
  then show ?thesis using encoded_nonempty by (simp add: write_records_def)
qed

lemma sample_start:
  obtains vs where "new_VersionSet [] new_Options BytewiseComparator empty_heap = Some vs" "fh_freed empty_heap \<subseteq> {..<fh_next empty_heap}"
    "manifest_run BytewiseComparator sample_files [] vs empty_env"
proof -
  obtain vs where n: "new_VersionSet [] new_Options BytewiseComparator empty_heap = Some vs" by (simp add: new_VersionSet_def AppendVersion_def)
  have h: "fh_freed empty_heap \<subseteq> {..<fh_next empty_heap}" by (simp add: empty_heap_def)
  show ?thesis by (rule that [OF n h]) (rule manifest_run.start [OF n h], simp add: no_faults_def)
qed


theorem crash_loses_only_the_edit_witness:
  "\<exists>vs env vs0 e' vs1 env1 fname after k save vs2 env2. vs_descriptor vs \<noteq> None \<and> LogAndApply vs env sample_edit = Some (Status_OK, e', vs1, env1) \<and>
     env_files env1 fname = Some after \<and> k < length after \<and>
     Recover vs0 (env1\<lparr>env_files := (env_files env1)(fname \<mapsto> take k after)\<rparr>) = Some (Status_OK, save, vs2, env2) \<and> level_files vs2 1 = level_files vs 1"
proof -
  note T = bytewise.total_comparator_axioms and S = sample_client
  obtain vs0 where n: "new_VersionSet [] new_Options BytewiseComparator empty_heap = Some vs0" "fh_freed empty_heap \<subseteq> {..<fh_next empty_heap}"
    "manifest_run BytewiseComparator sample_files [] vs0 empty_env" by (rule sample_start)
  have R0: "run_ok BytewiseComparator sample_files vs0 empty_env" using manifest_run_ok [OF T S(3,1) n(3)] by blast
  obtain vs env es where l: "LogAndApply vs0 empty_env sample_edit = Some (Status_OK, final_edit vs0 sample_edit, vs, env)" "run_ok BytewiseComparator sample_files vs env"
    "logged vs env es"
    using LogAndApply_run [OF T S(3,1) R0 S(2)] by metis
  have run: "manifest_run BytewiseComparator sample_files [] vs env" by (rule manifest_run.edit [OF n(3) S(2) l(1)])
  have ne: "vs_descriptor vs \<noteq> None" using l(3) by (auto simp: logged_def)
  obtain vs1 env1 es1 m where l1: "LogAndApply vs env sample_edit = Some (Status_OK, final_edit vs sample_edit, vs1, env1)"
    "vs_descriptor vs = Some (DescriptorFileName (vs_dbname vs) m, log_of es1)" "env_files env (DescriptorFileName (vs_dbname vs) m) = Some (wf_data (dest (log_of es1)))"
    "env_files env1 = (env_files env)(DescriptorFileName (vs_dbname vs) m \<mapsto> wf_data (dest (log_of (es1 @ [final_edit vs sample_edit]))))"
    using LogAndApply_run [OF T S(3,1) l(2) S(2)] ne by metis
  let ?after = "wf_data (dest (log_of (es1 @ [final_edit vs sample_edit])))" and ?k = "length (wf_data (dest (log_of es1)))" and ?f = "DescriptorFileName (vs_dbname vs) m"
  have a: "env_files env1 ?f = Some ?after" using l1(4) by simp
  from crash_loses_only_the_edit [OF T S(3,1) run S(2) l1(1,2,3) a order_refl log_of_longer n(1,2)]
  obtain save vs2 env2 where "Recover vs0 (env1\<lparr>env_files := (env_files env1)(?f \<mapsto> take ?k ?after)\<rparr>) = Some (Status_OK, save, vs2, env2)" "level_files vs2 1 = level_files vs 1"
    by (auto simp: kNumLevels_def)
  then show ?thesis using ne l1(1) a log_of_longer [of es1 "final_edit vs sample_edit"] by blast
qed

end
