(* ===== verification/Spec2Isabelle.thy ===== *)
theory Spec2Isabelle
  imports Coding LoggingUtil Comparators Filters DbFormat FileNames Crc32c Statuses Envs LogFormat
    Randoms WriteBatches SkipLists MemTables VersionEdits Iterators Blocks Bindings Mergers TwoLevels Caches FilterBlocks TableFormat TableBuilders Tables DBIters TableCaches VersionFiles Versions VersionReads VersionBuilders VersionSets FileSystems Manifests VersionRefs ManifestLogs ManifestRuns
begin

text \<open>
  This library models the native code of \<open>react-native-leveldb\<close>: the JSI binding \<open>cpp/react-native-leveldb.cpp\<close> and the
  LevelDB sources it is built on, under \<open>cpp/leveldb\<close>. Every theory opens with what it holds; this is the map of the whole.

  \<^bold>\<open>The program.\<close> JavaScript calls host functions of the binding, which keep three tables of handles (databases,
  iterators, write batches) and call LevelDB. A write batch is one byte string; a database appends it to a log file and inserts it into
  a memtable (a skip list). Full memtables become sorted table files; a version lists the table files of each of seven levels; changes of
  the version are edits appended to a manifest log. A read looks in the memtables and then in the files of the version, through a cache of
  open tables and a cache of blocks. An iterator merges the memtables and the files and shows one snapshot of them.

  \<^bold>\<open>Foundations.\<close>
  \<^item> \<open>Prelude\<close>: bytes and words, collections of simplification rules.
  \<^item> \<open>Coding\<close> (\<open>util/coding\<close>), \<open>LoggingUtil\<close> (\<open>util/logging\<close>), \<open>Crc32c\<close> (\<open>util/crc32c\<close>), \<open>Randoms\<close>
    (\<open>util/random.h\<close>), \<open>Statuses\<close> (\<open>util/status\<close>): each function with its wrap-around at its width; encodings round-trip,
    the table-driven checksum is the bitwise one, the generator stays in its range.
  \<^item> \<open>Comparators\<close>, \<open>Filters\<close>, \<open>DbFormat\<close> (\<open>util/comparator\<close>, \<open>util/hash\<close>, \<open>util/bloom\<close>, \<open>db/dbformat\<close>): the
    contracts of comparators and filter policies are locales; the bytewise comparator, the Bloom filter, and the internal comparator and filter
    over any user's are interpretations.
  \<^item> \<open>FileNames\<close> (\<open>db/filename\<close>) and \<open>Envs\<close> (\<open>include/leveldb/env.h\<close>): files are their bytes and a script of the statuses
    that their next calls return, so that every error path can be driven.

  \<^bold>\<open>Writing.\<close>
  \<^item> \<open>LogFormat\<close> (\<open>db/log_writer\<close>, \<open>db/log_reader\<close>): a log cut anywhere reads back the records written before the cut.
  \<^item> \<open>WriteBatches\<close> (\<open>db/write_batch\<close>): a batch refines a list of updates. \<open>SkipLists\<close>, \<open>MemTables\<close> (\<open>db/skiplist.h\<close>,
    \<open>db/memtable\<close>): the skip list refines a sorted list, over a heap of nodes; the memtable refines the history of what was added.
  \<^item> \<open>Blocks\<close>, \<open>FilterBlocks\<close>, \<open>TableFormat\<close>, \<open>TableBuilders\<close>, \<open>Tables\<close> (\<open>table/\<close>): what the builders write, the readers
    read back, for every block size, compression and filter policy; a corrupted block is read as the code reads it.

  \<^bold>\<open>Reading.\<close>
  \<^item> \<open>Iterators\<close> (\<open>include/leveldb/iterator.h\<close>): the interface as a record of operations and its contract as the locale
    \<open>list_iterator\<close>: a state represents a list of entries and a position. \<open>Mergers\<close> and \<open>TwoLevels\<close> (\<open>table/merger\<close>,
    \<open>table/two_level_iterator\<close>) prove that they keep the contract when what they are built on does; \<open>DBIters\<close> (\<open>db/db_iter\<close>)
    shows the view of a snapshot over any such iterator.
  \<^item> \<open>Caches\<close> (\<open>util/cache\<close>): the sharded, reference-counted LRU cache over a heap of handles, its calls in any order.
    \<open>TableCaches\<close> (\<open>db/table_cache\<close>): open tables under file numbers.
  \<^item> \<open>VersionFiles\<close>, \<open>Versions\<close>, \<open>VersionReads\<close> (\<open>db/version_set\<close>): searches in the file lists, and lookups over the
    levels, which find the newest visible entry.

  \<^bold>\<open>Versions on disk.\<close>
  \<^item> \<open>FileSystems\<close> (\<open>util/env\<close>, \<open>db/filename\<close>): the environment's files by name, every call of which may fail;
    whole files, and the switch of \<open>CURRENT\<close>, which is all or nothing.
  \<^item> \<open>VersionEdits\<close> (\<open>db/version_edit\<close>), \<open>VersionBuilders\<close>, \<open>VersionSets\<close>, \<open>Manifests\<close>
    (\<open>db/version_set\<close>): edits and their encoding, the builder that applies them, the state of the version set with the scores of
    levels in rounded arithmetic, and the manifest, written by \<open>LogAndApply\<close> and read by \<open>Recover\<close>.
  \<^item> \<open>VersionRefs\<close>, \<open>ManifestLogs\<close>, \<open>ManifestRuns\<close>: reference counts of versions and files under every order of calls and
    every failure; what is written is what is recovered, after any run, and a crash loses at most the last edit.
  \<^bold>\<open>The binding.\<close> \<open>Bindings\<close> models every host function over the tables of handles, with the LevelDB operations as a record.

  \<^bold>\<open>Conventions.\<close> A read out of bounds, a use of a freed object and any other undefined behaviour is \<open>None\<close>, and so is a loop
  that does not end (\<open>partial_function\<close>); what returns is proved to return. Errors that the code reports are \<open>Status\<close> values. Objects that
  are shared and mutated are addresses into a heap (skip-list nodes, cache handles, file metadata); others are values. Assertions are not
  compiled in. Counters are bounded where the code would wrap (fewer than \<open>2 ^ 31\<close> calls of a cache, files of a level or bytes of a
  table below \<open>2 ^ 31\<close> and \<open>2 ^ 32\<close>), and the theorems that need the bound state it.

  \<^bold>\<open>Parameters.\<close> The Snappy library is a parameter with the contract \<open>snappy_contract\<close>; comparators and filter policies are
  records with their contracts; the environment's files answer as \<open>Envs\<close> and \<open>TableFormat\<close> say.

  \<^bold>\<open>Not modelled.\<close> Not modelled are: \<open>db/db_impl\<close> (threads, the write queue, compactions in the background), the choice of compaction inputs,
  \<open>db/builder\<close>, \<open>db/repair\<close>, \<open>db/dumpfile\<close>, \<open>db/leveldbutil\<close>, \<open>db/c\<close>, \<open>util/arena\<close> and \<open>util/histogram\<close> (memory and statistics only),
  \<open>util/env_posix\<close>, \<open>util/env_windows\<close> and \<open>helpers/memenv\<close> (implementations of the environment), informational logging, tests and benchmarks,
  and the TypeScript, iOS and Android glue. Mutexes are modelled by taking each call that holds one as a single step.
\<close>

end
